(* ===== verification/Bit_Prelude.thy ===== *)
theory Bit_Prelude
  imports Main "HOL-Library.Word" "HOL-Library.Product_Lexorder"
begin

text \<open>
  Shared vocabulary of the development: the machine types, the error values, the
  result and reader combinators that the Rust code writes with \<open>?\<close>, the
  three-valued \<open>Ordering\<close>, byte slices and their comparison, UTF-8 validity, ASCII numbers,
  and the generic lemmas the component theories share. Nothing in here is specific to one
  component.

  The build the README describes is the release profile, so integer overflow wraps, a shift
  amount is taken modulo the width and \<open>debug_assert!\<close> does nothing; \<open>assert!\<close>,
  \<open>unwrap\<close>, slicing out of range and \<open>panic!\<close> are the error \<open>Panic\<close>.
\<close>

unbundle bit_operations_syntax

section \<open>Machine types, errors and results\<close>

type_synonym byte = "8 word"
type_synonym u16 = "16 word"
type_synonym u32 = "32 word"
type_synonym u64 = "64 word"

text \<open>
  \<open>Panic\<close> is a Rust panic, \<open>UnexpectedEof\<close> the error of \<open>read_exact\<close> on a short input,
  \<open>Bail\<close> an \<open>anyhow\<close> error raised by \<open>bail!\<close>, \<open>ensure!\<close> or by a parser of the standard
  library, and \<open>Diverge\<close> the value of a loop that does not return.
\<close>

datatype bit_error = Panic | UnexpectedEof | Bail string | Diverge

type_synonym 'a bit_result = "bit_error + 'a"

definition and_then :: "'e + 'a \<Rightarrow> ('a \<Rightarrow> 'e + 'b) \<Rightarrow> 'e + 'b" where
  "and_then m f = (case m of Inl e \<Rightarrow> Inl e | Inr x \<Rightarrow> f x)"

definition ensure :: "bool \<Rightarrow> 'e \<Rightarrow> 'e + unit" where
  "ensure b e = (if b then Inr () else Inl e)"

fun traverse :: "('a \<Rightarrow> 'e + 'b) \<Rightarrow> 'a list \<Rightarrow> 'e + 'b list" where
  "traverse f [] = Inr []"
| "traverse f (x # xs) = and_then (f x) (\<lambda>y. and_then (traverse f xs) (\<lambda>ys. Inr (y # ys)))"

text \<open>A fold that stops at the first error: a \<open>for\<close> loop whose body uses \<open>?\<close>.\<close>

fun try_fold :: "('s \<Rightarrow> 'a \<Rightarrow> 'e + 's) \<Rightarrow> 's \<Rightarrow> 'a list \<Rightarrow> 'e + 's" where
  "try_fold f s [] = Inr s"
| "try_fold f s (x # xs) = and_then (f s x) (\<lambda>s'. try_fold f s' xs)"

lemma and_then_Inl [simp]: "and_then (Inl e) f = Inl e"
  by (simp add: and_then_def)

lemma and_then_Inr [simp]: "and_then (Inr x) f = f x"
  by (simp add: and_then_def)

lemma and_then_eq_Inr: "and_then m f = Inr y \<longleftrightarrow> (\<exists>x. m = Inr x \<and> f x = Inr y)"
  by (cases m) auto

lemma and_then_eq_Inl: "and_then m f = Inl e \<longleftrightarrow> m = Inl e \<or> (\<exists>x. m = Inr x \<and> f x = Inl e)"
  by (cases m) auto

lemma and_then_assoc: "and_then (and_then m f) g = and_then m (\<lambda>x. and_then (f x) g)"
  by (cases m) auto

lemma ensure_simps [simp]: "ensure True e = Inr ()" "ensure False e = Inl e"
  by (simp_all add: ensure_def)

lemma ensure_eq_Inr: "ensure b e = Inr u \<longleftrightarrow> b"
  by (simp add: ensure_def)

lemma traverse_eq_Inr: "traverse f xs = Inr ys \<longleftrightarrow> list_all2 (\<lambda>x y. f x = Inr y) xs ys"
  by (induction xs arbitrary: ys) (auto simp: and_then_eq_Inr list_all2_Cons1)

lemma traverse_set: "traverse f xs = Inr ys \<Longrightarrow> y \<in> set ys \<longleftrightarrow> (\<exists>x \<in> set xs. f x = Inr y)"
  by (induction xs arbitrary: ys) (auto simp: and_then_eq_Inr)

lemma traverse_eq_Inl: "traverse f xs = Inl e \<Longrightarrow> \<exists>x \<in> set xs. f x = Inl e"
  by (induction xs) (auto simp: and_then_eq_Inl)

lemma traverse_total: "(\<exists>ys. traverse f xs = Inr ys) \<longleftrightarrow> (\<forall>x \<in> set xs. \<exists>y. f x = Inr y)"
  by (induction xs) (auto simp: and_then_eq_Inr)

lemma traverse_cong_Inr: "(\<And>x. x \<in> set xs \<Longrightarrow> f x = Inr (g x)) \<Longrightarrow> traverse f xs = Inr (map g xs)"
  by (induction xs) auto

lemma try_fold_append: "try_fold f s (xs @ ys) = and_then (try_fold f s xs) (\<lambda>s'. try_fold f s' ys)"
  by (induction xs arbitrary: s) (auto simp: and_then_assoc)

lemma try_fold_total: "(\<And>s x. x \<in> set xs \<Longrightarrow> f s x = Inr (g s x)) \<Longrightarrow> try_fold f s xs = Inr (foldl g s xs)"
  by (induction xs arbitrary: s) auto

lemma try_fold_invariant:
  assumes "try_fold f s xs = Inr s'" and "P s"
    and "\<And>s x t. x \<in> set xs \<Longrightarrow> P s \<Longrightarrow> f s x = Inr t \<Longrightarrow> P t"
  shows "P s'"
  using assms
proof (induction xs arbitrary: s)
  case Nil
  then show ?case by simp
next
  case (Cons x xs)
  from Cons.prems(1) obtain t where t: "f s x = Inr t" and rest: "try_fold f t xs = Inr s'"
    by (auto simp: and_then_eq_Inr)
  have "P t" by (rule Cons.prems(3) [OF _ Cons.prems(2) t]) simp
  then show ?case by (meson Cons.IH Cons.prems(3) list.set_intros(2) rest)
qed

section \<open>Three-valued comparison\<close>

datatype ordering = Less | Equal | Greater

fun then_with :: "ordering \<Rightarrow> ordering \<Rightarrow> ordering" where
  "then_with Equal o2 = o2"
| "then_with o1 o2 = o1"

fun reverse_ordering :: "ordering \<Rightarrow> ordering" where
  "reverse_ordering Less = Greater"
| "reverse_ordering Equal = Equal"
| "reverse_ordering Greater = Less"

definition ord_cmp :: "'a::linorder \<Rightarrow> 'a \<Rightarrow> ordering" where
  "ord_cmp x y = (if x < y then Less else if x = y then Equal else Greater)"

text \<open>Comparison of slices: the first difference decides, a proper prefix is less.\<close>

fun slice_cmp :: "'a::linorder list \<Rightarrow> 'a list \<Rightarrow> ordering" where
  "slice_cmp [] [] = Equal"
| "slice_cmp [] (y # ys) = Less"
| "slice_cmp (x # xs) [] = Greater"
| "slice_cmp (x # xs) (y # ys) = then_with (ord_cmp x y) (slice_cmp xs ys)"

lemma ord_cmp_iff [simp]:
  "ord_cmp x y = Less \<longleftrightarrow> x < y" "ord_cmp x y = Equal \<longleftrightarrow> x = y" "ord_cmp x y = Greater \<longleftrightarrow> y < x"
  by (auto simp: ord_cmp_def)

lemma ord_cmp_refl [simp]: "ord_cmp x x = Equal"
  by simp

lemma ord_cmp_lt: "x < y \<Longrightarrow> ord_cmp x y = Less" and ord_cmp_gt: "y < x \<Longrightarrow> ord_cmp x y = Greater"
  by simp_all

lemma then_with_eq:
  "then_with a b = Equal \<longleftrightarrow> a = Equal \<and> b = Equal"
  "then_with a b = Less \<longleftrightarrow> a = Less \<or> (a = Equal \<and> b = Less)"
  "then_with a b = Greater \<longleftrightarrow> a = Greater \<or> (a = Equal \<and> b = Greater)"
  by (cases a; simp)+

lemma slice_cmp_refl [simp]: "slice_cmp xs xs = Equal"
  by (induction xs) auto

lemma slice_cmp_Equal [simp]: "slice_cmp xs ys = Equal \<longleftrightarrow> xs = ys"
  by (induction xs ys rule: slice_cmp.induct) (auto simp: then_with_eq)

lemma slice_cmp_swap: "slice_cmp ys xs = reverse_ordering (slice_cmp xs ys)"
  by (induction xs ys rule: slice_cmp.induct)
     (auto simp: ord_cmp_def)

lemma slice_cmp_Greater: "slice_cmp xs ys = Greater \<longleftrightarrow> slice_cmp ys xs = Less"
  using slice_cmp_swap [of ys xs] by (cases "slice_cmp xs ys") simp_all

lemma slice_cmp_Less_trans:
  "slice_cmp xs ys = Less \<Longrightarrow> slice_cmp ys zs = Less \<Longrightarrow> slice_cmp xs zs = Less"
proof (induction xs ys arbitrary: zs rule: slice_cmp.induct)
  case (2 y ys)
  then show ?case by (cases zs) auto
next
  case (4 x xs y ys)
  then show ?case
    by (cases zs) (auto simp: then_with_eq)
qed auto

lemma slice_cmp_prefix [simp]: "slice_cmp (ps @ xs) (ps @ ys) = slice_cmp xs ys"
  by (induction ps) auto

lemma slice_cmp_append_right: "slice_cmp xs (xs @ ys) = (if ys = [] then Equal else Less)"
  by (induction xs) (cases ys; auto)+

section \<open>Bytes, strings and UTF-8\<close>

definition bytes_of :: "string \<Rightarrow> byte list" where
  "bytes_of s = map of_char s"

lemma bytes_of_simps [simp]:
  "bytes_of [] = []" "bytes_of (c # cs) = of_char c # bytes_of cs"
  by (simp_all add: bytes_of_def)

lemma unat_byte_less: "unat (b::byte) < 256"
  using unsigned_less [of b] by simp

abbreviation b_slash :: byte where "b_slash \<equiv> 47"
abbreviation b_space :: byte where "b_space \<equiv> 32"
abbreviation b_newline :: byte where "b_newline \<equiv> 10"
abbreviation b_cr :: byte where "b_cr \<equiv> 13"
abbreviation b_nul :: byte where "b_nul \<equiv> 0"

text \<open>
  The decoding step of \<open>std::str\<close>: whether the bytes start with a well-formed character (no overlong
  forms, no surrogates, nothing above U+10FFFF) and how many bytes it, or the malformed piece, takes.
\<close>

definition utf8_cont :: "byte \<Rightarrow> bool" where
  "utf8_cont b \<longleftrightarrow> 128 \<le> b \<and> b \<le> 191"

definition utf8_second :: "byte \<Rightarrow> byte \<Rightarrow> bool" where
  "utf8_second a b \<longleftrightarrow>
     (if a = 224 then 160 \<le> b \<and> b \<le> 191
      else if a = 237 then 128 \<le> b \<and> b \<le> 159
      else if a = 240 then 144 \<le> b \<and> b \<le> 191
      else if a = 244 then 128 \<le> b \<and> b \<le> 143
      else utf8_cont b)"

definition nth_is :: "(byte \<Rightarrow> bool) \<Rightarrow> byte list \<Rightarrow> nat \<Rightarrow> bool" where
  "nth_is P bs i \<longleftrightarrow> i < length bs \<and> P (bs ! i)"

definition utf8_char :: "byte list \<Rightarrow> bool \<times> nat" where
  "utf8_char bs =
     (let a = hd bs in
      if a < 128 then (True, 1)
      else if 194 \<le> a \<and> a \<le> 223 then (if nth_is utf8_cont bs 1 then (True, 2) else (False, 1))
      else if 224 \<le> a \<and> a \<le> 239 then
        (if \<not> nth_is (utf8_second a) bs 1 then (False, 1)
         else if nth_is utf8_cont bs 2 then (True, 3) else (False, 2))
      else if 240 \<le> a \<and> a \<le> 244 then
        (if \<not> nth_is (utf8_second a) bs 1 then (False, 1)
         else if \<not> nth_is utf8_cont bs 2 then (False, 2)
         else if nth_is utf8_cont bs 3 then (True, 4) else (False, 3))
      else (False, 1))"

lemma utf8_char_pos: "0 < snd (utf8_char bs)"
  by (simp add: utf8_char_def Let_def)

text \<open>\<open>from_utf8\<close> succeeds on valid text; \<open>display\<close> of a path replaces each malformed piece.\<close>

function utf8_valid :: "byte list \<Rightarrow> bool" where
  "utf8_valid bs =
     (if bs = [] then True else fst (utf8_char bs) \<and> utf8_valid (drop (snd (utf8_char bs)) bs))"
  by pat_completeness auto
termination
  by (relation "measure length") (auto simp: utf8_char_pos)

function utf8_lossy :: "byte list \<Rightarrow> byte list" where
  "utf8_lossy bs =
     (if bs = [] then []
      else (if fst (utf8_char bs) then take (snd (utf8_char bs)) bs else [239, 191, 189])
        @ utf8_lossy (drop (snd (utf8_char bs)) bs))"
  by pat_completeness auto
termination
  by (relation "measure length") (auto simp: utf8_char_pos)

declare utf8_valid.simps [simp del] utf8_lossy.simps [simp del]

definition ascii :: "byte list \<Rightarrow> bool" where
  "ascii bs \<longleftrightarrow> list_all (\<lambda>b. b < 128) bs"

lemma utf8_valid_ascii: "ascii bs \<Longrightarrow> utf8_valid bs"
proof (induction bs)
  case (Cons b bs)
  then show ?case by (subst utf8_valid.simps) (simp add: ascii_def utf8_char_def)
qed (simp add: utf8_valid.simps)

lemma utf8_lossy_valid: "utf8_valid bs \<Longrightarrow> utf8_lossy bs = bs"
proof (induction bs rule: utf8_valid.induct)
  case (1 bs)
  show ?case
  proof (cases "bs = []")
    case False
    then have "fst (utf8_char bs)" "utf8_valid (drop (snd (utf8_char bs)) bs)"
      using 1(2) by (auto simp: utf8_valid.simps [of bs])
    then show ?thesis using 1(1) False by (simp add: utf8_lossy.simps [of bs])
  qed (simp add: utf8_lossy.simps)
qed

lemma utf8_char_True:
  "utf8_char bs = (True, n) \<longleftrightarrow>
     (let a = unat (hd bs) in
       (a < 128 \<and> n = 1)
       \<or> (194 \<le> a \<and> a \<le> 223 \<and> nth_is utf8_cont bs 1 \<and> n = 2)
       \<or> (224 \<le> a \<and> a \<le> 239 \<and> nth_is (utf8_second (hd bs)) bs 1 \<and> nth_is utf8_cont bs 2 \<and> n = 3)
       \<or> (240 \<le> a \<and> a \<le> 244 \<and> nth_is (utf8_second (hd bs)) bs 1 \<and> nth_is utf8_cont bs 2
            \<and> nth_is utf8_cont bs 3 \<and> n = 4))"
proof -
  have le: "(x \<le> y) = (unat x \<le> unat y)" "(x < y) = (unat x < unat y)" for x y :: byte
    by (simp_all add: word_le_nat_alt word_less_nat_alt)
  show ?thesis unfolding utf8_char_def Let_def le by simp linarith
qed

lemma utf8_char_len:
  assumes "bs \<noteq> []" "utf8_char bs = (True, n)"
  shows "n \<le> length bs"
proof -
  have "0 < length bs" using assms(1) by simp
  then show ?thesis using assms(2) unfolding utf8_char_True Let_def nth_is_def by linarith
qed

lemma utf8_char_take:
  assumes "bs \<noteq> []" "utf8_char bs = (True, n)"
  shows "utf8_char (take n bs @ t) = (True, n)"
proof -
  have len: "n \<le> length bs" "0 < n" using utf8_char_len [OF assms] utf8_char_pos [of bs] assms(2) by auto
  have hd: "hd (take n bs @ t) = hd bs" using len assms(1) by (cases bs) (auto simp: take_Cons')
  have key: "\<forall>P i. i < n \<longrightarrow> nth_is P (take n bs @ t) i = nth_is P bs i"
    using len by (auto simp: nth_is_def nth_append)
  from assms(2) key show ?thesis unfolding utf8_char_True Let_def hd by (elim disjE) simp_all
qed

lemma utf8_valid_append: "utf8_valid xs \<Longrightarrow> utf8_valid (xs @ ys) = utf8_valid ys"
proof (induction xs rule: utf8_valid.induct)
  case (1 xs)
  show ?case
  proof (cases "xs = []")
    case False
    obtain n where n: "utf8_char xs = (True, n)" and v: "utf8_valid (drop n xs)"
      using 1(2) False by (cases "utf8_char xs") (auto simp: utf8_valid.simps [of xs])
    have "utf8_char (take n xs @ drop n xs @ ys) = (True, n)" by (rule utf8_char_take [OF False n])
    then have "utf8_char (xs @ ys) = (True, n)" by (simp add: append_assoc [symmetric] del: append_assoc)
    with 1(1) False n v utf8_char_len [OF False n] show ?thesis
      by (simp add: utf8_valid.simps [of "xs @ ys"])
  qed simp
qed

lemma utf8_valid_ascii_Cons: "b < 128 \<Longrightarrow> utf8_valid (b # bs) = utf8_valid bs"
  by (subst utf8_valid.simps) (simp add: utf8_char_def)

lemma utf8_multi_high: "utf8_cont c \<or> utf8_second a c \<Longrightarrow> \<not> c < 128"
  by (auto simp: utf8_cont_def utf8_second_def word_le_nat_alt word_less_nat_alt split: if_splits)

lemma utf8_char_multi:
  assumes "utf8_char bs = (True, n)" "i < n" "bs ! i < 128" "bs \<noteq> []"
  shows "n = 1"
proof (rule ccontr)
  assume n: "n \<noteq> 1"
  have hd: "hd bs = bs ! 0" using assms(4) by (simp add: hd_conv_nth)
  have i: "i = 0 \<or> i = 1 \<or> i = 2 \<or> i = 3"
    using assms(1,2) unfolding utf8_char_True Let_def by auto
  from assms(1) n i assms(2,3) show False
    unfolding utf8_char_True Let_def nth_is_def hd
    by (elim disjE) (auto simp: word_less_nat_alt [of "bs ! 0"] dest!: utf8_multi_high [OF disjI1] utf8_multi_high [OF disjI2])
qed

lemma utf8_valid_split:
  "utf8_valid (xs @ b # ys) \<Longrightarrow> b < 128 \<Longrightarrow> utf8_valid xs \<and> utf8_valid ys"
proof (induction xs rule: utf8_valid.induct)
  case (1 xs)
  let ?bs = "xs @ b # ys"
  show ?case
  proof (cases "xs = []")
    case False
    obtain n where n: "utf8_char ?bs = (True, n)" and v: "utf8_valid (drop n ?bs)"
      using 1(2) by (cases "utf8_char ?bs") (auto simp: utf8_valid.simps [of ?bs])
    have len: "n \<le> length xs"
    proof (rule ccontr)
      assume "\<not> n \<le> length xs"
      then have "n = 1" using utf8_char_multi [OF n, of "length xs"] 1(3) by simp
      then show False using \<open>\<not> n \<le> length xs\<close> False by (cases xs) auto
    qed
    have "utf8_char (take n ?bs @ drop n xs) = (True, n)" by (rule utf8_char_take [OF _ n]) simp
    then have x: "utf8_char xs = (True, n)" using len by simp
    then show ?thesis using 1(1) [OF False] 1(3) v len False by (simp add: utf8_valid.simps [of xs])
  qed (use 1 in \<open>simp add: utf8_valid_ascii_Cons utf8_valid.simps [of "[]"]\<close>)
qed

section \<open>Readers\<close>

text \<open>
  A function of the source that takes \<open>&mut impl BufRead\<close> is a function from the bytes that are
  left to an error or the value and the bytes left after it. \<open>rd_bind\<close> is the sequencing that
  the source writes with \<open>?\<close>.
\<close>

type_synonym 'a reader = "byte list \<Rightarrow> ('a \<times> byte list) bit_result"

definition rd_return :: "'a \<Rightarrow> 'a reader" where
  "rd_return x = (\<lambda>bs. Inr (x, bs))"

definition rd_fail :: "bit_error \<Rightarrow> 'a reader" where
  "rd_fail e = (\<lambda>bs. Inl e)"

definition rd_bind :: "'a reader \<Rightarrow> ('a \<Rightarrow> 'b reader) \<Rightarrow> 'b reader" where
  "rd_bind m f = (\<lambda>bs. and_then (m bs) (\<lambda>(x, bs'). f x bs'))"

definition rd_lift :: "'a bit_result \<Rightarrow> 'a reader" where
  "rd_lift r = (\<lambda>bs. and_then r (\<lambda>x. Inr (x, bs)))"

lemma rd_return_apply [simp]: "rd_return x bs = Inr (x, bs)"
  by (simp add: rd_return_def)

lemma rd_fail_apply [simp]: "rd_fail e bs = Inl e"
  by (simp add: rd_fail_def)

lemma rd_lift_Inr [simp]: "rd_lift (Inr x) bs = Inr (x, bs)"
  by (simp add: rd_lift_def)

lemma rd_lift_Inl [simp]: "rd_lift (Inl e) bs = Inl e"
  by (simp add: rd_lift_def)

lemma rd_bind_Inr: "m bs = Inr (x, bs') \<Longrightarrow> rd_bind m f bs = f x bs'"
  by (simp add: rd_bind_def)

lemma rd_bind_apply: "rd_bind m f bs = and_then (m bs) (\<lambda>(x, bs'). f x bs')"
  by (simp add: rd_bind_def)

lemma rd_bind_Inl: "m bs = Inl e \<Longrightarrow> rd_bind m f bs = Inl e"
  by (simp add: rd_bind_def)

lemma rd_bind_eq_Inr:
  "rd_bind m f bs = Inr r \<longleftrightarrow> (\<exists>x bs'. m bs = Inr (x, bs') \<and> f x bs' = Inr r)"
  by (auto simp: rd_bind_def and_then_eq_Inr)

text \<open>
  A reader never leaves more than it was given. \<open>consumes k\<close> says that a successful read
  takes at least \<open>k\<close> bytes: this is what makes a loop over a reader stop.
\<close>

definition consumes :: "nat \<Rightarrow> 'a reader \<Rightarrow> bool" where
  "consumes k m \<longleftrightarrow> (\<forall>bs x bs'. m bs = Inr (x, bs') \<longrightarrow> length bs' + k \<le> length bs)"

named_theorems consumes_intro \<open>how many bytes a reader takes\<close>

lemma consumes_return [consumes_intro]: "consumes 0 (rd_return x)"
  by (simp add: consumes_def)

lemma consumes_return_eta [consumes_intro]: "consumes 0 (\<lambda>bs. Inr (x, bs))"
  by (simp add: consumes_def)

lemma consumes_fail [consumes_intro]: "consumes k (rd_fail e)"
  by (simp add: consumes_def)

lemma consumes_lift [consumes_intro]: "consumes 0 (rd_lift r)"
  by (cases r) (auto simp: consumes_def)

lemma consumes_bind:
  assumes "consumes j m" and "\<And>x. consumes k (f x)"
  shows "consumes (j + k) (rd_bind m f)"
  unfolding consumes_def
proof (intro allI impI)
  fix bs y bs''
  assume "rd_bind m f bs = Inr (y, bs'')"
  then obtain x bs' where m: "m bs = Inr (x, bs')" and f: "f x bs' = Inr (y, bs'')"
    by (auto simp: rd_bind_eq_Inr)
  from assms(1) m have "length bs' + j \<le> length bs"
    unfolding consumes_def by blast
  moreover from assms(2) f have "length bs'' + k \<le> length bs'"
    unfolding consumes_def by blast
  ultimately show "length bs'' + (j + k) \<le> length bs" by simp
qed

lemma consumes_weaken: "consumes j m \<Longrightarrow> k \<le> j \<Longrightarrow> consumes k m"
  by (force simp: consumes_def)

lemma consumes_bind_left: "consumes k m \<Longrightarrow> (\<And>x. consumes 0 (f x)) \<Longrightarrow> consumes k (rd_bind m f)"
  using consumes_bind [of k m 0 f] by simp

lemma consumes_if [consumes_intro]:
  "consumes k m \<Longrightarrow> consumes k n \<Longrightarrow> consumes k (if b then m else n)"
  by simp

lemmas consumes_step = consumes_bind_left consumes_weaken [OF _ le0]

end
