(* ===== verification/Bit_Io.thy ===== *)
theory Bit_Io
  imports Bit_Prelude
begin

text \<open>
  The reading and writing extensions of \<^verbatim>\<open>libbit/src/io.rs\<close>: big-endian integers, git's
  offset and size encodings, the packed copy operands of a delta, null-terminated paths, ASCII
  numbers and the \<open>read_vec\<close>, \<open>read_array\<close> and read-until-end-of-input loops. The locale
  \<open>codec\<close> is the contract between a \<open>Serialize\<close> and a \<open>Deserialize\<close> implementation;
  what it gives (round trips of sequences, unique decoding) is proved once and every
  serialisable type of the program interprets it.
\<close>

section \<open>Fixed-width big-endian integers\<close>

definition read_exact :: "nat \<Rightarrow> byte list reader" where
  "read_exact n = (\<lambda>bs. if n \<le> length bs then Inr (take n bs, drop n bs) else Inl UnexpectedEof)"

fun be_val :: "nat \<Rightarrow> byte list \<Rightarrow> nat" where
  "be_val acc [] = acc"
| "be_val acc (b # bs) = be_val (acc * 256 + unat b) bs"

fun be_bytes :: "nat \<Rightarrow> nat \<Rightarrow> byte list" where
  "be_bytes 0 v = []"
| "be_bytes (Suc n) v = be_bytes n (v div 256) @ [of_nat (v mod 256)]"

definition from_be_bytes :: "byte list \<Rightarrow> 'a::len word" where
  "from_be_bytes bs = of_nat (be_val 0 bs)"

definition to_be_bytes :: "'a::len word \<Rightarrow> byte list" where
  "to_be_bytes w = be_bytes (LENGTH('a) div 8) (unat w)"

definition read_u8 :: "byte reader" where
  "read_u8 = (\<lambda>bs. case bs of [] \<Rightarrow> Inl UnexpectedEof | b # bs' \<Rightarrow> Inr (b, bs'))"

definition read_u16 :: "u16 reader" where
  "read_u16 = rd_bind (read_exact 2) (\<lambda>buf. rd_return (from_be_bytes buf))"

definition read_u32 :: "u32 reader" where
  "read_u32 = rd_bind (read_exact 4) (\<lambda>buf. rd_return (from_be_bytes buf))"

definition read_u64 :: "u64 reader" where
  "read_u64 = rd_bind (read_exact 8) (\<lambda>buf. rd_return (from_be_bytes buf))"

definition read_to_vec :: "byte list reader" where
  "read_to_vec = (\<lambda>bs. Inr (bs, []))"

definition write_u8 :: "byte \<Rightarrow> byte list" where
  "write_u8 u = [u]"

definition write_u16 :: "u16 \<Rightarrow> byte list" where
  "write_u16 u = to_be_bytes u"

definition write_u32 :: "u32 \<Rightarrow> byte list" where
  "write_u32 u = to_be_bytes u"

definition write_u64 :: "u64 \<Rightarrow> byte list" where
  "write_u64 u = to_be_bytes u"

text \<open>\<open>write_with_size\<close> casts the length to a \<open>u32\<close>, so it wraps at \<open>2 ^ 32\<close>.\<close>

definition write_with_size :: "byte list \<Rightarrow> byte list" where
  "write_with_size buf = write_u32 (of_nat (length buf)) @ buf"

section \<open>Variable-length integers\<close>

text \<open>
  \<open>read_offset\<close>: the loop reads one byte per round, so it is recursion on what is left.
  \<open>offset += 1\<close> and the shift wrap.
\<close>

fun read_offset_loop :: "u64 \<Rightarrow> byte \<Rightarrow> u64 reader" where
  "read_offset_loop offset byte [] =
     (if byte AND 0x80 \<noteq> 0 then Inl UnexpectedEof else Inr (offset, []))"
| "read_offset_loop offset byte (b # bs) =
     (if byte AND 0x80 \<noteq> 0
      then read_offset_loop (push_bit 7 (offset + 1) OR (ucast b AND 0x7f)) b bs
      else Inr (offset, b # bs))"

definition read_offset :: "u64 reader" where
  "read_offset = rd_bind read_u8 (\<lambda>byte. read_offset_loop (ucast byte AND 0x7f) byte)"

text \<open>The loop of \<open>read_le_varint_with_shift\<close>: \<open><<\<close> takes its amount modulo 64.\<close>

fun read_le_varint_loop :: "u64 \<Rightarrow> nat \<Rightarrow> u64 reader" where
  "read_le_varint_loop n shift [] = Inl UnexpectedEof"
| "read_le_varint_loop n shift (byte # bs) =
     (let n' = n OR push_bit (shift mod 64) (ucast byte AND 0x7f)
      in if byte AND 0x80 = 0 then Inr (n', bs) else read_le_varint_loop n' (shift + 7) bs)"

definition read_le_varint_with_shift :: "nat \<Rightarrow> (byte \<times> u64) reader" where
  "read_le_varint_with_shift init_shift =
     (if \<not> init_shift < 8 then rd_fail Panic
      else rd_bind read_u8 (\<lambda>byte.
        let anti_shift = 7 - init_shift;
            k_mask = push_bit anti_shift (push_bit init_shift 1 - 1);
            k = drop_bit anti_shift (byte AND k_mask);
            mask = push_bit anti_shift 1 - 1;
            n = ucast (byte AND mask)
        in if byte AND 0x80 \<noteq> 0
           then rd_bind (read_le_varint_loop n (7 - init_shift)) (\<lambda>n. rd_return (k, n))
           else rd_return (k, n)))"

definition read_le_varint :: "u64 reader" where
  "read_le_varint = rd_bind (read_le_varint_with_shift 0) (\<lambda>x. rd_return (snd x))"

definition read_size :: "u64 reader" where
  "read_size = read_le_varint"

text \<open>\<open>read_le_packed\<close>: bit \<open>i\<close> of the header says whether byte \<open>i\<close> of the value is present.\<close>

fun read_le_packed_loop :: "byte \<Rightarrow> nat list \<Rightarrow> u64 \<Rightarrow> u64 reader" where
  "read_le_packed_loop header [] value = rd_return value"
| "read_le_packed_loop header (i # is) value =
     (if header AND push_bit i 1 = 0 then read_le_packed_loop header is value
      else rd_bind read_u8 (\<lambda>byte.
        read_le_packed_loop header is (value OR push_bit (i * 8) (ucast byte))))"

definition read_le_packed :: "byte \<Rightarrow> u64 reader" where
  "read_le_packed header = read_le_packed_loop header [0..<7] 0"

section \<open>Delimited input\<close>

text \<open>
  \<open>BufRead::read_until\<close> reads up to and including the delimiter, or to the end of the input.
\<close>

fun read_until :: "byte \<Rightarrow> byte list \<Rightarrow> byte list \<times> byte list" where
  "read_until sep [] = ([], [])"
| "read_until sep (b # bs) =
     (if b = sep then ([b], bs) else (let (x, r) = read_until sep bs in (b # x, r)))"

text \<open>
  The source drops the last byte that was read with \<open>&buf[..i - 1]\<close>; when nothing was read
  \<open>i - 1\<close> wraps and the slice is out of range, which panics. At the end of the input it drops
  a byte that is not the delimiter, as the source does.
\<close>

definition drop_delim :: "byte list \<Rightarrow> byte list bit_result" where
  "drop_delim buf = (if buf = [] then Inl Panic else Inr (butlast buf))"

definition read_delim :: "byte \<Rightarrow> byte list reader" where
  "read_delim sep = (\<lambda>bs. let (buf, rest) = read_until sep bs
     in and_then (drop_delim buf) (\<lambda>s. Inr (s, rest)))"

text \<open>Decimal numbers as \<open>i64::from_str\<close> reads them: an optional sign, then digits, in range.\<close>

definition digit_val :: "byte \<Rightarrow> nat option" where
  "digit_val b = (if 48 \<le> b \<and> b \<le> 57 then Some (unat b - 48) else None)"

fun parse_digits :: "nat \<Rightarrow> nat \<Rightarrow> byte list \<Rightarrow> nat option" where
  "parse_digits radix acc [] = Some acc"
| "parse_digits radix acc (b # bs) =
     (case digit_val b of
        None \<Rightarrow> None
      | Some d \<Rightarrow> if d < radix then parse_digits radix (acc * radix + d) bs else None)"

definition parse_nat_radix :: "nat \<Rightarrow> byte list \<Rightarrow> nat option" where
  "parse_nat_radix radix bs = (if bs = [] then None else parse_digits radix 0 bs)"

definition parse_int :: "byte list \<Rightarrow> int option" where
  "parse_int bs =
     (case bs of
        [] \<Rightarrow> None
      | c # cs \<Rightarrow>
          if c = 45 then map_option (\<lambda>n. - int n) (parse_nat_radix 10 cs)
          else if c = 43 then map_option int (parse_nat_radix 10 cs)
          else map_option int (parse_nat_radix 10 bs))"

definition parse_i64 :: "byte list \<Rightarrow> int option" where
  "parse_i64 bs =
     (case parse_int bs of
        None \<Rightarrow> None
      | Some i \<Rightarrow> if - (2 ^ 63) \<le> i \<and> i < 2 ^ 63 then Some i else None)"

definition unwrap :: "'a option \<Rightarrow> 'a bit_result" where
  "unwrap v = (case v of None \<Rightarrow> Inl Panic | Some x \<Rightarrow> Inr x)"

definition read_ascii_num :: "byte \<Rightarrow> int reader" where
  "read_ascii_num sep = rd_bind (read_delim sep) (\<lambda>s. rd_lift (unwrap (parse_i64 s)))"

text \<open>\<open>to_string\<close> of an integer.\<close>

function nat_digits :: "nat \<Rightarrow> nat \<Rightarrow> byte list" where
  "nat_digits radix n =
     (if radix < 2 \<or> n < radix then [of_nat (48 + n)]
      else nat_digits radix (n div radix) @ [of_nat (48 + n mod radix)])"
  by pat_completeness auto
termination
  by (relation "measure (\<lambda>(radix, n). n)") (auto intro: div_less_dividend)

declare nat_digits.simps [simp del]

definition int_to_string :: "int \<Rightarrow> byte list" where
  "int_to_string i = (if i < 0 then 45 # nat_digits 10 (nat (- i)) else nat_digits 10 (nat i))"

definition write_ascii_num :: "int \<Rightarrow> byte \<Rightarrow> byte list" where
  "write_ascii_num i sep = int_to_string i @ [sep]"

section \<open>Sequences\<close>

fun read_vec :: "'a reader \<Rightarrow> nat \<Rightarrow> 'a list reader" where
  "read_vec de 0 = rd_return []"
| "read_vec de (Suc n) = rd_bind de (\<lambda>x. rd_bind (read_vec de n) (\<lambda>xs. rd_return (x # xs)))"

text \<open>
  \<^verbatim>\<open>while !r.is_at_eof()? { xs.push(T::deserialize(&mut r)?) }\<close>. A round that takes no byte
  would be repeated for ever.
\<close>

function read_to_eof :: "'a reader \<Rightarrow> byte list \<Rightarrow> 'a list bit_result" where
  "read_to_eof de bs =
     (if bs = [] then Inr []
      else case de bs of
          Inl e \<Rightarrow> Inl e
        | Inr (x, rest) \<Rightarrow>
            if length rest < length bs
            then and_then (read_to_eof de rest) (\<lambda>xs. Inr (x # xs))
            else Inl Diverge)"
  by pat_completeness auto
termination
  by (relation "measure (\<lambda>(de, bs). length bs)") auto

declare read_to_eof.simps [simp del]

definition write_iter :: "('a \<Rightarrow> byte list) \<Rightarrow> 'a list \<Rightarrow> byte list" where
  "write_iter ser xs = concat (map ser xs)"

section \<open>Lemmas: primitives\<close>

lemma read_exact_append [simp]: "length xs = n \<Longrightarrow> read_exact n (xs @ rest) = Inr (xs, rest)"
  by (simp add: read_exact_def)

lemma read_u8_Cons [simp]: "read_u8 (b # bs) = Inr (b, bs)" "read_u8 [] = Inl UnexpectedEof"
  by (simp_all add: read_u8_def)

lemma be_val_append: "be_val acc (xs @ ys) = be_val (be_val acc xs) ys"
  by (induction xs arbitrary: acc) auto

lemma length_be_bytes [simp]: "length (be_bytes n v) = n"
  by (induction n arbitrary: v) auto

lemma be_val_be_bytes: "v < 256 ^ n \<Longrightarrow> be_val 0 (be_bytes n v) = v"
proof (induction n arbitrary: v)
  case (Suc n)
  then have "v div 256 < 256 ^ n"
    by (simp add: less_mult_imp_div_less mult.commute)
  then have "be_val 0 (be_bytes n (v div 256)) = v div 256" by (rule Suc.IH)
  moreover have "unat (of_nat (v mod 256) :: byte) = v mod 256"
    by (simp add: unat_of_nat)
  ultimately show ?case by (simp add: be_val_append)
qed simp

lemma length_to_be_bytes [simp]: "length (to_be_bytes (w :: 'a::len word)) = LENGTH('a) div 8"
  by (simp add: to_be_bytes_def)

lemma from_to_be_bytes:
  assumes "8 dvd LENGTH('a::len)"
  shows "from_be_bytes (to_be_bytes (w :: 'a word)) = w"
proof -
  have "(256 :: nat) ^ (LENGTH('a) div 8) = 2 ^ (8 * (LENGTH('a) div 8))"
    by (simp add: power_mult)
  also have "\<dots> = 2 ^ LENGTH('a)" using assms by simp
  finally have "unat w < 256 ^ (LENGTH('a) div 8)" by simp
  then show ?thesis
    by (simp add: from_be_bytes_def to_be_bytes_def be_val_be_bytes)
qed

lemma consumes_read_exact [consumes_intro]: "consumes n (read_exact n)"
  by (auto simp: consumes_def read_exact_def)

lemma consumes_read_u8 [consumes_intro]: "consumes 1 read_u8"
  by (auto simp: consumes_def read_u8_def split: list.splits)


lemma read_offset_loop_suffix:
  "read_offset_loop offset byte bs = Inr (x, bs') \<Longrightarrow> length bs' \<le> length bs"
  by (induction offset byte bs rule: read_offset_loop.induct) (auto split: if_splits)

lemma consumes_read_offset [consumes_intro]: "consumes 1 read_offset"
  unfolding read_offset_def
  by (rule consumes_bind_left [OF consumes_read_u8])
     (auto simp: consumes_def dest: read_offset_loop_suffix)

lemma read_le_varint_loop_suffix:
  "read_le_varint_loop n shift bs = Inr (x, bs') \<Longrightarrow> length bs' < length bs"
  by (induction n shift bs rule: read_le_varint_loop.induct) (fastforce simp: Let_def split: if_splits)+

lemma read_until_hit: "sep \<notin> set xs \<Longrightarrow> read_until sep (xs @ sep # rest) = (xs @ [sep], rest)"
  by (induction xs) auto

lemma read_until_append: "read_until sep bs = (x, r) \<Longrightarrow> bs = x @ r"
  by (induction bs arbitrary: x r) (auto split: if_splits prod.splits)

lemma read_delim_hit: "sep \<notin> set xs \<Longrightarrow> read_delim sep (xs @ sep # rest) = Inr (xs, rest)"
  by (simp add: read_delim_def read_until_hit drop_delim_def)

lemma consumes_read_delim [consumes_intro]: "consumes 1 (read_delim sep)"
  by (auto simp: consumes_def read_delim_def drop_delim_def and_then_eq_Inr
      Suc_le_eq dest!: read_until_append split: prod.splits if_splits)

lemma unwrap_simps [simp]: "unwrap None = Inl Panic" "unwrap (Some x) = Inr x"
  by (simp_all add: unwrap_def)

lemma consumes_read_ascii_num [consumes_intro]: "consumes 1 (read_ascii_num sep)"
  unfolding read_ascii_num_def
  by (rule consumes_bind_left [OF consumes_read_delim]) (rule consumes_lift)

subsection \<open>Numbers as text\<close>

lemma parse_digits_append:
  "parse_digits radix acc (xs @ ys) =
     (case parse_digits radix acc xs of None \<Rightarrow> None | Some a \<Rightarrow> parse_digits radix a ys)"
  by (induction xs arbitrary: acc) (auto split: option.splits)

lemma unat_digit: "d < 10 \<Longrightarrow> unat (48 + of_nat d :: byte) = 48 + d"
  using unat_of_nat [of "48 + d", where 'a = 8] by (simp del: unat_of_nat)

lemma digit_val_of_nat: "d < 10 \<Longrightarrow> digit_val (48 + of_nat d) = Some d"
  by (simp add: digit_val_def word_le_nat_alt unat_digit)

lemma nat_digits_nonempty [simp]: "nat_digits radix n \<noteq> []"
  by (subst nat_digits.simps) auto

lemma parse_digits_nat_digits:
  assumes "2 \<le> radix" and "radix \<le> 10"
  shows "parse_digits radix 0 (nat_digits radix n) = Some n"
  using assms
proof (induction radix n rule: nat_digits.induct)
  case (1 radix n)
  show ?case
  proof (cases "n < radix")
    case True
    then show ?thesis using 1 digit_val_of_nat [of n] by (subst nat_digits.simps) simp
  next
    case False
    have "n mod radix < radix" using 1 by simp
    then have "digit_val (48 + of_nat (n mod radix)) = Some (n mod radix)"
      using 1 by (intro digit_val_of_nat) linarith
    with False 1 show ?thesis by (subst nat_digits.simps) (auto simp: parse_digits_append)
  qed
qed

lemma parse_nat_radix_nat_digits:
  "2 \<le> radix \<Longrightarrow> radix \<le> 10 \<Longrightarrow> parse_nat_radix radix (nat_digits radix n) = Some n"
  by (simp add: parse_nat_radix_def parse_digits_nat_digits)

lemma nat_digits_range:
  assumes "2 \<le> radix" and "radix \<le> 10"
  shows "\<forall>b \<in> set (nat_digits radix n). 48 \<le> b \<and> b \<le> 57"
  using assms
proof (induction radix n rule: nat_digits.induct)
  case (1 radix n)
  have digit: "48 \<le> (48 + of_nat d :: byte) \<and> (48 + of_nat d :: byte) \<le> 57" if "d < 10" for d
    using that by (simp add: word_le_nat_alt unat_digit)
  show ?case
  proof (cases "n < radix")
    case True
    then show ?thesis using 1 digit [of n] by (subst nat_digits.simps) simp
  next
    case False
    have "n mod radix < 10" using 1 mod_less_divisor [of radix n] by linarith
    with False 1 show ?thesis using digit [of "n mod radix"] by (subst nat_digits.simps) auto
  qed
qed

lemma nat_digits_10_range: "\<forall>b \<in> set (nat_digits 10 n). 48 \<le> b \<and> b \<le> 57"
  by (rule nat_digits_range) simp_all

lemma int_to_string_range: "\<forall>b \<in> set (int_to_string i). b = 45 \<or> (48 \<le> b \<and> b \<le> 57)"
  using nat_digits_10_range by (auto simp: int_to_string_def)

lemma parse_int_to_string: "parse_int (int_to_string i) = Some i"
proof (cases "i < 0")
  case True
  then show ?thesis by (simp add: int_to_string_def parse_int_def parse_nat_radix_nat_digits)
next
  case False
  obtain c cs where c: "nat_digits 10 (nat i) = c # cs" by (cases "nat_digits 10 (nat i)") auto
  then have "48 \<le> c" using nat_digits_10_range [of "nat i"] by auto
  then have "c \<noteq> 45" "c \<noteq> 43" by auto
  with False c show ?thesis
    using parse_nat_radix_nat_digits [of 10 "nat i"] by (simp add: int_to_string_def parse_int_def)
qed

lemma parse_i64_to_string: "- (2 ^ 63) \<le> i \<Longrightarrow> i < 2 ^ 63 \<Longrightarrow> parse_i64 (int_to_string i) = Some i"
  by (simp add: parse_i64_def parse_int_to_string)

lemma read_ascii_num_write:
  assumes "- (2 ^ 63) \<le> i" and "i < 2 ^ 63" and "sep \<noteq> 45" and "\<not> (48 \<le> sep \<and> sep \<le> 57)"
  shows "read_ascii_num sep (write_ascii_num i sep @ rest) = Inr (i, rest)"
proof -
  have "sep \<notin> set (int_to_string i)" using int_to_string_range assms by blast
  then have "read_delim sep (int_to_string i @ sep # rest) = Inr (int_to_string i, rest)"
    by (rule read_delim_hit)
  then show ?thesis
    using assms by (simp add: read_ascii_num_def write_ascii_num_def rd_bind_apply parse_i64_to_string)
qed

section \<open>The contract of Serialize and Deserialize\<close>

locale codec =
  fixes ser :: "'a \<Rightarrow> byte list" and de :: "'a reader" and valid :: "'a \<Rightarrow> bool"
  assumes roundtrip: "valid x \<Longrightarrow> de (ser x @ rest) = Inr (x, rest)"
begin

lemma read_vec_roundtrip:
  "list_all valid xs \<Longrightarrow> read_vec de (length xs) (write_iter ser xs @ rest) = Inr (xs, rest)"
  by (induction xs) (auto simp: write_iter_def rd_bind_apply roundtrip)

lemma unique_decoding:
  assumes "valid x" and "valid y" and "ser x @ r = ser y @ s"
  shows "x = y \<and> r = s"
proof -
  have "de (ser x @ r) = Inr (x, r)" by (rule roundtrip) (rule assms)
  moreover have "de (ser y @ s) = Inr (y, s)" by (rule roundtrip) (rule assms)
  ultimately show ?thesis unfolding assms(3) by simp
qed

lemma ser_inject: "valid x \<Longrightarrow> valid y \<Longrightarrow> ser x = ser y \<Longrightarrow> x = y"
  using unique_decoding [of x y "[]" "[]"] by simp

end

text \<open>A decoder that takes at least one byte and always returns: a loop over it stops.\<close>

locale stream_codec = codec +
  assumes progress: "consumes 1 de" and returns: "de bs \<noteq> Inl Diverge"
begin

lemma ser_nonempty: "valid x \<Longrightarrow> ser x \<noteq> []"
  using roundtrip [of x "[]"] progress by (fastforce simp: consumes_def)

lemma read_to_eof_roundtrip: "list_all valid xs \<Longrightarrow> read_to_eof de (write_iter ser xs) = Inr xs"
proof (induction xs)
  case Nil
  then show ?case by (simp add: write_iter_def read_to_eof.simps)
next
  case (Cons x xs)
  then have x: "valid x" and IH: "read_to_eof de (write_iter ser xs) = Inr xs" by auto
  have "de (ser x @ write_iter ser xs) = Inr (x, write_iter ser xs)" by (rule roundtrip [OF x])
  with IH ser_nonempty [OF x] show ?case
    by (subst read_to_eof.simps) (simp add: write_iter_def)
qed

lemma read_to_eof_returns: "read_to_eof de bs \<noteq> Inl Diverge"
proof (induction bs rule: length_induct)
  case (1 bs)
  show ?case
  proof (cases "de bs")
    case (Inl e)
    then show ?thesis using returns [of bs] by (subst read_to_eof.simps) auto
  next
    case (Inr p)
    obtain x rest where p: "p = (x, rest)" by (cases p)
    have "length rest < length bs" using progress Inr p by (fastforce simp: consumes_def)
    then show ?thesis
      using 1 Inr p by (subst read_to_eof.simps) (auto simp: and_then_eq_Inl)
  qed
qed

lemma write_iter_inject:
  "list_all valid xs \<Longrightarrow> list_all valid ys \<Longrightarrow> write_iter ser xs = write_iter ser ys \<Longrightarrow> xs = ys"
  by (metis read_to_eof_roundtrip sum.inject(2))

end

interpretation u8_codec: stream_codec write_u8 read_u8 "\<lambda>_. True"
  by unfold_locales (simp_all add: write_u8_def consumes_read_u8 [simplified], simp add: read_u8_def split: list.splits)

interpretation u16_codec: codec write_u16 read_u16 "\<lambda>_. True"
  by unfold_locales
     (simp add: write_u16_def read_u16_def rd_bind_apply from_to_be_bytes)

interpretation u32_codec: codec write_u32 read_u32 "\<lambda>_. True"
  by unfold_locales
     (simp add: write_u32_def read_u32_def rd_bind_apply from_to_be_bytes)

interpretation u64_codec: codec write_u64 read_u64 "\<lambda>_. True"
  by unfold_locales
     (simp add: write_u64_def read_u64_def rd_bind_apply from_to_be_bytes)

lemmas int_codec_simps [simp] =
  u8_codec.roundtrip [OF TrueI] u16_codec.roundtrip [OF TrueI]
  u32_codec.roundtrip [OF TrueI] u64_codec.roundtrip [OF TrueI]

lemma length_write_int [simp]:
  "length (write_u16 a) = 2" "length (write_u32 b) = 4" "length (write_u64 c) = 8"
  by (simp_all add: write_u16_def write_u32_def write_u64_def)

lemma consumes_read_ints [consumes_intro]:
  "consumes 2 read_u16" "consumes 4 read_u32" "consumes 8 read_u64"
  unfolding read_u16_def read_u32_def read_u64_def
  by (rule consumes_bind_left; rule consumes_read_exact consumes_return)+

end
