(* ===== verification/Bit_Varint.thy ===== *)
theory Bit_Varint
  imports Bit_Io
begin

text \<open>
  Correctness of the variable-length integer readers of \<^verbatim>\<open>libbit/src/io.rs\<close> against reference
  encoders that follow git's pack format: the size encoding (seven bits per byte, least significant
  first), the size encoding that shares its first byte with a few leading bits, the offset
  encoding (most significant first, one added at every continuation), and the packed operands of a
  delta copy.
\<close>

section \<open>Bits of a byte\<close>

lemma byte_msb_clear: "(b::byte) AND 0x80 = 0 \<longleftrightarrow> unat b < 128"
proof -
  have "(b AND 2 ^ 7 = 0) \<longleftrightarrow> \<not> bit b 7" by (rule and_exp_eq_0_iff_not_bit)
  also have "bit b 7 \<longleftrightarrow> bit (unat b) 7" by (simp add: bit_unsigned_iff)
  also have "\<dots> \<longleftrightarrow> odd (unat b div 128)" by (simp add: bit_iff_odd)
  also have "\<dots> \<longleftrightarrow> \<not> unat b < 128"
  proof -
    have "unat b < 256" using unsigned_less [of b] by simp
    then have "unat b div 128 = 0 \<or> unat b div 128 = 1" by linarith
    then show ?thesis by auto
  qed
  finally show ?thesis by simp
qed
lemma u64_low7: "(ucast (b::byte) AND 0x7f :: u64) = of_nat (unat b mod 128)"
proof -
  have "(0x7f :: u64) = mask 7" by (simp add: mask_eq_exp_minus_1)
  then have "(ucast b AND 0x7f :: u64) = take_bit 7 (ucast b)" by (simp add: take_bit_eq_mask)
  also have "\<dots> = take_bit 7 (of_nat (unat b))" by simp
  also have "\<dots> = of_nat (take_bit 7 (unat b))" by (simp only: take_bit_of_nat)
  also have "take_bit 7 (unat b) = unat b mod 128" by (simp add: take_bit_eq_mod)
  finally show ?thesis .
qed
lemma push_bit_or_low:
  assumes "r < 2 ^ s"
  shows "push_bit s (of_nat q) OR of_nat r = (of_nat (q * 2 ^ s + r) :: u64)"
proof -
  have r: "r = take_bit s r" using assms by (simp add: take_bit_eq_mod)
  have "push_bit s q AND r = 0" by (subst r, rule bit_eqI) (auto simp: bit_simps)
  then have "push_bit s q OR r = push_bit s q + r" by (simp add: disjunctive_add_eq_or)
  then show ?thesis
    by (metis of_nat_or_eq of_nat_push_bit push_bit_eq_mult)
qed

lemma u64_split: "push_bit s (of_nat (n div 2 ^ s)) OR of_nat (n mod 2 ^ s) = (of_nat n :: u64)"
  using push_bit_or_low [of "n mod 2 ^ s" s "n div 2 ^ s"] by (simp only: div_mult_mod_eq) simp

lemma power_numeral_128: "(2::nat) ^ 7 = 128"
  by simp

lemma unat_cont_byte: "m < 128 \<Longrightarrow> unat (128 + of_nat m :: byte) = 128 + m"
  using unat_of_nat [of "128 + m", where 'a = 8] by (simp del: unat_of_nat)

lemma unat_low_byte: "m < 256 \<Longrightarrow> unat (of_nat m :: byte) = m"
  by (simp add: unat_of_nat)

section \<open>The size encoding\<close>

text \<open>Reference encoder: seven bits per byte, least significant first, the top bit continues.\<close>

fun enc_size :: "nat \<Rightarrow> byte list" where
  "enc_size n = (if n < 128 then [of_nat n] else (128 + of_nat (n mod 128)) # enc_size (n div 128))"

declare enc_size.simps [simp del]

lemma varint_loop_enc:
  assumes "n * 2 ^ shift < 2 ^ 64" and "shift < 64"
  shows "read_le_varint_loop acc shift (enc_size n @ rest) = Inr (acc OR push_bit shift (of_nat n), rest)"
  using assms
proof (induction n arbitrary: acc shift rule: enc_size.induct)
  case (1 n)
  show ?case
  proof (cases "n < 128")
    case True
    then have b: "unat (of_nat n :: byte) = n" by (simp add: unat_low_byte)
    with True have "(of_nat n :: byte) AND 0x80 = 0" by (simp add: byte_msb_clear)
    with True b 1 show ?thesis by (subst enc_size.simps) (simp add: u64_low7)
  next
    case False
    let ?b = "128 + of_nat (n mod 128) :: byte" and ?q = "n div 128"
    have b: "unat ?b = 128 + n mod 128" by (rule unat_cont_byte) simp
    have split: "128 * ?q + n mod 128 = n" by simp
    have "?q * 2 ^ (shift + 7) \<le> n * 2 ^ shift" using split by (simp add: power_add)
    then have q: "?q * 2 ^ (shift + 7) < 2 ^ 64" using 1(2) by simp
    have "(1::nat) * 2 ^ (shift + 7) \<le> ?q * 2 ^ (shift + 7)" using False by (intro mult_le_mono1) simp
    then have "(2::nat) ^ (shift + 7) < 2 ^ 64" using q by (metis le_less_trans mult_1)
    then have s: "shift + 7 < 64" by (rule power_less_imp_less_exp [rotated]) simp
    have word: "push_bit shift (of_nat (n mod 128)) OR push_bit (shift + 7) (of_nat ?q) = push_bit shift (of_nat n :: u64)"
      using arg_cong [OF u64_split [of 7 n], of "push_bit shift"]
      by (simp only: push_bit_or push_bit_push_bit or.commute power_numeral_128)
    have "read_le_varint_loop acc shift (enc_size n @ rest) =
        read_le_varint_loop (acc OR push_bit shift (of_nat (n mod 128))) (shift + 7) (enc_size ?q @ rest)"
      using False 1(3) b by (subst enc_size.simps) (simp add: byte_msb_clear u64_low7 Let_def)
    also have "\<dots> = Inr ((acc OR push_bit shift (of_nat (n mod 128))) OR push_bit (shift + 7) (of_nat ?q), rest)"
      using False q s by (intro 1(1)) simp_all
    finally show ?thesis by (simp add: or.assoc word)
  qed
qed

text \<open>
  The encoder with \<open>s\<close> leading bits \<open>k\<close> in the first byte, below the continuation bit; with
  \<open>s = 3\<close> it is the header of a pack entry and with \<open>s = 0\<close> the plain size encoding.
\<close>

definition enc_size_with_shift :: "nat \<Rightarrow> nat \<Rightarrow> nat \<Rightarrow> byte list" where
  "enc_size_with_shift s k n =
     (let m = 2 ^ (7 - s) in
      if n < m then [of_nat (k * m + n)]
      else of_nat (128 + k * m + n mod m) # enc_size (n div m))"


lemma byte_high_bits:
  "drop_bit a ((b::byte) AND push_bit a (push_bit s 1 - 1)) = of_nat ((unat b div 2 ^ a) mod 2 ^ s)"
proof -
  have "drop_bit a (b AND push_bit a (mask s)) = take_bit s (drop_bit a b)"
    by (rule bit_eqI) (auto simp: bit_simps dest: bit_imp_le_length)
  also have "\<dots> = of_nat (unat (take_bit s (drop_bit a b)))" by simp
  also have "unat (take_bit s (drop_bit a b)) = (unat b div 2 ^ a) mod 2 ^ s"
    unfolding unsigned_take_bit_eq unat_drop_bit_eq by (simp add: take_bit_eq_mod drop_bit_eq_div)
  finally show ?thesis by (simp add: mask_eq_exp_minus_1 push_bit_eq_mult)
qed

lemma byte_low_bits: "(ucast ((b::byte) AND (push_bit a 1 - 1)) :: u64) = of_nat (unat b mod 2 ^ a)"
proof -
  have "b AND (push_bit a 1 - 1) = take_bit a b"
    by (simp add: take_bit_eq_mask mask_eq_exp_minus_1 push_bit_eq_mult)
  moreover have "unat (take_bit a b) = unat b mod 2 ^ a"
    unfolding unsigned_take_bit_eq by (simp add: take_bit_eq_mod)
  ultimately show ?thesis by (metis of_nat_unat)
qed

lemma read_with_shift_step:
  assumes "s < 8" and "unat b = c * 128 + k * 2 ^ (7 - s) + r" and "k < 2 ^ s" and "r < 2 ^ (7 - s)"
    and "c < 2"
  shows "read_le_varint_with_shift s (b # bs) =
    (if c = 0 then Inr ((of_nat k, of_nat r), bs)
     else and_then (read_le_varint_loop (of_nat r) (7 - s) bs) (\<lambda>(n, bs'). Inr ((of_nat k, n), bs')))"
proof -
  let ?a = "7 - s"
  have pow: "(2::nat) ^ s * 2 ^ ?a = 128" using assms(1)
    by (simp add: power_add [symmetric])
  have u: "unat b = (c * 2 ^ s + k) * 2 ^ ?a + r"
    using assms(2) pow by (simp add: algebra_simps)
  have high: "(unat b div 2 ^ ?a) mod 2 ^ s = k" using u assms(3,4) by simp
  have low: "unat b mod 2 ^ ?a = r" using u assms(4) by simp
  have "k * 2 ^ ?a + r < 128"
  proof -
    have "(k + 1) * 2 ^ ?a \<le> 2 ^ s * 2 ^ ?a" using assms(3) by (intro mult_le_mono1) simp
    then show ?thesis using assms(4) pow by (simp add: algebra_simps)
  qed
  then have top: "b AND 0x80 = 0 \<longleftrightarrow> c = 0" using assms(2,5) by (auto simp: byte_msb_clear)
  show ?thesis
    unfolding read_le_varint_with_shift_def Let_def byte_high_bits byte_low_bits
    using assms(1) by (simp add: rd_bind_apply high low top)
qed

lemma read_with_shift_enc:
  assumes "s < 8" and "k < 2 ^ s" and "n < 2 ^ 64"
  shows "read_le_varint_with_shift s (enc_size_with_shift s k n @ rest) = Inr ((of_nat k, of_nat n), rest)"
proof -
  let ?m = "2 ^ (7 - s) :: nat"
  have km: "k * ?m + r < 128" if "r < ?m" for r
  proof -
    have "(k + 1) * ?m \<le> 2 ^ s * ?m" using assms(2) by (intro mult_le_mono1) simp
    also have "\<dots> = 128" using assms(1) by (simp add: power_add [symmetric])
    finally show ?thesis using that by (simp add: algebra_simps)
  qed
  show ?thesis
  proof (cases "n < ?m")
    case True
    have "unat (of_nat (k * ?m + n) :: byte) = 0 * 128 + k * ?m + n"
      using km [OF True] by (subst unat_low_byte) simp_all
    from read_with_shift_step [OF assms(1) this assms(2) True] True show ?thesis
      by (simp add: enc_size_with_shift_def Let_def)
  next
    case False
    let ?b = "of_nat (128 + k * ?m + n mod ?m) :: byte" and ?q = "n div ?m"
    have r: "n mod ?m < ?m" by simp
    have b: "unat ?b = 1 * 128 + k * ?m + n mod ?m"
      using km [OF r] by (subst unat_low_byte) simp_all
    have "?q * ?m \<le> n" by (rule div_times_less_eq_dividend)
    then have "?q * ?m < 2 ^ 64" using assms(3) by (rule le_less_trans)
    then have loop: "read_le_varint_loop (of_nat (n mod ?m)) (7 - s) (enc_size ?q @ rest) =
        Inr (of_nat (n mod ?m) OR push_bit (7 - s) (of_nat ?q), rest)"
      by (rule varint_loop_enc) simp
    have "push_bit (7 - s) (of_nat ?q) OR of_nat (n mod ?m) = (of_nat n :: u64)" by (rule u64_split)
    then have "of_nat (n mod ?m) OR push_bit (7 - s) (of_nat ?q) = (of_nat n :: u64)"
      by (simp only: or.commute)
    with read_with_shift_step [OF assms(1) b assms(2) r, of "enc_size ?q @ rest"] False loop
    show ?thesis by (simp add: enc_size_with_shift_def Let_def)
  qed
qed

text \<open>
  The size reader with \<open>init_shift\<close> leading bits decodes what git's encoding writes: for every
  \<open>init_shift\<close> below 8, leading bits \<open>k\<close> and size \<open>n\<close> below \<open>2 ^ 64\<close>, it returns exactly \<open>k\<close> and
  \<open>n\<close> and leaves the rest of the input untouched. The header of a pack entry is the case 3, the
  sizes of a delta the case 0.
\<close>

theorem read_le_varint_with_shift_enc:
  assumes "s < 8" and "k < 2 ^ s" and "n < 2 ^ 64"
  shows "read_le_varint_with_shift s (enc_size_with_shift s k n @ rest) = Inr ((of_nat k, of_nat n), rest)"
  using assms by (rule read_with_shift_enc)

theorem read_le_varint_with_shift_enc_witness:
  "read_le_varint_with_shift 3 (enc_size_with_shift 3 6 1000 @ [7]) = Inr ((6, 1000), [7])
   \<and> enc_size_with_shift 3 6 1000 = [232, 62]"
  using read_le_varint_with_shift_enc [of 3 6 1000 "[7]"]
  by (simp add: enc_size_with_shift_def enc_size.simps)

lemma enc_size_as_shift: "enc_size n = enc_size_with_shift 0 0 n"
  by (subst enc_size.simps) (simp add: enc_size_with_shift_def)

lemma read_size_enc: "n < 2 ^ 64 \<Longrightarrow> read_size (enc_size n @ rest) = Inr (of_nat n, rest)"
  using read_with_shift_enc [of 0 0 n rest]
  by (simp add: read_size_def read_le_varint_def rd_bind_apply enc_size_as_shift)


section \<open>The offset encoding\<close>

text \<open>
  Reference encoder of git's pack format for the distance of an offset delta: seven bits per byte,
  most significant first; one is taken off before every further byte, so that no two encodings
  denote the same number.
\<close>

fun enc_offset_high :: "nat \<Rightarrow> byte list" where
  "enc_offset_high m =
     (if m = 0 then [] else enc_offset_high ((m - 1) div 128) @ [128 + of_nat ((m - 1) mod 128)])"

declare enc_offset_high.simps [simp del]

definition enc_offset :: "nat \<Rightarrow> byte list" where
  "enc_offset n = enc_offset_high (n div 128) @ [of_nat (n mod 128)]"

lemma offset_step:
  assumes "c AND 0x80 \<noteq> (0::byte)" and "unat b mod 128 = n mod 128"
  shows "read_offset_loop (of_nat (n div 128) - 1) c (b # bs) = read_offset_loop (of_nat n) b bs"
  using assms u64_split [of 7 n] by (simp add: u64_low7)

lemma read_offset_high:
  "0 < m \<Longrightarrow> \<exists>c. c AND 0x80 \<noteq> (0::byte) \<and>
     (\<forall>bs. read_offset (enc_offset_high m @ bs) = read_offset_loop (of_nat m - 1) c bs)"
proof (induction m rule: enc_offset_high.induct)
  case (1 m)
  define p where "p = m - 1"
  have p: "(of_nat m - 1 :: u64) = of_nat p" using 1(2) by (simp add: p_def)
  let ?b = "128 + of_nat (p mod 128) :: byte"
  have ub: "unat ?b = 128 + p mod 128" by (rule unat_cont_byte) simp
  then have msb: "?b AND 0x80 \<noteq> 0" by (simp add: byte_msb_clear)
  have enc: "enc_offset_high m = enc_offset_high (p div 128) @ [?b]"
    using 1(2) unfolding p_def by (subst enc_offset_high.simps) simp
  show ?case
  proof (cases "p div 128 = 0")
    case True
    then have "enc_offset_high m = [?b]" using enc by (simp add: enc_offset_high.simps)
    moreover have "p mod 128 = p" using True by simp
    ultimately show ?thesis
      using msb ub p by (auto simp: read_offset_def rd_bind_apply u64_low7 intro!: exI [of _ ?b])
  next
    case False
    obtain c where c: "c AND 0x80 \<noteq> 0"
      and IH: "\<And>bs. read_offset (enc_offset_high (p div 128) @ bs) = read_offset_loop (of_nat (p div 128) - 1) c bs"
      using 1(1) 1(2) False unfolding p_def by auto
    have "read_offset (enc_offset_high m @ bs) = read_offset_loop (of_nat p) ?b bs" for bs
      using IH [of "?b # bs"] offset_step [OF c, of ?b p bs] ub enc by simp
    with msb p show ?thesis by auto
  qed
qed

lemma read_offset_enc_all: "read_offset (enc_offset n @ rest) = Inr (of_nat n, rest)"
proof -
  let ?b = "of_nat (n mod 128) :: byte"
  have ub: "unat ?b = n mod 128" by (rule unat_low_byte) (simp add: less_trans [OF mod_less_divisor])
  then have last: "?b AND 0x80 = 0" by (simp add: byte_msb_clear)
  show ?thesis
  proof (cases "n div 128 = 0")
    case True
    then have "n mod 128 = n" by simp
    with True last ub show ?thesis
      by (cases rest) (simp_all add: enc_offset_def enc_offset_high.simps read_offset_def rd_bind_apply u64_low7)
  next
    case False
    obtain c where c: "c AND 0x80 \<noteq> 0"
      and high: "\<And>bs. read_offset (enc_offset_high (n div 128) @ bs) = read_offset_loop (of_nat (n div 128) - 1) c bs"
      using read_offset_high [of "n div 128"] False by auto
    have "read_offset (enc_offset n @ rest) = read_offset_loop (of_nat n) ?b rest"
      using high [of "?b # rest"] offset_step [OF c, of ?b n rest] ub by (simp add: enc_offset_def)
    then show ?thesis using last by (cases rest) simp_all
  qed
qed

text \<open>
  The offset reader inverts git's offset encoding: for every distance below \<open>2 ^ 64\<close> it reads
  back the same number and stops at the first byte after it.
\<close>

theorem read_offset_enc:
  "n < 2 ^ 64 \<Longrightarrow> \<exists>w. read_offset (enc_offset n @ rest) = Inr (w, rest) \<and> unat w = n"
  by (simp add: read_offset_enc_all unat_of_nat)

theorem read_offset_enc_witness:
  "\<exists>w. read_offset (enc_offset 300 @ [1]) = Inr (w, [1]) \<and> unat w = 300"
  using read_offset_enc [of 300 "[1]"] by simp

section \<open>Packed operands\<close>

text \<open>
  Reference encoder of a delta copy's operands: the bytes of the value in little-endian order, those
  that are zero left out; bit \<open>i\<close> of the header says whether byte \<open>i\<close> is present.
\<close>

definition packed_byte :: "nat \<Rightarrow> nat \<Rightarrow> byte" where
  "packed_byte v i = of_nat ((v div 256 ^ i) mod 256)"

definition enc_packed :: "nat \<Rightarrow> byte list" where
  "enc_packed v = filter (\<lambda>b. b \<noteq> 0) (map (packed_byte v) [0..<7])"

definition packed_header :: "nat \<Rightarrow> byte" where
  "packed_header v = horner_sum of_bool 2 (map (\<lambda>i. packed_byte v i \<noteq> 0) [0..<7] @ [True])"

lemma packed_header_bit:
  "i < 7 \<Longrightarrow> packed_header v AND 2 ^ i = 0 \<longleftrightarrow> packed_byte v i = 0"
  "packed_header v AND 0x80 \<noteq> 0"
proof -
  have bit: "bit (packed_header v) i \<longleftrightarrow> i < 8 \<and> (map (\<lambda>i. packed_byte v i \<noteq> 0) [0..<7] @ [True]) ! i" for i
    by (auto simp: packed_header_def bit_horner_sum_bit_word_iff)
  show "packed_header v AND 2 ^ i = 0 \<longleftrightarrow> packed_byte v i = 0" if "i < 7"
    using bit [of i] that by (simp add: and_exp_eq_0_iff_not_bit nth_append)
  show "packed_header v AND 0x80 \<noteq> 0"
    using bit [of 7] and_exp_eq_0_iff_not_bit [of "packed_header v" 7] by (simp add: nth_append)
qed

lemma packed_value_step:
  "(of_nat (v mod 256 ^ i) :: u64) OR push_bit (i * 8) (ucast (packed_byte v i)) = of_nat (v mod 256 ^ Suc i)"
proof -
  have pow: "(256::nat) ^ i = 2 ^ (i * 8)" using power_mult [of "2::nat" 8 i] by (simp add: mult.commute)
  have "v mod 256 ^ Suc i = 256 ^ i * (v div 256 ^ i mod 256) + v mod 256 ^ i"
    using mod_mult2_eq [of v "256 ^ i" 256] by (simp add: mult.commute)
  then have split: "v mod 256 ^ Suc i = (v div 256 ^ i mod 256) * 2 ^ (i * 8) + v mod 2 ^ (i * 8)"
    by (simp add: pow mult.commute)
  have "ucast (packed_byte v i) = (of_nat (unat (packed_byte v i)) :: u64)" by simp
  also have "unat (packed_byte v i) = v div 256 ^ i mod 256"
    unfolding packed_byte_def by (rule unat_low_byte) simp
  finally have b: "ucast (packed_byte v i) = (of_nat (v div 256 ^ i mod 256) :: u64)" .
  have "push_bit (i * 8) (of_nat (v div 256 ^ i mod 256)) OR of_nat (v mod 2 ^ (i * 8)) =
      (of_nat (v mod 256 ^ Suc i) :: u64)"
    unfolding split by (rule push_bit_or_low) simp
  then show ?thesis by (simp only: b pow or.commute)
qed

lemma read_le_packed_loop_enc:
  assumes "i + k = 7"
  shows "read_le_packed_loop (packed_header v) [i..<7] (of_nat (v mod 256 ^ i))
      (filter (\<lambda>b. b \<noteq> 0) (map (packed_byte v) [i..<7]) @ rest) = Inr (of_nat (v mod 256 ^ 7), rest)"
  using assms
proof (induction k arbitrary: i)
  case 0
  then show ?case by simp
next
  case (Suc k)
  then have i: "i < 7" and range: "[i..<7] = i # [Suc i..<7]" by (simp_all add: upt_conv_Cons)
  have IH: "read_le_packed_loop (packed_header v) [Suc i..<7] (of_nat (v mod 256 ^ Suc i))
      (filter (\<lambda>b. b \<noteq> 0) (map (packed_byte v) [Suc i..<7]) @ rest) = Inr (of_nat (v mod 256 ^ 7), rest)"
    using Suc by (intro Suc.IH) simp
  show ?case
  proof (cases "packed_byte v i = 0")
    case True
    then have "(of_nat (v mod 256 ^ Suc i) :: u64) = of_nat (v mod 256 ^ i)"
      using packed_value_step [of v i] by simp
    with True IH i show ?thesis
      unfolding range by (simp add: packed_header_bit del: power_Suc)
  next
    case False
    with IH i packed_value_step [of v i] show ?thesis
      unfolding range by (simp add: packed_header_bit rd_bind_apply del: power_Suc)
  qed
qed

lemma read_le_packed_enc:
  "v < 256 ^ 7 \<Longrightarrow> read_le_packed (packed_header v) (enc_packed v @ rest) = Inr (of_nat v, rest)"
  using read_le_packed_loop_enc [of 0 7 v rest] by (simp add: read_le_packed_def enc_packed_def)

end
