(* ===== verification/Bit_Delta.thy ===== *)
theory Bit_Delta
  imports Bit_Varint
begin

text \<open>
  Deltas, \<^verbatim>\<open>libbit/src/delta.rs\<close>: the operations of a delta, their binary format and
  \<open>Delta::expand\<close>, which rebuilds an object from its base.
\<close>

section \<open>Model\<close>

datatype delta_op = Copy u64 u64 | Insert "byte list"

record delta =
  source_size :: u64
  target_size :: u64
  ops :: "delta_op list"

text \<open>
  \<open>&bytes[offset..offset + size]\<close>: the end wraps, and a range that is not inside the chunk panics.
\<close>

definition slice_range :: "byte list \<Rightarrow> u64 \<Rightarrow> u64 \<Rightarrow> byte list bit_result" where
  "slice_range bytes start stop =
     (if start \<le> stop \<and> unat stop \<le> length bytes
      then Inr (take (unat stop - unat start) (drop (unat start) bytes))
      else Inl Panic)"

fun apply_delta_op :: "byte list \<Rightarrow> delta_op \<Rightarrow> byte list bit_result" where
  "apply_delta_op bytes (Copy offset sz) = slice_range bytes offset (offset + sz)"
| "apply_delta_op bytes (Insert chunk) = Inr chunk"

definition expand :: "delta \<Rightarrow> byte list \<Rightarrow> byte list bit_result" where
  "expand d bytes =
     and_then (ensure (unat (source_size d) = length bytes) (Bail ''source size''))
       (\<lambda>_. and_then
         (try_fold (\<lambda>expanded op. and_then (apply_delta_op bytes op) (\<lambda>chunk. Inr (expanded @ chunk)))
            [] (ops d))
         (\<lambda>expanded.
            and_then (ensure (unat (target_size d) = length expanded) (Bail ''target size''))
              (\<lambda>_. Inr expanded)))"

text \<open>\<open>reader.take(n).read_to_vec()\<close> reads what there is, up to \<open>n\<close> bytes.\<close>

definition take_to_vec :: "nat \<Rightarrow> byte list reader" where
  "take_to_vec n = (\<lambda>bs. Inr (take n bs, drop n bs))"

definition delta_op_deserialize :: "delta_op reader" where
  "delta_op_deserialize =
     rd_bind read_u8 (\<lambda>byte.
       if byte AND 0x80 \<noteq> 0
       then rd_bind (read_le_packed byte) (\<lambda>n.
              let offset = n AND 0xFFFFFFFF;
                  sz = drop_bit 32 n;
                  sz = (if sz = 0 then 0x10000 else sz)
              in rd_return (Copy offset sz))
       else if byte = 0 then rd_fail Panic
       else rd_bind (take_to_vec (unat (byte AND 0x7f))) (\<lambda>bytes. rd_return (Insert bytes)))"

text \<open>
  \<open>Delta::deserialize_sized\<close> limits the reader to \<open>size\<close> bytes only after the two sizes were read.
\<close>

definition delta_deserialize_sized :: "nat \<Rightarrow> delta reader" where
  "delta_deserialize_sized sz =
     rd_bind read_size (\<lambda>source_size.
     rd_bind read_size (\<lambda>target_size. \<lambda>bs.
       and_then (read_to_eof delta_op_deserialize (take sz bs)) (\<lambda>ops.
         Inr (\<lparr>source_size = source_size, target_size = target_size, ops = ops\<rparr>, drop sz bs))))"

section \<open>Expansion\<close>

definition op_in_range :: "nat \<Rightarrow> delta_op \<Rightarrow> bool" where
  "op_in_range n op =
     (case op of Copy offset sz \<Rightarrow> unat offset + unat sz \<le> n | Insert _ \<Rightarrow> True)"

definition op_bytes :: "byte list \<Rightarrow> delta_op \<Rightarrow> byte list" where
  "op_bytes bytes op =
     (case op of Copy offset sz \<Rightarrow> take (unat sz) (drop (unat offset) bytes) | Insert chunk \<Rightarrow> chunk)"

lemma slice_range_plus:
  assumes "length bytes < 2 ^ 64"
  shows "slice_range bytes offset (offset + sz) =
    (if unat offset + unat sz \<le> length bytes
     then Inr (take (unat sz) (drop (unat offset) bytes)) else Inl Panic)"
proof (cases "unat offset + unat sz < 2 ^ 64")
  case True
  then have "unat (offset + sz) = unat offset + unat sz"
    by (simp add: unat_word_ariths)
  then show ?thesis by (auto simp: slice_range_def word_le_nat_alt)
next
  case False
  then have "\<not> unat offset + unat sz \<le> length bytes" using assms by linarith
  moreover have "\<not> offset \<le> offset + sz"
  proof -
    have "unat offset < 2 ^ 64" "unat sz < 2 ^ 64"
      using unsigned_less [of offset] unsigned_less [of sz] by simp_all
    then have "(unat offset + unat sz) mod 2 ^ 64 = unat offset + unat sz - 2 ^ 64"
      using False by (simp add: mod_if)
    then have "unat (offset + sz) < unat offset"
      using False \<open>unat sz < 2 ^ 64\<close> by (simp add: unat_word_ariths)
    then show ?thesis by (simp add: word_le_nat_alt)
  qed
  ultimately show ?thesis by (simp add: slice_range_def)
qed

lemma apply_delta_op_eq:
  "length bytes < 2 ^ 64 \<Longrightarrow> apply_delta_op bytes op =
    (if op_in_range (length bytes) op then Inr (op_bytes bytes op) else Inl Panic)"
  by (cases op) (auto simp: slice_range_plus op_in_range_def op_bytes_def)

lemma expand_fold:
  assumes "length bytes < 2 ^ 64"
  shows "try_fold (\<lambda>expanded op. and_then (apply_delta_op bytes op) (\<lambda>chunk. Inr (expanded @ chunk))) acc xs =
    (if list_all (op_in_range (length bytes)) xs then Inr (acc @ concat (map (op_bytes bytes) xs)) else Inl Panic)"
  using assms by (induction xs arbitrary: acc) (auto simp: apply_delta_op_eq)



section \<open>The binary format\<close>

text \<open>
  Reference encoder of a delta instruction. An insert holds 1 to 127 bytes; a copy holds a 32-bit
  offset and a 24-bit size, in which the size \<open>0x10000\<close> is written as zero.
\<close>

definition op_valid :: "delta_op \<Rightarrow> bool" where
  "op_valid op =
     (case op of
        Copy offset sz \<Rightarrow> unat offset < 2 ^ 32 \<and> 0 < unat sz \<and> unat sz < 2 ^ 24
      | Insert chunk \<Rightarrow> 0 < length chunk \<and> length chunk < 128)"

definition copy_operand :: "u64 \<Rightarrow> u64 \<Rightarrow> nat" where
  "copy_operand offset sz =
     unat offset + (if sz = 0x10000 then 0 else unat sz) * 2 ^ 32"

fun enc_op :: "delta_op \<Rightarrow> byte list" where
  "enc_op (Copy offset sz) =
     (let v = copy_operand offset sz in packed_header v # enc_packed v)"
| "enc_op (Insert chunk) = of_nat (length chunk) # chunk"


lemma copy_operand_bound:
  "unat offset < 2 ^ 32 \<Longrightarrow> unat sz < 2 ^ 24 \<Longrightarrow> copy_operand offset sz < 256 ^ 7"
  by (auto simp: copy_operand_def)

lemma u64_low32: "(w :: u64) AND 0xFFFFFFFF = of_nat (unat w mod 2 ^ 32)"
proof -
  have "w AND 0xFFFFFFFF = take_bit 32 w" by (simp add: take_bit_eq_mask mask_eq_exp_minus_1)
  also have "\<dots> = of_nat (unat (take_bit 32 w))" by simp
  also have "unat (take_bit 32 w) = unat w mod 2 ^ 32"
    unfolding unsigned_take_bit_eq by (simp only: take_bit_eq_mod)
  finally show ?thesis .
qed

lemma u64_high32: "drop_bit 32 (w :: u64) = of_nat (unat w div 2 ^ 32)"
proof -
  have "drop_bit 32 w = of_nat (unat (drop_bit 32 w))" by simp
  also have "unat (drop_bit 32 w) = unat w div 2 ^ 32"
    unfolding unat_drop_bit_eq by (simp only: drop_bit_eq_div)
  finally show ?thesis .
qed

lemma copy_operand_split:
  assumes "unat offset < 2 ^ 32" and "0 < unat sz" and "unat sz < 2 ^ 24"
  defines "n \<equiv> of_nat (copy_operand offset sz) :: u64"
  shows "n AND 0xFFFFFFFF = offset"
    and "(if drop_bit 32 n = 0 then 0x10000 else drop_bit 32 n) = sz"
proof -
  let ?s = "if sz = 0x10000 then 0 else unat sz"
  have v: "copy_operand offset sz = ?s * 2 ^ 32 + unat offset" by (simp add: copy_operand_def)
  have "copy_operand offset sz < 2 ^ 64" using copy_operand_bound [OF assms(1,3)] by simp
  then have n: "unat n = copy_operand offset sz" by (simp add: n_def unat_of_nat)
  have "unat n mod 2 ^ 32 = unat offset" using assms(1) unfolding n v by simp
  then show "n AND 0xFFFFFFFF = offset" by (simp add: u64_low32)
  have "unat n div 2 ^ 32 = ?s" using assms(1) unfolding n v by simp
  then have "drop_bit 32 n = of_nat ?s" by (simp only: u64_high32)
  then show "(if drop_bit 32 n = 0 then 0x10000 else drop_bit 32 n) = sz"
    using assms(2) by (auto simp: unat_eq_0)
qed

lemma delta_op_roundtrip: "op_valid op \<Longrightarrow> delta_op_deserialize (enc_op op @ rest) = Inr (op, rest)"
proof (cases op)
  case (Copy offset sz)
  assume "op_valid op"
  then have ok: "unat offset < 2 ^ 32" "0 < unat sz" "unat sz < 2 ^ 24"
    using Copy by (simp_all add: op_valid_def)
  let ?v = "copy_operand offset sz"
  have "read_le_packed (packed_header ?v) (enc_packed ?v @ rest) = Inr (of_nat ?v, rest)"
    by (rule read_le_packed_enc) (rule copy_operand_bound [OF ok(1,3)])
  then show ?thesis
    using Copy copy_operand_split [OF ok]
    by (simp add: delta_op_deserialize_def rd_bind_apply packed_header_bit Let_def)
next
  case (Insert chunk)
  assume "op_valid op"
  then have len: "0 < length chunk" "length chunk < 128" using Insert by (simp_all add: op_valid_def)
  let ?b = "of_nat (length chunk) :: byte"
  have u: "unat ?b = length chunk" using len by (simp add: unat_low_byte)
  then have "?b \<noteq> 0" and msb: "?b AND 0x80 = 0" using len by (auto simp: byte_msb_clear)
  moreover have "unat (?b AND 0x7f) = length chunk"
  proof -
    have "?b AND 0x7f = take_bit 7 ?b" by (simp add: take_bit_eq_mask mask_eq_exp_minus_1)
    moreover have "unat (take_bit 7 ?b) = unat ?b mod 2 ^ 7"
      unfolding unsigned_take_bit_eq by (simp only: take_bit_eq_mod)
    ultimately show ?thesis using u len by simp
  qed
  ultimately show ?thesis
    using Insert by (simp add: delta_op_deserialize_def rd_bind_apply take_to_vec_def)
qed

lemma consumes_read_le_packed_loop: "consumes 0 (read_le_packed_loop header idx acc)"
  by (induction header idx acc rule: read_le_packed_loop.induct)
     (auto intro: consumes_return_eta consumes_bind_left consumes_weaken [OF consumes_read_u8])

lemma consumes_delta_op: "consumes 1 delta_op_deserialize"
  unfolding delta_op_deserialize_def
proof (rule consumes_bind_left [OF consumes_read_u8])
  have "consumes 0 (take_to_vec n)" for n by (simp add: consumes_def take_to_vec_def)
  then show "consumes 0 (if byte AND 128 \<noteq> 0
      then rd_bind (read_le_packed byte) (\<lambda>n. let offset = n AND 0xFFFFFFFF; sz = drop_bit 32 n;
             sz = if sz = 0 then 0x10000 else sz in rd_return (Copy offset sz))
      else if byte = 0 then rd_fail Panic
      else rd_bind (take_to_vec (unat (byte AND 0x7f))) (\<lambda>bytes. rd_return (Insert bytes)))" for byte
    by (auto simp: Let_def read_le_packed_def
        intro!: consumes_bind_left consumes_return consumes_fail consumes_read_le_packed_loop)
qed

lemma read_le_packed_loop_returns: "read_le_packed_loop header idx acc bs \<noteq> Inl Diverge"
  by (induction header idx acc arbitrary: bs rule: read_le_packed_loop.induct)
     (auto simp: rd_bind_apply and_then_eq_Inl read_u8_def split: list.splits)

lemma delta_op_returns: "delta_op_deserialize bs \<noteq> Inl Diverge"
  by (cases bs)
     (auto simp: delta_op_deserialize_def rd_bind_apply and_then_eq_Inl read_le_packed_def
        read_le_packed_loop_returns take_to_vec_def Let_def)

interpretation delta_op_codec: stream_codec enc_op delta_op_deserialize op_valid
  by unfold_locales (simp_all add: delta_op_roundtrip consumes_delta_op [simplified] delta_op_returns)

text \<open>
  A delta in git's format is read back exactly: for valid instructions, sizes below \<open>2 ^ 64\<close> and
  a size limit that covers the instructions, \<open>Delta::deserialize_sized\<close> returns the delta that was
  written and consumes it completely.
\<close>

theorem delta_deserialize_enc:
  assumes "list_all op_valid xs" and "length (write_iter enc_op xs) \<le> sz"
  shows "delta_deserialize_sized sz
      (enc_size (unat source) @ enc_size (unat target) @ write_iter enc_op xs)
    = Inr (\<lparr>source_size = source, target_size = target, ops = xs\<rparr>, [])"
proof -
  have bound: "unat w < 2 ^ 64" for w :: u64 using unsigned_less [of w] by simp
  show ?thesis
    using assms delta_op_codec.read_to_eof_roundtrip [OF assms(1)]
    by (simp add: delta_deserialize_sized_def rd_bind_apply read_size_enc [OF bound])
qed

theorem delta_deserialize_enc_witness:
  "delta_deserialize_sized 20
      (enc_size 70000 @ enc_size 65539 @ write_iter enc_op [Copy 5 0x10000, Insert [1, 2, 3]])
    = Inr (\<lparr>source_size = 70000, target_size = 65539, ops = [Copy 5 0x10000, Insert [1, 2, 3]]\<rparr>, [])"
proof -
  have "list_all op_valid [Copy 5 0x10000, Insert [1, 2, 3]]" by (simp add: op_valid_def)
  moreover have "length (write_iter enc_op [Copy 5 0x10000, Insert [1, 2, 3]]) \<le> 20"
    by (simp add: write_iter_def Let_def enc_packed_def upt_rec)
  ultimately show ?thesis using delta_deserialize_enc [of _ 20 70000 65539] by fastforce
qed

end
