(* ===== verification/Bit_BTree.thy ===== *)
theory Bit_BTree
  imports Bit_Prelude
begin

text \<open>
  The ordered maps of the standard library as the program uses them (\<open>BTreeMap\<close> in the index):
  association lists sorted by key. The locale \<open>ordered_map\<close> is the contract the index relies
  on; its consequences (removing a list of keys, rebuilding from a list) are proved inside it, and
  the sorted lists interpret it.
\<close>

section \<open>Model\<close>

fun bt_get :: "('k \<times> 'v) list \<Rightarrow> 'k \<Rightarrow> 'v option" where
  "bt_get [] k = None"
| "bt_get ((j, v) # m) k = (if j = k then Some v else bt_get m k)"

fun bt_insert :: "'k::linorder \<Rightarrow> 'v \<Rightarrow> ('k \<times> 'v) list \<Rightarrow> ('k \<times> 'v) list" where
  "bt_insert k v [] = [(k, v)]"
| "bt_insert k v ((j, w) # m) =
     (if k < j then (k, v) # (j, w) # m
      else if k = j then (k, v) # m
      else (j, w) # bt_insert k v m)"

fun bt_remove :: "'k \<Rightarrow> ('k \<times> 'v) list \<Rightarrow> ('k \<times> 'v) list" where
  "bt_remove k [] = []"
| "bt_remove k ((j, v) # m) = (if j = k then m else (j, v) # bt_remove k m)"

text \<open>\<open>range(lo..)\<close> and \<open>range(lo..hi)\<close>. The second panics when \<open>lo > hi\<close>.\<close>

definition bt_range_from :: "'k::linorder \<Rightarrow> ('k \<times> 'v) list \<Rightarrow> ('k \<times> 'v) list" where
  "bt_range_from lo m = filter (\<lambda>(k, _). lo \<le> k) m"

definition bt_range :: "'k::linorder \<Rightarrow> 'k \<Rightarrow> ('k \<times> 'v) list \<Rightarrow> ('k \<times> 'v) list bit_result" where
  "bt_range lo hi m = (if hi < lo then Inl Panic else Inr (filter (\<lambda>(k, _). lo \<le> k \<and> k < hi) m))"

definition bt_from_list :: "('k::linorder \<times> 'v) list \<Rightarrow> ('k \<times> 'v) list" where
  "bt_from_list kvs = foldl (\<lambda>m (k, v). bt_insert k v m) [] kvs"

definition bt_sorted :: "('k::linorder \<times> 'v) list \<Rightarrow> bool" where
  "bt_sorted m \<longleftrightarrow> sorted_wrt (<) (map fst m)"

section \<open>The contract of an ordered map\<close>

locale ordered_map =
  fixes get :: "'m \<Rightarrow> 'k::linorder \<Rightarrow> 'v option"
    and insert_key :: "'k \<Rightarrow> 'v \<Rightarrow> 'm \<Rightarrow> 'm"
    and remove_key :: "'k \<Rightarrow> 'm \<Rightarrow> 'm"
    and items :: "'m \<Rightarrow> ('k \<times> 'v) list"
    and invar :: "'m \<Rightarrow> bool"
  assumes get_insert: "invar m \<Longrightarrow> get (insert_key k v m) j = (if j = k then Some v else get m j)"
    and get_remove: "invar m \<Longrightarrow> get (remove_key k m) j = (if j = k then None else get m j)"
    and invar_insert: "invar m \<Longrightarrow> invar (insert_key k v m)"
    and invar_remove: "invar m \<Longrightarrow> invar (remove_key k m)"
    and items_sorted: "invar m \<Longrightarrow> sorted_wrt (<) (map fst (items m))"
    and items_get: "invar m \<Longrightarrow> (k, v) \<in> set (items m) \<longleftrightarrow> get m k = Some v"
begin

lemma invar_remove_all: "invar m \<Longrightarrow> invar (foldl (\<lambda>m k. remove_key k m) m ks)"
  by (induction ks arbitrary: m) (auto intro: invar_remove)

lemma get_remove_all:
  "invar m \<Longrightarrow> get (foldl (\<lambda>m k. remove_key k m) m ks) j = (if j \<in> set ks then None else get m j)"
  by (induction ks arbitrary: m) (auto simp: invar_remove get_remove)

lemma items_distinct: "invar m \<Longrightarrow> distinct (map fst (items m))"
  using items_sorted [of m] by (simp add: strict_sorted_iff)

lemma items_ext:
  assumes "invar m" "invar n" "\<And>k. get m k = get n k"
  shows "items m = items n"
proof -
  have same: "set (items m) = set (items n)" using assms items_get by fastforce
  have "inj_on fst (set (items m) \<union> set (items n))"
    using items_distinct [OF assms(1)] same by (simp add: distinct_map)
  then show ?thesis
    using items_sorted [OF assms(1)] items_sorted [OF assms(2)] same
    by (intro map_sorted_distinct_set_unique) (auto simp: strict_sorted_iff)
qed

end

section \<open>Sorted lists implement it\<close>

lemma bt_get_Some: "bt_get m k = Some v \<Longrightarrow> (k, v) \<in> set m"
  by (induction m) (auto split: if_splits)

lemma bt_get_None: "bt_get m k = None \<longleftrightarrow> k \<notin> fst ` set m"
  by (induction m) (auto split: if_splits)

lemma bt_sorted_Cons: "bt_sorted ((k, v) # m) \<longleftrightarrow> (\<forall>(j, w) \<in> set m. k < j) \<and> bt_sorted m"
  by (auto simp: bt_sorted_def)

lemma bt_sorted_Nil [simp]: "bt_sorted []"
  by (simp add: bt_sorted_def)

lemma set_bt_insert: "set (bt_insert k v m) \<subseteq> insert (k, v) (set m)"
  by (induction k v m rule: bt_insert.induct) auto

lemma set_bt_remove: "set (bt_remove k m) \<subseteq> set m"
  by (induction k m rule: bt_remove.induct) auto

lemma bt_sorted_insert: "bt_sorted m \<Longrightarrow> bt_sorted (bt_insert k v m)"
proof (induction m)
  case (Cons a m)
  obtain j w where a: "a = (j, w)" by (cases a)
  with Cons set_bt_insert [of k v m] show ?case by (auto simp: bt_sorted_Cons)
qed (simp add: bt_sorted_Cons)

lemma bt_sorted_remove: "bt_sorted m \<Longrightarrow> bt_sorted (bt_remove k m)"
proof (induction m)
  case (Cons a m)
  obtain j w where a: "a = (j, w)" by (cases a)
  with Cons set_bt_remove [of k m] show ?case by (auto simp: bt_sorted_Cons)
qed simp

lemma bt_get_insert: "bt_sorted m \<Longrightarrow> bt_get (bt_insert k v m) j = (if j = k then Some v else bt_get m j)"
  by (induction m) (auto simp: bt_sorted_Cons)

lemma bt_get_remove: "bt_sorted m \<Longrightarrow> bt_get (bt_remove k m) j = (if j = k then None else bt_get m j)"
proof (induction m)
  case (Cons a m)
  obtain i w where a: "a = (i, w)" by (cases a)
  with Cons.prems have "i \<notin> fst ` set m" by (auto simp: bt_sorted_Cons)
  then have "bt_get m i = None" by (simp add: bt_get_None)
  with Cons a show ?case by (auto simp: bt_sorted_Cons)
qed simp

lemma bt_mem_get: "bt_sorted m \<Longrightarrow> (k, v) \<in> set m \<longleftrightarrow> bt_get m k = Some v"
  by (induction m) (auto simp: bt_sorted_Cons split: if_splits)

interpretation btree: ordered_map bt_get bt_insert bt_remove "\<lambda>m. m" bt_sorted
  by unfold_locales
     (auto simp: bt_get_insert bt_get_remove bt_sorted_insert bt_sorted_remove bt_mem_get,
      simp add: bt_sorted_def)

lemma bt_sorted_from_list: "bt_sorted (bt_from_list kvs)"
proof -
  have "bt_sorted m \<Longrightarrow> bt_sorted (foldl (\<lambda>m (k, v). bt_insert k v m) m kvs)" for m
    by (induction kvs arbitrary: m) (auto simp: bt_sorted_insert)
  then show ?thesis by (simp add: bt_from_list_def)
qed

lemma bt_insert_last: "(\<forall>j \<in> fst ` set m. j < k) \<Longrightarrow> bt_insert k v m = m @ [(k, v)]"
  by (induction m) auto

lemma bt_from_list_sorted: "bt_sorted kvs \<Longrightarrow> bt_from_list kvs = kvs"
proof -
  have "bt_sorted (m @ kvs) \<Longrightarrow> foldl (\<lambda>m (k, v). bt_insert k v m) m kvs = m @ kvs" for m
  proof (induction kvs arbitrary: m)
    case (Cons a kvs)
    obtain k v where a: "a = (k, v)" by (cases a)
    have "\<forall>j \<in> fst ` set m. j < k"
      using Cons.prems a by (auto simp: bt_sorted_def sorted_wrt_append)
    then show ?case using Cons.IH [of "m @ [a]"] Cons.prems a by (simp add: bt_insert_last)
  qed simp
  then show "bt_sorted kvs \<Longrightarrow> bt_from_list kvs = kvs" by (simp add: bt_from_list_def)
qed

end
