(* ===== verification/Bit_Hash.thy ===== *)
theory Bit_Hash
  imports Bit_Io "HOL-Library.Sublist"
begin

text \<open>
  Object identifiers, \<^verbatim>\<open>libbit/src/hash.rs\<close> and \<^verbatim>\<open>libbit/src/obj/obj_id.rs\<close>: the 20-byte
  hash, abbreviated identifiers and the prefix test by which an abbreviated identifier is
  resolved. The hexadecimal codecs are the crates \<open>rustc_hex\<close> and \<open>hex\<close>, and SHA-1 is the crate
  \<open>sha1\<close>: they are parameters.
\<close>

section \<open>Model\<close>

type_synonym oid = "byte list"

definition OID_SIZE :: nat where
  "OID_SIZE = 20"

definition oid_wf :: "oid \<Rightarrow> bool" where
  "oid_wf o' \<longleftrightarrow> length o' = OID_SIZE"

definition UNKNOWN :: oid where
  "UNKNOWN = replicate 20 0"

definition EMPTY_TREE :: oid where
  "EMPTY_TREE =
    [0x4b, 0x82, 0x5d, 0xc6, 0x42, 0xcb, 0x6e, 0xb9, 0xa0, 0x60, 0xe5, 0x4b, 0xf8, 0xd6, 0x92,
     0x88, 0xfb, 0xee, 0x49, 0x04]"

definition EMPTY_BLOB :: oid where
  "EMPTY_BLOB =
    [0xe6, 0x9d, 0xe2, 0x9b, 0xb2, 0xd1, 0xd6, 0x43, 0x4b, 0x8b, 0x29, 0xae, 0x77, 0x5a, 0xd8,
     0xc2, 0xe4, 0x8c, 0x53, 0x91]"

definition is_unknown :: "oid \<Rightarrow> bool" where
  "is_unknown o' \<longleftrightarrow> o' = UNKNOWN"

definition is_known :: "oid \<Rightarrow> bool" where
  "is_known o' \<longleftrightarrow> o' \<noteq> UNKNOWN"

definition read_oid :: "oid reader" where
  "read_oid = read_exact 20"

definition write_oid :: "oid \<Rightarrow> byte list" where
  "write_oid o' = o'"

text \<open>
  \<open>SHA1Hash::from_str\<close>. \<open>trim_end\<close> is written for ASCII white space; the decoder is the crate's.
\<close>

definition ascii_space :: "byte \<Rightarrow> bool" where
  "ascii_space b \<longleftrightarrow> b = 32 \<or> b = 9 \<or> b = 10 \<or> b = 11 \<or> b = 12 \<or> b = 13"

definition trim_end :: "byte list \<Rightarrow> byte list" where
  "trim_end s = rev (dropWhile ascii_space (rev s))"

definition oid_from_str :: "(byte list \<Rightarrow> byte list bit_result) \<Rightarrow> byte list \<Rightarrow> oid bit_result" where
  "oid_from_str from_hex s =
     (let s = trim_end s in
      and_then (ensure (length s = 40) (Bail ''sha1 length'')) (\<lambda>_. from_hex s))"

definition short :: "(byte list \<Rightarrow> byte list) \<Rightarrow> oid \<Rightarrow> byte list" where
  "short to_hex o' = take 7 (to_hex o')"

record partial_oid =
  bytes :: "byte list"
  len :: nat

datatype bit_id = Full oid | Partial partial_oid

definition is_hexdigit :: "byte \<Rightarrow> bool" where
  "is_hexdigit b \<longleftrightarrow> (48 \<le> b \<and> b \<le> 57) \<or> (65 \<le> b \<and> b \<le> 70) \<or> (97 \<le> b \<and> b \<le> 102)"

definition partial_oid_from_str :: "byte list \<Rightarrow> partial_oid bit_result" where
  "partial_oid_from_str s =
     and_then (ensure (length s \<noteq> 40) (Bail ''partial oid from full oid'')) (\<lambda>_.
     and_then (ensure (length s < 40) (Bail ''partial oid too long'')) (\<lambda>_.
     and_then (ensure (4 \<le> length s) (Bail ''hash prefix must be at least 4 hex characters'')) (\<lambda>_.
     and_then (ensure (list_all is_hexdigit s) (Bail ''invalid partial hash'')) (\<lambda>_.
       Inr \<lparr>bytes = s @ replicate (40 - length s) 48, len = length s\<rparr>))))"

definition bit_id_from_str :: "(byte list \<Rightarrow> byte list bit_result) \<Rightarrow> byte list \<Rightarrow> bit_id bit_result" where
  "bit_id_from_str from_hex s =
     (case ord_cmp (length s) 40 of
        Less \<Rightarrow> (case partial_oid_from_str s of Inl _ \<Rightarrow> Inl Panic | Inr p \<Rightarrow> Inr (Partial p))
      | Equal \<Rightarrow> (case oid_from_str from_hex s of Inl _ \<Rightarrow> Inl Panic | Inr o' \<Rightarrow> Inr (Full o'))
      | Greater \<Rightarrow> Inl (Bail ''invalid bit object id''))"

text \<open>\<open>PartialOid::into_oid\<close> decodes the 40 digits, padded with zeros, and reads 20 bytes.\<close>

definition partial_into_oid :: "(byte list \<Rightarrow> byte list bit_result) \<Rightarrow> partial_oid \<Rightarrow> oid bit_result" where
  "partial_into_oid hex_decode p =
     and_then (hex_decode (bytes p)) (\<lambda>bs. and_then (read_oid bs) (\<lambda>(o', _). Inr o'))"

definition partial_split :: "partial_oid \<Rightarrow> byte list \<times> byte list" where
  "partial_split p = (take 2 (bytes p), take (len p - 2) (drop 2 (bytes p)))"

definition has_prefix :: "(byte list \<Rightarrow> byte list bit_result) \<Rightarrow> oid \<Rightarrow> partial_oid \<Rightarrow> bool bit_result" where
  "has_prefix hex_decode o' pre =
     and_then (partial_into_oid hex_decode pre) (\<lambda>prefix_bytes.
       let n = len pre div 2;
           mask = (if len pre mod 2 = 0 then 0x00 else 0xf0)
       in Inr (take n prefix_bytes = take n o' \<and> prefix_bytes ! n = o' ! n AND mask))"

section \<open>Reference: hexadecimal\<close>

definition hex_digit :: "nat \<Rightarrow> byte" where
  "hex_digit d = (if d < 10 then of_nat (48 + d) else of_nat (87 + d))"

definition hex_val :: "byte \<Rightarrow> nat" where
  "hex_val b = (if b \<le> 57 then unat b - 48 else if b \<le> 70 then unat b - 55 else unat b - 87)"

definition hex_of :: "byte list \<Rightarrow> nat list" where
  "hex_of bs = concat (map (\<lambda>b. [unat b div 16, unat b mod 16]) bs)"

fun unhex :: "nat list \<Rightarrow> byte list" where
  "unhex (h # l # r) = of_nat (h * 16 + l) # unhex r"
| "unhex _ = []"

text \<open>
  The documented behaviour of \<open>hex::decode\<close> and \<open>from_hex\<close> on a string of hexadecimal digits of
  even length: two digits, of either case, make a byte.
\<close>

definition decodes_hex :: "(byte list \<Rightarrow> byte list bit_result) \<Rightarrow> bool" where
  "decodes_hex dec \<longleftrightarrow>
     (\<forall>s. list_all is_hexdigit s \<and> even (length s) \<longrightarrow> dec s = Inr (unhex (map hex_val s)))"

text \<open>\<open>hex::encode\<close> writes two lower case digits for a byte.\<close>

definition encodes_hex :: "(byte list \<Rightarrow> byte list) \<Rightarrow> bool" where
  "encodes_hex enc \<longleftrightarrow> (\<forall>bs. enc bs = map hex_digit (hex_of bs))"

section \<open>Prefixes\<close>

lemma hex_val_less: "is_hexdigit b \<Longrightarrow> hex_val b < 16"
  by (auto simp: is_hexdigit_def hex_val_def word_le_nat_alt)

lemma unhex_length: "even (length xs) \<Longrightarrow> length (unhex xs) = length xs div 2"
  by (induction xs rule: unhex.induct) auto

lemma nibbles: "h < 16 \<Longrightarrow> l < 16 \<Longrightarrow> unat (of_nat (h * 16 + l) :: byte) = h * 16 + l"
  by (simp add: unat_of_nat del: of_nat_add of_nat_mult)

lemma hex_of_unhex: "even (length xs) \<Longrightarrow> list_all (\<lambda>d. d < 16) xs \<Longrightarrow> hex_of (unhex xs) = xs"
  by (induction xs rule: unhex.induct) (simp_all add: hex_of_def nibbles del: of_nat_add of_nat_mult)

lemma hex_of_length [simp]: "length (hex_of bs) = 2 * length bs"
  by (induction bs) (auto simp: hex_of_def)

lemma hex_of_take: "take (2 * n) (hex_of bs) = hex_of (take n bs)"
proof (induction bs arbitrary: n)
  case (Cons b bs)
  then show ?case by (cases n) (auto simp: hex_of_def)
qed (simp add: hex_of_def)

lemma hex_of_inject: "hex_of xs = hex_of ys \<longleftrightarrow> xs = ys"
proof (induction xs arbitrary: ys)
  case Nil
  then show ?case by (cases ys) (auto simp: hex_of_def)
next
  case (Cons x xs)
  show ?case
  proof (cases ys)
    case (Cons y ys')
    have "unat x div 16 = unat y div 16 \<Longrightarrow> unat x mod 16 = unat y mod 16 \<Longrightarrow> x = y"
      by (metis div_mult_mod_eq word_unat_eq_iff)
    then show ?thesis using Cons Cons.IH by (auto simp: hex_of_def)
  qed (auto simp: hex_of_def)
qed

lemma hex_of_nth: "i < length bs \<Longrightarrow> hex_of bs ! (2 * i) = unat (bs ! i) div 16"
proof (induction bs arbitrary: i)
  case (Cons b bs)
  then show ?case by (cases i) (auto simp: hex_of_def)
qed simp


lemma hex_of_nth_low: "i < length bs \<Longrightarrow> hex_of bs ! Suc (2 * i) = unat (bs ! i) mod 16"
proof (induction bs arbitrary: i)
  case (Cons b bs)
  then show ?case by (cases i) (auto simp: hex_of_def)
qed simp

lemma byte_high_nibble: "unat ((b::byte) AND 0xf0) = (unat b div 16) * 16"
proof -
  have "(0xf0 :: byte) = push_bit 4 (mask 4)" by (simp add: mask_eq_exp_minus_1)
  then have "b AND 0xf0 = b AND push_bit 4 (mask 4)" by (simp only:)
  also have "\<dots> = push_bit 4 (drop_bit 4 b)"
    by (rule bit_eqI) (auto simp: bit_simps dest: bit_imp_le_length)
  finally have "unat (b AND 0xf0) = unat (push_bit 4 (drop_bit 4 b))" by (simp only:)
  also have "\<dots> = ((unat b div 16) * 16) mod 256"
    unfolding unsigned_push_bit_eq unat_drop_bit_eq
    by (simp add: take_bit_eq_mod push_bit_eq_mult drop_bit_eq_div)
  also have "\<dots> = (unat b div 16) * 16"
    using unat_byte_less [of b] by (intro mod_less) linarith
  finally show ?thesis .
qed

lemma nth_prefix_iff:
  assumes "length xs = Suc n" and "n < length ys"
  shows "prefix xs ys \<longleftrightarrow> take n xs = take n ys \<and> xs ! n = ys ! n"
proof -
  have "prefix xs ys \<longleftrightarrow> xs = take (Suc n) ys"
    using assms by (metis append_eq_conv_conj prefix_def take_is_prefix)
  also have "xs = take n xs @ [xs ! n]" using assms by (metis lessI take_Suc_conv_app_nth take_all_iff order_refl)
  finally show ?thesis
    using assms by (metis append1_eq_conv take_Suc_conv_app_nth lessI take_all_iff order_refl)
qed

lemma partial_oid_digits:
  assumes "partial_oid_from_str s = Inr p"
  shows "bytes p = s @ replicate (40 - length s) 48" and "len p = length s"
    and "length s < 40" and "4 \<le> length s" and "list_all is_hexdigit s"
  using assms by (auto simp: partial_oid_from_str_def and_then_eq_Inr ensure_eq_Inr)

lemma partial_into_oid_digits:
  assumes "partial_oid_from_str s = Inr p" and "decodes_hex dec"
  obtains pb where "partial_into_oid dec p = Inr pb" and "length pb = 20"
    and "hex_of pb = map hex_val s @ replicate (40 - length s) 0"
proof -
  note p = partial_oid_digits [OF assms(1)]
  let ?d = "map hex_val s @ replicate (40 - length s) 0" and ?pb = "unhex (map hex_val (bytes p))"
  have d: "map hex_val (bytes p) = ?d" by (simp add: p(1) hex_val_def)
  have "list_all is_hexdigit (bytes p)" using p by (simp add: list_all_length is_hexdigit_def nth_append)
  moreover have "even (length (bytes p))" using p by simp
  ultimately have dec: "dec (bytes p) = Inr ?pb" using assms(2) by (simp add: decodes_hex_def)
  have len: "length ?pb = 20" using p by (simp add: unhex_length)
  have "partial_into_oid dec p = Inr ?pb"
    using len by (simp add: partial_into_oid_def dec read_oid_def read_exact_def)
  moreover have "hex_of ?pb = ?d"
    unfolding d using p(3,5) by (intro hex_of_unhex) (auto simp: list_all_iff hex_val_less)
  ultimately show ?thesis using that len by blast
qed

lemma has_prefix_digits:
  assumes "partial_oid_from_str s = Inr p" and "decodes_hex dec" and "oid_wf o'"
  shows "has_prefix dec o' p = Inr (prefix (map hex_val s) (hex_of o'))"
proof -
  note p = partial_oid_digits [OF assms(1)]
  obtain pb where pb: "partial_into_oid dec p = Inr pb" and len: "length pb = 20"
    and hex: "hex_of pb = map hex_val s @ replicate (40 - length s) 0"
    using partial_into_oid_digits [OF assms(1,2)] by blast
  define n where "n = length s div 2"
  have n: "n < 20" using p(3) by (simp add: n_def)
  have o20: "length o' = 20" using assms(3) by (simp add: oid_wf_def OID_SIZE_def)
  have head: "take n pb = take n o' \<longleftrightarrow> take (2 * n) (map hex_val s) = take (2 * n) (hex_of o')"
    using hex by (simp add: hex_of_inject [symmetric] hex_of_take [symmetric] n_def)
  have low: "unat (pb ! n) mod 16 = 0"
  proof -
    have "Suc (2 * n) \<ge> length s" unfolding n_def by arith
    then show ?thesis using hex_of_nth_low [of n pb] n len hex p(3) by (simp add: nth_append)
  qed
  show ?thesis
  proof (cases "even (length s)")
    case True
    then have s: "length s = 2 * n" by (simp add: n_def)
    then have "unat (pb ! n) div 16 = 0" using hex_of_nth [of n pb] n len hex p(3) by (simp add: nth_append)
    with low have "unat (pb ! n) = 0" by (metis div_mult_mod_eq add.right_neutral mult_zero_left)
    then have "pb ! n = 0" by (simp add: unat_eq_0)
    moreover have "prefix (map hex_val s) (hex_of o') \<longleftrightarrow> map hex_val s = take (2 * n) (hex_of o')"
      using s by (metis append_eq_conv_conj length_map prefix_def take_is_prefix)
    ultimately show ?thesis
      using True head s p(2) by (simp add: has_prefix_def pb Let_def n_def [symmetric])
  next
    case False
    then have s: "length s = Suc (2 * n)" by (simp add: n_def)
    have "unat (pb ! n) div 16 = hex_val (s ! (2 * n))"
      using hex_of_nth [of n pb] n len hex s by (simp add: nth_append)
    with low have "unat (pb ! n) = hex_val (s ! (2 * n)) * 16"
      by (metis div_mult_mod_eq add.right_neutral)
    then have "pb ! n = o' ! n AND 0xf0 \<longleftrightarrow> hex_val (s ! (2 * n)) = hex_of o' ! (2 * n)"
      using n o20 by (simp add: word_unat_eq_iff byte_high_nibble hex_of_nth)
    moreover have "prefix (map hex_val s) (hex_of o') \<longleftrightarrow>
        take (2 * n) (map hex_val s) = take (2 * n) (hex_of o') \<and> hex_val (s ! (2 * n)) = hex_of o' ! (2 * n)"
      using s n o20 by (subst nth_prefix_iff [of _ "2 * n"]) simp_all
    ultimately show ?thesis
      using False head s p(2) by (simp add: has_prefix_def pb Let_def n_def [symmetric] odd_iff_mod_2_eq_one)
  qed
qed

text \<open>
  The prefix test is exact on digits, odd lengths included: for a string accepted as an
  abbreviated identifier, \<open>has_prefix\<close> answers whether the hexadecimal digits of the object
  identifier begin with the digits of the string (upper and lower case digits being the same), and
  never fails. The decoder is any that does what \<open>hex::decode\<close> documents.
\<close>

theorem has_prefix_exact:
  assumes "decodes_hex dec" and "partial_oid_from_str s = Inr p" and "oid_wf o'"
  shows "has_prefix dec o' p = Inr (prefix (map hex_val s) (hex_of o'))"
  by (rule has_prefix_digits [OF assms(2,1,3)])

theorem has_prefix_exact_witness:
  "has_prefix (\<lambda>s. Inr (unhex (map hex_val s))) EMPTY_TREE
     \<lparr>bytes = bytes_of ''4B825'' @ replicate 35 48, len = 5\<rparr> = Inr True"
proof -
  have p: "partial_oid_from_str (bytes_of ''4B825'') =
      Inr \<lparr>bytes = bytes_of ''4B825'' @ replicate 35 48, len = 5\<rparr>"
    by (simp add: partial_oid_from_str_def is_hexdigit_def)
  have dec: "decodes_hex (\<lambda>s. Inr (unhex (map hex_val s)))" by (simp add: decodes_hex_def)
  have wf: "oid_wf EMPTY_TREE" by (simp add: oid_wf_def EMPTY_TREE_def OID_SIZE_def)
  have "prefix (map hex_val (bytes_of ''4B825'')) (hex_of EMPTY_TREE)"
    by (simp add: hex_val_def hex_of_def EMPTY_TREE_def)
  then show ?thesis by (simp only: has_prefix_exact [OF dec p wf])
qed

interpretation oid_codec: codec write_oid read_oid oid_wf
  by unfold_locales (simp add: write_oid_def read_oid_def oid_wf_def OID_SIZE_def)

lemma consumes_read_oid [consumes_intro]: "consumes 20 read_oid"
  by (simp add: read_oid_def consumes_read_exact)

section \<open>Text form\<close>

lemma hex_digit_val: "d < 16 \<Longrightarrow> is_hexdigit (hex_digit d) \<and> hex_val (hex_digit d) = d"
  by (auto simp: hex_digit_def hex_val_def is_hexdigit_def word_le_nat_alt unat_of_nat simp del: of_nat_add)

lemma hex_of_less: "list_all (\<lambda>d. d < 16) (hex_of bs)"
  by (induction bs) (auto simp: hex_of_def less_mult_imp_div_less [of _ 16 16] unat_byte_less)

lemma unhex_hex_of: "unhex (hex_of bs) = bs"
  by (induction bs) (auto simp: hex_of_def)

lemma hex_digits_ok:
  "list_all is_hexdigit (map hex_digit (hex_of bs))" "map hex_val (map hex_digit (hex_of bs)) = hex_of bs"
  using hex_of_less [of bs] hex_digit_val by (induction "hex_of bs") (auto simp: list_all_iff intro: map_idI)

lemma trim_end_hex: "list_all is_hexdigit s \<Longrightarrow> trim_end s = s"
  using last_in_set [of s]
  by (cases s rule: rev_cases) (auto simp: trim_end_def ascii_space_def is_hexdigit_def)

lemma oid_hex_roundtrip:
  assumes "encodes_hex enc" "decodes_hex dec" "oid_wf o'"
  shows "oid_from_str dec (enc o') = Inr o'" and "ascii (enc o')" and "b_newline \<notin> set (enc o')"
    and "b_cr \<notin> set (enc o')"
proof -
  have e: "enc o' = map hex_digit (hex_of o')" using assms(1) by (simp add: encodes_hex_def)
  have "dec (enc o') = Inr o'"
    using assms(2) hex_digits_ok [of o'] unfolding decodes_hex_def e by (simp add: unhex_hex_of)
  moreover have d: "list_all is_hexdigit (enc o')" by (simp only: e hex_digits_ok)
  ultimately show "oid_from_str dec (enc o') = Inr o'"
    using assms(3) by (simp add: oid_from_str_def trim_end_hex Let_def) (simp add: e oid_wf_def OID_SIZE_def)
  from d show "ascii (enc o')" "b_newline \<notin> set (enc o')" "b_cr \<notin> set (enc o')"
    by (auto simp: ascii_def list_all_iff is_hexdigit_def word_le_nat_alt word_less_nat_alt)
qed

end
