(* ===== verification/Bit_Path.thy ===== *)
theory Bit_Path
  imports Bit_Prelude "HOL-Library.Sublist"
begin

text \<open>
  Repository paths, \<^verbatim>\<open>libbit/src/path.rs\<close>: the interned path type with its order, the order of
  git trees (\<open>path_cmp_explicit\<close>), the component views, \<open>join\<close>, \<open>starts_with\<close> and
  \<open>normalize\<close>. Interning only shares storage (equality, hashing and order are those of the bytes), so
  a path is its bytes. What \<open>std::path\<close> does on Unix is modelled where the source calls it.
\<close>

section \<open>The path type and its order\<close>

datatype bit_path = BitPath (path_bytes: "byte list")

definition path_cmp :: "byte list \<Rightarrow> byte list \<Rightarrow> ordering" where
  "path_cmp a b =
     (let m = length a; n = length b; minlen = min m n
      in then_with (slice_cmp (take minlen a) (take minlen b)) (ord_cmp m n))"

definition bit_path_cmp :: "bit_path \<Rightarrow> bit_path \<Rightarrow> ordering" where
  "bit_path_cmp a b = path_cmp (path_bytes a) (path_bytes b)"

definition path_cmp_explicit :: "byte list \<Rightarrow> bool \<Rightarrow> byte list \<Rightarrow> bool \<Rightarrow> ordering" where
  "path_cmp_explicit a a_is_dir b b_is_dir =
     (let min_len = min (length a) (length b);
          x = (if length a = min_len then (if a_is_dir then b_slash else b_nul) else a ! min_len);
          y = (if length b = min_len then (if b_is_dir then b_slash else b_nul) else b ! min_len)
      in then_with (slice_cmp (take min_len a) (take min_len b)) (ord_cmp x y))"

lemma path_cmp_Cons [simp]:
  "path_cmp [] [] = Equal" "path_cmp [] (y # ys) = Less" "path_cmp (x # xs) [] = Greater"
  "path_cmp (x # xs) (y # ys) = then_with (ord_cmp x y) (path_cmp xs ys)"
  by (simp_all add: path_cmp_def Let_def) (cases "ord_cmp x y"; simp add: ord_cmp_def)

lemma path_cmp_slice_cmp: "path_cmp a b = slice_cmp a b"
  by (induction a b rule: slice_cmp.induct) simp_all

instantiation bit_path :: linorder
begin

definition less_eq_bit_path :: "bit_path \<Rightarrow> bit_path \<Rightarrow> bool" where
  "less_eq_bit_path a b \<longleftrightarrow> bit_path_cmp a b \<noteq> Greater"

definition less_bit_path :: "bit_path \<Rightarrow> bit_path \<Rightarrow> bool" where
  "less_bit_path a b \<longleftrightarrow> bit_path_cmp a b = Less"

instance
proof
  fix x y z :: bit_path
  have swap: "bit_path_cmp b a = reverse_ordering (bit_path_cmp a b)" for a b
    unfolding bit_path_cmp_def path_cmp_slice_cmp by (rule slice_cmp_swap)
  have eq: "bit_path_cmp a b = Equal \<longleftrightarrow> a = b" for a b
    by (cases a; cases b) (simp add: bit_path_cmp_def path_cmp_slice_cmp)
  have trans: "bit_path_cmp a b = Less \<Longrightarrow> bit_path_cmp b c = Less \<Longrightarrow> bit_path_cmp a c = Less" for a b c
    unfolding bit_path_cmp_def path_cmp_slice_cmp by (rule slice_cmp_Less_trans)
  show "(x < y) = (x \<le> y \<and> \<not> y \<le> x)"
    using swap [of y x] by (cases "bit_path_cmp x y") (simp_all add: less_eq_bit_path_def less_bit_path_def)
  show "x \<le> x" using eq [of x x] by (simp add: less_eq_bit_path_def)
  show "x \<le> y \<or> y \<le> x"
    using swap [of y x] by (cases "bit_path_cmp x y") (simp_all add: less_eq_bit_path_def)
  show "x \<le> y \<Longrightarrow> y \<le> x \<Longrightarrow> x = y"
    using swap [of y x] eq [of x y] by (cases "bit_path_cmp x y") (simp_all add: less_eq_bit_path_def)
  show "x \<le> y \<Longrightarrow> y \<le> z \<Longrightarrow> x \<le> z"
    using trans [of x y z] eq [of x y] eq [of y z]
    by (cases "bit_path_cmp x y"; cases "bit_path_cmp y z") (auto simp: less_eq_bit_path_def)
qed

end

lemma bit_path_less: "a < b \<longleftrightarrow> slice_cmp (path_bytes a) (path_bytes b) = Less"
  by (simp add: less_bit_path_def bit_path_cmp_def path_cmp_slice_cmp)

lemma bit_path_le: "a \<le> b \<longleftrightarrow> slice_cmp (path_bytes a) (path_bytes b) \<noteq> Greater"
  by (simp add: less_eq_bit_path_def bit_path_cmp_def path_cmp_slice_cmp)

section \<open>The order of tree entries\<close>

text \<open>
  Reference: git's \<open>base_name_compare\<close> orders tree entries as if the name of a directory ended in
  a slash.
\<close>

definition sort_key :: "byte list \<Rightarrow> bool \<Rightarrow> byte list" where
  "sort_key name is_dir = name @ (if is_dir then [b_slash] else [])"

definition valid_name :: "byte list \<Rightarrow> bool" where
  "valid_name name \<longleftrightarrow> name \<noteq> [] \<and> b_slash \<notin> set name \<and> b_nul \<notin> set name"

lemma path_cmp_explicit_Cons [simp]:
  "path_cmp_explicit (x # xs) da (y # ys) db = then_with (ord_cmp x y) (path_cmp_explicit xs da ys db)"
  by (simp add: path_cmp_explicit_def Let_def) (cases "ord_cmp x y"; simp add: ord_cmp_def)

lemma nul_less: "y \<noteq> 0 \<Longrightarrow> (0::byte) < y"
  by (simp add: word_neq_0_conv)

lemma path_cmp_explicit_base_name:
  assumes "b_slash \<notin> set a" "b_nul \<notin> set a" "b_slash \<notin> set b" "b_nul \<notin> set b"
  shows "path_cmp_explicit a da b db = slice_cmp (sort_key a da) (sort_key b db)"
  using assms
proof (induction a b rule: slice_cmp.induct)
  case 1
  then show ?case by (cases da; cases db) (simp_all add: path_cmp_explicit_def sort_key_def ord_cmp_def)
next
  case (2 y ys)
  then show ?case
    by (cases da) (auto simp: path_cmp_explicit_def sort_key_def ord_cmp_def nul_less)
next
  case (3 x xs)
  then show ?case
    by (cases db) (auto simp: path_cmp_explicit_def sort_key_def ord_cmp_def nul_less)
next
  case (4 x xs y ys)
  then show ?case by (simp add: sort_key_def)
qed

lemma sort_key_inject:
  "valid_name a \<Longrightarrow> valid_name b \<Longrightarrow> sort_key a da = sort_key b db \<longleftrightarrow> a = b \<and> da = db"
proof -
  assume "valid_name a" "valid_name b"
  then have a: "b_slash \<notin> set a" and b: "b_slash \<notin> set b" by (auto simp: valid_name_def)
  have "sort_key a da = sort_key b db \<Longrightarrow> a = b \<and> da = db"
    using a b by (cases da; cases db) (auto simp: sort_key_def)
  then show ?thesis by auto
qed

text \<open>
  C34. On the names a tree may hold (no slash, no null byte), the order the program sorts tree
  entries by is git's: it compares the names byte by byte as if a directory's name ended in a slash,
  and it calls two entries equal only when both the name and the kind agree.
\<close>

theorem path_cmp_explicit_is_git_order:
  assumes "valid_name a" and "valid_name b"
  shows "path_cmp_explicit a da b db = slice_cmp (sort_key a da) (sort_key b db)
    \<and> (path_cmp_explicit a da b db = Equal \<longleftrightarrow> a = b \<and> da = db)"
  using assms sort_key_inject [OF assms]
  by (simp add: path_cmp_explicit_base_name valid_name_def)

theorem path_cmp_explicit_is_git_order_witness:
  "valid_name (bytes_of ''foo'') \<and> valid_name (bytes_of ''foo.c'')
   \<and> path_cmp_explicit (bytes_of ''foo'') True (bytes_of ''foo.c'') False
       = slice_cmp (bytes_of ''foo/'') (bytes_of ''foo.c'')
   \<and> path_cmp_explicit (bytes_of ''foo'') True (bytes_of ''foo.c'') False = Greater"
proof -
  have v: "valid_name (bytes_of ''foo'')" "valid_name (bytes_of ''foo.c'')" by (simp_all add: valid_name_def)
  from path_cmp_explicit_is_git_order [OF v, of True False] v show ?thesis
    by (simp add: sort_key_def ord_cmp_def)
qed


section \<open>Components\<close>

text \<open>
  \<open>Path::components\<close> on Unix: the root if the path is absolute, then the parts between slashes;
  empty parts are skipped, and so is \<open>.\<close> except at the very start of a relative path.
\<close>

datatype component = RootDir | CurDir | ParentDir | Normal "byte list"

fun split_on :: "byte \<Rightarrow> byte list \<Rightarrow> byte list list" where
  "split_on sep [] = [[]]"
| "split_on sep (b # bs) =
     (if b = sep then [] # split_on sep bs
      else (case split_on sep bs of [] \<Rightarrow> [[b]] | p # ps \<Rightarrow> (b # p) # ps))"

definition is_absolute :: "byte list \<Rightarrow> bool" where
  "is_absolute p \<longleftrightarrow> (case p of [] \<Rightarrow> False | b # _ \<Rightarrow> b = b_slash)"

definition component_of :: "byte list \<Rightarrow> component option" where
  "component_of seg =
     (if seg = [] \<or> seg = [46] then None else if seg = [46, 46] then Some ParentDir else Some (Normal seg))"

definition components :: "byte list \<Rightarrow> component list" where
  "components p =
     (let segs = split_on b_slash p in
      (if is_absolute p then [RootDir] else if hd segs = [46] then [CurDir] else [])
      @ List.map_filter component_of segs)"

fun component_os_str :: "component \<Rightarrow> byte list" where
  "component_os_str RootDir = [b_slash]"
| "component_os_str CurDir = [46]"
| "component_os_str ParentDir = [46, 46]"
| "component_os_str (Normal c) = c"

text \<open>\<open>BitPath::components\<close>: the components as paths of their own.\<close>

definition bit_path_components :: "bit_path \<Rightarrow> bit_path list" where
  "bit_path_components p = map (\<lambda>c. BitPath (component_os_str c)) (components (path_bytes p))"

text \<open>\<open>Path::starts_with\<close> compares whole components; \<open>Path::join\<close> is that of \<open>PathBuf::push\<close>.\<close>

definition path_starts_with :: "bit_path \<Rightarrow> bit_path \<Rightarrow> bool" where
  "path_starts_with p base \<longleftrightarrow> prefix (components (path_bytes base)) (components (path_bytes p))"

definition path_push :: "byte list \<Rightarrow> byte list \<Rightarrow> byte list" where
  "path_push base p =
     (if is_absolute p then p
      else if base = [] \<or> last base = b_slash then base @ p
      else base @ b_slash # p)"

definition join :: "bit_path \<Rightarrow> byte list \<Rightarrow> bit_path" where
  "join base p = BitPath (path_push (path_bytes base) p)"

definition path_len :: "bit_path \<Rightarrow> nat" where
  "path_len p = length (path_bytes p)"

definition is_relative :: "bit_path \<Rightarrow> bool" where
  "is_relative p \<longleftrightarrow> \<not> is_absolute (path_bytes p)"

definition approximate_lexicographical_successor :: "bit_path \<Rightarrow> bit_path" where
  "approximate_lexicographical_successor p = BitPath (path_bytes p @ [97])"

text \<open>
  \<open>cumulative_components\<close>: \<open>foo/bar/baz\<close> gives \<open>foo\<close>, \<open>foo/bar\<close>, \<open>foo/bar/baz\<close>. The closure
  keeps the index behind the last slash; \<open>pre\<close> is what is before the index.
\<close>

function cumulative_from :: "byte list \<Rightarrow> byte list \<Rightarrow> bit_path list" where
  "cumulative_from pre rest =
     (let seg = takeWhile (\<lambda>b. b \<noteq> b_slash) rest; tail = drop (length seg) rest in
      case tail of
        [] \<Rightarrow> [BitPath (pre @ rest)]
      | slash # rest' \<Rightarrow> BitPath (pre @ seg) # cumulative_from (pre @ seg @ [slash]) rest')"
  by pat_completeness auto
termination
proof (relation "measure (\<lambda>(pre, rest). length rest)")
  fix rest :: "byte list" and seg tail slash rest' and pre :: "byte list"
  assume "seg = takeWhile (\<lambda>b. b \<noteq> b_slash) rest" "tail = drop (length seg) rest" "tail = slash # rest'"
  then have "length (drop (length seg) rest) = Suc (length rest')" by (metis length_Cons)
  then show "((pre @ seg @ [slash], rest'), (pre, rest)) \<in> measure (\<lambda>(pre, rest). length rest)" by simp
qed simp

declare cumulative_from.simps [simp del]

definition cumulative_components :: "bit_path \<Rightarrow> bit_path list" where
  "cumulative_components p = cumulative_from [] (path_bytes p)"

section \<open>Normalisation\<close>

text \<open>
  \<open>normalize\<close> pushes and pops components on a \<open>PathBuf\<close>. Pushing the root replaces what is there,
  popping the root or the empty path does nothing.
\<close>

fun pop_component :: "component list \<Rightarrow> component list" where
  "pop_component [] = []"
| "pop_component (c # cs) = (if cs = [] \<and> c = RootDir then [c] else butlast (c # cs))"

fun normalize_step :: "component list \<Rightarrow> component \<Rightarrow> component list" where
  "normalize_step ret RootDir = [RootDir]"
| "normalize_step ret CurDir = ret"
| "normalize_step ret ParentDir = pop_component ret"
| "normalize_step ret (Normal c) = ret @ [Normal c]"

definition path_buf :: "component list \<Rightarrow> byte list" where
  "path_buf cs = foldl path_push [] (map component_os_str cs)"

definition normalize :: "byte list \<Rightarrow> byte list" where
  "normalize p = path_buf (foldl normalize_step [] (components p))"


section \<open>Splitting and joining\<close>

fun join_on :: "byte \<Rightarrow> byte list list \<Rightarrow> byte list" where
  "join_on sep [] = []"
| "join_on sep [x] = x"
| "join_on sep (x # y # xs) = x @ sep # join_on sep (y # xs)"

lemma split_on_nonempty [simp]: "split_on sep bs \<noteq> []"
  by (cases bs) (auto split: list.splits)

lemma split_on_no_sep: "sep \<notin> set xs \<Longrightarrow> split_on sep xs = [xs]"
  by (induction xs) auto

lemma split_on_append: "split_on sep (xs @ sep # ys) = split_on sep xs @ split_on sep ys"
  by (induction xs) (auto split: list.splits simp: neq_Nil_conv)

lemma split_on_seg: "seg \<in> set (split_on sep bs) \<Longrightarrow> sep \<notin> set seg"
proof (induction bs arbitrary: seg)
  case (Cons b bs)
  obtain p ps where "split_on sep bs = p # ps" by (cases "split_on sep bs") auto
  with Cons show ?case by (auto split: if_splits)
qed simp

lemma join_on_Cons: "xs \<noteq> [] \<Longrightarrow> join_on sep (x # xs) = x @ sep # join_on sep xs"
  by (cases xs) auto

lemma join_split_on [simp]: "join_on sep (split_on sep bs) = bs"
proof (induction bs)
  case (Cons b bs)
  obtain p ps where s: "split_on sep bs = p # ps" by (cases "split_on sep bs") auto
  with Cons show ?case by (cases ps) (auto simp: join_on_Cons)
qed simp

lemma split_join_on:
  "xs \<noteq> [] \<Longrightarrow> \<forall>x \<in> set xs. sep \<notin> set x \<Longrightarrow> split_on sep (join_on sep xs) = xs"
proof (induction xs)
  case (Cons x xs)
  then show ?case
    by (cases "xs = []") (auto simp: join_on_Cons split_on_append split_on_no_sep)
qed simp

lemma join_on_append:
  "xs \<noteq> [] \<Longrightarrow> ys \<noteq> [] \<Longrightarrow> join_on sep (xs @ ys) = join_on sep xs @ sep # join_on sep ys"
proof (induction xs)
  case (Cons x xs)
  then show ?case by (cases "xs = []") (auto simp: join_on_Cons)
qed simp

lemma prefix_map_inj: "inj f \<Longrightarrow> prefix (map f xs) (map f ys) \<longleftrightarrow> prefix xs ys"
proof (induction xs arbitrary: ys)
  case (Cons x xs)
  then show ?case by (cases ys) (auto simp: inj_eq)
qed simp

text \<open>
  A clean path is relative, without empty, \<open>.\<close> and \<open>..\<close> parts: the paths a tree or an index
  records.
\<close>

definition clean_seg :: "byte list \<Rightarrow> bool" where
  "clean_seg seg \<longleftrightarrow> seg \<noteq> [] \<and> seg \<noteq> [46] \<and> seg \<noteq> [46, 46]"

definition segments :: "bit_path \<Rightarrow> byte list list" where
  "segments p = split_on b_slash (path_bytes p)"

definition clean_path :: "bit_path \<Rightarrow> bool" where
  "clean_path p \<longleftrightarrow> list_all clean_seg (segments p)"

lemma segments_nonempty [simp]: "segments p \<noteq> []"
  by (simp add: segments_def)

lemma path_of_segments: "path_bytes p = join_on b_slash (segments p)"
  by (simp add: segments_def)

lemma segments_inject: "segments p = segments q \<longleftrightarrow> p = q"
  by (metis path_of_segments bit_path.expand)

lemma clean_path_relative: "clean_path p \<Longrightarrow> is_relative p"
  by (cases "path_bytes p")
     (auto simp: clean_path_def segments_def is_relative_def is_absolute_def clean_seg_def)

lemma map_filter_clean: "list_all clean_seg segs \<Longrightarrow> List.map_filter component_of segs = map Normal segs"
  by (induction segs) (auto simp: component_of_def clean_seg_def List.map_filter_def)

lemma components_clean: "clean_path p \<Longrightarrow> components (path_bytes p) = map Normal (segments p)"
  using clean_path_relative [of p] map_filter_clean [of "segments p"]
  by (cases "segments p")
     (auto simp: components_def clean_path_def segments_def is_relative_def clean_seg_def Let_def)

lemma starts_with_clean:
  "clean_path p \<Longrightarrow> clean_path base \<Longrightarrow> path_starts_with p base \<longleftrightarrow> prefix (segments base) (segments p)"
  by (simp add: path_starts_with_def components_clean prefix_map_inj inj_def)


lemma starts_with_bytes:
  assumes "clean_path p" "clean_path base"
  shows "path_starts_with p base \<longleftrightarrow>
    p = base \<or> (\<exists>r. path_bytes p = path_bytes base @ b_slash # r)"
proof -
  have "prefix (segments base) (segments p) \<longleftrightarrow>
      p = base \<or> (\<exists>r. path_bytes p = path_bytes base @ b_slash # r)"
  proof
    assume "prefix (segments base) (segments p)"
    then obtain zs where zs: "segments p = segments base @ zs" by (auto simp: prefix_def)
    show "p = base \<or> (\<exists>r. path_bytes p = path_bytes base @ b_slash # r)"
    proof (cases "zs = []")
      case True
      then show ?thesis using zs by (simp add: segments_inject)
    next
      case False
      then show ?thesis using zs by (metis join_on_append path_of_segments segments_nonempty)
    qed
  next
    assume "p = base \<or> (\<exists>r. path_bytes p = path_bytes base @ b_slash # r)"
    then show "prefix (segments base) (segments p)"
      by (auto simp: segments_def split_on_append)
  qed
  with assms show ?thesis by (simp add: starts_with_clean)
qed

lemma cumulative_from_no_slash:
  "b_slash \<notin> set rest \<Longrightarrow> cumulative_from pre rest = [BitPath (pre @ rest)]"
proof -
  assume "b_slash \<notin> set rest"
  then have all: "takeWhile (\<lambda>b. b \<noteq> b_slash) rest = rest" by (auto simp: takeWhile_eq_all_conv)
  show ?thesis unfolding cumulative_from.simps [of pre rest] Let_def all by simp
qed

lemma cumulative_from_slash:
  assumes "b_slash \<notin> set seg"
  shows "cumulative_from pre (seg @ b_slash # rest) =
    BitPath (pre @ seg) # cumulative_from (pre @ seg @ [b_slash]) rest"
proof -
  have "takeWhile (\<lambda>b. b \<noteq> b_slash) (seg @ b_slash # rest) = seg"
    using assms by (subst takeWhile_append2) auto
  then show ?thesis by (subst cumulative_from.simps) (simp add: Let_def)
qed

lemma cumulative_from_join:
  assumes "segs \<noteq> []" "\<forall>seg \<in> set segs. b_slash \<notin> set seg"
  shows "cumulative_from pre (join_on b_slash segs) =
    map (\<lambda>n. BitPath (pre @ join_on b_slash (take n segs))) [1..<Suc (length segs)]"
  using assms
proof (induction segs arbitrary: pre)
  case (Cons x xs)
  show ?case
  proof (cases "xs = []")
    case True
    then show ?thesis using Cons.prems by (simp add: cumulative_from_no_slash)
  next
    case False
    let ?pre = "pre @ x @ [b_slash]"
    have IH: "cumulative_from ?pre (join_on b_slash xs) =
        map (\<lambda>n. BitPath (?pre @ join_on b_slash (take n xs))) [1..<Suc (length xs)]"
      using Cons False by (intro Cons.IH) auto
    have "[1..<Suc (length (x # xs))] = 1 # map Suc [1..<Suc (length xs)]"
      by (simp add: map_Suc_upt upt_conv_Cons del: upt_Suc)
    moreover have "BitPath (?pre @ join_on b_slash (take n xs)) =
        BitPath (pre @ join_on b_slash (take (Suc n) (x # xs)))" if "n \<in> set [1..<Suc (length xs)]" for n
      using that False by (auto simp: join_on_Cons)
    ultimately show ?thesis
      using Cons.prems False IH by (simp add: join_on_Cons cumulative_from_slash comp_def del: upt_Suc)
  qed
qed simp

lemma cumulative_components_eq:
  "cumulative_components p =
     map (\<lambda>n. BitPath (join_on b_slash (take n (segments p)))) [1..<Suc (length (segments p))]"
proof -
  have "\<forall>seg \<in> set (segments p). b_slash \<notin> set seg" by (auto simp: segments_def dest: split_on_seg)
  with cumulative_from_join [of "segments p" "[]"] show ?thesis
    by (simp add: cumulative_components_def path_of_segments del: upt_Suc)
qed


text \<open>
  \<open>cumulative_components\<close> yields exactly the leading parts of the path, shortest first: for a
  path with \<open>n\<close> parts, the paths made of the first 1, 2, ..., \<open>n\<close> parts, the last being the path
  itself.
\<close>

theorem cumulative_components_spec:
  "cumulative_components p =
     map (\<lambda>n. BitPath (join_on b_slash (take n (segments p)))) [1..<Suc (length (segments p))]"
  by (rule cumulative_components_eq)

lemma cumulative_segments:
  assumes "c \<in> set (cumulative_components p)"
  obtains n where "0 < n" "n \<le> length (segments p)" "segments c = take n (segments p)"
proof -
  have slash: "\<forall>seg \<in> set (segments p). b_slash \<notin> set seg" by (auto simp: segments_def dest: split_on_seg)
  obtain n where n: "0 < n" "n \<le> length (segments p)" "c = BitPath (join_on b_slash (take n (segments p)))"
    using assms unfolding cumulative_components_eq by (auto simp: less_Suc_eq_le Suc_le_eq simp del: upt_Suc)
  have "split_on b_slash (join_on b_slash (take n (segments p))) = take n (segments p)"
    using n(1) slash by (intro split_join_on) (auto dest: in_set_takeD)
  then have "segments c = take n (segments p)" using n(3) by (simp add: segments_def)
  then show ?thesis using that n(1,2) by blast
qed

lemma cumulative_clean: "clean_path p \<Longrightarrow> c \<in> set (cumulative_components p) \<Longrightarrow> clean_path c"
  by (erule cumulative_segments) (auto simp: clean_path_def list_all_iff dest: in_set_takeD)

lemma cumulative_iff_starts_with:
  assumes "clean_path p" "clean_path q"
  shows "q \<in> set (cumulative_components p) \<longleftrightarrow> path_starts_with p q"
proof -
  have slash: "\<forall>seg \<in> set (segments p). b_slash \<notin> set seg" by (auto simp: segments_def dest: split_on_seg)
  let ?f = "\<lambda>n. BitPath (join_on b_slash (take n (segments p)))"
  have seg: "segments (?f n) = take n (segments p)" if "0 < n" for n
    using that slash by (simp add: segments_def split_join_on) (metis in_set_takeD segments_def split_join_on
        take_eq_Nil split_on_nonempty neq0_conv)
  have "q \<in> set (cumulative_components p) \<longleftrightarrow> (\<exists>n \<in> {1..<Suc (length (segments p))}. segments q = segments (?f n))"
    unfolding cumulative_components_eq by (auto simp: segments_inject simp del: upt_Suc)
  also have "\<dots> \<longleftrightarrow> (\<exists>n. 0 < n \<and> n \<le> length (segments p) \<and> segments q = take n (segments p))"
    using seg by (auto simp: Suc_le_eq less_Suc_eq_le Bex_def)
  also have "\<dots> \<longleftrightarrow> prefix (segments q) (segments p)"
    by (metis append_eq_conv_conj length_greater_0_conv prefix_def prefix_length_le segments_nonempty take_is_prefix)
  finally show ?thesis using assms by (simp add: starts_with_clean)
qed

section \<open>Normalisation is correct\<close>

definition clean_parts :: "byte list list \<Rightarrow> bool" where
  "clean_parts segs \<longleftrightarrow> list_all (\<lambda>seg. clean_seg seg \<and> b_slash \<notin> set seg) segs"

definition norm_form :: "component list \<Rightarrow> bool" where
  "norm_form cs \<longleftrightarrow> (\<exists>segs. clean_parts segs \<and> (cs = map Normal segs \<or> cs = RootDir # map Normal segs))"

lemma push_clean:
  "clean_seg seg \<Longrightarrow> b_slash \<notin> set seg \<Longrightarrow> path_push base seg =
     (if base = [] \<or> last base = b_slash then base @ seg else base @ b_slash # seg)"
  by (cases seg) (auto simp: path_push_def is_absolute_def)

lemma foldl_push:
  "clean_parts segs \<Longrightarrow> base \<noteq> [] \<Longrightarrow> last base \<noteq> b_slash \<Longrightarrow>
     foldl path_push base segs = join_on b_slash (base # segs)"
proof (induction segs arbitrary: base)
  case (Cons x xs)
  then have x: "clean_seg x" "b_slash \<notin> set x" and xs: "clean_parts xs" by (auto simp: clean_parts_def)
  then have "x \<noteq> []" "last x \<noteq> b_slash" using last_in_set by (fastforce simp: clean_seg_def)+
  with Cons x xs show ?case by (cases xs) (simp_all add: push_clean)
qed simp

lemma path_buf_relative: "clean_parts segs \<Longrightarrow> path_buf (map Normal segs) = join_on b_slash segs"
proof (cases segs)
  case (Cons x xs)
  assume "clean_parts segs"
  then have x: "clean_seg x" "b_slash \<notin> set x" and xs: "clean_parts xs" using Cons by (auto simp: clean_parts_def)
  then have "x \<noteq> []" "last x \<noteq> b_slash" using last_in_set by (fastforce simp: clean_seg_def)+
  with Cons x xs show ?thesis by (simp add: path_buf_def push_clean foldl_push comp_def)
qed (simp add: path_buf_def)

lemma path_buf_absolute: "clean_parts segs \<Longrightarrow> path_buf (RootDir # map Normal segs) = b_slash # join_on b_slash segs"
proof (cases segs)
  case (Cons x xs)
  assume "clean_parts segs"
  then have x: "clean_seg x" "b_slash \<notin> set x" and xs: "clean_parts xs" using Cons by (auto simp: clean_parts_def)
  then have "x \<noteq> []" "last x \<noteq> b_slash" using last_in_set by (fastforce simp: clean_seg_def)+
  moreover have "join_on b_slash ((b_slash # x) # xs) = b_slash # join_on b_slash (x # xs)"
    by (cases xs) simp_all
  ultimately show ?thesis using Cons x xs
    by (simp add: path_buf_def push_clean foldl_push comp_def path_push_def [of "[]"] is_absolute_def)
qed (simp add: path_buf_def path_push_def is_absolute_def)

lemma components_join:
  assumes "clean_parts segs"
  shows "components (join_on b_slash segs) = map Normal segs"
    and "components (b_slash # join_on b_slash segs) = RootDir # map Normal segs"
proof -
  have clean: "list_all clean_seg segs" and slash: "\<forall>seg \<in> set segs. b_slash \<notin> set seg"
    using assms by (auto simp: clean_parts_def list_all_iff)
  show "components (join_on b_slash segs) = map Normal segs"
  proof (cases "segs = []")
    case False
    then have "segments (BitPath (join_on b_slash segs)) = segs" using slash by (simp add: segments_def split_join_on)
    then show ?thesis using components_clean [of "BitPath (join_on b_slash segs)"] clean
      by (simp add: clean_path_def)
  qed (simp add: components_def is_absolute_def component_of_def List.map_filter_def)
  show "components (b_slash # join_on b_slash segs) = RootDir # map Normal segs"
  proof (cases "segs = []")
    case False
    then show ?thesis using map_filter_clean [OF clean] slash
      by (simp add: components_def is_absolute_def split_join_on component_of_def List.map_filter_simps)
  qed (simp add: components_def is_absolute_def component_of_def List.map_filter_def)
qed

lemma norm_form_components: "norm_form cs \<Longrightarrow> components (path_buf cs) = cs"
  by (auto simp: norm_form_def path_buf_relative path_buf_absolute components_join)

lemma norm_form_step:
  assumes "norm_form cs" and "\<And>seg. c = Normal seg \<Longrightarrow> clean_seg seg \<and> b_slash \<notin> set seg"
  shows "norm_form (normalize_step cs c)"
proof -
  obtain segs where segs: "clean_parts segs" and cs: "cs = map Normal segs \<or> cs = RootDir # map Normal segs"
    using assms(1) by (auto simp: norm_form_def)
  have nil: "clean_parts []" by (simp add: clean_parts_def)
  have butlast: "clean_parts (butlast segs)"
    using segs by (auto simp: clean_parts_def list_all_iff dest: in_set_butlastD)
  show ?thesis
  proof (cases c)
    case RootDir
    then show ?thesis using nil by (auto simp: norm_form_def)
  next
    case CurDir
    then show ?thesis using assms(1) by simp
  next
    case ParentDir
    have "pop_component cs = map Normal (butlast segs) \<or> pop_component cs = RootDir # map Normal (butlast segs)"
      using cs by (cases segs) (auto simp: map_butlast [symmetric])
    then show ?thesis using ParentDir butlast by (auto simp: norm_form_def)
  next
    case (Normal seg)
    then have "clean_parts (segs @ [seg])" using segs assms(2) by (auto simp: clean_parts_def)
    then show ?thesis using cs Normal unfolding norm_form_def
      by (intro exI [of _ "segs @ [seg]"]) auto
  qed
qed

lemma components_normal: "Normal seg \<in> set (components p) \<Longrightarrow> clean_seg seg \<and> b_slash \<notin> set seg"
  by (auto simp: components_def component_of_def clean_seg_def List.map_filter_def Let_def
      split: if_splits dest: split_on_seg)

lemma norm_form_fold:
  "norm_form cs \<Longrightarrow> (\<And>seg. Normal seg \<in> set ds \<Longrightarrow> clean_seg seg \<and> b_slash \<notin> set seg) \<Longrightarrow>
     norm_form (foldl normalize_step cs ds)"
proof (induction ds arbitrary: cs)
  case (Cons d ds)
  have "norm_form (normalize_step cs d)"
    by (rule norm_form_step [OF Cons.prems(1)]) (simp add: Cons.prems(2))
  then show ?case using Cons.IH Cons.prems(2) by simp
qed simp

lemma normalize_fold_fixed: "norm_form cs \<Longrightarrow> foldl normalize_step [] cs = cs"
proof -
  have "foldl normalize_step acc (map Normal segs) = acc @ map Normal segs" for acc segs
    by (induction segs arbitrary: acc) auto
  then show "norm_form cs \<Longrightarrow> foldl normalize_step [] cs = cs" by (auto simp: norm_form_def)
qed

text \<open>
  \<open>normalize\<close> removes every \<open>.\<close>, \<open>..\<close> and empty part: what is left is an optional root followed
  by ordinary names only, the text of the result denotes exactly those components, and normalising
  again changes nothing.
\<close>

theorem normalize_normal:
  "norm_form (components (normalize p)) \<and> normalize (normalize p) = normalize p"
proof -
  let ?cs = "foldl normalize_step [] (components p)"
  have "norm_form []" by (auto simp: norm_form_def clean_parts_def)
  then have nf: "norm_form ?cs" by (rule norm_form_fold) (rule components_normal)
  then show ?thesis by (simp add: normalize_def norm_form_components normalize_fold_fixed)
qed

end
