(* ===== verification/Bit_Obj.thy ===== *)
theory Bit_Obj
  imports Bit_Hash Bit_Path
begin

text \<open>
  Object kinds and file modes, \<^verbatim>\<open>libbit/src/obj.rs\<close>: the mode enumeration with its numeric and
  octal forms, the object types, the header every loose object starts with and the hash of an
  object.
\<close>

section \<open>Model: file modes\<close>

datatype file_mode = REG | EXEC | LINK | TREE | GITLINK

text \<open>The discriminants, octal in the source: 0o100644, 0o100755, 0o120000, 0o40000, 0o160000.\<close>

fun as_u32 :: "file_mode \<Rightarrow> u32" where
  "as_u32 REG = 33188"
| "as_u32 EXEC = 33261"
| "as_u32 LINK = 40960"
| "as_u32 TREE = 16384"
| "as_u32 GITLINK = 57344"

definition file_mode_new :: "u32 \<Rightarrow> file_mode bit_result" where
  "file_mode_new u =
     (if u = 33188 then Inr REG else if u = 33261 then Inr EXEC else if u = 40960 then Inr LINK
      else if u = 16384 then Inr TREE else if u = 57344 then Inr GITLINK else Inl Panic)"

fun is_link :: "file_mode \<Rightarrow> bool" where
  "is_link LINK = True" | "is_link _ = False"

fun is_gitlink :: "file_mode \<Rightarrow> bool" where
  "is_gitlink GITLINK = True" | "is_gitlink _ = False"

fun is_file :: "file_mode \<Rightarrow> bool" where
  "is_file EXEC = True" | "is_file REG = True" | "is_file _ = False"

fun is_blob :: "file_mode \<Rightarrow> bool" where
  "is_blob EXEC = True" | "is_blob REG = True" | "is_blob LINK = True" | "is_blob _ = False"

fun is_tree :: "file_mode \<Rightarrow> bool" where
  "is_tree TREE = True" | "is_tree _ = False"

text \<open>What \<open>from_metadata\<close> reads of a file's metadata.\<close>

record metadata =
  md_is_symlink :: bool
  md_is_dir :: bool
  md_mode :: u32

definition file_mode_from_metadata :: "metadata \<Rightarrow> file_mode" where
  "file_mode_from_metadata md =
     (if md_is_symlink md then LINK
      else if md_is_dir md then TREE
      else if md_mode md AND 73 \<noteq> 0 then EXEC else REG)"

text \<open>
  The order derived for the enumeration is that of the discriminants.
\<close>

instantiation file_mode :: linorder
begin

definition less_eq_file_mode :: "file_mode \<Rightarrow> file_mode \<Rightarrow> bool" where
  "less_eq_file_mode a b \<longleftrightarrow> as_u32 a \<le> as_u32 b"

definition less_file_mode :: "file_mode \<Rightarrow> file_mode \<Rightarrow> bool" where
  "less_file_mode a b \<longleftrightarrow> as_u32 a < as_u32 b"

instance
proof
  fix x y z :: file_mode
  show "(x < y) = (x \<le> y \<and> \<not> y \<le> x)" by (auto simp: less_file_mode_def less_eq_file_mode_def)
  show "x \<le> x" by (simp add: less_eq_file_mode_def)
  show "x \<le> y \<Longrightarrow> y \<le> z \<Longrightarrow> x \<le> z" by (simp add: less_eq_file_mode_def)
  show "x \<le> y \<or> y \<le> x" by (auto simp: less_eq_file_mode_def)
  show "x \<le> y \<Longrightarrow> y \<le> x \<Longrightarrow> x = y" by (cases x; cases y) (simp_all add: less_eq_file_mode_def)
qed

end

text \<open>The octal text: \<open>{:06o}\<close> pads to six digits, \<open>{:#}\<close> is this type's unpadded form.\<close>

definition pad_left :: "nat \<Rightarrow> byte \<Rightarrow> byte list \<Rightarrow> byte list" where
  "pad_left n c s = replicate (n - length s) c @ s"

definition file_mode_display :: "bool \<Rightarrow> file_mode \<Rightarrow> byte list" where
  "file_mode_display alternate m =
     (let digits = nat_digits 8 (unat (as_u32 m)) in if alternate then digits else pad_left 6 48 digits)"

text \<open>\<open>u32::from_str_radix(s, 8)\<close>: an optional plus, digits, no overflow.\<close>

definition parse_u32_radix :: "nat \<Rightarrow> byte list \<Rightarrow> u32 option" where
  "parse_u32_radix radix s =
     (let digits = (case s of c # cs \<Rightarrow> if c = 43 then cs else s | [] \<Rightarrow> s) in
      case parse_nat_radix radix digits of
        None \<Rightarrow> None
      | Some n \<Rightarrow> if n < 2 ^ 32 then Some (of_nat n) else None)"

definition file_mode_from_str :: "byte list \<Rightarrow> file_mode bit_result" where
  "file_mode_from_str s =
     (case parse_u32_radix 8 s of
        None \<Rightarrow> Inl (Bail ''invalid digit'')
      | Some u \<Rightarrow> file_mode_new u)"

section \<open>Model: object types and headers\<close>

datatype bit_obj_type = Commit | Tree | Blob | Tag

fun obj_type_display :: "bit_obj_type \<Rightarrow> byte list" where
  "obj_type_display Commit = bytes_of ''commit''"
| "obj_type_display Tree = bytes_of ''tree''"
| "obj_type_display Tag = bytes_of ''tag''"
| "obj_type_display Blob = bytes_of ''blob''"

definition obj_type_from_str :: "byte list \<Rightarrow> bit_obj_type bit_result" where
  "obj_type_from_str s =
     (if s = bytes_of ''commit'' then Inr Commit
      else if s = bytes_of ''tree'' then Inr Tree
      else if s = bytes_of ''tag'' then Inr Tag
      else if s = bytes_of ''blob'' then Inr Blob
      else Inl (Bail ''unknown bit object type''))"

definition infer_obj_type :: "file_mode \<Rightarrow> bit_obj_type bit_result" where
  "infer_obj_type m = (case m of TREE \<Rightarrow> Inr Tree | GITLINK \<Rightarrow> Inl Panic | _ \<Rightarrow> Inr Blob)"

record bit_obj_header =
  hdr_obj_type :: bit_obj_type
  hdr_size :: u64

definition from_utf8_unwrap :: "byte list \<Rightarrow> byte list bit_result" where
  "from_utf8_unwrap s = (if utf8_valid s then Inr s else Inl Panic)"

definition read_ascii_str :: "(byte list \<Rightarrow> 'a bit_result) \<Rightarrow> byte \<Rightarrow> 'a reader" where
  "read_ascii_str from_str sep =
     rd_bind (read_delim sep) (\<lambda>s. rd_lift (and_then (from_utf8_unwrap s) from_str))"

definition read_obj_header :: "bit_obj_header reader" where
  "read_obj_header =
     rd_bind (read_ascii_str obj_type_from_str 0x20) (\<lambda>ty.
     rd_bind (read_ascii_num 0x00) (\<lambda>n.
       rd_return \<lparr>hdr_obj_type = ty, hdr_size = of_int n\<rparr>))"

text \<open>\<open>WritableObject\<close>: the header \<open><type> <size>\0\<close> in front of the content, and its hash.\<close>

definition serialize_with_headers :: "bit_obj_type \<Rightarrow> byte list \<Rightarrow> byte list" where
  "serialize_with_headers ty content =
     obj_type_display ty @ [b_space] @ int_to_string (int (length content)) @ [b_nul] @ content"

definition hash_and_serialize ::
  "(byte list \<Rightarrow> oid) \<Rightarrow> bit_obj_type \<Rightarrow> byte list \<Rightarrow> oid \<times> byte list" where
  "hash_and_serialize sha1 ty content =
     (let bs = serialize_with_headers ty content in (sha1 bs, bs))"

record bit_pack_obj_raw =
  raw_obj_type :: bit_obj_type
  raw_bytes :: "byte list"

text \<open>\<open>BitPackObjRaw::oid\<close> feeds the header and the bytes to the hasher one after the other.\<close>

definition pack_obj_oid :: "(byte list \<Rightarrow> oid) \<Rightarrow> bit_pack_obj_raw \<Rightarrow> oid" where
  "pack_obj_oid sha1 raw =
     sha1 ((obj_type_display (raw_obj_type raw) @ [b_space]
       @ int_to_string (int (length (raw_bytes raw))) @ [b_nul]) @ raw_bytes raw)"

section \<open>Lemmas\<close>

lemma file_mode_new_as_u32 [simp]: "file_mode_new (as_u32 m) = Inr m"
  by (cases m) (simp_all add: file_mode_new_def)

lemma file_mode_new_eq: "file_mode_new u = Inr m \<longleftrightarrow> u = as_u32 m"
  by (cases m) (auto simp: file_mode_new_def)

lemma octal_display:
  "file_mode_display True REG = bytes_of ''100644''"
  "file_mode_display True EXEC = bytes_of ''100755''"
  "file_mode_display True LINK = bytes_of ''120000''"
  "file_mode_display True TREE = bytes_of ''40000''"
  "file_mode_display True GITLINK = bytes_of ''160000''"
  by (simp_all add: file_mode_display_def nat_digits.simps)

lemma file_mode_display_ascii: "b \<in> set (file_mode_display True m) \<Longrightarrow> 48 \<le> b \<and> b \<le> 57"
  using nat_digits_range [of 8] by (simp add: file_mode_display_def)

lemma parse_u32_radix_digits:
  assumes "2 \<le> radix" "radix \<le> 10" "n < 2 ^ 32"
  shows "parse_u32_radix radix (nat_digits radix n) = Some (of_nat n)"
proof -
  obtain c cs where c: "nat_digits radix n = c # cs" by (cases "nat_digits radix n") auto
  then have "48 \<le> c" using nat_digits_range [OF assms(1,2), of n] by auto
  then have "c \<noteq> 43" by auto
  with c show ?thesis using assms parse_nat_radix_nat_digits [of radix n]
    by (simp add: parse_u32_radix_def)
qed

lemma unat_u32_less: "unat (w::u32) < 2 ^ 32"
  using unsigned_less [of w] by simp

lemma file_mode_parse_display: "parse_u32_radix 8 (file_mode_display True m) = Some (as_u32 m)"
  using parse_u32_radix_digits [of 8 "unat (as_u32 m)"] unat_u32_less [of "as_u32 m"]
  by (simp add: file_mode_display_def)

lemma parse_digits_zeros: "parse_digits 8 0 (replicate k 48 @ s) = parse_digits 8 0 s"
  by (induction k) (simp_all add: digit_val_def)

text \<open>
  A file mode survives its text: both the padded and the unpadded octal form of every mode are
  read back as that mode, and the numeric form is accepted exactly for the five modes.
\<close>

theorem file_mode_roundtrip:
  "file_mode_from_str (file_mode_display alternate m) = Inr m
   \<and> (file_mode_new u = Inr m \<longleftrightarrow> u = as_u32 m)"
proof -
  have "file_mode_from_str (file_mode_display False m) = Inr m"
    by (cases m)
      (simp_all add: file_mode_from_str_def file_mode_display_def pad_left_def nat_digits.simps
        parse_u32_radix_def parse_nat_radix_def digit_val_def file_mode_new_def)
  moreover have "file_mode_from_str (file_mode_display True m) = Inr m"
    by (simp add: file_mode_from_str_def file_mode_parse_display)
  ultimately show ?thesis by (cases alternate) (simp_all add: file_mode_new_eq)
qed

lemma obj_type_roundtrip: "obj_type_from_str (obj_type_display ty) = Inr ty"
  by (cases ty) (simp_all add: obj_type_from_str_def)

lemma obj_type_display_props:
  "b_space \<notin> set (obj_type_display ty)" "utf8_valid (obj_type_display ty)"
  by (cases ty; simp add: ascii_def utf8_valid_ascii)+

lemma read_obj_header_serialize:
  assumes "length content < 2 ^ 63"
  shows "read_obj_header (serialize_with_headers ty content @ rest) =
    Inr (\<lparr>hdr_obj_type = ty, hdr_size = of_nat (length content)\<rparr>, content @ rest)"
proof -
  have ty: "read_ascii_str obj_type_from_str 0x20 (obj_type_display ty @ b_space # r) = Inr (ty, r)" for r
    by (simp add: read_ascii_str_def rd_bind_apply read_delim_hit obj_type_display_props from_utf8_unwrap_def
        obj_type_roundtrip)
  have "read_ascii_num 0 (write_ascii_num (int (length content)) 0 @ r) = Inr (int (length content), r)" for r
    using assms by (intro read_ascii_num_write) simp_all
  then have num: "read_ascii_num 0 (int_to_string (int (length content)) @ b_nul # r) = Inr (int (length content), r)" for r
    by (simp add: write_ascii_num_def)
  show ?thesis by (simp add: read_obj_header_def serialize_with_headers_def rd_bind_apply ty num)
qed

text \<open>
  The header written in front of an object is read back exactly: its type, its size, and the
  reader is left at the first byte of the content.
\<close>

theorem obj_header_roundtrip:
  assumes "length content < 2 ^ 63"
  shows "read_obj_header (serialize_with_headers ty content) =
    Inr (\<lparr>hdr_obj_type = ty, hdr_size = of_nat (length content)\<rparr>, content)"
  using read_obj_header_serialize [OF assms, of ty "[]"] by simp

theorem obj_header_roundtrip_witness:
  "read_obj_header (serialize_with_headers Blob [1, 2, 3]) = Inr (\<lparr>hdr_obj_type = Blob, hdr_size = 3\<rparr>, [1, 2, 3])
   \<and> serialize_with_headers Blob [1, 2, 3] = bytes_of ''blob 3'' @ [0, 1, 2, 3]"
  using obj_header_roundtrip [of "[1, 2, 3]" Blob]
  by (simp add: serialize_with_headers_def int_to_string_def nat_digits.simps)

lemma serialize_with_headers_inject:
  assumes "length c < 2 ^ 63" "length d < 2 ^ 63" "serialize_with_headers ty c = serialize_with_headers ty' d"
  shows "ty = ty' \<and> c = d"
proof -
  note c = read_obj_header_serialize [OF assms(1), of ty "[]"]
  note d = read_obj_header_serialize [OF assms(2), of ty' "[]"]
  show ?thesis using c d assms(3) by simp
qed

end
