(* ===== verification/Bit_Signature.thy ===== *)
theory Bit_Signature
  imports Bit_Obj
begin

text \<open>
  Signatures and times, \<^verbatim>\<open>libbit/src/signature.rs\<close> and \<^verbatim>\<open>libbit/src/time.rs\<close>: the text form
  \<open>name <email> seconds offset\<close> of a signature, read and written, the order of commit times and of
  the file times the index keeps.
\<close>

section \<open>Model: file times\<close>

record timespec =
  sec :: u32
  nano :: u32

definition timespec_zero :: timespec where
  "timespec_zero = \<lparr>sec = 0, nano = 0\<rparr>"

text \<open>\<open>new_i64\<close> casts both fields to 32 bits.\<close>

definition timespec_new_i64 :: "int \<Rightarrow> int \<Rightarrow> timespec" where
  "timespec_new_i64 s n = \<lparr>sec = of_int s, nano = of_int n\<rparr>"

definition timespec_cmp :: "timespec \<Rightarrow> timespec \<Rightarrow> ordering" where
  "timespec_cmp a b = then_with (ord_cmp (sec a) (sec b)) (ord_cmp (nano a) (nano b))"

definition read_timespec :: "timespec reader" where
  "read_timespec = rd_bind read_u32 (\<lambda>s. rd_bind read_u32 (\<lambda>n. rd_return \<lparr>sec = s, nano = n\<rparr>))"

definition write_timespec :: "timespec \<Rightarrow> byte list" where
  "write_timespec t = write_u32 (sec t) @ write_u32 (nano t)"

section \<open>Model: signatures\<close>

text \<open>The epoch time is an \<open>i64\<close>, the offset from UTC in minutes an \<open>i32\<close>.\<close>

record bit_time =
  time :: int
  offset :: int

record bit_signature =
  sig_name :: "byte list"
  sig_email :: "byte list"
  sig_time :: bit_time

text \<open>The derived order of \<open>BitTime\<close> compares the time, then the offset.\<close>

definition bit_time_le :: "bit_time \<Rightarrow> bit_time \<Rightarrow> bool" where
  "bit_time_le a b \<longleftrightarrow> time a < time b \<or> (time a = time b \<and> offset a \<le> offset b)"

definition str_slice :: "byte list \<Rightarrow> nat \<Rightarrow> nat \<Rightarrow> byte list bit_result" where
  "str_slice s i j = (if i \<le> j \<and> j \<le> length s then Inr (take (j - i) (drop i s)) else Inl Panic)"

definition parse_i32 :: "byte list \<Rightarrow> int option" where
  "parse_i32 bs =
     (case parse_int bs of
        None \<Rightarrow> None
      | Some i \<Rightarrow> if - (2 ^ 31) \<le> i \<and> i < 2 ^ 31 then Some i else None)"

definition tz_from_str :: "byte list \<Rightarrow> int bit_result" where
  "tz_from_str s =
     and_then (str_slice s 0 1) (\<lambda>c.
     and_then (if c = [43] then Inr 1 else if c = [45] then Inr (- 1) else Inl Panic) (\<lambda>sign.
     and_then (and_then (str_slice s 1 3) (\<lambda>h. unwrap (parse_i32 h))) (\<lambda>hours.
     and_then (and_then (str_slice s 3 5) (\<lambda>m. unwrap (parse_i32 m))) (\<lambda>minutes.
       Inr (sign * (minutes + hours * 60))))))"

definition epoch_from_str :: "byte list \<Rightarrow> int bit_result" where
  "epoch_from_str s = unwrap (parse_i64 s)"

text \<open>\<open>split_ascii_whitespace\<close>: the non-empty pieces between white space.\<close>

definition split_space :: "byte \<Rightarrow> bool" where
  "split_space b \<longleftrightarrow> b = 32 \<or> b = 9 \<or> b = 10 \<or> b = 12 \<or> b = 13"

fun split_ascii_whitespace :: "byte list \<Rightarrow> byte list list" where
  "split_ascii_whitespace [] = []"
| "split_ascii_whitespace (b # bs) =
     (if split_space b then split_ascii_whitespace bs
      else (case bs of
              [] \<Rightarrow> [[b]]
            | c # _ \<Rightarrow>
                if split_space c then [b] # split_ascii_whitespace bs
                else (case split_ascii_whitespace bs of
                        [] \<Rightarrow> [[b]] | w # ws \<Rightarrow> (b # w) # ws)))"

definition bit_time_from_str :: "byte list \<Rightarrow> bit_time bit_result" where
  "bit_time_from_str s =
     (case split_ascii_whitespace s of
        [] \<Rightarrow> Inl Panic
      | t # rest \<Rightarrow>
          and_then (epoch_from_str t) (\<lambda>t.
            case rest of
              [] \<Rightarrow> Inl Panic
            | z # _ \<Rightarrow> and_then (tz_from_str z) (\<lambda>z. Inr \<lparr>time = t, offset = z\<rparr>)))"

definition find_byte :: "byte \<Rightarrow> byte list \<Rightarrow> nat option" where
  "find_byte c s = (if c \<in> set s then Some (length (takeWhile (\<lambda>b. b \<noteq> c) s)) else None)"

definition char_boundary :: "byte list \<Rightarrow> nat \<Rightarrow> bool" where
  "char_boundary s i \<longleftrightarrow> i = 0 \<or> i = length s \<or> (i < length s \<and> \<not> utf8_cont (s ! i))"

text \<open>
  \<open>s[..email_start_idx - 1]\<close> panics when the text starts with \<open><\<close> (the index wraps) and when the
  byte before \<open><\<close> is inside a character.
\<close>

definition signature_from_str :: "byte list \<Rightarrow> bit_signature bit_result" where
  "signature_from_str s =
     and_then (unwrap (find_byte 60 s)) (\<lambda>email_start.
     and_then (unwrap (find_byte 62 s)) (\<lambda>email_end.
     and_then (if email_start = 0 \<or> \<not> char_boundary s (email_start - 1) then Inl Panic
               else str_slice s 0 (email_start - 1)) (\<lambda>name.
     and_then (str_slice s (email_start + 1) email_end) (\<lambda>email.
     and_then (and_then (str_slice s (email_end + 1) (length s)) bit_time_from_str) (\<lambda>t.
       Inr \<lparr>sig_name = name, sig_email = email, sig_time = t\<rparr>)))))"

text \<open>\<open>abs\<close> wraps at the least \<open>i32\<close>; \<open>/\<close> and \<open>%\<close> truncate.\<close>

definition abs_i32 :: "int \<Rightarrow> int" where
  "abs_i32 i = (if i = - (2 ^ 31) then i else \<bar>i\<bar>)"

definition quot_int :: "int \<Rightarrow> int \<Rightarrow> int" where
  "quot_int a b = sgn a * sgn b * (\<bar>a\<bar> div \<bar>b\<bar>)"

definition rem_int :: "int \<Rightarrow> int \<Rightarrow> int" where
  "rem_int a b = a - quot_int a b * b"

definition tz_display :: "int \<Rightarrow> byte list" where
  "tz_display z =
     (let sign = (if z \<ge> 0 then 43 else 45); off = abs_i32 z;
          hours = quot_int off 60; minutes = rem_int off 60
      in sign # pad_left 2 48 (int_to_string hours) @ pad_left 2 48 (int_to_string minutes))"

definition bit_time_display :: "bit_time \<Rightarrow> byte list" where
  "bit_time_display t = int_to_string (time t) @ [b_space] @ tz_display (offset t)"

definition signature_display :: "bit_signature \<Rightarrow> byte list" where
  "signature_display sig =
     sig_name sig @ [b_space, 60] @ sig_email sig @ [62, b_space] @ bit_time_display (sig_time sig)"

text \<open>\<open>user_signature\<close>: both configuration values are needed.\<close>

definition user_signature ::
  "byte list option \<Rightarrow> byte list option \<Rightarrow> bit_time \<Rightarrow> bit_signature bit_result" where
  "user_signature name email now =
     (case (name, email) of
        (Some n, Some e) \<Rightarrow> Inr \<lparr>sig_name = n, sig_email = e, sig_time = now\<rparr>
      | _ \<Rightarrow> Inl (Bail ''author identity unknown''))"

section \<open>Times\<close>

interpretation timespec_codec: codec write_timespec read_timespec "\<lambda>_. True"
  by unfold_locales (simp add: write_timespec_def read_timespec_def rd_bind_apply)

lemma consumes_read_timespec [consumes_intro]: "consumes 0 read_timespec"
  unfolding read_timespec_def
  by (intro consumes_bind_left consumes_weaken [OF consumes_read_ints(2)] consumes_return) simp_all

lemma length_write_timespec [simp]: "length (write_timespec t) = 8"
  by (simp add: write_timespec_def)

lemma two_digits:
  assumes "n < 100"
  shows "pad_left 2 48 (int_to_string (int n)) = [48 + of_nat (n div 10), 48 + of_nat (n mod 10)]"
proof (cases "n < 10")
  case True
  then have "nat_digits 10 n = [48 + of_nat n]" by (subst nat_digits.simps) auto
  then show ?thesis using True by (simp add: int_to_string_def pad_left_def)
next
  case False
  have "n div 10 < 10" using assms by linarith
  then have "nat_digits 10 (n div 10) = [48 + of_nat (n div 10)]" by (subst nat_digits.simps) auto
  then have "nat_digits 10 n = [48 + of_nat (n div 10), 48 + of_nat (n mod 10)]"
    using False by (subst nat_digits.simps) auto
  then show ?thesis by (simp add: int_to_string_def pad_left_def)
qed

lemma parse_two_digits:
  assumes "n < 100"
  shows "parse_i32 [48 + of_nat (n div 10), 48 + of_nat (n mod 10)] = Some (int n)"
proof -
  let ?a = "48 + of_nat (n div 10) :: byte" and ?b = "48 + of_nat (n mod 10) :: byte"
  have a: "n div 10 < 10" using assms by linarith
  have "unat ?a = 48 + n div 10" using a by (rule unat_digit)
  then have "unat ?a \<noteq> unat (45 :: byte)" "unat ?a \<noteq> unat (43 :: byte)" by simp_all
  then have "?a \<noteq> 45" "?a \<noteq> 43" by metis+
  moreover have "digit_val ?a = Some (n div 10)" "digit_val ?b = Some (n mod 10)"
    using a by (simp_all add: digit_val_of_nat)
  ultimately have "parse_int [?a, ?b] = Some (int n)"
    using a by (simp add: parse_int_def parse_nat_radix_def)
  then show ?thesis using assms by (simp add: parse_i32_def)
qed

lemma tz_digits:
  assumes "\<bar>z\<bar> < 6000"
  obtains h m where "h < 100" "m < 60" "\<bar>z\<bar> = int (h * 60 + m)"
    "tz_display z = (if z \<ge> 0 then 43 else 45) # pad_left 2 48 (int_to_string (int h)) @ pad_left 2 48 (int_to_string (int m))"
proof -
  let ?n = "nat \<bar>z\<bar>"
  have off: "abs_i32 z = int ?n" using assms by (simp add: abs_i32_def)
  have q: "quot_int (int ?n) 60 = int (?n div 60)"
    by (cases "?n = 0") (simp_all add: quot_int_def zdiv_int)
  have r: "rem_int (int ?n) 60 = int (?n mod 60)"
  proof -
    have "int ?n = int (?n div 60) * 60 + int (?n mod 60)"
      using arg_cong [OF div_mult_mod_eq [of ?n 60], of int] by (simp only: of_nat_add of_nat_mult of_nat_numeral)
    then show ?thesis unfolding rem_int_def q by linarith
  qed
  have "?n div 60 < 100" using assms by linarith
  moreover have "?n mod 60 < 60" by simp
  moreover have "\<bar>z\<bar> = int (?n div 60 * 60 + ?n mod 60)" by simp
  moreover have "tz_display z = (if z \<ge> 0 then 43 else 45)
      # pad_left 2 48 (int_to_string (int (?n div 60))) @ pad_left 2 48 (int_to_string (int (?n mod 60)))"
    unfolding tz_display_def Let_def off q r by simp
  ultimately show ?thesis using that by blast
qed

lemma tz_roundtrip:
  assumes "\<bar>z\<bar> < 6000"
  shows "tz_from_str (tz_display z) = Inr z"
proof -
  obtain h m where hm: "h < 100" "m < 60" "\<bar>z\<bar> = int (h * 60 + m)"
    and d: "tz_display z = (if z \<ge> 0 then 43 else 45) # pad_left 2 48 (int_to_string (int h)) @ pad_left 2 48 (int_to_string (int m))"
    using tz_digits [OF assms] by blast
  have "m < 100" using hm by simp
  note digits = two_digits [OF hm(1)] two_digits [OF \<open>m < 100\<close>]
  have "tz_from_str (tz_display z) = Inr ((if z \<ge> 0 then 1 else - 1) * (int m + int h * 60))"
    unfolding d digits
    using parse_two_digits [OF hm(1)] parse_two_digits [OF \<open>m < 100\<close>]
    by (simp add: tz_from_str_def str_slice_def)
  also have "(if z \<ge> 0 then 1 else - 1) * (int m + int h * 60) = z" using hm(3) by auto
  finally show ?thesis .
qed

lemma tz_display_no_space:
  assumes "\<bar>z\<bar> < 6000" "b \<in> set (tz_display z)"
  shows "b = 43 \<or> b = 45 \<or> (48 \<le> b \<and> b \<le> 57)"
proof -
  obtain h m where "tz_display z = (if z \<ge> 0 then 43 else 45) # pad_left 2 48 (int_to_string (int h)) @ pad_left 2 48 (int_to_string (int m))"
    using tz_digits [OF assms(1)] by blast
  then show ?thesis using assms(2) int_to_string_range by (auto simp: pad_left_def split: if_splits)
qed

lemma split_ascii_word:
  assumes "w \<noteq> []" "\<forall>b \<in> set w. \<not> split_space b"
  shows "split_ascii_whitespace (w @ 32 # r) = w # split_ascii_whitespace r"
    and "split_ascii_whitespace w = [w]"
proof -
  show "split_ascii_whitespace (w @ 32 # r) = w # split_ascii_whitespace r"
    using assms
  proof (induction w)
    case (Cons b w)
    then show ?case by (cases w) (auto simp: split_space_def)
  qed simp
  show "split_ascii_whitespace w = [w]"
    using assms
  proof (induction w)
    case (Cons b w)
    then show ?case by (cases w) (auto simp: split_space_def)
  qed simp
qed

definition time_valid :: "bit_time \<Rightarrow> bool" where
  "time_valid t \<longleftrightarrow> - (2 ^ 63) \<le> time t \<and> time t < 2 ^ 63 \<and> \<bar>offset t\<bar> < 6000"

lemma int_to_string_nonempty [simp]: "int_to_string i \<noteq> []"
  by (simp add: int_to_string_def)

lemma bit_time_roundtrip:
  assumes "time_valid t"
  shows "bit_time_from_str (b_space # bit_time_display t) = Inr t"
proof -
  have num: "\<forall>b \<in> set (int_to_string (time t)). \<not> split_space b"
    using int_to_string_range [of "time t"] by (fastforce simp: split_space_def)
  have "\<forall>b \<in> set (tz_display (offset t)). \<not> split_space b"
    using assms tz_display_no_space [of "offset t"] by (fastforce simp: split_space_def time_valid_def)
  moreover have "tz_display (offset t) \<noteq> []" by (simp add: tz_display_def Let_def)
  ultimately have "split_ascii_whitespace (b_space # bit_time_display t) =
      [int_to_string (time t), tz_display (offset t)]"
    using num by (simp add: bit_time_display_def split_ascii_word split_space_def)
  then show ?thesis
    using assms by (simp add: bit_time_from_str_def epoch_from_str_def time_valid_def parse_i64_to_string tz_roundtrip)
qed

section \<open>Signatures\<close>

definition signature_valid :: "bit_signature \<Rightarrow> bool" where
  "signature_valid sig \<longleftrightarrow>
     60 \<notin> set (sig_name sig) \<and> 62 \<notin> set (sig_name sig) \<and> 62 \<notin> set (sig_email sig)
     \<and> time_valid (sig_time sig)"

lemma find_byte_append: "c \<notin> set xs \<Longrightarrow> find_byte c (xs @ c # ys) = Some (length xs)"
  by (induction xs) (auto simp: find_byte_def)

lemma signature_roundtrip_aux:
  assumes "signature_valid sig"
  shows "signature_from_str (signature_display sig) = Inr sig"
proof -
  let ?n = "sig_name sig" and ?e = "sig_email sig" and ?t = "bit_time_display (sig_time sig)"
  have n: "60 \<notin> set ?n" "62 \<notin> set ?n" and e: "62 \<notin> set ?e" and t: "time_valid (sig_time sig)"
    using assms by (simp_all add: signature_valid_def)
  have s: "signature_display sig = ?n @ b_space # 60 # ?e @ 62 # b_space # ?t"
    by (simp add: signature_display_def)
  have start: "find_byte 60 (signature_display sig) = Some (Suc (length ?n))"
    using find_byte_append [of 60 "?n @ [b_space]" "?e @ 62 # b_space # ?t"] n by (simp add: s)
  have stop: "find_byte 62 (signature_display sig) = Some (length ?n + length ?e + 2)"
    using find_byte_append [of 62 "?n @ b_space # 60 # ?e" "b_space # ?t"] n e by (simp add: s)
  have bound: "char_boundary (signature_display sig) (length ?n)"
    by (simp add: char_boundary_def s nth_append utf8_cont_def)
  show ?thesis
    using start stop bound bit_time_roundtrip [OF t]
    by (simp add: signature_from_str_def str_slice_def s numeral_3_eq_3)
qed

text \<open>
  A signature survives its text form: reading what \<open>Display\<close> writes gives back the same name,
  email, time and time zone, provided the name has no angle bracket, the email no \<open>>\<close>, the time is
  an \<open>i64\<close> and the offset is less than a hundred hours.
\<close>

theorem signature_roundtrip:
  "signature_valid sig \<Longrightarrow> signature_from_str (signature_display sig) = Inr sig"
  by (rule signature_roundtrip_aux)

theorem signature_roundtrip_witness:
  "signature_from_str (signature_display
     \<lparr>sig_name = bytes_of ''Andy Yu'', sig_email = bytes_of ''a@b.c'', sig_time = \<lparr>time = 1616061862, offset = - 570\<rparr>\<rparr>)
   = Inr \<lparr>sig_name = bytes_of ''Andy Yu'', sig_email = bytes_of ''a@b.c'', sig_time = \<lparr>time = 1616061862, offset = - 570\<rparr>\<rparr>"
  by (rule signature_roundtrip) (simp add: signature_valid_def time_valid_def)

end
