(* ===== verification/Bit_Commit.thy ===== *)
theory Bit_Commit
  imports Bit_Signature
begin

text \<open>
  Commit objects, \<^verbatim>\<open>libbit/src/obj/commit.rs\<close>: the commit record, its message, its text form with
  continuation lines, and the parser over lines with its builder. Strings are UTF-8 byte sequences;
  the hexadecimal codec is a parameter.
\<close>

section \<open>Model\<close>

record commit_message =
  subject :: "byte list"
  message :: "byte list"

record mutable_commit =
  tree :: oid
  author :: bit_signature
  committer :: bit_signature
  commit_msg :: commit_message
  parents :: "oid list"
  gpgsig :: "byte list option"
  mergetag :: "byte list option"

text \<open>\<open>s.split_once("\n\n")\<close>.\<close>

fun split_blank_line :: "byte list \<Rightarrow> (byte list \<times> byte list) option" where
  "split_blank_line (a # b # r) =
     (if a = b_newline \<and> b = b_newline then Some ([], r)
      else map_option (\<lambda>(x, y). (a # x, y)) (split_blank_line (b # r)))"
| "split_blank_line _ = None"

definition commit_message_from_str :: "byte list \<Rightarrow> commit_message" where
  "commit_message_from_str s =
     (case split_blank_line s of
        Some (subj, msg) \<Rightarrow> \<lparr>subject = subj, message = msg\<rparr>
      | None \<Rightarrow> \<lparr>subject = s, message = []\<rparr>)"

definition commit_message_display :: "commit_message \<Rightarrow> byte list" where
  "commit_message_display m =
     subject m @ (if message m \<noteq> [] then [b_newline, b_newline] @ message m else [])"

definition new_commit ::
  "oid \<Rightarrow> oid list \<Rightarrow> commit_message \<Rightarrow> bit_signature \<Rightarrow> bit_signature \<Rightarrow> mutable_commit" where
  "new_commit t ps m a c =
     \<lparr>tree = t, author = a, committer = c, commit_msg = m, parents = ps, gpgsig = None, mergetag = None\<rparr>"

definition sole_parent :: "mutable_commit \<Rightarrow> oid bit_result" where
  "sole_parent c = (if length (parents c) = 1 then Inr (hd (parents c)) else Inl Panic)"

text \<open>
  \<open>mk_commit\<close>: the tree must be a tree and every parent a commit that is not younger than the
  committer. \<open>obj_type\<close> and \<open>commit_of\<close> are the object database's answers for an identifier,
  \<open>sig\<close> the user's signature.
\<close>

definition check_parent :: "(oid \<Rightarrow> bit_obj_type bit_result) \<Rightarrow> (oid \<Rightarrow> mutable_commit) \<Rightarrow> bit_time \<Rightarrow> oid \<Rightarrow> unit bit_result" where
  "check_parent obj_type commit_of now p =
     and_then (obj_type p) (\<lambda>ty.
     and_then (ensure (ty = Commit) (Bail ''not a commit'')) (\<lambda>_.
       ensure (bit_time_le (sig_time (committer (commit_of p))) now) (Bail ''older than parent'')))"

definition mk_commit ::
  "(oid \<Rightarrow> bit_obj_type bit_result) \<Rightarrow> (oid \<Rightarrow> mutable_commit) \<Rightarrow> bit_signature bit_result
   \<Rightarrow> oid \<Rightarrow> oid list \<Rightarrow> commit_message \<Rightarrow> mutable_commit bit_result" where
  "mk_commit obj_type commit_of sig t ps m =
     and_then (obj_type t) (\<lambda>ty.
     and_then (ensure (ty = Tree) (Bail ''not a tree'')) (\<lambda>_.
     and_then sig (\<lambda>a.
     and_then (try_fold (\<lambda>_ p. check_parent obj_type commit_of (sig_time a) p) () ps) (\<lambda>_.
       Inr (new_commit t ps m a a)))))"

text \<open>\<open>w!\<close>: a line break inside the text becomes a line break and a space.\<close>

definition replace_newlines :: "byte list \<Rightarrow> byte list" where
  "replace_newlines s = concat (map (\<lambda>b. if b = b_newline then [b_newline, b_space] else [b]) s)"

definition write_line :: "byte list \<Rightarrow> byte list" where
  "write_line s = replace_newlines s @ [b_newline]"

definition commit_serialize :: "(byte list \<Rightarrow> byte list) \<Rightarrow> mutable_commit \<Rightarrow> byte list" where
  "commit_serialize to_hex c =
     write_line (bytes_of ''tree '' @ to_hex (tree c))
     @ concat (map (\<lambda>p. write_line (bytes_of ''parent '' @ to_hex p)) (parents c))
     @ write_line (bytes_of ''author '' @ signature_display (author c))
     @ write_line (bytes_of ''committer '' @ signature_display (committer c))
     @ (case gpgsig c of None \<Rightarrow> [] | Some g \<Rightarrow> write_line (bytes_of ''gpgsig '' @ g))
     @ (case mergetag c of None \<Rightarrow> [] | Some m \<Rightarrow> write_line (bytes_of ''mergetab '' @ m))
     @ [b_newline]
     @ commit_message_display (commit_msg c)"

text \<open>\<open>BufRead::lines\<close>: the line break is dropped, and a carriage return before it.\<close>

definition chomp :: "byte list \<Rightarrow> byte list" where
  "chomp l =
     (if l \<noteq> [] \<and> last l = b_newline
      then (let l' = butlast l in if l' \<noteq> [] \<and> last l' = b_cr then butlast l' else l')
      else l)"

lemma read_until_shorter: "bs \<noteq> [] \<Longrightarrow> length (snd (read_until sep bs)) < length bs"
  using read_until_append [of sep bs "fst (read_until sep bs)" "snd (read_until sep bs)"]
  by (cases bs) (auto split: prod.splits if_splits)

function lines :: "byte list \<Rightarrow> byte list list" where
  "lines bs =
     (if bs = [] then []
      else chomp (fst (read_until b_newline bs)) # lines (snd (read_until b_newline bs)))"
  by pat_completeness auto
termination
  by (relation "measure length") (auto simp: read_until_shorter)

declare lines.simps [simp del]

text \<open>
  \<open>read_commit_msg\<close> after the editor has left: the lines of the file that are no comments, one
  behind the other.
\<close>

definition read_commit_msg :: "byte list \<Rightarrow> commit_message bit_result" where
  "read_commit_msg file =
     and_then (ensure (list_all utf8_valid (lines file)) (Bail ''stream did not contain valid UTF-8'')) (\<lambda>_.
     let msg = concat (filter (\<lambda>l. \<not> (l \<noteq> [] \<and> hd l = 35)) (lines file)) in
     and_then (ensure (msg \<noteq> []) (Bail ''aborting commit due to empty commit message'')) (\<lambda>_.
       Inr (commit_message_from_str msg)))"

record commit_builder =
  b_tree :: "oid option"
  b_author :: "bit_signature option"
  b_committer :: "bit_signature option"
  b_parents :: "oid list"
  b_gpgsig :: "byte list option"
  b_mergetag :: "byte list option"

definition empty_builder :: commit_builder where
  "empty_builder =
     \<lparr>b_tree = None, b_author = None, b_committer = None, b_parents = [], b_gpgsig = None, b_mergetag = None\<rparr>"

text \<open>\<open>line.split_once(' ')\<close>.\<close>

definition split_field :: "byte list \<Rightarrow> (byte list \<times> byte list) option" where
  "split_field l =
     (case dropWhile (\<lambda>b. b \<noteq> b_space) l of
        [] \<Rightarrow> None
      | _ # v \<Rightarrow> Some (takeWhile (\<lambda>b. b \<noteq> b_space) l, v))"

definition starts_with_space :: "byte list \<Rightarrow> bool" where
  "starts_with_space l \<longleftrightarrow> (case l of [] \<Rightarrow> False | b # _ \<Rightarrow> b = b_space)"

definition set_field ::
  "(byte list \<Rightarrow> byte list bit_result) \<Rightarrow> commit_builder \<Rightarrow> byte list \<Rightarrow> byte list \<Rightarrow> commit_builder bit_result" where
  "set_field from_hex b field v =
     (if field = bytes_of ''parent'' then
        and_then (oid_from_str from_hex v) (\<lambda>p. Inr (b\<lparr>b_parents := b_parents b @ [p]\<rparr>))
      else if field = bytes_of ''tree'' then
        and_then (oid_from_str from_hex v) (\<lambda>t. Inr (b\<lparr>b_tree := Some t\<rparr>))
      else if field = bytes_of ''author'' then
        and_then (signature_from_str v) (\<lambda>a. Inr (b\<lparr>b_author := Some a\<rparr>))
      else if field = bytes_of ''committer'' then
        and_then (signature_from_str v) (\<lambda>c. Inr (b\<lparr>b_committer := Some c\<rparr>))
      else if field = bytes_of ''gpgsig'' then Inr (b\<lparr>b_gpgsig := Some v\<rparr>)
      else if field = bytes_of ''mergetag'' then Inr (b\<lparr>b_mergetag := Some v\<rparr>)
      else Inr b)"

text \<open>
  The header loop: a line with its continuation lines is one field; an empty line ends the header.
  The result is the builder and the lines behind the header.
\<close>

function parse_fields ::
  "(byte list \<Rightarrow> byte list bit_result) \<Rightarrow> commit_builder \<Rightarrow> byte list list \<Rightarrow> (commit_builder \<times> byte list list) bit_result" where
  "parse_fields from_hex b [] = Inr (b, [])"
| "parse_fields from_hex b (l # ls) =
     (if l = [] then Inr (b, ls)
      else (case split_field l of
          None \<Rightarrow> Inl Panic
        | Some (field, v) \<Rightarrow>
            let cont = takeWhile starts_with_space ls;
                v' = v @ concat (map (\<lambda>c. b_newline # tl c) cont)
            in and_then (set_field from_hex b field v') (\<lambda>b'.
                 parse_fields from_hex b' (dropWhile starts_with_space ls))))"
  by pat_completeness auto
termination
  by (relation "measure (\<lambda>(h, b, ls). length ls)") (auto simp: less_Suc_eq_le length_dropWhile_le)

definition ok_or :: "'a option \<Rightarrow> bit_error \<Rightarrow> 'a bit_result" where
  "ok_or x e = (case x of None \<Rightarrow> Inl e | Some y \<Rightarrow> Inr y)"

definition builder_build :: "commit_builder \<Rightarrow> commit_message \<Rightarrow> mutable_commit bit_result" where
  "builder_build b m =
     and_then (ok_or (b_tree b) (Bail ''commit missing tree'')) (\<lambda>t.
     and_then (ok_or (b_author b) (Bail ''commit missing author'')) (\<lambda>a.
     and_then (ok_or (b_committer b) (Bail ''commit missing committer'')) (\<lambda>c.
       Inr \<lparr>tree = t, author = a, committer = c, commit_msg = m, parents = b_parents b,
            gpgsig = b_gpgsig b, mergetag = b_mergetag b\<rparr>)))"

definition commit_deserialize ::
  "(byte list \<Rightarrow> byte list bit_result) \<Rightarrow> nat \<Rightarrow> byte list \<Rightarrow> mutable_commit bit_result" where
  "commit_deserialize from_hex sz bs =
     (let ls = lines (take sz bs) in
      and_then (ensure (list_all utf8_valid ls) Panic) (\<lambda>_.
      and_then (parse_fields from_hex empty_builder ls) (\<lambda>(b, rest).
        builder_build b (commit_message_from_str (join_on b_newline rest)))))"

section \<open>Lines\<close>

lemma lines_Cons:
  assumes "b_newline \<notin> set l" "b_cr \<notin> set l"
  shows "lines (l @ b_newline # rest) = l # lines rest"
proof -
  have "l \<noteq> [] \<Longrightarrow> last l \<noteq> b_cr" using assms(2) last_in_set by metis
  then have "chomp (l @ [b_newline]) = l" by (auto simp: chomp_def Let_def)
  then show ?thesis using read_until_hit [OF assms(1), of rest]
    by (subst lines.simps) simp
qed

lemma read_until_none: "sep \<notin> set bs \<Longrightarrow> read_until sep bs = (bs, [])"
  by (induction bs) auto

lemma lines_last: "b_newline \<notin> set l \<Longrightarrow> l \<noteq> [] \<Longrightarrow> lines l = [l]"
  by (subst lines.simps) (auto simp: read_until_none lines.simps chomp_def dest: last_in_set)

lemma lines_segs:
  assumes "segs \<noteq> []" "\<forall>s \<in> set segs. b_newline \<notin> set s \<and> b_cr \<notin> set s" "last segs \<noteq> []"
  shows "lines (join_on b_newline segs) = segs"
  using assms
proof (induction segs)
  case (Cons x xs)
  then show ?case by (cases "xs = []") (auto simp: join_on_Cons lines_Cons lines_last)
qed simp

text \<open>A text \<open>lines\<close> and joining restore: no carriage return, no line break at the end.\<close>

definition plain_text :: "byte list \<Rightarrow> bool" where
  "plain_text s \<longleftrightarrow> b_cr \<notin> set s \<and> (s = [] \<or> last s \<noteq> b_newline)"

lemma last_split_on: "s \<noteq> [] \<Longrightarrow> last s \<noteq> sep \<Longrightarrow> last (split_on sep s) \<noteq> []"
proof (induction s)
  case (Cons b s)
  obtain p ps where s: "split_on sep s = p # ps" by (cases "split_on sep s") auto
  show ?case
  proof (cases "s = []")
    case False
    then have "last (p # ps) \<noteq> []" using Cons s by simp
    then show ?thesis using s by (auto split: if_splits)
  qed (use Cons.prems in simp)
qed simp

lemma set_split_on: "x \<in> set (split_on sep s) \<Longrightarrow> set x \<subseteq> set s"
proof (induction s arbitrary: x)
  case (Cons b s)
  obtain p ps where "split_on sep s = p # ps" by (cases "split_on sep s") auto
  with Cons show ?case by (fastforce split: if_splits)
qed simp

lemma lines_plain:
  assumes "plain_text s" "s \<noteq> []"
  shows "lines s = split_on b_newline s"
proof -
  have "last (split_on b_newline s) \<noteq> []" and "b_cr \<notin> set s"
    using assms by (auto simp: plain_text_def last_split_on)
  then have "lines (join_on b_newline (split_on b_newline s)) = split_on b_newline s"
    by (intro lines_segs) (auto dest: split_on_seg set_split_on)
  then show ?thesis by simp
qed

lemma join_lines: "plain_text s \<Longrightarrow> join_on b_newline (lines s) = s"
  by (cases "s = []") (simp_all add: lines_plain lines.simps [of "[]"])

text \<open>Text written with \<open>w!\<close> comes back as one line followed by its continuation lines.\<close>

definition field_lines :: "byte list \<Rightarrow> byte list \<Rightarrow> byte list list" where
  "field_lines field v =
     (field @ b_space # hd (split_on b_newline v)) # map (\<lambda>l. b_space # l) (tl (split_on b_newline v))"

lemma replace_newlines_split:
  "replace_newlines v @ [b_newline] =
     hd (split_on b_newline v) @ [b_newline]
     @ concat (map (\<lambda>l. b_space # l @ [b_newline]) (tl (split_on b_newline v)))"
proof (induction v)
  case (Cons b v)
  obtain p ps where "split_on b_newline v = p # ps" by (cases "split_on b_newline v") auto
  with Cons show ?case by (simp add: replace_newlines_def)
qed (simp add: replace_newlines_def)

lemma lines_concat:
  assumes "\<forall>l \<in> set ls. b_newline \<notin> set l \<and> b_cr \<notin> set l"
  shows "lines (concat (map (\<lambda>l. l @ [b_newline]) ls) @ rest) = ls @ lines rest"
  using assms by (induction ls) (auto simp: lines_Cons)

lemma lines_write_line:
  assumes "b_newline \<notin> set field" "b_cr \<notin> set field" "b_cr \<notin> set v"
  shows "lines (write_line (field @ b_space # v) @ rest) = field_lines field v @ lines rest"
proof -
  have "replace_newlines (field @ b_space # v) = field @ b_space # replace_newlines v"
    using assms(1) by (induction field) (auto simp: replace_newlines_def)
  then have "write_line (field @ b_space # v) = concat (map (\<lambda>l. l @ [b_newline]) (field_lines field v))"
    using replace_newlines_split [of v] by (simp add: write_line_def field_lines_def comp_def)
  moreover have "\<forall>l \<in> set (field_lines field v). b_newline \<notin> set l \<and> b_cr \<notin> set l"
  proof -
    have ok: "b_newline \<notin> set x \<and> b_cr \<notin> set x" if "x \<in> set (split_on b_newline v)" for x
      using that assms(3) by (auto dest: split_on_seg set_split_on)
    then show ?thesis
      using assms(1,2) ok [of "hd (split_on b_newline v)"] list.set_sel(2) [of "split_on b_newline v"]
      by (auto simp: field_lines_def)
  qed
  ultimately show ?thesis by (simp only: lines_concat)
qed

lemma field_value:
  "hd (split_on b_newline v) @ concat (map (\<lambda>c. b_newline # tl c) (map (\<lambda>l. b_space # l) (tl (split_on b_newline v)))) = v"
proof -
  have "join_on b_newline xs = hd xs @ concat (map (\<lambda>c. b_newline # c) (tl xs))" if "xs \<noteq> []" for xs
    using that
  proof (induction xs)
    case (Cons x xs)
    then show ?case by (cases xs) (simp_all add: join_on_Cons)
  qed simp
  from this [of "split_on b_newline v"] show ?thesis by (simp add: comp_def)
qed

section \<open>Parsing what was serialised\<close>

lemma split_field_line: "b_space \<notin> set field \<Longrightarrow> split_field (field @ b_space # v) = Some (field, v)"
  by (simp add: split_field_def dropWhile_append takeWhile_append dropWhile_eq_Nil_conv [THEN iffD2])

lemma takeWhile_space:
  assumes "ls = [] \<or> \<not> starts_with_space (hd ls)"
  shows "takeWhile starts_with_space (map (\<lambda>l. b_space # l) xs @ ls) = map (\<lambda>l. b_space # l) xs"
    and "dropWhile starts_with_space (map (\<lambda>l. b_space # l) xs @ ls) = ls"
  using assms by (induction xs) (cases ls; simp add: starts_with_space_def)+

lemma parse_field_lines:
  assumes "b_space \<notin> set field" "ls = [] \<or> \<not> starts_with_space (hd ls)"
  shows "parse_fields h b (field_lines field v @ ls) =
     and_then (set_field h b field v) (\<lambda>b'. parse_fields h b' ls)"
  using field_value [of v] by (simp add: field_lines_def split_field_line assms takeWhile_space Let_def)

text \<open>A header is a list of fields; \<open>apply_fields\<close> is what the builder makes of it.\<close>

definition field_name :: "byte list \<Rightarrow> bool" where
  "field_name f \<longleftrightarrow> f \<noteq> [] \<and> b_space \<notin> set f \<and> b_newline \<notin> set f \<and> b_cr \<notin> set f"

definition header_text :: "(byte list \<times> byte list) list \<Rightarrow> byte list" where
  "header_text fs = concat (map (\<lambda>(f, v). write_line (f @ b_space # v)) fs)"

definition apply_fields ::
  "(byte list \<Rightarrow> byte list bit_result) \<Rightarrow> (byte list \<times> byte list) list \<Rightarrow> commit_builder \<Rightarrow> commit_builder bit_result" where
  "apply_fields h fs b = try_fold (\<lambda>b (f, v). set_field h b f v) b fs"

lemma lines_header:
  assumes "\<forall>(f, v) \<in> set fs. field_name f \<and> b_cr \<notin> set v"
  shows "lines (header_text fs @ b_newline # rest) =
     concat (map (\<lambda>(f, v). field_lines f v) fs) @ [] # lines rest"
  using assms
proof (induction fs)
  case Nil
  then show ?case using lines_Cons [of "[]" rest] by (simp add: header_text_def)
next
  case (Cons fv fs)
  obtain f v where "fv = (f, v)" by fastforce
  with Cons show ?case by (simp add: header_text_def lines_write_line field_name_def)
qed

lemma field_lines_hd: "field_name f \<Longrightarrow> \<not> starts_with_space (hd (field_lines f v))"
  by (cases f) (auto simp: field_name_def field_lines_def starts_with_space_def)

lemma parse_fields_header:
  assumes "\<forall>(f, v) \<in> set fs. field_name f"
  shows "parse_fields h b (concat (map (\<lambda>(f, v). field_lines f v) fs) @ [] # ls) =
     and_then (apply_fields h fs b) (\<lambda>b'. Inr (b', ls))"
  using assms
proof (induction fs arbitrary: b)
  case (Cons fv fs)
  obtain f v where fv: "fv = (f, v)" by fastforce
  let ?rest = "concat (map (\<lambda>(f, v). field_lines f v) fs) @ [] # ls"
  have "\<not> starts_with_space (hd ?rest)"
  proof (cases fs)
    case (Cons gw gs)
    then show ?thesis using Cons.prems field_lines_hd by (auto simp: field_lines_def)
  qed (simp add: starts_with_space_def)
  then show ?case using Cons fv parse_field_lines [of f ?rest h b v]
    by (auto simp: field_name_def apply_fields_def and_then_assoc)
qed (simp add: apply_fields_def)

section \<open>The round trip of a commit\<close>

definition commit_fields :: "(byte list \<Rightarrow> byte list) \<Rightarrow> mutable_commit \<Rightarrow> (byte list \<times> byte list) list" where
  "commit_fields to_hex c =
     (bytes_of ''tree'', to_hex (tree c))
     # map (\<lambda>p. (bytes_of ''parent'', to_hex p)) (parents c)
     @ [(bytes_of ''author'', signature_display (author c)), (bytes_of ''committer'', signature_display (committer c))]
     @ (case gpgsig c of None \<Rightarrow> [] | Some g \<Rightarrow> [(bytes_of ''gpgsig'', g)])
     @ (case mergetag c of None \<Rightarrow> [] | Some m \<Rightarrow> [(bytes_of ''mergetab'', m)])"

lemma commit_serialize_fields:
  "commit_serialize to_hex c =
     header_text (commit_fields to_hex c) @ b_newline # commit_message_display (commit_msg c)"
  by (simp add: commit_serialize_def header_text_def commit_fields_def comp_def split: option.splits)

lemma apply_parents:
  assumes "\<forall>p \<in> set ps. oid_from_str h (e p) = Inr p"
  shows "apply_fields h (map (\<lambda>p. (bytes_of ''parent'', e p)) ps) b = Inr (b\<lparr>b_parents := b_parents b @ ps\<rparr>)"
  using assms by (induction ps arbitrary: b) (auto simp: apply_fields_def set_field_def)

lemma apply_commit_fields:
  assumes "\<forall>p \<in> insert (tree c) (set (parents c)). oid_from_str h (e p) = Inr p"
    and "signature_valid (author c)" "signature_valid (committer c)"
  shows "apply_fields h (commit_fields e c) empty_builder =
     Inr \<lparr>b_tree = Some (tree c), b_author = Some (author c), b_committer = Some (committer c),
          b_parents = parents c, b_gpgsig = gpgsig c, b_mergetag = None\<rparr>"
proof -
  have "apply_fields h (map (\<lambda>p. (bytes_of ''parent'', e p)) (parents c)) b
      = Inr (b\<lparr>b_parents := b_parents b @ parents c\<rparr>)" for b
    using assms(1) by (intro apply_parents) simp
  then show ?thesis using assms
    by (auto simp: apply_fields_def commit_fields_def empty_builder_def set_field_def try_fold_append
        signature_roundtrip_aux split: option.splits)
qed

definition text_ok :: "byte list \<Rightarrow> bool" where
  "text_ok v \<longleftrightarrow> utf8_valid v \<and> b_cr \<notin> set v"

definition message_valid :: "commit_message \<Rightarrow> bool" where
  "message_valid m \<longleftrightarrow>
     text_ok (subject m) \<and> text_ok (message m) \<and> plain_text (commit_message_display m)
     \<and> split_blank_line (subject m) = None
     \<and> (message m \<noteq> [] \<longrightarrow> subject m = [] \<or> last (subject m) \<noteq> b_newline)"

definition commit_valid :: "mutable_commit \<Rightarrow> bool" where
  "commit_valid c \<longleftrightarrow>
     oid_wf (tree c) \<and> list_all oid_wf (parents c)
     \<and> signature_valid (author c) \<and> text_ok (signature_display (author c))
     \<and> signature_valid (committer c) \<and> text_ok (signature_display (committer c))
     \<and> pred_option text_ok (gpgsig c) \<and> pred_option text_ok (mergetag c) \<and> message_valid (commit_msg c)"

lemma split_blank_line_append:
  "split_blank_line s = None \<Longrightarrow> s = [] \<or> last s \<noteq> b_newline \<Longrightarrow>
   split_blank_line (s @ b_newline # b_newline # r) = Some (s, r)"
proof (induction s rule: split_blank_line.induct)
  case (1 a b r')
  then show ?case by (cases r') (auto split: if_splits)
qed auto

lemma commit_message_roundtrip:
  "message_valid m \<Longrightarrow> commit_message_from_str (commit_message_display m) = m"
  by (auto simp: message_valid_def commit_message_from_str_def commit_message_display_def
      split_blank_line_append)

lemma utf8_valid_segs: "utf8_valid s \<Longrightarrow> l \<in> set (split_on b_newline s) \<Longrightarrow> utf8_valid l"
proof (induction "length s" arbitrary: s l rule: less_induct)
  case less
  show ?case
  proof (cases "b_newline \<in> set s")
    case True
    then obtain xs ys where s: "s = xs @ b_newline # ys" "b_newline \<notin> set xs" by (meson split_list_first)
    then have "utf8_valid xs" "utf8_valid ys" using less.prems(1) utf8_valid_split [of xs b_newline ys] by auto
    then show ?thesis using less.hyps [of ys l] less.prems(2) s by (auto simp: split_on_append split_on_no_sep)
  qed (use less.prems split_on_no_sep in auto)
qed

lemma field_lines_utf8:
  assumes "ascii f" "utf8_valid v" "l \<in> set (field_lines f v)"
  shows "utf8_valid l"
proof -
  have sp: "utf8_valid (b_space # x) = utf8_valid x" for x by (rule utf8_valid_ascii_Cons) simp
  have "utf8_valid (hd (split_on b_newline v))" using utf8_valid_segs [OF assms(2)] by simp
  moreover have "utf8_valid x" if "x \<in> set (tl (split_on b_newline v))" for x
    using that utf8_valid_segs [OF assms(2)] list.set_sel(2) [of "split_on b_newline v"] by auto
  ultimately show ?thesis using assms(3) utf8_valid_append [OF utf8_valid_ascii [OF assms(1)]]
    by (auto simp: field_lines_def sp)
qed

lemma message_lines_utf8:
  assumes "message_valid m"
  shows "list_all utf8_valid (lines (commit_message_display m))"
proof -
  have nl: "utf8_valid (b_newline # x) = utf8_valid x" for x by (rule utf8_valid_ascii_Cons) simp
  have "utf8_valid (commit_message_display m)"
    using assms by (auto simp: commit_message_display_def message_valid_def text_ok_def utf8_valid_append nl)
  moreover have "plain_text (commit_message_display m)" using assms by (simp add: message_valid_def)
  ultimately show ?thesis
    using lines_plain utf8_valid_segs
    by (cases "commit_message_display m = []") (auto simp: list_all_iff lines.simps [of "[]"])
qed

lemma commit_fields_ok:
  assumes "encodes_hex e" "decodes_hex h" "commit_valid c" "(f, v) \<in> set (commit_fields e c)"
  shows "field_name f \<and> ascii f \<and> text_ok v"
proof -
  have "text_ok (e p)" if "oid_wf p" for p
    using oid_hex_roundtrip [OF assms(1,2) that] by (simp add: text_ok_def utf8_valid_ascii)
  then have "text_ok v" using assms(3,4)
    by (cases "gpgsig c"; cases "mergetag c") (auto simp: commit_valid_def commit_fields_def list_all_iff)
  moreover have "f \<in> {bytes_of ''tree'', bytes_of ''parent'', bytes_of ''author'', bytes_of ''committer'',
      bytes_of ''gpgsig'', bytes_of ''mergetab''}"
    using assms(4) by (auto simp: commit_fields_def split: option.splits)
  then have "field_name f \<and> ascii f" by (auto simp: field_name_def ascii_def)
  ultimately show ?thesis by simp
qed

lemma commit_roundtrip_aux:
  assumes "encodes_hex e" "decodes_hex h" "commit_valid c" "length (commit_serialize e c) \<le> sz"
  shows "commit_deserialize h sz (commit_serialize e c) = Inr (c\<lparr>mergetag := None\<rparr>)"
proof -
  let ?ls = "concat (map (\<lambda>(f, v). field_lines f v) (commit_fields e c)) @ [] # lines (commit_message_display (commit_msg c))"
  note ok = commit_fields_ok [OF assms(1-3)]
  have m: "message_valid (commit_msg c)" and pt: "plain_text (commit_message_display (commit_msg c))"
    using assms(3) by (simp_all add: commit_valid_def message_valid_def)
  have ls: "lines (commit_serialize e c) = ?ls"
    unfolding commit_serialize_fields by (rule lines_header) (use ok in \<open>auto simp: text_ok_def\<close>)
  have "list_all utf8_valid ?ls"
    using message_lines_utf8 [OF m] ok field_lines_utf8
    by (fastforce simp: list_all_iff text_ok_def utf8_valid.simps [of "[]"])
  moreover have "\<forall>p \<in> insert (tree c) (set (parents c)). oid_from_str h (e p) = Inr p"
    using assms(3) oid_hex_roundtrip(1) [OF assms(1,2)] by (auto simp: commit_valid_def list_all_iff)
  then have "parse_fields h empty_builder ?ls =
      Inr (\<lparr>b_tree = Some (tree c), b_author = Some (author c), b_committer = Some (committer c),
          b_parents = parents c, b_gpgsig = gpgsig c, b_mergetag = None\<rparr>, lines (commit_message_display (commit_msg c)))"
    using assms(3) ok by (subst parse_fields_header) (auto simp: apply_commit_fields commit_valid_def)
  ultimately show ?thesis
    using assms(4) join_lines [OF pt] commit_message_roundtrip [OF m]
    by (simp add: commit_deserialize_def ls ensure_def builder_build_def ok_or_def)
qed

text \<open>
  C24. A commit written by \<open>serialize\<close> is read back by \<open>deserialize\<close> with the same tree, parents in
  order, author, committer, signature (over several lines) and message; only a merge tag is lost,
  because it is written under the name \<open>mergetab\<close>. The texts must be UTF-8 without carriage
  returns, the subject without a blank line and the message without a line break at its end.
\<close>

theorem commit_roundtrip:
  assumes "encodes_hex e" "decodes_hex h" "commit_valid c" "length (commit_serialize e c) \<le> sz"
  shows "commit_deserialize h sz (commit_serialize e c) = Inr (c\<lparr>mergetag := None\<rparr>)"
  using assms by (rule commit_roundtrip_aux)

definition sample_signature :: bit_signature where
  "sample_signature =
     \<lparr>sig_name = bytes_of ''Andy Yu'', sig_email = bytes_of ''a@b.c'', sig_time = \<lparr>time = 0, offset = 60\<rparr>\<rparr>"

definition sample_commit :: mutable_commit where
  "sample_commit =
     \<lparr>tree = EMPTY_TREE, author = sample_signature, committer = sample_signature,
      commit_msg = \<lparr>subject = bytes_of ''fix'', message = bytes_of ''why''\<rparr>,
      parents = [UNKNOWN, EMPTY_TREE], gpgsig = Some (bytes_of ''sig'' @ [b_newline] @ bytes_of ''end''), mergetag = None\<rparr>"

lemma sample_signature_text: "signature_display sample_signature = bytes_of ''Andy Yu <a@b.c> 0 +0100''"
  by code_simp

lemma sample_commit_valid: "commit_valid sample_commit"
proof -
  have "text_ok (signature_display sample_signature)"
    unfolding sample_signature_text text_ok_def by (intro conjI utf8_valid_ascii) (simp_all add: ascii_def)
  moreover have "message_valid (commit_msg sample_commit)"
    by (simp add: sample_commit_def message_valid_def text_ok_def plain_text_def commit_message_display_def
        utf8_valid_ascii ascii_def)
  ultimately show ?thesis
    by (simp add: commit_valid_def sample_commit_def text_ok_def utf8_valid_ascii ascii_def oid_wf_def
        OID_SIZE_def EMPTY_TREE_def UNKNOWN_def signature_valid_def time_valid_def sample_signature_def)
qed

theorem commit_roundtrip_witness:
  "commit_deserialize (\<lambda>s. Inr (unhex (map hex_val s))) (length (commit_serialize (\<lambda>bs. map hex_digit (hex_of bs)) sample_commit))
     (commit_serialize (\<lambda>bs. map hex_digit (hex_of bs)) sample_commit) = Inr (sample_commit\<lparr>mergetag := None\<rparr>)"
  by (rule commit_roundtrip) (simp_all add: encodes_hex_def decodes_hex_def sample_commit_valid)

section \<open>Making a commit\<close>

lemma bit_time_le_antisym: "bit_time_le a b \<Longrightarrow> bit_time_le b a \<Longrightarrow> a = b"
  by (auto simp: bit_time_le_def)

lemma check_parents_iff:
  "try_fold (\<lambda>_ p. check_parent ty cof now p) u ps = Inr u' \<longleftrightarrow>
     (\<forall>p \<in> set ps. ty p = Inr Commit \<and> bit_time_le (sig_time (committer (cof p))) now)"
  by (induction ps arbitrary: u) (auto simp: check_parent_def and_then_eq_Inr ensure_eq_Inr)

text \<open>
  A commit is made exactly when its tree is a tree object, the user has a signature and every
  parent is a commit whose committer time is not later than the new one; then author and committer
  are the user, the parents are kept in order, and no parent is younger than the commit.
\<close>

theorem mk_commit_iff:
  "mk_commit ty cof sig t ps m = Inr c \<longleftrightarrow>
     ty t = Inr Tree
     \<and> (\<exists>a. sig = Inr a \<and> c = new_commit t ps m a a)
     \<and> (\<forall>p \<in> set ps. ty p = Inr Commit
          \<and> bit_time_le (sig_time (committer (cof p))) (sig_time (committer c)))"
  by (auto simp: mk_commit_def and_then_eq_Inr ensure_eq_Inr check_parents_iff new_commit_def)

theorem mk_commit_iff_witness:
  "mk_commit (\<lambda>i. if i = EMPTY_TREE then Inr Tree else Inr Commit) (\<lambda>_. sample_commit) (Inr sample_signature)
     EMPTY_TREE [EMPTY_BLOB] (commit_msg sample_commit)
   = Inr (new_commit EMPTY_TREE [EMPTY_BLOB] (commit_msg sample_commit) sample_signature sample_signature)"
  by (subst mk_commit_iff)
    (simp add: new_commit_def sample_commit_def bit_time_le_def EMPTY_TREE_def EMPTY_BLOB_def)


lemma chomp_read_until: "b_newline \<notin> set (chomp (fst (read_until b_newline bs)))"
proof -
  have "b_newline \<notin> set (butlast (fst (read_until b_newline bs)))"
    by (induction bs) (auto split: prod.splits)
  moreover have "b_newline \<in> set (fst (read_until b_newline bs)) \<Longrightarrow> last (fst (read_until b_newline bs)) = b_newline"
    by (induction bs) (auto split: prod.splits if_splits)
  ultimately show ?thesis
    by (auto simp: chomp_def Let_def dest: in_set_butlastD)
qed

lemma lines_no_newline: "l \<in> set (lines bs) \<Longrightarrow> b_newline \<notin> set l"
proof (induction bs rule: lines.induct)
  case (1 bs)
  then show ?case using chomp_read_until by (cases "bs = []") (auto simp: lines.simps [of bs] lines.simps [of "[]"])
qed

lemma split_blank_line_None: "b_newline \<notin> set s \<Longrightarrow> split_blank_line s = None"
  by (induction s rule: split_blank_line.induct) auto

text \<open>
  A message read from the editor is never empty and never has a body: the lines are put
  together without the line breaks between them, so the whole text becomes the subject.
\<close>

theorem read_commit_msg_subject_only:
  "read_commit_msg file = Inr m \<Longrightarrow> message m = [] \<and> subject m \<noteq> []"
proof -
  assume "read_commit_msg file = Inr m"
  moreover have "b_newline \<notin> set (concat (filter P (lines file)))" for P
    by (auto dest: lines_no_newline)
  ultimately show ?thesis
    by (auto simp: read_commit_msg_def and_then_eq_Inr ensure_eq_Inr Let_def commit_message_from_str_def
        split_blank_line_None)
qed

theorem read_commit_msg_subject_only_witness:
  "read_commit_msg (bytes_of ''fix'' @ [10, 10] @ bytes_of ''why'' @ [10] @ bytes_of ''# note'')
     = Inr \<lparr>subject = bytes_of ''fixwhy'', message = []\<rparr>
   \<and> subject \<lparr>subject = bytes_of ''fixwhy'', message = []\<rparr> \<noteq> []"
proof -
  have "read_commit_msg (bytes_of ''fix'' @ [10, 10] @ bytes_of ''why'' @ [10] @ bytes_of ''# note'')
     = Inr \<lparr>subject = bytes_of ''fixwhy'', message = []\<rparr>" by code_simp
  from this read_commit_msg_subject_only [OF this] show ?thesis by simp
qed

end
