(* ===== verification/Bit_Tree.thy ===== *)
theory Bit_Tree
  imports Bit_Obj
begin

text \<open>
  Tree objects, \<^verbatim>\<open>libbit/src/obj/tree.rs\<close>: entries with their order and binary format, the
  immutable tree (entries in the order of the object) and the mutable tree (a \<open>BTreeSet\<close> of
  entries, so always in git's order).
\<close>

section \<open>Model\<close>

record tree_entry =
  te_mode :: file_mode
  te_path :: bit_path
  te_oid :: oid

definition entry_cmp :: "tree_entry \<Rightarrow> tree_entry \<Rightarrow> ordering" where
  "entry_cmp a b =
     path_cmp_explicit (path_bytes (te_path a)) (is_tree (te_mode a))
       (path_bytes (te_path b)) (is_tree (te_mode b))"

definition tree_entry_serialize :: "tree_entry \<Rightarrow> byte list" where
  "tree_entry_serialize e =
     file_mode_display True (te_mode e) @ [b_space]
     @ utf8_lossy (path_bytes (te_path e)) @ [b_nul] @ te_oid e"

definition tree_entry_deserialize :: "tree_entry reader" where
  "tree_entry_deserialize =
     rd_bind (read_delim 0x20) (\<lambda>buf.
     rd_bind (rd_lift (and_then (from_utf8_unwrap buf) (\<lambda>s. and_then (unwrap (parse_u32_radix 8 s)) file_mode_new)))
       (\<lambda>mode.
     rd_bind (read_delim 0x00) (\<lambda>path.
     rd_bind (read_exact 20) (\<lambda>oid.
       rd_return \<lparr>te_mode = mode, te_path = BitPath path, te_oid = oid\<rparr>))))"

definition tree_serialize :: "tree_entry list \<Rightarrow> byte list" where
  "tree_serialize entries = write_iter tree_entry_serialize entries"

definition read_entries :: "nat \<Rightarrow> byte list \<Rightarrow> tree_entry list bit_result" where
  "read_entries sz bs = read_to_eof tree_entry_deserialize (take sz bs)"

text \<open>
  \<open>BTreeSet::insert\<close> by \<open>entry_cmp\<close>: an element that compares equal stays, the new one is dropped.
\<close>

fun entries_insert :: "tree_entry \<Rightarrow> tree_entry list \<Rightarrow> tree_entry list" where
  "entries_insert e [] = [e]"
| "entries_insert e (x # xs) =
     (case entry_cmp e x of
        Less \<Rightarrow> e # x # xs
      | Equal \<Rightarrow> x # xs
      | Greater \<Rightarrow> x # entries_insert e xs)"

definition mutable_tree_from_entries :: "tree_entry list \<Rightarrow> tree_entry list" where
  "mutable_tree_from_entries es = foldl (\<lambda>t e. entries_insert e t) [] es"

definition mutable_tree_deserialize :: "nat \<Rightarrow> byte list \<Rightarrow> tree_entry list bit_result" where
  "mutable_tree_deserialize sz bs =
     and_then (read_to_eof tree_entry_deserialize (take sz bs)) (\<lambda>es. Inr (mutable_tree_from_entries es))"

section \<open>The entry format\<close>

definition entry_valid :: "tree_entry \<Rightarrow> bool" where
  "entry_valid e \<longleftrightarrow>
     utf8_valid (path_bytes (te_path e)) \<and> b_nul \<notin> set (path_bytes (te_path e)) \<and> oid_wf (te_oid e)"

lemma tree_entry_roundtrip:
  assumes "entry_valid e"
  shows "tree_entry_deserialize (tree_entry_serialize e @ rest) = Inr (e, rest)"
proof -
  have lossy: "utf8_lossy (path_bytes (te_path e)) = path_bytes (te_path e)"
    and nul: "b_nul \<notin> set (path_bytes (te_path e))" and oid: "length (te_oid e) = 20"
    using assms by (simp_all add: entry_valid_def utf8_lossy_valid oid_wf_def OID_SIZE_def)
  have digits: "48 \<le> b \<and> b \<le> 57" if "b \<in> set (file_mode_display True (te_mode e))" for b
    using that by (rule file_mode_display_ascii)
  then have space: "b_space \<notin> set (file_mode_display True (te_mode e))" by fastforce
  have "ascii (file_mode_display True (te_mode e))"
    using digits by (fastforce simp: ascii_def list_all_iff word_le_nat_alt word_less_nat_alt)
  then have "from_utf8_unwrap (file_mode_display True (te_mode e)) = Inr (file_mode_display True (te_mode e))"
    by (simp add: from_utf8_unwrap_def utf8_valid_ascii)
  then show ?thesis
    using lossy nul oid space
    by (simp add: tree_entry_deserialize_def tree_entry_serialize_def rd_bind_apply read_delim_hit
        file_mode_parse_display)
qed

lemma consumes_tree_entry: "consumes 1 tree_entry_deserialize"
  unfolding tree_entry_deserialize_def
  by (intro consumes_bind_left [OF consumes_read_delim] consumes_bind_left [OF consumes_lift]
      consumes_bind_left [OF consumes_weaken [OF consumes_read_delim le0]]
      consumes_bind_left [OF consumes_weaken [OF consumes_read_exact le0]] consumes_return)

lemma tree_entry_returns: "tree_entry_deserialize bs \<noteq> Inl Diverge"
  by (auto simp: tree_entry_deserialize_def rd_bind_apply and_then_eq_Inl read_delim_def drop_delim_def
      from_utf8_unwrap_def unwrap_def file_mode_new_def read_exact_def rd_lift_def
      split: prod.splits if_splits option.splits)

interpretation tree_entry_codec: stream_codec tree_entry_serialize tree_entry_deserialize entry_valid
  by unfold_locales (simp_all add: tree_entry_roundtrip consumes_tree_entry [simplified] tree_entry_returns)

text \<open>
  C25. A tree object is read back entry for entry: for any list of entries whose paths are UTF-8
  without null bytes, \<open>Tree::read_entries\<close> on the serialised tree (with anything behind it, the size
  limit being the length of the tree) returns that list.
\<close>

theorem tree_roundtrip:
  assumes "list_all entry_valid es"
  shows "read_entries (length (tree_serialize es)) (tree_serialize es @ rest) = Inr es"
  using tree_entry_codec.read_to_eof_roundtrip [OF assms]
  by (simp add: read_entries_def tree_serialize_def)

theorem tree_roundtrip_witness:
  "\<exists>bs. read_entries (length bs) (bs @ [7]) =
     Inr [\<lparr>te_mode = EXEC, te_path = BitPath (bytes_of ''run''), te_oid = EMPTY_BLOB\<rparr>,
          \<lparr>te_mode = TREE, te_path = BitPath (bytes_of ''src''), te_oid = EMPTY_TREE\<rparr>]"
  by (intro exI, rule tree_roundtrip)
     (simp add: entry_valid_def utf8_valid_ascii ascii_def oid_wf_def OID_SIZE_def EMPTY_TREE_def EMPTY_BLOB_def)

text \<open>
  C35. Reading a tree always comes to an end, whatever the bytes are: \<open>read_entries\<close> returns entries
  or an error.
\<close>

theorem read_entries_returns: "read_entries sz bs \<noteq> Inl Diverge"
  by (simp add: read_entries_def tree_entry_codec.read_to_eof_returns)

section \<open>The mutable tree is in git's order\<close>

definition entry_key :: "tree_entry \<Rightarrow> byte list" where
  "entry_key e = sort_key (path_bytes (te_path e)) (is_tree (te_mode e))"

definition named_entry :: "tree_entry \<Rightarrow> bool" where
  "named_entry e \<longleftrightarrow> valid_name (path_bytes (te_path e))"

definition git_sorted :: "tree_entry list \<Rightarrow> bool" where
  "git_sorted es \<longleftrightarrow> sorted_wrt (\<lambda>a b. slice_cmp (entry_key a) (entry_key b) = Less) es"

lemma entry_cmp_key:
  "named_entry a \<Longrightarrow> named_entry b \<Longrightarrow> entry_cmp a b = slice_cmp (entry_key a) (entry_key b)"
  by (simp add: entry_cmp_def entry_key_def named_entry_def valid_name_def path_cmp_explicit_base_name)

lemma set_entries_insert: "set (entries_insert e es) \<subseteq> insert e (set es)"
  by (induction es) (auto split: ordering.splits)

lemma git_sorted_insert:
  assumes "named_entry e" "list_all named_entry es" "git_sorted es"
  shows "git_sorted (entries_insert e es)"
  using assms(2,3)
proof (induction es)
  case (Cons x xs)
  then have x: "named_entry x" and xs: "git_sorted xs" "list_all named_entry xs"
    and lt: "\<forall>y \<in> set xs. slice_cmp (entry_key x) (entry_key y) = Less" by (auto simp: git_sorted_def)
  note cmp = entry_cmp_key [OF assms(1) x]
  show ?case
  proof (cases "entry_cmp e x")
    case Less
    then show ?thesis using Cons.prems cmp lt slice_cmp_Less_trans [of "entry_key e" "entry_key x"]
      by (auto simp: git_sorted_def)
  next
    case Equal
    then show ?thesis using Cons.prems by simp
  next
    case Greater
    then have "slice_cmp (entry_key x) (entry_key e) = Less"
      using cmp by (simp add: slice_cmp_Greater)
    moreover have "git_sorted (entries_insert e xs)" using Cons.IH xs by simp
    ultimately show ?thesis using Greater lt set_entries_insert [of e xs] by (auto simp: git_sorted_def)
  qed
qed (simp add: git_sorted_def)

lemma named_entries_insert:
  "named_entry e \<Longrightarrow> list_all named_entry es \<Longrightarrow> list_all named_entry (entries_insert e es)"
  using set_entries_insert [of e es] by (auto simp: list_all_iff)

lemma mutable_tree_invariant:
  "list_all named_entry t \<Longrightarrow> git_sorted t \<Longrightarrow> list_all named_entry es \<Longrightarrow>
     git_sorted (foldl (\<lambda>t e. entries_insert e t) t es)"
  by (induction es arbitrary: t) (auto simp: git_sorted_insert named_entries_insert)

lemma entries_insert_last:
  assumes "named_entry e" "list_all named_entry es" "git_sorted (es @ [e])"
  shows "entries_insert e es = es @ [e]"
  using assms(2,3)
proof (induction es)
  case (Cons x xs)
  then have "slice_cmp (entry_key x) (entry_key e) = Less" by (simp add: git_sorted_def)
  then have "entry_cmp e x = Greater"
    using Cons.prems(1) entry_cmp_key [OF assms(1), of x] by (simp add: slice_cmp_Greater)
  then show ?case using Cons by (simp add: git_sorted_def)
qed simp

lemma mutable_tree_of_sorted:
  assumes "list_all named_entry es" "git_sorted es"
  shows "mutable_tree_from_entries es = es"
proof -
  have "list_all named_entry (t @ es) \<Longrightarrow> git_sorted (t @ es) \<Longrightarrow>
      foldl (\<lambda>t e. entries_insert e t) t es = t @ es" for t
  proof (induction es arbitrary: t)
    case (Cons e es)
    have "git_sorted (t @ [e])" using Cons.prems(2) by (auto simp: git_sorted_def sorted_wrt_append)
    then have "entries_insert e t = t @ [e]" using Cons.prems(1) by (intro entries_insert_last) auto
    then show ?case using Cons.IH [of "t @ [e]"] Cons.prems by simp
  qed simp
  from this [of "[]"] assms show ?thesis by (simp add: mutable_tree_from_entries_def)
qed

text \<open>
  C33. However entries are added to a mutable tree, its entries stay in git's canonical order, with
  no two entries of the same name and kind, so that equal trees have equal bytes; and a tree that was
  stored in that order is rebuilt unchanged (the consistency the debug assertion of
  \<open>MutableTree::deserialize_sized\<close> checks).
\<close>

theorem mutable_tree_canonical:
  assumes "list_all named_entry es"
  shows "git_sorted (mutable_tree_from_entries es)
    \<and> (git_sorted es \<longrightarrow> mutable_tree_from_entries es = es)"
  using assms mutable_tree_invariant [of "[]" es] mutable_tree_of_sorted [of es]
  by (simp add: mutable_tree_from_entries_def git_sorted_def)

theorem mutable_tree_canonical_witness:
  "\<exists>es. length es = 2 \<and> git_sorted (mutable_tree_from_entries es)
    \<and> mutable_tree_from_entries es =
        [\<lparr>te_mode = REG, te_path = BitPath (bytes_of ''foo.c''), te_oid = EMPTY_BLOB\<rparr>,
         \<lparr>te_mode = TREE, te_path = BitPath (bytes_of ''foo''), te_oid = EMPTY_TREE\<rparr>]"
proof -
  let ?es = "[\<lparr>te_mode = TREE, te_path = BitPath (bytes_of ''foo''), te_oid = EMPTY_TREE\<rparr>,
              \<lparr>te_mode = REG, te_path = BitPath (bytes_of ''foo.c''), te_oid = EMPTY_BLOB\<rparr>]"
  have "list_all named_entry ?es" by (simp add: named_entry_def valid_name_def)
  note canon = mutable_tree_canonical [OF this]
  show ?thesis
    by (rule exI [of _ ?es]) (use canon in \<open>simp add: mutable_tree_from_entries_def entry_cmp_def
        path_cmp_explicit_def ord_cmp_def Let_def\<close>)
qed

end
