(* ===== verification/Bit_Index_Entry.thy ===== *)
theory Bit_Index_Entry
  imports Bit_Signature Bit_Tree
begin

unbundle bit_operations_syntax

text \<open>
  Entries of the index file, \<^verbatim>\<open>libbit/src/index/index_entry.rs\<close> and the merge stages of
  \<^verbatim>\<open>libbit/src/index.rs\<close>: the flag word with its bit fields, the entry record with its stat data,
  the padded binary form and its reader. The file system is a parameter (\<open>lstat\<close>).
\<close>

section \<open>Merge stages and flags\<close>

datatype merge_stage = NONE | BASE | OURS | THEIRS

fun stage_u8 :: "merge_stage \<Rightarrow> byte" where
  "stage_u8 NONE = 0" | "stage_u8 BASE = 1" | "stage_u8 OURS = 2" | "stage_u8 THEIRS = 3"

definition stage_try_from :: "byte \<Rightarrow> merge_stage option" where
  "stage_try_from u =
     (if u = 0 then Some NONE else if u = 1 then Some BASE else if u = 2 then Some OURS
      else if u = 3 then Some THEIRS else None)"

definition stage_is_unmerged :: "merge_stage \<Rightarrow> bool" where
  "stage_is_unmerged s \<longleftrightarrow> stage_u8 s > 0"

text \<open>The derived order is that of the discriminants.\<close>

instantiation merge_stage :: linorder
begin

definition less_eq_merge_stage :: "merge_stage \<Rightarrow> merge_stage \<Rightarrow> bool" where
  "less_eq_merge_stage a b \<longleftrightarrow> stage_u8 a \<le> stage_u8 b"

definition less_merge_stage :: "merge_stage \<Rightarrow> merge_stage \<Rightarrow> bool" where
  "less_merge_stage a b \<longleftrightarrow> stage_u8 a < stage_u8 b"

instance
proof
  fix x y z :: merge_stage
  show "(x < y) = (x \<le> y \<and> \<not> y \<le> x)" by (auto simp: less_merge_stage_def less_eq_merge_stage_def)
  show "x \<le> x" by (simp add: less_eq_merge_stage_def)
  show "x \<le> y \<Longrightarrow> y \<le> z \<Longrightarrow> x \<le> z" by (simp add: less_eq_merge_stage_def)
  show "x \<le> y \<or> y \<le> x" by (auto simp: less_eq_merge_stage_def)
  show "x \<le> y \<Longrightarrow> y \<le> x \<Longrightarrow> x = y" by (cases x; cases y) (simp_all add: less_eq_merge_stage_def word_le_nat_alt)
qed

end

lemma NONE_least [simp]: "NONE \<le> s" "\<not> s < NONE"
  by (cases s; simp add: less_eq_merge_stage_def less_merge_stage_def)+

text \<open>\<open>BitIndexEntryFlags\<close>: bit 15 assume-valid, bit 14 extended, bits 13 and 12 stage, the rest path length.\<close>

type_synonym entry_flags = u16

definition with_path_len :: "nat \<Rightarrow> entry_flags" where
  "with_path_len n = min 0xFFF (of_nat n)"

definition assume_valid :: "entry_flags \<Rightarrow> bool" where
  "assume_valid f \<longleftrightarrow> f AND (push_bit 15 1) \<noteq> 0"

definition extended :: "entry_flags \<Rightarrow> bool" where
  "extended f \<longleftrightarrow> f AND (push_bit 14 1) \<noteq> 0"

definition flags_stage_opt :: "entry_flags \<Rightarrow> merge_stage option" where
  "flags_stage_opt f = stage_try_from (ucast (drop_bit 12 (f AND 0x3000)))"

text \<open>\<open>stage\<close> unwraps the conversion, which never fails (\<open>flags_stage_total\<close> below).\<close>

definition flags_stage :: "entry_flags \<Rightarrow> merge_stage" where
  "flags_stage f = the (flags_stage_opt f)"

definition flags_set_stage :: "entry_flags \<Rightarrow> merge_stage \<Rightarrow> entry_flags" where
  "flags_set_stage f s = (f AND NOT 0x3000) OR push_bit 12 (ucast (stage_u8 s))"

definition flags_path_len :: "entry_flags \<Rightarrow> u16" where
  "flags_path_len f = f AND 0x0FFF"

section \<open>Entries\<close>

record index_entry =
  ie_ctime :: timespec
  ie_mtime :: timespec
  ie_device :: u32
  ie_inode :: u32
  ie_mode :: file_mode
  ie_uid :: u32
  ie_gid :: u32
  ie_filesize :: u32
  ie_oid :: oid
  ie_flags :: entry_flags
  ie_ext_flags :: u16
  ie_path :: bit_path

definition UNKNOWN_SIZE :: u32 where
  "UNKNOWN_SIZE = 0xFFFFFFFF"

definition entry_stage :: "index_entry \<Rightarrow> merge_stage" where
  "entry_stage e = flags_stage (ie_flags e)"

definition entry_set_stage :: "index_entry \<Rightarrow> merge_stage \<Rightarrow> index_entry" where
  "entry_set_stage e s = e\<lparr>ie_flags := flags_set_stage (ie_flags e) s\<rparr>"

definition entry_is_unmerged :: "index_entry \<Rightarrow> bool" where
  "entry_is_unmerged e \<longleftrightarrow> stage_is_unmerged (entry_stage e)"

type_synonym entry_key = "bit_path \<times> merge_stage"

definition entry_key :: "index_entry \<Rightarrow> entry_key" where
  "entry_key e = (ie_path e, entry_stage e)"

definition entry_from_tree_entry :: "tree_entry \<Rightarrow> index_entry" where
  "entry_from_tree_entry te =
     \<lparr>ie_ctime = timespec_zero, ie_mtime = timespec_zero, ie_device = 0, ie_inode = 0, ie_mode = te_mode te,
      ie_uid = 0, ie_gid = 0, ie_filesize = UNKNOWN_SIZE, ie_oid = te_oid te,
      ie_flags = with_path_len (path_len (te_path te)), ie_ext_flags = 0, ie_path = te_path te\<rparr>"

definition is_filled :: "index_entry \<Rightarrow> bool" where
  "is_filled e \<longleftrightarrow> ie_inode e \<noteq> 0 \<and> ie_filesize e \<noteq> UNKNOWN_SIZE"

text \<open>What \<open>symlink_metadata\<close> tells of a file, beside what its mode depends on.\<close>

record stat = metadata +
  st_ctime :: "int \<times> int"
  st_mtime :: "int \<times> int"
  st_dev :: u64
  st_ino :: u64
  st_uid :: u32
  st_gid :: u32
  st_size :: u64

definition entry_new :: "stat \<Rightarrow> bit_path \<Rightarrow> index_entry" where
  "entry_new md p =
     \<lparr>ie_ctime = timespec_new_i64 (fst (st_ctime md)) (snd (st_ctime md)),
      ie_mtime = timespec_new_i64 (fst (st_mtime md)) (snd (st_mtime md)),
      ie_device = ucast (st_dev md), ie_inode = ucast (st_ino md),
      ie_mode = file_mode_from_metadata (metadata.truncate md),
      ie_uid = st_uid md, ie_gid = st_gid md, ie_filesize = ucast (st_size md), ie_oid = UNKNOWN,
      ie_flags = with_path_len (path_len p), ie_ext_flags = 0, ie_path = p\<rparr>"

definition from_relative_path :: "(bit_path \<Rightarrow> stat bit_result) \<Rightarrow> bit_path \<Rightarrow> index_entry bit_result" where
  "from_relative_path lstat p = and_then (lstat p) (\<lambda>md. Inr (entry_new md p))"

definition fill :: "(bit_path \<Rightarrow> stat bit_result) \<Rightarrow> index_entry \<Rightarrow> index_entry bit_result" where
  "fill lstat e =
     (if \<not> is_filled e
      then and_then (from_relative_path lstat (ie_path e)) (\<lambda>e'. Inr (e'\<lparr>ie_oid := ie_oid e\<rparr>))
      else Inr e)"

definition ENTRY_SIZE_WITHOUT_FILEPATH :: nat where
  "ENTRY_SIZE_WITHOUT_FILEPATH = 8 + 8 + 4 + 4 + 4 + 4 + 4 + 4 + OID_SIZE + 2"

definition padding_len_for_filepath :: "nat \<Rightarrow> bool \<Rightarrow> nat" where
  "padding_len_for_filepath filepath_len is_extended =
     (let entry_size = ENTRY_SIZE_WITHOUT_FILEPATH + filepath_len + (if is_extended then 2 else 0);
          next_multiple_of_8 = ((entry_size + 8) div 8) * 8
      in next_multiple_of_8 - entry_size)"

definition padding_len :: "index_entry \<Rightarrow> nat" where
  "padding_len e = padding_len_for_filepath (path_len (ie_path e)) (extended (ie_flags e))"

text \<open>\<open>serialize\<close> asserts a relative path and then writes \<open>entry_bytes\<close>.\<close>

definition entry_bytes :: "index_entry \<Rightarrow> byte list" where
  "entry_bytes e =
     write_timespec (ie_ctime e) @ write_timespec (ie_mtime e) @ write_u32 (ie_device e)
     @ write_u32 (ie_inode e) @ write_u32 (as_u32 (ie_mode e)) @ write_u32 (ie_uid e)
     @ write_u32 (ie_gid e) @ write_u32 (ie_filesize e) @ write_oid (ie_oid e) @ write_u16 (ie_flags e)
     @ (if extended (ie_flags e) then write_u16 (ie_ext_flags e) else [])
     @ path_bytes (ie_path e) @ replicate (padding_len e) b_nul"

definition entry_serialize :: "index_entry \<Rightarrow> byte list bit_result" where
  "entry_serialize e = (if is_relative (ie_path e) then Inr (entry_bytes e) else Inl Panic)"

text \<open>
  \<open>read_null_terminated_path_skip_n\<close>: \<open>n\<close> bytes unseen, then up to the null byte, whose place is cut
  off.
\<close>

definition read_path_skip_n :: "nat \<Rightarrow> bit_path reader" where
  "read_path_skip_n n =
     rd_bind (read_exact n) (\<lambda>pre bs.
       let (rest, bs') = read_until b_nul bs
       in and_then (drop_delim (pre @ rest)) (\<lambda>p. Inr (BitPath p, bs')))"

definition entry_deserialize :: "index_entry reader" where
  "entry_deserialize =
     rd_bind read_timespec (\<lambda>ctime. rd_bind read_timespec (\<lambda>mtime.
     rd_bind read_u32 (\<lambda>device. rd_bind read_u32 (\<lambda>inode.
     rd_bind read_u32 (\<lambda>m. rd_bind (rd_lift (file_mode_new m)) (\<lambda>mode.
     rd_bind read_u32 (\<lambda>uid. rd_bind read_u32 (\<lambda>gid.
     rd_bind read_u32 (\<lambda>filesize. rd_bind read_oid (\<lambda>o'.
     rd_bind read_u16 (\<lambda>flags.
     rd_bind (if extended flags then read_u16 else rd_return 0) (\<lambda>ext.
     rd_bind (read_path_skip_n (unat (flags_path_len flags))) (\<lambda>path.
       let e = \<lparr>ie_ctime = ctime, ie_mtime = mtime, ie_device = device, ie_inode = inode, ie_mode = mode,
                ie_uid = uid, ie_gid = gid, ie_filesize = filesize, ie_oid = o', ie_flags = flags,
                ie_ext_flags = ext, ie_path = path\<rparr>
       in rd_bind (read_exact (padding_len e - 1)) (\<lambda>_. rd_return e))))))))))))))"

section \<open>Flags\<close>

lemma stage_field_le: "unat (drop_bit 12 ((f::u16) AND 0x3000)) \<le> 3"
proof -
  have "f AND 0x3000 \<le> 0x3000" by (rule word_and_le1)
  then have "unat (f AND 0x3000) \<le> 0x3000" by (simp add: word_le_nat_alt)
  then have "unat (f AND 0x3000) div 4096 \<le> 0x3000 div 4096" by (rule div_le_mono)
  then show ?thesis by (simp add: drop_bit_eq_div unat_div)
qed

lemma stage_try_from_total: "unat u \<le> 3 \<Longrightarrow> \<exists>s. stage_try_from u = Some s"
proof -
  assume "unat u \<le> 3"
  then have "unat u = unat (0::byte) \<or> unat u = unat (1::byte) \<or> unat u = unat (2::byte) \<or> unat u = unat (3::byte)"
    by auto
  then have "u = 0 \<or> u = 1 \<or> u = 2 \<or> u = 3" by (simp only: word_unat_eq_iff [symmetric])
  then show ?thesis by (auto simp: stage_try_from_def)
qed

lemma flags_stage_total: "\<exists>s. flags_stage_opt f = Some s"
  unfolding flags_stage_opt_def
proof (rule stage_try_from_total)
  have "unat (ucast (drop_bit 12 (f AND 0x3000)) :: byte) \<le> unat (drop_bit 12 (f AND 0x3000))"
    by (simp add: unsigned_ucast_eq take_bit_nat_less_eq_self)
  then show "unat (ucast (drop_bit 12 (f AND 0x3000)) :: byte) \<le> 3" using stage_field_le [of f] by linarith
qed

lemma set_stage_fields:
  fixes f :: u16
  shows "flags_set_stage f s AND 0x3000 = push_bit 12 (ucast (stage_u8 s))"
    and "flags_set_stage f s AND 0xCFFF = f AND 0xCFFF"
proof -
  have s: "(push_bit 12 (ucast (stage_u8 s)) :: u16) AND 0x3000 = push_bit 12 (ucast (stage_u8 s))"
    "(push_bit 12 (ucast (stage_u8 s)) :: u16) AND 0xCFFF = 0"
    by (cases s; simp add: ucast_eq)+
  have n: "(NOT 0x3000 :: u16) AND 0x3000 = 0" "(NOT 0x3000 :: u16) AND 0xCFFF = 0xCFFF" by simp_all
  show "flags_set_stage f s AND 0x3000 = push_bit 12 (ucast (stage_u8 s))"
    "flags_set_stage f s AND 0xCFFF = f AND 0xCFFF"
    unfolding flags_set_stage_def bit.conj_disj_distrib2 and.assoc s n by simp_all
qed

text \<open>
  C38. \<open>set_stage\<close> writes exactly the stage field: \<open>stage\<close> then reads the stage that was set (so the
  assertion in the code holds), and the assume-valid bit, the extended bit and the path length are
  those of before. Reading the stage never fails on any flag word.
\<close>

theorem set_stage_frame:
  "flags_stage_opt (flags_set_stage f s) = Some s
   \<and> assume_valid (flags_set_stage f s) = assume_valid f
   \<and> extended (flags_set_stage f s) = extended f
   \<and> flags_path_len (flags_set_stage f s) = flags_path_len f
   \<and> flags_stage_opt f \<noteq> None"
proof -
  have part: "flags_set_stage f s AND m = f AND m" if "m = 0xCFFF AND m" for m
    using set_stage_fields(2) [of f s] that by (metis and.assoc)
  have "flags_stage_opt (flags_set_stage f s) = Some s"
    unfolding flags_stage_opt_def set_stage_fields(1)
    by (cases s) (simp_all add: ucast_eq stage_try_from_def)
  moreover have "flags_set_stage f s AND push_bit 15 1 = f AND push_bit 15 1"
    "flags_set_stage f s AND push_bit 14 1 = f AND push_bit 14 1"
    "flags_set_stage f s AND 0xFFF = f AND 0xFFF"
    by (rule part; simp)+
  ultimately show ?thesis
    using flags_stage_total [of f] by (simp add: assume_valid_def extended_def flags_path_len_def del: push_bit_of_1)
qed

lemma flags_stage_set [simp]: "flags_stage (flags_set_stage f s) = s"
  unfolding flags_stage_def flags_stage_opt_def set_stage_fields(1)
  by (cases s) (simp_all add: ucast_eq stage_try_from_def)

lemma with_path_len_le: "n < 2 ^ 16 \<Longrightarrow> unat (with_path_len n) = min 0xFFF n"
  by (simp add: with_path_len_def min_def word_le_nat_alt unat_of_nat)

lemma with_path_len_bound: "with_path_len n \<le> 0xFFF"
  by (simp add: with_path_len_def)

lemma and_mask_small:
  fixes x :: u16
  assumes "x \<le> 0xFFF"
  shows "x AND 0xFFF = x" "x AND 0x3000 = 0" "x AND 0x4000 = 0"
proof -
  have m: "(0xFFF::u16) = mask 12" by (simp add: mask_eq_exp_minus_1)
  have "x < 2 ^ 12" using assms by (simp add: word_le_nat_alt word_less_nat_alt)
  then show e: "x AND 0xFFF = x" unfolding m by (rule less_mask_eq)
  have "x AND 0x3000 = x AND (0xFFF AND 0x3000)" "x AND 0x4000 = x AND (0xFFF AND 0x4000)"
    using e by (metis and.assoc)+
  then show "x AND 0x3000 = 0" "x AND 0x4000 = 0" by simp_all
qed

lemma with_path_len_fields:
  "flags_stage (with_path_len n) = NONE" "\<not> extended (with_path_len n)"
  "flags_path_len (with_path_len n) = with_path_len n"
  using and_mask_small [OF with_path_len_bound [of n]]
  by (simp_all add: flags_stage_def flags_stage_opt_def stage_try_from_def extended_def flags_path_len_def)

section \<open>The binary form\<close>

lemma pad_to_8: "0 < (s + 8) div 8 * 8 - s" "(s + 8) div 8 * 8 - s \<le> 8" "(s + ((s + 8) div 8 * 8 - s)) mod 8 = 0"
  for s :: nat
proof -
  show "0 < (s + 8) div 8 * 8 - s" "(s + 8) div 8 * 8 - s \<le> 8" by linarith+
  then have "s + ((s + 8) div 8 * 8 - s) = (s + 8) div 8 * 8" by linarith
  then show "(s + ((s + 8) div 8 * 8 - s)) mod 8 = 0" by (simp only: mod_mult_self2_is_0)
qed

lemma padding_bounds: "0 < padding_len e" "padding_len e \<le> 8"
  unfolding padding_len_def padding_len_for_filepath_def Let_def by (rule pad_to_8)+

definition index_entry_valid :: "index_entry \<Rightarrow> bool" where
  "index_entry_valid e \<longleftrightarrow>
     oid_wf (ie_oid e) \<and> b_nul \<notin> set (path_bytes (ie_path e))
     \<and> unat (flags_path_len (ie_flags e)) \<le> path_len (ie_path e)
     \<and> (\<not> extended (ie_flags e) \<longrightarrow> ie_ext_flags e = 0)"

lemma length_entry_bytes:
  assumes "oid_wf (ie_oid e)"
  shows "length (entry_bytes e) mod 8 = 0"
proof -
  define s where "s = ENTRY_SIZE_WITHOUT_FILEPATH + path_len (ie_path e) + (if extended (ie_flags e) then 2 else 0)"
  have "length (entry_bytes e) = s + padding_len e"
    using assms by (simp add: entry_bytes_def s_def ENTRY_SIZE_WITHOUT_FILEPATH_def OID_SIZE_def write_oid_def
        oid_wf_def path_len_def)
  moreover have "padding_len e = (s + 8) div 8 * 8 - s"
    by (simp only: s_def padding_len_def padding_len_for_filepath_def Let_def)
  ultimately show ?thesis by (simp only: pad_to_8(3))
qed

lemma read_path_skip_n_hit:
  assumes "n \<le> length p" "b_nul \<notin> set p"
  shows "read_path_skip_n n (p @ b_nul # rest) = Inr (BitPath p, rest)"
proof -
  have p: "p @ b_nul # rest = take n p @ drop n p @ b_nul # rest" by simp
  have "b_nul \<notin> set (drop n p)" using assms(2) by (meson in_set_dropD)
  then have "read_until b_nul (drop n p @ b_nul # rest) = (drop n p @ [b_nul], rest)" by (rule read_until_hit)
  moreover have "drop_delim (take n p @ drop n p @ [b_nul]) = Inr p"
    by (simp add: drop_delim_def append_assoc [symmetric] del: append_assoc)
  ultimately show ?thesis
    unfolding p read_path_skip_n_def rd_bind_apply using assms(1) by simp
qed

lemma index_entry_roundtrip_aux:
  assumes "index_entry_valid e"
  shows "entry_deserialize (entry_bytes e @ rest) = Inr (e, rest)"
proof -
  obtain k where k: "padding_len e = Suc k" using padding_bounds(1) [of e] by (cases "padding_len e") auto
  have path: "read_path_skip_n (unat (flags_path_len (ie_flags e)))
      (path_bytes (ie_path e) @ b_nul # replicate k b_nul @ rest) = Inr (ie_path e, replicate k b_nul @ rest)"
    using assms read_path_skip_n_hit by (simp add: index_entry_valid_def path_len_def)
  have oid: "read_oid (write_oid (ie_oid e) @ bs) = Inr (ie_oid e, bs)" for bs
    using assms oid_codec.roundtrip by (simp add: index_entry_valid_def)
  have ret: "rd_return x bs = Inr (x, bs)" for x :: index_entry and bs by (simp add: rd_return_def)
  have ext: "(if extended (ie_flags e) then read_u16 else rd_return 0)
      ((if extended (ie_flags e) then write_u16 (ie_ext_flags e) else []) @ bs) = Inr (ie_ext_flags e, bs)" for bs
    using assms by (simp add: index_entry_valid_def rd_return_def)
  have e: "\<lparr>ie_ctime = ie_ctime e, ie_mtime = ie_mtime e, ie_device = ie_device e, ie_inode = ie_inode e,
      ie_mode = ie_mode e, ie_uid = ie_uid e, ie_gid = ie_gid e, ie_filesize = ie_filesize e, ie_oid = ie_oid e,
      ie_flags = ie_flags e, ie_ext_flags = ie_ext_flags e, ie_path = ie_path e\<rparr> = e" by simp
  show ?thesis
    unfolding entry_deserialize_def entry_bytes_def k
    by (simp only: append_assoc replicate_Suc append_Cons append_Nil rd_bind_apply int_codec_simps
        timespec_codec.roundtrip [OF TrueI] and_then_Inr case_prod_conv rd_lift_def file_mode_new_as_u32
        oid ext path Let_def e k diff_Suc_1 read_exact_append length_replicate ret)
qed

interpretation index_entry_codec: codec entry_bytes entry_deserialize index_entry_valid
  by unfold_locales (rule index_entry_roundtrip_aux)

text \<open>
  An index entry is written as a multiple of eight bytes with one to eight null bytes at its
  end, and the reader, which skips the number of path bytes the flags announce and looks for the
  null byte behind them, returns exactly the entry and stops behind its padding: extended flags
  and paths longer than the twelve-bit length field included.
\<close>

theorem index_entry_roundtrip:
  assumes "index_entry_valid e" "is_relative (ie_path e)"
  shows "\<exists>bs. entry_serialize e = Inr bs \<and> length bs mod 8 = 0
     \<and> 0 < padding_len e \<and> padding_len e \<le> 8 \<and> (\<forall>rest. entry_deserialize (bs @ rest) = Inr (e, rest))"
  using assms padding_bounds [of e] index_entry_codec.roundtrip [OF assms(1)] length_entry_bytes [of e]
  by (simp add: entry_serialize_def index_entry_valid_def)

lemma with_path_len_self: "unat (with_path_len n) \<le> n"
  by (simp add: with_path_len_def min_def word_le_nat_alt unat_of_nat) linarith

lemma entry_new_valid:
  "b_nul \<notin> set (path_bytes p) \<Longrightarrow> index_entry_valid (entry_new md p)"
  using with_path_len_self [of "path_len p"]
  by (simp add: index_entry_valid_def entry_new_def with_path_len_fields oid_wf_def UNKNOWN_def OID_SIZE_def)

lemma entry_from_tree_entry_valid:
  "b_nul \<notin> set (path_bytes (te_path te)) \<Longrightarrow> oid_wf (te_oid te) \<Longrightarrow> index_entry_valid (entry_from_tree_entry te)"
  using with_path_len_self [of "path_len (te_path te)"]
  by (simp add: index_entry_valid_def entry_from_tree_entry_def with_path_len_fields)

definition sample_entry :: index_entry where
  "sample_entry =
     entry_from_tree_entry \<lparr>te_mode = EXEC, te_path = BitPath (bytes_of ''src/lib.rs''), te_oid = EMPTY_BLOB\<rparr>"

lemma sample_entry_valid: "index_entry_valid sample_entry"
  unfolding sample_entry_def
  by (rule entry_from_tree_entry_valid) (simp_all add: oid_wf_def EMPTY_BLOB_def OID_SIZE_def)

theorem index_entry_roundtrip_witness:
  "\<exists>bs. entry_serialize sample_entry = Inr bs \<and> length bs mod 8 = 0
     \<and> 0 < padding_len sample_entry \<and> padding_len sample_entry \<le> 8
     \<and> (\<forall>rest. entry_deserialize (bs @ rest) = Inr (sample_entry, rest))"
  by (rule index_entry_roundtrip [OF sample_entry_valid])
    (simp add: sample_entry_def entry_from_tree_entry_def is_relative_def is_absolute_def)

end
