(* ===== verification/Bit_Tree_Cache.thy ===== *)
theory Bit_Tree_Cache
  imports Bit_Tree
begin

text \<open>
  The tree cache of the index, \<^verbatim>\<open>libbit/src/index/tree_cache.rs\<close>: the tree of cached tree objects,
  lookup and invalidation along a path, reading it from the object database, updating it in place, and
  its text form. The children are an association list in the order of insertion; the object database
  is the parameter \<open>read_obj_tree\<close>, which gives the entries of a tree object.
\<close>

section \<open>Model\<close>

datatype tree_cache =
  TreeCache (tc_path: bit_path) (tc_oid: oid) (tc_count: int) (tc_children: "(bit_path \<times> tree_cache) list")

definition tree_cache_default :: tree_cache where
  "tree_cache_default = TreeCache (BitPath []) UNKNOWN (- 1) []"

text \<open>Insertion into the map of children: a known key keeps its place.\<close>

fun child_insert :: "bit_path \<Rightarrow> 'a \<Rightarrow> (bit_path \<times> 'a) list \<Rightarrow> (bit_path \<times> 'a) list" where
  "child_insert k v [] = [(k, v)]"
| "child_insert k v ((j, w) # m) = (if j = k then (k, v) # m else (j, w) # child_insert k v m)"

definition children_from_list :: "(bit_path \<times> 'a) list \<Rightarrow> (bit_path \<times> 'a) list" where
  "children_from_list kvs = foldl (\<lambda>m (k, v). child_insert k v m) [] kvs"

fun find_child_internal :: "tree_cache \<Rightarrow> bit_path list \<Rightarrow> tree_cache option" where
  "find_child_internal tc [] = Some tc"
| "find_child_internal tc (c # cs) =
     (case map_of (tc_children tc) c of None \<Rightarrow> None | Some child \<Rightarrow> find_child_internal child cs)"

definition find_child :: "tree_cache \<Rightarrow> bit_path \<Rightarrow> tree_cache option" where
  "find_child tc p = find_child_internal tc (bit_path_components p)"

definition find_valid_child :: "tree_cache \<Rightarrow> bit_path \<Rightarrow> tree_cache option" where
  "find_valid_child tc p =
     (case find_child tc p of
        Some child \<Rightarrow> if tc_count child > 0 then Some child else None
      | None \<Rightarrow> None)"

definition tc_invalidate :: "tree_cache \<Rightarrow> tree_cache" where
  "tc_invalidate tc = TreeCache (tc_path tc) UNKNOWN (- 1) (tc_children tc)"

fun invalidate_path_internal :: "tree_cache \<Rightarrow> bit_path list \<Rightarrow> tree_cache" where
  "invalidate_path_internal tc [] = tc_invalidate tc"
| "invalidate_path_internal tc (c # cs) =
     (case map_of (tc_children tc) c of
        None \<Rightarrow> tc_invalidate tc
      | Some child \<Rightarrow>
          TreeCache (tc_path tc) UNKNOWN (- 1)
            (child_insert c (invalidate_path_internal child cs) (tc_children tc)))"

definition invalidate_path :: "tree_cache \<Rightarrow> bit_path \<Rightarrow> tree_cache" where
  "invalidate_path tc p = invalidate_path_internal tc (bit_path_components p)"

definition tc_is_valid :: "tree_cache \<Rightarrow> bool" where
  "tc_is_valid tc \<longleftrightarrow> tc_count tc \<ge> 0"

fun is_fully_valid :: "tree_cache \<Rightarrow> bool" where
  "is_fully_valid (TreeCache p o' n ch) \<longleftrightarrow>
     n \<ge> 0 \<and> list_all (\<lambda>(k, child). is_fully_valid child) ch"

text \<open>
  \<open>read_tree_internal\<close> and \<open>update_internal\<close> descend from tree object to tree object. The argument
  \<open>fuel\<close> bounds the depth; with too little the result is \<open>Diverge\<close>. A tree object is its
  identifier and its entries. The loop over the entries keeps the count and the children.
\<close>

type_synonym tree_reader = "oid \<Rightarrow> tree_entry list bit_result"

definition read_tree_step ::
  "(oid \<Rightarrow> tree_entry list \<Rightarrow> bit_path \<Rightarrow> tree_cache bit_result) \<Rightarrow> tree_reader
   \<Rightarrow> int \<times> (bit_path \<times> tree_cache) list \<Rightarrow> tree_entry \<Rightarrow> (int \<times> (bit_path \<times> tree_cache) list) bit_result" where
  "read_tree_step rec rd = (\<lambda>(n, ch) e.
     case te_mode e of
       TREE \<Rightarrow>
         and_then (rd (te_oid e)) (\<lambda>sub.
         and_then (rec (te_oid e) sub (te_path e)) (\<lambda>child.
           Inr (n + tc_count child, child_insert (te_path e) child ch)))
     | GITLINK \<Rightarrow> Inl Panic
     | _ \<Rightarrow> Inr (n + 1, ch))"

fun read_tree_internal :: "nat \<Rightarrow> tree_reader \<Rightarrow> oid \<Rightarrow> tree_entry list \<Rightarrow> bit_path \<Rightarrow> tree_cache bit_result" where
  "read_tree_internal 0 rd o' es p = Inl Diverge"
| "read_tree_internal (Suc fuel) rd o' es p =
     and_then (try_fold (read_tree_step (read_tree_internal fuel rd) rd) (0, []) es)
       (\<lambda>(n, ch). Inr (TreeCache p o' n ch))"

definition read_tree_cache :: "nat \<Rightarrow> tree_reader \<Rightarrow> oid \<Rightarrow> tree_cache bit_result" where
  "read_tree_cache fuel rd o' =
     and_then (rd o') (\<lambda>es. read_tree_internal fuel rd o' es (BitPath []))"

text \<open>
  \<open>std::mem::take\<close> leaves the default behind in the old children, which a later entry of the same
  name would find.
\<close>

definition update_step ::
  "(oid \<Rightarrow> tree_entry list \<Rightarrow> bit_path \<Rightarrow> tree_cache bit_result)
   \<Rightarrow> (oid \<Rightarrow> tree_entry list \<Rightarrow> tree_cache \<Rightarrow> tree_cache bit_result) \<Rightarrow> tree_reader
   \<Rightarrow> int \<times> (bit_path \<times> tree_cache) list \<times> (bit_path \<times> tree_cache) list \<Rightarrow> tree_entry
   \<Rightarrow> (int \<times> (bit_path \<times> tree_cache) list \<times> (bit_path \<times> tree_cache) list) bit_result" where
  "update_step read upd rd = (\<lambda>(n, old, new) e.
     case te_mode e of
       TREE \<Rightarrow>
         (case map_of old (te_path e) of
            Some child \<Rightarrow>
              and_then
                (if \<not> tc_is_valid child \<or> tc_oid child \<noteq> te_oid e
                 then and_then (rd (te_oid e)) (\<lambda>sub. upd (te_oid e) sub child)
                 else Inr child)
                (\<lambda>child'. Inr (n, child_insert (te_path e) tree_cache_default old,
                               child_insert (te_path e) child' new))
          | None \<Rightarrow>
              and_then (rd (te_oid e)) (\<lambda>sub.
              and_then (read (te_oid e) sub (te_path e)) (\<lambda>child.
                Inr (n, old, child_insert (te_path e) child new))))
     | GITLINK \<Rightarrow> Inl Panic
     | _ \<Rightarrow> Inr (n + 1, old, new))"

definition child_sum :: "(bit_path \<times> tree_cache) list \<Rightarrow> int" where
  "child_sum ch = sum_list (map (\<lambda>(k, c). tc_count c) ch)"

fun update_internal :: "nat \<Rightarrow> tree_reader \<Rightarrow> oid \<Rightarrow> tree_entry list \<Rightarrow> tree_cache \<Rightarrow> tree_cache bit_result" where
  "update_internal 0 rd o' es tc = Inl Diverge"
| "update_internal (Suc fuel) rd o' es tc =
     and_then
       (try_fold (update_step (read_tree_internal fuel rd) (update_internal fuel rd) rd) (0, tc_children tc, []) es)
       (\<lambda>(n, old, new). Inr (TreeCache (tc_path tc) o' (n + child_sum new) new))"

definition tree_cache_update :: "nat \<Rightarrow> tree_reader \<Rightarrow> oid \<Rightarrow> tree_cache \<Rightarrow> tree_cache bit_result" where
  "tree_cache_update fuel rd o' tc =
     and_then (rd o') (\<lambda>es.
     and_then (ensure (tc_path tc = BitPath []) Panic) (\<lambda>_. update_internal fuel rd o' es tc))"

text \<open>The text form; an invalid node has no identifier.\<close>

fun tc_serialize :: "tree_cache \<Rightarrow> byte list" where
  "tc_serialize (TreeCache p o' n ch) =
     path_bytes p @ [b_nul] @ write_ascii_num n b_space @ write_ascii_num (int (length ch)) b_newline
     @ (if n \<ge> 0 then write_oid o' else []) @ concat (map (\<lambda>(k, c). tc_serialize c) ch)"

definition read_null_terminated_path :: "bit_path reader" where
  "read_null_terminated_path =
     rd_bind (read_delim b_nul) (\<lambda>s.
     rd_bind (rd_lift (ensure (utf8_valid s) (Bail ''stream did not contain valid UTF-8''))) (\<lambda>_.
       rd_return (BitPath s)))"

text \<open>
  \<open>deserialize_inner\<close> with the depth of the recursion bounded; every level takes a byte, so the
  length of the input is enough.
\<close>

fun tc_deserialize_fuel :: "nat \<Rightarrow> tree_cache reader" where
  "tc_deserialize_fuel 0 = rd_fail Diverge"
| "tc_deserialize_fuel (Suc fuel) =
     rd_bind read_null_terminated_path (\<lambda>path.
     rd_bind (read_ascii_num b_space) (\<lambda>entry_count.
     rd_bind (read_ascii_num b_newline) (\<lambda>children_count.
     rd_bind (if entry_count \<ge> 0 then read_oid else rd_return UNKNOWN) (\<lambda>o'.
     rd_bind (read_vec (tc_deserialize_fuel fuel) (nat (children_count mod 2 ^ 64))) (\<lambda>ch.
       rd_return (TreeCache path o' entry_count (children_from_list (map (\<lambda>c. (tc_path c, c)) ch))))))))"

definition tc_deserialize_inner :: "tree_cache reader" where
  "tc_deserialize_inner bs = tc_deserialize_fuel (Suc (length bs)) bs"

definition tc_deserialize :: "byte list \<Rightarrow> tree_cache bit_result" where
  "tc_deserialize bs =
     and_then (tc_deserialize_inner bs) (\<lambda>(tc, rest).
     and_then (ensure (rest = []) Panic) (\<lambda>_. Inr tc))"

section \<open>Lookup and invalidation\<close>

lemma map_of_child_insert: "map_of (child_insert k v m) j = (if j = k then Some v else map_of m j)"
  by (induction k v m rule: child_insert.induct) auto

lemma find_invalidate:
  "find_child_internal (invalidate_path_internal tc cs) ds =
     (case find_child_internal tc ds of
        None \<Rightarrow> None
      | Some t \<Rightarrow> if prefix ds cs then Some (invalidate_path_internal t (drop (length ds) cs)) else Some t)"
proof (induction ds arbitrary: tc cs)
  case (Cons d ds)
  show ?case
  proof (cases cs)
    case Nil
    then show ?thesis by (simp add: tc_invalidate_def split: option.splits)
  next
    case (Cons c cs')
    show ?thesis
    proof (cases "map_of (tc_children tc) c")
      case None
      then show ?thesis using Cons by (auto simp: tc_invalidate_def split: option.splits)
    next
      case (Some child)
      then show ?thesis using Cons Cons.IH [of child cs']
        by (auto simp: map_of_child_insert split: option.splits)
    qed
  qed
qed (simp split: option.splits)

text \<open>
  Invalidating a path makes exactly the nodes on the way to it invalid (count -1, no
  identifier) and leaves every other node, its identifier and count, and the shape of the cache as
  they were: a lookup of a path that does not lead to the invalidated one gives the same subtree.
\<close>

theorem invalidate_path_spec:
  "(\<not> prefix (bit_path_components q) (bit_path_components p) \<longrightarrow>
      find_child (invalidate_path tc p) q = find_child tc q)
   \<and> (prefix (bit_path_components q) (bit_path_components p) \<longrightarrow>
      find_valid_child (invalidate_path tc p) q = None
      \<and> map_option tc_path (find_child (invalidate_path tc p) q) = map_option tc_path (find_child tc q)
      \<and> (\<forall>t. find_child (invalidate_path tc p) q = Some t \<longrightarrow> tc_count t = - 1 \<and> tc_oid t = UNKNOWN))"
proof -
  have inv: "tc_count (invalidate_path_internal t cs) = - 1" "tc_oid (invalidate_path_internal t cs) = UNKNOWN"
    "tc_path (invalidate_path_internal t cs) = tc_path t" for t cs
    by (cases cs; simp add: tc_invalidate_def split: option.splits)+
  show ?thesis
    by (simp add: find_child_def find_valid_child_def invalidate_path_def find_invalidate inv split: option.split)
qed

section \<open>Updating in place\<close>

lemma child_insert_fresh: "k \<notin> fst ` set ch \<Longrightarrow> child_insert k v ch = ch @ [(k, v)]"
  by (induction ch) auto

lemma child_sum_snoc [simp]: "child_sum (ch @ [(k, c)]) = child_sum ch + tc_count c" "child_sum [] = 0"
  by (simp_all add: child_sum_def)

lemma try_fold_mono:
  assumes "\<And>s x t. x \<in> set xs \<Longrightarrow> f s x = Inr t \<Longrightarrow> g s x = Inr t" and "try_fold f s xs = Inr t"
  shows "try_fold g s xs = Inr t"
  using assms by (induction xs arbitrary: s) (auto simp: and_then_eq_Inr)

lemma read_tree_mono:
  "read_tree_internal fuel rd o' es p = Inr tc \<Longrightarrow> fuel \<le> fuel' \<Longrightarrow> read_tree_internal fuel' rd o' es p = Inr tc"
proof (induction fuel arbitrary: fuel' o' es p tc)
  case (Suc fuel)
  obtain f' where f': "fuel' = Suc f'" "fuel \<le> f'" using Suc.prems(2) by (cases fuel') auto
  have step: "read_tree_step (read_tree_internal f' rd) rd s e = Inr t"
    if "read_tree_step (read_tree_internal fuel rd) rd s e = Inr t" for s e t
    using that Suc.IH [OF _ f'(2)]
    by (auto simp: read_tree_step_def and_then_eq_Inr split: prod.splits file_mode.splits)
  from Suc.prems(1) obtain n ch where
    "try_fold (read_tree_step (read_tree_internal fuel rd) rd) (0, []) es = Inr (n, ch)" and tc: "tc = TreeCache p o' n ch"
    by (auto simp: and_then_eq_Inr)
  from this(1) have "try_fold (read_tree_step (read_tree_internal f' rd) rd) (0, []) es = Inr (n, ch)"
    by (rule try_fold_mono [rotated]) (rule step)
  then show ?case using f'(1) tc by simp
qed simp

text \<open>
  A cache agrees with the object database when each valid node is what reading its tree object
  gives, and the children are filed under their own paths.
\<close>

fun coherent :: "tree_reader \<Rightarrow> tree_cache \<Rightarrow> bool" where
  "coherent rd (TreeCache p o' n ch) \<longleftrightarrow>
     (\<forall>(k, c) \<in> set ch. tc_path c = k \<and> coherent rd c)
     \<and> (n \<ge> 0 \<longrightarrow> (\<exists>fuel es. rd o' = Inr es \<and> read_tree_internal fuel rd o' es p = Inr (TreeCache p o' n ch)))"

definition distinct_names :: "tree_reader \<Rightarrow> bool" where
  "distinct_names rd \<longleftrightarrow> (\<forall>o' es. rd o' = Inr es \<longrightarrow> distinct (map te_path es))"

lemma update_fold:
  assumes upd: "\<And>i sub c t. rd i = Inr sub \<Longrightarrow> coherent rd c \<Longrightarrow> read i sub (tc_path c) = Inr t \<Longrightarrow> upd i sub c = Inr t"
    and fresh: "\<And>i sub c t. rd i = Inr sub \<Longrightarrow> coherent rd c \<Longrightarrow> tc_is_valid c \<Longrightarrow> tc_oid c = i \<Longrightarrow>
        read i sub (tc_path c) = Inr t \<Longrightarrow> c = t"
    and "distinct (map te_path es)" "try_fold (read_tree_step read rd) (n + child_sum ch, ch) es = Inr (m, ch')"
    and "\<forall>e \<in> set es. te_path e \<notin> fst ` set ch"
    and "\<forall>e \<in> set es. \<forall>c. map_of old (te_path e) = Some c \<longrightarrow> tc_path c = te_path e \<and> coherent rd c"
  shows "\<exists>n' old'. try_fold (update_step read upd rd) (n, old, ch) es = Inr (n', old', ch') \<and> m = n' + child_sum ch'"
  using assms(3-)
proof (induction es arbitrary: n old ch)
  case (Cons e es)
  from Cons.prems(2) obtain s where
    s: "read_tree_step read rd (n + child_sum ch, ch) e = Inr s"
       "try_fold (read_tree_step read rd) s es = Inr (m, ch')" by (auto simp: and_then_eq_Inr)
  have e: "te_path e \<notin> fst ` set ch" using Cons.prems(3) by simp
  have other: "te_path f \<noteq> te_path e" if "f \<in> set es" for f
    using Cons.prems(1) that by (metis distinct.simps(2) imageI list.map(2) list.set_map)
  show ?case
  proof (cases "te_mode e = TREE")
    case False
    then have "s = (n + 1 + child_sum ch, ch)" "update_step read upd rd (n, old, ch) e = Inr (n + 1, old, ch)"
      using s(1) by (auto simp: read_tree_step_def update_step_def split: file_mode.splits)
    then show ?thesis using Cons.IH [of "n + 1" ch old] Cons.prems s(2) by simp
  next
    case True
    then obtain sub c where c: "rd (te_oid e) = Inr sub" "read (te_oid e) sub (te_path e) = Inr c"
      and sv: "s = (n + child_sum (ch @ [(te_path e, c)]), ch @ [(te_path e, c)])"
      using s(1) e by (auto simp: read_tree_step_def and_then_eq_Inr child_insert_fresh)
    have "\<exists>old'. update_step read upd rd (n, old, ch) e = Inr (n, old', ch @ [(te_path e, c)])
        \<and> (\<forall>k. k \<noteq> te_path e \<longrightarrow> map_of old' k = map_of old k)"
    proof (cases "map_of old (te_path e)")
      case None
      then show ?thesis using True c e by (simp add: update_step_def child_insert_fresh)
    next
      case (Some d)
      then have "tc_path d = te_path e" "coherent rd d" using Cons.prems(4) by auto
      then show ?thesis using True c e Some upd [of "te_oid e" sub d c] fresh [of "te_oid e" sub d c]
        by (auto simp: update_step_def child_insert_fresh map_of_child_insert)
    qed
    then obtain old' where step: "update_step read upd rd (n, old, ch) e = Inr (n, old', ch @ [(te_path e, c)])"
      and old': "\<And>k. k \<noteq> te_path e \<Longrightarrow> map_of old' k = map_of old k" by blast
    have "\<exists>n' old''. try_fold (update_step read upd rd) (n, old', ch @ [(te_path e, c)]) es = Inr (n', old'', ch')
        \<and> m = n' + child_sum ch'"
    proof (rule Cons.IH)
      show "try_fold (read_tree_step read rd) (n + child_sum (ch @ [(te_path e, c)]), ch @ [(te_path e, c)]) es = Inr (m, ch')"
        using s(2) sv by simp
      show "\<forall>f \<in> set es. \<forall>c. map_of old' (te_path f) = Some c \<longrightarrow> tc_path c = te_path f \<and> coherent rd c"
      proof (intro ballI allI impI)
        fix f c assume f: "f \<in> set es" "map_of old' (te_path f) = Some c"
        then have "te_path f \<noteq> te_path e" by (simp add: other)
        then show "tc_path c = te_path f \<and> coherent rd c" using f old' Cons.prems(4) by simp
      qed
    qed (use Cons.prems other in auto)
    then show ?thesis by (simp add: step)
  qed
qed simp

lemma update_is_read_aux:
  assumes "distinct_names rd" "rd o' = Inr es" "coherent rd tc"
    and "read_tree_internal fuel rd o' es (tc_path tc) = Inr t"
  shows "update_internal fuel rd o' es tc = Inr t"
  using assms(2-)
proof (induction fuel arbitrary: o' es tc t)
  case (Suc fuel)
  from Suc.prems(3) obtain m ch where
    fold: "try_fold (read_tree_step (read_tree_internal fuel rd) rd) (0 + child_sum [], []) es = Inr (m, ch)"
    and t: "t = TreeCache (tc_path tc) o' m ch" by (auto simp: and_then_eq_Inr)
  have "\<exists>n' old'. try_fold (update_step (read_tree_internal fuel rd) (update_internal fuel rd) rd) (0, tc_children tc, []) es
      = Inr (n', old', ch) \<and> m = n' + child_sum ch"
  proof (rule update_fold [OF _ _ _ fold])
    show "distinct (map te_path es)" using assms(1) Suc.prems(1) by (auto simp: distinct_names_def)
    show "\<forall>e \<in> set es. \<forall>c. map_of (tc_children tc) (te_path e) = Some c \<longrightarrow> tc_path c = te_path e \<and> coherent rd c"
      using Suc.prems(2) by (cases tc) (auto dest: map_of_SomeD)
    fix i sub c t'
    assume c: "rd i = Inr sub" "coherent rd c" "read_tree_internal fuel rd i sub (tc_path c) = Inr t'"
    then show "update_internal fuel rd i sub c = Inr t'" by (rule Suc.IH)
    assume "tc_is_valid c" "tc_oid c = i"
    then obtain f2 where "read_tree_internal f2 rd i sub (tc_path c) = Inr c"
      using c(1,2) by (cases c) (auto simp: tc_is_valid_def)
    then show "c = t'"
      using c(3) read_tree_mono [of f2 rd i sub "tc_path c" c "max fuel f2"]
        read_tree_mono [of fuel rd i sub "tc_path c" t' "max fuel f2"] by simp
  qed simp_all
  then show ?case using t by auto
qed simp

lemma set_child_insert: "set (child_insert k v ch) \<subseteq> insert (k, v) (set ch)"
  by (induction k v ch rule: child_insert.induct) auto

lemma read_tree_path: "read_tree_internal fuel rd o' es p = Inr t \<Longrightarrow> tc_path t = p"
  by (cases fuel) (auto simp: and_then_eq_Inr)

lemma read_tree_coherent:
  "rd o' = Inr es \<Longrightarrow> read_tree_internal fuel rd o' es p = Inr t \<Longrightarrow> coherent rd t"
proof (induction fuel arbitrary: o' es p t)
  case (Suc fuel)
  let ?ok = "\<lambda>ch. \<forall>(k, c) \<in> set ch. tc_path c = k \<and> coherent rd c"
  from Suc.prems(2) obtain n ch where
    fold: "try_fold (read_tree_step (read_tree_internal fuel rd) rd) (0, []) es = Inr (n, ch)"
    and t: "t = TreeCache p o' n ch" by (auto simp: and_then_eq_Inr)
  have "?ok (snd (n, ch))"
  proof (rule try_fold_invariant [OF fold])
    fix s e s' assume s: "e \<in> set es" "read_tree_step (read_tree_internal fuel rd) rd s e = Inr s'" "?ok (snd s)"
    show "?ok (snd s')"
    proof (cases "te_mode e = TREE")
      case True
      then obtain sub c where c: "rd (te_oid e) = Inr sub"
        "read_tree_internal fuel rd (te_oid e) sub (te_path e) = Inr c"
        "snd s' = child_insert (te_path e) c (snd s)"
        using s(2) by (auto simp: read_tree_step_def and_then_eq_Inr split: prod.splits)
      have "tc_path c = te_path e" "coherent rd c" using read_tree_path Suc.IH c(1,2) by blast+
      then show ?thesis using s(3) set_child_insert [of "te_path e" c "snd s"] c(3) by auto
    next
      case False
      then have "snd s' = snd s" using s(2) by (auto simp: read_tree_step_def split: prod.splits file_mode.splits)
      then show ?thesis using s(3) by simp
    qed
  qed simp
  moreover have "\<exists>f. read_tree_internal f rd o' es p = Inr t" using Suc.prems(2) by blast
  ultimately show ?case using t Suc.prems(1) by simp
qed simp

lemma invalidate_internal_path: "tc_path (invalidate_path_internal tc cs) = tc_path tc"
  by (cases cs) (auto simp: tc_invalidate_def split: option.splits)

lemma invalidate_coherent: "coherent rd tc \<Longrightarrow> coherent rd (invalidate_path_internal tc cs)"
proof (induction tc cs rule: invalidate_path_internal.induct)
  case (1 tc)
  then show ?case by (cases tc) (simp add: tc_invalidate_def)
next
  case (2 tc c cs)
  obtain p o' n ch where tc: "tc = TreeCache p o' n ch" by (cases tc)
  show ?case
  proof (cases "map_of ch c")
    case None
    then show ?thesis using 2(2) tc by (simp add: tc_invalidate_def)
  next
    case (Some child)
    note invalidate_internal_path [of child cs]
    moreover have "tc_path child = c" "coherent rd child" using Some 2(2) tc by (auto dest: map_of_SomeD)
    ultimately show ?thesis
      using 2 tc Some set_child_insert [of c "invalidate_path_internal child cs" ch] by auto
  qed
qed

lemma read_step_mono:
  assumes "read_tree_step (read_tree_internal f rd) rd s e = Inr s'" "f \<le> f'"
  shows "read_tree_step (read_tree_internal f' rd) rd s e = Inr s'"
  using assms(1) read_tree_mono [OF _ assms(2)]
  by (auto simp: read_tree_step_def and_then_eq_Inr split: prod.splits file_mode.splits)

text \<open>One step of the update is, with enough fuel, a step of the reading.\<close>

lemma update_step_read:
  assumes upd: "\<And>i sub c t. rd i = Inr sub \<Longrightarrow> coherent rd c \<Longrightarrow> update_internal fuel rd i sub c = Inr t \<Longrightarrow>
      \<exists>f. read_tree_internal f rd i sub (tc_path c) = Inr t"
    and step: "update_step (read_tree_internal fuel rd) (update_internal fuel rd) rd (n, old, ch) e = Inr (n', old', ch')"
    and fresh: "te_path e \<notin> fst ` set ch"
    and old: "\<And>c. map_of old (te_path e) = Some c \<Longrightarrow> tc_path c = te_path e \<and> coherent rd c"
  shows "\<exists>f. read_tree_step (read_tree_internal f rd) rd (n + child_sum ch, ch) e = Inr (n' + child_sum ch', ch')"
    and "fst ` set ch' \<subseteq> insert (te_path e) (fst ` set ch)"
    and "k \<noteq> te_path e \<Longrightarrow> map_of old' k = map_of old k"
proof -
  have "(\<exists>f. read_tree_step (read_tree_internal f rd) rd (n + child_sum ch, ch) e = Inr (n' + child_sum ch', ch'))
    \<and> fst ` set ch' \<subseteq> insert (te_path e) (fst ` set ch) \<and> (k \<noteq> te_path e \<longrightarrow> map_of old' k = map_of old k)"
  proof (cases "te_mode e = TREE")
    case False
    then show ?thesis using step by (auto simp: read_tree_step_def update_step_def split: file_mode.splits)
  next
    case tree: True
    show ?thesis
    proof (cases "map_of old (te_path e)")
      case None
      then show ?thesis using step tree fresh
        by (auto simp: read_tree_step_def update_step_def and_then_eq_Inr child_insert_fresh intro!: exI [of _ fuel])
    next
      case (Some d)
      note d = old [OF Some]
      obtain c where c: "n' = n" "ch' = ch @ [(te_path e, c)]" "old' = child_insert (te_path e) tree_cache_default old"
        and how: "(\<exists>sub. rd (te_oid e) = Inr sub \<and> update_internal fuel rd (te_oid e) sub d = Inr c)
          \<or> (tc_is_valid d \<and> tc_oid d = te_oid e \<and> c = d)"
        using step tree fresh Some
        by (auto simp: update_step_def and_then_eq_Inr child_insert_fresh split: if_splits)
      have "\<exists>sub f. rd (te_oid e) = Inr sub \<and> read_tree_internal f rd (te_oid e) sub (te_path e) = Inr c"
        using how
      proof
        assume "\<exists>sub. rd (te_oid e) = Inr sub \<and> update_internal fuel rd (te_oid e) sub d = Inr c"
        then show ?thesis using upd d by metis
      next
        assume "tc_is_valid d \<and> tc_oid d = te_oid e \<and> c = d"
        then show ?thesis using d by (cases d) (auto simp: tc_is_valid_def)
      qed
      then obtain sub f where "rd (te_oid e) = Inr sub" "read_tree_internal f rd (te_oid e) sub (te_path e) = Inr c" by blast
      then show ?thesis using tree fresh c
        by (auto simp: read_tree_step_def child_insert_fresh map_of_child_insert intro!: exI [of _ f])
    qed
  qed
  then show "\<exists>f. read_tree_step (read_tree_internal f rd) rd (n + child_sum ch, ch) e = Inr (n' + child_sum ch', ch')"
    "fst ` set ch' \<subseteq> insert (te_path e) (fst ` set ch)" "k \<noteq> te_path e \<Longrightarrow> map_of old' k = map_of old k"
    by auto
qed

lemma update_fold_read:
  assumes upd: "\<And>i sub c t. rd i = Inr sub \<Longrightarrow> coherent rd c \<Longrightarrow> update_internal fuel rd i sub c = Inr t \<Longrightarrow>
      \<exists>f. read_tree_internal f rd i sub (tc_path c) = Inr t"
    and "try_fold (update_step (read_tree_internal fuel rd) (update_internal fuel rd) rd) (n, old, ch) es = Inr (m, old', ch')"
    and "distinct (map te_path es)" "\<forall>e \<in> set es. te_path e \<notin> fst ` set ch"
    and "\<forall>e \<in> set es. \<forall>c. map_of old (te_path e) = Some c \<longrightarrow> tc_path c = te_path e \<and> coherent rd c"
  shows "\<exists>f. try_fold (read_tree_step (read_tree_internal f rd) rd) (n + child_sum ch, ch) es = Inr (m + child_sum ch', ch')"
  using assms(2-)
proof (induction es arbitrary: n old ch)
  case (Cons e es)
  obtain n1 old1 ch1 where
    step: "update_step (read_tree_internal fuel rd) (update_internal fuel rd) rd (n, old, ch) e = Inr (n1, old1, ch1)"
    and rest: "try_fold (update_step (read_tree_internal fuel rd) (update_internal fuel rd) rd) (n1, old1, ch1) es = Inr (m, old', ch')"
    using Cons.prems(1) by (auto simp: and_then_eq_Inr)
  have other: "te_path f \<noteq> te_path e" if "f \<in> set es" for f
    using Cons.prems(2) that by (metis distinct.simps(2) imageI list.map(2) list.set_map)
  have e: "te_path e \<notin> fst ` set ch" "\<And>c. map_of old (te_path e) = Some c \<Longrightarrow> tc_path c = te_path e \<and> coherent rd c"
    using Cons.prems(3,4) by auto
  have "\<exists>f. read_tree_step (read_tree_internal f rd) rd (n + child_sum ch, ch) e = Inr (n1 + child_sum ch1, ch1)"
    by (rule update_step_read(1) [OF _ step e]) (rule upd)
  then obtain f1 where
    f1: "read_tree_step (read_tree_internal f1 rd) rd (n + child_sum ch, ch) e = Inr (n1 + child_sum ch1, ch1)" by blast
  have keys: "fst ` set ch1 \<subseteq> insert (te_path e) (fst ` set ch)"
    by (rule update_step_read(2) [OF _ step e]) (rule upd)
  have old1: "map_of old1 k = map_of old k" if "k \<noteq> te_path e" for k
    using that by (rule update_step_read(3) [OF _ step e, rotated -1]) (rule upd)
  have "\<exists>f. try_fold (read_tree_step (read_tree_internal f rd) rd) (n1 + child_sum ch1, ch1) es = Inr (m + child_sum ch', ch')"
  proof (rule Cons.IH [OF rest])
    show "\<forall>f \<in> set es. te_path f \<notin> fst ` set ch1" using keys Cons.prems(3) other by (meson insertE list.set_intros(2) subsetD)
    show "\<forall>f \<in> set es. \<forall>c. map_of old1 (te_path f) = Some c \<longrightarrow> tc_path c = te_path f \<and> coherent rd c"
      using Cons.prems(4) by (simp add: old1 other)
  qed (use Cons.prems in auto)
  then obtain f2 where
    f2: "try_fold (read_tree_step (read_tree_internal f2 rd) rd) (n1 + child_sum ch1, ch1) es = Inr (m + child_sum ch', ch')" by blast
  have "try_fold (read_tree_step (read_tree_internal (max f1 f2) rd) rd) (n1 + child_sum ch1, ch1) es = Inr (m + child_sum ch', ch')"
    using f2 by (rule try_fold_mono [rotated]) (rule read_step_mono, auto)
  moreover have "read_tree_step (read_tree_internal (max f1 f2) rd) rd (n + child_sum ch, ch) e = Inr (n1 + child_sum ch1, ch1)"
    using f1 by (rule read_step_mono) simp
  ultimately show ?case by (auto intro!: exI [of _ "max f1 f2"])
qed simp

lemma update_to_read:
  assumes "distinct_names rd" "rd o' = Inr es" "coherent rd tc" "update_internal fuel rd o' es tc = Inr t"
  shows "\<exists>f. read_tree_internal f rd o' es (tc_path tc) = Inr t"
  using assms(2-)
proof (induction fuel arbitrary: o' es tc t)
  case (Suc fuel)
  obtain m old ch where fold: "try_fold (update_step (read_tree_internal fuel rd) (update_internal fuel rd) rd)
      (0, tc_children tc, []) es = Inr (m, old, ch)" and t: "t = TreeCache (tc_path tc) o' (m + child_sum ch) ch"
    using Suc.prems(3) by (auto simp: and_then_eq_Inr)
  have "\<exists>f. try_fold (read_tree_step (read_tree_internal f rd) rd) (0 + child_sum [], []) es = Inr (m + child_sum ch, ch)"
  proof (rule update_fold_read [OF _ fold])
    show "distinct (map te_path es)" using assms(1) Suc.prems(1) by (auto simp: distinct_names_def)
    show "\<forall>e \<in> set es. \<forall>c. map_of (tc_children tc) (te_path e) = Some c \<longrightarrow> tc_path c = te_path e \<and> coherent rd c"
      using Suc.prems(2) by (cases tc) (auto dest: map_of_SomeD)
  qed (use Suc.IH in auto)
  then obtain f where "try_fold (read_tree_step (read_tree_internal f rd) rd) (0, []) es = Inr (m + child_sum ch, ch)" by auto
  then have "read_tree_internal (Suc f) rd o' es (tc_path tc) = Inr t" using t by simp
  then show ?case by blast
qed simp

text \<open>
  The life of a root cache: read from a tree, then paths are invalidated and the cache is updated to
  other trees, in any order.
\<close>

inductive cache_reachable :: "tree_reader \<Rightarrow> tree_cache \<Rightarrow> bool" for rd where
  reach_read: "read_tree_cache fuel rd o' = Inr tc \<Longrightarrow> cache_reachable rd tc"
| reach_invalidate: "cache_reachable rd tc \<Longrightarrow> cache_reachable rd (invalidate_path tc p)"
| reach_update: "cache_reachable rd tc \<Longrightarrow> tree_cache_update fuel rd o' tc = Inr tc' \<Longrightarrow> cache_reachable rd tc'"

lemma update_read_iff:
  assumes "distinct_names rd" "coherent rd tc" "tc_path tc = BitPath []"
  shows "(\<exists>fuel. tree_cache_update fuel rd o' tc = Inr t) \<longleftrightarrow> (\<exists>fuel. read_tree_cache fuel rd o' = Inr t)"
  using assms update_is_read_aux [OF assms(1) _ assms(2)] update_to_read [OF assms(1) _ assms(2)]
  by (cases "rd o'") (fastforce simp: read_tree_cache_def tree_cache_update_def ensure_def)+

lemma read_tree_cache_coherent:
  "read_tree_cache fuel rd o' = Inr t \<Longrightarrow> coherent rd t \<and> tc_path t = BitPath []"
  by (auto simp: read_tree_cache_def and_then_eq_Inr dest: read_tree_coherent read_tree_path)

lemma cache_reachable_coherent:
  "cache_reachable rd tc \<Longrightarrow> distinct_names rd \<Longrightarrow> coherent rd tc \<and> tc_path tc = BitPath []"
proof (induction rule: cache_reachable.induct)
  case (reach_invalidate tc p)
  then show ?case by (simp add: invalidate_path_def invalidate_coherent invalidate_internal_path)
next
  case (reach_update tc fuel o' tc')
  then show ?case using update_read_iff [of rd tc o' tc'] read_tree_cache_coherent by blast
qed (use read_tree_cache_coherent in blast)

text \<open>
  C7. Updating in place is the same as reading afresh: for a cache that was read from the object
  database and then went through any number of invalidations and updates, \<open>update\<close> to a tree gives
  the cache \<open>t\<close> exactly when reading that tree from nothing gives \<open>t\<close>, although it reuses the valid
  children. The trees of the database must not have two entries of one name.
\<close>

theorem update_is_fresh_read:
  assumes "cache_reachable rd tc" "distinct_names rd"
  shows "(\<exists>fuel. tree_cache_update fuel rd o' tc = Inr t) \<longleftrightarrow> (\<exists>fuel. read_tree_cache fuel rd o' = Inr t)"
  using cache_reachable_coherent [OF assms] update_read_iff [OF assms(2)] by blast

definition sample_trees :: tree_reader where
  "sample_trees o' =
     (if o' = EMPTY_TREE then Inr []
      else if o' = EMPTY_BLOB then Inr
        [\<lparr>te_mode = REG, te_path = BitPath (bytes_of ''a''), te_oid = EMPTY_BLOB\<rparr>,
         \<lparr>te_mode = TREE, te_path = BitPath (bytes_of ''d''), te_oid = EMPTY_TREE\<rparr>]
      else Inl UnexpectedEof)"

definition sample_cache :: tree_cache where
  "sample_cache =
     TreeCache (BitPath []) EMPTY_BLOB 1 [(BitPath (bytes_of ''d''), TreeCache (BitPath (bytes_of ''d'')) EMPTY_TREE 0 [])]"

lemma sample_trees_distinct: "distinct_names sample_trees"
  by (auto simp: distinct_names_def sample_trees_def split: if_splits)

lemma sample_cache_read: "read_tree_cache (Suc (Suc 0)) sample_trees EMPTY_BLOB = Inr sample_cache"
  by (simp add: read_tree_cache_def sample_trees_def read_tree_step_def sample_cache_def
      EMPTY_BLOB_def EMPTY_TREE_def)

theorem update_is_fresh_read_witness:
  "\<exists>fuel. tree_cache_update fuel sample_trees EMPTY_BLOB (invalidate_path sample_cache (BitPath (bytes_of ''a'')))
     = Inr sample_cache"
  using update_is_fresh_read [of sample_trees "invalidate_path sample_cache (BitPath (bytes_of ''a''))" EMPTY_BLOB sample_cache]
    sample_cache_read sample_trees_distinct reach_invalidate [OF reach_read [OF sample_cache_read]] by blast

theorem invalidate_path_spec_witness:
  "find_valid_child (invalidate_path sample_cache (BitPath (bytes_of ''d/f''))) (BitPath (bytes_of ''d'')) = None
   \<and> find_child (invalidate_path sample_cache (BitPath (bytes_of ''a''))) (BitPath (bytes_of ''d''))
     = find_child sample_cache (BitPath (bytes_of ''d''))"
proof -
  have "prefix (bit_path_components (BitPath (bytes_of ''d''))) (bit_path_components (BitPath (bytes_of ''d/f'')))"
    by code_simp
  moreover have "\<not> prefix (bit_path_components (BitPath (bytes_of ''d''))) (bit_path_components (BitPath (bytes_of ''a'')))"
    by code_simp
  ultimately show ?thesis using invalidate_path_spec by blast
qed

section \<open>The text form\<close>

fun tc_wf :: "tree_cache \<Rightarrow> bool" where
  "tc_wf (TreeCache p o' n ch) \<longleftrightarrow>
     utf8_valid (path_bytes p) \<and> b_nul \<notin> set (path_bytes p) \<and> - (2 ^ 63) \<le> n \<and> n < 2 ^ 63
     \<and> (if n \<ge> 0 then oid_wf o' else o' = UNKNOWN)
     \<and> int (length ch) < 2 ^ 63 \<and> distinct (map fst ch) \<and> (\<forall>(k, c) \<in> set ch. tc_path c = k \<and> tc_wf c)"

lemma children_from_list_distinct:
  assumes "distinct (map fst kvs)"
  shows "children_from_list kvs = kvs"
proof -
  have "foldl (\<lambda>m (k, v). child_insert k v m) m kvs = m @ kvs" if "distinct (map fst (m @ kvs))" for m
    using that
  proof (induction kvs arbitrary: m)
    case (Cons a kvs)
    obtain k v where a: "a = (k, v)" by (cases a)
    with Cons.prems have "k \<notin> fst ` set m" by auto
    then show ?case using Cons.IH [of "m @ [a]"] Cons.prems a by (simp add: child_insert_fresh)
  qed simp
  from this [of "[]"] show ?thesis using assms by (simp add: children_from_list_def)
qed

lemma read_null_terminated_path_hit:
  "utf8_valid (path_bytes p) \<Longrightarrow> b_nul \<notin> set (path_bytes p) \<Longrightarrow>
   read_null_terminated_path (path_bytes p @ b_nul # rest) = Inr (p, rest)"
  by (simp add: read_null_terminated_path_def rd_bind_apply read_delim_hit ensure_def)

lemma tc_roundtrip_fuel:
  "tc_wf tc \<Longrightarrow> length (tc_serialize tc) \<le> fuel \<Longrightarrow>
   tc_deserialize_fuel fuel (tc_serialize tc @ rest) = Inr (tc, rest)"
proof (induction tc arbitrary: fuel rest)
  case (TreeCache p o' n ch)
  obtain f where f: "fuel = Suc f" using TreeCache.prems(2) by (cases fuel) auto
  let ?cs = "map snd ch"
  have codec: "codec tc_serialize (tc_deserialize_fuel f) (\<lambda>c. c \<in> set ?cs)"
  proof
    fix c rest assume "c \<in> set ?cs"
    then obtain k where kc: "(k, c) \<in> set ch" by auto
    have "length (tc_serialize c) \<le> length (concat (map (\<lambda>(k, c). tc_serialize c) ch))"
      using kc by (induction ch) auto
    then have "length (tc_serialize c) \<le> f" using TreeCache.prems(2) f by simp
    moreover have "tc_wf c" using TreeCache.prems(1) kc by auto
    ultimately show "tc_deserialize_fuel f (tc_serialize c @ rest) = Inr (c, rest)"
      using TreeCache.IH [OF kc] by simp
  qed
  have kids: "concat (map (\<lambda>(k, c). tc_serialize c) ch) = write_iter tc_serialize ?cs"
    by (simp add: write_iter_def comp_def case_prod_unfold)
  have cnt: "nat (int (length ch) mod 2 ^ 64) = length ?cs" using TreeCache.prems(1) by simp
  have vec: "read_vec (tc_deserialize_fuel f) (nat (int (length ch) mod 2 ^ 64)) (write_iter tc_serialize ?cs @ rest)
      = Inr (?cs, rest)"
    unfolding cnt by (rule codec.read_vec_roundtrip [OF codec]) (simp add: list_all_iff)
  have "map (\<lambda>c. (tc_path c, c)) ?cs = ch"
    using TreeCache.prems(1) by (auto simp: comp_def case_prod_unfold intro!: map_idI)
  then have ch: "children_from_list (map (\<lambda>c. (tc_path c, c)) ?cs) = ch"
    using TreeCache.prems(1) by (simp add: children_from_list_distinct)
  have nums: "read_ascii_num b_space (write_ascii_num n b_space @ r) = Inr (n, r)"
    "read_ascii_num b_newline (write_ascii_num (int (length ch)) b_newline @ r) = Inr (int (length ch), r)" for r
    using TreeCache.prems(1) by (auto intro!: read_ascii_num_write)
  have oid: "(if n \<ge> 0 then read_oid else rd_return UNKNOWN) ((if n \<ge> 0 then write_oid o' else []) @ r) = Inr (o', r)" for r
    using TreeCache.prems(1) oid_codec.roundtrip by auto
  have path: "read_null_terminated_path (path_bytes p @ b_nul # r) = Inr (p, r)" for r
    using TreeCache.prems(1) by (intro read_null_terminated_path_hit) auto
  show ?case
    unfolding f tc_serialize.simps tc_deserialize_fuel.simps kids
    by (simp only: rd_bind_apply append_assoc append_Cons append_Nil path nums oid vec ch
        and_then_Inr case_prod_conv rd_return_apply)
qed

lemma tc_roundtrip: "tc_wf tc \<Longrightarrow> tc_deserialize (tc_serialize tc) = Inr tc"
  using tc_roundtrip_fuel [of tc "Suc (length (tc_serialize tc))" "[]"]
  by (simp add: tc_deserialize_def tc_deserialize_inner_def ensure_def del: tc_deserialize_fuel.simps)

text \<open>
  A tree cache written to the index is read back as it was, with nothing left over: paths,
  counts (the mark of invalid nodes included), identifiers of the valid nodes and the children in their
  order.
\<close>

theorem tree_cache_roundtrip:
  "tc_wf tc \<Longrightarrow> tc_deserialize (tc_serialize tc) = Inr tc"
  by (rule tc_roundtrip)

theorem tree_cache_roundtrip_witness: "tc_deserialize (tc_serialize sample_cache) = Inr sample_cache"
  by (rule tree_cache_roundtrip)
    (simp add: sample_cache_def oid_wf_def EMPTY_TREE_def EMPTY_BLOB_def OID_SIZE_def utf8_valid_ascii ascii_def)

lemma consumes_read_null_terminated_path [consumes_intro]: "consumes 1 read_null_terminated_path"
  unfolding read_null_terminated_path_def
  by (intro consumes_bind_left [OF consumes_read_delim] consumes_bind_left [OF consumes_lift] consumes_return)

lemma consumes_le: "consumes k m \<Longrightarrow> m bs = Inr (x, bs') \<Longrightarrow> length bs' + k \<le> length bs"
  by (auto simp: consumes_def)

lemma consumes_read_vec: "consumes 0 de \<Longrightarrow> consumes 0 (read_vec de n)"
  by (induction n) (auto intro: consumes_return consumes_bind_left)

lemma consumes_tc_deserialize: "consumes 1 (tc_deserialize_fuel n)"
proof (induction n)
  case 0
  then show ?case by (simp add: consumes_def)
next
  case (Suc n)
  have "consumes 0 read_oid" by (auto simp: consumes_def read_oid_def read_exact_def split: if_splits)
  then show ?case unfolding tc_deserialize_fuel.simps
    by (intro consumes_bind_left [OF consumes_read_null_terminated_path]
        consumes_bind_left [OF consumes_weaken [OF consumes_read_ascii_num le0]] consumes_bind_left consumes_if
        consumes_read_vec consumes_return consumes_weaken [OF Suc le0])
qed

lemma read_vec_returns:
  assumes "\<And>bs. length bs \<le> m \<Longrightarrow> de bs \<noteq> Inl Diverge" "consumes 0 de"
  shows "length bs \<le> m \<Longrightarrow> read_vec de n bs \<noteq> Inl Diverge"
proof (induction n arbitrary: bs)
  case (Suc n)
  have "length bs' \<le> m" if "de bs = Inr (x, bs')" for x bs'
    using consumes_le [OF assms(2) that] Suc.prems by simp
  then show ?case using assms(1) [OF Suc.prems] Suc.IH
    by (auto simp: rd_bind_apply and_then_eq_Inl split: prod.splits)
qed simp

lemma tc_returns: "length bs < n \<Longrightarrow> tc_deserialize_fuel n bs \<noteq> Inl Diverge"
proof (induction n arbitrary: bs)
  case (Suc n)
  have prim: "read_null_terminated_path b \<noteq> Inl Diverge" "read_ascii_num c b \<noteq> Inl Diverge"
    "(if p then read_oid else rd_return UNKNOWN) b \<noteq> Inl Diverge" for b c p
    by (auto simp: read_null_terminated_path_def read_ascii_num_def rd_bind_apply and_then_eq_Inl read_delim_def
        drop_delim_def rd_lift_def ensure_def unwrap_def read_oid_def read_exact_def
        split: prod.splits if_splits option.splits)
  have oid: "consumes 0 (if p then read_oid else rd_return UNKNOWN)" for p
    by (auto simp: consumes_def read_oid_def read_exact_def split: if_splits)
  have vec: "read_vec (tc_deserialize_fuel n) k b \<noteq> Inl Diverge" if "length b < n" for k b
    by (rule read_vec_returns [of "length b"])
       (use Suc.IH that consumes_weaken [OF consumes_tc_deserialize le0] in auto)
  show ?case
  proof
    assume "tc_deserialize_fuel (Suc n) bs = Inl Diverge"
    then obtain p b1 cnt b2 k b3 o' b4 where
      r: "read_null_terminated_path bs = Inr (p, b1)" "read_ascii_num b_space b1 = Inr (cnt, b2)"
         "read_ascii_num b_newline b2 = Inr (k, b3)"
         "(if cnt \<ge> 0 then read_oid else rd_return UNKNOWN) b3 = Inr (o', b4)"
         "read_vec (tc_deserialize_fuel n) (nat (k mod 2 ^ 64)) b4 = Inl Diverge"
      using prim by (auto simp: rd_bind_apply and_then_eq_Inl split: prod.splits)
    have "length b4 < n"
      using Suc.prems consumes_le [OF consumes_read_null_terminated_path r(1)] consumes_le [OF consumes_read_ascii_num r(2)]
        consumes_le [OF consumes_read_ascii_num r(3)] consumes_le [OF oid r(4)] by simp
    then show False using vec r(5) by blast
  qed
qed simp

text \<open>
  Reading a tree cache terminates on every input: the nesting the reader meets is bounded by the
  length of the input, so the bound on the depth is never what stops it.
\<close>

theorem tree_cache_reading_returns: "tc_deserialize bs \<noteq> Inl Diverge"
  using tc_returns [of bs "Suc (length bs)"]
  by (auto simp: tc_deserialize_def tc_deserialize_inner_def and_then_eq_Inl ensure_def
      simp del: tc_deserialize_fuel.simps split: if_splits)

end
