(* ===== verification/Bit_Index.thy ===== *)
theory Bit_Index
  imports Bit_Index_Entry Bit_Tree_Cache Bit_BTree "HOL-Library.Product_Lexorder"
begin

text \<open>
  The index, \<^verbatim>\<open>libbit/src/index/index_inner.rs\<close>, \<^verbatim>\<open>libbit/src/index.rs\<close> and
  \<^verbatim>\<open>libbit/src/index/reuc.rs\<close>: the ordered map of entries with its tree cache, insertion and removal, the
  removal of file/directory collisions, conflicts, and the index file with its extensions and
  checksum. The hash function, the file system and the object database are parameters.
\<close>

section \<open>Model: the state and its operations\<close>

type_synonym index_entries = "(entry_key \<times> index_entry) list"

record index_inner =
  entries :: index_entries
  index_tree_cache :: "tree_cache option"
  reuc :: "byte list option"

definition entries_from_iter :: "index_entry list \<Rightarrow> index_entries" where
  "entries_from_iter es = bt_from_list (map (\<lambda>e. (entry_key e, e)) es)"

definition invalidate_tree_cache_path :: "bit_path \<Rightarrow> index_inner \<Rightarrow> index_inner" where
  "invalidate_tree_cache_path p idx =
     idx\<lparr>index_tree_cache := map_option (\<lambda>tc. invalidate_path tc p) (index_tree_cache idx)\<rparr>"

definition insert_entry :: "index_entry \<Rightarrow> index_inner \<Rightarrow> index_inner" where
  "insert_entry e idx =
     invalidate_tree_cache_path (ie_path e) (idx\<lparr>entries := bt_insert (entry_key e) e (entries idx)\<rparr>)"

definition remove_entry :: "entry_key \<Rightarrow> index_inner \<Rightarrow> index_inner" where
  "remove_entry k idx =
     (let idx' = idx\<lparr>entries := bt_remove k (entries idx)\<rparr> in
      if bt_get (entries idx) k \<noteq> None then invalidate_tree_cache_path (fst k) idx' else idx')"

definition remove_conflicted :: "bit_path \<Rightarrow> index_inner \<Rightarrow> index_inner" where
  "remove_conflicted p idx = remove_entry (p, THEIRS) (remove_entry (p, OURS) (remove_entry (p, BASE) idx))"

datatype conflict_type = BothModified | BothAdded | ModifyDelete | DeleteModify | AddedByUs | AddedByThem

record conflict =
  c_path :: bit_path
  c_type :: conflict_type

definition conflict_type_new :: "merge_stage list \<Rightarrow> conflict_type bit_result" where
  "conflict_type_new stages =
     (if stages = [BASE, OURS, THEIRS] then Inr BothModified
      else if stages = [OURS, THEIRS] then Inr BothAdded
      else if stages = [BASE, OURS] then Inr ModifyDelete
      else if stages = [BASE, THEIRS] then Inr DeleteModify
      else if stages = [OURS] then Inr AddedByUs
      else if stages = [THEIRS] then Inr AddedByThem
      else Inl Panic)"

definition conflict_new :: "bit_path \<times> merge_stage list \<Rightarrow> conflict bit_result" where
  "conflict_new = (\<lambda>(p, stages). and_then (conflict_type_new stages) (\<lambda>t. Inr \<lparr>c_path = p, c_type = t\<rparr>))"

fun conflict_type_display :: "conflict_type \<Rightarrow> string" where
  "conflict_type_display BothModified = ''both modified''"
| "conflict_type_display BothAdded = ''both added''"
| "conflict_type_display ModifyDelete = ''deleted by them''"
| "conflict_type_display DeleteModify = ''deleted by us''"
| "conflict_type_display AddedByUs = ''added by us''"
| "conflict_type_display AddedByThem = ''added by them''"

text \<open>\<open>conflict_map.entry(path).or_default().push(stage)\<close> on an insertion-ordered map.\<close>

fun push_stage :: "bit_path \<Rightarrow> merge_stage \<Rightarrow> (bit_path \<times> merge_stage list) list \<Rightarrow> (bit_path \<times> merge_stage list) list" where
  "push_stage p s [] = [(p, [s])]"
| "push_stage p s ((q, ss) # m) = (if q = p then (q, ss @ [s]) # m else (q, ss) # push_stage p s m)"

definition conflict_map :: "index_inner \<Rightarrow> (bit_path \<times> merge_stage list) list" where
  "conflict_map idx =
     foldl (\<lambda>m e. push_stage (ie_path e) (entry_stage e) m) []
       (filter entry_is_unmerged (map snd (entries idx)))"

definition conflicts :: "index_inner \<Rightarrow> conflict list bit_result" where
  "conflicts idx = traverse conflict_new (conflict_map idx)"

definition std_iter :: "index_inner \<Rightarrow> index_entry list" where
  "std_iter idx = filter (\<lambda>e. \<not> is_gitlink (ie_mode e)) (map snd (entries idx))"

definition find_entry :: "index_inner \<Rightarrow> entry_key \<Rightarrow> index_entry option" where
  "find_entry idx k = bt_get (entries idx) k"

definition remove_file_dir_collisions :: "bit_path \<Rightarrow> index_inner \<Rightarrow> index_inner" where
  "remove_file_dir_collisions p idx =
     foldl (\<lambda>idx c. remove_entry (c, NONE) idx) idx (cumulative_components p)"

definition subentries :: "bit_path \<Rightarrow> index_inner \<Rightarrow> entry_key list" where
  "subentries p idx =
     map fst (filter (\<lambda>((_, s), _). s = NONE)
       (takeWhile (\<lambda>((q, _), _). path_starts_with q p) (bt_range_from (join p [], NONE) (entries idx))))"

definition remove_directory :: "bit_path \<Rightarrow> index_inner \<Rightarrow> index_inner" where
  "remove_directory p idx = foldl (\<lambda>idx k. remove_entry k idx) idx (subentries p idx)"

definition remove_dir_file_collisions :: "bit_path \<Rightarrow> index_inner \<Rightarrow> index_inner bit_result" where
  "remove_dir_file_collisions p idx =
     and_then (bt_range (p, NONE) (approximate_lexicographical_successor p, NONE) (entries idx)) (\<lambda>r.
       let has_collision = list_ex (\<lambda>((q, _), _). path_starts_with q p) (drop 1 r)
       in Inr (if has_collision then remove_directory p idx else idx))"

definition remove_collisions :: "bit_path \<Rightarrow> index_inner \<Rightarrow> index_inner bit_result" where
  "remove_collisions p idx = remove_dir_file_collisions p (remove_file_dir_collisions p idx)"

definition index_len :: "index_inner \<Rightarrow> nat" where
  "index_len idx = length (entries idx)"

definition has_conflicts :: "index_inner \<Rightarrow> bool" where
  "has_conflicts idx \<longleftrightarrow> list_ex (\<lambda>(_, s). stage_is_unmerged s) (map fst (entries idx))"

text \<open>
  \<open>BitEntry::write\<close> and the operations of \<open>BitIndex\<close>. \<open>write_worktree_blob\<close> reads the file at a
  path and writes it to the object database.
\<close>

definition entry_write :: "(bit_path \<Rightarrow> oid bit_result) \<Rightarrow> index_entry \<Rightarrow> oid bit_result" where
  "entry_write write_worktree_blob e =
     (if is_known (ie_oid e) then Inr (ie_oid e) else write_worktree_blob (ie_path e))"

definition add_entry_common :: "(bit_path \<Rightarrow> oid bit_result) \<Rightarrow> index_entry \<Rightarrow> index_inner \<Rightarrow> index_inner bit_result" where
  "add_entry_common wr e idx =
     and_then (remove_collisions (ie_path e) idx) (\<lambda>idx'.
     and_then (entry_write wr e) (\<lambda>o'. Inr (insert_entry (e\<lparr>ie_oid := o'\<rparr>) idx')))"

definition add_entry ::
  "(bit_path \<Rightarrow> stat bit_result) \<Rightarrow> (bit_path \<Rightarrow> oid bit_result) \<Rightarrow> index_entry \<Rightarrow> index_inner \<Rightarrow> index_inner bit_result" where
  "add_entry lstat wr e idx =
     and_then (fill lstat e) (\<lambda>e'. add_entry_common wr e' (remove_conflicted (ie_path e') idx))"

definition add_conflicted_entry ::
  "(bit_path \<Rightarrow> oid bit_result) \<Rightarrow> index_entry \<Rightarrow> merge_stage \<Rightarrow> index_inner \<Rightarrow> index_inner bit_result" where
  "add_conflicted_entry wr e s idx =
     and_then (ensure (is_known (ie_oid e)) Panic) (\<lambda>_.
       add_entry_common wr (entry_set_stage e s) (remove_entry (ie_path e, NONE) idx))"

definition is_racy_entry :: "timespec option \<Rightarrow> index_entry \<Rightarrow> bool" where
  "is_racy_entry mtime e =
     (case mtime of None \<Rightarrow> True | Some t \<Rightarrow> timespec_cmp t (ie_mtime e) \<noteq> Greater)"

definition update_cache_tree :: "nat \<Rightarrow> tree_reader \<Rightarrow> oid \<Rightarrow> index_inner \<Rightarrow> index_inner bit_result" where
  "update_cache_tree fuel rd t idx =
     (case index_tree_cache idx of
        Some tc \<Rightarrow> and_then (tree_cache_update fuel rd t tc) (\<lambda>tc'. Inr (idx\<lparr>index_tree_cache := Some tc'\<rparr>))
      | None \<Rightarrow> and_then (read_tree_cache fuel rd t) (\<lambda>tc'. Inr (idx\<lparr>index_tree_cache := Some tc'\<rparr>)))"

section \<open>Model: the index file\<close>

record index_header =
  h_signature :: "byte list"
  h_version :: u32
  h_entryc :: u32

record index_extension =
  x_signature :: "byte list"
  x_size :: u32
  x_data :: "byte list"

definition BIT_INDEX_HEADER_SIG :: "byte list" where
  "BIT_INDEX_HEADER_SIG = bytes_of ''DIRC''"

definition BIT_INDEX_TREECACHE_SIG :: "byte list" where
  "BIT_INDEX_TREECACHE_SIG = bytes_of ''TREE''"

definition BIT_INDEX_REUC_SIG :: "byte list" where
  "BIT_INDEX_REUC_SIG = bytes_of ''REUC''"

definition BIT_INDEX_VERSION :: u32 where
  "BIT_INDEX_VERSION = 2"

definition index_header_serialize :: "index_header \<Rightarrow> byte list" where
  "index_header_serialize h = h_signature h @ to_be_bytes (h_version h) @ to_be_bytes (h_entryc h)"

definition index_extension_serialize :: "index_extension \<Rightarrow> byte list" where
  "index_extension_serialize x = x_signature x @ write_u32 (x_size x) @ x_data x"

definition parse_index_header :: "index_header reader" where
  "parse_index_header =
     rd_bind (read_exact 4) (\<lambda>sig.
     rd_bind (rd_lift (ensure (sig = BIT_INDEX_HEADER_SIG) Panic)) (\<lambda>_.
     rd_bind read_u32 (\<lambda>version.
     rd_bind (rd_lift (ensure (version = 2 \<or> version = 3) (Bail ''Only index formats v2 and v3 are supported''))) (\<lambda>_.
     rd_bind read_u32 (\<lambda>entryc.
       rd_return \<lparr>h_signature = sig, h_version = version, h_entryc = entryc\<rparr>)))))"

text \<open>The last extension of a signature wins, as in the hash map; a size beyond the buffer panics.\<close>

function parse_extensions_from ::
  "(byte list \<rightharpoonup> index_extension) \<Rightarrow> byte list \<Rightarrow> (byte list \<rightharpoonup> index_extension) bit_result" where
  "parse_extensions_from m buf =
     (if length buf > OID_SIZE
      then let sig = take 4 buf; sz = from_be_bytes (take 4 (drop 4 buf)) :: u32
           in if 8 + unat sz \<le> length buf
              then parse_extensions_from
                     (m(sig \<mapsto> \<lparr>x_signature = sig, x_size = sz, x_data = take (unat sz) (drop 8 buf)\<rparr>))
                     (drop (8 + unat sz) buf)
              else Inl Panic
      else Inr m)"
  by pat_completeness auto
termination
  by (relation "measure (\<lambda>(m, buf). length buf)") (auto simp: OID_SIZE_def)

declare parse_extensions_from.simps [simp del]

definition parse_extensions :: "byte list \<Rightarrow> (byte list \<rightharpoonup> index_extension) bit_result" where
  "parse_extensions buf = parse_extensions_from Map.empty buf"

definition index_body :: "index_inner \<Rightarrow> byte list" where
  "index_body idx =
     index_header_serialize \<lparr>h_signature = BIT_INDEX_HEADER_SIG, h_version = BIT_INDEX_VERSION,
                             h_entryc = of_nat (length (entries idx))\<rparr>
     @ write_iter entry_bytes (map snd (entries idx))
     @ (case index_tree_cache idx of None \<Rightarrow> [] | Some tc \<Rightarrow> BIT_INDEX_TREECACHE_SIG @ write_with_size (tc_serialize tc))
     @ (case reuc idx of None \<Rightarrow> [] | Some r \<Rightarrow> BIT_INDEX_REUC_SIG @ write_with_size r)"

text \<open>The writer hashes what it writes and appends the hash. An entry with an absolute path panics.\<close>

definition index_serialize :: "(byte list \<Rightarrow> oid) \<Rightarrow> index_inner \<Rightarrow> byte list bit_result" where
  "index_serialize sha1 idx =
     and_then (ensure (list_all (\<lambda>(k, e). is_relative (ie_path e)) (entries idx)) Panic) (\<lambda>_.
       Inr (index_body idx @ sha1 (index_body idx)))"

definition transpose_ext :: "index_extension option \<Rightarrow> (byte list \<Rightarrow> 'a bit_result) \<Rightarrow> 'a option bit_result" where
  "transpose_ext x f = (case x of None \<Rightarrow> Inr None | Some ext \<Rightarrow> and_then (f (x_data ext)) (\<lambda>v. Inr (Some v)))"

definition index_deserialize :: "(byte list \<Rightarrow> oid) \<Rightarrow> byte list \<Rightarrow> index_inner bit_result" where
  "index_deserialize sha1 buf =
     and_then (parse_index_header buf) (\<lambda>(header, r).
     and_then (read_vec entry_deserialize (unat (h_entryc header)) r) (\<lambda>(es, remainder).
     and_then (ensure (length remainder \<ge> OID_SIZE) Panic) (\<lambda>_.
     and_then (parse_extensions remainder) (\<lambda>exts.
     and_then (transpose_ext (exts BIT_INDEX_TREECACHE_SIG) tc_deserialize) (\<lambda>tc.
     and_then (transpose_ext (exts BIT_INDEX_REUC_SIG) (\<lambda>data. Inr data)) (\<lambda>ru.
     let n = length buf - OID_SIZE in
     and_then (ensure (sha1 (take n buf) = drop n buf) (Bail ''corrupted index (bad hash)'')) (\<lambda>_.
       Inr \<lparr>entries = entries_from_iter es, index_tree_cache = tc, reuc = ru\<rparr>)))))))"

section \<open>The invariant\<close>

text \<open>The entries are sorted by key and each is filed under its own key.\<close>

definition index_ok :: "index_inner \<Rightarrow> bool" where
  "index_ok idx \<longleftrightarrow> bt_sorted (entries idx) \<and> (\<forall>(k, e) \<in> set (entries idx). k = entry_key e)"

lemma entries_invalidate [simp]: "entries (invalidate_tree_cache_path p idx) = entries idx"
  by (simp add: invalidate_tree_cache_path_def)

lemma entries_insert_entry [simp]: "entries (insert_entry e idx) = bt_insert (entry_key e) e (entries idx)"
  by (simp add: insert_entry_def)

lemma entries_remove_entry [simp]: "entries (remove_entry k idx) = bt_remove k (entries idx)"
  by (simp add: remove_entry_def Let_def)

lemma index_ok_insert: "index_ok idx \<Longrightarrow> index_ok (insert_entry e idx)"
  using set_bt_insert [of "entry_key e" e "entries idx"] by (auto simp: index_ok_def btree.invar_insert)

lemma index_ok_remove: "index_ok idx \<Longrightarrow> index_ok (remove_entry k idx)"
  using set_bt_remove [of k "entries idx"] by (auto simp: index_ok_def btree.invar_remove)

lemma index_ok_remove_all: "index_ok idx \<Longrightarrow> index_ok (foldl (\<lambda>idx k. remove_entry k idx) idx ks)"
  by (induction ks arbitrary: idx) (auto simp: index_ok_remove)

lemma find_insert: "index_ok idx \<Longrightarrow> find_entry (insert_entry e idx) k = (if k = entry_key e then Some e else find_entry idx k)"
  by (simp add: find_entry_def index_ok_def btree.get_insert)

lemma find_remove: "index_ok idx \<Longrightarrow> find_entry (remove_entry j idx) k = (if k = j then None else find_entry idx k)"
  by (simp add: find_entry_def index_ok_def btree.get_remove)

lemma find_remove_all:
  "index_ok idx \<Longrightarrow>
   find_entry (foldl (\<lambda>idx k. remove_entry k idx) idx ks) k = (if k \<in> set ks then None else find_entry idx k)"
  by (induction ks arbitrary: idx) (auto simp: index_ok_remove find_remove)

lemma remove_file_dir_collisions_all:
  "remove_file_dir_collisions p idx =
     foldl (\<lambda>idx k. remove_entry k idx) idx (map (\<lambda>c. (c, NONE)) (cumulative_components p))"
  by (simp add: remove_file_dir_collisions_def foldl_map)

section \<open>Removing a directory\<close>

definition index_clean :: "index_inner \<Rightarrow> bool" where
  "index_clean idx \<longleftrightarrow> (\<forall>(k, e) \<in> set (entries idx). clean_path (fst k))"

text \<open>\<open>q\<close> lies inside the directory \<open>p\<close>.\<close>

definition inside :: "bit_path \<Rightarrow> bit_path \<Rightarrow> bool" where
  "inside q p \<longleftrightarrow> path_starts_with q p \<and> q \<noteq> p"

lemma slice_between_prefix:
  "slice_cmp xs ys \<noteq> Greater \<Longrightarrow> slice_cmp ys (xs @ zs) \<noteq> Greater \<Longrightarrow> prefix xs ys"
proof (induction xs arbitrary: ys)
  case (Cons x xs)
  then obtain y ys' where y: "ys = y # ys'" by (cases ys) auto
  then have "x = y" using Cons.prems by (auto simp: ord_cmp_def split: if_splits)
  then show ?case using Cons y by (simp add: ord_cmp_def)
qed simp

lemma takeWhile_sorted:
  "sorted_wrt R xs \<Longrightarrow> (\<And>x y. x \<in> set xs \<Longrightarrow> y \<in> set xs \<Longrightarrow> R x y \<Longrightarrow> P y \<Longrightarrow> P x) \<Longrightarrow> takeWhile P xs = filter P xs"
proof (induction xs)
  case (Cons x xs)
  show ?case
  proof (cases "P x")
    case False
    then have "\<forall>y \<in> set xs. \<not> P y" using Cons.prems by auto
    then show ?thesis using False by (simp add: filter_empty_conv)
  qed (use Cons in auto)
qed simp

lemma join_empty: "clean_path p \<Longrightarrow> path_bytes (join p []) = path_bytes p @ [b_slash]"
proof -
  assume clean: "clean_path p"
  have "path_bytes p \<noteq> []" using clean by (auto simp: clean_path_def segments_def clean_seg_def)
  moreover have "last (path_bytes p) \<noteq> b_slash"
  proof
    assume "last (path_bytes p) = b_slash"
    then obtain x where "path_bytes p = x @ [b_slash]" using \<open>path_bytes p \<noteq> []\<close> by (metis append_butlast_last_id)
    then show False using clean split_on_append [of b_slash x "[]"] by (simp add: clean_path_def segments_def clean_seg_def)
  qed
  ultimately show ?thesis by (simp add: join_def path_push_def is_absolute_def)
qed

lemma inside_bytes:
  assumes "clean_path p" "clean_path q"
  shows "inside q p \<longleftrightarrow> prefix (path_bytes p @ [b_slash]) (path_bytes q)"
proof -
  have "path_bytes p \<noteq> path_bytes p @ b_slash # r" for r by simp
  then show ?thesis unfolding inside_def starts_with_bytes [OF assms(2,1)] prefix_def by auto
qed

lemma inside_ge: "clean_path p \<Longrightarrow> clean_path q \<Longrightarrow> inside q p \<Longrightarrow> join p [] \<le> q"
  using slice_cmp_append_right [of "[]" "drop (Suc (length (path_bytes p))) (path_bytes q)"]
  by (auto simp: inside_bytes join_empty bit_path_le prefix_def split: if_splits)

lemma starts_with_ge_inside:
  "clean_path p \<Longrightarrow> clean_path q \<Longrightarrow> join p [] \<le> q \<Longrightarrow> path_starts_with q p \<longleftrightarrow> inside q p"
  using slice_cmp_append_right [of "path_bytes p" "[b_slash]"] slice_cmp_swap [of "path_bytes p @ [b_slash]" "path_bytes p"]
  by (auto simp: inside_def bit_path_le join_empty)

lemma inside_between:
  "clean_path p \<Longrightarrow> clean_path q \<Longrightarrow> clean_path r \<Longrightarrow> join p [] \<le> q \<Longrightarrow> q \<le> r \<Longrightarrow> inside r p \<Longrightarrow> inside q p"
  by (auto simp: inside_bytes join_empty bit_path_le prefix_def [of _ "path_bytes r"] intro: slice_between_prefix)

lemma subentries_iff:
  assumes "index_ok idx" "index_clean idx" "clean_path p"
  shows "(q, s) \<in> set (subentries p idx) \<longleftrightarrow> find_entry idx (q, s) \<noteq> None \<and> s = NONE \<and> inside q p"
proof -
  let ?r = "bt_range_from (join p [], NONE) (entries idx)"
  let ?P = "\<lambda>((q, _), _). path_starts_with q p"
  have mem: "join p [] \<le> a \<and> clean_path a" if "((a, b), e) \<in> set ?r" for a b e
    using that assms(2) by (auto simp: bt_range_from_def index_clean_def less_eq_prod_def)
  have sorted: "sorted_wrt (\<lambda>x y. fst x < fst y) ?r"
    using assms(1) by (auto simp: index_ok_def bt_sorted_def bt_range_from_def sorted_wrt_map intro: sorted_wrt_filter)
  have "takeWhile ?P ?r = filter ?P ?r"
  proof (rule takeWhile_sorted [OF sorted])
    fix x y assume x: "x \<in> set ?r" and y: "y \<in> set ?r" "fst x < fst y" "?P y"
    obtain a b e c d g where xy: "x = ((a, b), e)" "y = ((c, d), g)" by (metis surj_pair)
    have a: "join p [] \<le> a" "clean_path a" and c: "join p [] \<le> c" "clean_path c"
      using mem x y(1) by (auto simp: xy)
    have "a \<le> c" using y(2) by (auto simp: xy less_prod_def)
    moreover have "inside c p" using y(3) starts_with_ge_inside [OF assms(3) c(2,1)] by (simp add: xy)
    ultimately have "inside a p" using inside_between assms(3) a c by blast
    then show "?P x" by (simp add: xy inside_def)
  qed
  then have "(q, s) \<in> set (subentries p idx) \<longleftrightarrow> s = NONE \<and> (\<exists>e. ((q, s), e) \<in> set ?r \<and> path_starts_with q p)"
    by (force simp: subentries_def)
  also have "\<dots> \<longleftrightarrow> s = NONE \<and> (\<exists>e. ((q, s), e) \<in> set (entries idx)) \<and> inside q p"
  proof -
    have "((q, NONE), e) \<in> set ?r \<and> path_starts_with q p \<longleftrightarrow> ((q, NONE), e) \<in> set (entries idx) \<and> inside q p" for e
    proof (cases "((q, NONE), e) \<in> set (entries idx)")
      case True
      then have q: "clean_path q" using assms(2) by (auto simp: index_clean_def)
      have "((q, NONE), e) \<in> set ?r \<longleftrightarrow> join p [] \<le> q"
        using True by (auto simp: bt_range_from_def less_eq_prod_def)
      then show ?thesis using True starts_with_ge_inside [OF assms(3) q] inside_ge [OF assms(3) q]
        by (auto simp: inside_def)
    qed (simp add: bt_range_from_def)
    then show ?thesis by blast
  qed
  finally show ?thesis
    using assms(1) by (auto simp: find_entry_def index_ok_def bt_mem_get)
qed

section \<open>Adding an entry\<close>

lemma remove_directory_find:
  assumes "index_ok idx" "index_clean idx" "clean_path p"
  shows "find_entry (remove_directory p idx) (q, s) = (if s = NONE \<and> inside q p then None else find_entry idx (q, s))"
  using subentries_iff [OF assms, of q s] assms(1) by (auto simp: remove_directory_def find_remove_all)

definition children_of :: "bit_path \<Rightarrow> index_inner \<Rightarrow> (entry_key \<times> index_entry) list" where
  "children_of p idx = filter (\<lambda>((q, s), e). inside q p) (entries idx)"

lemma inside_less_succ:
  "clean_path p \<Longrightarrow> clean_path q \<Longrightarrow> inside q p \<Longrightarrow> p < q \<and> q < approximate_lexicographical_successor p"
  using slice_cmp_append_right [of "path_bytes p" "b_slash # drop (Suc (length (path_bytes p))) (path_bytes q)"]
  by (auto simp: inside_bytes bit_path_less approximate_lexicographical_successor_def prefix_def ord_cmp_def
      split: if_splits)

text \<open>
  The scan of \<open>remove_dir_file_collisions\<close> passes over the first entry of its range, so it sees
  every directory with two entries, and may miss one that has a single entry.
\<close>

definition scan_hits :: "bit_path \<Rightarrow> index_inner \<Rightarrow> bool" where
  "scan_hits p idx \<longleftrightarrow>
     list_ex (\<lambda>((q, _), _). path_starts_with q p)
       (drop 1 (filter (\<lambda>(k, _). (p, NONE) \<le> k \<and> k < (approximate_lexicographical_successor p, NONE)) (entries idx)))"

lemma remove_dir_file_collisions_eq:
  "remove_dir_file_collisions p idx = Inr (if scan_hits p idx then remove_directory p idx else idx)"
proof -
  have "p < approximate_lexicographical_successor p"
    using slice_cmp_append_right [of "path_bytes p" "[97]"]
    by (simp add: approximate_lexicographical_successor_def bit_path_less)
  then show ?thesis
    by (auto simp: remove_dir_file_collisions_def bt_range_def scan_hits_def less_prod_def Let_def)
qed

lemma children_range:
  assumes "index_clean idx" "clean_path p"
  shows "children_of p idx =
     filter (\<lambda>((q, s), e). inside q p)
       (filter (\<lambda>(k, _). (p, NONE) \<le> k \<and> k < (approximate_lexicographical_successor p, NONE)) (entries idx))"
proof -
  have "(p, NONE) \<le> (q, s) \<and> (q, s) < (approximate_lexicographical_successor p, NONE)"
    if "((q, s), e) \<in> set (entries idx)" "inside q p" for q s e
  proof -
    have "clean_path q" using that(1) assms(1) by (auto simp: index_clean_def)
    then show ?thesis using inside_less_succ [OF assms(2) _ that(2)] by (simp add: less_eq_prod_def less_prod_def)
  qed
  then show ?thesis unfolding children_of_def filter_filter by (intro filter_cong) auto
qed

lemma scan_hits_two:
  assumes "index_clean idx" "clean_path p" "2 \<le> length (children_of p idx)"
  shows "scan_hits p idx"
proof -
  let ?r = "filter (\<lambda>(k, _). (p, NONE) \<le> k \<and> k < (approximate_lexicographical_successor p, NONE)) (entries idx)"
  let ?in = "\<lambda>((q, s), e). inside q p"
  have two: "2 \<le> length (filter ?in ?r)" using assms children_range by simp
  then obtain x xs where r: "?r = x # xs" by (cases ?r) auto
  then have "filter ?in xs \<noteq> []" using two by (auto split: if_splits)
  then obtain y where "y \<in> set xs" "?in y" by (auto simp: filter_empty_conv)
  then show ?thesis by (auto simp: scan_hits_def r list_ex_iff inside_def)
qed

lemma index_clean_remove: "index_clean idx \<Longrightarrow> index_clean (remove_entry k idx)"
  using set_bt_remove [of k "entries idx"] by (auto simp: index_clean_def)

lemma index_clean_remove_all: "index_clean idx \<Longrightarrow> index_clean (foldl (\<lambda>idx k. remove_entry k idx) idx ks)"
  by (induction ks arbitrary: idx) (auto simp: index_clean_remove)

lemma index_clean_insert: "index_clean idx \<Longrightarrow> clean_path (ie_path e) \<Longrightarrow> index_clean (insert_entry e idx)"
  using set_bt_insert [of "entry_key e" e "entries idx"] by (fastforce simp: index_clean_def entry_key_def)

lemmas index_preserved =
  index_ok_insert index_ok_remove index_ok_remove_all index_clean_insert index_clean_remove index_clean_remove_all

lemma remove_conflicted_find:
  "index_ok idx \<Longrightarrow>
   find_entry (remove_conflicted p idx) (q, s) = (if q = p \<and> s \<noteq> NONE then None else find_entry idx (q, s))"
  by (cases s) (simp_all add: remove_conflicted_def find_remove index_ok_remove)

text \<open>The keys \<open>remove_collisions\<close> drops.\<close>

definition dropped :: "bit_path \<Rightarrow> bool \<Rightarrow> entry_key \<Rightarrow> bool" where
  "dropped p hits = (\<lambda>(q, s). s = NONE \<and> (path_starts_with p q \<or> (hits \<and> inside q p)))"

lemma remove_collisions_spec:
  assumes "index_ok idx" "index_clean idx" "clean_path p"
  obtains idx' where "remove_collisions p idx = Inr idx'" "index_ok idx'" "index_clean idx'"
    and "\<And>q s. clean_path q \<Longrightarrow>
      find_entry idx' (q, s) =
        (if dropped p (scan_hits p (remove_file_dir_collisions p idx)) (q, s) then None else find_entry idx (q, s))"
proof
  let ?idx1 = "remove_file_dir_collisions p idx"
  let ?idx2 = "if scan_hits p ?idx1 then remove_directory p ?idx1 else ?idx1"
  have ok1: "index_ok ?idx1" "index_clean ?idx1"
    using assms by (simp_all add: remove_file_dir_collisions_all index_preserved)
  show "remove_collisions p idx = Inr ?idx2" by (simp add: remove_collisions_def remove_dir_file_collisions_eq)
  show "index_ok ?idx2" "index_clean ?idx2" using ok1 by (simp_all add: remove_directory_def index_preserved)
  fix q s assume q: "clean_path q"
  have "find_entry ?idx1 (q, s) = (if s = NONE \<and> path_starts_with p q then None else find_entry idx (q, s))"
    using cumulative_iff_starts_with [OF assms(3) q] assms(1)
    by (auto simp: remove_file_dir_collisions_all find_remove_all)
  then show "find_entry ?idx2 (q, s) = (if dropped p (scan_hits p ?idx1) (q, s) then None else find_entry idx (q, s))"
    using remove_directory_find [OF ok1 assms(3)] by (auto simp: dropped_def)
qed

lemma children_remove_entry: "\<not> inside (fst k) p \<Longrightarrow> children_of p (remove_entry k idx) = children_of p idx"
proof -
  assume k: "\<not> inside (fst k) p"
  have "filter (\<lambda>((q, s), e). inside q p) (bt_remove k m) = filter (\<lambda>((q, s), e). inside q p) m" for m :: index_entries
    using k by (induction k m rule: bt_remove.induct) auto
  then show ?thesis by (simp add: children_of_def)
qed

lemma children_remove_all:
  "\<forall>k \<in> set ks. \<not> inside (fst k) p \<Longrightarrow>
   children_of p (foldl (\<lambda>idx k. remove_entry k idx) idx ks) = children_of p idx"
  by (induction ks arbitrary: idx) (auto simp: children_remove_entry)

lemma not_inside_cumulative:
  assumes "clean_path p" "c \<in> set (cumulative_components p)"
  shows "\<not> inside c p"
proof -
  obtain n where "segments c = take n (segments p)" using cumulative_segments [OF assms(2)] by blast
  then have "prefix (segments p) (segments c) \<Longrightarrow> c = p"
    by (metis prefix_order.antisym segments_inject take_is_prefix)
  then show ?thesis using cumulative_clean [OF assms] assms(1) by (auto simp: inside_def starts_with_clean)
qed

lemma children_remove_prefixes:
  "clean_path p \<Longrightarrow> children_of p (remove_file_dir_collisions p idx) = children_of p idx"
  unfolding remove_file_dir_collisions_all
  by (rule children_remove_all) (auto simp: not_inside_cumulative)

lemma children_remove_conflicted: "children_of p (remove_conflicted p idx) = children_of p idx"
  by (simp add: remove_conflicted_def children_remove_entry inside_def)

lemma fill_path: "fill lstat e = Inr e' \<Longrightarrow> ie_path e' = ie_path e"
  by (auto simp: fill_def from_relative_path_def entry_new_def and_then_eq_Inr split: if_splits)

lemma entry_key_oid [simp]: "entry_key (e\<lparr>ie_oid := o'\<rparr>) = entry_key e"
  by (simp add: entry_key_def entry_stage_def)

lemma add_entry_common_spec:
  assumes "index_ok idx" "index_clean idx" "clean_path (ie_path e)" "add_entry_common wr e idx = Inr idx'"
  obtains o' where "entry_write wr e = Inr o'" "index_ok idx'" "index_clean idx'"
    and "\<And>q s. clean_path q \<Longrightarrow>
      find_entry idx' (q, s) =
        (if (q, s) = entry_key e then Some (e\<lparr>ie_oid := o'\<rparr>)
         else if dropped (ie_path e) (scan_hits (ie_path e) (remove_file_dir_collisions (ie_path e) idx)) (q, s) then None
         else find_entry idx (q, s))"
proof -
  obtain idx1 where r: "remove_collisions (ie_path e) idx = Inr idx1" "index_ok idx1" "index_clean idx1"
    and f: "\<And>q s. clean_path q \<Longrightarrow> find_entry idx1 (q, s) =
      (if dropped (ie_path e) (scan_hits (ie_path e) (remove_file_dir_collisions (ie_path e) idx)) (q, s) then None
       else find_entry idx (q, s))"
    using remove_collisions_spec [OF assms(1-3)] by blast
  obtain o' where o': "entry_write wr e = Inr o'" "idx' = insert_entry (e\<lparr>ie_oid := o'\<rparr>) idx1"
    using assms(4) r(1) by (auto simp: add_entry_common_def and_then_eq_Inr)
  show ?thesis
    by (rule that [OF o'(1)]) (use o'(2) r(2,3) f assms(3) in \<open>auto simp: find_insert index_preserved\<close>)
qed

lemma add_entry_aux:
  assumes "index_ok idx" "index_clean idx" "clean_path (ie_path e)" "add_entry lstat wr e idx = Inr idx'"
  shows "index_ok idx' \<and> index_clean idx'
    \<and> (\<exists>e' o' hits. fill lstat e = Inr e' \<and> entry_write wr e' = Inr o'
         \<and> (2 \<le> length (children_of (ie_path e) idx) \<longrightarrow> hits)
         \<and> (\<forall>q s. clean_path q \<longrightarrow>
              find_entry idx' (q, s) =
                (if (q, s) = entry_key e' then Some (e'\<lparr>ie_oid := o'\<rparr>)
                 else if dropped (ie_path e) hits (q, s) \<or> (q = ie_path e \<and> s \<noteq> NONE) then None
                 else find_entry idx (q, s))))"
proof -
  obtain e' where e': "fill lstat e = Inr e'" "add_entry_common wr e' (remove_conflicted (ie_path e) idx) = Inr idx'"
    using assms(4) by (auto simp: add_entry_def and_then_eq_Inr fill_path)
  let ?p = "ie_path e" and ?idx1 = "remove_conflicted (ie_path e) idx"
  have ok: "index_ok ?idx1" "index_clean ?idx1" and p: "ie_path e' = ?p"
    using assms e' by (simp_all add: remove_conflicted_def index_preserved fill_path)
  let ?hits = "scan_hits ?p (remove_file_dir_collisions ?p ?idx1)"
  obtain o' where o': "entry_write wr e' = Inr o'" "index_ok idx'" "index_clean idx'"
    and f: "\<And>q s. clean_path q \<Longrightarrow> find_entry idx' (q, s) =
        (if (q, s) = entry_key e' then Some (e'\<lparr>ie_oid := o'\<rparr>)
         else if dropped ?p ?hits (q, s) then None else find_entry ?idx1 (q, s))"
    using add_entry_common_spec [OF ok _ e'(2)] assms(3) p by metis
  have "?hits" if "2 \<le> length (children_of ?p idx)"
  proof (rule scan_hits_two)
    show "2 \<le> length (children_of ?p (remove_file_dir_collisions ?p ?idx1))"
      using that by (simp add: children_remove_prefixes assms(3) children_remove_conflicted)
  qed (use ok assms(3) in \<open>simp_all add: remove_file_dir_collisions_all index_preserved\<close>)
  then show ?thesis using o' e'(1) f remove_conflicted_find [OF assms(1)]
    by (intro conjI exI [of _ e'] exI [of _ o'] exI [of _ ?hits]) auto
qed

text \<open>
  C9. Adding an entry files it under its path and stage with its object written, removes every
  conflicted entry of the path, every file that is one of the leading directories of the path, and
  the files inside the path when the scan finds a collision, and changes nothing else; the order and the keys
  of the index stay right. The scan always finds a directory that has at least two entries.
\<close>

theorem add_entry_spec:
  assumes "index_ok idx" "index_clean idx" "clean_path (ie_path e)" "add_entry lstat wr e idx = Inr idx'"
  shows "index_ok idx' \<and> index_clean idx'
    \<and> (\<exists>e' o' hits. fill lstat e = Inr e' \<and> entry_write wr e' = Inr o'
         \<and> (2 \<le> length (children_of (ie_path e) idx) \<longrightarrow> hits)
         \<and> (\<forall>q s. clean_path q \<longrightarrow>
              find_entry idx' (q, s) =
                (if (q, s) = entry_key e' then Some (e'\<lparr>ie_oid := o'\<rparr>)
                 else if dropped (ie_path e) hits (q, s) \<or> (q = ie_path e \<and> s \<noteq> NONE) then None
                 else find_entry idx (q, s))))"
  using assms by (rule add_entry_aux)

text \<open>No merged entry is both a file and a directory of another one.\<close>

definition df_free :: "index_inner \<Rightarrow> bool" where
  "df_free idx \<longleftrightarrow>
     (\<forall>(k, e) \<in> set (entries idx). \<forall>(j, d) \<in> set (entries idx).
        snd k = NONE \<and> snd j = NONE \<longrightarrow> \<not> inside (fst j) (fst k))"

lemma df_free_find:
  assumes "index_ok idx" "index_clean idx"
  shows "df_free idx \<longleftrightarrow>
    (\<forall>a b. clean_path a \<and> clean_path b \<and> find_entry idx (a, NONE) \<noteq> None \<and> find_entry idx (b, NONE) \<noteq> None \<longrightarrow> \<not> inside b a)"
proof -
  have mem: "find_entry idx (a, NONE) \<noteq> None \<longleftrightarrow> (\<exists>e. ((a, NONE), e) \<in> set (entries idx))" for a
    using assms(1) by (auto simp: find_entry_def index_ok_def bt_mem_get)
  have clean: "((a, s), e) \<in> set (entries idx) \<Longrightarrow> clean_path a" for a s e
    using assms(2) by (auto simp: index_clean_def)
  have "df_free idx \<longleftrightarrow>
    (\<forall>a d b e. ((a, NONE), d) \<in> set (entries idx) \<and> ((b, NONE), e) \<in> set (entries idx) \<longrightarrow> \<not> inside b a)"
    by (force simp: df_free_def)
  then show ?thesis unfolding mem using clean by meson
qed

lemma entry_stage_fill: "fill lstat e = Inr e' \<Longrightarrow> entry_stage e = NONE \<Longrightarrow> entry_stage e' = NONE"
  by (auto simp: fill_def from_relative_path_def entry_new_def and_then_eq_Inr entry_stage_def
      with_path_len_fields split: if_splits)

lemma add_entry_df_free_aux:
  assumes "index_ok idx" "index_clean idx" "df_free idx" "clean_path (ie_path e)" "entry_stage e = NONE"
    and "length (children_of (ie_path e) idx) \<noteq> 1" "add_entry lstat wr e idx = Inr idx'"
  shows "df_free idx'"
proof -
  let ?p = "ie_path e"
  obtain e' o' hits where ok': "index_ok idx'" "index_clean idx'" and e': "fill lstat e = Inr e'"
    and hits: "2 \<le> length (children_of ?p idx) \<Longrightarrow> hits"
    and f: "\<And>q s. clean_path q \<Longrightarrow> find_entry idx' (q, s) =
                (if (q, s) = entry_key e' then Some (e'\<lparr>ie_oid := o'\<rparr>)
                 else if dropped ?p hits (q, s) \<or> (q = ?p \<and> s \<noteq> NONE) then None
                 else find_entry idx (q, s))"
    using add_entry_aux [OF assms(1,2,4,7)] by blast
  have key: "entry_key e' = (?p, NONE)"
    using fill_path [OF e'] entry_stage_fill [OF e' assms(5)] by (simp add: entry_key_def)
  have old: "find_entry idx (q, NONE) \<noteq> None \<and> \<not> dropped ?p hits (q, NONE)"
    if "clean_path q" "find_entry idx' (q, NONE) \<noteq> None" "q \<noteq> ?p" for q
    using that f [OF that(1), of NONE] key by (auto split: if_splits)
  have child: "hits" if q: "find_entry idx (q, NONE) \<noteq> None" "inside q ?p" for q
  proof -
    from q(1) obtain d where "((q, NONE), d) \<in> set (entries idx)"
      using assms(1) by (auto simp: find_entry_def index_ok_def bt_mem_get)
    then have "children_of ?p idx \<noteq> []" using q(2) by (auto simp: children_of_def filter_empty_conv)
    then have "length (children_of ?p idx) \<ge> 2" using assms(6) by (cases "children_of ?p idx") (auto simp: Suc_le_eq)
    then show ?thesis by (rule hits)
  qed
  have "\<not> inside b a"
    if ab: "clean_path a" "clean_path b" "find_entry idx' (a, NONE) \<noteq> None" "find_entry idx' (b, NONE) \<noteq> None" for a b
  proof
    assume ins: "inside b a"
    then have "a \<noteq> b" by (auto simp: inside_def)
    consider "a = ?p" | "b = ?p" | "a \<noteq> ?p" "b \<noteq> ?p" by blast
    then show False
    proof cases
      case 1
      then have "find_entry idx (b, NONE) \<noteq> None \<and> \<not> dropped ?p hits (b, NONE)" using old ab \<open>a \<noteq> b\<close> by blast
      then show False using child [of b] ins 1 by (auto simp: dropped_def)
    next
      case 2
      then have "\<not> dropped ?p hits (a, NONE)" using old ab \<open>a \<noteq> b\<close> by blast
      then show False using ins 2 by (auto simp: dropped_def inside_def)
    next
      case 3
      then show False using old ab ins assms(1-3) df_free_find by blast
    qed
  qed
  then show ?thesis using df_free_find [OF ok'] by blast
qed

text \<open>
  C23. Adding a merged entry keeps the index free of file/directory collisions (no file is also a
  directory of another file), unless exactly one entry of the index lies inside the new path.
\<close>

theorem add_entry_df_free:
  assumes "index_ok idx" "index_clean idx" "df_free idx" "clean_path (ie_path e)" "entry_stage e = NONE"
    and "length (children_of (ie_path e) idx) \<noteq> 1" "add_entry lstat wr e idx = Inr idx'"
  shows "df_free idx'"
  using assms by (rule add_entry_df_free_aux)

definition plain_entry :: "string \<Rightarrow> index_entry" where
  "plain_entry p =
     (entry_from_tree_entry \<lparr>te_mode = REG, te_path = BitPath (bytes_of p), te_oid = EMPTY_BLOB\<rparr>)
       \<lparr>ie_inode := 1, ie_filesize := 0\<rparr>"

definition index_of :: "string list \<Rightarrow> index_inner" where
  "index_of ps = \<lparr>entries = entries_from_iter (map plain_entry ps), index_tree_cache = None, reuc = None\<rparr>"

text \<open>
  The exception is real: with \<open>foo/bar\<close> alone in the index, adding the file \<open>foo\<close> leaves both,
  so that \<open>foo\<close> is a file and a directory; with \<open>foo/bar\<close> and \<open>foo/baz\<close> both are removed.
\<close>

theorem single_child_collision_missed:
  "df_free (index_of [''foo/bar''])
   \<and> add_entry (\<lambda>_. Inl UnexpectedEof) (\<lambda>_. Inl UnexpectedEof) (plain_entry ''foo'') (index_of [''foo/bar''])
     = Inr (index_of [''foo'', ''foo/bar''])
   \<and> \<not> df_free (index_of [''foo'', ''foo/bar''])
   \<and> add_entry (\<lambda>_. Inl UnexpectedEof) (\<lambda>_. Inl UnexpectedEof) (plain_entry ''foo'') (index_of [''foo/bar'', ''foo/baz''])
     = Inr (index_of [''foo''])"
  by (intro conjI) code_simp+

lemma sample_index_facts:
  "index_ok (index_of [''a'', ''foo/bar'', ''foo/baz''])" "index_clean (index_of [''a'', ''foo/bar'', ''foo/baz''])"
  "df_free (index_of [''a'', ''foo/bar'', ''foo/baz''])" "clean_path (ie_path (plain_entry ''foo''))"
  "length (children_of (ie_path (plain_entry ''foo'')) (index_of [''a'', ''foo/bar'', ''foo/baz''])) = 2"
  "entry_stage (plain_entry ''foo'') = NONE"
  "add_entry (\<lambda>_. Inl UnexpectedEof) (\<lambda>_. Inl UnexpectedEof) (plain_entry ''foo'')
     (index_of [''a'', ''foo/bar'', ''foo/baz'']) = Inr (index_of [''a'', ''foo''])"
  by code_simp+

theorem add_entry_df_free_witness: "df_free (index_of [''a'', ''foo''])"
  by (rule add_entry_df_free [OF sample_index_facts(1-4,6) _ sample_index_facts(7)]) (simp add: sample_index_facts(5))

theorem add_entry_spec_witness:
  "index_ok (index_of [''a'', ''foo'']) \<and> index_clean (index_of [''a'', ''foo''])"
  using add_entry_spec [OF sample_index_facts(1,2,4,7)] by blast

section \<open>Conflicts\<close>

definition stages_of :: "index_inner \<Rightarrow> bit_path \<Rightarrow> merge_stage list" where
  "stages_of idx p = filter (\<lambda>s. find_entry idx (p, s) \<noteq> None) [BASE, OURS, THEIRS]"

lemma push_stage_map: "map_of (push_stage p s m) q = (if q = p then Some ((case map_of m p of None \<Rightarrow> [] | Some ss \<Rightarrow> ss) @ [s]) else map_of m q)"
  by (induction p s m rule: push_stage.induct) auto

lemma push_stage_keys: "map fst (push_stage p s m) = (if p \<in> fst ` set m then map fst m else map fst m @ [p])"
  by (induction p s m rule: push_stage.induct) auto

lemma conflict_fold:
  "map_of (foldl (\<lambda>m e. push_stage (ie_path e) (entry_stage e) m) m es) q =
     (let new = map entry_stage (filter (\<lambda>e. ie_path e = q) es) in
      case map_of m q of
        None \<Rightarrow> if new = [] then None else Some new
      | Some ss \<Rightarrow> Some (ss @ new))"
proof (induction es arbitrary: m)
  case (Cons e es)
  show ?case by (simp add: Cons push_stage_map Let_def split: option.splits)
qed (simp split: option.splits)

lemma conflict_fold_keys:
  "distinct (map fst m) \<Longrightarrow> distinct (map fst (foldl (\<lambda>m e. push_stage (ie_path e) (entry_stage e) m) m es))"
  by (induction es arbitrary: m) (auto simp: push_stage_keys)

lemma conflict_fold_sorted:
  assumes "sorted_wrt (<) (map fst m)" "sorted (map ie_path es)" "\<forall>k \<in> fst ` set m. \<forall>e \<in> set es. k \<le> ie_path e"
  shows "sorted_wrt (<) (map fst (foldl (\<lambda>m e. push_stage (ie_path e) (entry_stage e) m) m es))"
  using assms
proof (induction es arbitrary: m)
  case (Cons e es)
  let ?m = "push_stage (ie_path e) (entry_stage e) m"
  have "sorted_wrt (<) (map fst ?m)" using Cons.prems by (force simp: push_stage_keys sorted_wrt_append)
  moreover have "fst ` set ?m \<subseteq> insert (ie_path e) (fst ` set m)"
    using arg_cong [OF push_stage_keys [of "ie_path e" "entry_stage e" m], of set] by (auto split: if_splits)
  then have "\<forall>k \<in> fst ` set ?m. \<forall>d \<in> set es. k \<le> ie_path d"
    by (rule ballI [OF subsetD [THEN insertE]]) (use Cons.prems(2,3) in auto)
  ultimately show ?case using Cons.IH [of ?m] Cons.prems(2) by simp
qed simp

lemma unmerged_iff: "stage_is_unmerged s \<longleftrightarrow> s \<noteq> NONE"
  by (cases s) (simp_all add: stage_is_unmerged_def)

lemma stages_of_set: "s \<in> set (stages_of idx q) \<longleftrightarrow> s \<noteq> NONE \<and> find_entry idx (q, s) \<noteq> None"
  by (cases s) (simp_all add: stages_of_def)

lemma stages_of_entries:
  assumes "index_ok idx"
  shows "map entry_stage (filter (\<lambda>e. ie_path e = q) (filter entry_is_unmerged (map snd (entries idx)))) = stages_of idx q"
proof (rule strict_sorted_equal)
  let ?es = "filter (\<lambda>e. ie_path e = q) (filter entry_is_unmerged (map snd (entries idx)))"
  have key: "\<And>k e. (k, e) \<in> set (entries idx) \<Longrightarrow> k = (ie_path e, entry_stage e)"
    using assms by (auto simp: index_ok_def entry_key_def)
  have "map fst (entries idx) = map (\<lambda>e. (ie_path e, entry_stage e)) (map snd (entries idx))"
    using key by auto
  then have "sorted_wrt (\<lambda>a b. (ie_path a, entry_stage a) < (ie_path b, entry_stage b)) (map snd (entries idx))"
    using assms unfolding index_ok_def bt_sorted_def by (simp only: sorted_wrt_map [of _ "\<lambda>e. (ie_path e, entry_stage e)"])
  then have "sorted_wrt (\<lambda>a b. (ie_path a, entry_stage a) < (ie_path b, entry_stage b)) ?es"
    by (intro sorted_wrt_filter)
  then have "sorted_wrt (\<lambda>a b. entry_stage a < entry_stage b) ?es"
    by (rule sorted_wrt_mono_rel [rotated]) (auto simp: less_prod_def)
  then show "sorted_wrt (<) (map entry_stage ?es)" by (simp add: sorted_wrt_map)
  show "sorted_wrt (<) (stages_of idx q)"
    by (simp add: stages_of_def less_merge_stage_def word_less_nat_alt)
  have left: "s \<in> set (map entry_stage ?es) \<longleftrightarrow> s \<noteq> NONE \<and> find_entry idx (q, s) \<noteq> None" for s
  proof -
    have "s \<in> set (map entry_stage ?es) \<longleftrightarrow> s \<noteq> NONE \<and> (\<exists>e. ((q, s), e) \<in> set (entries idx))"
    proof
      assume "s \<in> set (map entry_stage ?es)"
      then obtain k e where "(k, e) \<in> set (entries idx)" "ie_path e = q" "entry_stage e = s" "s \<noteq> NONE"
        by (auto simp: entry_is_unmerged_def unmerged_iff)
      then show "s \<noteq> NONE \<and> (\<exists>e. ((q, s), e) \<in> set (entries idx))" using key by metis
    next
      assume "s \<noteq> NONE \<and> (\<exists>e. ((q, s), e) \<in> set (entries idx))"
      then obtain e where e: "s \<noteq> NONE" "((q, s), e) \<in> set (entries idx)" by blast
      then have "e \<in> set (map snd (entries idx))" by force
      then show "s \<in> set (map entry_stage ?es)" using key [OF e(2)] e(1) by (auto simp: entry_is_unmerged_def unmerged_iff)
    qed
    then show ?thesis using assms by (auto simp: find_entry_def index_ok_def bt_mem_get)
  qed
  show "set (map entry_stage ?es) = set (stages_of idx q)" by (rule set_eqI) (simp only: left stages_of_set)
qed

lemma conflict_map_spec:
  assumes "index_ok idx"
  shows "sorted_wrt (<) (map fst (conflict_map idx))"
    and "(p, ss) \<in> set (conflict_map idx) \<longleftrightarrow> ss = stages_of idx p \<and> ss \<noteq> []"
proof -
  let ?es = "filter entry_is_unmerged (map snd (entries idx))"
  have key: "\<And>k e. (k, e) \<in> set (entries idx) \<Longrightarrow> fst k = ie_path e"
    using assms by (auto simp: index_ok_def entry_key_def)
  then have "map ie_path (map snd (entries idx)) = map fst (map fst (entries idx))" by auto
  moreover have "sorted (map fst (map fst (entries idx)))"
  proof -
    have "sorted_wrt (\<lambda>a b. fst a \<le> fst b) (map fst (entries idx))"
      by (rule sorted_wrt_mono_rel [of _ "(<)"]) (use assms in \<open>auto simp: index_ok_def bt_sorted_def less_prod_def\<close>)
    then show ?thesis by (simp add: sorted_wrt_map)
  qed
  ultimately have "sorted (map ie_path ?es)" by (metis sorted_filter)
  then show sorted: "sorted_wrt (<) (map fst (conflict_map idx))"
    unfolding conflict_map_def by (intro conflict_fold_sorted) auto
  have "distinct (map fst (conflict_map idx))" using sorted by (simp add: strict_sorted_iff)
  then have "(p, ss) \<in> set (conflict_map idx) \<longleftrightarrow> map_of (conflict_map idx) p = Some ss" by simp
  also have "\<dots> \<longleftrightarrow> ss = stages_of idx p \<and> ss \<noteq> []"
    unfolding conflict_map_def conflict_fold stages_of_entries [OF assms] by (auto simp: Let_def)
  finally show "(p, ss) \<in> set (conflict_map idx) \<longleftrightarrow> ss = stages_of idx p \<and> ss \<noteq> []" .
qed

lemma conflict_type_stages:
  "stages_of idx p \<noteq> [] \<Longrightarrow> conflict_type_new (stages_of idx p) = Inl Panic \<longleftrightarrow> stages_of idx p = [BASE]"
  by (auto simp: stages_of_def conflict_type_new_def split: if_splits)


definition staged :: "string \<Rightarrow> merge_stage \<Rightarrow> index_entry" where
  "staged p s = entry_set_stage (plain_entry p) s"

definition conflicted_index :: index_inner where
  "conflicted_index =
     \<lparr>entries = entries_from_iter [staged ''b'' THEIRS, staged ''a'' BASE, staged ''b'' OURS, staged ''a'' THEIRS, staged ''c'' NONE],
      index_tree_cache = None, reuc = None\<rparr>"

lemma conflicted_index_facts:
  "index_ok conflicted_index"
  "conflicts conflicted_index =
     Inr [\<lparr>c_path = BitPath (bytes_of ''a''), c_type = DeleteModify\<rparr>, \<lparr>c_path = BitPath (bytes_of ''b''), c_type = BothAdded\<rparr>]"
  by code_simp+


section \<open>The index file\<close>

lemma entries_from_iter_ok:
  "bt_sorted (entries_from_iter es) \<and> (\<forall>(k, e) \<in> set (entries_from_iter es). k = entry_key e)"
proof -
  have "\<forall>(k, e) \<in> set (foldl (\<lambda>m (k, v). bt_insert k v m) m kvs). k = entry_key e"
    if "\<forall>(k, e) \<in> set (m @ kvs). k = entry_key e" for m kvs
    using that
  proof (induction kvs arbitrary: m)
    case (Cons a kvs)
    obtain k v where a: "a = (k, v)" by (cases a)
    show ?case unfolding a using Cons.prems set_bt_insert [of k v m] by (simp add: a) (rule Cons.IH, auto)
  qed simp
  from this [of "[]" "map (\<lambda>e. (entry_key e, e)) es"] show ?thesis
    using bt_sorted_from_list [of "map (\<lambda>e. (entry_key e, e)) es"]
    by (auto simp: entries_from_iter_def bt_from_list_def)
qed

lemma entries_from_iter_self: "index_ok idx \<Longrightarrow> entries_from_iter (map snd (entries idx)) = entries idx"
proof -
  assume ok: "index_ok idx"
  then have "map (\<lambda>e. (entry_key e, e)) (map snd (entries idx)) = entries idx"
    by (auto simp: index_ok_def intro!: map_idI)
  then show ?thesis using ok by (simp add: entries_from_iter_def index_ok_def bt_from_list_sorted)
qed

definition index_file_ok :: "index_inner \<Rightarrow> bool" where
  "index_file_ok idx \<longleftrightarrow>
     index_ok idx \<and> length (entries idx) < 2 ^ 32
     \<and> list_all (\<lambda>(k, e). index_entry_valid e \<and> is_relative (ie_path e)) (entries idx)
     \<and> pred_option (\<lambda>tc. tc_wf tc \<and> length (tc_serialize tc) < 2 ^ 32) (index_tree_cache idx)
     \<and> pred_option (\<lambda>r. length r < 2 ^ 32) (reuc idx)"

lemma parse_extension_step:
  assumes "length sig = 4" "length d < 2 ^ 32" "OID_SIZE \<le> length rest"
  shows "parse_extensions_from m (sig @ write_with_size d @ rest) =
    parse_extensions_from (m(sig \<mapsto> \<lparr>x_signature = sig, x_size = of_nat (length d), x_data = d\<rparr>)) rest"
proof -
  let ?buf = "sig @ write_with_size d @ rest"
  have n: "unat (of_nat (length d) :: u32) = length d" using assms(2) by (simp add: unat_of_nat)
  have "take 4 (drop 4 ?buf) = write_u32 (of_nat (length d))" "drop 8 ?buf = d @ rest" "take 4 ?buf = sig"
    using assms(1) by (simp_all add: write_with_size_def)
  moreover have "from_be_bytes (write_u32 (of_nat (length d))) = (of_nat (length d) :: u32)"
    by (simp add: write_u32_def from_to_be_bytes)
  moreover have "drop (8 + length d) ?buf = rest" "length ?buf = 8 + length d + length rest"
    using assms(1) by (simp_all add: write_with_size_def)
  ultimately show ?thesis using assms(3) n
    by (subst parse_extensions_from.simps) (simp add: Let_def)
qed

lemma parse_extensions_end: "length rest = OID_SIZE \<Longrightarrow> parse_extensions_from m rest = Inr m"
  by (subst parse_extensions_from.simps) simp

lemma parse_index_header_write:
  "parse_index_header
     (index_header_serialize \<lparr>h_signature = BIT_INDEX_HEADER_SIG, h_version = BIT_INDEX_VERSION, h_entryc = n\<rparr> @ rest) =
   Inr (\<lparr>h_signature = BIT_INDEX_HEADER_SIG, h_version = BIT_INDEX_VERSION, h_entryc = n\<rparr>, rest)"
proof -
  have w: "to_be_bytes v = write_u32 v" for v by (simp add: write_u32_def)
  show ?thesis
    by (simp add: parse_index_header_def index_header_serialize_def rd_bind_apply w ensure_def
        BIT_INDEX_HEADER_SIG_def BIT_INDEX_VERSION_def read_exact_def)
qed

definition index_extensions :: "index_inner \<Rightarrow> byte list" where
  "index_extensions idx =
     (case index_tree_cache idx of None \<Rightarrow> [] | Some tc \<Rightarrow> BIT_INDEX_TREECACHE_SIG @ write_with_size (tc_serialize tc))
     @ (case reuc idx of None \<Rightarrow> [] | Some r \<Rightarrow> BIT_INDEX_REUC_SIG @ write_with_size r)"

lemma parse_index_extensions:
  assumes "index_file_ok idx" "length hash = OID_SIZE"
  obtains exts where "parse_extensions (index_extensions idx @ hash) = Inr exts"
    and "transpose_ext (exts BIT_INDEX_TREECACHE_SIG) tc_deserialize = Inr (index_tree_cache idx)"
    and "transpose_ext (exts BIT_INDEX_REUC_SIG) (\<lambda>data. Inr data) = Inr (reuc idx)"
proof -
  have sigs: "length BIT_INDEX_TREECACHE_SIG = 4" "length BIT_INDEX_REUC_SIG = 4"
    "BIT_INDEX_TREECACHE_SIG \<noteq> BIT_INDEX_REUC_SIG"
    by (simp_all add: BIT_INDEX_TREECACHE_SIG_def BIT_INDEX_REUC_SIG_def)
  have tc: "tc_deserialize (tc_serialize tc) = Inr tc" "length (tc_serialize tc) < 2 ^ 32"
    if "index_tree_cache idx = Some tc" for tc
    using assms(1) that tc_roundtrip by (auto simp: index_file_ok_def)
  have ru: "length r < 2 ^ 32" if "reuc idx = Some r" for r
    using assms(1) that by (auto simp: index_file_ok_def)
  let ?x = "\<lambda>sig d. \<lparr>x_signature = sig, x_size = of_nat (length d), x_data = d\<rparr>"
  let ?m = "case index_tree_cache idx of None \<Rightarrow> Map.empty
    | Some tc \<Rightarrow> [BIT_INDEX_TREECACHE_SIG \<mapsto> ?x BIT_INDEX_TREECACHE_SIG (tc_serialize tc)]"
  let ?exts = "case reuc idx of None \<Rightarrow> ?m | Some r \<Rightarrow> ?m(BIT_INDEX_REUC_SIG \<mapsto> ?x BIT_INDEX_REUC_SIG r)"
  note step = parse_extension_step [OF sigs(1)] parse_extension_step [OF sigs(2)]
  show ?thesis
  proof (rule that [of ?exts])
    show "parse_extensions (index_extensions idx @ hash) = Inr ?exts"
      by (cases "index_tree_cache idx"; cases "reuc idx")
        (simp_all add: parse_extensions_def index_extensions_def step tc(1) tc(2) [simplified] ru [simplified] assms(2) parse_extensions_end sigs)
    show "transpose_ext (?exts BIT_INDEX_TREECACHE_SIG) tc_deserialize = Inr (index_tree_cache idx)"
      by (cases "index_tree_cache idx"; cases "reuc idx") (simp_all add: transpose_ext_def tc sigs)
    show "transpose_ext (?exts BIT_INDEX_REUC_SIG) (\<lambda>data. Inr data) = Inr (reuc idx)"
      by (cases "index_tree_cache idx"; cases "reuc idx") (simp_all add: transpose_ext_def sigs(3) [symmetric])
  qed
qed

lemma index_roundtrip_aux:
  assumes "index_file_ok idx" "\<And>x. length (sha1 x) = OID_SIZE"
  shows "index_serialize sha1 idx = Inr (index_body idx @ sha1 (index_body idx))"
    and "index_deserialize sha1 (index_body idx @ sha1 (index_body idx)) = Inr idx"
proof -
  have ok: "index_ok idx" "length (entries idx) < 2 ^ 32"
    "list_all (\<lambda>(k, e). index_entry_valid e \<and> is_relative (ie_path e)) (entries idx)"
    using assms(1) by (simp_all add: index_file_ok_def)
  then show "index_serialize sha1 idx = Inr (index_body idx @ sha1 (index_body idx))"
    by (auto simp: index_serialize_def ensure_def list_all_iff)
  let ?h = "\<lparr>h_signature = BIT_INDEX_HEADER_SIG, h_version = BIT_INDEX_VERSION, h_entryc = of_nat (length (entries idx))\<rparr>"
  let ?es = "map snd (entries idx)"
  define ext where "ext = index_extensions idx"
  define hash where "hash = sha1 (index_body idx)"
  have hash: "length hash = OID_SIZE" using assms(2) by (simp add: hash_def)
  have body': "index_body idx = index_header_serialize ?h @ write_iter entry_bytes ?es @ ext"
    by (simp add: index_body_def ext_def index_extensions_def)
  then have body: "index_body idx @ hash = index_header_serialize ?h @ write_iter entry_bytes ?es @ ext @ hash" by simp
  have vec: "read_vec entry_deserialize (length ?es) (write_iter entry_bytes ?es @ ext @ hash) = Inr (?es, ext @ hash)"
    by (rule index_entry_codec.read_vec_roundtrip) (use ok(3) in \<open>auto simp: list_all_iff\<close>)
  have "unat (of_nat (length (entries idx)) :: u32) = length ?es" using ok(2) by (simp add: unat_of_nat)
  moreover obtain exts where "parse_extensions (ext @ hash) = Inr exts"
    and "transpose_ext (exts BIT_INDEX_TREECACHE_SIG) tc_deserialize = Inr (index_tree_cache idx)"
    and "transpose_ext (exts BIT_INDEX_REUC_SIG) (\<lambda>data. Inr data) = Inr (reuc idx)"
    unfolding ext_def using parse_index_extensions [OF assms(1) hash] by blast
  ultimately show "index_deserialize sha1 (index_body idx @ sha1 (index_body idx)) = Inr idx"
    unfolding hash_def [symmetric]
    using hash vec entries_from_iter_self [OF ok(1)]
    by (simp add: index_deserialize_def body parse_index_header_write ensure_def Let_def)
      (simp add: hash_def body')
qed

text \<open>
  C18. The index file round trip: what \<open>serialize\<close> writes (header, padded entries, tree cache and
  resolve-undo extensions, checksum) is read back by \<open>deserialize\<close> as the same index, for every hash function
  with 20-byte values.
\<close>

theorem index_roundtrip:
  assumes "index_file_ok idx" "\<And>x. length (sha1 x) = OID_SIZE"
  shows "\<exists>bs. index_serialize sha1 idx = Inr bs \<and> index_deserialize sha1 bs = Inr idx"
  using index_roundtrip_aux [of idx sha1] assms by blast

definition sample_index :: index_inner where
  "sample_index = (index_of [''a'', ''foo''])\<lparr>index_tree_cache := Some sample_cache, reuc := Some [1, 2]\<rparr>"

lemma sample_index_file_ok: "index_file_ok sample_index"
proof -
  have "tc_wf sample_cache"
    by (simp add: sample_cache_def oid_wf_def EMPTY_TREE_def EMPTY_BLOB_def OID_SIZE_def utf8_valid_ascii ascii_def)
  moreover have "length (tc_serialize sample_cache) < 100" by code_simp
  moreover have "index_ok sample_index"
    "list_all (\<lambda>(k, e). index_entry_valid e \<and> is_relative (ie_path e)) (entries sample_index)"
    "length (entries sample_index) = 2" by code_simp+
  ultimately show ?thesis by (simp add: index_file_ok_def sample_index_def)
qed

theorem index_roundtrip_witness:
  "\<exists>bs. index_serialize (\<lambda>_. UNKNOWN) sample_index = Inr bs \<and> index_deserialize (\<lambda>_. UNKNOWN) bs = Inr sample_index"
  by (rule index_roundtrip [OF sample_index_file_ok]) (simp add: UNKNOWN_def OID_SIZE_def)

text \<open>
  C36. An index that is read is always well formed and authentic: the last 20 bytes of the file are
  the hash of the rest, the entries are sorted by path and stage without duplicates and each is
  filed under its own path and stage.
\<close>

theorem index_deserialize_ok:
  "index_deserialize sha1 buf = Inr idx \<Longrightarrow>
   index_ok idx \<and> sha1 (take (length buf - OID_SIZE) buf) = drop (length buf - OID_SIZE) buf"
  using entries_from_iter_ok
  by (fastforce simp: index_deserialize_def and_then_eq_Inr ensure_eq_Inr Let_def index_ok_def)

theorem index_deserialize_ok_witness: "index_ok sample_index"
  using index_roundtrip_aux(2) [OF sample_index_file_ok, of "\<lambda>_. UNKNOWN"]
    index_deserialize_ok [of "\<lambda>_. UNKNOWN" "index_body sample_index @ UNKNOWN" sample_index]
  by (simp add: UNKNOWN_def OID_SIZE_def)

end
