(* ===== verification/Bit_Lockfile.thy ===== *)
theory Bit_Lockfile
  imports Bit_Path
begin

text \<open>
  Lock files, \<^verbatim>\<open>libbit/src/lockfile.rs\<close>: \<open>Lockfile\<close> guards a file by creating a second file beside it,
  buffers what is written and renames the second file over the first on commit; \<open>Filelock\<close> keeps
  deserialised data under such a lock and writes it back when it is dropped. The file system is a
  table of names and a table of file nodes, so that a handle still reaches its node after a rename.
\<close>

section \<open>Model: the file system\<close>

datatype node = FileNode (node_bytes: "byte list") (node_readonly: bool) | OtherNode

record fs =
  names :: "byte list \<rightharpoonup> nat"
  nodes :: "nat \<Rightarrow> node"
  next_node :: nat

definition fs_exists :: "fs \<Rightarrow> byte list \<Rightarrow> bool" where
  "fs_exists s p \<longleftrightarrow> names s p \<noteq> None"

definition fs_content :: "fs \<Rightarrow> byte list \<Rightarrow> byte list option" where
  "fs_content s p =
     (case names s p of
        None \<Rightarrow> None
      | Some i \<Rightarrow> (case nodes s i of FileNode bs _ \<Rightarrow> Some bs | OtherNode \<Rightarrow> None))"

definition fs_append :: "nat \<Rightarrow> byte list \<Rightarrow> fs \<Rightarrow> fs" where
  "fs_append i bs s =
     (case nodes s i of
        FileNode old ro \<Rightarrow> s\<lparr>nodes := (nodes s)(i := FileNode (old @ bs) ro)\<rparr>
      | OtherNode \<Rightarrow> s)"

definition fs_set_readonly :: "byte list \<Rightarrow> bool \<Rightarrow> fs \<Rightarrow> fs" where
  "fs_set_readonly p ro s =
     (case names s p of
        None \<Rightarrow> s
      | Some i \<Rightarrow> (case nodes s i of
            FileNode bs _ \<Rightarrow> s\<lparr>nodes := (nodes s)(i := FileNode bs ro)\<rparr>
          | OtherNode \<Rightarrow> s))"

text \<open>
  \<open>Path::with_extension\<close>: the extension of the last part is replaced; a leading dot does not start an
  extension.
\<close>

definition file_stem :: "byte list \<Rightarrow> byte list" where
  "file_stem name =
     (let r = rev name; ext = takeWhile (\<lambda>b. b \<noteq> 46) r; rest = drop (length ext) r
      in case rest of
           [] \<Rightarrow> name
         | _ # stem \<Rightarrow> if stem = [] \<or> name = [46, 46] then name else rev stem)"

definition with_extension :: "byte list \<Rightarrow> byte list \<Rightarrow> byte list" where
  "with_extension p ext =
     (let segs = split_on b_slash p
      in join_on b_slash (butlast segs @ [file_stem (last segs) @ 46 # ext]))"

definition LOCK_FILE_EXT :: "byte list" where
  "LOCK_FILE_EXT = bytes_of ''lock''"

section \<open>Model: lock files\<close>

record lockfile =
  lk_file :: "nat option"
  lk_node :: nat
  lk_buffer :: "byte list"
  lk_set_readonly :: bool
  lk_path :: "byte list"
  lk_lockfile_path :: "byte list"
  lk_committed :: bool
  lk_rolled_back :: bool

text \<open>Creating the directories above the file is left out: they have no node in this table.\<close>

definition lockfile_open :: "byte list \<Rightarrow> bool \<Rightarrow> fs \<Rightarrow> (lockfile \<times> fs) bit_result" where
  "lockfile_open p set_readonly s =
     (if fs_exists s p \<and> fs_content s p = None then Inl Panic
      else let lp = with_extension p LOCK_FILE_EXT in
        if fs_exists s lp then Inl (Bail ''failed to lock file'')
        else let i = next_node s;
                 s' = s\<lparr>names := (names s)(lp \<mapsto> i), nodes := (nodes s)(i := FileNode [] False), next_node := Suc i\<rparr>
             in Inr (\<lparr>lk_file = names s' p, lk_node = i, lk_buffer = [], lk_set_readonly = set_readonly,
                      lk_path = p, lk_lockfile_path = lp, lk_committed = False, lk_rolled_back = False\<rparr>, s'))"

text \<open>
  \<open>BufWriter\<close>: bytes stay in the buffer of 8 KiB until it would overflow; a write of that size
  goes straight to the file.
\<close>

definition BUF_SIZE :: nat where
  "BUF_SIZE = 8192"

definition lockfile_flush :: "lockfile \<Rightarrow> fs \<Rightarrow> lockfile \<times> fs" where
  "lockfile_flush lk s = (lk\<lparr>lk_buffer := []\<rparr>, fs_append (lk_node lk) (lk_buffer lk) s)"

definition lockfile_write :: "byte list \<Rightarrow> lockfile \<Rightarrow> fs \<Rightarrow> lockfile \<times> fs" where
  "lockfile_write buf lk s =
     (let (lk, s) = (if length (lk_buffer lk) + length buf > BUF_SIZE then lockfile_flush lk s else (lk, s))
      in if length buf \<ge> BUF_SIZE then (lk, fs_append (lk_node lk) buf s)
         else (lk\<lparr>lk_buffer := lk_buffer lk @ buf\<rparr>, s))"

definition lockfile_commit :: "lockfile \<Rightarrow> fs \<Rightarrow> (lockfile \<times> fs) bit_result" where
  "lockfile_commit lk s =
     (if lk_rolled_back lk then Inr (lk, s)
      else let p = lk_path lk; lp = lk_lockfile_path lk;
               s1 = (if lk_set_readonly lk \<and> fs_exists s p then fs_set_readonly p False s else s)
           in case names s1 lp of
                None \<Rightarrow> Inl (Bail ''No such file or directory'')
              | Some i \<Rightarrow>
                  let s2 = s1\<lparr>names := (names s1)(lp := None, p \<mapsto> i)\<rparr>;
                      s3 = (if lk_set_readonly lk then fs_set_readonly p True s2 else s2)
                  in Inr (lk\<lparr>lk_committed := True\<rparr>, s3))"

definition lockfile_rollback :: "lockfile \<Rightarrow> lockfile" where
  "lockfile_rollback lk = lk\<lparr>lk_rolled_back := True\<rparr>"

definition lockfile_cleanup :: "lockfile \<Rightarrow> fs \<Rightarrow> fs bit_result" where
  "lockfile_cleanup lk s =
     (if fs_exists s (lk_lockfile_path lk) then Inr (s\<lparr>names := (names s)(lk_lockfile_path lk := None)\<rparr>)
      else Inl (Bail ''failed to remove lockfile''))"

text \<open>
  Dropping: \<open>Drop for Lockfile\<close>, then the fields; the buffer is written to the node by the drop of
  \<open>BufWriter\<close>.
\<close>

definition lockfile_drop :: "lockfile \<Rightarrow> fs \<Rightarrow> fs bit_result" where
  "lockfile_drop lk s =
     (if lk_rolled_back lk \<and> lk_committed lk then Inl Panic
      else and_then
        (if lk_rolled_back lk \<or> \<not> lk_committed lk
         then (case lockfile_cleanup lk s of Inl _ \<Rightarrow> Inl Panic | Inr s' \<Rightarrow> Inr s')
         else Inr s)
        (\<lambda>s. Inr (snd (lockfile_flush lk s))))"

text \<open>
  \<open>with_readonly\<close> and \<open>with_mut\<close>. The closure gets the lock file and the file system; the result of the
  whole is the closure's (or the commit's) and the file system after the drop.
\<close>

definition with_readonly :: "byte list \<Rightarrow> bool \<Rightarrow> (lockfile \<Rightarrow> fs \<Rightarrow> 'r bit_result) \<Rightarrow> fs \<Rightarrow> ('r bit_result \<times> fs) bit_result" where
  "with_readonly p flags f s =
     and_then (lockfile_open p flags s) (\<lambda>(lk, s).
     let r = f lk s
     in and_then (lockfile_drop (lockfile_rollback lk) s) (\<lambda>s. Inr (r, s)))"

definition with_mut :: "byte list \<Rightarrow> bool \<Rightarrow> (lockfile \<Rightarrow> fs \<Rightarrow> 'r bit_result \<times> lockfile \<times> fs) \<Rightarrow> fs \<Rightarrow> ('r bit_result \<times> fs) bit_result" where
  "with_mut p flags f s =
     and_then (lockfile_open p flags s) (\<lambda>(lk, s).
     case f lk s of
       (Inr r, lk, s) \<Rightarrow>
         (case lockfile_commit lk s of
            Inl e \<Rightarrow> and_then (lockfile_drop lk s) (\<lambda>s. Inr (Inl e, s))
          | Inr (lk, s) \<Rightarrow> and_then (lockfile_drop lk s) (\<lambda>s. Inr (Inr r, s)))
     | (Inl e, lk, s) \<Rightarrow> and_then (lockfile_drop (lockfile_rollback lk) s) (\<lambda>s. Inr (Inl e, s)))"

section \<open>Model: locks that hold data\<close>

record 'a filelock =
  fl_data :: 'a
  fl_lockfile :: lockfile
  fl_dirty :: bool
  fl_rolled_back :: bool

definition filelock_lock ::
  "(byte list \<Rightarrow> 'a bit_result) \<Rightarrow> 'a \<Rightarrow> byte list \<Rightarrow> bool \<Rightarrow> fs \<Rightarrow> ('a filelock bit_result \<times> fs) bit_result" where
  "filelock_lock de dflt p flags s =
     and_then (lockfile_open p flags s) (\<lambda>(lk, s).
     case (case lk_file lk of
             None \<Rightarrow> Inr dflt
           | Some i \<Rightarrow> (case nodes s i of FileNode bs _ \<Rightarrow> de bs | OtherNode \<Rightarrow> Inl Panic)) of
       Inl e \<Rightarrow> and_then (lockfile_drop lk s) (\<lambda>s. Inr (Inl e, s))
     | Inr d \<Rightarrow> Inr (Inr \<lparr>fl_data = d, fl_lockfile = lk, fl_dirty = False, fl_rolled_back = False\<rparr>, s))"

definition filelock_rollback :: "'a filelock \<Rightarrow> 'a filelock" where
  "filelock_rollback fl = fl\<lparr>fl_rolled_back := True, fl_lockfile := lockfile_rollback (fl_lockfile fl)\<rparr>"

definition filelock_deref :: "'a filelock \<Rightarrow> 'a bit_result" where
  "filelock_deref fl = (if fl_rolled_back fl then Inl Panic else Inr (fl_data fl))"

text \<open>A mutable borrow marks the data dirty, whatever is done with it.\<close>

definition filelock_modify :: "('a \<Rightarrow> 'a) \<Rightarrow> 'a filelock \<Rightarrow> 'a filelock bit_result" where
  "filelock_modify f fl =
     (if fl_rolled_back fl then Inl Panic else Inr (fl\<lparr>fl_dirty := True, fl_data := f (fl_data fl)\<rparr>))"

definition filelock_drop :: "('a \<Rightarrow> byte list) \<Rightarrow> 'a filelock \<Rightarrow> fs \<Rightarrow> fs bit_result" where
  "filelock_drop ser fl s =
     (if fl_rolled_back fl \<or> \<not> fl_dirty fl then lockfile_drop (fl_lockfile fl) s
      else let (lk, s) = lockfile_write (ser (fl_data fl)) (fl_lockfile fl) s
           in case lockfile_commit lk s of
                Inl e \<Rightarrow> Inl Panic
              | Inr (lk, s) \<Rightarrow> lockfile_drop lk s)"

section \<open>Writing\<close>

text \<open>Every name has a node that was allocated, and no two names share one.\<close>

definition fs_ok :: "fs \<Rightarrow> bool" where
  "fs_ok s \<longleftrightarrow>
     (\<forall>p i. names s p = Some i \<longrightarrow> i < next_node s)
     \<and> (\<forall>p q i. names s p = Some i \<and> names s q = Some i \<longrightarrow> p = q)"

definition lock_path :: "byte list \<Rightarrow> byte list" where
  "lock_path p = with_extension p LOCK_FILE_EXT"

fun write_all :: "byte list list \<Rightarrow> lockfile \<Rightarrow> fs \<Rightarrow> lockfile \<times> fs" where
  "write_all [] lk s = (lk, s)"
| "write_all (c # cs) lk s = (let (lk, s) = lockfile_write c lk s in write_all cs lk s)"

lemma fs_set_readonly_names [simp]:
  "names (fs_set_readonly p ro s) = names s" "next_node (fs_set_readonly p ro s) = next_node s"
  by (auto simp: fs_set_readonly_def split: option.splits node.splits)

lemma fs_fresh: "fs_ok s \<Longrightarrow> names s q = Some i \<Longrightarrow> i \<noteq> next_node s"
  by (auto simp: fs_ok_def)

lemma fs_names_inj: "fs_ok s \<Longrightarrow> names s p = Some i \<Longrightarrow> names s q = Some i \<Longrightarrow> p = q"
  by (auto simp: fs_ok_def)

lemma fs_append_node:
  "nodes s i = FileNode a ro \<Longrightarrow> fs_append i bs s = s\<lparr>nodes := (nodes s)(i := FileNode (a @ bs) ro)\<rparr>"
  by (simp add: fs_append_def)

text \<open>However the buffer is flushed, the node and the buffer together hold what was written.\<close>

definition appended :: "lockfile \<Rightarrow> fs \<Rightarrow> byte list \<Rightarrow> lockfile \<times> fs \<Rightarrow> bool" where
  "appended lk s bs r \<longleftrightarrow>
     (\<forall>a ro. nodes s (lk_node lk) = FileNode a ro \<longrightarrow>
       (\<exists>a' b'. fst r = lk\<lparr>lk_buffer := b'\<rparr> \<and> names (snd r) = names s \<and> next_node (snd r) = next_node s
          \<and> nodes (snd r) = (nodes s)(lk_node lk := FileNode a' ro) \<and> a' @ b' = a @ lk_buffer lk @ bs))"

lemma lockfile_write_spec: "appended lk s c (lockfile_write c lk s)"
  unfolding appended_def
proof (intro allI impI)
  fix a ro assume node: "nodes s (lk_node lk) = FileNode a ro"
  then have id: "(nodes s)(lk_node lk := FileNode a ro) = nodes s" by (simp add: fun_upd_idem)
  consider (over) "length (lk_buffer lk) + length c > BUF_SIZE" "length c \<ge> BUF_SIZE"
    | (flush) "length (lk_buffer lk) + length c > BUF_SIZE" "length c < BUF_SIZE"
    | (big) "length (lk_buffer lk) + length c \<le> BUF_SIZE" "length c \<ge> BUF_SIZE"
    | (small) "length (lk_buffer lk) + length c \<le> BUF_SIZE" "length c < BUF_SIZE" by linarith
  then show "\<exists>a' b'. fst (lockfile_write c lk s) = lk\<lparr>lk_buffer := b'\<rparr>
      \<and> names (snd (lockfile_write c lk s)) = names s \<and> next_node (snd (lockfile_write c lk s)) = next_node s
      \<and> nodes (snd (lockfile_write c lk s)) = (nodes s)(lk_node lk := FileNode a' ro) \<and> a' @ b' = a @ lk_buffer lk @ c"
  proof cases
    case over
    then show ?thesis using node
      by (intro exI [of _ "a @ lk_buffer lk @ c"] exI [of _ "[]"]) (simp add: lockfile_write_def lockfile_flush_def fs_append_node)
  next
    case flush
    then show ?thesis using node
      by (intro exI [of _ "a @ lk_buffer lk"] exI [of _ c]) (simp add: lockfile_write_def lockfile_flush_def fs_append_node)
  next
    case big
    then have "length (lk_buffer lk) = 0" by linarith
    then have "lk_buffer lk = []" by simp
    with big show ?thesis using node
      by (intro exI [of _ "a @ c"] exI [of _ "[]"]) (simp add: lockfile_write_def fs_append_node)
  next
    case small
    with id show ?thesis by (intro exI [of _ a] exI [of _ "lk_buffer lk @ c"]) (simp add: lockfile_write_def)
  qed
qed

lemma write_all_spec: "appended lk s (concat cs) (write_all cs lk s)"
proof (induction cs arbitrary: lk s)
  case Nil
  show ?case unfolding appended_def
    by (intro allI impI, rename_tac a ro, rule_tac x = a in exI, rule_tac x = "lk_buffer lk" in exI) (simp add: fun_upd_idem)
next
  case (Cons c cs)
  obtain lk1 s1 where w: "lockfile_write c lk s = (lk1, s1)" by fastforce
  have one: "appended lk s c (lk1, s1)" using lockfile_write_spec [of lk s c] by (simp add: w)
  show ?case unfolding appended_def
  proof (intro allI impI)
    fix a ro assume "nodes s (lk_node lk) = FileNode a ro"
    with one obtain a1 b1 where 1: "lk1 = lk\<lparr>lk_buffer := b1\<rparr>" "names s1 = names s" "next_node s1 = next_node s"
      "nodes s1 = (nodes s)(lk_node lk := FileNode a1 ro)" "a1 @ b1 = a @ lk_buffer lk @ c"
      by (auto simp: appended_def)
    have "nodes s1 (lk_node lk1) = FileNode a1 ro" by (simp add: 1)
    with Cons.IH [of lk1 s1] obtain a2 b2 where 2: "fst (write_all cs lk1 s1) = lk1\<lparr>lk_buffer := b2\<rparr>"
      "names (snd (write_all cs lk1 s1)) = names s1" "next_node (snd (write_all cs lk1 s1)) = next_node s1"
      "nodes (snd (write_all cs lk1 s1)) = (nodes s1)(lk_node lk1 := FileNode a2 ro)" "a2 @ b2 = a1 @ lk_buffer lk1 @ concat cs"
      unfolding appended_def by blast
    have "a2 @ b2 = (a1 @ b1) @ concat cs" using 2(5) by (simp add: 1(1))
    then have "a2 @ b2 = a @ lk_buffer lk @ concat (c # cs)" by (simp add: 1(5))
    then show "\<exists>a' b'. fst (write_all (c # cs) lk s) = lk\<lparr>lk_buffer := b'\<rparr>
        \<and> names (snd (write_all (c # cs) lk s)) = names s \<and> next_node (snd (write_all (c # cs) lk s)) = next_node s
        \<and> nodes (snd (write_all (c # cs) lk s)) = (nodes s)(lk_node lk := FileNode a' ro)
        \<and> a' @ b' = a @ lk_buffer lk @ concat (c # cs)"
      using 1 2 by (intro exI [of _ a2] exI [of _ b2]) (simp add: w)
  qed
qed

text \<open>A file system at rest: no lock file is there, so every file can be locked.\<close>

definition lock_suffix :: "byte list" where
  "lock_suffix = bytes_of ''.lock''"

definition no_locks :: "fs \<Rightarrow> bool" where
  "no_locks s \<longleftrightarrow> (\<forall>q. suffix lock_suffix q \<longrightarrow> names s q = None)"

lemma lock_path_suffix: "suffix lock_suffix (lock_path p)"
proof -
  have j: "suffix x (join_on b_slash (xs @ [x]))" for x xs
    by (induction xs) (auto simp: join_on_Cons suffix_def)
  have "suffix lock_suffix (y @ 46 # LOCK_FILE_EXT)" for y
    by (simp add: lock_suffix_def LOCK_FILE_EXT_def suffix_def)
  then show ?thesis unfolding lock_path_def with_extension_def Let_def
    using j suffix_order.trans by blast
qed

lemma open_rest:
  assumes "no_locks s" "fs_exists s p \<longrightarrow> fs_content s p \<noteq> None"
  shows "\<exists>lk s1. lockfile_open p flags s = Inr (lk, s1)"
proof -
  have "names s (with_extension p LOCK_FILE_EXT) = None"
    using assms(1) lock_path_suffix by (simp add: no_locks_def lock_path_def)
  then show ?thesis using assms(2) by (auto simp: lockfile_open_def fs_exists_def Let_def)
qed

section \<open>Transactions\<close>

text \<open>
  A closure that may read the guarded file and then writes some pieces, and succeeds or fails.
\<close>

definition closure ::
  "(byte list option \<Rightarrow> byte list list \<times> 'r bit_result) \<Rightarrow> lockfile \<Rightarrow> fs \<Rightarrow> 'r bit_result \<times> lockfile \<times> fs" where
  "closure g lk s =
     (let (cs, r) = g (case lk_file lk of None \<Rightarrow> None
                       | Some i \<Rightarrow> (case nodes s i of FileNode bs _ \<Rightarrow> Some bs | OtherNode \<Rightarrow> None));
          (lk', s') = write_all cs lk s
      in (r, lk', s'))"

text \<open>
  \<open>held s p flags a b lk s1\<close>: the lock on \<open>p\<close> was taken in the state \<open>s\<close>; in the present state \<open>s1\<close>
  the bytes \<open>a\<close> have reached the lock file and \<open>b\<close> are in the buffer.
\<close>

definition held :: "fs \<Rightarrow> byte list \<Rightarrow> bool \<Rightarrow> byte list \<Rightarrow> byte list \<Rightarrow> lockfile \<Rightarrow> fs \<Rightarrow> bool" where
  "held s p flags a b lk s1 \<longleftrightarrow>
     names s (lock_path p) = None
     \<and> lk = \<lparr>lk_file = names s1 p, lk_node = next_node s, lk_buffer = b, lk_set_readonly = flags, lk_path = p,
            lk_lockfile_path = lock_path p, lk_committed = False, lk_rolled_back = False\<rparr>
     \<and> names s1 = (names s)(lock_path p \<mapsto> next_node s)
     \<and> nodes s1 = (nodes s)(next_node s := FileNode a False) \<and> next_node s1 = Suc (next_node s)"

lemma open_held: "lockfile_open p flags s = Inr (lk, s1) \<Longrightarrow> held s p flags [] [] lk s1"
  by (auto simp: held_def lockfile_open_def lock_path_def fs_exists_def Let_def split: if_splits)

lemma write_held:
  assumes "held s p flags a b lk s1"
  obtains a' b' lk' s2 where "write_all cs lk s1 = (lk', s2)" "held s p flags a' b' lk' s2" "a' @ b' = a @ b @ concat cs"
proof -
  obtain lk' s2 where w: "write_all cs lk s1 = (lk', s2)" by fastforce
  have "nodes s1 (lk_node lk) = FileNode a False" using assms by (simp add: held_def)
  then obtain a' b' where r: "lk' = lk\<lparr>lk_buffer := b'\<rparr>" "names s2 = names s1" "next_node s2 = next_node s1"
    "nodes s2 = (nodes s1)(lk_node lk := FileNode a' False)" "a' @ b' = a @ lk_buffer lk @ concat cs"
    using write_all_spec [of lk s1 cs] by (auto simp: appended_def w)
  have "held s p flags a' b' lk' s2" using assms r by (simp add: held_def)
  moreover have "a' @ b' = a @ b @ concat cs" using r(5) assms by (simp add: held_def)
  ultimately show ?thesis using that w by blast
qed

text \<open>The states after a rollback and after a commit, each followed by the drop.\<close>

definition rolled_back_to :: "fs \<Rightarrow> fs \<Rightarrow> bool" where
  "rolled_back_to s s' \<longleftrightarrow>
     names s' = names s \<and> next_node s' = Suc (next_node s) \<and> (\<forall>i. i \<noteq> next_node s \<longrightarrow> nodes s' i = nodes s i)"

definition committed_to :: "fs \<Rightarrow> byte list \<Rightarrow> bool \<Rightarrow> byte list \<Rightarrow> fs \<Rightarrow> bool" where
  "committed_to s p flags bs s' \<longleftrightarrow>
     names s' = (names s)(p \<mapsto> next_node s) \<and> next_node s' = Suc (next_node s)
     \<and> nodes s' (next_node s) = FileNode bs flags
     \<and> (\<forall>i. i \<noteq> next_node s \<and> names s p \<noteq> Some i \<longrightarrow> nodes s' i = nodes s i)"

lemma rollback_drop:
  assumes "held s p flags a b lk s1" "lk' = lk \<or> lk' = lockfile_rollback lk"
  obtains s2 where "lockfile_drop lk' s1 = Inr s2" "rolled_back_to s s2"
proof -
  have "names s (lock_path p) = None" using assms(1) by (simp add: held_def)
  then have id: "(names s)(lock_path p := None) = names s" by (simp add: fun_upd_idem)
  let ?s2 = "fs_append (next_node s) b (s1\<lparr>names := (names s1)(lock_path p := None)\<rparr>)"
  have "lockfile_drop lk' s1 = Inr ?s2"
    using assms by (auto simp: held_def lockfile_rollback_def lockfile_drop_def lockfile_cleanup_def fs_exists_def lockfile_flush_def)
  moreover have "rolled_back_to s ?s2" using assms(1) id by (simp add: held_def rolled_back_to_def fs_append_def)
  ultimately show ?thesis by (rule that)
qed

lemma commit_held:
  assumes "held s p flags a b lk s1" "lock_path p \<noteq> p" "\<forall>i. names s p = Some i \<longrightarrow> i \<noteq> next_node s"
  obtains s2 where "lockfile_commit lk s1 = Inr (lk\<lparr>lk_committed := True\<rparr>, s2)" "committed_to s p flags a s2"
proof -
  let ?n = "next_node s"
  have lp: "names s (lock_path p) = None" using assms(1) by (simp add: held_def)
  define s1' where "s1' = (if flags \<and> fs_exists s1 p then fs_set_readonly p False s1 else s1)"
  have n1: "names s1' = names s1" "next_node s1' = next_node s1" by (auto simp: s1'_def)
  have nodes1: "nodes s1' i = nodes s1 i" if "names s p \<noteq> Some i" for i
    using that assms by (auto simp: s1'_def fs_set_readonly_def held_def split: option.splits node.splits)
  from nodes1 [of ?n] have top: "nodes s1' ?n = FileNode a False" using assms by (auto simp: held_def)
  define s2 where "s2 = s1'\<lparr>names := (names s1')(lock_path p := None, p \<mapsto> ?n)\<rparr>"
  define s3 where "s3 = (if flags then fs_set_readonly p True s2 else s2)"
  have "names s2 = (names s)(p \<mapsto> ?n)" using assms lp n1 by (auto simp: s2_def held_def)
  then have s3: "names s3 = (names s)(p \<mapsto> ?n)" "next_node s3 = Suc ?n" "nodes s3 ?n = FileNode a flags"
    "\<And>i. i \<noteq> ?n \<Longrightarrow> nodes s3 i = nodes s1' i"
    using assms top n1 by (auto simp: s3_def s2_def fs_set_readonly_def held_def)
  have "lockfile_commit lk s1 = Inr (lk\<lparr>lk_committed := True\<rparr>, s3)"
    using assms n1 unfolding s3_def s2_def s1'_def by (simp add: lockfile_commit_def held_def Let_def)
  moreover have "committed_to s p flags a s3"
    using s3 nodes1 assms by (auto simp: committed_to_def held_def)
  ultimately show ?thesis by (rule that)
qed

lemma drop_committed:
  assumes "held s p flags a b lk s1" "committed_to s p flags a s2"
  obtains s3 where "lockfile_drop (lk\<lparr>lk_committed := True\<rparr>) s2 = Inr s3" "committed_to s p flags (a @ b) s3"
proof -
  have "lockfile_drop (lk\<lparr>lk_committed := True\<rparr>) s2 = Inr (fs_append (next_node s) b s2)"
    using assms(1) by (simp add: held_def lockfile_drop_def lockfile_flush_def)
  moreover have "committed_to s p flags (a @ b) (fs_append (next_node s) b s2)"
    using assms(2) by (simp add: committed_to_def fs_append_def)
  ultimately show ?thesis by (rule that)
qed

lemma fs_ok_rolled_back: "fs_ok s \<Longrightarrow> rolled_back_to s s' \<Longrightarrow> fs_ok s'"
  by (auto simp: fs_ok_def rolled_back_to_def intro: less_SucI)

lemma fs_ok_committed: "fs_ok s \<Longrightarrow> committed_to s p flags bs s' \<Longrightarrow> fs_ok s'"
  by (auto simp: fs_ok_def committed_to_def less_SucI split: if_splits dest: less_irrefl_nat)

text \<open>Every other name has the same node as before, with the same content.\<close>

definition same_elsewhere :: "byte list set \<Rightarrow> fs \<Rightarrow> fs \<Rightarrow> bool" where
  "same_elsewhere ps s s' \<longleftrightarrow>
     (\<forall>q. q \<notin> ps \<longrightarrow> names s' q = names s q \<and> (\<forall>i. names s q = Some i \<longrightarrow> nodes s' i = nodes s i))"

lemma rolled_back_same: "fs_ok s \<Longrightarrow> rolled_back_to s s' \<Longrightarrow> same_elsewhere {} s s' \<and> fs_content s' p = fs_content s p"
  using fs_fresh [of s] by (auto simp: same_elsewhere_def rolled_back_to_def fs_content_def split: option.splits)

lemma committed_same:
  "fs_ok s \<Longrightarrow> committed_to s p flags bs s' \<Longrightarrow> same_elsewhere {p} s s' \<and> fs_content s' p = Some bs"
proof (intro conjI)
  assume ok: "fs_ok s" and cm: "committed_to s p flags bs s'"
  show "fs_content s' p = Some bs" using cm by (simp add: committed_to_def fs_content_def)
  have "nodes s' i = nodes s i" if "q \<noteq> p" "names s q = Some i" for q i
  proof -
    have "names s p \<noteq> Some i" using fs_names_inj [OF ok that(2), of p] that(1) by blast
    then show ?thesis using cm fs_fresh [OF ok that(2)] by (simp add: committed_to_def)
  qed
  then show "same_elsewhere {p} s s'" using cm by (simp add: same_elsewhere_def committed_to_def)
qed

lemma with_mut_outcome:
  assumes ok: "fs_ok s" and lp: "lock_path p \<noteq> p" and op: "lockfile_open p flags s = Inr (lk, s1)"
    and g: "g (fs_content s p) = (cs, r)"
  obtains s' where "with_mut p flags (closure g) s = Inr (r, s')"
    "case r of Inl _ \<Rightarrow> rolled_back_to s s' | Inr _ \<Rightarrow> committed_to s p flags (concat cs) s'"
proof -
  have fresh: "names s q = Some i \<Longrightarrow> i \<noteq> next_node s" for q i using ok by (auto simp: fs_ok_def)
  note h = open_held [OF op]
  have "(case lk_file lk of None \<Rightarrow> None
        | Some i \<Rightarrow> (case nodes s1 i of FileNode bs _ \<Rightarrow> Some bs | OtherNode \<Rightarrow> None)) = fs_content s p"
    using h lp fresh by (auto simp: held_def fs_content_def split: option.splits)
  moreover obtain a b lk2 s2 where w: "write_all cs lk s1 = (lk2, s2)" "held s p flags a b lk2 s2" "a @ b = concat cs"
    by (rule write_held [OF h, of cs]) simp
  ultimately have cl: "closure g lk s1 = (r, lk2, s2)" by (simp add: closure_def g)
  show ?thesis
  proof (cases r)
    case (Inl e)
    obtain s' where "lockfile_drop (lockfile_rollback lk2) s2 = Inr s'" "rolled_back_to s s'"
      using rollback_drop [OF w(2), of "lockfile_rollback lk2"] by blast
    then show ?thesis using that [of s'] Inl by (simp add: with_mut_def op cl)
  next
    case (Inr x)
    obtain s3 where s3: "lockfile_commit lk2 s2 = Inr (lk2\<lparr>lk_committed := True\<rparr>, s3)" "committed_to s p flags a s3"
      using commit_held [OF w(2) lp] fresh by blast
    obtain s' where "lockfile_drop (lk2\<lparr>lk_committed := True\<rparr>) s3 = Inr s'" "committed_to s p flags (a @ b) s'"
      using drop_committed [OF w(2) s3(2)] by blast
    then show ?thesis using that [of s'] Inr s3 w(3) by (simp add: with_mut_def op cl)
  qed
qed

text \<open>
  C20. A transaction under a lock is all or nothing. When the lock can be taken, \<open>with_mut\<close> gives
  the closure's result; if the closure fails, the guarded file is as it was, and if it succeeds, the
  file holds exactly the bytes the closure wrote; every other file is untouched, and the lock file is
  gone. When the lock cannot be taken the closure is not run and nothing changes.
\<close>

theorem with_mut_atomic:
  assumes "fs_ok s" "lock_path p \<noteq> p"
  shows "case lockfile_open p flags s of
      Inl e \<Rightarrow> with_mut p flags (closure g) s = Inl e
    | Inr _ \<Rightarrow>
        (\<exists>s'. with_mut p flags (closure g) s = Inr (snd (g (fs_content s p)), s')
          \<and> fs_ok s' \<and> \<not> fs_exists s' (lock_path p) \<and> same_elsewhere {p} s s'
          \<and> fs_content s' p =
              (case snd (g (fs_content s p)) of
                 Inl _ \<Rightarrow> fs_content s p
               | Inr _ \<Rightarrow> Some (concat (fst (g (fs_content s p))))))"
proof (cases "lockfile_open p flags s")
  case (Inl e)
  then show ?thesis by (simp add: with_mut_def)
next
  case (Inr a)
  then obtain lk s1 where op: "lockfile_open p flags s = Inr (lk, s1)" by (cases a) auto
  obtain cs r where g: "g (fs_content s p) = (cs, r)" by fastforce
  obtain s' where w: "with_mut p flags (closure g) s = Inr (r, s')"
    and out: "case r of Inl _ \<Rightarrow> rolled_back_to s s' | Inr _ \<Rightarrow> committed_to s p flags (concat cs) s'"
    using with_mut_outcome [of s p flags lk s1 g cs r] assms op g by blast
  have lp: "names s (lock_path p) = None" using open_held [OF op] by (simp add: held_def)
  have "fs_ok s' \<and> \<not> fs_exists s' (lock_path p) \<and> same_elsewhere {p} s s'
      \<and> fs_content s' p = (case r of Inl _ \<Rightarrow> fs_content s p | Inr _ \<Rightarrow> Some (concat cs))"
  proof (cases r)
    case (Inl e)
    then have rb: "rolled_back_to s s'" using out by simp
    then show ?thesis using Inl fs_ok_rolled_back [OF assms(1) rb] rolled_back_same [OF assms(1) rb] lp
      by (auto simp: fs_exists_def rolled_back_to_def same_elsewhere_def)
  next
    case (Inr x)
    then have cm: "committed_to s p flags (concat cs) s'" using out by simp
    then show ?thesis using Inr fs_ok_committed [OF assms(1) cm] committed_same [OF assms(1) cm] lp assms(2)
      by (auto simp: fs_exists_def committed_to_def)
  qed
  then show ?thesis using op g w by (simp only: sum.case fst_conv snd_conv) blast
qed

definition sample_fs :: fs where
  "sample_fs = \<lparr>names = [bytes_of ''HEAD'' \<mapsto> 0, bytes_of ''index'' \<mapsto> 1],
     nodes = (\<lambda>i. if i = 0 then FileNode (bytes_of ''old'') True else FileNode [] False), next_node = 2\<rparr>"

lemma sample_fs_ok: "fs_ok sample_fs"
  by (auto simp: fs_ok_def sample_fs_def split: if_splits)

lemma sample_lock_path: "lock_path (bytes_of ''HEAD'') = bytes_of ''HEAD.lock''"
  by code_simp

lemma sample_lock_path_neq: "lock_path (bytes_of ''HEAD'') \<noteq> bytes_of ''HEAD''"
  unfolding sample_lock_path by simp

lemma sample_open: "\<exists>lk s1. lockfile_open (bytes_of ''HEAD'') True sample_fs = Inr (lk, s1)"
  unfolding lockfile_open_def lock_path_def [symmetric] sample_lock_path
  by (simp add: fs_exists_def fs_content_def sample_fs_def Let_def)

theorem with_mut_atomic_witness:
  "\<exists>s'. with_mut (bytes_of ''HEAD'') True (closure (\<lambda>_. ([bytes_of ''ref: '', bytes_of ''main''], Inr ()))) sample_fs = Inr (Inr (), s')
     \<and> fs_content s' (bytes_of ''HEAD'') = Some (bytes_of ''ref: main'')"
proof -
  obtain a where "lockfile_open (bytes_of ''HEAD'') True sample_fs = Inr a" using sample_open by blast
  with with_mut_atomic [OF sample_fs_ok sample_lock_path_neq, of True "\<lambda>_. ([bytes_of ''ref: '', bytes_of ''main''], Inr ())"]
  show ?thesis by auto
qed

text \<open>
  Running a function under a read-only lock never changes a file: afterwards every name has the
  content it had, the lock is released, and the result is the function's.
\<close>

theorem with_readonly_pure:
  assumes "fs_ok s" "lockfile_open p flags s = Inr (lk, s1)"
  shows "\<exists>s'. with_readonly p flags f s = Inr (f lk s1, s') \<and> fs_ok s' \<and> same_elsewhere {} s s'
     \<and> \<not> fs_exists s' (lock_path p)"
proof -
  note h = open_held [OF assms(2)]
  obtain s' where d: "lockfile_drop (lockfile_rollback lk) s1 = Inr s'" "rolled_back_to s s'"
    using rollback_drop [OF h, of "lockfile_rollback lk"] by blast
  have "\<not> fs_exists s' (lock_path p)" using h d(2) by (simp add: held_def rolled_back_to_def fs_exists_def)
  then show ?thesis
    using d fs_ok_rolled_back [OF assms(1) d(2)] rolled_back_same [OF assms(1) d(2)]
    by (simp add: with_readonly_def assms(2))
qed

theorem with_readonly_pure_witness:
  "\<exists>s'. with_readonly (bytes_of ''HEAD'') True (\<lambda>lk s. Inr (1::nat)) sample_fs = Inr (Inr 1, s') \<and> same_elsewhere {} sample_fs s'"
  using sample_open with_readonly_pure [OF sample_fs_ok] by metis

lemma filelock_lock_held:
  assumes "filelock_lock de dflt p flags s = Inr (Inr fl, s1)"
  obtains lk where "lockfile_open p flags s = Inr (lk, s1)" "fl_lockfile fl = lk" "\<not> fl_dirty fl" "\<not> fl_rolled_back fl"
proof -
  obtain lk s2 where op: "lockfile_open p flags s = Inr (lk, s2)"
    using assms by (auto simp: filelock_lock_def and_then_eq_Inr)
  let ?d = "case lk_file lk of None \<Rightarrow> Inr dflt
    | Some i \<Rightarrow> (case nodes s2 i of FileNode bs _ \<Rightarrow> de bs | OtherNode \<Rightarrow> Inl Panic)"
  show ?thesis using assms that op by (cases ?d) (auto simp: filelock_lock_def and_then_eq_Inr)
qed

lemma filelock_drop_aux:
  assumes "fs_ok s" "lock_path p \<noteq> p" "filelock_lock de dflt p flags s = Inr (Inr fl, s1)"
    and "fl' = fl \<or> fl' = filelock_rollback fl \<or> filelock_modify f fl = Inr fl'"
  shows "\<exists>s'. filelock_drop ser fl' s1 = Inr s' \<and> fs_ok s' \<and> \<not> fs_exists s' (lock_path p)
     \<and> same_elsewhere {p} s s'
     \<and> fs_content s' p = (if filelock_modify f fl = Inr fl' then Some (ser (f (fl_data fl))) else fs_content s p)"
proof -
  obtain lk where op: "lockfile_open p flags s = Inr (lk, s1)"
    and fl: "fl_lockfile fl = lk" "\<not> fl_dirty fl" "\<not> fl_rolled_back fl"
    using assms(3) by (rule filelock_lock_held)
  note h = open_held [OF op]
  have lp: "names s (lock_path p) = None" using h by (simp add: held_def)
  show ?thesis
  proof (cases "filelock_modify f fl = Inr fl'")
    case True
    then have fl': "fl_lockfile fl' = lk" "fl_dirty fl'" "\<not> fl_rolled_back fl'" "fl_data fl' = f (fl_data fl)"
      using fl by (auto simp: filelock_modify_def)
    have "write_all [ser (fl_data fl')] lk s1 = lockfile_write (ser (fl_data fl')) lk s1" by (simp split: prod.splits)
    then obtain a b lk2 s2 where w: "lockfile_write (ser (fl_data fl')) lk s1 = (lk2, s2)" "held s p flags a b lk2 s2"
      "a @ b = ser (fl_data fl')"
      using write_held [OF h, of "[ser (fl_data fl')]"] by (metis append_Nil concat.simps append_Nil2)
    obtain s3 where s3: "lockfile_commit lk2 s2 = Inr (lk2\<lparr>lk_committed := True\<rparr>, s3)" "committed_to s p flags a s3"
      using commit_held [OF w(2) assms(2)] fs_fresh [OF assms(1)] by blast
    obtain s' where s': "lockfile_drop (lk2\<lparr>lk_committed := True\<rparr>) s3 = Inr s'" "committed_to s p flags (a @ b) s'"
      using drop_committed [OF w(2) s3(2)] by blast
    then have "filelock_drop ser fl' s1 = Inr s'" using fl' w s3 by (simp add: filelock_drop_def)
    moreover have "\<not> fs_exists s' (lock_path p)" using s'(2) lp assms(2) by (simp add: fs_exists_def committed_to_def)
    ultimately show ?thesis
      using True fs_ok_committed [OF assms(1) s'(2)] committed_same [OF assms(1) s'(2)] w(3) fl'(4) by auto
  next
    case False
    then have fl': "fl_lockfile fl' = lk \<or> fl_lockfile fl' = lockfile_rollback lk" "fl_rolled_back fl' \<or> \<not> fl_dirty fl'"
      using assms(4) fl by (auto simp: filelock_rollback_def)
    obtain s' where s': "lockfile_drop (fl_lockfile fl') s1 = Inr s'" "rolled_back_to s s'"
      using rollback_drop [OF h fl'(1)] by blast
    have "\<not> fs_exists s' (lock_path p)" using s'(2) lp by (simp add: fs_exists_def rolled_back_to_def)
    then show ?thesis
      using s' fl'(2) False fs_ok_rolled_back [OF assms(1) s'(2)] rolled_back_same [OF assms(1) s'(2)]
      by (auto simp: filelock_drop_def same_elsewhere_def)
  qed
qed

text \<open>
  Data behind a \<open>Filelock\<close>: if it was never borrowed mutably, or was rolled back, dropping the
  lock leaves the file as it was; if it was modified, the file then holds the serialised data. The
  lock is released in both cases and no other file changes.
\<close>

theorem filelock_drop_spec:
  assumes "fs_ok s" "lock_path p \<noteq> p" "filelock_lock de dflt p flags s = Inr (Inr fl, s1)"
    and "fl' = fl \<or> fl' = filelock_rollback fl \<or> filelock_modify f fl = Inr fl'"
  shows "\<exists>s'. filelock_drop ser fl' s1 = Inr s' \<and> fs_ok s' \<and> \<not> fs_exists s' (lock_path p)
     \<and> same_elsewhere {p} s s'
     \<and> fs_content s' p = (if filelock_modify f fl = Inr fl' then Some (ser (f (fl_data fl))) else fs_content s p)"
  using assms by (rule filelock_drop_aux)

theorem filelock_drop_spec_witness:
  "\<exists>fl s1 s'. filelock_lock (\<lambda>bs. Inr bs) [] (bytes_of ''HEAD'') False sample_fs = Inr (Inr fl, s1)
     \<and> filelock_drop (\<lambda>bs. bs) (fl\<lparr>fl_dirty := True, fl_data := fl_data fl @ [1]\<rparr>) s1 = Inr s'
     \<and> fs_content s' (bytes_of ''HEAD'') = Some (bytes_of ''old'' @ [1])"
proof -
  let ?p = "bytes_of ''HEAD''" and ?f = "\<lambda>d. d @ [1 :: byte]"
  have "\<exists>fl s1. filelock_lock (\<lambda>bs. Inr bs) [] ?p False sample_fs = Inr (Inr fl, s1) \<and> fl_data fl = bytes_of ''old''
      \<and> \<not> fl_rolled_back fl"
    unfolding filelock_lock_def lockfile_open_def lock_path_def [symmetric] sample_lock_path
    by (simp add: fs_exists_def fs_content_def sample_fs_def Let_def)
  then obtain fl s1 where fl: "filelock_lock (\<lambda>bs. Inr bs) [] ?p False sample_fs = Inr (Inr fl, s1)"
    "fl_data fl = bytes_of ''old''" "\<not> fl_rolled_back fl" by blast
  then have "filelock_modify ?f fl = Inr (fl\<lparr>fl_dirty := True, fl_data := fl_data fl @ [1]\<rparr>)"
    by (simp add: filelock_modify_def)
  with filelock_drop_spec [OF sample_fs_ok sample_lock_path_neq fl(1), of "fl\<lparr>fl_dirty := True, fl_data := fl_data fl @ [1]\<rparr>" ?f "\<lambda>bs. bs"]
  show ?thesis using fl by auto
qed

text \<open>
  The contract between a lock and the data it stores: data that was written can be read again. Under
  it, what one lock leaves is what the next lock finds.
\<close>

locale stored_data =
  fixes ser :: "'a \<Rightarrow> byte list" and de :: "byte list \<Rightarrow> 'a bit_result" and storable :: "'a \<Rightarrow> bool"
  assumes reload: "storable x \<Longrightarrow> de (ser x) = Inr x"
begin

lemma relock:
  assumes "fs_ok s" "lock_path p \<noteq> p" "filelock_lock de dflt p flags s = Inr (Inr fl, s1)"
    and "filelock_modify f fl = Inr fl'" "storable (f (fl_data fl))"
  shows "\<exists>s' fl2 s2. filelock_drop ser fl' s1 = Inr s' \<and> filelock_lock de dflt' p flags s' = Inr (Inr fl2, s2)
     \<and> fl_data fl2 = f (fl_data fl)"
proof -
  obtain s' where s': "filelock_drop ser fl' s1 = Inr s'" "fs_ok s'" "\<not> fs_exists s' (lock_path p)"
    "fs_content s' p = Some (ser (f (fl_data fl)))"
    using filelock_drop_aux [OF assms(1-3), of fl' f ser] assms(4) by auto
  obtain i ro where i: "names s' p = Some i" "nodes s' i = FileNode (ser (f (fl_data fl))) ro"
    using s'(4) by (auto simp: fs_content_def split: option.splits node.splits)
  obtain lk s2 where op: "lockfile_open p flags s' = Inr (lk, s2)"
    using s'(3,4) by (auto simp: lockfile_open_def lock_path_def Let_def)
  have "lk_file lk = Some i" "nodes s2 i = FileNode (ser (f (fl_data fl))) ro"
    using open_held [OF op] i assms(2) fs_fresh [OF s'(2) i(1)] by (simp_all add: held_def)
  then have "\<exists>fl2. filelock_lock de dflt' p flags s' = Inr (Inr fl2, s2) \<and> fl_data fl2 = f (fl_data fl)"
    using reload [OF assms(5)] by (simp add: filelock_lock_def op)
  then show ?thesis using s'(1) by blast
qed

end

section \<open>Commit before flush\<close>

text \<open>
  \<open>commit\<close> renames the lock file before the buffer is flushed: when the bytes written fit into the
  buffer, the guarded file is empty between \<open>commit\<close> and the drop, and the lock is free, so that
  another process can lock and read the empty file.
\<close>

theorem commit_before_flush:
  assumes "fs_ok s" "lock_path p \<noteq> p" "lockfile_open p flags s = Inr (lk, s1)" "length bs < BUF_SIZE"
    and "lockfile_write bs lk s1 = (lk2, s2)"
  shows "\<exists>lk3 s3. lockfile_commit lk2 s2 = Inr (lk3, s3) \<and> fs_content s3 p = Some []
     \<and> (\<exists>lk4 s4. lockfile_open p flags s3 = Inr (lk4, s4))"
proof -
  note h = open_held [OF assms(3)]
  have "lk_buffer lk = []" using h by (simp add: held_def)
  then have w: "lk2 = lk\<lparr>lk_buffer := bs\<rparr>" "s2 = s1" using assms(4,5) by (simp_all add: lockfile_write_def)
  then have "held s p flags [] bs lk2 s2" using h by (simp add: held_def)
  from commit_held [OF this assms(2)] obtain s3 where
    c: "lockfile_commit lk2 s2 = Inr (lk2\<lparr>lk_committed := True\<rparr>, s3)" "committed_to s p flags [] s3"
    using fs_fresh [OF assms(1)] by blast
  have content: "fs_content s3 p = Some []" using committed_same [OF assms(1) c(2)] by simp
  have "\<not> fs_exists s3 (lock_path p)"
    using c(2) h assms(2) by (simp add: fs_exists_def committed_to_def held_def)
  then have "\<exists>lk4 s4. lockfile_open p flags s3 = Inr (lk4, s4)"
    using content by (auto simp: lockfile_open_def lock_path_def Let_def)
  then show ?thesis using c(1) content by blast
qed

theorem commit_before_flush_witness:
  "\<exists>lk s1 lk2 s2 lk3 s3. lockfile_open (bytes_of ''HEAD'') True sample_fs = Inr (lk, s1)
     \<and> lockfile_write (bytes_of ''new'') lk s1 = (lk2, s2) \<and> lockfile_commit lk2 s2 = Inr (lk3, s3)
     \<and> fs_content s3 (bytes_of ''HEAD'') = Some []"
proof -
  obtain lk s1 where o': "lockfile_open (bytes_of ''HEAD'') True sample_fs = Inr (lk, s1)" using sample_open by blast
  obtain lk2 s2 where w: "lockfile_write (bytes_of ''new'') lk s1 = (lk2, s2)" by fastforce
  have "length (bytes_of ''new'') < BUF_SIZE" by (simp add: BUF_SIZE_def)
  then show ?thesis using commit_before_flush [OF sample_fs_ok sample_lock_path_neq o' _ w] o' w by blast
qed

text \<open>
  The lock file's name replaces the extension instead of extending the name, so that the
  references \<open>v1.2\<close> and \<open>v1.3\<close> share the lock file \<open>v1.lock\<close>: while one is locked the other cannot be.
\<close>

theorem lock_path_shared:
  "lock_path (bytes_of ''refs/heads/v1.2'') = bytes_of ''refs/heads/v1.lock''
   \<and> lock_path (bytes_of ''refs/heads/v1.3'') = bytes_of ''refs/heads/v1.lock''"
  by code_simp

section \<open>Several processes\<close>

text \<open>
  Any number of processes lock the same file: each takes the lock, writes, rolls back, commits and
  drops its lock file, interleaved in any order.
\<close>

record lock_sys =
  sys_fs :: fs
  sys_locks :: "nat \<Rightarrow> lockfile option"

inductive lock_step :: "byte list \<Rightarrow> bool \<Rightarrow> lock_sys \<Rightarrow> lock_sys \<Rightarrow> bool" for p flags where
  step_open: "sys_locks st c = None \<Longrightarrow> lockfile_open p flags (sys_fs st) = Inr (lk, s') \<Longrightarrow>
    lock_step p flags st \<lparr>sys_fs = s', sys_locks = (sys_locks st)(c \<mapsto> lk)\<rparr>"
| step_write: "sys_locks st c = Some lk \<Longrightarrow> \<not> lk_committed lk \<Longrightarrow> lockfile_write bs lk (sys_fs st) = (lk', s') \<Longrightarrow>
    lock_step p flags st \<lparr>sys_fs = s', sys_locks = (sys_locks st)(c \<mapsto> lk')\<rparr>"
| step_rollback: "sys_locks st c = Some lk \<Longrightarrow> \<not> lk_committed lk \<Longrightarrow>
    lock_step p flags st (st\<lparr>sys_locks := (sys_locks st)(c \<mapsto> lockfile_rollback lk)\<rparr>)"
| step_commit: "sys_locks st c = Some lk \<Longrightarrow> \<not> lk_committed lk \<Longrightarrow> lockfile_commit lk (sys_fs st) = Inr (lk', s') \<Longrightarrow>
    lock_step p flags st \<lparr>sys_fs = s', sys_locks = (sys_locks st)(c \<mapsto> lk')\<rparr>"
| step_drop: "sys_locks st c = Some lk \<Longrightarrow> lockfile_drop lk (sys_fs st) = Inr s' \<Longrightarrow>
    lock_step p flags st \<lparr>sys_fs = s', sys_locks = (sys_locks st)(c := None)\<rparr>"

definition lock_init :: "lock_sys \<Rightarrow> bool" where
  "lock_init st \<longleftrightarrow> fs_ok (sys_fs st) \<and> sys_locks st = (\<lambda>_. None)"

definition lock_reachable :: "byte list \<Rightarrow> bool \<Rightarrow> lock_sys \<Rightarrow> bool" where
  "lock_reachable p flags st \<longleftrightarrow> (\<exists>st0. lock_init st0 \<and> (lock_step p flags)\<^sup>*\<^sup>* st0 st)"

definition lock_ok :: "byte list \<Rightarrow> fs \<Rightarrow> lockfile \<Rightarrow> bool" where
  "lock_ok p s lk \<longleftrightarrow>
     lk_path lk = p \<and> lk_lockfile_path lk = lock_path p \<and> lk_node lk < next_node s
     \<and> \<not> (lk_committed lk \<and> lk_rolled_back lk)
     \<and> (\<not> lk_committed lk \<longrightarrow> names s (lock_path p) = Some (lk_node lk))"

definition lock_inv :: "byte list \<Rightarrow> lock_sys \<Rightarrow> bool" where
  "lock_inv p st \<longleftrightarrow>
     (\<forall>q i. names (sys_fs st) q = Some i \<longrightarrow> i < next_node (sys_fs st))
     \<and> (\<forall>c lk. sys_locks st c = Some lk \<longrightarrow> lock_ok p (sys_fs st) lk)
     \<and> (\<forall>c d lk mk. sys_locks st c = Some lk \<and> sys_locks st d = Some mk \<and> lk_node lk = lk_node mk \<longrightarrow> c = d)"

lemma fs_append_frame [simp]:
  "names (fs_append i bs s) = names s" "next_node (fs_append i bs s) = next_node s"
  by (auto simp: fs_append_def split: node.splits)

lemma lockfile_write_frame:
  assumes "lockfile_write bs lk s = (lk', s')"
  shows "names s' = names s" "next_node s' = next_node s" "\<exists>b. lk' = lk\<lparr>lk_buffer := b\<rparr>"
proof -
  have "names s' = names s \<and> next_node s' = next_node s \<and> (\<exists>b. lk' = lk\<lparr>lk_buffer := b\<rparr>)"
    using assms by (auto simp: lockfile_write_def lockfile_flush_def Let_def split: if_splits prod.splits
        intro: exI [of _ "lk_buffer lk'"])
  then show "names s' = names s" "next_node s' = next_node s" "\<exists>b. lk' = lk\<lparr>lk_buffer := b\<rparr>" by auto
qed

lemma lockfile_commit_frame:
  assumes "lockfile_commit lk s = Inr (lk', s')"
  shows "(lk_rolled_back lk \<and> lk' = lk \<and> s' = s)
    \<or> (\<not> lk_rolled_back lk \<and> lk' = lk\<lparr>lk_committed := True\<rparr> \<and> next_node s' = next_node s
       \<and> (\<exists>i. names s (lk_lockfile_path lk) = Some i \<and> names s' = (names s)(lk_lockfile_path lk := None, lk_path lk \<mapsto> i)))"
  using assms by (auto simp: lockfile_commit_def Let_def split: if_splits option.splits)

lemma lockfile_drop_frame:
  assumes "lockfile_drop lk s = Inr s'"
  shows "next_node s' = next_node s
    \<and> names s' = (if lk_committed lk then names s else (names s)(lk_lockfile_path lk := None))"
  using assms
  by (auto simp: lockfile_drop_def lockfile_cleanup_def lockfile_flush_def and_then_eq_Inr split: if_splits sum.splits)

lemma lock_invD:
  assumes "lock_inv p st"
  shows "names (sys_fs st) q = Some i \<Longrightarrow> i < next_node (sys_fs st)"
    and "sys_locks st c = Some lk \<Longrightarrow> lock_ok p (sys_fs st) lk"
    and "sys_locks st c = Some lk \<Longrightarrow> sys_locks st d = Some mk \<Longrightarrow> lk_node lk = lk_node mk \<Longrightarrow> c = d"
  using assms unfolding lock_inv_def by blast+

lemma lock_inv_open:
  assumes "lock_inv p st" "sys_locks st c = None" "lockfile_open p flags (sys_fs st) = Inr (lk, s')"
  shows "lock_inv p \<lparr>sys_fs = s', sys_locks = (sys_locks st)(c \<mapsto> lk)\<rparr>"
proof -
  note h = open_held [OF assms(3)] and D = lock_invD [OF assms(1)]
  have lk: "lk_node lk = next_node (sys_fs st)" "lock_ok p s' lk" using h by (auto simp: lock_ok_def held_def)
  have "i < next_node s'" if "names s' q = Some i" for q i
    using D(1) [of q i] that h by (auto simp: held_def split: if_splits)
  moreover have "lock_ok p s' mk \<and> lk_node mk \<noteq> lk_node lk" if "sys_locks st d = Some mk" for d mk
    using D(2) [OF that] lk(1) h by (auto simp: lock_ok_def held_def)
  ultimately show ?thesis using D(3) lk(2) unfolding lock_inv_def
    by (simp split: if_splits) (metis option.inject)
qed

lemma lock_inv_update:
  assumes "lock_inv p st" "sys_locks st c = Some lk" "lk_node lk' = lk_node lk" "lock_ok p s' lk'"
    and "\<And>q i. names s' q = Some i \<Longrightarrow> i < next_node s'"
    and "\<And>d mk. d \<noteq> c \<Longrightarrow> sys_locks st d = Some mk \<Longrightarrow> lock_ok p s' mk"
  shows "lock_inv p \<lparr>sys_fs = s', sys_locks = (sys_locks st)(c \<mapsto> lk')\<rparr>"
  using lock_invD(3) [OF assms(1)] assms(2-) unfolding lock_inv_def
  by (simp split: if_splits) (metis option.inject)

lemma lock_exclusive:
  assumes "lock_inv p st" "sys_locks st c = Some lk" "\<not> lk_committed lk" "sys_locks st d = Some mk" "d \<noteq> c"
  shows "lk_committed mk"
proof (rule ccontr)
  assume "\<not> lk_committed mk"
  then have "Some (lk_node mk) = Some (lk_node lk)"
    using lock_invD(2) [OF assms(1,2)] lock_invD(2) [OF assms(1,4)] assms(3) by (simp add: lock_ok_def)
  then show False using lock_invD(3) [OF assms(1,2,4)] assms(5) by simp
qed

lemma lock_inv_write:
  assumes "lock_inv p st" "sys_locks st c = Some lk" "lockfile_write bs lk (sys_fs st) = (lk', s')"
  shows "lock_inv p \<lparr>sys_fs = s', sys_locks = (sys_locks st)(c \<mapsto> lk')\<rparr>"
proof -
  note fr = lockfile_write_frame [OF assms(3)] and D = lock_invD [OF assms(1)]
  have ok: "lock_ok p s' mk" if "sys_locks st d = Some mk" for d mk
    using D(2) [OF that] fr by (simp add: lock_ok_def)
  have "lock_ok p s' lk'" using ok [OF assms(2)] fr(3) by (auto simp: lock_ok_def)
  then show ?thesis using fr D(1) ok by (intro lock_inv_update [OF assms(1,2)]) auto
qed

lemma lock_inv_commit:
  assumes "lock_inv p st" "sys_locks st c = Some lk" "\<not> lk_committed lk" "lockfile_commit lk (sys_fs st) = Inr (lk', s')"
  shows "lock_inv p \<lparr>sys_fs = s', sys_locks = (sys_locks st)(c \<mapsto> lk')\<rparr>"
proof -
  note fr = lockfile_commit_frame [OF assms(4)] and D = lock_invD [OF assms(1)]
  have "lock_ok p s' lk'" using fr D(2) [OF assms(2)] by (auto simp: lock_ok_def)
  moreover have "lock_ok p s' mk" if "d \<noteq> c" "sys_locks st d = Some mk" for d mk
    using lock_exclusive [OF assms(1-3) that(2,1)] D(2) [OF that(2)] fr by (auto simp: lock_ok_def)
  moreover have "i < next_node s'" if "names s' q = Some i" for q i
    using fr D(1) that by (auto split: if_splits)
  ultimately show ?thesis using fr by (intro lock_inv_update [OF assms(1,2)]) auto
qed

lemma lock_inv_drop:
  assumes "lock_inv p st" "sys_locks st c = Some lk" "lockfile_drop lk (sys_fs st) = Inr s'"
  shows "lock_inv p \<lparr>sys_fs = s', sys_locks = (sys_locks st)(c := None)\<rparr>"
proof -
  note fr = lockfile_drop_frame [OF assms(3)] and D = lock_invD [OF assms(1)]
  have "lock_ok p s' mk" if "d \<noteq> c" "sys_locks st d = Some mk" for d mk
    using lock_exclusive [OF assms(1,2) _ that(2,1)] D(2) [OF that(2)] D(2) [OF assms(2)] fr
    by (cases "lk_committed lk") (auto simp: lock_ok_def)
  moreover have "i < next_node s'" if "names s' q = Some i" for q i
    using fr D(1) that by (auto split: if_splits)
  ultimately show ?thesis using D(3) unfolding lock_inv_def by (simp split: if_splits) blast
qed

lemma lock_inv_step:
  assumes "lock_step p flags st st'" "lock_inv p st"
  shows "lock_inv p st'"
  using assms(1)
proof (cases rule: lock_step.cases)
  case (step_open c lk s')
  then show ?thesis using lock_inv_open assms(2) by blast
next
  case (step_write c lk bs lk' s')
  then show ?thesis using lock_inv_write assms(2) by blast
next
  case (step_rollback c lk)
  have "lock_ok p (sys_fs st) (lockfile_rollback lk)"
    using lock_invD(2) [OF assms(2) step_rollback(2)] step_rollback(3) by (simp add: lock_ok_def lockfile_rollback_def)
  from lock_inv_update [OF assms(2) step_rollback(2) _ this] have "lock_inv p \<lparr>sys_fs = sys_fs st, sys_locks = (sys_locks st)(c \<mapsto> lockfile_rollback lk)\<rparr>"
    using lock_invD(1,2) [OF assms(2)] by (simp add: lockfile_rollback_def)
  moreover have "st' = \<lparr>sys_fs = sys_fs st, sys_locks = (sys_locks st)(c \<mapsto> lockfile_rollback lk)\<rparr>"
    using step_rollback(1) by (cases st) simp
  ultimately show ?thesis by (simp only:)
next
  case (step_commit c lk lk' s')
  then show ?thesis using lock_inv_commit assms(2) by blast
next
  case (step_drop c lk s')
  then show ?thesis using lock_inv_drop assms(2) by blast
qed

lemma lock_inv_reachable:
  assumes "lock_reachable p flags st"
  shows "lock_inv p st"
proof -
  obtain st0 where init: "lock_init st0" and steps: "(lock_step p flags)\<^sup>*\<^sup>* st0 st"
    using assms(1) by (auto simp: lock_reachable_def)
  have "lock_inv p st0" using init by (simp add: lock_init_def lock_inv_def fs_ok_def)
  with steps show ?thesis by (induction rule: rtranclp_induct) (auto intro: lock_inv_step)
qed

text \<open>
  C19. Mutual exclusion: however the steps of any number of processes interleave, at most one of
  them has the file locked, meaning its lock file is neither committed nor dropped, and dropping a
  lock file never aborts.
\<close>

theorem lock_mutual_exclusion:
  assumes "lock_reachable p flags st"
  shows "(\<forall>c d lk mk. sys_locks st c = Some lk \<and> sys_locks st d = Some mk
            \<and> \<not> lk_committed lk \<and> \<not> lk_committed mk \<longrightarrow> c = d)
       \<and> (\<forall>c lk. sys_locks st c = Some lk \<longrightarrow> (\<exists>s'. lockfile_drop lk (sys_fs st) = Inr s'))"
proof -
  note inv = lock_inv_reachable [OF assms]
  have "\<exists>s'. lockfile_drop lk (sys_fs st) = Inr s'" if "sys_locks st c = Some lk" for c lk
  proof -
    have "lock_ok p (sys_fs st) lk" by (rule lock_invD(2) [OF inv that])
    then show ?thesis
      by (cases "lk_committed lk") (auto simp: lock_ok_def lockfile_drop_def lockfile_cleanup_def fs_exists_def)
  qed
  then show ?thesis using lock_exclusive [OF inv] by blast
qed

theorem lock_mutual_exclusion_witness:
  "\<exists>st lk. lock_reachable (bytes_of ''HEAD'') True st \<and> sys_locks st 7 = Some lk
     \<and> (\<exists>s'. lockfile_drop lk (sys_fs st) = Inr s')"
proof -
  let ?st0 = "\<lparr>sys_fs = sample_fs, sys_locks = (\<lambda>_. None)\<rparr>"
  obtain lk s1 where "lockfile_open (bytes_of ''HEAD'') True sample_fs = Inr (lk, s1)" using sample_open by blast
  then have "lock_step (bytes_of ''HEAD'') True ?st0 \<lparr>sys_fs = s1, sys_locks = (sys_locks ?st0)(7 \<mapsto> lk)\<rparr>"
    by (intro lock_step.step_open) simp_all
  moreover have "lock_init ?st0" by (simp add: lock_init_def sample_fs_ok)
  ultimately have reach: "lock_reachable (bytes_of ''HEAD'') True \<lparr>sys_fs = s1, sys_locks = (sys_locks ?st0)(7 \<mapsto> lk)\<rparr>"
    unfolding lock_reachable_def by blast
  moreover have "sys_locks \<lparr>sys_fs = s1, sys_locks = (sys_locks ?st0)(7 \<mapsto> lk)\<rparr> 7 = Some lk" by simp
  ultimately show ?thesis using lock_mutual_exclusion [OF reach] by blast
qed

end
