(* ===== verification/Bit_Refs.thy ===== *)
theory Bit_Refs
  imports Bit_Commit Bit_Lockfile
begin

text \<open>
  References and their logs: \<open>libbit/src/refs.rs\<close> and \<open>libbit/src/refs/reflog.rs\<close>. A reference is an
  object id or the path of another reference; a reflog is a file with one line per update.
  The hexadecimal coder (crate \<open>rustc-hex\<close>) is the parameter \<open>to_hex\<close> and \<open>from_hex\<close>.
\<close>

section \<open>Model: names\<close>

definition contains_sub :: "byte list \<Rightarrow> byte list \<Rightarrow> bool" where
  "contains_sub sub s \<longleftrightarrow> list_ex (prefix sub) (suffixes s)"

text \<open>
  \<open>INVALID_REF_REGEX\<close>: an alternation of \<^verbatim>\<open>^\.\<close>, \<^verbatim>\<open>/\.\<close>, \<^verbatim>\<open>\.\.\<close>, eight single
  characters, \<^verbatim>\<open>/$\<close>, \<^verbatim>\<open>\.lock$\<close> and an at sign before a brace, searched anywhere in the name.
\<close>

definition invalid_ref_regex :: "byte list \<Rightarrow> bool" where
  "invalid_ref_regex s \<longleftrightarrow>
     prefix (bytes_of ''.'') s \<or> contains_sub (bytes_of ''/.'') s \<or> contains_sub (bytes_of ''..'') s
     \<or> list_ex (\<lambda>b. b \<in> {42, 58, 63, 91, 92, 94, 126, 32, 9}) s
     \<or> suffix (bytes_of ''/'') s \<or> suffix (bytes_of ''.lock'') s \<or> contains_sub [64, 123] s"

definition is_valid_name :: "byte list \<Rightarrow> bool" where
  "is_valid_name s \<longleftrightarrow> \<not> invalid_ref_regex s"

section \<open>Model: symbolic references\<close>

datatype symbolic_ref_kind = HeadKind | RemoteKind | BranchKind | TagKind | StashKind | UnknownKind

datatype symbolic_ref = SymbolicRef (sym_path: bit_path) (sym_kind: symbolic_ref_kind)

text \<open>The derived order of an enum is that of its variants.\<close>

fun kind_index :: "symbolic_ref_kind \<Rightarrow> nat" where
  "kind_index HeadKind = 0"
| "kind_index RemoteKind = 1"
| "kind_index BranchKind = 2"
| "kind_index TagKind = 3"
| "kind_index StashKind = 4"
| "kind_index UnknownKind = 5"

definition symbolic_ref_cmp :: "symbolic_ref \<Rightarrow> symbolic_ref \<Rightarrow> ordering" where
  "symbolic_ref_cmp a b =
     then_with (ord_cmp (kind_index (sym_kind a)) (kind_index (sym_kind b))) (bit_path_cmp (sym_path a) (sym_path b))"

definition HEAD_path :: bit_path where "HEAD_path = BitPath (bytes_of ''HEAD'')"
definition ATSYM :: bit_path where "ATSYM = BitPath (bytes_of ''@'')"
definition REFS_HEADS :: bit_path where "REFS_HEADS = BitPath (bytes_of ''refs/heads'')"
definition REFS_TAGS :: bit_path where "REFS_TAGS = BitPath (bytes_of ''refs/tags'')"
definition REFS_REMOTES :: bit_path where "REFS_REMOTES = BitPath (bytes_of ''refs/remotes'')"
definition REFS_STASH :: bit_path where "REFS_STASH = BitPath (bytes_of ''refs/stash'')"
definition MASTER_path :: bit_path where "MASTER_path = BitPath (bytes_of ''refs/heads/master'')"

definition calculate_kind :: "bit_path \<Rightarrow> symbolic_ref_kind" where
  "calculate_kind p =
     (if p = HEAD_path then HeadKind
      else if path_starts_with p REFS_HEADS then BranchKind
      else if path_starts_with p REFS_REMOTES then RemoteKind
      else if path_starts_with p REFS_TAGS then TagKind
      else if p = REFS_STASH then StashKind
      else UnknownKind)"

definition symref_new :: "bit_path \<Rightarrow> symbolic_ref" where
  "symref_new p = SymbolicRef p (calculate_kind p)"

definition symref_new_valid :: "bit_path \<Rightarrow> symbolic_ref bit_result" where
  "symref_new_valid p =
     and_then (ensure (sym_kind (symref_new p) \<noteq> UnknownKind) (Bail ''invalid symbolic ref'')) (\<lambda>_.
       Inr (SymbolicRef p (calculate_kind p)))"

definition HEAD :: symbolic_ref where "HEAD = SymbolicRef HEAD_path HeadKind"
definition MASTER :: symbolic_ref where "MASTER = SymbolicRef MASTER_path BranchKind"

definition is_remote :: "symbolic_ref \<Rightarrow> bool" where
  "is_remote r \<longleftrightarrow> sym_kind r = RemoteKind"

definition new_branch :: "byte list \<Rightarrow> symbolic_ref bit_result" where
  "new_branch name =
     (case symref_new_valid (BitPath (bytes_of ''refs/heads/'' @ name)) of Inl _ \<Rightarrow> Inl Panic | Inr r \<Rightarrow> Inr r)"

text \<open>
  \<open>Path::strip_prefix\<close> for a base of plain segments: the raw rest of the path behind the components of
  the base, without separators and dots at its two ends.
\<close>

definition idle_seg :: "byte list \<Rightarrow> bool" where
  "idle_seg seg \<longleftrightarrow> component_of seg = None"

fun skip_components :: "nat \<Rightarrow> byte list list \<Rightarrow> byte list list" where
  "skip_components 0 segs = dropWhile idle_seg segs"
| "skip_components (Suc n) [] = []"
| "skip_components (Suc n) (seg # segs) = skip_components (if idle_seg seg then Suc n else n) segs"

definition strip_prefix :: "bit_path \<Rightarrow> bit_path \<Rightarrow> byte list option" where
  "strip_prefix base p =
     (if path_starts_with p base
      then Some (join_on b_slash (rev (dropWhile idle_seg (rev
                  (skip_components (length (components (path_bytes base))) (split_on b_slash (path_bytes p)))))))
      else None)"

definition to_str :: "byte list \<Rightarrow> byte list bit_result" where
  "to_str s = (if utf8_valid s then Inr s else Inl Panic)"

fun short_from :: "bit_path list \<Rightarrow> symbolic_ref \<Rightarrow> byte list bit_result" where
  "short_from [] r = to_str (path_bytes (sym_path r))"
| "short_from (base # rest) r =
     (case strip_prefix base (sym_path r) of Some s \<Rightarrow> to_str s | None \<Rightarrow> short_from rest r)"

definition symref_short :: "symbolic_ref \<Rightarrow> byte list bit_result" where
  "symref_short r = short_from [REFS_HEADS, REFS_TAGS, REFS_REMOTES] r"

definition symref_display :: "bool \<Rightarrow> symbolic_ref \<Rightarrow> byte list" where
  "symref_display alternate r =
     (if alternate
      then utf8_lossy (case strip_prefix REFS_HEADS (sym_path r) of Some s \<Rightarrow> s | None \<Rightarrow> path_bytes (sym_path r))
      else utf8_lossy (path_bytes (sym_path r)))"

definition SYMBOLIC_REF_PREFIX :: "byte list" where
  "SYMBOLIC_REF_PREFIX = bytes_of ''ref: ''"

definition symref_from_str :: "byte list \<Rightarrow> symbolic_ref" where
  "symref_from_str s =
     (let r = trim_end (if prefix SYMBOLIC_REF_PREFIX s then drop (length SYMBOLIC_REF_PREFIX) s else s);
          p = BitPath r
      in symref_new (if p = ATSYM then HEAD_path else p))"

section \<open>Model: references\<close>

datatype bit_ref = Direct (into_direct: oid) | Symbolic (into_symbolic: symbolic_ref)

definition ref_display :: "(byte list \<Rightarrow> byte list) \<Rightarrow> bit_ref \<Rightarrow> byte list" where
  "ref_display to_hex r = (case r of Direct h \<Rightarrow> to_hex h | Symbolic p \<Rightarrow> symref_display False p)"

definition ref_serialize :: "(byte list \<Rightarrow> byte list) \<Rightarrow> bit_ref \<Rightarrow> byte list" where
  "ref_serialize to_hex r =
     (case r of Direct h \<Rightarrow> to_hex h | Symbolic p \<Rightarrow> SYMBOLIC_REF_PREFIX @ symref_display False p)"

definition ref_from_str :: "(byte list \<Rightarrow> byte list bit_result) \<Rightarrow> byte list \<Rightarrow> bit_ref" where
  "ref_from_str from_hex s =
     (case oid_from_str from_hex s of Inr h \<Rightarrow> Direct h | Inl _ \<Rightarrow> Symbolic (symref_from_str s))"

definition ref_deserialize :: "(byte list \<Rightarrow> byte list bit_result) \<Rightarrow> byte list \<Rightarrow> bit_ref bit_result" where
  "ref_deserialize from_hex bs =
     and_then (ensure (utf8_valid bs) (Bail ''stream did not contain valid UTF-8'')) (\<lambda>_.
       Inr (ref_from_str from_hex bs))"

definition ref_short :: "(byte list \<Rightarrow> byte list) \<Rightarrow> bit_ref \<Rightarrow> byte list bit_result" where
  "ref_short to_hex r = (case r of Direct h \<Rightarrow> Inr (short to_hex h) | Symbolic s \<Rightarrow> symref_short s)"

definition ref_is_remote :: "bit_ref \<Rightarrow> bool" where
  "ref_is_remote r = (case r of Direct _ \<Rightarrow> False | Symbolic s \<Rightarrow> is_remote s)"

section \<open>Model: reflogs\<close>

record reflog_entry =
  old_oid :: oid
  new_oid :: oid
  log_committer :: bit_signature
  log_message :: "byte list"

type_synonym reflog = "reflog_entry list"

definition reflog_entry_serialize :: "(byte list \<Rightarrow> byte list) \<Rightarrow> reflog_entry \<Rightarrow> byte list" where
  "reflog_entry_serialize to_hex e =
     to_hex (old_oid e) @ [b_space] @ to_hex (new_oid e) @ [b_space] @ signature_display (log_committer e)
     @ [9] @ log_message e @ [b_newline]"

text \<open>The most recent entry is the last: index 0. Out of range is a panic of the slice.\<close>

definition reflog_index :: "reflog \<Rightarrow> nat \<Rightarrow> reflog_entry bit_result" where
  "reflog_index es i = (if i < length es then Inr (es ! (length es - i - 1)) else Inl Panic)"

definition reflog_get :: "reflog \<Rightarrow> nat \<Rightarrow> reflog_entry option" where
  "reflog_get es i = (if i \<ge> length es then None else (case reflog_index es i of Inr e \<Rightarrow> Some e | Inl _ \<Rightarrow> None))"

definition reflog_append :: "oid \<Rightarrow> bit_signature \<Rightarrow> byte list \<Rightarrow> reflog \<Rightarrow> reflog" where
  "reflog_append new sig msg es =
     (let old = (if es = [] then UNKNOWN else new_oid (last es))
      in es @ [\<lparr>old_oid = old, new_oid = new, log_committer = sig, log_message = msg\<rparr>])"

definition split_once :: "byte \<Rightarrow> byte list \<Rightarrow> (byte list \<times> byte list) option" where
  "split_once sep s =
     (case dropWhile (\<lambda>b. b \<noteq> sep) s of [] \<Rightarrow> None | _ # v \<Rightarrow> Some (takeWhile (\<lambda>b. b \<noteq> sep) s, v))"

definition reflog_entry_from_str :: "(byte list \<Rightarrow> byte list bit_result) \<Rightarrow> byte list \<Rightarrow> reflog_entry bit_result" where
  "reflog_entry_from_str from_hex s =
     and_then (unwrap (split_once b_space s)) (\<lambda>(old, s).
     and_then (unwrap (split_once b_space s)) (\<lambda>(new, s).
     and_then (unwrap (split_once 9 s)) (\<lambda>(sig, msg).
     and_then (oid_from_str from_hex old) (\<lambda>old.
     and_then (oid_from_str from_hex new) (\<lambda>new.
     and_then (signature_from_str sig) (\<lambda>sig.
       Inr \<lparr>old_oid = old, new_oid = new, log_committer = sig, log_message = msg\<rparr>))))))"

definition reflog_from_str :: "(byte list \<Rightarrow> byte list bit_result) \<Rightarrow> byte list \<Rightarrow> reflog bit_result" where
  "reflog_from_str from_hex s = traverse (reflog_entry_from_str from_hex) (lines s)"

definition reflog_serialize :: "(byte list \<Rightarrow> byte list) \<Rightarrow> reflog \<Rightarrow> byte list" where
  "reflog_serialize to_hex es = concat (map (reflog_entry_serialize to_hex) es)"

definition reflog_deserialize :: "(byte list \<Rightarrow> byte list bit_result) \<Rightarrow> byte list \<Rightarrow> reflog bit_result" where
  "reflog_deserialize from_hex bs =
     and_then (ensure (utf8_valid bs) (Bail ''stream did not contain valid UTF-8'')) (\<lambda>_. reflog_from_str from_hex bs)"

section \<open>The order of symbolic references\<close>

lemma bit_path_cmp_ord: "bit_path_cmp a b = ord_cmp a b"
proof (cases "ord_cmp a b")
  case Greater
  then have "b < a" by simp
  then have "slice_cmp (path_bytes a) (path_bytes b) = Greater"
    by (simp add: bit_path_less slice_cmp_Greater)
  then show ?thesis using \<open>b < a\<close> by (simp add: bit_path_cmp_def path_cmp_slice_cmp ord_cmp_gt)
qed (auto simp: bit_path_cmp_def path_cmp_slice_cmp bit_path_less ord_cmp_def split: if_splits)

instantiation symbolic_ref :: linorder
begin

definition less_eq_symbolic_ref :: "symbolic_ref \<Rightarrow> symbolic_ref \<Rightarrow> bool" where
  "less_eq_symbolic_ref a b \<longleftrightarrow> symbolic_ref_cmp a b \<noteq> Greater"

definition less_symbolic_ref :: "symbolic_ref \<Rightarrow> symbolic_ref \<Rightarrow> bool" where
  "less_symbolic_ref a b \<longleftrightarrow> symbolic_ref_cmp a b = Less"

instance
proof
  fix a b c :: symbolic_ref
  have key: "symbolic_ref_cmp x y = ord_cmp (kind_index (sym_kind x), sym_path x) (kind_index (sym_kind y), sym_path y)" for x y
    unfolding symbolic_ref_cmp_def bit_path_cmp_ord by (auto simp: ord_cmp_def)
  have inj: "kind_index k = kind_index l \<Longrightarrow> k = l" for k l by (cases k; cases l) simp_all
  have le: "x \<le> y \<longleftrightarrow> (kind_index (sym_kind x), sym_path x) \<le> (kind_index (sym_kind y), sym_path y)" for x y :: symbolic_ref
    unfolding less_eq_symbolic_ref_def key ord_cmp_iff(3) not_less ..
  show "a < b \<longleftrightarrow> a \<le> b \<and> \<not> b \<le> a"
    unfolding less_symbolic_ref_def key ord_cmp_iff(1) le by (rule less_le_not_le)
  show "a \<le> a" by (simp add: le)
  show "a \<le> b \<Longrightarrow> b \<le> c \<Longrightarrow> a \<le> c" unfolding le by (rule order_trans)
  show "a \<le> b \<Longrightarrow> b \<le> a \<Longrightarrow> a = b" unfolding le
    by (cases a; cases b) (auto dest: inj order_antisym)
  show "a \<le> b \<or> b \<le> a" unfolding le by (rule linear)
qed

end

section \<open>Round trips\<close>

text \<open>The other half of the contract of the hexadecimal coder: anything but digits is refused.\<close>

definition rejects_non_hex :: "(byte list \<Rightarrow> byte list bit_result) \<Rightarrow> bool" where
  "rejects_non_hex dec \<longleftrightarrow> (\<forall>s. \<not> list_all is_hexdigit s \<longrightarrow> (\<exists>e. dec s = Inl e))"

definition hex_coder :: "(byte list \<Rightarrow> byte list) \<Rightarrow> (byte list \<Rightarrow> byte list bit_result) \<Rightarrow> bool" where
  "hex_coder enc dec \<longleftrightarrow> encodes_hex enc \<and> decodes_hex dec \<and> rejects_non_hex dec"

definition sample_enc :: "byte list \<Rightarrow> byte list" where
  "sample_enc bs = map hex_digit (hex_of bs)"

definition sample_dec :: "byte list \<Rightarrow> byte list bit_result" where
  "sample_dec s =
     (if list_all is_hexdigit s \<and> even (length s) then Inr (unhex (map hex_val s)) else Inl (Bail ''invalid hex''))"

lemma sample_hex_coder: "hex_coder sample_enc sample_dec"
  by (auto simp: hex_coder_def encodes_hex_def decodes_hex_def rejects_non_hex_def sample_enc_def sample_dec_def)

text \<open>
  The references that survive writing: an object id of twenty bytes, or a symbolic reference built by
  \<open>SymbolicRef::new\<close> whose path is valid text that is not \<open>@\<close> and has no white space at its end.
\<close>

fun ref_storable :: "bit_ref \<Rightarrow> bool" where
  "ref_storable (Direct h) = oid_wf h"
| "ref_storable (Symbolic r) =
     (r = symref_new (sym_path r) \<and> utf8_valid (path_bytes (sym_path r)) \<and> sym_path r \<noteq> ATSYM
      \<and> trim_end (path_bytes (sym_path r)) = path_bytes (sym_path r))"

lemma ref_prefix_bytes: "SYMBOLIC_REF_PREFIX = [114, 101, 102, 58, 32]"
  by (simp add: SYMBOLIC_REF_PREFIX_def)

lemma ref_prefix_not_hex:
  assumes "rejects_non_hex dec"
  shows "\<exists>e. oid_from_str dec (SYMBOLIC_REF_PREFIX @ s) = Inl e"
proof -
  have "114 \<in> set (trim_end (SYMBOLIC_REF_PREFIX @ s))"
  proof -
    have "dropWhile ascii_space (rev s @ [32, 58, 102, 101, 114]) \<noteq> []"
      and "last (dropWhile ascii_space (rev s @ [32, 58, 102, 101, 114])) = 114"
      by (simp_all add: dropWhile_append ascii_space_def)
    then show ?thesis unfolding trim_end_def ref_prefix_bytes
      by (metis append.assoc append_Cons append_Nil last_in_set rev.simps(1) rev.simps(2) rev_append set_rev)
  qed
  moreover have "\<not> is_hexdigit 114" by (simp add: is_hexdigit_def word_le_nat_alt)
  ultimately have "\<not> list_all is_hexdigit (trim_end (SYMBOLIC_REF_PREFIX @ s))"
    unfolding list_all_iff by blast
  then obtain e where "dec (trim_end (SYMBOLIC_REF_PREFIX @ s)) = Inl e"
    using assms by (auto simp: rejects_non_hex_def)
  then show ?thesis by (auto simp: oid_from_str_def Let_def ensure_def)
qed

lemma ref_roundtrip_aux:
  assumes "hex_coder enc dec" "ref_storable r"
  shows "ref_deserialize dec (ref_serialize enc r) = Inr r"
proof (cases r)
  case (Direct h)
  then show ?thesis
    using oid_hex_roundtrip [of enc dec h] assms utf8_valid_ascii
    by (simp add: ref_deserialize_def ref_serialize_def ref_from_str_def hex_coder_def)
next
  case (Symbolic y)
  let ?p = "path_bytes (sym_path y)"
  have y: "y = symref_new (sym_path y)" "utf8_valid ?p" "sym_path y \<noteq> ATSYM" "trim_end ?p = ?p"
    using assms(2) Symbolic by simp_all
  obtain e where e: "oid_from_str dec (SYMBOLIC_REF_PREFIX @ ?p) = Inl e"
    using ref_prefix_not_hex assms(1) by (auto simp: hex_coder_def)
  have "symref_from_str (SYMBOLIC_REF_PREFIX @ ?p) = y"
    using y by (simp add: symref_from_str_def Let_def)
  moreover have "utf8_valid (SYMBOLIC_REF_PREFIX @ ?p)"
    using y(2) by (simp add: ref_prefix_bytes utf8_valid_ascii_Cons)
  ultimately show ?thesis
    using y(2) e by (simp add: Symbolic ref_deserialize_def ref_serialize_def ref_from_str_def
      symref_display_def utf8_lossy_valid)
qed



section \<open>Reflogs\<close>

text \<open>
  What an entry needs to be read again: ids of twenty bytes, a signature that can be parsed and has no
  tab, and no line break in the signature or the message.
\<close>

definition one_line :: "byte list \<Rightarrow> bool" where
  "one_line s \<longleftrightarrow> utf8_valid s \<and> b_newline \<notin> set s \<and> b_cr \<notin> set s"

definition log_entry_ok :: "reflog_entry \<Rightarrow> bool" where
  "log_entry_ok e \<longleftrightarrow>
     oid_wf (old_oid e) \<and> oid_wf (new_oid e) \<and> signature_valid (log_committer e)
     \<and> one_line (signature_display (log_committer e)) \<and> 9 \<notin> set (signature_display (log_committer e))
     \<and> one_line (log_message e)"

lemma split_once_hit: "sep \<notin> set a \<Longrightarrow> split_once sep (a @ sep # b) = Some (a, b)"
  by (induction a) (auto simp: split_once_def split: list.splits)

lemma split_once_miss: "sep \<notin> set a \<Longrightarrow> split_once sep a = None"
proof -
  assume "sep \<notin> set a"
  then have none: "dropWhile (\<lambda>b. b \<noteq> sep) a = []" by (auto simp: dropWhile_eq_Nil_conv)
  show ?thesis unfolding split_once_def none by simp
qed

lemma hex_no_space:
  assumes "encodes_hex enc"
  shows "b_space \<notin> set (enc h)"
  using hex_digits_ok(1) [of h] assms
  by (auto simp: encodes_hex_def list_all_iff is_hexdigit_def word_le_nat_alt simp del: set_map)

definition entry_line :: "(byte list \<Rightarrow> byte list) \<Rightarrow> reflog_entry \<Rightarrow> byte list" where
  "entry_line enc e =
     enc (old_oid e) @ b_space # enc (new_oid e) @ b_space # signature_display (log_committer e) @ 9 # log_message e"

lemma entry_serialize_line: "reflog_entry_serialize enc e = entry_line enc e @ [b_newline]"
  by (simp add: reflog_entry_serialize_def entry_line_def)

lemma entry_line_ok:
  assumes "hex_coder enc dec" "log_entry_ok e"
  shows "reflog_entry_from_str dec (entry_line enc e) = Inr e" and "one_line (entry_line enc e)"
proof -
  have enc: "encodes_hex enc" "decodes_hex dec" using assms(1) by (simp_all add: hex_coder_def)
  have e: "oid_wf (old_oid e)" "oid_wf (new_oid e)" "signature_valid (log_committer e)"
    "one_line (signature_display (log_committer e))" "9 \<notin> set (signature_display (log_committer e))"
    "one_line (log_message e)"
    using assms(2) by (simp_all add: log_entry_ok_def)
  note old = oid_hex_roundtrip [OF enc e(1)] and new = oid_hex_roundtrip [OF enc e(2)]
  show "reflog_entry_from_str dec (entry_line enc e) = Inr e"
    using e(5) old(1) new(1) signature_roundtrip_aux [OF e(3)]
    by (simp add: reflog_entry_from_str_def entry_line_def split_once_hit hex_no_space enc unwrap_def)
  show "one_line (entry_line enc e)"
    using e(4,6) old(2-4) new(2-4) utf8_valid_ascii
    by (auto simp: one_line_def entry_line_def utf8_valid_append utf8_valid_ascii_Cons)
qed

lemma reflog_bytes: "reflog_serialize enc es = concat (map (\<lambda>l. l @ [b_newline]) (map (entry_line enc) es))"
  by (induction es) (simp_all add: reflog_serialize_def entry_serialize_line)

lemma utf8_valid_lines:
  "\<forall>l \<in> set ls. one_line l \<Longrightarrow> utf8_valid (concat (map (\<lambda>l. l @ [b_newline]) ls))"
  by (induction ls) (auto simp: one_line_def utf8_valid_append utf8_valid_ascii_Cons utf8_valid.simps [of "[]"])

lemma reflog_roundtrip:
  assumes "hex_coder enc dec" "list_all log_entry_ok es"
  shows "reflog_deserialize dec (reflog_serialize enc es) = Inr es"
proof -
  have ok: "\<forall>e \<in> set es. log_entry_ok e" using assms(2) by (simp add: list_all_iff)
  have one: "\<forall>l \<in> set (map (entry_line enc) es). one_line l"
    using ok entry_line_ok(2) [OF assms(1)] by auto
  have "lines (reflog_serialize enc es) = map (entry_line enc) es"
    using lines_concat [of "map (entry_line enc) es" "[]"] one
    by (simp add: reflog_bytes one_line_def lines.simps [of "[]"])
  moreover have "traverse (reflog_entry_from_str dec) (map (entry_line enc) es) = Inr es"
    using ok entry_line_ok(1) [OF assms(1)] by (simp add: traverse_eq_Inr list_all2_conv_all_nth)
  ultimately show ?thesis
    using utf8_valid_lines [OF one] by (simp add: reflog_deserialize_def reflog_from_str_def reflog_bytes)
qed

lemma traverse_snoc:
  "traverse f xs = Inr ys \<Longrightarrow> traverse f (xs @ [x]) = and_then (f x) (\<lambda>y. Inr (ys @ [y]))"
  by (induction xs arbitrary: ys) (auto simp: and_then_eq_Inr and_then_def split: sum.splits)

text \<open>
  A message with a line break is written as two lines, and the second is no entry: when it has no
  space, the next reader of the log panics. The subject of a commit ends at the first blank line and may
  have line breaks.
\<close>

lemma reflog_newline_panics:
  assumes "hex_coder enc dec" "list_all log_entry_ok es" "log_entry_ok e"
    and "one_line m" "m \<noteq> []" "b_space \<notin> set m"
  shows "reflog_deserialize dec (reflog_serialize enc (es @ [e\<lparr>log_message := log_message e @ b_newline # m\<rparr>])) = Inl Panic"
proof -
  let ?ls = "map (entry_line enc) es @ [entry_line enc e, m]"
  have bytes: "reflog_serialize enc (es @ [e\<lparr>log_message := log_message e @ b_newline # m\<rparr>])
      = concat (map (\<lambda>l. l @ [b_newline]) ?ls)"
    by (simp add: reflog_bytes) (simp add: entry_line_def)
  have one: "\<forall>l \<in> set ?ls. one_line l"
    using assms(2-4) entry_line_ok(2) [OF assms(1)] by (auto simp: list_all_iff)
  have "lines (concat (map (\<lambda>l. l @ [b_newline]) ?ls)) = ?ls"
    using lines_concat [of ?ls "[]"] one by (simp add: one_line_def lines.simps [of "[]"])
  moreover have "traverse (reflog_entry_from_str dec) (map (entry_line enc) (es @ [e])) = Inr (es @ [e])"
    using assms(2,3) entry_line_ok(1) [OF assms(1)]
    by (simp add: traverse_eq_Inr list_all2_conv_all_nth list_all_length nth_append)
  then have "traverse (reflog_entry_from_str dec) ?ls = and_then (reflog_entry_from_str dec m) (\<lambda>y. Inr ((es @ [e]) @ [y]))"
    using traverse_snoc [of "reflog_entry_from_str dec" "map (entry_line enc) (es @ [e])" "es @ [e]" m] by simp
  moreover have "split_once b_space m = None"
    using assms(6) by (rule split_once_miss)
  then have "reflog_entry_from_str dec m = Inl Panic" by (simp add: reflog_entry_from_str_def unwrap_def)
  ultimately show ?thesis
    using utf8_valid_lines [OF one] by (simp add: reflog_deserialize_def reflog_from_str_def bytes)
qed

text \<open>
  What the reference store needs of the hexadecimal coder. Under it a reflog is data that a file lock
  can store.
\<close>

locale hex_code =
  fixes enc :: "byte list \<Rightarrow> byte list" and dec :: "byte list \<Rightarrow> byte list bit_result"
  assumes coder: "hex_coder enc dec"

sublocale hex_code \<subseteq> reflog_store: stored_data "reflog_serialize enc" "reflog_deserialize dec" "list_all log_entry_ok"
  by unfold_locales (rule reflog_roundtrip [OF coder])

interpretation sample_code: hex_code sample_enc sample_dec
  by unfold_locales (rule sample_hex_coder)

end
