(* ===== verification/Bit_Refdb.thy ===== *)
theory Bit_Refdb
  imports Bit_Refs
begin

text \<open>
  The reference database, \<^verbatim>\<open>libbit/src/refs/refdb.rs\<close>, and the operations of \<^verbatim>\<open>libbit/src/repo.rs\<close> that
  read and move references. The state is the file system of the lock files; every operation returns its
  result and the file system it leaves. A directory is a name whose node is no file.
\<close>

section \<open>Model: the store and its errors\<close>

datatype ref_error = NonExistentSymRef symbolic_ref | Other bit_error

type_synonym 'a ref_result = "ref_error + 'a"
type_synonym 'a refdb_op = "fs \<Rightarrow> 'a ref_result \<times> fs"

text \<open>
  The directory of the store, and what the store uses of its surroundings: the hexadecimal coder,
  \<open>ensure_obj_is_commit\<close> of the object database and \<open>user_signature\<close> of the repository.
\<close>

record refdb =
  bitdir :: bit_path
  to_hex :: "byte list \<Rightarrow> byte list"
  from_hex :: "byte list \<Rightarrow> byte list bit_result"
  ensure_obj_is_commit :: "oid \<Rightarrow> unit bit_result"
  repo_user_signature :: "bit_signature bit_result"

definition lift_err :: "'a bit_result \<Rightarrow> 'a ref_result" where
  "lift_err r = (case r of Inl e \<Rightarrow> Inl (Other e) | Inr x \<Rightarrow> Inr x)"

definition op_bind :: "'a refdb_op \<Rightarrow> ('a \<Rightarrow> 'b refdb_op) \<Rightarrow> 'b refdb_op" where
  "op_bind m f = (\<lambda>s. case m s of (Inl e, s') \<Rightarrow> (Inl e, s') | (Inr x, s') \<Rightarrow> f x s')"

definition op_lift :: "(fs \<Rightarrow> 'a ref_result) \<Rightarrow> 'a refdb_op" where
  "op_lift r = (\<lambda>s. (r s, s))"

text \<open>The outcome of a function run under a lock; a lock that cannot be taken changes nothing.\<close>

definition op_lock :: "(fs \<Rightarrow> ('a ref_result bit_result \<times> fs) bit_result) \<Rightarrow> 'a refdb_op" where
  "op_lock m = (\<lambda>s. case m s of
       Inl e \<Rightarrow> (Inl (Other e), s)
     | Inr (Inl e, s') \<Rightarrow> (Inl (Other e), s')
     | Inr (Inr r, s') \<Rightarrow> (r, s'))"

definition try_into_nonexistent_symref_err :: "ref_error \<Rightarrow> symbolic_ref ref_result" where
  "try_into_nonexistent_symref_err err = (case err of NonExistentSymRef symref \<Rightarrow> Inr symref | _ \<Rightarrow> Inl err)"

definition refdb_join :: "refdb \<Rightarrow> bit_path \<Rightarrow> byte list" where
  "refdb_join db p = path_bytes (join (bitdir db) (path_bytes p))"

definition join_log :: "refdb \<Rightarrow> bit_path \<Rightarrow> byte list" where
  "join_log db p = path_bytes (join (join (bitdir db) (bytes_of ''logs'')) (path_bytes p))"

section \<open>Model: reading\<close>

definition ref_exists :: "refdb \<Rightarrow> symbolic_ref \<Rightarrow> fs \<Rightarrow> bool" where
  "ref_exists db symref s = fs_exists s (refdb_join db (sym_path symref))"

fun expand_from :: "refdb \<Rightarrow> bit_path list \<Rightarrow> symbolic_ref \<Rightarrow> fs \<Rightarrow> symbolic_ref ref_result" where
  "expand_from db [] symref s = Inl (NonExistentSymRef symref)"
| "expand_from db (base # rest) symref s =
     (let p = join base (path_bytes (sym_path symref))
      in if fs_exists s (refdb_join db p) then lift_err (symref_new_valid p) else expand_from db rest symref s)"

definition expand_symref :: "refdb \<Rightarrow> symbolic_ref \<Rightarrow> fs \<Rightarrow> symbolic_ref ref_result" where
  "expand_symref db symref s = expand_from db [BitPath [], REFS_HEADS, REFS_TAGS, REFS_REMOTES] symref s"

definition validate :: "refdb \<Rightarrow> bit_ref \<Rightarrow> fs \<Rightarrow> bit_ref ref_result" where
  "validate db r s =
     (case r of
        Direct h \<Rightarrow> and_then (lift_err (ensure_obj_is_commit db h)) (\<lambda>_. Inr r)
      | Symbolic symref \<Rightarrow> and_then (expand_symref db symref s) (\<lambda>symref. Inr (Symbolic symref)))"

definition read_locked :: "refdb \<Rightarrow> lockfile \<Rightarrow> fs \<Rightarrow> bit_ref ref_result" where
  "read_locked db lk s =
     (case lk_file lk of
        None \<Rightarrow> Inl (Other Panic)
      | Some i \<Rightarrow> (case nodes s i of
            OtherNode \<Rightarrow> Inl (Other Panic)
          | FileNode bs _ \<Rightarrow> and_then (lift_err (ref_deserialize (from_hex db) bs)) (\<lambda>r. validate db r s)))"

definition ref_read :: "refdb \<Rightarrow> symbolic_ref \<Rightarrow> bit_ref refdb_op" where
  "ref_read db symref =
     op_bind (op_lift (expand_symref db symref)) (\<lambda>expanded.
       op_lock (with_readonly (refdb_join db (sym_path expanded)) True (\<lambda>lk s. Inr (read_locked db lk s))))"

definition partially_resolve :: "refdb \<Rightarrow> bit_ref \<Rightarrow> bit_ref refdb_op" where
  "partially_resolve db r =
     (case r of Direct _ \<Rightarrow> op_lift (validate db r) | Symbolic symref \<Rightarrow> ref_read db symref)"

text \<open>\<open>resolve\<close> calls itself once per symbolic reference; \<open>fuel\<close> bounds the calls.\<close>

fun resolve :: "nat \<Rightarrow> refdb \<Rightarrow> bit_ref \<Rightarrow> bit_ref refdb_op" where
  "resolve 0 db r s = (Inl (Other Diverge), s)"
| "resolve (Suc fuel) db r s =
     (case partially_resolve db r s of
        (Inr (Direct h), s') \<Rightarrow> (Inr (Direct h), s')
      | (Inr (Symbolic symref), s') \<Rightarrow> resolve fuel db (Symbolic symref) s'
      | (Inl err, s') \<Rightarrow> (and_then (try_into_nonexistent_symref_err err) (\<lambda>symref. Inr (Symbolic symref)), s'))"

definition fully_resolve :: "nat \<Rightarrow> refdb \<Rightarrow> bit_ref \<Rightarrow> oid refdb_op" where
  "fully_resolve fuel db r =
     op_bind (resolve fuel db r) (\<lambda>x. op_lift (\<lambda>_. case x of
         Direct h \<Rightarrow> Inr h | Symbolic _ \<Rightarrow> Inl (Other (Bail ''failed to resolve reference''))))"

definition try_fully_resolve_ref :: "nat \<Rightarrow> refdb \<Rightarrow> bit_ref \<Rightarrow> oid option refdb_op" where
  "try_fully_resolve_ref fuel db r =
     op_bind (resolve fuel db r) (\<lambda>x. op_lift (\<lambda>_. case x of Direct h \<Rightarrow> Inr (Some h) | Symbolic _ \<Rightarrow> Inr None))"

definition read_head :: "refdb \<Rightarrow> bit_ref refdb_op" where
  "read_head db s =
     (case ref_read db HEAD s of
        (Inr r, s') \<Rightarrow> (Inr r, s')
      | (Inl err, s') \<Rightarrow> (and_then (try_into_nonexistent_symref_err err) (\<lambda>symref. Inr (Symbolic symref)), s'))"

definition is_head_detached :: "refdb \<Rightarrow> bool refdb_op" where
  "is_head_detached db = op_bind (read_head db) (\<lambda>r. op_lift (\<lambda>_. Inr (case r of Direct _ \<Rightarrow> True | Symbolic _ \<Rightarrow> False)))"

section \<open>Model: writing\<close>

definition set_ref_unvalidated :: "refdb \<Rightarrow> symbolic_ref \<Rightarrow> bit_ref \<Rightarrow> unit refdb_op" where
  "set_ref_unvalidated db symref to =
     op_lock (with_mut (refdb_join db (sym_path symref)) True
       (closure (\<lambda>_. ([ref_serialize (to_hex db) to], Inr (Inr ())))))"

definition set_ref :: "refdb \<Rightarrow> symbolic_ref \<Rightarrow> bit_ref \<Rightarrow> unit refdb_op" where
  "set_ref db symref to = op_bind (op_lift (validate db to)) (\<lambda>validated. set_ref_unvalidated db symref validated)"

datatype ref_update_commit_kind = Amend | Initial | NormalCommit
datatype merge_strategy = FastForward | Recursive

datatype ref_update_cause =
    NewBranch bit_ref
  | CommitCause "byte list" ref_update_commit_kind
  | Checkout bit_ref bit_ref
  | Reset bit_ref
  | Merge bit_ref merge_strategy
  | Fetch bit_ref

definition cause_display :: "(byte list \<Rightarrow> byte list) \<Rightarrow> ref_update_cause \<Rightarrow> byte list" where
  "cause_display hex cause =
     (let show = (\<lambda>r. ref_display hex r); quoted = (\<lambda>r. [96] @ ref_display hex r @ [96]) in
      case cause of
        NewBranch from \<Rightarrow> bytes_of ''branch: Created from '' @ show from
      | CommitCause subj NormalCommit \<Rightarrow> bytes_of ''commit: '' @ subj
      | CommitCause subj Amend \<Rightarrow> bytes_of ''commit (amend): '' @ subj
      | CommitCause subj Initial \<Rightarrow> bytes_of ''commit (initial): '' @ subj
      | Checkout from to \<Rightarrow> bytes_of ''checkout: moving from '' @ quoted from @ bytes_of '' to '' @ quoted to
      | Reset target \<Rightarrow> bytes_of ''reset: moving to '' @ quoted target
      | Merge theirs FastForward \<Rightarrow> bytes_of ''merge '' @ quoted theirs @ bytes_of '': fast-forward''
      | Merge theirs Recursive \<Rightarrow> bytes_of ''merge '' @ quoted theirs @ bytes_of '': recursive''
      | Fetch _ \<Rightarrow> bytes_of ''fetch'')"

text \<open>\<open>read_reflog\<close> takes the file lock on the log; \<open>log\<close> appends to it and drops the lock.\<close>

definition read_reflog :: "refdb \<Rightarrow> symbolic_ref \<Rightarrow> reflog filelock refdb_op" where
  "read_reflog db symref =
     op_bind (op_lift (expand_symref db symref)) (\<lambda>expanded s.
       case filelock_lock (reflog_deserialize (from_hex db)) [] (join_log db (sym_path expanded)) False s of
         Inl e \<Rightarrow> (Inl (Other e), s)
       | Inr (Inl e, s') \<Rightarrow> (Inl (Other e), s')
       | Inr (Inr fl, s') \<Rightarrow> (Inr fl, s'))"

definition ref_log :: "refdb \<Rightarrow> symbolic_ref \<Rightarrow> oid \<Rightarrow> bit_signature \<Rightarrow> byte list \<Rightarrow> unit refdb_op" where
  "ref_log db symref new sig msg =
     op_bind (read_reflog db symref) (\<lambda>fl s.
       case and_then (filelock_modify (reflog_append new sig msg) fl)
              (\<lambda>fl. filelock_drop (reflog_serialize (to_hex db)) fl s) of
         Inl e \<Rightarrow> (Inl (Other e), s)
       | Inr s' \<Rightarrow> (Inr (), s'))"

definition ref_update :: "nat \<Rightarrow> refdb \<Rightarrow> symbolic_ref \<Rightarrow> bit_ref \<Rightarrow> ref_update_cause \<Rightarrow> unit refdb_op" where
  "ref_update fuel db symref to cause =
     op_bind (set_ref db symref to) (\<lambda>_.
     op_bind (fully_resolve fuel db to) (\<lambda>new.
     op_bind (op_lift (\<lambda>_. lift_err (repo_user_signature db))) (\<lambda>sig.
     let msg = cause_display (to_hex db) cause in
     op_bind (read_head db) (\<lambda>head.
     op_bind (if head = Symbolic symref then ref_log db HEAD new sig msg else op_lift (\<lambda>_. Inr ())) (\<lambda>_.
       ref_log db symref new sig msg)))))"

definition create_branch :: "nat \<Rightarrow> refdb \<Rightarrow> symbolic_ref \<Rightarrow> bit_ref \<Rightarrow> unit refdb_op" where
  "create_branch fuel db symref from =
     (\<lambda>s. if ref_exists db symref s then (Inl (Other (Bail ''a reference already exists'')), s)
          else op_bind (try_fully_resolve_ref fuel db from) (\<lambda>x. case x of
                 Some h \<Rightarrow> ref_update fuel db symref (Direct h) (NewBranch from)
               | None \<Rightarrow> set_ref_unvalidated db HEAD (Symbolic symref)) s)"

definition update_current_ref :: "nat \<Rightarrow> refdb \<Rightarrow> oid \<Rightarrow> ref_update_cause \<Rightarrow> unit refdb_op" where
  "update_current_ref fuel db target cause =
     op_bind (read_head db) (\<lambda>head. case head of
       Direct _ \<Rightarrow> ref_update fuel db HEAD (Direct target) cause
     | Symbolic current_branch \<Rightarrow> ref_update fuel db current_branch (Direct target) cause)"

definition update_ref_for_fetch :: "nat \<Rightarrow> refdb \<Rightarrow> symbolic_ref \<Rightarrow> bit_ref \<Rightarrow> unit refdb_op" where
  "update_ref_for_fetch fuel db symref to =
     op_bind (fully_resolve fuel db to) (\<lambda>h. ref_update fuel db symref (Direct h) (Fetch to))"

definition update_current_ref_for_reset :: "nat \<Rightarrow> refdb \<Rightarrow> bit_ref \<Rightarrow> unit refdb_op" where
  "update_current_ref_for_reset fuel db target =
     op_bind (fully_resolve fuel db target) (\<lambda>h. update_current_ref fuel db h (Reset target))"

definition update_current_ref_for_ff_merge :: "nat \<Rightarrow> refdb \<Rightarrow> bit_ref \<Rightarrow> unit refdb_op" where
  "update_current_ref_for_ff_merge fuel db theirs =
     op_bind (fully_resolve fuel db theirs) (\<lambda>h. update_current_ref fuel db h (Merge theirs FastForward))"

definition update_current_ref_for_merge :: "nat \<Rightarrow> refdb \<Rightarrow> bit_ref \<Rightarrow> unit refdb_op" where
  "update_current_ref_for_merge fuel db theirs =
     op_bind (fully_resolve fuel db theirs) (\<lambda>h. update_current_ref fuel db h (Merge theirs Recursive))"

definition update_head_for_checkout :: "nat \<Rightarrow> refdb \<Rightarrow> bit_ref \<Rightarrow> unit refdb_op" where
  "update_head_for_checkout fuel db to =
     op_bind (read_head db) (\<lambda>from. ref_update fuel db HEAD to (Checkout from to))"

text \<open>
  \<open>ls_refs\<close>: \<open>files\<close> are the files the directory walk finds under \<open>refs\<close>, as paths below the
  directory of the store. The set is kept as the ordered list the \<open>BTreeSet\<close> iterates over.
\<close>

definition ls_refs_step :: "symbolic_ref list \<Rightarrow> bit_path \<Rightarrow> symbolic_ref list bit_result" where
  "ls_refs_step refs p =
     and_then (symref_new_valid p) (\<lambda>symref. if symref \<in> set refs then Inl Panic else Inr (insort symref refs))"

definition ls_refs :: "bit_path list \<Rightarrow> symbolic_ref list bit_result" where
  "ls_refs files = try_fold ls_refs_step [HEAD] files"

section \<open>Reading leaves the store as it was\<close>

text \<open>
  A store at rest: nothing is locked, and every symbolic reference in it has a valid name (so that no
  reference names a lock file).
\<close>

definition store_ok :: "refdb \<Rightarrow> fs \<Rightarrow> bool" where
  "store_ok db s \<longleftrightarrow> fs_ok s \<and> no_locks s
     \<and> (\<forall>q bs r. fs_content s q = Some bs \<and> ref_deserialize (from_hex db) bs = Inr (Symbolic r)
          \<longrightarrow> is_valid_name (path_bytes (sym_path r)))"

definition same_store :: "fs \<Rightarrow> fs \<Rightarrow> bool" where
  "same_store s s' \<longleftrightarrow> fs_ok s' \<and> names s' = names s \<and> fs_content s' = fs_content s"

lemma valid_not_lock: "is_valid_name q \<Longrightarrow> \<not> suffix lock_suffix q"
  by (simp add: is_valid_name_def invalid_ref_regex_def lock_suffix_def)

lemma push_not_lock:
  assumes "\<not> suffix lock_suffix q"
  shows "\<not> suffix lock_suffix (path_push base q)"
proof
  assume "suffix lock_suffix (path_push base q)"
  moreover have "\<exists>b. path_push base q = q \<or> path_push base q = b @ b_slash # q"
  proof (cases "base \<noteq> [] \<and> last base = b_slash")
    case True
    then have "base @ q = butlast base @ b_slash # q"
      using append_butlast_last_id [of base] by (metis append.assoc append_Cons append_Nil)
    with True show ?thesis by (auto simp: path_push_def)
  qed (auto simp: path_push_def)
  then obtain b where "path_push base q = q \<or> path_push base q = b @ b_slash # q" by blast
  ultimately have "suffix lock_suffix (b @ b_slash # q)" using assms by auto
  then obtain zs where zs: "b @ b_slash # q = zs @ lock_suffix" by (auto simp: suffix_def)
  have "b_slash \<notin> set lock_suffix" by (simp add: lock_suffix_def)
  with zs have "\<exists>us. q = us @ lock_suffix"
    by (auto simp: append_eq_append_conv2 Cons_eq_append_conv append_eq_Cons_conv) (metis in_set_conv_decomp, metis list.set_intros(1))
  with assms show False by (auto simp: suffix_def)
qed

lemma expand_frame:
  assumes "\<not> suffix lock_suffix (path_bytes (sym_path r))" "\<And>q. \<not> suffix lock_suffix q \<Longrightarrow> names s' q = names s q"
  shows "expand_symref db r s' = expand_symref db r s"
proof -
  have "fs_exists s' (refdb_join db (join base (path_bytes (sym_path r)))) = fs_exists s (refdb_join db (join base (path_bytes (sym_path r))))" for base
    using push_not_lock [OF assms(1)] push_not_lock assms(2)
    by (simp add: fs_exists_def refdb_join_def join_def)
  then have "expand_from db bases r s' = expand_from db bases r s" for bases
    by (induction bases) (simp_all add: Let_def)
  then show ?thesis unfolding expand_symref_def .
qed

text \<open>What \<open>read\<close> finds, as a function of the store alone.\<close>

definition read_spec :: "refdb \<Rightarrow> symbolic_ref \<Rightarrow> fs \<Rightarrow> bit_ref ref_result" where
  "read_spec db r s =
     and_then (expand_symref db r s) (\<lambda>ex. case fs_content s (refdb_join db (sym_path ex)) of
         None \<Rightarrow> Inl (Other Panic)
       | Some bs \<Rightarrow> and_then (lift_err (ref_deserialize (from_hex db) bs)) (\<lambda>x. validate db x s))"

lemma same_store_refl: "fs_ok s \<Longrightarrow> same_store s s"
  by (simp add: same_store_def)

lemma same_store_trans: "same_store s s' \<Longrightarrow> same_store s' s'' \<Longrightarrow> same_store s s''"
  by (simp add: same_store_def)

lemma store_ok_same: "store_ok db s \<Longrightarrow> same_store s s' \<Longrightarrow> store_ok db s'"
  by (simp add: store_ok_def same_store_def no_locks_def)

lemma expand_exists:
  assumes "expand_symref db r s = Inr ex"
  shows "fs_exists s (refdb_join db (sym_path ex))"
proof -
  have "expand_from db bases r s = Inr ex \<Longrightarrow> ?thesis" for bases
    by (induction bases)
       (auto simp: Let_def lift_err_def symref_new_valid_def and_then_eq_Inr ensure_eq_Inr split: if_splits sum.splits)
  then show ?thesis using assms unfolding expand_symref_def .
qed

lemma ref_read_spec:
  assumes "store_ok db s"
  shows "\<exists>s'. ref_read db r s = (read_spec db r s, s') \<and> same_store s s'"
proof (cases "expand_symref db r s")
  case (Inl e)
  then show ?thesis using assms same_store_refl
    by (auto simp: ref_read_def op_bind_def op_lift_def read_spec_def store_ok_def)
next
  case (Inr ex)
  let ?p = "refdb_join db (sym_path ex)"
  have ok: "fs_ok s" "no_locks s" using assms by (simp_all add: store_ok_def)
  have lk: "names s (lock_path ?p) = None" using ok(2) lock_path_suffix by (simp add: no_locks_def)
  show ?thesis
  proof (cases "fs_content s ?p")
    case None
    then have "lockfile_open ?p True s = Inl Panic"
      using expand_exists [OF Inr] by (simp add: lockfile_open_def)
    then show ?thesis using Inr None same_store_refl [OF ok(1)]
      by (simp add: ref_read_def op_bind_def op_lift_def op_lock_def with_readonly_def read_spec_def)
  next
    case (Some bs)
    then have "\<exists>lk s1. lockfile_open ?p True s = Inr (lk, s1)"
      using lk by (simp add: lockfile_open_def fs_exists_def Let_def lock_path_def)
    then obtain l s1 where op: "lockfile_open ?p True s = Inr (l, s1)" by blast
    note h = open_held [OF op]
    obtain s' where d: "lockfile_drop (lockfile_rollback l) s1 = Inr s'" "rolled_back_to s s'"
      using rollback_drop [OF h, of "lockfile_rollback l"] by blast
    have st: "same_store s s'"
      using fs_ok_rolled_back [OF ok(1) d(2)] rolled_back_same [OF ok(1) d(2)] d(2)
      by (auto simp: same_store_def rolled_back_to_def)
    obtain i ro where i: "names s ?p = Some i" "nodes s i = FileNode bs ro"
      using Some by (auto simp: fs_content_def split: option.splits node.splits)
    have ne: "lock_path ?p \<noteq> ?p" using lk i(1) by auto
    have node: "lk_file l = Some i" "nodes s1 i = FileNode bs ro"
      using h i ne fs_fresh [OF ok(1) i(1)] by (simp_all add: held_def)
    have v: "validate db x s1 = validate db x s" if "ref_deserialize (from_hex db) bs = Inr x" for x
    proof (cases x)
      case (Symbolic t)
      then have "is_valid_name (path_bytes (sym_path t))"
        using assms Some that by (auto simp: store_ok_def)
      moreover have "names s1 q = names s q" if "\<not> suffix lock_suffix q" for q
        using h lock_path_suffix that by (auto simp: held_def)
      ultimately have "expand_symref db t s1 = expand_symref db t s"
        by (rule expand_frame [OF valid_not_lock])
      then show ?thesis by (simp add: Symbolic validate_def)
    qed (simp add: validate_def)
    have "read_locked db l s1 = read_spec db r s"
      using v by (cases "ref_deserialize (from_hex db) bs") (simp_all add: read_locked_def read_spec_def node Inr Some lift_err_def)
    moreover have "with_readonly ?p True (\<lambda>lk s. Inr (read_locked db lk s)) s = Inr (Inr (read_locked db l s1), s')"
      by (simp add: with_readonly_def op d(1))
    ultimately have "ref_read db r s = (read_spec db r s, s')"
      by (simp add: ref_read_def op_bind_def op_lift_def op_lock_def Inr)
    then show ?thesis using st by blast
  qed
qed

section \<open>Resolution\<close>

text \<open>
  What a reference resolves to, as a relation on the store: a direct reference to itself when the object
  is a commit; a symbolic reference through the references it names, to an object, or to the name that
  does not exist yet.
\<close>

inductive resolves_to :: "refdb \<Rightarrow> fs \<Rightarrow> bit_ref \<Rightarrow> bit_ref \<Rightarrow> bool" for db s where
  direct: "ensure_obj_is_commit db h = Inr () \<Longrightarrow> resolves_to db s (Direct h) (Direct h)"
| found: "read_spec db r s = Inr (Direct h) \<Longrightarrow> resolves_to db s (Symbolic r) (Direct h)"
| dangling: "read_spec db r s = Inl (NonExistentSymRef t) \<Longrightarrow> resolves_to db s (Symbolic r) (Symbolic t)"
| step: "read_spec db r s = Inr (Symbolic t) \<Longrightarrow> resolves_to db s (Symbolic t) x \<Longrightarrow> resolves_to db s (Symbolic r) x"

text \<open>One step of the chain, and that the chain from a reference is finite.\<close>

definition points_to :: "refdb \<Rightarrow> fs \<Rightarrow> symbolic_ref \<Rightarrow> symbolic_ref \<Rightarrow> bool" where
  "points_to db s r t \<longleftrightarrow> read_spec db r s = Inr (Symbolic t)"

definition finite_chain :: "refdb \<Rightarrow> fs \<Rightarrow> symbolic_ref \<Rightarrow> bool" where
  "finite_chain db s r \<longleftrightarrow> Wellfounded.accp (\<lambda>t r. points_to db s r t) r"

lemma finite_chain_iff: "finite_chain db s r \<longleftrightarrow> (\<forall>t. points_to db s r t \<longrightarrow> finite_chain db s t)"
  unfolding finite_chain_def by (blast intro: accp.intros elim: accp.cases)

lemma self_reference: "points_to db s r r \<Longrightarrow> \<not> finite_chain db s r"
proof
  assume "finite_chain db s r" and "points_to db s r r"
  then show False unfolding finite_chain_def by (induction rule: accp.induct) blast
qed

lemma read_spec_same: "same_store s s' \<Longrightarrow> read_spec db r s' = read_spec db r s"
proof -
  assume st: "same_store s s'"
  have e: "expand_symref db t s' = expand_symref db t s" for t
  proof -
    have "expand_from db bases t s' = expand_from db bases t s" for bases
      using st by (induction bases) (simp_all add: Let_def same_store_def fs_exists_def)
    then show ?thesis unfolding expand_symref_def .
  qed
  have "validate db x s' = validate db x s" for x by (cases x) (simp_all add: validate_def e)
  then have v: "(\<lambda>x. validate db x s') = (\<lambda>x. validate db x s)" by (rule ext)
  show ?thesis using st by (simp add: read_spec_def e same_store_def v cong: option.case_cong)
qed

lemma resolves_to_same: "resolves_to db s r x \<Longrightarrow> same_store s s' \<Longrightarrow> resolves_to db s' r x"
  by (induction rule: resolves_to.induct) (auto intro: resolves_to.intros simp: read_spec_same)

lemma same_store_sym: "fs_ok s \<Longrightarrow> same_store s s' \<Longrightarrow> same_store s' s"
  by (simp add: same_store_def)

text \<open>One call of \<open>resolve\<close> on a symbolic reference, with the store's answer in place of the read.\<close>

lemma resolve_symbolic:
  assumes "store_ok db s"
  obtains s' where "same_store s s'"
    "resolve (Suc n) db (Symbolic r) s =
       (case read_spec db r s of
          Inr (Direct h) \<Rightarrow> (Inr (Direct h), s')
        | Inr (Symbolic t) \<Rightarrow> resolve n db (Symbolic t) s'
        | Inl (NonExistentSymRef t) \<Rightarrow> (Inr (Symbolic t), s')
        | Inl (Other e) \<Rightarrow> (Inl (Other e), s'))"
proof -
  obtain s' where s': "ref_read db r s = (read_spec db r s, s')" "same_store s s'"
    using ref_read_spec [OF assms] by blast
  show ?thesis
  proof (rule that [OF s'(2)])
  qed (auto simp: partially_resolve_def s'(1) try_into_nonexistent_symref_err_def
        split: sum.splits bit_ref.splits ref_error.splits)
qed

lemma resolve_complete:
  assumes "resolves_to db s r x" "store_ok db s"
  shows "\<exists>n s'. resolve n db r s = (Inr x, s') \<and> same_store s s'"
proof -
  have ok: "fs_ok s" using assms(2) by (simp add: store_ok_def)
  have "\<forall>s0. same_store s s0 \<longrightarrow> (\<exists>n s'. resolve n db r s0 = (Inr x, s') \<and> same_store s s')"
    using assms(1)
  proof (induction rule: resolves_to.induct)
    case (direct h)
    then have "resolve (Suc 0) db (Direct h) s0 = (Inr (Direct h), s0)" for s0
      by (simp add: partially_resolve_def op_lift_def validate_def lift_err_def)
    then show ?case by blast
  next
    case (found r h)
    show ?case
    proof (intro allI impI)
      fix s0 assume s0: "same_store s s0"
      then obtain s' where "same_store s0 s'" "resolve (Suc 0) db (Symbolic r) s0 = (Inr (Direct h), s')"
        using resolve_symbolic [OF store_ok_same [OF assms(2) s0], of 0 r] found by (auto simp: read_spec_same)
      then show "\<exists>n s'. resolve n db (Symbolic r) s0 = (Inr (Direct h), s') \<and> same_store s s'"
        using same_store_trans [OF s0] by blast
    qed
  next
    case (dangling r t)
    show ?case
    proof (intro allI impI)
      fix s0 assume s0: "same_store s s0"
      then obtain s' where "same_store s0 s'" "resolve (Suc 0) db (Symbolic r) s0 = (Inr (Symbolic t), s')"
        using resolve_symbolic [OF store_ok_same [OF assms(2) s0], of 0 r] dangling by (auto simp: read_spec_same)
      then show "\<exists>n s'. resolve n db (Symbolic r) s0 = (Inr (Symbolic t), s') \<and> same_store s s'"
        using same_store_trans [OF s0] by blast
    qed
  next
    case (step r t x)
    show ?case
    proof (intro allI impI)
      fix s0 assume s0: "same_store s s0"
      have rs: "read_spec db r s0 = Inr (Symbolic t)" using step.hyps(1) s0 by (simp add: read_spec_same)
      obtain s1 where "ref_read db r s0 = (Inr (Symbolic t), s1)" and s1: "same_store s0 s1"
        using ref_read_spec [OF store_ok_same [OF assms(2) s0], of r] rs by auto
      moreover obtain n s' where "resolve n db (Symbolic t) s1 = (Inr x, s')" "same_store s s'"
        using step.IH same_store_trans [OF s0 s1] by blast
      ultimately have "resolve (Suc n) db (Symbolic r) s0 = (Inr x, s') \<and> same_store s s'"
        by (simp add: partially_resolve_def)
      then show "\<exists>n s'. resolve n db (Symbolic r) s0 = (Inr x, s') \<and> same_store s s'" by blast
    qed
  qed
  then show ?thesis using same_store_refl [OF ok] by blast
qed

lemma resolve_sound:
  assumes "resolve n db r s = (Inr x, s')" "store_ok db s"
  shows "resolves_to db s r x \<and> same_store s s'"
  using assms
proof (induction n arbitrary: r s)
  case (Suc n)
  show ?case
  proof (cases r)
    case (Direct h)
    then show ?thesis using Suc.prems same_store_refl
      by (cases "ensure_obj_is_commit db h")
         (auto simp: partially_resolve_def op_lift_def validate_def lift_err_def try_into_nonexistent_symref_err_def
            store_ok_def intro: resolves_to.direct)
  next
    case (Symbolic y)
    obtain s1 where s1: "ref_read db y s = (read_spec db y s, s1)" "same_store s s1"
      using ref_read_spec [OF Suc.prems(2)] by blast
    consider (d) h where "read_spec db y s = Inr (Direct h)" | (s) t where "read_spec db y s = Inr (Symbolic t)"
      | (n) t where "read_spec db y s = Inl (NonExistentSymRef t)" | (e) e where "read_spec db y s = Inl (Other e)"
      by (metis bit_ref.exhaust ref_error.exhaust sum.exhaust)
    then show ?thesis
    proof cases
      case s
      then have "resolve n db (Symbolic t) s1 = (Inr x, s')"
        using Suc.prems(1) s1(1) by (simp add: Symbolic partially_resolve_def)
      from Suc.IH [OF this store_ok_same [OF Suc.prems(2) s1(2)]]
      have "resolves_to db s1 (Symbolic t) x" "same_store s1 s'" by simp_all
      moreover have "same_store s1 s" using s1(2) Suc.prems(2) by (simp add: same_store_def store_ok_def)
      ultimately show ?thesis
        using s resolves_to_same same_store_trans [OF s1(2)] by (auto simp: Symbolic intro: resolves_to.step)
    qed (use Suc.prems(1) s1 in \<open>auto simp: Symbolic partially_resolve_def try_into_nonexistent_symref_err_def
        intro: resolves_to.found resolves_to.dangling\<close>)
  qed
qed simp

lemma resolve_returns:
  assumes "finite_chain db s r" "store_ok db s" "\<And>h. ensure_obj_is_commit db h \<noteq> Inl Diverge"
  shows "\<exists>n. fst (resolve n db (Symbolic r) s) \<noteq> Inl (Other Diverge)"
proof -
  have nd: "read_spec db y t \<noteq> Inl (Other Diverge)" for y t
  proof -
    have n: "symref_new_valid p \<noteq> Inl Diverge" "ref_deserialize (from_hex db) bs \<noteq> Inl Diverge" for p bs
      by (auto simp: symref_new_valid_def ref_deserialize_def ensure_def and_then_def)
    have "expand_from db bases z t \<noteq> Inl (Other Diverge)" for bases z
      using n by (induction bases) (auto simp: Let_def lift_err_def split: sum.splits)
    then have x: "expand_symref db z t \<noteq> Inl (Other Diverge)" for z unfolding expand_symref_def .
    then have "validate db w t \<noteq> Inl (Other Diverge)" for w
      using assms(3) by (cases w) (auto simp: validate_def and_then_eq_Inl lift_err_def split: sum.splits)
    then show ?thesis using x n by (auto simp: read_spec_def and_then_eq_Inl lift_err_def split: option.splits sum.splits)
  qed
  have "\<forall>s0. same_store s s0 \<longrightarrow> (\<exists>n. fst (resolve n db (Symbolic r) s0) \<noteq> Inl (Other Diverge))"
    using assms(1) unfolding finite_chain_def
  proof (induction rule: accp.induct)
    case (accI r)
    show ?case
    proof (intro allI impI)
      fix s0 assume s0: "same_store s s0"
      note ok = store_ok_same [OF assms(2) s0]
      obtain s1 where s1: "ref_read db r s0 = (read_spec db r s, s1)" "same_store s0 s1"
        using ref_read_spec [OF ok] read_spec_same [OF s0] by metis
      show "\<exists>n. fst (resolve n db (Symbolic r) s0) \<noteq> Inl (Other Diverge)"
      proof (cases "\<exists>t. points_to db s r t")
        case True
        then obtain t where t: "points_to db s r t" by blast
        obtain n where "fst (resolve n db (Symbolic t) s1) \<noteq> Inl (Other Diverge)"
          using accI.IH [OF t] same_store_trans [OF s0 s1(2)] by blast
        then have "fst (resolve (Suc n) db (Symbolic r) s0) \<noteq> Inl (Other Diverge)"
          using t s1(1) by (simp add: partially_resolve_def points_to_def)
        then show ?thesis by blast
      next
        case False
        then have "fst (resolve (Suc 0) db (Symbolic r) s0) \<noteq> Inl (Other Diverge)"
          using s1(1) nd [of r s]
          by (auto simp: partially_resolve_def points_to_def try_into_nonexistent_symref_err_def split: sum.splits bit_ref.splits ref_error.splits)
        then show ?thesis by blast
      qed
    qed
  qed
  then show ?thesis using assms(2) same_store_refl by (auto simp: store_ok_def)
qed

lemma resolve_diverges:
  assumes "\<not> finite_chain db s r" "store_ok db s"
  shows "fst (resolve n db (Symbolic r) s) = Inl (Other Diverge)"
proof -
  have "\<forall>s0. same_store s s0 \<longrightarrow> fst (resolve n db (Symbolic r) s0) = Inl (Other Diverge)"
    using assms(1)
  proof (induction n arbitrary: r)
    case (Suc n)
    then obtain t where t: "points_to db s r t" "\<not> finite_chain db s t" using finite_chain_iff by blast
    show ?case
    proof (intro allI impI)
      fix s0 assume s0: "same_store s s0"
      obtain s1 where "ref_read db r s0 = (read_spec db r s, s1)" "same_store s0 s1"
        using ref_read_spec [OF store_ok_same [OF assms(2) s0]] read_spec_same [OF s0] by metis
      then show "fst (resolve (Suc n) db (Symbolic r) s0) = Inl (Other Diverge)"
        using Suc.IH [OF t(2)] t(1) same_store_trans [OF s0] by (simp add: partially_resolve_def points_to_def)
    qed
  qed simp
  then show ?thesis using assms(2) same_store_refl by (auto simp: store_ok_def)
qed


text \<open>A store with a branch that exists, the head on it, and a reference that names itself.\<close>

definition sample_signature_r :: bit_signature where
  "sample_signature_r = \<lparr>sig_name = bytes_of ''A'', sig_email = bytes_of ''a@b'', sig_time = \<lparr>time = 0, offset = 60\<rparr>\<rparr>"

definition sample_db :: refdb where
  "sample_db = \<lparr>bitdir = BitPath (bytes_of ''.git''), to_hex = sample_enc, from_hex = sample_dec,
     ensure_obj_is_commit = (\<lambda>_. Inr ()), repo_user_signature = Inr sample_signature_r\<rparr>"

definition sample_store :: fs where
  "sample_store = \<lparr>names = [bytes_of ''.git/HEAD'' \<mapsto> 0, bytes_of ''.git/refs/heads/master'' \<mapsto> 1,
      bytes_of ''.git/refs/heads/loop'' \<mapsto> 2],
    nodes = (\<lambda>i. if i = 0 then FileNode (bytes_of ''ref: refs/heads/master'') True
      else if i = 1 then FileNode (sample_enc EMPTY_TREE) True
      else if i = 2 then FileNode (bytes_of ''ref: refs/heads/loop'') True else OtherNode),
    next_node = 3\<rparr>"

definition LOOP :: symbolic_ref where
  "LOOP = SymbolicRef (BitPath (bytes_of ''refs/heads/loop'')) BranchKind"

lemma sample_store_names:
  "names sample_store q = Some i \<longleftrightarrow>
     (q = bytes_of ''.git/HEAD'' \<and> i = 0) \<or> (q = bytes_of ''.git/refs/heads/master'' \<and> i = 1)
     \<or> (q = bytes_of ''.git/refs/heads/loop'' \<and> i = 2)"
  by (auto simp: sample_store_def)

lemma sample_store_files:
  "fs_content sample_store q = Some bs \<Longrightarrow>
     bs \<in> {bytes_of ''ref: refs/heads/master'', sample_enc EMPTY_TREE, bytes_of ''ref: refs/heads/loop''}"
  by (auto simp: fs_content_def sample_store_names sample_store_def split: option.splits if_splits)

lemma sample_store_ok: "store_ok sample_db sample_store"
proof -
  have "fs_ok sample_store"
    by (auto simp: fs_ok_def sample_store_names) (auto simp: sample_store_def)
  moreover have "no_locks sample_store"
    by (auto simp: no_locks_def sample_store_def lock_suffix_def suffix_def split: if_splits)
  moreover have "is_valid_name (path_bytes (sym_path r))"
    if "fs_content sample_store q = Some bs" "ref_deserialize (from_hex sample_db) bs = Inr (Symbolic r)" for q bs r
  proof -
    have "ref_deserialize (from_hex sample_db) (bytes_of ''ref: refs/heads/master'') = Inr (Symbolic MASTER)" by code_simp
    moreover have "ref_deserialize (from_hex sample_db) (bytes_of ''ref: refs/heads/loop'') = Inr (Symbolic LOOP)" by code_simp
    moreover have "ref_deserialize (from_hex sample_db) (sample_enc EMPTY_TREE) = Inr (Direct EMPTY_TREE)" by code_simp
    moreover have "is_valid_name (path_bytes (sym_path MASTER))" by code_simp
    moreover have "is_valid_name (path_bytes (sym_path LOOP))" by code_simp
    ultimately show ?thesis using sample_store_files [OF that(1)] that(2) by auto
  qed
  ultimately show ?thesis by (auto simp: store_ok_def)
qed


section \<open>Writing\<close>

text \<open>The store after one file has been written: the lock is gone and nothing else has changed.\<close>

definition wrote :: "byte list \<Rightarrow> byte list \<Rightarrow> fs \<Rightarrow> fs \<Rightarrow> bool" where
  "wrote p bs s s' \<longleftrightarrow> fs_ok s' \<and> no_locks s' \<and> (\<forall>q. fs_exists s' q \<longleftrightarrow> q = p \<or> fs_exists s q)
     \<and> fs_content s' = (fs_content s)(p \<mapsto> bs)"

lemma wroteI:
  assumes "fs_ok s'" "no_locks s" "\<not> suffix lock_suffix p" "same_elsewhere {p} s s'" "fs_content s' p = Some bs"
  shows "wrote p bs s s'"
proof -
  have n: "names s' q = names s q" if "q \<noteq> p" for q using assms(4) that by (auto simp: same_elsewhere_def)
  moreover have "fs_content s' q = fs_content s q" if "q \<noteq> p" for q
    using assms(4) that by (auto simp: same_elsewhere_def fs_content_def split: option.splits)
  moreover have "fs_exists s' q \<longleftrightarrow> q = p \<or> fs_exists s q" for q
    using n assms(5) by (cases "q = p") (auto simp: fs_exists_def fs_content_def split: option.splits)
  ultimately show ?thesis
    using assms by (auto simp: wrote_def no_locks_def)
qed

lemma set_ref_unvalidated_spec:
  assumes "fs_ok s" "no_locks s" "\<not> suffix lock_suffix (refdb_join db (sym_path r))"
    and "fs_exists s (refdb_join db (sym_path r)) \<longrightarrow> fs_content s (refdb_join db (sym_path r)) \<noteq> None"
  shows "\<exists>s'. set_ref_unvalidated db r to s = (Inr (), s')
    \<and> wrote (refdb_join db (sym_path r)) (ref_serialize (to_hex db) to) s s'"
proof -
  let ?p = "refdb_join db (sym_path r)" and ?g = "\<lambda>_. ([ref_serialize (to_hex db) to], Inr (Inr ()))"
  obtain lk s1 where op: "lockfile_open ?p True s = Inr (lk, s1)" using open_rest [OF assms(2,4)] by blast
  have lp: "lock_path ?p \<noteq> ?p" using assms(3) lock_path_suffix by metis
  obtain s' where s': "with_mut ?p True (closure ?g) s = Inr (Inr (Inr () :: ref_error + unit), s')"
    "committed_to s ?p True (ref_serialize (to_hex db) to) s'"
    by (rule with_mut_outcome [OF assms(1) lp op, of ?g]) auto
  have "wrote ?p (ref_serialize (to_hex db) to) s s'"
    using fs_ok_committed [OF assms(1) s'(2)] committed_same [OF assms(1) s'(2)] assms by (intro wroteI) auto
  then show ?thesis using s'(1) by (simp add: set_ref_unvalidated_def op_lock_def)
qed

definition reflog_at :: "refdb \<Rightarrow> byte list \<Rightarrow> reflog \<Rightarrow> fs \<Rightarrow> bool" where
  "reflog_at db p es s \<longleftrightarrow> (\<not> fs_exists s p \<and> es = []) \<or> (\<exists>bs. fs_content s p = Some bs \<and> reflog_deserialize (from_hex db) bs = Inr es)"

lemma content_exists: "fs_content s p = Some bs \<Longrightarrow> fs_exists s p"
  by (auto simp: fs_content_def fs_exists_def split: option.splits)

lemma ref_log_spec:
  assumes "fs_ok s" "no_locks s" "expand_symref db r s = Inr ex" "reflog_at db (join_log db (sym_path ex)) es s"
    and "\<not> suffix lock_suffix (join_log db (sym_path ex))"
  shows "\<exists>s'. ref_log db r new sig msg s = (Inr (), s')
    \<and> wrote (join_log db (sym_path ex)) (reflog_serialize (to_hex db) (reflog_append new sig msg es)) s s'"
proof -
  let ?p = "join_log db (sym_path ex)" and ?de = "reflog_deserialize (from_hex db)"
  have lp: "lock_path ?p \<noteq> ?p" using assms(5) lock_path_suffix by metis
  have "fs_exists s ?p \<longrightarrow> fs_content s ?p \<noteq> None" using assms(4) by (auto simp: reflog_at_def)
  then obtain lk s1 where op: "lockfile_open ?p False s = Inr (lk, s1)" using open_rest [OF assms(2)] by blast
  note h = open_held [OF op]
  define fl where "fl = \<lparr>fl_data = es, fl_lockfile = lk, fl_dirty = False, fl_rolled_back = False\<rparr>"
  have "(case lk_file lk of None \<Rightarrow> Inr []
      | Some i \<Rightarrow> (case nodes s1 i of FileNode bs _ \<Rightarrow> ?de bs | OtherNode \<Rightarrow> Inl Panic)) = Inr es"
    using assms(4) h lp fs_fresh [OF assms(1)]
    by (auto simp: reflog_at_def held_def fs_exists_def fs_content_def split: option.splits node.splits)
  then have lock: "filelock_lock ?de [] ?p False s = Inr (Inr fl, s1)"
    by (simp add: filelock_lock_def op fl_def)
  define fl' where "fl' = fl\<lparr>fl_dirty := True, fl_data := reflog_append new sig msg es\<rparr>"
  have m: "filelock_modify (reflog_append new sig msg) fl = Inr fl'"
    by (simp add: filelock_modify_def fl_def fl'_def)
  obtain s' where s': "filelock_drop (reflog_serialize (to_hex db)) fl' s1 = Inr s'" "fs_ok s'" "same_elsewhere {?p} s s'"
    "fs_content s' ?p = Some (reflog_serialize (to_hex db) (reflog_append new sig msg es))"
    using filelock_drop_aux [OF assms(1) lp lock, of fl' "reflog_append new sig msg" "reflog_serialize (to_hex db)"] m
    by (auto simp: fl_def)
  have "ref_log db r new sig msg s = (Inr (), s')"
    by (simp add: ref_log_def read_reflog_def op_bind_def op_lift_def assms(3) lock m s'(1))
  then show ?thesis using wroteI [OF s'(2) assms(2,5) s'(3,4)] by blast
qed

lemma expand_full:
  assumes "fs_exists s (refdb_join db (sym_path r))" "symref_new_valid (sym_path r) = Inr r"
  shows "expand_symref db r s = Inr r"
  using assms by (simp add: expand_symref_def join_def path_push_def Let_def lift_err_def)

text \<open>
  The current branch is being moved: the head names the branch \<open>refs/heads/name\<close>, which may not exist
  yet, the target is a commit, and the two logs can be read.
\<close>

definition branch :: "byte list \<Rightarrow> symbolic_ref" where
  "branch name = SymbolicRef (BitPath (bytes_of ''refs/heads/'' @ name)) BranchKind"

definition on_branch :: "refdb \<Rightarrow> byte list \<Rightarrow> oid \<Rightarrow> bit_signature \<Rightarrow> reflog \<Rightarrow> reflog \<Rightarrow> fs \<Rightarrow> bool" where
  "on_branch db name target sig hs es s \<longleftrightarrow>
     store_ok db s \<and> hex_coder (to_hex db) (from_hex db) \<and> path_bytes (bitdir db) \<noteq> [] \<and> last (path_bytes (bitdir db)) \<noteq> b_slash
     \<and> oid_wf target \<and> ensure_obj_is_commit db target = Inr () \<and> repo_user_signature db = Inr sig
     \<and> ref_storable (Symbolic (branch name)) \<and> is_valid_name (path_bytes (sym_path (branch name)))
     \<and> fs_content s (refdb_join db HEAD_path) = Some (ref_serialize (to_hex db) (Symbolic (branch name)))
     \<and> (if fs_exists s (refdb_join db (sym_path (branch name)))
        then fs_content s (refdb_join db (sym_path (branch name))) \<noteq> None
        else expand_symref db (branch name) s = Inl (NonExistentSymRef (branch name)))
     \<and> reflog_at db (join_log db HEAD_path) hs s \<and> reflog_at db (join_log db (sym_path (branch name))) es s"

lemma branch_paths:
  assumes "path_bytes (bitdir db) \<noteq> []" "last (path_bytes (bitdir db)) \<noteq> b_slash"
  shows "refdb_join db HEAD_path = path_bytes (bitdir db) @ bytes_of ''/HEAD''"
    and "refdb_join db (sym_path (branch name)) = path_bytes (bitdir db) @ bytes_of ''/refs/heads/'' @ name"
    and "join_log db HEAD_path = path_bytes (bitdir db) @ bytes_of ''/logs/HEAD''"
    and "join_log db (sym_path (branch name)) = path_bytes (bitdir db) @ bytes_of ''/logs/refs/heads/'' @ name"
  using assms
  by (simp_all add: refdb_join_def join_log_def join_def path_push_def is_absolute_def HEAD_path_def branch_def)

lemma branch_valid:
  assumes "ref_storable (Symbolic (branch name))"
  shows "symref_new_valid (sym_path (branch name)) = Inr (branch name)"
proof -
  have "calculate_kind (sym_path (branch name)) = BranchKind"
    using assms by (simp add: symref_new_def) (metis branch_def symbolic_ref.sel(2))
  then show ?thesis by (simp add: symref_new_valid_def symref_new_def) (simp add: branch_def)
qed

lemma head_valid: "symref_new_valid (sym_path HEAD) = Inr HEAD"
  by code_simp

lemma head_path: "sym_path HEAD = HEAD_path"
  by (simp add: HEAD_def)

text \<open>The head is read as the branch it names, whether that exists or not.\<close>

lemma read_spec_head:
  assumes "hex_coder (to_hex db) (from_hex db)" "ref_storable (Symbolic (branch name))"
    and "fs_content s (refdb_join db HEAD_path) = Some (ref_serialize (to_hex db) (Symbolic (branch name)))"
  shows "read_spec db HEAD s = validate db (Symbolic (branch name)) s"
proof -
  have "expand_symref db HEAD s = Inr HEAD"
    using expand_full [OF _ head_valid] content_exists [OF assms(3)] by (simp add: HEAD_def)
  then show ?thesis
    using ref_roundtrip_aux [OF assms(1,2)] assms(3) by (simp add: read_spec_def HEAD_def lift_err_def)
qed

lemma read_head_branch:
  assumes "store_ok db s" "hex_coder (to_hex db) (from_hex db)" "ref_storable (Symbolic (branch name))"
    and "fs_content s (refdb_join db HEAD_path) = Some (ref_serialize (to_hex db) (Symbolic (branch name)))"
    and "fs_exists s (refdb_join db (sym_path (branch name)))
      \<or> expand_symref db (branch name) s = Inl (NonExistentSymRef (branch name))"
  shows "\<exists>s'. read_head db s = (Inr (Symbolic (branch name)), s') \<and> same_store s s'"
proof -
  obtain s' where "ref_read db HEAD s = (validate db (Symbolic (branch name)) s, s')" "same_store s s'"
    using ref_read_spec [OF assms(1), of HEAD] read_spec_head [OF assms(2-4)] by auto
  then show ?thesis
    using assms(5) expand_full [OF _ branch_valid [OF assms(3)]]
    by (auto simp: read_head_def validate_def try_into_nonexistent_symref_err_def)
qed

lemma wrote_exists: "wrote p bs s s' \<Longrightarrow> fs_exists s q \<or> q = p \<Longrightarrow> fs_exists s' q"
  by (auto simp: wrote_def)

lemma wrote_content: "wrote p bs s s' \<Longrightarrow> fs_content s' q = (if q = p then Some bs else fs_content s q)"
  by (simp add: wrote_def)

lemma wrote_reflog: "wrote p bs s s' \<Longrightarrow> q \<noteq> p \<Longrightarrow> reflog_at db q es s' \<longleftrightarrow> reflog_at db q es s"
  by (simp add: wrote_def reflog_at_def)

lemma same_store_reflog: "same_store s s' \<Longrightarrow> reflog_at db q es s' \<longleftrightarrow> reflog_at db q es s"
  by (simp add: same_store_def reflog_at_def fs_exists_def)

lemma same_store_exists: "same_store s s' \<Longrightarrow> fs_exists s' q \<longleftrightarrow> fs_exists s q"
  by (simp add: same_store_def fs_exists_def)

lemma wrote_direct_ok:
  assumes "store_ok db s" "hex_coder (to_hex db) (from_hex db)" "oid_wf h" "wrote p (ref_serialize (to_hex db) (Direct h)) s s'"
  shows "store_ok db s'"
  using assms ref_roundtrip_aux [OF assms(2), of "Direct h"]
  by (auto simp: store_ok_def wrote_def split: if_splits)

lemma ref_update_branch:
  assumes "on_branch db name h sig hs es s"
  shows "\<exists>s'. ref_update (Suc n) db (branch name) (Direct h) cause s = (Inr (), s') \<and> fs_ok s' \<and> no_locks s'
     \<and> fs_content s' = (fs_content s)
         (refdb_join db (sym_path (branch name)) \<mapsto> to_hex db h,
          join_log db HEAD_path \<mapsto> reflog_serialize (to_hex db) (reflog_append h sig (cause_display (to_hex db) cause) hs),
          join_log db (sym_path (branch name)) \<mapsto> reflog_serialize (to_hex db) (reflog_append h sig (cause_display (to_hex db) cause) es))"
proof -
  let ?b = "refdb_join db (sym_path (branch name))" and ?head = "refdb_join db HEAD_path"
  let ?lh = "join_log db HEAD_path" and ?lb = "join_log db (sym_path (branch name))"
  let ?msg = "cause_display (to_hex db) cause"
  have A: "store_ok db s" "hex_coder (to_hex db) (from_hex db)" "oid_wf h" "ensure_obj_is_commit db h = Inr ()"
    "repo_user_signature db = Inr sig" "ref_storable (Symbolic (branch name))" "is_valid_name (path_bytes (sym_path (branch name)))"
    "fs_content s ?head = Some (ref_serialize (to_hex db) (Symbolic (branch name)))" "fs_exists s ?b \<longrightarrow> fs_content s ?b \<noteq> None"
    "reflog_at db ?lh hs s" "reflog_at db ?lb es s"
    and bd: "path_bytes (bitdir db) \<noteq> []" "last (path_bytes (bitdir db)) \<noteq> b_slash"
    using assms by (auto simp: on_branch_def split: if_splits)
  have ne: "?b \<noteq> ?head" "?b \<noteq> ?lh" "?b \<noteq> ?lb" "?head \<noteq> ?lh" "?lh \<noteq> ?lb" "?head \<noteq> ?lb"
    unfolding branch_paths [OF bd] by simp_all
  have nl: "\<not> suffix lock_suffix ?b" "\<not> suffix lock_suffix ?lb"
    using push_not_lock [OF valid_not_lock [OF A(7)]] by (simp_all add: refdb_join_def join_log_def join_def)
  have "\<not> suffix lock_suffix (bytes_of ''HEAD'')" by (simp add: lock_suffix_def suffix_def)
  then have nh: "\<not> suffix lock_suffix ?lh"
    using push_not_lock by (simp add: join_log_def join_def HEAD_path_def)
  have rest: "fs_ok s" "no_locks s" using A(1) by (simp_all add: store_ok_def)
  obtain s2 where s2: "set_ref_unvalidated db (branch name) (Direct h) s = (Inr (), s2)" "wrote ?b (ref_serialize (to_hex db) (Direct h)) s s2"
    using set_ref_unvalidated_spec [OF rest nl(1) A(9)] by blast
  have ok2: "store_ok db s2" by (rule wrote_direct_ok [OF A(1-3) s2(2)])
  obtain s3 where s3: "read_head db s2 = (Inr (Symbolic (branch name)), s3)" "same_store s2 s3"
    using read_head_branch [OF ok2 A(2,6)] A(8) ne(1) wrote_content [OF s2(2)] wrote_exists [OF s2(2)] by auto
  have ok3: "fs_ok s3" "no_locks s3" using store_ok_same [OF ok2 s3(2)] by (simp_all add: store_ok_def)
  have ex3: "fs_exists s3 ?b" "fs_exists s3 ?head"
    using same_store_exists [OF s3(2)] wrote_exists [OF s2(2)] content_exists [OF A(8)] by simp_all
  have eh: "expand_symref db HEAD s3 = Inr HEAD"
    using ex3(2) by (intro expand_full head_valid) (simp add: HEAD_def)
  have lh3: "reflog_at db (join_log db (sym_path HEAD)) hs s3"
    using same_store_reflog [OF s3(2)] wrote_reflog [OF s2(2), of ?lh] ne(2) A(10) by (simp add: HEAD_def)
  obtain s4 where s4: "ref_log db HEAD h sig ?msg s3 = (Inr (), s4)" "wrote ?lh (reflog_serialize (to_hex db) (reflog_append h sig ?msg hs)) s3 s4"
    using ref_log_spec [OF ok3 eh lh3] nh unfolding head_path by blast
  have ok4: "fs_ok s4" "no_locks s4" using s4(2) by (simp_all add: wrote_def)
  have eb: "expand_symref db (branch name) s4 = Inr (branch name)"
    using wrote_exists [OF s4(2)] ex3(1) by (intro expand_full branch_valid A(6)) simp
  have lb4: "reflog_at db ?lb es s4"
    using wrote_reflog [OF s4(2), of ?lb] same_store_reflog [OF s3(2)] wrote_reflog [OF s2(2), of ?lb] ne(3,5) A(11) by auto
  obtain s5 where s5: "ref_log db (branch name) h sig ?msg s4 = (Inr (), s5)" "wrote ?lb (reflog_serialize (to_hex db) (reflog_append h sig ?msg es)) s4 s5"
    using ref_log_spec [OF ok4 eb lb4 nl(2)] by blast
  have "ref_update (Suc n) db (branch name) (Direct h) cause s = (Inr (), s5)"
    by (simp add: ref_update_def set_ref_def fully_resolve_def op_bind_def op_lift_def validate_def lift_err_def
        partially_resolve_def A(4,5) s2(1) s3(1) s4(1) s5(1) Let_def)
  moreover have "fs_content s5 = (fs_content s)(?b \<mapsto> to_hex db h, ?lh \<mapsto> reflog_serialize (to_hex db) (reflog_append h sig ?msg hs),
      ?lb \<mapsto> reflog_serialize (to_hex db) (reflog_append h sig ?msg es))"
    using s5(2) s4(2) s3(2) s2(2) by (simp add: wrote_def same_store_def ref_serialize_def)
  moreover have "fs_ok s5" "no_locks s5" using s5(2) by (simp_all add: wrote_def)
  ultimately show ?thesis by blast
qed

lemma branch_resolves:
  assumes "hex_coder (to_hex db) (from_hex db)" "ref_storable (Symbolic (branch name))" "oid_wf h" "ensure_obj_is_commit db h = Inr ()"
    and "fs_content s (refdb_join db HEAD_path) = Some (ref_serialize (to_hex db) (Symbolic (branch name)))"
    and "fs_content s (refdb_join db (sym_path (branch name))) = Some (to_hex db h)"
  shows "resolves_to db s (Symbolic HEAD) (Direct h)"
proof -
  have e: "expand_symref db (branch name) s = Inr (branch name)"
    by (rule expand_full [OF content_exists [OF assms(6)] branch_valid [OF assms(2)]])
  have "ref_deserialize (from_hex db) (to_hex db h) = Inr (Direct h)"
    using ref_roundtrip_aux [OF assms(1), of "Direct h"] assms(3) by (simp add: ref_serialize_def)
  then have "read_spec db (branch name) s = Inr (Direct h)"
    using e assms(4,6) by (simp add: read_spec_def lift_err_def validate_def)
  moreover have "read_spec db HEAD s = Inr (Symbolic (branch name))"
    using read_spec_head [OF assms(1,2,5)] e by (simp add: validate_def)
  ultimately show ?thesis by (blast intro: resolves_to.intros)
qed


lemma sample_on_branch: "on_branch sample_db (bytes_of ''master'') EMPTY_BLOB sample_signature_r [] [] sample_store"
proof -
  have "ref_storable (Symbolic (branch (bytes_of ''master'')))" by code_simp
  moreover have "is_valid_name (path_bytes (sym_path (branch (bytes_of ''master''))))" by code_simp
  moreover have "fs_content sample_store (refdb_join sample_db HEAD_path) = Some (ref_serialize (to_hex sample_db) (Symbolic (branch (bytes_of ''master''))))"
    by code_simp
  moreover have "fs_content sample_store (refdb_join sample_db (sym_path (branch (bytes_of ''master'')))) \<noteq> None" by code_simp
  moreover have "\<not> fs_exists sample_store (join_log sample_db HEAD_path)" by code_simp
  moreover have "\<not> fs_exists sample_store (join_log sample_db (sym_path (branch (bytes_of ''master''))))" by code_simp
  moreover have "fs_exists sample_store (refdb_join sample_db (sym_path (branch (bytes_of ''master''))))" by code_simp
  moreover have "oid_wf EMPTY_BLOB" by code_simp
  moreover have "hex_coder (to_hex sample_db) (from_hex sample_db)" using sample_hex_coder by (simp add: sample_db_def)
  ultimately show ?thesis
    using sample_store_ok by (simp add: on_branch_def reflog_at_def) (simp add: sample_db_def)
qed


end
