(* ===== verification/Bit_Pack_Index.thy ===== *)
theory Bit_Pack_Index
  imports Bit_Hash "HOL-Library.List_Lexorder"
begin

text \<open>
  Pack indexes, \<^verbatim>\<open>libbit/src/pack.rs\<close>: the table \<open>PackIndex\<close> with its fan-out, its file format, and
  \<open>PackIndexReader\<close>, which looks up objects in the file and keeps two caches. A file is its bytes;
  reading at an offset reads the bytes from there. Object ids are compared as byte arrays, which is
  the lexicographic order of lists.
\<close>

section \<open>Model: the table and its file\<close>

definition PACK_IDX_MAGIC :: u32 where "PACK_IDX_MAGIC = 0xff744f63"
definition FANOUT_ENTRYC :: nat where "FANOUT_ENTRYC = 256"
definition FANOUT_SIZE :: u64 where "FANOUT_SIZE = 1024"
definition PACK_IDX_HEADER_SIZE :: u64 where "PACK_IDX_HEADER_SIZE = 8"
definition MAX_OFFSET :: u64 where "MAX_OFFSET = 0x7fffffff"

record pack_index =
  fanout :: "u32 list"
  oids :: "oid list"
  crcs :: "u32 list"
  offsets :: "u32 list"
  pack_hash :: oid

definition oid_byte :: "oid \<Rightarrow> nat" where
  "oid_byte o' = unat (o' ! 0)"

text \<open>\<open>build_fanout\<close>: count by first byte, then sum up; the counters are 32 bits wide.\<close>

definition fanout_count :: "u32 list \<Rightarrow> oid \<Rightarrow> u32 list" where
  "fanout_count f o' = f[oid_byte o' := f ! oid_byte o' + 1]"

definition fanout_sum :: "u32 list \<Rightarrow> nat \<Rightarrow> u32 list" where
  "fanout_sum f i = f[i := f ! i + f ! (i - 1)]"

definition build_fanout :: "oid list \<Rightarrow> u32 list" where
  "build_fanout os = foldl fanout_sum (foldl fanout_count (replicate FANOUT_ENTRYC 0) os) [1..<FANOUT_ENTRYC]"

definition pack_index_body :: "pack_index \<Rightarrow> byte list" where
  "pack_index_body idx =
     write_u32 PACK_IDX_MAGIC @ write_u32 2 @ write_iter write_u32 (fanout idx) @ write_iter write_oid (oids idx)
     @ write_iter write_u32 (crcs idx) @ write_iter write_u32 (offsets idx) @ write_oid (pack_hash idx)"

definition pack_index_serialize :: "(byte list \<Rightarrow> oid) \<Rightarrow> pack_index \<Rightarrow> byte list" where
  "pack_index_serialize sha1 idx = pack_index_body idx @ write_oid (sha1 (pack_index_body idx))"

definition parse_pack_idx_header :: "unit reader" where
  "parse_pack_idx_header =
     rd_bind read_u32 (\<lambda>magic.
     rd_bind (rd_lift (ensure (magic = PACK_IDX_MAGIC) (Bail ''invalid pack index signature''))) (\<lambda>_.
     rd_bind read_u32 (\<lambda>version.
       rd_lift (ensure (version = 2) (Bail ''version'')))))"

text \<open>
  \<open>deserialize\<close>: the hash is that of the bytes read so far, which are all but the rest of the input.
\<close>

definition pack_index_deserialize :: "(byte list \<Rightarrow> oid) \<Rightarrow> byte list \<Rightarrow> pack_index bit_result" where
  "pack_index_deserialize sha1 bs =
     and_then (parse_pack_idx_header bs) (\<lambda>(_, r).
     and_then (read_vec read_u32 FANOUT_ENTRYC r) (\<lambda>(fan, r).
     let n = unat (fan ! (FANOUT_ENTRYC - 1)) in
     and_then (read_vec read_oid n r) (\<lambda>(os, r).
     and_then (read_vec read_u32 n r) (\<lambda>(cs, r).
     and_then (read_vec read_u32 n r) (\<lambda>(ofs, r).
     and_then (read_oid r) (\<lambda>(ph, r).
     let hash = sha1 (take (length bs - length r) bs) in
     and_then (read_oid r) (\<lambda>(idx_hash, r).
     and_then (ensure (idx_hash = hash) (Bail ''ensure_eq'')) (\<lambda>_.
     and_then (ensure (r = []) Panic) (\<lambda>_.
       Inr \<lparr>fanout = fan, oids = os, crcs = cs, offsets = ofs, pack_hash = ph\<rparr>)))))))))"

section \<open>Model: the reader\<close>

datatype pack_error = ObjectNotFoundInPackIndex oid u64 | PackError bit_error

record pack_index_reader =
  idx_bytes :: "byte list"
  idx_fanout :: "u32 list"
  oid_cache :: "u64 \<rightharpoonup> oid list"
  crc_offset_cache :: "oid \<rightharpoonup> u32 \<times> u64"
  idx_n :: u64

datatype layer = OidLayer | CrcLayer | OfsLayer | ExtLayer

fun layer_index :: "layer \<Rightarrow> nat" where
  "layer_index OidLayer = 0"
| "layer_index CrcLayer = 1"
| "layer_index OfsLayer = 2"
| "layer_index ExtLayer = 3"

type_synonym 'a idx_op = "pack_index_reader \<Rightarrow> (pack_error + 'a) \<times> pack_index_reader"

definition pack_err :: "'a bit_result \<Rightarrow> pack_error + 'a" where
  "pack_err r = (case r of Inl e \<Rightarrow> Inl (PackError e) | Inr x \<Rightarrow> Inr x)"

definition pack_index_reader_new :: "byte list \<Rightarrow> pack_index_reader bit_result" where
  "pack_index_reader_new bs =
     and_then (parse_pack_idx_header bs) (\<lambda>(_, r).
     and_then (read_vec read_u32 FANOUT_ENTRYC r) (\<lambda>(fan, _).
       Inr \<lparr>idx_bytes = bs, idx_fanout = fan, oid_cache = Map.empty, crc_offset_cache = Map.empty,
            idx_n = ucast (fan ! (FANOUT_ENTRYC - 1))\<rparr>))"

definition offset_of :: "layer \<Rightarrow> u64 \<Rightarrow> pack_index_reader \<Rightarrow> u64" where
  "offset_of layer index r =
     (let sz = [20, 4, 4, 8]; l = layer_index layer;
          base = PACK_IDX_HEADER_SIZE + FANOUT_SIZE + sum_list (map (\<lambda>i. sz ! i * idx_n r) [0..<l])
      in base + index * sz ! l)"

text \<open>Seek, then read: what is behind the end of the file is an early end.\<close>

definition read_from :: "'a reader \<Rightarrow> layer \<Rightarrow> u64 \<Rightarrow> pack_index_reader \<Rightarrow> pack_error + 'a" where
  "read_from de layer index r =
     pack_err (and_then (de (drop (unat (offset_of layer index r)) (idx_bytes r))) (\<lambda>(x, _). Inr x))"

text \<open>
  \<open>slice::binary_search\<close> on a sorted slice without duplicates: the position of the element, or the
  position where it would be inserted.
\<close>

definition binary_search :: "'a::linorder list \<Rightarrow> 'a \<Rightarrow> nat + nat" where
  "binary_search xs x =
     (let i = length (takeWhile (\<lambda>y. y < x) xs) in if i < length xs \<and> xs ! i = x then Inr i else Inl i)"

definition search_oids :: "oid \<Rightarrow> u64 \<Rightarrow> oid list \<Rightarrow> pack_error + u64" where
  "search_oids o' low os =
     (case binary_search os o' of
        Inr i \<Rightarrow> Inr (low + of_nat i)
      | Inl i \<Rightarrow> Inl (ObjectNotFoundInPackIndex o' (low + of_nat i)))"

definition fanout_low :: "nat \<Rightarrow> pack_index_reader \<Rightarrow> u64" where
  "fanout_low p r = (if p = 0 then 0 else ucast (idx_fanout r ! (p - 1)))"

definition fanout_high :: "nat \<Rightarrow> pack_index_reader \<Rightarrow> u64" where
  "fanout_high p r = ucast (idx_fanout r ! p)"

definition find_oid_index :: "oid \<Rightarrow> u64 idx_op" where
  "find_oid_index o' r =
     (let p = oid_byte o'; low = fanout_low p r; high = fanout_high p r in
      case oid_cache r low of
        Some os \<Rightarrow> (search_oids o' low os, r)
      | None \<Rightarrow>
          (case read_vec read_oid (unat (high - low))
                  (drop (unat (PACK_IDX_HEADER_SIZE + FANOUT_SIZE + low * 20)) (idx_bytes r)) of
             Inl _ \<Rightarrow> (Inl (PackError Panic), r)
           | Inr (os, _) \<Rightarrow> (search_oids o' low os, r\<lparr>oid_cache := (oid_cache r)(low \<mapsto> os)\<rparr>)))"

definition find_oid_crc_offset_inner :: "oid \<Rightarrow> (u32 \<times> u64) idx_op" where
  "find_oid_crc_offset_inner o' r =
     (case find_oid_index o' r of
        (Inl e, r) \<Rightarrow> (Inl e, r)
      | (Inr index, r) \<Rightarrow>
          (and_then (read_from read_u32 CrcLayer index r) (\<lambda>crc.
           and_then (read_from read_u32 OfsLayer index r) (\<lambda>ofs.
           let offset = ucast ofs :: u64 in
           if offset > MAX_OFFSET
           then and_then (read_from read_u64 ExtLayer (offset AND MAX_OFFSET) r) (\<lambda>offset. Inr (crc, offset))
           else Inr (crc, offset))), r))"

definition find_oid_crc_offset :: "oid \<Rightarrow> (u32 \<times> u64) idx_op" where
  "find_oid_crc_offset o' r =
     (case crc_offset_cache r o' of
        Some x \<Rightarrow> (Inr x, r)
      | None \<Rightarrow>
          (case find_oid_crc_offset_inner o' r of
             (Inl e, r) \<Rightarrow> (Inl e, r)
           | (Inr x, r) \<Rightarrow> (Inr x, r\<lparr>crc_offset_cache := (crc_offset_cache r)(o' \<mapsto> x)\<rparr>)))"

definition read_oid_at :: "u64 \<Rightarrow> pack_index_reader \<Rightarrow> pack_error + oid" where
  "read_oid_at index r = read_from read_oid OidLayer index r"

text \<open>\<open>oid_iter(start).take_while(has_prefix).collect()\<close>: the iterator ends at \<open>n\<close>.\<close>

function oid_iter_prefix :: "(byte list \<Rightarrow> byte list bit_result) \<Rightarrow> partial_oid \<Rightarrow> nat \<Rightarrow> pack_index_reader \<Rightarrow> pack_error + oid list" where
  "oid_iter_prefix dec pre i r =
     (if i \<ge> unat (idx_n r) then Inr []
      else and_then (read_oid_at (of_nat i) r) (\<lambda>o'.
           and_then (pack_err (has_prefix dec o' pre)) (\<lambda>b.
             if b then and_then (oid_iter_prefix dec pre (Suc i) r) (\<lambda>os. Inr (o' # os)) else Inr [])))"
  by pat_completeness auto
termination
  by (relation "measure (\<lambda>(dec, pre, i, r). unat (idx_n r) - i)") auto

declare oid_iter_prefix.simps [simp del]

definition prefix_matches :: "(byte list \<Rightarrow> byte list bit_result) \<Rightarrow> partial_oid \<Rightarrow> oid list idx_op" where
  "prefix_matches dec pre r =
     (case partial_into_oid dec pre of
        Inl e \<Rightarrow> (Inl (PackError e), r)
      | Inr extended \<Rightarrow>
          (case find_oid_crc_offset extended r of
             (Inr _, r) \<Rightarrow> (Inr [extended], r)
           | (Inl (ObjectNotFoundInPackIndex _ i), r) \<Rightarrow> (oid_iter_prefix dec pre (unat i) r, r)
           | (Inl (PackError e), r) \<Rightarrow> (Inl (PackError e), r)))"

definition pack_obj_exists :: "oid \<Rightarrow> bool idx_op" where
  "pack_obj_exists o' r =
     (case find_oid_crc_offset o' r of
        (Inr _, r) \<Rightarrow> (Inr True, r)
      | (Inl (ObjectNotFoundInPackIndex _ _), r) \<Rightarrow> (Inr False, r)
      | (Inl (PackError e), r) \<Rightarrow> (Inl (PackError e), r))"

section \<open>The fan-out table\<close>

definition upto_byte :: "nat \<Rightarrow> oid list \<Rightarrow> nat" where
  "upto_byte p os = length (filter (\<lambda>o'. oid_byte o' \<le> p) os)"

lemma oid_byte_less: "oid_byte o' < 256"
  by (simp add: oid_byte_def unat_byte_less)

lemma fanout_count_fold:
  assumes "length f = 256" "p < 256"
  shows "length (foldl fanout_count f os) = 256
    \<and> foldl fanout_count f os ! p = f ! p + of_nat (length (filter (\<lambda>o'. oid_byte o' = p) os))"
  using assms
proof (induction os arbitrary: f)
  case (Cons x os)
  then show ?case using oid_byte_less [of x]
    by (auto simp: fanout_count_def nth_list_update)
qed simp

lemma fanout_sum_fold:
  assumes "length f = 256" "k \<le> 256" "p < 256"
  shows "length (foldl fanout_sum f [1..<k]) = 256
    \<and> foldl fanout_sum f [1..<k] ! p = (if p < k then \<Sum>i\<le>p. f ! i else f ! p)"
  using assms
proof (induction k arbitrary: p)
  case (Suc k)
  show ?case
  proof (cases k)
    case (Suc j)
    let ?g = "foldl fanout_sum f [1..<k]"
    have IH: "length ?g = 256" "\<And>q. q < 256 \<Longrightarrow> ?g ! q = (if q < k then \<Sum>i\<le>q. f ! i else f ! q)"
      using Suc.IH [of p] Suc.IH Suc.prems by auto
    have "foldl fanout_sum f [1..<Suc k] = ?g[k := ?g ! k + ?g ! (k - 1)]"
      using Suc by (simp add: fanout_sum_def)
    then show ?thesis using IH Suc.prems \<open>k = Suc j\<close> by (auto simp: nth_list_update add.commute)
  qed (use Suc.prems in auto)
qed simp

lemma upto_byte_sum: "upto_byte p os = (\<Sum>i\<le>p. length (filter (\<lambda>o'. oid_byte o' = i) os))"
proof (induction p)
  case (Suc p)
  have "length (filter (\<lambda>o'. oid_byte o' \<le> Suc p) os)
      = length (filter (\<lambda>o'. oid_byte o' \<le> p) os) + length (filter (\<lambda>o'. oid_byte o' = Suc p) os)"
    by (induction os) auto
  then show ?case using Suc by (simp add: upto_byte_def)
qed (simp add: upto_byte_def)

lemma build_fanout_nth:
  assumes "p < 256"
  shows "length (build_fanout os) = 256 \<and> build_fanout os ! p = of_nat (upto_byte p os)"
proof -
  let ?f = "foldl fanout_count (replicate 256 0) os"
  have f: "length ?f = 256" "\<And>q. q < 256 \<Longrightarrow> ?f ! q = of_nat (length (filter (\<lambda>o'. oid_byte o' = q) os))"
    using fanout_count_fold [of "replicate 256 0" 0 os] fanout_count_fold [of "replicate 256 0" _ os] by simp_all
  have "(\<Sum>i\<le>p. ?f ! i) = of_nat (upto_byte p os)"
    using f(2) assms by (simp add: upto_byte_sum)
  then show ?thesis
    using fanout_sum_fold [OF f(1), of 256 p] assms by (simp add: build_fanout_def FANOUT_ENTRYC_def)
qed

text \<open>The order of object ids is that of the comparison of byte slices.\<close>

lemma oid_less_slice_cmp: "a < b \<longleftrightarrow> slice_cmp a b = Less" for a b :: oid
  by (induction a b rule: slice_cmp.induct) (auto simp: then_with_eq)

lemma oid_byte_mono: "a \<noteq> [] \<Longrightarrow> a < b \<Longrightarrow> oid_byte a \<le> oid_byte b" for a b :: oid
  by (cases a; cases b) (auto simp: oid_byte_def word_less_nat_alt)

section \<open>The invariant and the round trip\<close>

definition pack_index_ok :: "pack_index \<Rightarrow> bool" where
  "pack_index_ok idx \<longleftrightarrow>
     sorted_wrt (<) (oids idx) \<and> list_all oid_wf (oids idx) \<and> fanout idx = build_fanout (oids idx)
     \<and> length (crcs idx) = length (oids idx) \<and> length (offsets idx) = length (oids idx)
     \<and> length (oids idx) < 2 ^ 32 \<and> list_all (\<lambda>x. ucast x \<le> MAX_OFFSET) (offsets idx) \<and> oid_wf (pack_hash idx)"

lemma upto_byte_all: "upto_byte 255 os = length os"
proof -
  have "oid_byte o' \<le> 255" for o' using oid_byte_less [of o'] by simp
  then show ?thesis by (simp add: upto_byte_def)
qed

lemma fanout_ok:
  assumes "pack_index_ok idx"
  shows "length (fanout idx) = 256" and "p < 256 \<Longrightarrow> unat (fanout idx ! p) = upto_byte p (oids idx)"
    and "unat (fanout idx ! 255) = length (oids idx)"
proof -
  have f: "fanout idx = build_fanout (oids idx)" "length (oids idx) < 2 ^ 32" using assms by (simp_all add: pack_index_ok_def)
  show "length (fanout idx) = 256" using build_fanout_nth [of 0] f(1) by simp
  have le: "upto_byte q (oids idx) \<le> length (oids idx)" for q by (simp add: upto_byte_def)
  have *: "unat (fanout idx ! q) = upto_byte q (oids idx)" if "q < 256" for q
    using build_fanout_nth [OF that, of "oids idx"] f le [of q] by (simp add: unat_of_nat)
  show "p < 256 \<Longrightarrow> unat (fanout idx ! p) = upto_byte p (oids idx)" by (rule *)
  show "unat (fanout idx ! 255) = length (oids idx)" using * [of 255] by (simp add: upto_byte_all)
qed

lemma parse_pack_idx_header_ok: "parse_pack_idx_header (write_u32 PACK_IDX_MAGIC @ write_u32 2 @ rest) = Inr ((), rest)"
  by (simp add: parse_pack_idx_header_def rd_bind_apply)

text \<open>
  A pack index that is written to a file is read back exactly; the file carries its own hash.
\<close>

theorem pack_index_roundtrip:
  assumes "pack_index_ok idx" "\<And>x. oid_wf (sha1 x)"
  shows "pack_index_deserialize sha1 (pack_index_serialize sha1 idx) = Inr idx"
proof -
  note f = fanout_ok [OF assms(1)]
  have ok: "list_all oid_wf (oids idx)" "length (crcs idx) = length (oids idx)" "length (offsets idx) = length (oids idx)"
    "oid_wf (pack_hash idx)"
    using assms(1) by (simp_all add: pack_index_ok_def)
  define h S where "h = write_oid (sha1 (pack_index_body idx))" and "S = pack_index_serialize sha1 idx"
  have S: "S = pack_index_body idx @ h" by (simp add: S_def h_def pack_index_serialize_def)
  have ints: "read_vec read_u32 (length xs) (write_iter write_u32 xs @ r) = Inr (xs, r)" for xs r
    by (rule u32_codec.read_vec_roundtrip) (simp add: list_all_iff)
  let ?R4 = "write_oid (pack_hash idx) @ h" let ?R3 = "write_iter write_u32 (offsets idx) @ ?R4"
  let ?R2 = "write_iter write_u32 (crcs idx) @ ?R3" let ?R1 = "write_iter write_oid (oids idx) @ ?R2"
  have "parse_pack_idx_header S = Inr ((), write_iter write_u32 (fanout idx) @ ?R1)"
    by (simp add: S pack_index_body_def parse_pack_idx_header_ok)
  moreover have "read_vec read_u32 FANOUT_ENTRYC (write_iter write_u32 (fanout idx) @ ?R1) = Inr (fanout idx, ?R1)"
    using ints [of "fanout idx"] f(1) by (simp add: FANOUT_ENTRYC_def)
  moreover have "read_vec read_oid (length (oids idx)) ?R1 = Inr (oids idx, ?R2)"
    by (rule oid_codec.read_vec_roundtrip [OF ok(1)])
  moreover have "read_vec read_u32 (length (oids idx)) ?R2 = Inr (crcs idx, ?R3)" using ints [of "crcs idx"] ok(2) by simp
  moreover have "read_vec read_u32 (length (oids idx)) ?R3 = Inr (offsets idx, ?R4)" using ints [of "offsets idx"] ok(3) by simp
  moreover have "read_oid ?R4 = Inr (pack_hash idx, h)" by (rule oid_codec.roundtrip [OF ok(4)])
  moreover have "read_oid h = Inr (sha1 (pack_index_body idx), [])"
    using oid_codec.roundtrip [OF assms(2), of _ "[]"] by (simp add: h_def)
  moreover have "take (length S - length h) S = pack_index_body idx" by (simp add: S)
  ultimately have "pack_index_deserialize sha1 S = Inr idx"
    using f(3) by (simp add: pack_index_deserialize_def FANOUT_ENTRYC_def Let_def)
  then show ?thesis by (simp add: S_def)
qed

text \<open>Two objects with different first bytes.\<close>

definition sample_idx :: pack_index where
  "sample_idx = \<lparr>fanout = build_fanout [EMPTY_TREE, EMPTY_BLOB], oids = [EMPTY_TREE, EMPTY_BLOB], crcs = [7, 8], offsets = [12, 99],
     pack_hash = UNKNOWN\<rparr>"

lemma sample_idx_ok: "pack_index_ok sample_idx"
proof -
  have "EMPTY_TREE < EMPTY_BLOB" by (simp add: EMPTY_TREE_def EMPTY_BLOB_def)
  moreover have "oid_wf EMPTY_TREE" "oid_wf EMPTY_BLOB" "oid_wf UNKNOWN"
    by (simp_all add: oid_wf_def OID_SIZE_def EMPTY_TREE_def EMPTY_BLOB_def UNKNOWN_def)
  ultimately show ?thesis by (simp add: pack_index_ok_def sample_idx_def MAX_OFFSET_def)
qed

definition sample_sha1 :: "byte list \<Rightarrow> oid" where
  "sample_sha1 bs = UNKNOWN"

theorem pack_index_roundtrip_witness:
  "pack_index_deserialize sample_sha1 (pack_index_serialize sample_sha1 sample_idx) = Inr sample_idx"
  by (rule pack_index_roundtrip [OF sample_idx_ok]) (simp add: sample_sha1_def oid_wf_def OID_SIZE_def UNKNOWN_def)

section \<open>Lookup\<close>

definition below_byte :: "nat \<Rightarrow> oid list \<Rightarrow> nat" where
  "below_byte p os = length (filter (\<lambda>o'. oid_byte o' < p) os)"

definition bucket :: "nat \<Rightarrow> oid list \<Rightarrow> oid list" where
  "bucket p os = take (upto_byte p os - below_byte p os) (drop (below_byte p os) os)"

definition position :: "oid \<Rightarrow> oid list \<Rightarrow> nat" where
  "position o' os = length (takeWhile (\<lambda>y. y < o') os)"

lemma sorted_filter_take:
  fixes f :: "'a \<Rightarrow> nat"
  assumes "sorted_wrt (\<lambda>a b. f a \<le> f b) xs"
  shows "filter (\<lambda>x. f x < p) xs = take (length (filter (\<lambda>x. f x < p) xs)) xs"
  using assms
proof (induction xs)
  case (Cons x xs)
  have "filter (\<lambda>y. f y < p) xs = []" if "p \<le> f x" using Cons.prems that by (fastforce simp: filter_empty_conv)
  then show ?case using Cons by auto
qed simp

lemma oids_by_byte:
  assumes "sorted_wrt (<) os" "list_all oid_wf os"
  shows "sorted_wrt (\<lambda>a b. oid_byte a \<le> oid_byte b) os"
proof (rule sorted_wrt_mono_rel [OF _ assms(1)])
  fix a b assume "a \<in> set os" "b \<in> set os" "a < b"
  then show "oid_byte a \<le> oid_byte b" using assms(2) by (intro oid_byte_mono) (auto simp: list_all_iff oid_wf_def OID_SIZE_def)
qed

lemma upto_below: "upto_byte p os = below_byte (Suc p) os"
  by (simp add: upto_byte_def below_byte_def less_Suc_eq_le)

lemma below_mono: "p \<le> q \<Longrightarrow> below_byte p os \<le> below_byte q os"
  unfolding below_byte_def by (induction os) auto

lemma bucket_split:
  assumes "sorted_wrt (<) os" "list_all oid_wf os"
  shows "os = take (below_byte p os) os @ bucket p os @ drop (upto_byte p os) os"
    and "x \<in> set (take (below_byte p os) os) \<Longrightarrow> oid_byte x < p"
    and "x \<in> set (drop (upto_byte p os) os) \<Longrightarrow> p < oid_byte x"
    and "length (bucket p os) = upto_byte p os - below_byte p os"
proof -
  let ?l = "below_byte p os" and ?h = "upto_byte p os"
  have le: "?l \<le> ?h" using below_mono [of p "Suc p"] by (simp add: upto_below)
  have "?h \<le> length os" by (simp add: upto_byte_def)
  then show "length (bucket p os) = ?h - ?l" using le by (simp add: bucket_def)
  have "drop ?l os = take (?h - ?l) (drop ?l os) @ drop (?h - ?l) (drop ?l os)" by (rule append_take_drop_id [symmetric])
  then have "drop ?l os = bucket p os @ drop ?h os" using le by (simp only: bucket_def drop_drop le_add_diff_inverse2)
  then show "os = take ?l os @ bucket p os @ drop ?h os" by (metis append_take_drop_id)
  have lt: "filter (\<lambda>x. oid_byte x < q) os = take (below_byte q os) os" for q
    using sorted_filter_take [OF oids_by_byte [OF assms]] by (simp add: below_byte_def)
  show "x \<in> set (take ?l os) \<Longrightarrow> oid_byte x < p" unfolding lt [symmetric] by simp
  assume x: "x \<in> set (drop ?h os)"
  have "\<not> oid_byte x \<le> p"
  proof
    assume "oid_byte x \<le> p"
    have "length (filter (\<lambda>y. oid_byte y < Suc p) os) = length (filter (\<lambda>y. oid_byte y < Suc p) (take ?h os))
        + length (filter (\<lambda>y. oid_byte y < Suc p) (drop ?h os))"
      by (metis append_take_drop_id filter_append length_append)
    moreover have "filter (\<lambda>y. oid_byte y < Suc p) (take ?h os) = take ?h os"
      unfolding upto_below lt [symmetric] by simp
    moreover have "length (filter (\<lambda>y. oid_byte y < Suc p) os) = ?h" by (simp add: upto_below below_byte_def)
    moreover have "length (take ?h os) = ?h" using \<open>?h \<le> length os\<close> by simp
    ultimately have "filter (\<lambda>y. oid_byte y < Suc p) (drop ?h os) = []" by simp
    then show False using x \<open>oid_byte x \<le> p\<close> by (auto simp: filter_empty_conv)
  qed
  then show "p < oid_byte x" by simp
qed

lemma binary_search_middle:
  assumes "\<forall>a \<in> set A. a < x" "\<forall>c \<in> set C. x < c"
  shows "binary_search (A @ B @ C) x = map_sum ((+) (length A)) ((+) (length A)) (binary_search B x)"
proof -
  let ?t = "takeWhile (\<lambda>y. y < x)"
  have tC: "?t C = []" using assms(2) by (cases C) auto
  have "?t (B @ C) = ?t B" using tC by (induction B) auto
  then have t: "length (?t (A @ B @ C)) = length A + length (?t B)" using assms(1) by (simp add: takeWhile_append)
  have le: "length (?t B) \<le> length B" by (rule length_takeWhile_le)
  have nth: "(A @ B @ C) ! (length A + j) = (B @ C) ! j" for j by (simp add: nth_append)
  have "length (?t B) = length B \<Longrightarrow> \<not> (length A + length B < length (A @ B @ C) \<and> (B @ C) ! length B = x)"
    using assms(2) by (cases C) (auto simp: nth_append)
  then show ?thesis
    unfolding binary_search_def t Let_def nth using le by (auto simp: nth_append)
qed

lemma binary_search_sorted:
  assumes "sorted_wrt (<) os"
  shows "binary_search os x = (if x \<in> set os then Inr (position x os) else Inl (position x os))"
proof -
  have "x \<in> set os \<longleftrightarrow> position x os < length os \<and> os ! position x os = x"
    using assms
  proof (induction os)
    case (Cons y os)
    have "y < x \<or> y = x \<or> x < y" by auto
    then show ?case using Cons by (auto simp: position_def)
  qed simp
  then show ?thesis by (simp add: binary_search_def position_def Let_def)
qed

lemma search_bucket:
  assumes "sorted_wrt (<) os" "list_all oid_wf os" "o' \<noteq> []"
  shows "search_oids o' (of_nat (below_byte (oid_byte o') os)) (bucket (oid_byte o') os)
    = (if o' \<in> set os then Inr (of_nat (position o' os)) else Inl (ObjectNotFoundInPackIndex o' (of_nat (position o' os))))"
proof -
  let ?p = "oid_byte o'" let ?A = "take (below_byte ?p os) os" and ?B = "bucket ?p os" and ?C = "drop (upto_byte ?p os) os"
  note sp = bucket_split [OF assms(1,2), where p = ?p]
  have wf: "x \<noteq> []" if "x \<in> set os" for x using assms(2) that by (auto simp: list_all_iff oid_wf_def OID_SIZE_def)
  have "\<forall>a \<in> set ?A. a < o'"
    using sp(2) oid_byte_mono [OF assms(3)] by (metis linorder_not_le order_le_imp_less_or_eq order_less_irrefl)
  moreover have "\<forall>c \<in> set ?C. o' < c"
  proof
    fix c assume c: "c \<in> set ?C"
    have "\<not> c < o'" "c \<noteq> o'" using sp(3) [OF c] oid_byte_mono [OF wf [OF in_set_dropD [OF c]], of o'] by auto
    then show "o' < c" by simp
  qed
  ultimately have "binary_search (?A @ ?B @ ?C) o' = map_sum ((+) (length ?A)) ((+) (length ?A)) (binary_search ?B o')"
    by (rule binary_search_middle)
  then have m: "binary_search os o' = map_sum ((+) (length ?A)) ((+) (length ?A)) (binary_search ?B o')"
    using sp(1) by simp
  have len: "length ?A = below_byte ?p os" by (simp add: below_byte_def)
  show ?thesis
    using m binary_search_sorted [OF assms(1), of o'] unfolding len
    by (cases "binary_search ?B o'") (auto simp: search_oids_def split: if_splits)
qed

lemma drop_write_iter:
  assumes "\<forall>x \<in> set xs. length (ser x) = k" "i \<le> length xs"
  shows "drop (i * k) (write_iter ser xs @ rest) = write_iter ser (drop i xs) @ rest"
  using assms
proof (induction i arbitrary: xs)
  case (Suc i)
  then obtain x ys where xs: "xs = x # ys" by (cases xs) auto
  have "drop (Suc i * k) (write_iter ser xs @ rest) = drop (i * k) (write_iter ser ys @ rest)"
    using Suc.prems by (simp add: xs write_iter_def)
  then show ?case using Suc xs by simp
qed (simp add: write_iter_def)

lemma length_write_iter: "\<forall>x \<in> set xs. length (ser x) = k \<Longrightarrow> length (write_iter ser xs) = length xs * k"
  by (induction xs) (auto simp: write_iter_def)

lemma length_u32 [simp]: "length (write_u32 x) = 4"
  by (simp add: write_u32_def)

text \<open>Where the three layers are in the file.\<close>

lemma idx_layers:
  assumes "pack_index_ok idx" "i \<le> length (oids idx)"
  shows "drop (1032 + i * 20) (pack_index_serialize sha1 idx) =
      write_iter write_oid (drop i (oids idx)) @ write_iter write_u32 (crcs idx) @ write_iter write_u32 (offsets idx)
      @ write_oid (pack_hash idx) @ write_oid (sha1 (pack_index_body idx))" (is ?A)
    and "drop (1032 + length (oids idx) * 20 + i * 4) (pack_index_serialize sha1 idx) =
      write_iter write_u32 (drop i (crcs idx)) @ write_iter write_u32 (offsets idx)
      @ write_oid (pack_hash idx) @ write_oid (sha1 (pack_index_body idx))" (is ?B)
    and "drop (1032 + length (oids idx) * 24 + i * 4) (pack_index_serialize sha1 idx) =
      write_iter write_u32 (drop i (offsets idx)) @ write_oid (pack_hash idx) @ write_oid (sha1 (pack_index_body idx))" (is ?C)
proof -
  have ok: "\<forall>x \<in> set (oids idx). length (write_oid x) = 20" "length (crcs idx) = length (oids idx)" "length (offsets idx) = length (oids idx)"
    using assms(1) by (auto simp: pack_index_ok_def list_all_iff oid_wf_def OID_SIZE_def write_oid_def)
  let ?H = "write_u32 PACK_IDX_MAGIC @ write_u32 2 @ write_iter write_u32 (fanout idx)"
  let ?E = "write_oid (pack_hash idx) @ write_oid (sha1 (pack_index_body idx))"
  let ?O = "write_iter write_oid (oids idx)" and ?Cr = "write_iter write_u32 (crcs idx)" and ?Of = "write_iter write_u32 (offsets idx)"
  have S: "pack_index_serialize sha1 idx = ?H @ ?O @ ?Cr @ ?Of @ ?E"
    by (simp add: pack_index_serialize_def pack_index_body_def [of idx])
  have H: "length ?H = 1032" using fanout_ok(1) [OF assms(1)] by (simp add: length_write_iter [where k = 4])
  have l: "length ?O = length (oids idx) * 20" "length ?Cr = length (oids idx) * 4"
    using ok by (simp_all add: length_write_iter [where k = 20] length_write_iter [where k = 4])
  have skip: "length X = a \<Longrightarrow> drop (a + n) (X @ Y) = drop n Y" for X Y :: "byte list" and a n by simp
  have cr: "drop (i * 4) (?Cr @ Y) = write_iter write_u32 (drop i (crcs idx)) @ Y"
    and of: "drop (i * 4) (?Of @ Y) = write_iter write_u32 (drop i (offsets idx)) @ Y" for Y
    by (rule drop_write_iter; use assms(2) ok in simp)+
  show ?A unfolding S by (simp only: skip [OF H] drop_write_iter [OF ok(1) assms(2)])
  show ?B unfolding S by (simp only: add.assoc skip [OF H] skip [OF l(1)] cr)
  have "1032 + length (oids idx) * 24 + i * 4 = 1032 + (length (oids idx) * 20 + (length (oids idx) * 4 + i * 4))" by simp
  then show ?C unfolding S by (simp only: skip [OF H] skip [OF l(1)] skip [OF l(2)] of)
qed

section \<open>Coherent readers\<close>

text \<open>
  A reader of the file of \<open>idx\<close> whose caches agree with it. The cache of id slices is keyed by the
  lower bound of the slice, so only slices that are not empty are determined by their key.
\<close>

definition reader_ok :: "(byte list \<Rightarrow> oid) \<Rightarrow> pack_index \<Rightarrow> pack_index_reader \<Rightarrow> bool" where
  "reader_ok sha1 idx r \<longleftrightarrow>
     idx_bytes r = pack_index_serialize sha1 idx \<and> idx_fanout r = fanout idx \<and> idx_n r = of_nat (length (oids idx))
     \<and> (\<forall>p < 256. \<forall>os. bucket p (oids idx) \<noteq> [] \<longrightarrow> oid_cache r (of_nat (below_byte p (oids idx))) = Some os \<longrightarrow> os = bucket p (oids idx))
     \<and> (\<forall>o' x. crc_offset_cache r o' = Some x \<longrightarrow>
          o' \<in> set (oids idx) \<and> x = (crcs idx ! position o' (oids idx), ucast (offsets idx ! position o' (oids idx))))"

lemma below_le: "below_byte p os \<le> length os" and upto_le: "upto_byte p os \<le> length os"
  by (simp_all add: below_byte_def upto_byte_def)

lemma fanout_bounds:
  assumes "pack_index_ok idx" "idx_fanout r = fanout idx" "p < 256"
  shows "fanout_low p r = of_nat (below_byte p (oids idx))" and "fanout_high p r = of_nat (upto_byte p (oids idx))"
proof -
  have u: "ucast (fanout idx ! q) = (of_nat (upto_byte q (oids idx)) :: u64)" if "q < 256" for q
    using fanout_ok(2) [OF assms(1) that] by (metis of_nat_unat)
  show "fanout_high p r = of_nat (upto_byte p (oids idx))" using u [OF assms(3)] by (simp add: fanout_high_def assms(2))
  show "fanout_low p r = of_nat (below_byte p (oids idx))"
    using u [of "p - 1"] assms(3) by (cases p) (simp_all add: fanout_low_def assms(2) upto_below below_byte_def)
qed

lemma u64_small: "n < 2 ^ 40 \<Longrightarrow> unat (of_nat n :: u64) = n"
  by (simp add: unat_of_nat)

lemma read_bucket:
  assumes "pack_index_ok idx" "reader_ok sha1 idx r" "p < 256"
  shows "\<exists>rest. read_vec read_oid (unat (fanout_high p r - fanout_low p r))
      (drop (unat (PACK_IDX_HEADER_SIZE + FANOUT_SIZE + fanout_low p r * 20)) (idx_bytes r)) = Inr (bucket p (oids idx), rest)"
proof -
  let ?l = "below_byte p (oids idx)" and ?h = "upto_byte p (oids idx)"
  have r: "idx_bytes r = pack_index_serialize sha1 idx" "idx_fanout r = fanout idx" using assms(2) by (simp_all add: reader_ok_def)
  have ok: "sorted_wrt (<) (oids idx)" "list_all oid_wf (oids idx)" "length (oids idx) < 2 ^ 32"
    using assms(1) by (simp_all add: pack_index_ok_def)
  have le: "?l \<le> ?h" "?h \<le> length (oids idx)" "?l \<le> length (oids idx)"
    using below_mono [of p "Suc p"] upto_le below_le by (simp_all add: upto_below)
  have n: "unat (fanout_high p r - fanout_low p r) = length (bucket p (oids idx))"
    using le ok(3) u64_small [of "?h - ?l"] bucket_split(4) [OF ok(1,2), of p]
    by (simp add: fanout_bounds [OF assms(1) r(2) assms(3)] flip: of_nat_diff)
  have "PACK_IDX_HEADER_SIZE + FANOUT_SIZE + fanout_low p r * 20 = of_nat (1032 + ?l * 20)"
    by (simp add: fanout_bounds [OF assms(1) r(2) assms(3)] PACK_IDX_HEADER_SIZE_def FANOUT_SIZE_def)
  then have off: "unat (PACK_IDX_HEADER_SIZE + FANOUT_SIZE + fanout_low p r * 20) = 1032 + ?l * 20"
    using le ok(3) u64_small [of "1032 + ?l * 20"] by simp
  have d: "drop ?l (oids idx) = bucket p (oids idx) @ drop ?h (oids idx)"
    using le(1) append_take_drop_id [of "?h - ?l" "drop ?l (oids idx)"] by (simp only: bucket_def drop_drop le_add_diff_inverse2)
  have "list_all oid_wf (bucket p (oids idx))"
    using ok(2) by (auto simp: bucket_def list_all_iff dest!: in_set_takeD in_set_dropD)
  then show ?thesis
    unfolding n off r(1) idx_layers(1) [OF assms(1) le(3)] d
    using oid_codec.read_vec_roundtrip [of "bucket p (oids idx)"] by (auto simp: write_iter_def)
qed

definition lookup_outcome :: "pack_index \<Rightarrow> oid \<Rightarrow> 'a \<Rightarrow> pack_error + 'a" where
  "lookup_outcome idx o' x =
     (if o' \<in> set (oids idx) then Inr x else Inl (ObjectNotFoundInPackIndex o' (of_nat (position o' (oids idx)))))"

lemma reader_ok_cache:
  assumes "pack_index_ok idx" "reader_ok sha1 idx r" "p < 256" "bucket p (oids idx) \<noteq> []"
  shows "reader_ok sha1 idx (r\<lparr>oid_cache := (oid_cache r)(of_nat (below_byte p (oids idx)) \<mapsto> bucket p (oids idx))\<rparr>)"
proof -
  have n: "length (oids idx) < 2 ^ 32" using assms(1) by (simp add: pack_index_ok_def)
  have "bucket q (oids idx) = bucket p (oids idx)"
    if "q < 256" "bucket q (oids idx) \<noteq> []" "(of_nat (below_byte q (oids idx)) :: u64) = of_nat (below_byte p (oids idx))" for q
  proof -
    have "unat (of_nat (below_byte x (oids idx)) :: u64) = below_byte x (oids idx)" for x
      using le_less_trans [OF below_le n, of x] by (intro u64_small) simp
    then have same: "below_byte q (oids idx) = below_byte p (oids idx)" using that(3) by metis
    have "q = p"
    proof (rule ccontr)
      assume "q \<noteq> p"
      then consider "Suc q \<le> p" | "Suc p \<le> q" by linarith
      then show False
        using below_mono [of "Suc q" p "oids idx"] below_mono [of "Suc p" q "oids idx"] same that(2) assms(4)
        by cases (auto simp: bucket_def upto_below)
    qed
    then show ?thesis by simp
  qed
  then show ?thesis using assms(2) by (auto simp: reader_ok_def)
qed

lemma find_oid_index_spec:
  assumes "pack_index_ok idx" "reader_ok sha1 idx r" "o' \<noteq> []"
    and "bucket (oid_byte o') (oids idx) \<noteq> [] \<or> oid_cache r (of_nat (below_byte (oid_byte o') (oids idx))) = None"
  shows "\<exists>r'. find_oid_index o' r = (lookup_outcome idx o' (of_nat (position o' (oids idx))), r')
    \<and> (bucket (oid_byte o') (oids idx) \<noteq> [] \<longrightarrow> reader_ok sha1 idx r')"
proof -
  let ?p = "oid_byte o'" let ?low = "of_nat (below_byte ?p (oids idx)) :: u64"
  have p: "?p < 256" by (rule oid_byte_less)
  have low: "fanout_low ?p r = ?low"
    using fanout_bounds(1) [OF assms(1) _ p] assms(2) by (simp add: reader_ok_def)
  have ok: "sorted_wrt (<) (oids idx)" "list_all oid_wf (oids idx)" using assms(1) by (simp_all add: pack_index_ok_def)
  have s: "search_oids o' ?low (bucket ?p (oids idx)) = lookup_outcome idx o' (of_nat (position o' (oids idx)))"
    using search_bucket [OF ok assms(3)] by (simp add: lookup_outcome_def)
  show ?thesis
  proof (cases "oid_cache r ?low")
    case None
    obtain rest where "read_vec read_oid (unat (fanout_high ?p r - ?low))
        (drop (unat (PACK_IDX_HEADER_SIZE + FANOUT_SIZE + ?low * 20)) (idx_bytes r)) = Inr (bucket ?p (oids idx), rest)"
      using read_bucket [OF assms(1,2) p] unfolding low by blast
    then show ?thesis using None s reader_ok_cache [OF assms(1,2) p]
      by (simp add: find_oid_index_def low Let_def)
  next
    case (Some os)
    then have "os = bucket ?p (oids idx)" "bucket ?p (oids idx) \<noteq> []"
      using assms(2,4) p by (auto simp: reader_ok_def)
    then show ?thesis using Some s assms(2) by (simp add: find_oid_index_def low Let_def)
  qed
qed

lemma position_less: "sorted_wrt (<) os \<Longrightarrow> o' \<in> set os \<Longrightarrow> position o' os < length os \<and> os ! position o' os = o'"
  using binary_search_sorted [of os o'] by (simp add: binary_search_def position_def Let_def split: if_splits)

lemma read_layers:
  assumes "pack_index_ok idx" "reader_ok sha1 idx r" "i < length (oids idx)"
  shows "read_from read_u32 CrcLayer (of_nat i) r = Inr (crcs idx ! i)"
    and "read_from read_u32 OfsLayer (of_nat i) r = Inr (offsets idx ! i)"
    and "read_from read_oid OidLayer (of_nat i) r = Inr (oids idx ! i)"
proof -
  have r: "idx_bytes r = pack_index_serialize sha1 idx" "idx_n r = of_nat (length (oids idx))" using assms(2) by (simp_all add: reader_ok_def)
  have ok: "length (oids idx) < 2 ^ 32" "length (crcs idx) = length (oids idx)" "length (offsets idx) = length (oids idx)" "oid_wf (oids idx ! i)"
    using assms(1,3) by (simp_all add: pack_index_ok_def list_all_length)
  note defs = offset_of_def PACK_IDX_HEADER_SIZE_def FANOUT_SIZE_def Let_def r(2)
  have "offset_of OidLayer (of_nat i) r = of_nat (1032 + i * 20)" by (simp add: defs)
  then have o1: "unat (offset_of OidLayer (of_nat i) r) = 1032 + i * 20"
    using u64_small [of "1032 + i * 20"] ok(1) assms(3) by simp
  have "offset_of CrcLayer (of_nat i) r = of_nat (1032 + length (oids idx) * 20 + i * 4)" by (simp add: defs)
  then have o2: "unat (offset_of CrcLayer (of_nat i) r) = 1032 + length (oids idx) * 20 + i * 4"
    using u64_small [of "1032 + length (oids idx) * 20 + i * 4"] ok(1) assms(3) by simp
  have "[0..<2] = [0, 1::nat]" by (simp add: upt_rec)
  then have "offset_of OfsLayer (of_nat i) r = of_nat (1032 + (length (oids idx) * 20 + length (oids idx) * 4) + i * 4)"
    by (simp add: defs algebra_simps)
  also have "length (oids idx) * 20 + length (oids idx) * 4 = length (oids idx) * 24" by simp
  finally have "offset_of OfsLayer (of_nat i) r = of_nat (1032 + length (oids idx) * 24 + i * 4)" .
  then have o3: "unat (offset_of OfsLayer (of_nat i) r) = 1032 + length (oids idx) * 24 + i * 4"
    using u64_small [of "1032 + length (oids idx) * 24 + i * 4"] ok(1) assms(3) by simp
  have i: "i \<le> length (oids idx)" using assms(3) by simp
  note lay = idx_layers [OF assms(1) i, of sha1]
  have hd: "write_iter ser (drop i xs) @ Y = ser (xs ! i) @ write_iter ser (drop (Suc i) xs) @ Y" if "i < length xs"
    for ser :: "'a \<Rightarrow> byte list" and xs :: "'a list" and Y
    using that by (simp add: write_iter_def Cons_nth_drop_Suc [symmetric])
  show "read_from read_u32 CrcLayer (of_nat i) r = Inr (crcs idx ! i)"
    unfolding read_from_def o2 r(1) lay(2) using assms(3) ok(2) by (simp add: hd u32_codec.roundtrip pack_err_def)
  show "read_from read_u32 OfsLayer (of_nat i) r = Inr (offsets idx ! i)"
    unfolding read_from_def o3 r(1) lay(3) using assms(3) ok(3) by (simp add: hd u32_codec.roundtrip pack_err_def)
  show "read_from read_oid OidLayer (of_nat i) r = Inr (oids idx ! i)"
    unfolding read_from_def o1 r(1) lay(1) using assms(3) ok(4) by (simp add: hd oid_codec.roundtrip pack_err_def)
qed

lemma find_crc_offset_aux:
  assumes "pack_index_ok idx" "reader_ok sha1 idx r" "o' \<noteq> []" "bucket (oid_byte o') (oids idx) \<noteq> []"
  shows "\<exists>r'. find_oid_crc_offset o' r =
      (lookup_outcome idx o' (crcs idx ! position o' (oids idx), ucast (offsets idx ! position o' (oids idx))), r')
    \<and> reader_ok sha1 idx r'"
proof (cases "crc_offset_cache r o'")
  case (Some x)
  then have "o' \<in> set (oids idx)" "x = (crcs idx ! position o' (oids idx), ucast (offsets idx ! position o' (oids idx)))"
    using assms(2) unfolding reader_ok_def by blast+
  then show ?thesis using Some assms(2) by (simp add: find_oid_crc_offset_def lookup_outcome_def)
next
  case None
  obtain r' where r': "find_oid_index o' r = (lookup_outcome idx o' (of_nat (position o' (oids idx))), r')" "reader_ok sha1 idx r'"
    using find_oid_index_spec [OF assms(1-3)] assms(4) by blast
  show ?thesis
  proof (cases "o' \<in> set (oids idx)")
    case True
    have "sorted_wrt (<) (oids idx)" "list_all (\<lambda>x. ucast x \<le> MAX_OFFSET) (offsets idx)" "length (offsets idx) = length (oids idx)"
      using assms(1) by (simp_all add: pack_index_ok_def)
    then have i: "position o' (oids idx) < length (oids idx)" "\<not> MAX_OFFSET < ucast (offsets idx ! position o' (oids idx))"
      using position_less [OF _ True] by (auto simp: list_all_length not_less)
    have "reader_ok sha1 idx (r'\<lparr>crc_offset_cache := (crc_offset_cache r')(o' \<mapsto>
        (crcs idx ! position o' (oids idx), ucast (offsets idx ! position o' (oids idx))))\<rparr>)"
      using r'(2) True by (simp add: reader_ok_def)
    then show ?thesis
      using None r' True i(2) read_layers [OF assms(1) r'(2) i(1)]
      by (simp add: find_oid_crc_offset_def find_oid_crc_offset_inner_def lookup_outcome_def Let_def)
  next
    case False
    then show ?thesis using None r'
      by (simp add: find_oid_crc_offset_def find_oid_crc_offset_inner_def lookup_outcome_def)
  qed
qed

lemma position_filter:
  "sorted_wrt (<) os \<Longrightarrow> position y os = length (filter (\<lambda>x. x < y) os)"
proof (induction os)
  case (Cons a os)
  have "filter (\<lambda>x. x < y) os = []" if "\<not> a < y" using Cons.prems that by (auto simp: filter_empty_conv)
  then show ?case using Cons by (simp add: position_def)
qed (simp add: position_def)

lemma position_nth:
  assumes "sorted_wrt (<) os" "i < length os"
  shows "position (os ! i) os = i"
proof -
  have "distinct os" using assms(1) by (simp add: strict_sorted_iff)
  then show ?thesis using position_less [OF assms(1) nth_mem [OF assms(2)]] assms(2) by (metis nth_eq_iff_index_eq)
qed

lemma bucket_nonempty:
  assumes "sorted_wrt (<) os" "list_all oid_wf os" "x \<in> set os"
  shows "bucket (oid_byte x) os \<noteq> []"
proof -
  have "x \<in> set (take (below_byte (oid_byte x) os) os) \<or> x \<in> set (bucket (oid_byte x) os)
      \<or> x \<in> set (drop (upto_byte (oid_byte x) os) os)"
    using assms(3) bucket_split(1) [OF assms(1,2), of "oid_byte x"] by (metis Un_iff set_append)
  then show ?thesis using bucket_split(2,3) [OF assms(1,2), of x "oid_byte x"] by auto
qed


lemma reader_new_ok:
  assumes "pack_index_ok idx"
  shows "\<exists>r. pack_index_reader_new (pack_index_serialize sha1 idx) = Inr r \<and> reader_ok sha1 idx r
    \<and> oid_cache r = Map.empty \<and> crc_offset_cache r = Map.empty"
proof -
  note f = fanout_ok [OF assms]
  have "read_vec read_u32 FANOUT_ENTRYC (write_iter write_u32 (fanout idx) @ rest) = Inr (fanout idx, rest)" for rest
    using u32_codec.read_vec_roundtrip [of "fanout idx"] f(1) by (simp add: FANOUT_ENTRYC_def list_all_iff)
  moreover have "(ucast (fanout idx ! 255) :: u64) = of_nat (length (oids idx))" using f(3) by (metis of_nat_unat)
  ultimately show ?thesis
    by (simp add: pack_index_reader_new_def pack_index_serialize_def pack_index_body_def [of idx] parse_pack_idx_header_ok
        reader_ok_def FANOUT_ENTRYC_def)
qed

section \<open>The cache of id slices\<close>

lemma fanout_low_cache [simp]: "fanout_low p (r\<lparr>oid_cache := m\<rparr>) = fanout_low p r"
  by (simp add: fanout_low_def)

lemma below_gap:
  assumes "\<forall>x \<in> set os. \<not> (p \<le> oid_byte x \<and> oid_byte x < q)" "p \<le> q"
  shows "below_byte p os = below_byte q os"
proof -
  have "filter (\<lambda>x. oid_byte x < p) os = filter (\<lambda>x. oid_byte x < q) os"
    using assms by (intro filter_cong) force+
  then show ?thesis by (simp add: below_byte_def)
qed

text \<open>
  C40. The cache of id slices is keyed by the lower bound of the slice alone, and an empty slice has the
  same lower bound as the slice behind it. After a lookup of an id whose first byte begins no object of
  the pack, the objects of the next slice, which a fresh reader finds, are reported missing.
\<close>

theorem empty_slice_hides_objects:
  assumes "pack_index_ok idx" "reader_ok sha1 idx r" "i < length (oids idx)"
    and "oid_cache r = Map.empty" "crc_offset_cache r = Map.empty"
    and "miss \<noteq> []" "oid_byte miss < oid_byte (oids idx ! i)"
    and "\<forall>x \<in> set (oids idx). \<not> (oid_byte miss \<le> oid_byte x \<and> oid_byte x < oid_byte (oids idx ! i))"
  shows "fst (find_oid_crc_offset (oids idx ! i) r) = Inr (crcs idx ! i, ucast (offsets idx ! i))
    \<and> fst (find_oid_crc_offset (oids idx ! i) (snd (find_oid_crc_offset miss r)))
        = Inl (ObjectNotFoundInPackIndex (oids idx ! i) (of_nat (below_byte (oid_byte miss) (oids idx))))"
proof -
  let ?o = "oids idx ! i" and ?p = "oid_byte miss" let ?low = "of_nat (below_byte ?p (oids idx)) :: u64"
  have ok: "sorted_wrt (<) (oids idx)" "list_all oid_wf (oids idx)" using assms(1) by (simp_all add: pack_index_ok_def)
  have o: "?o \<in> set (oids idx)" "?o \<noteq> []"
    using assms(3) ok(2) by (auto simp: list_all_length oid_wf_def OID_SIZE_def)
  have fan: "idx_fanout r = fanout idx" using assms(2) by (simp add: reader_ok_def)
  have gap: "below_byte ?p (oids idx) = below_byte (oid_byte ?o) (oids idx)"
    using below_gap [OF assms(8)] assms(7) by simp
  have low: "fanout_low ?p r = ?low" "fanout_low (oid_byte ?o) r = ?low"
    using fanout_bounds(1) [OF assms(1) fan] oid_byte_less gap by metis+
  have "\<forall>x \<in> set (oids idx). \<not> (?p \<le> oid_byte x \<and> oid_byte x < Suc ?p)" using assms(7,8) by fastforce
  then have empty: "bucket ?p (oids idx) = []"
    using bucket_split(4) [OF ok, of ?p] below_gap [of "oids idx" ?p "Suc ?p"] by (simp add: upto_below)
  obtain rest where "read_vec read_oid (unat (fanout_high ?p r - ?low))
      (drop (unat (PACK_IDX_HEADER_SIZE + FANOUT_SIZE + ?low * 20)) (idx_bytes r)) = Inr ([], rest)"
    using read_bucket [OF assms(1,2) oid_byte_less, of miss] unfolding low empty by blast
  then have "snd (find_oid_index miss r) = r\<lparr>oid_cache := [?low \<mapsto> []]\<rparr>"
    "\<exists>e. fst (find_oid_index miss r) = Inl e"
    using assms(4) by (simp_all add: find_oid_index_def low Let_def search_oids_def binary_search_def)
  then have "snd (find_oid_crc_offset miss r) = r\<lparr>oid_cache := [?low \<mapsto> []]\<rparr>"
    using assms(5) by (auto simp: find_oid_crc_offset_def find_oid_crc_offset_inner_def split: prod.splits)
  moreover have "fanout_low (oid_byte ?o) (r\<lparr>oid_cache := [?low \<mapsto> []]\<rparr>) = ?low"
    using low(2) by (simp only: fanout_low_cache)
  ultimately have "fst (find_oid_crc_offset ?o (snd (find_oid_crc_offset miss r))) = Inl (ObjectNotFoundInPackIndex ?o ?low)"
    using assms(5) by (simp add: find_oid_crc_offset_def find_oid_crc_offset_inner_def find_oid_index_def Let_def
        search_oids_def binary_search_def)
  moreover obtain r' where "find_oid_crc_offset ?o r = (lookup_outcome idx ?o (crcs idx ! i, ucast (offsets idx ! i)), r')"
    using find_crc_offset_aux [OF assms(1,2) o(2) bucket_nonempty [OF ok o(1)]] position_nth [OF ok(1) assms(3)] by auto
  ultimately show ?thesis using o(1) by (simp add: lookup_outcome_def)
qed


theorem empty_slice_hides_objects_witness:
  "\<exists>r. pack_index_reader_new (pack_index_serialize sample_sha1 sample_idx) = Inr r
     \<and> fst (find_oid_crc_offset EMPTY_BLOB r) = Inr (8, 99)
     \<and> fst (find_oid_crc_offset EMPTY_BLOB (snd (find_oid_crc_offset (0x50 # replicate 19 0) r)))
         = Inl (ObjectNotFoundInPackIndex EMPTY_BLOB 1)"
proof -
  obtain r where r: "pack_index_reader_new (pack_index_serialize sample_sha1 sample_idx) = Inr r" "reader_ok sample_sha1 sample_idx r"
    "oid_cache r = Map.empty" "crc_offset_cache r = Map.empty"
    using reader_new_ok [OF sample_idx_ok] by blast
  let ?m = "0x50 # replicate 19 0 :: oid"
  have o: "oids sample_idx ! 1 = EMPTY_BLOB" "crcs sample_idx ! 1 = 8" "offsets sample_idx ! 1 = 99" "1 < length (oids sample_idx)"
    by (simp_all add: sample_idx_def)
  have b: "oid_byte ?m = 80" "oid_byte EMPTY_BLOB = 230" "oid_byte EMPTY_TREE = 75"
    by (simp_all add: oid_byte_def EMPTY_BLOB_def EMPTY_TREE_def)
  have "below_byte 80 (oids sample_idx) = 1" by (simp add: below_byte_def sample_idx_def b)
  moreover have "\<forall>x \<in> set (oids sample_idx). \<not> (oid_byte ?m \<le> oid_byte x \<and> oid_byte x < oid_byte (oids sample_idx ! 1))"
    by (simp add: o b) (simp add: sample_idx_def b)
  ultimately show ?thesis
    using empty_slice_hides_objects [OF sample_idx_ok r(2) o(4) r(3,4), of ?m] r(1) unfolding o b by simp
qed

end
