(* ===== verification/Bit_Pack.thy ===== *)
theory Bit_Pack
  imports Bit_Pack_Index Bit_Delta Bit_Obj Bit_BTree
begin

text \<open>
  Pack files, \<^verbatim>\<open>libbit/src/pack.rs\<close> and \<^verbatim>\<open>libbit/src/pack/indexer.rs\<close>: the entries of a pack file, the
  reader that expands deltas and caches what it expanded, and the indexer. Parameters of the model are
  the decompressor \<open>zlib\<close> (\<open>flate2\<close>) and the checksums \<open>sha1\<close> and \<open>crc32\<close>.
\<close>

section \<open>Model: entries\<close>

text \<open>
  What the loop of \<open>inflate\<close> ends in, for an output buffer of a given capacity, which never grows: the
  end of the stream with the output and the number of bytes taken, an error of the decompressor, or no
  progress (a full buffer or an early end of the file) for ever.
\<close>

datatype zlib_result = StreamEnd "byte list" nat | Stalled | ZlibError

type_synonym zlib = "nat \<Rightarrow> byte list \<Rightarrow> zlib_result"

datatype bit_pack_obj_type = PCommit | PTree | PBlob | PTag | OfsDelta | RefDelta

definition pack_obj_type_try_from_u8 :: "byte \<Rightarrow> bit_pack_obj_type bit_result" where
  "pack_obj_type_try_from_u8 ty =
     (if ty = 1 then Inr PCommit else if ty = 2 then Inr PTree else if ty = 3 then Inr PBlob else if ty = 4 then Inr PTag
      else if ty = 6 then Inr OfsDelta else if ty = 7 then Inr RefDelta else Inl (Bail ''invalid bit pack object type''))"

fun obj_type_from_pack :: "bit_pack_obj_type \<Rightarrow> bit_obj_type bit_result" where
  "obj_type_from_pack PCommit = Inr Commit"
| "obj_type_from_pack PTree = Inr Tree"
| "obj_type_from_pack PBlob = Inr Blob"
| "obj_type_from_pack PTag = Inr Tag"
| "obj_type_from_pack OfsDelta = Inl Panic"
| "obj_type_from_pack RefDelta = Inl Panic"

datatype bit_pack_obj_raw_deltified = Raw bit_pack_obj_raw | Ofs u64 "byte list" | Ref oid "byte list"

definition PACK_SIGNATURE :: "byte list" where
  "PACK_SIGNATURE = bytes_of ''PACK''"

definition parse_pack_header :: "u32 reader" where
  "parse_pack_header =
     rd_bind (read_vec read_u8 4) (\<lambda>sig.
     rd_bind (rd_lift (ensure (sig = PACK_SIGNATURE) (Bail ''invalid packfile signature''))) (\<lambda>_.
     rd_bind read_u32 (\<lambda>version.
     rd_bind (rd_lift (ensure (version = 2) (Bail ''invalid packfile version''))) (\<lambda>_.
       read_u32))))"

definition read_pack_obj_header :: "(bit_pack_obj_type \<times> u64) reader" where
  "read_pack_obj_header =
     rd_bind (read_le_varint_with_shift 3) (\<lambda>(ty, sz).
     rd_bind (rd_lift (pack_obj_type_try_from_u8 ty)) (\<lambda>obj_type.
       rd_return (obj_type, sz)))"

definition inflate :: "zlib \<Rightarrow> u64 \<Rightarrow> byte list reader" where
  "inflate zlib sz = (\<lambda>bs.
     case zlib (unat sz) bs of
       StreamEnd out consumed \<Rightarrow> if length out = unat sz then Inr (out, drop consumed bs) else Inl Panic
     | Stalled \<Rightarrow> Inl Diverge
     | ZlibError \<Rightarrow> Inl (Bail ''zlib''))"

definition read_pack_obj :: "zlib \<Rightarrow> bit_pack_obj_raw_deltified reader" where
  "read_pack_obj zlib =
     rd_bind read_pack_obj_header (\<lambda>(obj_type, sz).
       case obj_type of
         OfsDelta \<Rightarrow> rd_bind read_offset (\<lambda>offset. rd_bind (inflate zlib sz) (\<lambda>d. rd_return (Ofs offset d)))
       | RefDelta \<Rightarrow> rd_bind read_oid (\<lambda>base. rd_bind (inflate zlib sz) (\<lambda>d. rd_return (Ref base d)))
       | _ \<Rightarrow> rd_bind (rd_lift (obj_type_from_pack obj_type)) (\<lambda>ty.
              rd_bind (inflate zlib sz) (\<lambda>bytes. rd_return (Raw \<lparr>raw_obj_type = ty, raw_bytes = bytes\<rparr>))))"

text \<open>With the checksum of the bytes it takes.\<close>

definition read_pack_obj_with_crc :: "(byte list \<Rightarrow> u32) \<Rightarrow> zlib \<Rightarrow> (u32 \<times> bit_pack_obj_raw_deltified) reader" where
  "read_pack_obj_with_crc crc32 zlib = (\<lambda>bs.
     and_then (read_pack_obj zlib bs) (\<lambda>(obj, r). Inr ((crc32 (take (length bs - length r) bs), obj), r)))"

text \<open>Reading at an offset seeks there first.\<close>

definition read_header_from_offset :: "u64 \<Rightarrow> byte list \<Rightarrow> ((bit_pack_obj_type \<times> u64) \<times> byte list) bit_result" where
  "read_header_from_offset offset bs = read_pack_obj_header (drop (unat offset) bs)"

definition read_obj_from_offset_raw :: "zlib \<Rightarrow> u64 \<Rightarrow> byte list \<Rightarrow> bit_pack_obj_raw_deltified bit_result" where
  "read_obj_from_offset_raw zlib offset bs = and_then (read_pack_obj zlib (drop (unat offset) bs)) (\<lambda>(obj, _). Inr obj)"

definition expand_with_delta :: "bit_pack_obj_raw \<Rightarrow> delta \<Rightarrow> bit_pack_obj_raw bit_result" where
  "expand_with_delta raw d =
     and_then (expand d (raw_bytes raw)) (\<lambda>bytes. Inr \<lparr>raw_obj_type = raw_obj_type raw, raw_bytes = bytes\<rparr>)"

definition expand_with_delta_bytes :: "bit_pack_obj_raw \<Rightarrow> byte list \<Rightarrow> bit_pack_obj_raw bit_result" where
  "expand_with_delta_bytes raw delta_bytes =
     and_then (delta_deserialize_sized (length delta_bytes) delta_bytes) (\<lambda>(d, _). expand_with_delta raw d)"

section \<open>Model: the reader of a pack\<close>

record pack =
  pack_bytes :: "byte list"
  pack_objectc :: u32
  idx_reader :: pack_index_reader
  pack_obj_cache :: "u64 \<rightharpoonup> bit_pack_obj_raw"

type_synonym 'a pack_op = "pack \<Rightarrow> (pack_error + 'a) \<times> pack"

definition pack_new :: "byte list \<Rightarrow> byte list \<Rightarrow> pack bit_result" where
  "pack_new pack_file idx_file =
     and_then (parse_pack_header pack_file) (\<lambda>(objectc, _).
     and_then (pack_index_reader_new idx_file) (\<lambda>idx.
       Inr \<lparr>pack_bytes = pack_file, pack_objectc = objectc, idx_reader = idx, pack_obj_cache = Map.empty\<rparr>))"

definition obj_crc_offset :: "oid \<Rightarrow> (u32 \<times> u64) pack_op" where
  "obj_crc_offset o' pk = (case find_oid_crc_offset o' (idx_reader pk) of (res, r) \<Rightarrow> (res, pk\<lparr>idx_reader := r\<rparr>))"

definition obj_offset :: "oid \<Rightarrow> u64 pack_op" where
  "obj_offset o' pk = (case obj_crc_offset o' pk of (res, pk) \<Rightarrow> (and_then res (\<lambda>(_, offset). Inr offset), pk))"

text \<open>
  \<open>expand_raw_obj\<close> and \<open>read_obj_raw\<close> call \<open>read_obj_raw_at\<close>, which is their argument \<open>at\<close>; the call
  depth is bounded by the fuel.
\<close>

definition read_obj_raw_via :: "(u64 \<Rightarrow> bit_pack_obj_raw pack_op) \<Rightarrow> oid \<Rightarrow> bit_pack_obj_raw pack_op" where
  "read_obj_raw_via at o' pk =
     (case obj_offset o' pk of (Inl e, pk) \<Rightarrow> (Inl e, pk) | (Inr offset, pk) \<Rightarrow> at offset pk)"

definition expand_raw_obj ::
  "(u64 \<Rightarrow> bit_pack_obj_raw pack_op) \<Rightarrow> bit_pack_obj_raw_deltified \<Rightarrow> u64 \<Rightarrow> bit_pack_obj_raw pack_op" where
  "expand_raw_obj at raw_kind base_offset pk =
     (case raw_kind of
        Raw raw \<Rightarrow> (Inr raw, pk)
      | Ofs offset delta_bytes \<Rightarrow>
          (case at (base_offset - offset) pk of
             (Inl e, pk) \<Rightarrow> (Inl e, pk)
           | (Inr base, pk) \<Rightarrow> (pack_err (expand_with_delta_bytes base delta_bytes), pk))
      | Ref base_oid delta_bytes \<Rightarrow>
          (case read_obj_raw_via at base_oid pk of
             (Inl e, pk) \<Rightarrow> (Inl e, pk)
           | (Inr base, pk) \<Rightarrow> (pack_err (expand_with_delta_bytes base delta_bytes), pk)))"

fun read_obj_raw_at :: "nat \<Rightarrow> zlib \<Rightarrow> u64 \<Rightarrow> bit_pack_obj_raw pack_op" where
  "read_obj_raw_at 0 zlib offset pk = (Inl (PackError Diverge), pk)"
| "read_obj_raw_at (Suc fuel) zlib offset pk =
     (case pack_obj_cache pk offset of
        Some raw \<Rightarrow> (Inr raw, pk)
      | None \<Rightarrow>
          (case read_obj_from_offset_raw zlib offset (pack_bytes pk) of
             Inl e \<Rightarrow> (Inl (PackError e), pk)
           | Inr raw \<Rightarrow>
               (case expand_raw_obj (read_obj_raw_at fuel zlib) raw offset pk of
                  (Inl e, pk) \<Rightarrow> (Inl e, pk)
                | (Inr expanded, pk) \<Rightarrow> (Inr expanded, pk\<lparr>pack_obj_cache := (pack_obj_cache pk)(offset \<mapsto> expanded)\<rparr>))))"

definition pack_read_obj_raw :: "nat \<Rightarrow> zlib \<Rightarrow> oid \<Rightarrow> bit_pack_obj_raw pack_op" where
  "pack_read_obj_raw fuel zlib o' = read_obj_raw_via (read_obj_raw_at fuel zlib) o'"

definition read_obj_header_via :: "(u64 \<Rightarrow> bit_obj_header pack_op) \<Rightarrow> oid \<Rightarrow> bit_obj_header pack_op" where
  "read_obj_header_via at o' pk =
     (case obj_crc_offset o' pk of (Inl e, pk) \<Rightarrow> (Inl e, pk) | (Inr (crc, offset), pk) \<Rightarrow> at offset pk)"

definition with_size :: "u64 \<Rightarrow> (pack_error + bit_obj_header) \<times> pack \<Rightarrow> (pack_error + bit_obj_header) \<times> pack" where
  "with_size sz r =
     (case r of (res, pk) \<Rightarrow> (and_then res (\<lambda>h. Inr \<lparr>hdr_obj_type = hdr_obj_type h, hdr_size = sz\<rparr>), pk))"

fun read_obj_header_at :: "nat \<Rightarrow> u64 \<Rightarrow> bit_obj_header pack_op" where
  "read_obj_header_at 0 offset pk = (Inl (PackError Diverge), pk)"
| "read_obj_header_at (Suc fuel) offset pk =
     (case read_header_from_offset offset (pack_bytes pk) of
        Inl e \<Rightarrow> (Inl (PackError e), pk)
      | Inr ((OfsDelta, sz), r) \<Rightarrow>
          (case read_offset r of
             Inl e \<Rightarrow> (Inl (PackError e), pk)
           | Inr (ofs, _) \<Rightarrow> with_size sz (read_obj_header_at fuel (offset - ofs) pk))
      | Inr ((RefDelta, sz), r) \<Rightarrow>
          (case read_oid r of
             Inl e \<Rightarrow> (Inl (PackError e), pk)
           | Inr (o', _) \<Rightarrow> with_size sz (read_obj_header_via (read_obj_header_at fuel) o' pk))
      | Inr ((ty, sz), r) \<Rightarrow>
          (pack_err (and_then (obj_type_from_pack ty) (\<lambda>t. Inr \<lparr>hdr_obj_type = t, hdr_size = sz\<rparr>)), pk))"

definition pack_read_obj_header :: "nat \<Rightarrow> oid \<Rightarrow> bit_obj_header pack_op" where
  "pack_read_obj_header fuel o' = read_obj_header_via (read_obj_header_at fuel) o'"

section \<open>Model: the indexer\<close>

record pack_indexer =
  raw_objects :: "u64 \<rightharpoonup> bit_pack_obj_raw"
  oid_to_offset :: "oid \<rightharpoonup> u64"
  sorted_oids :: "(oid \<times> u64 \<times> u32) list"

definition expand_deltas :: "pack_indexer \<Rightarrow> bit_pack_obj_raw_deltified \<Rightarrow> u64 \<Rightarrow> bit_pack_obj_raw bit_result" where
  "expand_deltas st obj base_offset =
     (case obj of
        Raw raw \<Rightarrow> Inr raw
      | Ofs offset delta \<Rightarrow>
          and_then (unwrap (raw_objects st (base_offset - offset))) (\<lambda>base. expand_with_delta_bytes base delta)
      | Ref base_oid delta \<Rightarrow>
          and_then (unwrap (oid_to_offset st base_oid)) (\<lambda>offset.
          and_then (unwrap (raw_objects st offset)) (\<lambda>base. expand_with_delta_bytes base delta)))"

definition index_obj ::
  "zlib \<Rightarrow> (byte list \<Rightarrow> oid) \<Rightarrow> (byte list \<Rightarrow> u32) \<Rightarrow> byte list \<Rightarrow> pack_indexer \<times> byte list \<Rightarrow> (pack_indexer \<times> byte list) bit_result" where
  "index_obj zlib sha1 crc32 bs = (\<lambda>(st, r).
     let offset = of_nat (length bs - length r) in
     and_then (read_pack_obj_with_crc crc32 zlib r) (\<lambda>((crc, deltified), r).
     and_then (expand_deltas st deltified offset) (\<lambda>raw.
     let o' = pack_obj_oid sha1 raw in
       Inr (\<lparr>raw_objects = (raw_objects st)(offset \<mapsto> raw), oid_to_offset = (oid_to_offset st)(o' \<mapsto> offset),
             sorted_oids = bt_insert o' (offset, crc) (sorted_oids st)\<rparr>, r))))"

fun index_objs ::
  "nat \<Rightarrow> zlib \<Rightarrow> (byte list \<Rightarrow> oid) \<Rightarrow> (byte list \<Rightarrow> u32) \<Rightarrow> byte list \<Rightarrow> pack_indexer \<times> byte list \<Rightarrow> (pack_indexer \<times> byte list) bit_result" where
  "index_objs 0 zlib sha1 crc32 bs s = Inr s"
| "index_objs (Suc n) zlib sha1 crc32 bs s = and_then (index_obj zlib sha1 crc32 bs s) (index_objs n zlib sha1 crc32 bs)"

definition index_pack :: "zlib \<Rightarrow> (byte list \<Rightarrow> oid) \<Rightarrow> (byte list \<Rightarrow> u32) \<Rightarrow> byte list \<Rightarrow> pack_index bit_result" where
  "index_pack zlib sha1 crc32 bs =
     and_then (parse_pack_header bs) (\<lambda>(objectc, r).
     and_then (index_objs (unat objectc) zlib sha1 crc32 bs
       (\<lparr>raw_objects = Map.empty, oid_to_offset = Map.empty, sorted_oids = []\<rparr>, r)) (\<lambda>(st, r).
     let pack_hash = sha1 (take (length bs - length r) bs) in
     and_then (read_oid r) (\<lambda>(expected_hash, r).
     and_then (ensure (r = []) Panic) (\<lambda>_.
     and_then (ensure (expected_hash = pack_hash) (Bail ''corrupted packfile'')) (\<lambda>_.
     and_then (ensure (list_all (\<lambda>(_, offset, _). offset < MAX_OFFSET) (sorted_oids st)) Panic) (\<lambda>_.
     let os = map fst (sorted_oids st) in
       Inr \<lparr>fanout = build_fanout os, oids = os, crcs = map (\<lambda>(_, _, crc). crc) (sorted_oids st),
            offsets = map (\<lambda>(_, offset, _). ucast offset) (sorted_oids st), pack_hash = pack_hash\<rparr>))))))"

section \<open>Objects of a pack\<close>

text \<open>
  What a pack file holds at an offset, as a relation: an object as it is, or a delta applied to the
  object at a distance in front of it or to the object that \<open>loc\<close> places somewhere in the pack.
\<close>

inductive obj_at :: "zlib \<Rightarrow> byte list \<Rightarrow> (oid \<rightharpoonup> u64) \<Rightarrow> u64 \<Rightarrow> bit_pack_obj_raw \<Rightarrow> bool" for zlib bs loc where
  at_raw: "read_obj_from_offset_raw zlib offset bs = Inr (Raw raw) \<Longrightarrow> obj_at zlib bs loc offset raw"
| at_ofs: "read_obj_from_offset_raw zlib offset bs = Inr (Ofs d delta_bytes) \<Longrightarrow> obj_at zlib bs loc (offset - d) base
    \<Longrightarrow> expand_with_delta_bytes base delta_bytes = Inr raw \<Longrightarrow> obj_at zlib bs loc offset raw"
| at_ref: "read_obj_from_offset_raw zlib offset bs = Inr (Ref base_oid delta_bytes) \<Longrightarrow> loc base_oid = Some base_offset
    \<Longrightarrow> obj_at zlib bs loc base_offset base \<Longrightarrow> expand_with_delta_bytes base delta_bytes = Inr raw
    \<Longrightarrow> obj_at zlib bs loc offset raw"

lemma obj_at_mono: "obj_at zlib bs loc offset raw \<Longrightarrow> loc \<subseteq>\<^sub>m loc' \<Longrightarrow> obj_at zlib bs loc' offset raw"
proof (induction rule: obj_at.induct)
  case (at_ref offset base_oid delta_bytes base_offset base raw)
  then have "loc' base_oid = Some base_offset" by (metis domI map_le_def)
  then show ?case using at_ref by (blast intro: obj_at.at_ref)
qed (blast intro: obj_at.intros)+

lemma obj_at_unique: "obj_at zlib bs loc offset raw \<Longrightarrow> obj_at zlib bs loc offset raw' \<Longrightarrow> raw = raw'"
proof (induction arbitrary: raw' rule: obj_at.induct)
  case (at_raw offset raw)
  from at_raw.prems at_raw.hyps show ?case by cases simp_all
next
  case (at_ofs offset d delta_bytes base raw)
  note outer = at_ofs
  from at_ofs.prems show ?case
  proof cases
    case (at_ofs d' delta' base')
    then have "d' = d" "delta' = delta_bytes" using outer(1) by simp_all
    then have "base = base'" using at_ofs(2) by (intro outer(4)) simp
    then show ?thesis using at_ofs(3) outer(3) \<open>delta' = delta_bytes\<close> by simp
  qed (use outer(1) in simp_all)
next
  case (at_ref offset base_oid delta_bytes base_offset base raw)
  note outer = at_ref
  from at_ref.prems show ?case
  proof cases
    case (at_ref o' delta' off' base')
    then have eq: "o' = base_oid" "delta' = delta_bytes" "off' = base_offset" using outer(1,2) by simp_all
    then have "base = base'" using at_ref(3) by (intro outer(5)) simp
    then show ?thesis using at_ref(4) outer(4) eq by simp
  qed (use outer(1) in simp_all)
qed

definition pack_coherent :: "(pack_index_reader \<Rightarrow> bool) \<Rightarrow> (oid \<rightharpoonup> u64) \<Rightarrow> zlib \<Rightarrow> byte list \<Rightarrow> pack \<Rightarrow> bool" where
  "pack_coherent ok loc zlib bs pk \<longleftrightarrow> pack_bytes pk = bs \<and> ok (idx_reader pk)
     \<and> (\<forall>offset raw. pack_obj_cache pk offset = Some raw \<longrightarrow> obj_at zlib bs loc offset raw)"

text \<open>What reading a pack relies on of the index: it finds exactly the objects that \<open>loc\<close> places.\<close>

locale pack_lookup =
  fixes ok :: "pack_index_reader \<Rightarrow> bool" and loc :: "oid \<rightharpoonup> u64"
  assumes find_known: "ok r \<Longrightarrow> loc o' = Some offset \<Longrightarrow> \<exists>crc r'. find_oid_crc_offset o' r = (Inr (crc, offset), r') \<and> ok r'"
    and find_sound: "ok r \<Longrightarrow> find_oid_crc_offset o' r = (Inr (crc, offset), r') \<Longrightarrow> loc o' = Some offset \<and> ok r'"
begin

lemma coherent_idx: "pack_coherent ok loc zlib bs pk \<Longrightarrow> ok r \<Longrightarrow> pack_coherent ok loc zlib bs (pk\<lparr>idx_reader := r\<rparr>)"
  by (simp add: pack_coherent_def)

lemma coherent_cache:
  "pack_coherent ok loc zlib bs pk \<Longrightarrow> obj_at zlib bs loc offset raw
    \<Longrightarrow> pack_coherent ok loc zlib bs (pk\<lparr>pack_obj_cache := (pack_obj_cache pk)(offset \<mapsto> raw)\<rparr>)"
  by (simp add: pack_coherent_def)

lemma crc_offset_known:
  assumes "pack_coherent ok loc zlib bs pk" "loc o' = Some offset"
  shows "\<exists>crc pk'. obj_crc_offset o' pk = (Inr (crc, offset), pk') \<and> pack_coherent ok loc zlib bs pk'"
proof -
  obtain crc r' where "find_oid_crc_offset o' (idx_reader pk) = (Inr (crc, offset), r')" "ok r'"
    using find_known assms by (metis pack_coherent_def)
  then show ?thesis using coherent_idx [OF assms(1)] by (simp add: obj_crc_offset_def)
qed

lemma crc_offset_sound:
  assumes "pack_coherent ok loc zlib bs pk" "obj_crc_offset o' pk = (Inr (crc, offset), pk')"
  shows "loc o' = Some offset \<and> pack_coherent ok loc zlib bs pk'"
proof -
  obtain r' where r': "find_oid_crc_offset o' (idx_reader pk) = (Inr (crc, offset), r')" "pk' = pk\<lparr>idx_reader := r'\<rparr>"
    using assms(2) by (auto simp: obj_crc_offset_def split: prod.splits)
  then have "loc o' = Some offset \<and> ok r'" using find_sound assms(1) by (auto simp: pack_coherent_def)
  then show ?thesis using r'(2) coherent_idx [OF assms(1)] by blast
qed

lemma read_complete:
  assumes "obj_at zlib bs loc offset raw"
  shows "\<exists>n. \<forall>m \<ge> n. \<forall>pk. pack_coherent ok loc zlib bs pk \<longrightarrow>
    (\<exists>pk'. read_obj_raw_at m zlib offset pk = (Inr raw, pk') \<and> pack_coherent ok loc zlib bs pk')"
  using assms
proof (induction rule: obj_at.induct)
  case (at_raw offset raw)
  note a = obj_at.at_raw [OF at_raw]
  have "\<exists>pk'. read_obj_raw_at m zlib offset pk = (Inr raw, pk') \<and> pack_coherent ok loc zlib bs pk'"
    if c: "1 \<le> m" "pack_coherent ok loc zlib bs pk" for m pk
  proof (cases "pack_obj_cache pk offset")
    case (Some raw')
    then have "raw' = raw" using c(2) a obj_at_unique by (metis pack_coherent_def)
    then show ?thesis using Some c by (cases m) auto
  next
    case None
    then show ?thesis using at_raw c coherent_cache [OF c(2) a]
      by (cases m) (auto simp: pack_coherent_def expand_raw_obj_def)
  qed
  then show ?case by blast
next
  case (at_ofs offset d delta_bytes base raw)
  note a = obj_at.at_ofs [OF at_ofs.hyps]
  obtain n where n: "\<And>m pk. n \<le> m \<Longrightarrow> pack_coherent ok loc zlib bs pk \<Longrightarrow>
      \<exists>pk'. read_obj_raw_at m zlib (offset - d) pk = (Inr base, pk') \<and> pack_coherent ok loc zlib bs pk'" using at_ofs.IH by blast
  have "\<exists>pk'. read_obj_raw_at m zlib offset pk = (Inr raw, pk') \<and> pack_coherent ok loc zlib bs pk'"
    if c: "Suc n \<le> m" "pack_coherent ok loc zlib bs pk" for m pk
  proof (cases "pack_obj_cache pk offset")
    case (Some raw')
    then have "raw' = raw" using c(2) a obj_at_unique by (metis pack_coherent_def)
    then show ?thesis using Some c by (cases m) auto
  next
    case None
    obtain k where k: "m = Suc k" "n \<le> k" using c(1) by (cases m) auto
    obtain pk' where pk': "read_obj_raw_at k zlib (offset - d) pk = (Inr base, pk')" "pack_coherent ok loc zlib bs pk'" using n [OF k(2) c(2)] by blast
    then show ?thesis using None at_ofs.hyps c(2) k(1) coherent_cache [OF pk'(2) a]
      by (simp add: pack_coherent_def expand_raw_obj_def pack_err_def)
  qed
  then show ?case by blast
next
  case (at_ref offset base_oid delta_bytes base_offset base raw)
  note a = obj_at.at_ref [OF at_ref.hyps]
  obtain n where n: "\<And>m pk. n \<le> m \<Longrightarrow> pack_coherent ok loc zlib bs pk \<Longrightarrow>
      \<exists>pk'. read_obj_raw_at m zlib base_offset pk = (Inr base, pk') \<and> pack_coherent ok loc zlib bs pk'" using at_ref.IH by blast
  have "\<exists>pk'. read_obj_raw_at m zlib offset pk = (Inr raw, pk') \<and> pack_coherent ok loc zlib bs pk'"
    if c: "Suc n \<le> m" "pack_coherent ok loc zlib bs pk" for m pk
  proof (cases "pack_obj_cache pk offset")
    case (Some raw')
    then have "raw' = raw" using c(2) a obj_at_unique by (metis pack_coherent_def)
    then show ?thesis using Some c by (cases m) auto
  next
    case None
    obtain k where k: "m = Suc k" "n \<le> k" using c(1) by (cases m) auto
    obtain crc pk1 where pk1: "obj_crc_offset base_oid pk = (Inr (crc, base_offset), pk1)" "pack_coherent ok loc zlib bs pk1"
      using crc_offset_known [OF c(2) at_ref.hyps(2)] by blast
    obtain pk' where pk': "read_obj_raw_at k zlib base_offset pk1 = (Inr base, pk')" "pack_coherent ok loc zlib bs pk'"
      using n [OF k(2) pk1(2)] by blast
    then show ?thesis using None at_ref.hyps c(2) k(1) pk1(1) coherent_cache [OF pk'(2) a]
      by (simp add: pack_coherent_def expand_raw_obj_def read_obj_raw_via_def obj_offset_def pack_err_def)
  qed
  then show ?case by blast
qed

lemma read_sound:
  assumes "pack_coherent ok loc zlib bs pk" "read_obj_raw_at n zlib offset pk = (Inr raw, pk')"
  shows "obj_at zlib bs loc offset raw \<and> pack_coherent ok loc zlib bs pk'"
  using assms
proof (induction n arbitrary: offset pk raw pk')
  case (Suc n)
  show ?case
  proof (cases "pack_obj_cache pk offset")
    case (Some raw')
    then show ?thesis using Suc.prems by (auto simp: pack_coherent_def)
  next
    case None
    then obtain kind pk1 where k: "read_obj_from_offset_raw zlib offset bs = Inr kind"
        "expand_raw_obj (read_obj_raw_at n zlib) kind offset pk = (Inr raw, pk1)"
        "pk' = pk1\<lparr>pack_obj_cache := (pack_obj_cache pk1)(offset \<mapsto> raw)\<rparr>"
      using Suc.prems by (auto simp: pack_coherent_def split: sum.splits prod.splits)
    have "obj_at zlib bs loc offset raw \<and> pack_coherent ok loc zlib bs pk1"
    proof (cases kind)
      case (Raw x)
      then show ?thesis using k Suc.prems(1) by (auto simp: expand_raw_obj_def intro: obj_at.at_raw)
    next
      case (Ofs d delta)
      then obtain base where b: "read_obj_raw_at n zlib (offset - d) pk = (Inr base, pk1)" "expand_with_delta_bytes base delta = Inr raw"
        using k(2) by (auto simp: expand_raw_obj_def pack_err_def split: sum.splits prod.splits)
      then show ?thesis using Suc.IH [OF Suc.prems(1) b(1)] k(1) Ofs by (auto intro: obj_at.at_ofs)
    next
      case (Ref o' delta)
      then obtain crc off pk2 base where b: "obj_crc_offset o' pk = (Inr (crc, off), pk2)"
          "read_obj_raw_at n zlib off pk2 = (Inr base, pk1)" "expand_with_delta_bytes base delta = Inr raw"
        using k(2) by (auto simp: expand_raw_obj_def read_obj_raw_via_def obj_offset_def pack_err_def and_then_eq_Inr split: sum.splits prod.splits)
      then show ?thesis using Suc.IH [OF _ b(2)] crc_offset_sound [OF Suc.prems(1) b(1)] k(1) Ref by (auto intro: obj_at.at_ref)
    qed
    then show ?thesis using coherent_cache k(3) by blast
  qed
qed simp

end

section \<open>The index as a lookup\<close>

definition idx_loc :: "pack_index \<Rightarrow> oid \<rightharpoonup> u64" where
  "idx_loc idx o' = (if o' \<in> set (oids idx) then Some (ucast (offsets idx ! position o' (oids idx))) else None)"

text \<open>A reader of the file of \<open>idx\<close>, in whose cache there are only ids of the pack.\<close>

definition idx_ok :: "(byte list \<Rightarrow> oid) \<Rightarrow> pack_index \<Rightarrow> pack_index_reader \<Rightarrow> bool" where
  "idx_ok sha1 idx r \<longleftrightarrow> pack_index_ok idx \<and> reader_ok sha1 idx r
     \<and> (\<forall>low os. oid_cache r low = Some os \<longrightarrow> set os \<subseteq> set (oids idx))"

lemma search_found: "search_oids o' low os = Inr i \<Longrightarrow> o' \<in> set os"
  by (auto simp: search_oids_def binary_search_def Let_def split: if_splits) (metis nth_mem)

lemma find_index_known:
  assumes "idx_ok sha1 idx r" "find_oid_index o' r = (res, r')"
  shows "(\<forall>low os. oid_cache r' low = Some os \<longrightarrow> set os \<subseteq> set (oids idx)) \<and> (\<forall>i. res = Inr i \<longrightarrow> o' \<in> set (oids idx))
    \<and> crc_offset_cache r' = crc_offset_cache r"
proof -
  have ok: "pack_index_ok idx" "reader_ok sha1 idx r" "\<And>low os. oid_cache r low = Some os \<Longrightarrow> set os \<subseteq> set (oids idx)"
    using assms(1) by (simp_all add: idx_ok_def)
  let ?p = "oid_byte o'"
  show ?thesis
  proof (cases "oid_cache r (fanout_low ?p r)")
    case (Some os)
    then show ?thesis using assms(2) ok(3) search_found by (fastforce simp: find_oid_index_def Let_def)
  next
    case None
    have sub: "set (bucket ?p (oids idx)) \<subseteq> set (oids idx)" by (auto simp: bucket_def dest!: in_set_takeD in_set_dropD)
    obtain rest where "read_vec read_oid (unat (fanout_high ?p r - fanout_low ?p r))
        (drop (unat (PACK_IDX_HEADER_SIZE + FANOUT_SIZE + fanout_low ?p r * 20)) (idx_bytes r)) = Inr (bucket ?p (oids idx), rest)"
      using read_bucket [OF ok(1,2) oid_byte_less] by blast
    then have "res = search_oids o' (fanout_low ?p r) (bucket ?p (oids idx))"
      "r' = r\<lparr>oid_cache := (oid_cache r)(fanout_low ?p r \<mapsto> bucket ?p (oids idx))\<rparr>"
      using assms(2) None by (simp_all add: find_oid_index_def Let_def)
    then show ?thesis using ok(3) sub search_found by (auto split: if_splits)
  qed
qed

lemma find_known_cache:
  assumes "idx_ok sha1 idx r" "find_oid_crc_offset o' r = (res, r')"
  shows "(\<forall>low os. oid_cache r' low = Some os \<longrightarrow> set os \<subseteq> set (oids idx)) \<and> (\<forall>x. res = Inr x \<longrightarrow> o' \<in> set (oids idx))"
proof (cases "crc_offset_cache r o'")
  case (Some x)
  then have "o' \<in> set (oids idx)" using assms(1) unfolding idx_ok_def reader_ok_def by blast
  then show ?thesis using Some assms by (simp add: find_oid_crc_offset_def idx_ok_def)
next
  case None
  obtain r1 ri where f: "find_oid_index o' r = (ri, r1)" by fastforce
  note k = find_index_known [OF assms(1) f]
  have "oid_cache r' = oid_cache r1" "\<And>x. res = Inr x \<Longrightarrow> \<exists>i. ri = Inr i"
    using assms(2) None f by (auto simp: find_oid_crc_offset_def find_oid_crc_offset_inner_def split: sum.splits prod.splits)
  then show ?thesis using k by auto
qed

interpretation pk: pack_lookup "idx_ok sha1 idx" "idx_loc idx" for sha1 idx
proof
  fix r r' o' crc offset
  assume r: "idx_ok sha1 idx r"
  have ok: "pack_index_ok idx" "reader_ok sha1 idx r" "sorted_wrt (<) (oids idx)" "list_all oid_wf (oids idx)"
    using r by (simp_all add: idx_ok_def pack_index_ok_def)
  have found: "\<exists>r'. find_oid_crc_offset o' r = (Inr (crcs idx ! position o' (oids idx), ucast (offsets idx ! position o' (oids idx))), r')
      \<and> idx_ok sha1 idx r'" if o: "o' \<in> set (oids idx)" for o'
  proof -
    have "o' \<noteq> []" using ok(4) o by (auto simp: list_all_iff oid_wf_def OID_SIZE_def)
    then obtain r' where r': "find_oid_crc_offset o' r
        = (Inr (crcs idx ! position o' (oids idx), ucast (offsets idx ! position o' (oids idx))), r')" "reader_ok sha1 idx r'"
      using find_crc_offset_aux [OF ok(1,2) _ bucket_nonempty [OF ok(3,4) o]] o by (auto simp: lookup_outcome_def)
    then have "idx_ok sha1 idx r'" using find_known_cache [OF r r'(1)] ok(1) by (simp add: idx_ok_def)
    then show ?thesis using r'(1) by blast
  qed
  show "idx_loc idx o' = Some offset \<Longrightarrow> \<exists>crc r'. find_oid_crc_offset o' r = (Inr (crc, offset), r') \<and> idx_ok sha1 idx r'"
    using found [of o'] by (auto simp: idx_loc_def split: if_splits)
  assume f: "find_oid_crc_offset o' r = (Inr (crc, offset), r')"
  then have "o' \<in> set (oids idx)" using find_known_cache [OF r f] by blast
  then show "idx_loc idx o' = Some offset \<and> idx_ok sha1 idx r'" using found [of o'] f by (auto simp: idx_loc_def)
qed

text \<open>
  C26. Reading an object of a pack, through chains of offset and reference deltas and through the cache.
  When the index file belongs to the pack and everything cached so far was read from it, reading at an
  offset gives an object, given enough depth, exactly when the pack holds that object there, and the
  caches stay coherent, so that later reads are right again.
\<close>

theorem read_obj_raw_at_spec:
  assumes "pack_coherent (idx_ok sha1 idx) (idx_loc idx) zlib bs pk"
  shows "(obj_at zlib bs (idx_loc idx) offset raw \<longleftrightarrow> (\<exists>n. fst (read_obj_raw_at n zlib offset pk) = Inr raw))
    \<and> (obj_at zlib bs (idx_loc idx) offset raw \<longrightarrow> (\<exists>n. \<forall>m \<ge> n. fst (read_obj_raw_at m zlib offset pk) = Inr raw))
    \<and> (\<forall>n raw' pk'. read_obj_raw_at n zlib offset pk = (Inr raw', pk') \<longrightarrow> pack_coherent (idx_ok sha1 idx) (idx_loc idx) zlib bs pk')"
proof -
  have fwd: "\<exists>n. \<forall>m \<ge> n. fst (read_obj_raw_at m zlib offset pk) = Inr raw" if "obj_at zlib bs (idx_loc idx) offset raw"
    using pk.read_complete [OF that] assms by (metis fst_conv)
  moreover have "obj_at zlib bs (idx_loc idx) offset raw" if "fst (read_obj_raw_at n zlib offset pk) = Inr raw" for n
    using pk.read_sound [OF assms] that by (metis prod.collapse)
  ultimately show ?thesis using pk.read_sound [OF assms] by blast
qed

section \<open>The indexer\<close>

text \<open>What a reader leaves is an end of what it was given, so reading on and seeking there agree.\<close>

definition tails :: "'a reader \<Rightarrow> bool" where
  "tails m \<longleftrightarrow> (\<forall>bs x r. m bs = Inr (x, r) \<longrightarrow> (\<exists>k. r = drop k bs))"

lemma tails_bind: "tails m \<Longrightarrow> (\<And>x. tails (f x)) \<Longrightarrow> tails (rd_bind m f)"
  unfolding tails_def rd_bind_eq_Inr by (metis drop_drop)

lemma tails_basic: "tails (rd_return x)" "tails (rd_fail e)" "tails (rd_lift res)" "tails read_u8" "tails (read_exact n)"
proof -
  show "tails (rd_return x)" unfolding tails_def by (metis Inr_inject drop0 prod.inject rd_return_apply)
  show "tails (rd_fail e)" by (simp add: tails_def)
  show "tails (rd_lift res)" unfolding tails_def by (cases res) (auto intro: exI [of _ 0])
  show "tails read_u8" by (auto simp: tails_def read_u8_def split: list.splits intro: exI [of _ 1])
  show "tails (read_exact n)" by (auto simp: tails_def read_exact_def split: if_splits)
qed

lemma tails_vec: "tails m \<Longrightarrow> tails (read_vec m n)"
  by (induction n) (auto intro!: tails_bind tails_basic)

lemma tails_loops: "tails (read_le_varint_loop n shift)" "tails (read_offset_loop off b)"
proof -
  have "read_le_varint_loop n shift bs = Inr (x, r) \<Longrightarrow> \<exists>k. r = drop k bs" for n shift bs x r
  proof (induction n shift bs rule: read_le_varint_loop.induct)
    case (2 n shift byte bs)
    then show ?case by (auto simp: Let_def split: if_splits intro: exI [of _ 1]) (metis drop_Suc_Cons)+
  qed simp
  then show "tails (read_le_varint_loop n shift)" by (simp add: tails_def)
  have "read_offset_loop off b bs = Inr (x, r) \<Longrightarrow> \<exists>k. r = drop k bs" for off b bs x r
  proof (induction off b bs rule: read_offset_loop.induct)
    case (1 off b)
    then show ?case by (auto split: if_splits)
  next
    case (2 off b byte bs)
    then show ?case by (auto split: if_splits intro: exI [of _ 0]) (metis drop_Suc_Cons)+
  qed
  then show "tails (read_offset_loop off b)" by (simp add: tails_def)
qed

lemma tails_inflate: "tails (inflate zlib sz)"
  by (auto simp: tails_def inflate_def split: zlib_result.splits if_splits)

lemma tails_header: "tails read_pack_obj_header"
proof -
  have "tails (read_le_varint_with_shift 3)"
    unfolding read_le_varint_with_shift_def Let_def
    by (auto intro!: tails_bind tails_basic tails_loops)
  then show ?thesis unfolding read_pack_obj_header_def by (auto intro!: tails_bind tails_basic split: prod.splits)
qed

lemma tails_pack_obj: "tails (read_pack_obj zlib)"
proof -
  have "tails read_offset" "tails read_oid"
    unfolding read_offset_def read_oid_def Let_def by (auto intro!: tails_bind tails_basic tails_loops)
  then show ?thesis
    unfolding read_pack_obj_def
    by (auto intro!: tails_bind tails_header tails_basic tails_inflate split: prod.splits bit_pack_obj_type.splits)
qed

lemma length_bt_insert:
  "bt_sorted m \<Longrightarrow> length (bt_insert k v m) = (if k \<in> fst ` set m then length m else Suc (length m))"
proof (induction m)
  case (Cons a m)
  obtain j w where a: "a = (j, w)" by (cases a)
  then have "\<forall>i \<in> fst ` set m. j < i" "bt_sorted m" using Cons.prems by (auto simp: bt_sorted_Cons)
  then show ?case using Cons.IH by (auto simp: a)
qed simp

lemma drop_canonical: "drop k bs = drop (length bs - length (drop k bs)) bs"
  by (cases "k \<le> length bs") simp_all

text \<open>
  The state of the indexer behind the objects it has read: every object is what the pack holds at its
  offset, where references are resolved by what was indexed so far.
\<close>

definition indexer_ok :: "zlib \<Rightarrow> (byte list \<Rightarrow> oid) \<Rightarrow> byte list \<Rightarrow> pack_indexer \<times> byte list \<Rightarrow> bool" where
  "indexer_ok zlib sha1 bs s \<longleftrightarrow> (case s of (st, r) \<Rightarrow>
     r = drop (length bs - length r) bs \<and> bt_sorted (sorted_oids st)
     \<and> (\<forall>offset raw. raw_objects st offset = Some raw \<longrightarrow> obj_at zlib bs (oid_to_offset st) offset raw)
     \<and> (\<forall>o' offset. oid_to_offset st o' = Some offset \<longrightarrow>
          (\<exists>raw. obj_at zlib bs (oid_to_offset st) offset raw \<and> pack_obj_oid sha1 raw = o'))
     \<and> (\<forall>o'. map_option fst (bt_get (sorted_oids st) o') = oid_to_offset st o'))"

lemma expand_deltas_at:
  assumes "\<forall>offset raw. raw_objects st offset = Some raw \<longrightarrow> obj_at zlib bs (oid_to_offset st) offset raw"
    and "read_obj_from_offset_raw zlib offset bs = Inr obj" "expand_deltas st obj offset = Inr raw"
  shows "obj_at zlib bs (oid_to_offset st) offset raw"
proof (cases obj)
  case (Raw x)
  then show ?thesis using assms(2,3) by (auto simp: expand_deltas_def intro: at_raw)
next
  case (Ofs d delta)
  then obtain base where "raw_objects st (offset - d) = Some base" "expand_with_delta_bytes base delta = Inr raw"
    using assms(3) by (auto simp: expand_deltas_def and_then_eq_Inr unwrap_def split: option.splits)
  then show ?thesis using assms(1,2) Ofs by (blast intro: at_ofs)
next
  case (Ref o' delta)
  then obtain off base where "oid_to_offset st o' = Some off" "raw_objects st off = Some base" "expand_with_delta_bytes base delta = Inr raw"
    using assms(3) by (auto simp: expand_deltas_def and_then_eq_Inr unwrap_def split: option.splits)
  then show ?thesis using assms(1,2) Ref by (blast intro: at_ref)
qed

lemma index_obj_step:
  assumes "indexer_ok zlib sha1 bs (st, r)" "length bs < 2 ^ 64" "index_obj zlib sha1 crc32 bs (st, r) = Inr (st', r')"
  shows "bt_sorted (sorted_oids st') \<and> length (sorted_oids st') \<le> Suc (length (sorted_oids st))
    \<and> (length (sorted_oids st') = Suc (length (sorted_oids st)) \<longrightarrow> indexer_ok zlib sha1 bs (st', r'))"
proof -
  let ?off = "of_nat (length bs - length r) :: u64"
  have I: "r = drop (length bs - length r) bs" "bt_sorted (sorted_oids st)"
    "\<forall>offset raw. raw_objects st offset = Some raw \<longrightarrow> obj_at zlib bs (oid_to_offset st) offset raw"
    "\<forall>o' offset. oid_to_offset st o' = Some offset \<longrightarrow> (\<exists>raw. obj_at zlib bs (oid_to_offset st) offset raw \<and> pack_obj_oid sha1 raw = o')"
    "\<forall>o'. map_option fst (bt_get (sorted_oids st) o') = oid_to_offset st o'"
    using assms(1) by (simp_all add: indexer_ok_def)
  obtain obj raw crc where o: "read_pack_obj zlib r = Inr (obj, r')" "expand_deltas st obj ?off = Inr raw"
      "st' = \<lparr>raw_objects = (raw_objects st)(?off \<mapsto> raw), oid_to_offset = (oid_to_offset st)(pack_obj_oid sha1 raw \<mapsto> ?off),
             sorted_oids = bt_insert (pack_obj_oid sha1 raw) (?off, crc) (sorted_oids st)\<rparr>"
    using assms(3) by (auto simp: index_obj_def read_pack_obj_with_crc_def and_then_eq_Inr Let_def)
  have "unat ?off = length bs - length r" using assms(2) by (simp add: unat_of_nat)
  then have "read_obj_from_offset_raw zlib ?off bs = Inr obj" using o(1) I(1) by (simp add: read_obj_from_offset_raw_def)
  then have at: "obj_at zlib bs (oid_to_offset st) ?off raw" using expand_deltas_at [OF I(3)] o(2) by blast
  have len: "length (sorted_oids st') \<le> Suc (length (sorted_oids st))" "bt_sorted (sorted_oids st')"
    by (simp_all add: o(3) length_bt_insert [OF I(2)] bt_sorted_insert [OF I(2)])
  have "indexer_ok zlib sha1 bs (st', r')" if "length (sorted_oids st') = Suc (length (sorted_oids st))"
  proof -
    have "pack_obj_oid sha1 raw \<notin> fst ` set (sorted_oids st)" using that by (auto simp: o(3) length_bt_insert [OF I(2)] split: if_splits)
    then have "oid_to_offset st (pack_obj_oid sha1 raw) = None" using I(5) bt_get_None by (metis option.map_disc_iff)
    then have le: "oid_to_offset st \<subseteq>\<^sub>m oid_to_offset st'" by (auto simp: map_le_def o(3) dom_def)
    obtain k where "r' = drop k bs" using tails_pack_obj o(1) I(1) unfolding tails_def by (metis drop_drop)
    then have "r' = drop (length bs - length r') bs" using drop_canonical by blast
    moreover have "obj_at zlib bs (oid_to_offset st') offset x" if "raw_objects st' offset = Some x" for offset x
      using that I(3) at obj_at_mono [OF _ le] by (auto simp: o(3) split: if_splits)
    moreover have "\<exists>x. obj_at zlib bs (oid_to_offset st') offset x \<and> pack_obj_oid sha1 x = o'"
      if t: "oid_to_offset st' o' = Some offset" for o' offset
    proof (cases "o' = pack_obj_oid sha1 raw")
      case True
      then show ?thesis using t obj_at_mono [OF at le] by (auto simp: o(3))
    next
      case False
      then have "oid_to_offset st o' = Some offset" using t by (simp add: o(3))
      then show ?thesis using I(4) obj_at_mono [OF _ le] by blast
    qed
    moreover have "map_option fst (bt_get (sorted_oids st') o') = oid_to_offset st' o'" for o'
      using I(5) by (simp add: o(3) bt_get_insert [OF I(2)])
    ultimately show ?thesis using len(2) by (simp add: indexer_ok_def)
  qed
  then show ?thesis using len by blast
qed

lemma index_objs_ok:
  assumes "indexer_ok zlib sha1 bs (st, r)" "length bs < 2 ^ 64" "index_objs n zlib sha1 crc32 bs (st, r) = Inr (st', r')"
    and "length (sorted_oids st') = length (sorted_oids st) + n"
  shows "indexer_ok zlib sha1 bs (st', r')"
  using assms(1,3,4)
proof (induction n arbitrary: st r)
  case (Suc n)
  obtain st1 r1 where s: "index_obj zlib sha1 crc32 bs (st, r) = Inr (st1, r1)" "index_objs n zlib sha1 crc32 bs (st1, r1) = Inr (st', r')"
    using Suc.prems(2) by (auto simp: and_then_eq_Inr)
  note step = index_obj_step [OF Suc.prems(1) assms(2) s(1)]
  have grow: "length (sorted_oids b) \<le> length (sorted_oids a) + m"
    if "bt_sorted (sorted_oids a)" "index_objs m zlib sha1 crc32 bs (a, x) = Inr (b, y)" for a b x y m
    using that
  proof (induction m arbitrary: a x)
    case (Suc m)
    obtain c z where c: "index_obj zlib sha1 crc32 bs (a, x) = Inr (c, z)" "index_objs m zlib sha1 crc32 bs (c, z) = Inr (b, y)"
      using Suc.prems(2) by (auto simp: and_then_eq_Inr)
    then obtain k v where "sorted_oids c = bt_insert k v (sorted_oids a)"
      by (auto simp: index_obj_def and_then_eq_Inr Let_def)
    then have "bt_sorted (sorted_oids c)" "length (sorted_oids c) \<le> Suc (length (sorted_oids a))"
      using Suc.prems(1) by (simp_all add: bt_sorted_insert length_bt_insert)
    then show ?case using Suc.IH [OF _ c(2)] by simp
  qed simp
  have "length (sorted_oids st') \<le> length (sorted_oids st1) + n" using grow step s(2) by blast
  then have l: "length (sorted_oids st1) = Suc (length (sorted_oids st))" using step Suc.prems(3) by linarith
  then have "indexer_ok zlib sha1 bs (st1, r1)" using step by blast
  then show ?case using Suc.IH [OF _ s(2)] Suc.prems(3) l by simp
qed (simp add: assms)

lemma unat_ucast_u32: "w < MAX_OFFSET \<Longrightarrow> ucast (ucast w :: u32) = (w :: u64)"
proof -
  assume "w < MAX_OFFSET"
  then have "unat w < 2 ^ 32" by (simp add: MAX_OFFSET_def word_less_nat_alt)
  then have "unat (ucast (ucast w :: u32) :: u64) = unat w" by (simp add: unsigned_ucast_eq take_bit_eq_mod unat_mod)
  then show ?thesis by (simp only: word_unat_eq_iff)
qed

lemma index_pack_ok:
  assumes "index_pack zlib sha1 crc32 bs = Inr idx" "\<forall>x. oid_wf (sha1 x)" "length bs < 2 ^ 64"
    and "parse_pack_header bs = Inr (objectc, r0)" "length (oids idx) = unat objectc"
  shows "pack_index_ok idx" "o' \<in> set (oids idx) \<Longrightarrow>
    \<exists>offset raw. idx_loc idx o' = Some offset \<and> obj_at zlib bs (idx_loc idx) offset raw \<and> pack_obj_oid sha1 raw = o'"
proof -
  let ?init = "\<lparr>raw_objects = Map.empty, oid_to_offset = Map.empty, sorted_oids = []\<rparr> :: pack_indexer"
  obtain st r where st: "index_objs (unat objectc) zlib sha1 crc32 bs (?init, r0) = Inr (st, r)"
      "list_all (\<lambda>(_, offset, _). offset < MAX_OFFSET) (sorted_oids st)"
      "idx = \<lparr>fanout = build_fanout (map fst (sorted_oids st)), oids = map fst (sorted_oids st), crcs = map (\<lambda>(_, _, crc). crc) (sorted_oids st),
        offsets = map (\<lambda>(_, offset, _). ucast offset) (sorted_oids st), pack_hash = sha1 (take (length bs - length r) bs)\<rparr>"
    using assms(1,4) by (auto simp: index_pack_def and_then_eq_Inr Let_def ensure_eq_Inr split: prod.splits)
  have "tails parse_pack_header"
    unfolding parse_pack_header_def read_u32_def
    by (auto intro!: tails_bind tails_basic tails_vec)
  then obtain k where "r0 = drop k bs" using assms(4) unfolding tails_def by blast
  then have "r0 = drop (length bs - length r0) bs" using drop_canonical by blast
  then have init: "indexer_ok zlib sha1 bs (?init, r0)" by (simp add: indexer_ok_def)
  have len: "length (sorted_oids st) = unat objectc" using assms(5) by (simp add: st(3))
  have I: "bt_sorted (sorted_oids st)" "\<And>o' offset. oid_to_offset st o' = Some offset \<Longrightarrow>
      \<exists>raw. obj_at zlib bs (oid_to_offset st) offset raw \<and> pack_obj_oid sha1 raw = o'"
    "\<And>o'. map_option fst (bt_get (sorted_oids st) o') = oid_to_offset st o'"
    using index_objs_ok [OF init assms(3) st(1)] len by (simp_all add: indexer_ok_def)
  have mem: "\<exists>offset. oid_to_offset st o' = Some offset" if "o' \<in> set (oids idx)" for o'
  proof -
    have "bt_get (sorted_oids st) o' \<noteq> None" using that bt_get_None [of "sorted_oids st" o'] by (simp add: st(3))
    then show ?thesis using I(3) [of o'] by (metis not_None_eq option.map_disc_iff)
  qed
  have wf: "list_all oid_wf (oids idx)"
    using mem I(2) assms(2) unfolding list_all_iff pack_obj_oid_def by metis
  have srt: "sorted_wrt (<) (oids idx)" using I(1) by (simp add: st(3) bt_sorted_def)
  have "list_all (\<lambda>x. (ucast x :: u64) \<le> MAX_OFFSET) (offsets idx)"
    using st(2) unat_ucast_u32 by (auto simp: st(3) list_all_iff order.strict_implies_order)
  then show ok: "pack_index_ok idx"
    using wf srt assms(2) len unat_u32_less [of objectc] by (simp add: pack_index_ok_def st(3))
  have "idx_loc idx x = oid_to_offset st x" for x
  proof (cases "x \<in> set (oids idx)")
    case True
    let ?i = "position x (oids idx)"
    have i: "?i < length (sorted_oids st)" "fst (sorted_oids st ! ?i) = x"
      using position_less [OF srt True] by (auto simp: st(3))
    obtain offset crc where e: "sorted_oids st ! ?i = (x, offset, crc)" using i(2) by (metis prod.collapse)
    then have in_st: "(x, offset, crc) \<in> set (sorted_oids st)" using i(1) by (metis nth_mem)
    then have "bt_get (sorted_oids st) x = Some (offset, crc)" using bt_mem_get [OF I(1)] by blast
    then have "oid_to_offset st x = Some offset" using I(3) [of x] by simp
    moreover have "offset < MAX_OFFSET" using st(2) in_st by (auto simp: list_all_iff)
    then have "ucast (offsets idx ! ?i) = offset" using i(1) e unat_ucast_u32 by (simp add: st(3))
    ultimately show ?thesis using True by (simp add: idx_loc_def)
  next
    case False
    then have "bt_get (sorted_oids st) x = None" by (simp add: bt_get_None st(3))
    then show ?thesis using False I(3) [of x] by (simp add: idx_loc_def)
  qed
  then have "idx_loc idx = oid_to_offset st" by blast
  then show "o' \<in> set (oids idx) \<Longrightarrow>
    \<exists>offset raw. idx_loc idx o' = Some offset \<and> obj_at zlib bs (idx_loc idx) offset raw \<and> pack_obj_oid sha1 raw = o'"
    using mem I(2) by metis
qed

lemma pack_opened:
  assumes "pack_index_ok idx" "parse_pack_header bs = Inr (objectc, r0)"
  shows "\<exists>pk. pack_new bs (pack_index_serialize sha1 idx) = Inr pk \<and> pack_coherent (idx_ok sha1 idx) (idx_loc idx) zlib bs pk"
proof -
  obtain r where r: "pack_index_reader_new (pack_index_serialize sha1 idx) = Inr r" "reader_ok sha1 idx r" "oid_cache r = Map.empty"
    using reader_new_ok [OF assms(1)] by blast
  then show ?thesis using assms by (simp add: pack_new_def pack_coherent_def idx_ok_def)
qed


section \<open>Headers of objects\<close>

fun entry_size :: "bit_pack_obj_raw_deltified \<Rightarrow> nat" where
  "entry_size (Raw raw) = length (raw_bytes raw)"
| "entry_size (Ofs d delta_bytes) = length delta_bytes"
| "entry_size (Ref base_oid delta_bytes) = length delta_bytes"

lemma inflate_length: "inflate zlib sz bs = Inr (out, r) \<Longrightarrow> length out = unat sz"
  by (auto simp: inflate_def split: zlib_result.splits if_splits)

lemma entry_header:
  assumes "read_obj_from_offset_raw zlib offset bs = Inr obj"
  obtains ty sz r where "read_header_from_offset offset bs = Inr ((ty, sz), r)" "unat sz = entry_size obj"
    "\<And>raw. obj = Raw raw \<Longrightarrow> ty \<notin> {OfsDelta, RefDelta} \<and> obj_type_from_pack ty = Inr (raw_obj_type raw)"
    "\<And>d delta_bytes. obj = Ofs d delta_bytes \<Longrightarrow> ty = OfsDelta \<and> (\<exists>r'. read_offset r = Inr (d, r'))"
    "\<And>o' delta_bytes. obj = Ref o' delta_bytes \<Longrightarrow> ty = RefDelta \<and> (\<exists>r'. read_oid r = Inr (o', r'))"
proof -
  obtain ty sz r rest where h: "read_pack_obj_header (drop (unat offset) bs) = Inr ((ty, sz), r)"
    and b: "(case ty of
         OfsDelta \<Rightarrow> rd_bind read_offset (\<lambda>offset. rd_bind (inflate zlib sz) (\<lambda>d. rd_return (Ofs offset d)))
       | RefDelta \<Rightarrow> rd_bind read_oid (\<lambda>base. rd_bind (inflate zlib sz) (\<lambda>d. rd_return (Ref base d)))
       | _ \<Rightarrow> rd_bind (rd_lift (obj_type_from_pack ty)) (\<lambda>ty.
              rd_bind (inflate zlib sz) (\<lambda>bytes. rd_return (Raw \<lparr>raw_obj_type = ty, raw_bytes = bytes\<rparr>)))) r = Inr (obj, rest)"
    using assms by (auto simp: read_obj_from_offset_raw_def read_pack_obj_def and_then_eq_Inr rd_bind_eq_Inr)
  show thesis
    by (rule that [of ty sz r]; use h b in \<open>cases ty\<close>)
      (auto simp: read_header_from_offset_def rd_bind_eq_Inr dest!: inflate_length)
qed

lemma fst_with_size: "fst (with_size sz x) = and_then (fst x) (\<lambda>h. Inr \<lparr>hdr_obj_type = hdr_obj_type h, hdr_size = sz\<rparr>)"
  by (simp add: with_size_def split: prod.splits)

lemma expand_type: "expand_with_delta_bytes base delta_bytes = Inr raw \<Longrightarrow> raw_obj_type raw = raw_obj_type base"
  by (auto simp: expand_with_delta_bytes_def expand_with_delta_def and_then_eq_Inr)

context pack_lookup
begin

lemma header_complete:
  assumes "obj_at zlib bs loc offset raw" "read_obj_from_offset_raw zlib offset bs = Inr obj"
  shows "\<exists>n. \<forall>m \<ge> n. \<forall>pk. pack_coherent ok loc zlib bs pk \<longrightarrow>
    fst (read_obj_header_at m offset pk) = Inr \<lparr>hdr_obj_type = raw_obj_type raw, hdr_size = of_nat (entry_size obj)\<rparr>"
  using assms
proof (induction arbitrary: obj rule: obj_at.induct)
  case (at_raw offset raw)
  obtain ty sz r where h: "read_header_from_offset offset bs = Inr ((ty, sz), r)" "unat sz = entry_size (Raw raw)"
      "ty \<notin> {OfsDelta, RefDelta}" "obj_type_from_pack ty = Inr (raw_obj_type raw)"
    using entry_header [OF at_raw.hyps] by metis
  have "sz = of_nat (entry_size obj)" using h(2) at_raw by (metis Inr_inject of_nat_unat ucast_id)
  then have "fst (read_obj_header_at m offset pk) = Inr \<lparr>hdr_obj_type = raw_obj_type raw, hdr_size = of_nat (entry_size obj)\<rparr>"
    if "1 \<le> m" "pack_coherent ok loc zlib bs pk" for m pk
    using that h by (cases m; cases ty) (auto simp: pack_coherent_def pack_err_def)
  then show ?case by blast
next
  case (at_ofs offset d delta_bytes base raw)
  have obj: "obj = Ofs d delta_bytes" using at_ofs by simp
  obtain sz r r' where h: "read_header_from_offset offset bs = Inr ((OfsDelta, sz), r)" "unat sz = entry_size obj" "read_offset r = Inr (d, r')"
    using entry_header [OF at_ofs.prems] obj by metis
  have sz: "sz = of_nat (entry_size obj)" using h(2) by (metis of_nat_unat ucast_id)
  obtain obj' where "read_obj_from_offset_raw zlib (offset - d) bs = Inr obj'"
    using at_ofs.hyps(2) by (cases rule: obj_at.cases) auto
  then obtain n where n: "\<And>m pk. n \<le> m \<Longrightarrow> pack_coherent ok loc zlib bs pk \<Longrightarrow>
      fst (read_obj_header_at m (offset - d) pk) = Inr \<lparr>hdr_obj_type = raw_obj_type base, hdr_size = of_nat (entry_size obj')\<rparr>"
    using at_ofs.IH by blast
  have "fst (read_obj_header_at m offset pk) = Inr \<lparr>hdr_obj_type = raw_obj_type raw, hdr_size = of_nat (entry_size obj)\<rparr>"
    if c: "Suc n \<le> m" "pack_coherent ok loc zlib bs pk" for m pk
  proof -
    obtain k where k: "m = Suc k" "n \<le> k" using c(1) by (cases m) auto
    have "pack_bytes pk = bs" using c(2) by (simp add: pack_coherent_def)
    then show ?thesis using n [OF k(2) c(2)] h(1,3) expand_type [OF at_ofs.hyps(3)] k(1) sz
      by (simp add: fst_with_size)
  qed
  then show ?case by blast
next
  case (at_ref offset base_oid delta_bytes base_offset base raw)
  have obj: "obj = Ref base_oid delta_bytes" using at_ref by simp
  obtain sz r r' where h: "read_header_from_offset offset bs = Inr ((RefDelta, sz), r)" "unat sz = entry_size obj" "read_oid r = Inr (base_oid, r')"
    using entry_header [OF at_ref.prems] obj by metis
  have sz: "sz = of_nat (entry_size obj)" using h(2) by (metis of_nat_unat ucast_id)
  obtain obj' where "read_obj_from_offset_raw zlib base_offset bs = Inr obj'"
    using at_ref.hyps(3) by (cases rule: obj_at.cases) auto
  then obtain n where n: "\<And>m pk. n \<le> m \<Longrightarrow> pack_coherent ok loc zlib bs pk \<Longrightarrow>
      fst (read_obj_header_at m base_offset pk) = Inr \<lparr>hdr_obj_type = raw_obj_type base, hdr_size = of_nat (entry_size obj')\<rparr>"
    using at_ref.IH by blast
  have "fst (read_obj_header_at m offset pk) = Inr \<lparr>hdr_obj_type = raw_obj_type raw, hdr_size = of_nat (entry_size obj)\<rparr>"
    if c: "Suc n \<le> m" "pack_coherent ok loc zlib bs pk" for m pk
  proof -
    obtain k where k: "m = Suc k" "n \<le> k" using c(1) by (cases m) auto
    have "pack_bytes pk = bs" using c(2) by (simp add: pack_coherent_def)
    moreover obtain crc pk1 where "obj_crc_offset base_oid pk = (Inr (crc, base_offset), pk1)" "pack_coherent ok loc zlib bs pk1"
      using crc_offset_known [OF c(2) at_ref.hyps(2)] by blast
    ultimately show ?thesis using n [OF k(2), of pk1] h(1,3) expand_type [OF at_ref.hyps(4)] k(1) sz
      by (simp add: fst_with_size read_obj_header_via_def)
  qed
  then show ?case by blast
qed

end

text \<open>
  The header of an object of a pack. It has the type of the object, through all deltas; its size is
  that of the entry, which for an object stored as a delta is the size of the delta and not the size of
  the object.
\<close>

theorem read_obj_header_at_spec:
  assumes "pack_coherent (idx_ok sha1 idx) (idx_loc idx) zlib bs pk" "obj_at zlib bs (idx_loc idx) offset raw"
  shows "\<exists>obj n. read_obj_from_offset_raw zlib offset bs = Inr obj \<and> (\<forall>m \<ge> n. fst (read_obj_header_at m offset pk)
      = Inr \<lparr>hdr_obj_type = raw_obj_type raw, hdr_size = of_nat (entry_size obj)\<rparr>)"
proof -
  obtain obj where "read_obj_from_offset_raw zlib offset bs = Inr obj" using assms(2) by (cases rule: obj_at.cases) auto
  then show ?thesis using pk.header_complete [OF assms(2)] assms(1) by blast
qed

section \<open>A pack\<close>

text \<open>A pack of two blobs, the second a delta that appends a byte to the first; nothing is compressed.\<close>

definition stored_zlib :: zlib where
  "stored_zlib cap bs = (if cap \<le> length bs then StreamEnd (take cap bs) cap else Stalled)"

definition tail_sha1 :: "byte list \<Rightarrow> oid" where
  "tail_sha1 bs = take 20 (rev bs @ replicate 20 0)"

definition sample_pack_body :: "byte list" where
  "sample_pack_body = PACK_SIGNATURE @ write_u32 2 @ write_u32 2 @ [0x32, 97, 98] @ [0x66, 3, 2, 3, 0x90, 2, 1, 99]"

definition sample_pack :: "byte list" where
  "sample_pack = sample_pack_body @ tail_sha1 sample_pack_body"

definition sample_pack_state :: "pack_indexer \<times> byte list" where
  "sample_pack_state = projr (index_objs 2 stored_zlib tail_sha1 (\<lambda>_. 7) sample_pack
     (\<lparr>raw_objects = Map.empty, oid_to_offset = Map.empty, sorted_oids = []\<rparr>, drop 12 sample_pack))"

definition sample_pack_oids :: "oid list" where
  "sample_pack_oids = [[98, 97, 0, 50, 32, 98, 111, 108, 98, 0, 0, 0, 0, 0, 0, 0, 0, 0, 0, 0],
     [99, 98, 97, 0, 51, 32, 98, 111, 108, 98, 0, 0, 0, 0, 0, 0, 0, 0, 0, 0]]"

definition sample_pack_idx :: pack_index where
  "sample_pack_idx = \<lparr>fanout = build_fanout sample_pack_oids, oids = sample_pack_oids, crcs = [7, 7], offsets = [12, 15],
     pack_hash = tail_sha1 sample_pack_body\<rparr>"

lemma sample_pack_state_facts:
  "index_objs 2 stored_zlib tail_sha1 (\<lambda>_. 7) sample_pack
     (\<lparr>raw_objects = Map.empty, oid_to_offset = Map.empty, sorted_oids = []\<rparr>, drop 12 sample_pack) = Inr sample_pack_state"
  "sorted_oids (fst sample_pack_state) = zip sample_pack_oids [(12, 7), (15, 7)]"
  "snd sample_pack_state = tail_sha1 sample_pack_body"
proof -
  have "\<not> isl (index_objs 2 stored_zlib tail_sha1 (\<lambda>_. 7) sample_pack
     (\<lparr>raw_objects = Map.empty, oid_to_offset = Map.empty, sorted_oids = []\<rparr>, drop 12 sample_pack))" by code_simp
  then show "index_objs 2 stored_zlib tail_sha1 (\<lambda>_. 7) sample_pack
     (\<lparr>raw_objects = Map.empty, oid_to_offset = Map.empty, sorted_oids = []\<rparr>, drop 12 sample_pack) = Inr sample_pack_state"
    by (simp add: sample_pack_state_def)
  show "sorted_oids (fst sample_pack_state) = zip sample_pack_oids [(12, 7), (15, 7)]" by code_simp
  show "snd sample_pack_state = tail_sha1 sample_pack_body" by code_simp
qed

lemma sample_pack_facts:
  "length sample_pack = 43" "length sample_pack_body = 23" "parse_pack_header sample_pack = Inr (2, drop 12 sample_pack)"
  by code_simp+

lemma tail_sha1_wf: "oid_wf (tail_sha1 x)"
  by (simp add: tail_sha1_def oid_wf_def OID_SIZE_def)

lemma sample_pack_indexed: "index_pack stored_zlib tail_sha1 (\<lambda>_. 7) sample_pack = Inr sample_pack_idx"
proof -
  obtain st r where st: "sample_pack_state = (st, r)" by fastforce
  have "sorted_oids st = zip sample_pack_oids [(12, 7), (15, 7)]" and r: "r = tail_sha1 sample_pack_body"
    using sample_pack_state_facts(2,3) by (simp_all add: st)
  then have "sorted_oids st = [(hd sample_pack_oids, 12, 7), (hd (tl sample_pack_oids), 15, 7)]" by (simp add: sample_pack_oids_def)
  moreover have "length r = 20" using tail_sha1_wf by (simp add: r oid_wf_def OID_SIZE_def)
  moreover have "take (length sample_pack - 20) sample_pack = sample_pack_body"
    using sample_pack_facts by (simp add: sample_pack_def)
  moreover have "read_oid r = Inr (r, [])" using \<open>length r = 20\<close> by (simp add: read_oid_def read_exact_def)
  ultimately show ?thesis
    using sample_pack_state_facts(1)
    by (simp add: index_pack_def sample_pack_facts(3) st r MAX_OFFSET_def sample_pack_idx_def sample_pack_oids_def Let_def)
qed

lemma sample_pack_conditions:
  "\<forall>x. oid_wf (tail_sha1 x)" "length sample_pack < 2 ^ 64" "length (oids sample_pack_idx) = unat (2 :: u32)"
  by (simp_all add: tail_sha1_wf sample_pack_facts sample_pack_idx_def sample_pack_oids_def)

lemmas sample_pack_ok = index_pack_ok [OF sample_pack_indexed sample_pack_conditions(1,2) sample_pack_facts(3) sample_pack_conditions(3)]

lemma sample_pack_second:
  "obj_at stored_zlib sample_pack loc 15 \<lparr>raw_obj_type = Blob, raw_bytes = [97, 98, 99]\<rparr>"
  "read_obj_from_offset_raw stored_zlib 15 sample_pack = Inr (Ofs 3 [2, 3, 0x90, 2, 1, 99])"
proof -
  have "read_obj_from_offset_raw stored_zlib 12 sample_pack = Inr (Raw \<lparr>raw_obj_type = Blob, raw_bytes = [97, 98]\<rparr>)" by code_simp
  then have base: "obj_at stored_zlib sample_pack loc (15 - 3) \<lparr>raw_obj_type = Blob, raw_bytes = [97, 98]\<rparr>" by (simp add: at_raw)
  show *: "read_obj_from_offset_raw stored_zlib 15 sample_pack = Inr (Ofs 3 [2, 3, 0x90, 2, 1, 99])" by code_simp
  have "expand_with_delta_bytes \<lparr>raw_obj_type = Blob, raw_bytes = [97, 98]\<rparr> [2, 3, 0x90, 2, 1, 99]
      = Inr \<lparr>raw_obj_type = Blob, raw_bytes = [97, 98, 99]\<rparr>" by code_simp
  then show "obj_at stored_zlib sample_pack loc 15 \<lparr>raw_obj_type = Blob, raw_bytes = [97, 98, 99]\<rparr>"
    by (rule at_ofs [OF * base])
qed


theorem read_obj_raw_at_spec_witness:
  "\<exists>pk n. pack_new sample_pack (pack_index_serialize tail_sha1 sample_pack_idx) = Inr pk
     \<and> fst (read_obj_raw_at n stored_zlib 15 pk) = Inr \<lparr>raw_obj_type = Blob, raw_bytes = [97, 98, 99]\<rparr>"
proof -
  obtain pk where pk: "pack_new sample_pack (pack_index_serialize tail_sha1 sample_pack_idx) = Inr pk"
      "pack_coherent (idx_ok tail_sha1 sample_pack_idx) (idx_loc sample_pack_idx) stored_zlib sample_pack pk"
    using pack_opened [OF sample_pack_ok(1) sample_pack_facts(3)] by blast
  then show ?thesis using read_obj_raw_at_spec [OF pk(2)] sample_pack_second(1) by blast
qed

theorem read_obj_header_at_spec_witness:
  "\<exists>pk n. pack_new sample_pack (pack_index_serialize tail_sha1 sample_pack_idx) = Inr pk
     \<and> fst (read_obj_header_at n 15 pk) = Inr \<lparr>hdr_obj_type = Blob, hdr_size = 6\<rparr>"
proof -
  obtain pk where pk: "pack_new sample_pack (pack_index_serialize tail_sha1 sample_pack_idx) = Inr pk"
      "pack_coherent (idx_ok tail_sha1 sample_pack_idx) (idx_loc sample_pack_idx) stored_zlib sample_pack pk"
    using pack_opened [OF sample_pack_ok(1) sample_pack_facts(3)] by blast
  obtain obj n where "read_obj_from_offset_raw stored_zlib 15 sample_pack = Inr obj" "\<forall>m \<ge> n. fst (read_obj_header_at m 15 pk)
      = Inr \<lparr>hdr_obj_type = Blob, hdr_size = of_nat (entry_size obj)\<rparr>"
    using read_obj_header_at_spec [OF pk(2) sample_pack_second(1)] by auto
  then show ?thesis using pk(1) sample_pack_second(2) by force
qed

end
