(* ===== verification/Bit_Revwalk.thy ===== *)
theory Bit_Revwalk
  imports Bit_Commit "HOL-Library.Multiset"
begin

text \<open>
  The walk over the commit graph, \<^verbatim>\<open>libbit/src/rev/revwalk.rs\<close>: a priority queue of commits, the
  youngest first, with flags per object id. The heap of the standard library is a list from which the
  greatest element is taken; the object database is the parameter \<open>rd\<close> (\<open>read_obj_commit\<close>).
\<close>

section \<open>Model: nodes and their order\<close>

type_synonym commit_obj = "oid \<times> mutable_commit"

datatype commit_node = CommitNode (node_commit: commit_obj) (node_index: nat)

definition bit_time_cmp :: "bit_time \<Rightarrow> bit_time \<Rightarrow> ordering" where
  "bit_time_cmp a b = then_with (ord_cmp (time a) (time b)) (ord_cmp (offset a) (offset b))"

definition commit_time :: "commit_obj \<Rightarrow> bit_time" where
  "commit_time c = sig_time (committer (snd c))"

text \<open>The youngest commit is the greatest, then the lowest index; two nodes that are equal in both are a bug.\<close>

definition node_cmp :: "commit_node \<Rightarrow> commit_node \<Rightarrow> ordering" where
  "node_cmp a b =
     then_with (bit_time_cmp (commit_time (node_commit a)) (commit_time (node_commit b)))
       (ord_cmp (node_index b) (node_index a))"

fun heap_max :: "commit_node \<Rightarrow> commit_node list \<Rightarrow> commit_node" where
  "heap_max m [] = m"
| "heap_max m (x # xs) = heap_max (if node_cmp m x = Less then x else m) xs"

definition heap_pop :: "commit_node list \<Rightarrow> (commit_node \<times> commit_node list) option" where
  "heap_pop q = (case q of [] \<Rightarrow> None | x # xs \<Rightarrow> let m = heap_max x xs in Some (m, remove1 m q))"

section \<open>Model: the walk\<close>

record commit_node_flags =
  YIELDED :: bool
  ENQUEUED :: bool
  UNINTERESTING :: bool

definition no_flags :: commit_node_flags where
  "no_flags = \<lparr>YIELDED = False, ENQUEUED = False, UNINTERESTING = False\<rparr>"

definition uninteresting_flags :: commit_node_flags where
  "uninteresting_flags = no_flags\<lparr>UNINTERESTING := True\<rparr>"

record revwalk =
  flags_map :: "oid \<rightharpoonup> commit_node_flags"
  pqueue :: "commit_node list"
  next_idx :: nat

definition flags_of :: "revwalk \<Rightarrow> oid \<Rightarrow> commit_node_flags" where
  "flags_of w o' = (case flags_map w o' of Some f \<Rightarrow> f | None \<Rightarrow> no_flags)"

definition insert_flags :: "commit_node_flags \<Rightarrow> commit_node_flags \<Rightarrow> commit_node_flags" where
  "insert_flags f g =
     \<lparr>YIELDED = (YIELDED f \<or> YIELDED g), ENQUEUED = (ENQUEUED f \<or> ENQUEUED g), UNINTERESTING = (UNINTERESTING f \<or> UNINTERESTING g)\<rparr>"

definition add_flags :: "oid \<Rightarrow> commit_node_flags \<Rightarrow> revwalk \<Rightarrow> revwalk" where
  "add_flags o' g w = w\<lparr>flags_map := (flags_map w)(o' \<mapsto> insert_flags (flags_of w o') g)\<rparr>"

definition empty_walk :: revwalk where
  "empty_walk = \<lparr>flags_map = Map.empty, pqueue = [], next_idx = 0\<rparr>"

definition mk_node :: "commit_obj \<Rightarrow> revwalk \<Rightarrow> commit_node \<times> revwalk" where
  "mk_node c w = (CommitNode c (next_idx w), w\<lparr>next_idx := Suc (next_idx w)\<rparr>)"

definition enqueue_commit_with_flags :: "commit_obj \<Rightarrow> commit_node_flags \<Rightarrow> revwalk \<Rightarrow> revwalk" where
  "enqueue_commit_with_flags c init w =
     (let f = flags_of w (fst c) in
      if ENQUEUED f \<or> YIELDED f then add_flags (fst c) no_flags w
      else let w = add_flags (fst c) (insert_flags init (no_flags\<lparr>ENQUEUED := True\<rparr>)) w;
               (node, w) = mk_node c w
           in w\<lparr>pqueue := node # pqueue w\<rparr>)"

definition enqueue_commit :: "commit_obj \<Rightarrow> revwalk \<Rightarrow> revwalk" where
  "enqueue_commit c w = enqueue_commit_with_flags c no_flags w"

definition mark_parents_uninteresting :: "commit_node \<Rightarrow> revwalk \<Rightarrow> revwalk" where
  "mark_parents_uninteresting node w =
     foldl (\<lambda>w p. add_flags p uninteresting_flags w) w (parents (snd (node_commit node)))"

text \<open>\<open>RevWalkBuilder::build\<close>: the excluded commits first, then the roots. \<open>RevWalk::new\<close> has roots only,
  and takes the repository of the first.\<close>

definition revwalk_build :: "commit_obj list \<Rightarrow> commit_obj list \<Rightarrow> revwalk" where
  "revwalk_build exclude roots =
     foldl (\<lambda>w c. enqueue_commit c w)
       (foldl (\<lambda>w c. enqueue_commit_with_flags c uninteresting_flags w) empty_walk exclude) roots"

definition revwalk_new :: "commit_obj list \<Rightarrow> revwalk bit_result" where
  "revwalk_new roots = (if roots = [] then Inl Panic else Inr (foldl (\<lambda>w c. enqueue_commit c w) empty_walk roots))"

definition walk_commits :: "commit_obj list \<Rightarrow> revwalk bit_result" where
  "walk_commits roots = and_then (ensure (roots \<noteq> []) (Bail ''no roots'')) (\<lambda>_. revwalk_new roots)"

definition still_interesting :: "revwalk \<Rightarrow> bool" where
  "still_interesting w = list_ex (\<lambda>n. \<not> UNINTERESTING (flags_of w (fst (node_commit n)))) (pqueue w)"

fun enqueue_parents :: "(oid \<Rightarrow> commit_obj bit_result) \<Rightarrow> oid list \<Rightarrow> revwalk \<Rightarrow> unit bit_result \<times> revwalk" where
  "enqueue_parents rd [] w = (Inr (), w)"
| "enqueue_parents rd (p # ps) w =
     (case rd p of Inl e \<Rightarrow> (Inl e, w) | Inr c \<Rightarrow> enqueue_parents rd ps (enqueue_commit c w))"

text \<open>One round of the loop: the end, an error, a commit to yield, or another round.\<close>

datatype walk_step = Finished | Failed bit_error revwalk | Yield commit_obj revwalk | Again revwalk

definition revwalk_round :: "(oid \<Rightarrow> commit_obj bit_result) \<Rightarrow> revwalk \<Rightarrow> walk_step" where
  "revwalk_round rd w =
     (if \<not> still_interesting w then Finished
      else case heap_pop (pqueue w) of
          None \<Rightarrow> Finished
        | Some (node, q) \<Rightarrow>
            (case enqueue_parents rd (parents (snd (node_commit node))) (w\<lparr>pqueue := q\<rparr>) of
               (Inl e, w) \<Rightarrow> Failed e w
             | (Inr _, w) \<Rightarrow>
                 let o' = fst (node_commit node); w = add_flags o' (no_flags\<lparr>YIELDED := True\<rparr>) w
                 in if UNINTERESTING (flags_of w o') then Again (mark_parents_uninteresting node w)
                    else Yield (node_commit node) w))"

fun revwalk_next :: "nat \<Rightarrow> (oid \<Rightarrow> commit_obj bit_result) \<Rightarrow> revwalk \<Rightarrow> commit_obj option bit_result \<times> revwalk" where
  "revwalk_next 0 rd w = (Inl Diverge, w)"
| "revwalk_next (Suc fuel) rd w =
     (case revwalk_round rd w of
        Finished \<Rightarrow> (Inr None, w)
      | Failed e w \<Rightarrow> (Inl e, w)
      | Yield c w \<Rightarrow> (Inr (Some c), w)
      | Again w \<Rightarrow> revwalk_next fuel rd w)"

text \<open>The commits an exhaustive iteration sees.\<close>

fun walk_collect :: "nat \<Rightarrow> nat \<Rightarrow> (oid \<Rightarrow> commit_obj bit_result) \<Rightarrow> revwalk \<Rightarrow> commit_obj list bit_result" where
  "walk_collect 0 fuel rd w = Inl Diverge"
| "walk_collect (Suc n) fuel rd w =
     (case revwalk_next fuel rd w of
        (Inl e, w) \<Rightarrow> Inl e
      | (Inr None, w) \<Rightarrow> Inr []
      | (Inr (Some c), w) \<Rightarrow> and_then (walk_collect n fuel rd w) (\<lambda>cs. Inr (c # cs)))"

section \<open>The heap\<close>

text \<open>What the walk relies on: the queue gives its elements back, a greatest one first.\<close>

locale max_queue =
  fixes pop :: "'q \<Rightarrow> ('a \<times> 'q) option" and elems :: "'q \<Rightarrow> 'a multiset" and rank :: "'a \<Rightarrow> 'k::linorder"
  assumes pop_None: "pop q = None \<longleftrightarrow> elems q = {#}"
    and pop_elems: "pop q = Some (m, q') \<Longrightarrow> elems q = add_mset m (elems q')"
    and pop_max: "pop q = Some (m, q') \<Longrightarrow> x \<in># elems q \<Longrightarrow> rank x \<le> rank m"
begin

lemma pop_member: "pop q = Some (m, q') \<Longrightarrow> m \<in># elems q"
  by (simp add: pop_elems)

lemma pop_rest: "pop q = Some (m, q') \<Longrightarrow> x \<in># elems q' \<Longrightarrow> x \<in># elems q \<and> rank x \<le> rank m"
  using pop_elems [of q m q'] pop_max [of q m q' x] by simp

lemma pop_exists: "elems q \<noteq> {#} \<Longrightarrow> \<exists>m q'. pop q = Some (m, q')"
  using pop_None [of q] by (cases "pop q") auto

end

definition time_key :: "bit_time \<Rightarrow> int \<times> int" where
  "time_key t = (time t, offset t)"

definition node_time :: "commit_node \<Rightarrow> int \<times> int" where
  "node_time n = time_key (commit_time (node_commit n))"

lemma bit_time_cmp_key: "bit_time_cmp a b = ord_cmp (time_key a) (time_key b)"
  by (auto simp: bit_time_cmp_def time_key_def ord_cmp_def)

lemma node_cmp_time:
  "node_cmp a b = Less \<Longrightarrow> node_time a \<le> node_time b" "node_cmp a b \<noteq> Less \<Longrightarrow> node_time b \<le> node_time a"
  unfolding node_cmp_def bit_time_cmp_key node_time_def then_with_eq by (auto simp del: less_eq_prod_simp less_prod_simp)

lemma heap_max_mem: "heap_max m xs \<in> set (m # xs)"
  by (induction xs arbitrary: m) (auto split: if_splits)

lemma heap_max_ge: "x \<in> set (m # xs) \<Longrightarrow> node_time x \<le> node_time (heap_max m xs)"
proof (induction xs arbitrary: m x)
  case (Cons y ys)
  let ?m = "if node_cmp m y = Less then y else m"
  have up: "node_time ?m \<le> node_time (heap_max ?m ys)" by (rule Cons.IH) simp
  have "node_time m \<le> node_time ?m" "node_time y \<le> node_time ?m" using node_cmp_time [of m y] by auto
  then show ?case using Cons.prems Cons.IH [of x ?m] up by (auto intro: order_trans)
qed simp

interpretation heap: max_queue heap_pop mset node_time
proof
  fix q q' :: "commit_node list" and m x
  show "heap_pop q = None \<longleftrightarrow> mset q = {#}" by (cases q) (simp_all add: heap_pop_def Let_def)
  assume p: "heap_pop q = Some (m, q')"
  then obtain y ys where q: "q = y # ys" "m = heap_max y ys" "q' = remove1 m q"
    by (cases q) (auto simp: heap_pop_def Let_def)
  have "m \<in> set q" using heap_max_mem [of y ys] by (simp add: q)
  then show "mset q = add_mset m (mset q')" by (simp add: q(3))
  show "x \<in># mset q \<Longrightarrow> node_time x \<le> node_time m" using heap_max_ge [of x y ys] by (simp add: q)
qed

section \<open>Flags\<close>

definition enq :: "revwalk \<Rightarrow> oid set" where "enq w = {x. ENQUEUED (flags_of w x)}"
definition yld :: "revwalk \<Rightarrow> oid set" where "yld w = {x. YIELDED (flags_of w x)}"
definition unint :: "revwalk \<Rightarrow> oid set" where "unint w = {x. UNINTERESTING (flags_of w x)}"

definition node_oid :: "commit_node \<Rightarrow> oid" where "node_oid n = fst (node_commit n)"

definition qoids :: "revwalk \<Rightarrow> oid set" where "qoids w = node_oid ` set (pqueue w)"

lemma flags_of_add [simp]:
  "flags_of (add_flags x g w) y = (if y = x then insert_flags (flags_of w x) g else flags_of w y)"
  by (simp add: flags_of_def add_flags_def)

lemma pqueue_add [simp]: "pqueue (add_flags x g w) = pqueue w" "next_idx (add_flags x g w) = next_idx w"
  by (simp_all add: add_flags_def)

lemma flags_of_queue [simp]:
  "flags_of (w\<lparr>pqueue := q\<rparr>) y = flags_of w y" "flags_of (w\<lparr>next_idx := i\<rparr>) y = flags_of w y"
  by (simp_all add: flags_of_def)

lemma insert_flags_simps [simp]:
  "YIELDED (insert_flags f g) = (YIELDED f \<or> YIELDED g)" "ENQUEUED (insert_flags f g) = (ENQUEUED f \<or> ENQUEUED g)"
  "UNINTERESTING (insert_flags f g) = (UNINTERESTING f \<or> UNINTERESTING g)"
  by (simp_all add: insert_flags_def)

lemma flag_consts [simp]:
  "\<not> YIELDED no_flags" "\<not> ENQUEUED no_flags" "\<not> UNINTERESTING no_flags"
  "\<not> YIELDED uninteresting_flags" "\<not> ENQUEUED uninteresting_flags" "UNINTERESTING uninteresting_flags"
  by (simp_all add: no_flags_def uninteresting_flags_def)

lemma insert_no_flags [simp]: "insert_flags f no_flags = f"
  by (simp add: insert_flags_def)

lemma mark_parents_effect:
  "enq (mark_parents_uninteresting n w) = enq w" "yld (mark_parents_uninteresting n w) = yld w"
  "unint (mark_parents_uninteresting n w) = unint w \<union> set (parents (snd (node_commit n)))"
  "pqueue (mark_parents_uninteresting n w) = pqueue w" "next_idx (mark_parents_uninteresting n w) = next_idx w"
proof -
  have "enq (foldl (\<lambda>w p. add_flags p uninteresting_flags w) w ps) = enq w
    \<and> yld (foldl (\<lambda>w p. add_flags p uninteresting_flags w) w ps) = yld w
    \<and> unint (foldl (\<lambda>w p. add_flags p uninteresting_flags w) w ps) = unint w \<union> set ps
    \<and> pqueue (foldl (\<lambda>w p. add_flags p uninteresting_flags w) w ps) = pqueue w
    \<and> next_idx (foldl (\<lambda>w p. add_flags p uninteresting_flags w) w ps) = next_idx w" for ps
    by (induction ps arbitrary: w) (auto simp: enq_def yld_def unint_def)
  then show "enq (mark_parents_uninteresting n w) = enq w" "yld (mark_parents_uninteresting n w) = yld w"
    "unint (mark_parents_uninteresting n w) = unint w \<union> set (parents (snd (node_commit n)))"
    "pqueue (mark_parents_uninteresting n w) = pqueue w" "next_idx (mark_parents_uninteresting n w) = next_idx w"
    by (simp_all add: mark_parents_uninteresting_def)
qed

section \<open>The graph\<close>

definition parents_of :: "(oid \<Rightarrow> commit_obj bit_result) \<Rightarrow> oid \<Rightarrow> oid set" where
  "parents_of rd x = (case rd x of Inl _ \<Rightarrow> {} | Inr c \<Rightarrow> set (parents (snd c)))"

definition time_of :: "(oid \<Rightarrow> commit_obj bit_result) \<Rightarrow> oid \<Rightarrow> int \<times> int" where
  "time_of rd x = (case rd x of Inl _ \<Rightarrow> (0, 0) | Inr c \<Rightarrow> time_key (commit_time c))"

text \<open>The commits of \<open>A\<close> and all their ancestors.\<close>

inductive ancestor :: "(oid \<Rightarrow> commit_obj bit_result) \<Rightarrow> oid set \<Rightarrow> oid \<Rightarrow> bool" for rd A where
  anc_root: "x \<in> A \<Longrightarrow> ancestor rd A x"
| anc_parent: "ancestor rd A x \<Longrightarrow> p \<in> parents_of rd x \<Longrightarrow> ancestor rd A p"

declare ancestor.intros [intro]

lemma ancestor_mono: "ancestor rd A x \<Longrightarrow> A \<subseteq> B \<Longrightarrow> ancestor rd B x"
  by (induction rule: ancestor.induct) auto

lemma ancestor_Un: "ancestor rd (A \<union> B) x \<longleftrightarrow> ancestor rd A x \<or> ancestor rd B x"
proof
  assume "ancestor rd (A \<union> B) x"
  then show "ancestor rd A x \<or> ancestor rd B x" by (induction rule: ancestor.induct) auto
qed (auto intro: ancestor_mono)

definition queue_ok :: "(oid \<Rightarrow> commit_obj bit_result) \<Rightarrow> oid set \<Rightarrow> oid set \<Rightarrow> revwalk \<Rightarrow> bool" where
  "queue_ok rd S X w \<longleftrightarrow>
     distinct (map node_oid (pqueue w))
     \<and> (\<forall>n \<in> set (pqueue w). node_oid n \<in> S \<and> rd (node_oid n) = Inr (node_commit n))
     \<and> enq w = qoids w \<union> yld w \<union> X \<and> qoids w \<inter> (yld w \<union> X) = {}"

lemma enqueue_effect:
  assumes "queue_ok rd S X w" "rd x = Inr c" "fst c = x" "x \<in> S" "\<not> YIELDED init" "\<not> ENQUEUED init"
  defines "w' \<equiv> enqueue_commit_with_flags c init w"
  shows "queue_ok rd S X w'" "enq w' = insert x (enq w)" "yld w' = yld w"
    "unint w' = unint w \<union> (if x \<in> enq w \<or> \<not> UNINTERESTING init then {} else {x})"
    "qoids w' = qoids w \<union> ({x} - enq w)"
proof -
  have sub: "yld w \<subseteq> enq w" using assms(1) by (auto simp: queue_ok_def)
  have facts: "enq w' = insert x (enq w) \<and> yld w' = yld w
    \<and> unint w' = unint w \<union> (if x \<in> enq w \<or> \<not> UNINTERESTING init then {} else {x})
    \<and> qoids w' = qoids w \<union> ({x} - enq w)
    \<and> (if x \<in> enq w then pqueue w' = pqueue w else pqueue w' = CommitNode c (next_idx w) # pqueue w)"
  proof (cases "x \<in> enq w")
    case True
    then have "w' = add_flags x no_flags w"
      using assms(3) by (simp add: w'_def enqueue_commit_with_flags_def enq_def)
    then show ?thesis using True by (auto simp: enq_def yld_def unint_def qoids_def)
  next
    case False
    then have nf: "\<not> ENQUEUED (flags_of w x)" "\<not> YIELDED (flags_of w x)" using sub by (auto simp: enq_def yld_def)
    have w': "w' = (add_flags x (insert_flags init (no_flags\<lparr>ENQUEUED := True\<rparr>)) w)
        \<lparr>next_idx := Suc (next_idx w), pqueue := CommitNode c (next_idx w) # pqueue w\<rparr>"
      using nf assms(3) by (simp add: w'_def enqueue_commit_with_flags_def mk_node_def Let_def)
    have "node_oid (CommitNode c (next_idx w)) = x" using assms(3) by (simp add: node_oid_def)
    moreover have "YIELDED (no_flags\<lparr>ENQUEUED := True\<rparr>) = False" "UNINTERESTING (no_flags\<lparr>ENQUEUED := True\<rparr>) = False"
      by (simp_all add: no_flags_def)
    ultimately show ?thesis using False nf assms(5,6) unfolding w'
      by (auto simp: enq_def yld_def unint_def qoids_def)
  qed
  then show "enq w' = insert x (enq w)" "yld w' = yld w"
    "unint w' = unint w \<union> (if x \<in> enq w \<or> \<not> UNINTERESTING init then {} else {x})"
    "qoids w' = qoids w \<union> ({x} - enq w)" by blast+
  have "node_oid (CommitNode c (next_idx w)) = x" using assms(3) by (simp add: node_oid_def)
  moreover have "x \<notin> enq w \<Longrightarrow> x \<notin> node_oid ` set (pqueue w)" using assms(1) by (auto simp: queue_ok_def qoids_def)
  ultimately show "queue_ok rd S X w'"
    using assms(1-4) facts unfolding queue_ok_def by (cases "x \<in> enq w") auto
qed

text \<open>
  What the walk relies on of the object database: a finite set of commits that is closed under
  parents, each read under its own id.
\<close>

definition times_increase :: "(oid \<Rightarrow> commit_obj bit_result) \<Rightarrow> oid set \<Rightarrow> bool" where
  "times_increase rd S \<longleftrightarrow> (\<forall>x \<in> S. \<forall>p \<in> parents_of rd x. time_of rd p < time_of rd x)"

definition times_ordered :: "(oid \<Rightarrow> commit_obj bit_result) \<Rightarrow> oid set \<Rightarrow> bool" where
  "times_ordered rd S \<longleftrightarrow> (\<forall>x \<in> S. \<forall>p \<in> parents_of rd x. time_of rd p \<le> time_of rd x)"

text \<open>
  The state of a walk from \<open>R\<close> that excludes \<open>E\<close>: what was yielded has its parents in the queue or
  behind it, and what was yielded below an excluded commit has marked its parents.
\<close>

definition walk_inv :: "(oid \<Rightarrow> commit_obj bit_result) \<Rightarrow> oid set \<Rightarrow> oid set \<Rightarrow> oid set \<Rightarrow> revwalk \<Rightarrow> bool" where
  "walk_inv rd S R E w \<longleftrightarrow>
     queue_ok rd S {} w \<and> yld w \<subseteq> S \<and> R \<union> E \<subseteq> enq w \<and> E \<subseteq> unint w
     \<and> (\<forall>x \<in> enq w. ancestor rd (R \<union> E) x) \<and> (\<forall>x \<in> unint w. ancestor rd E x)
     \<and> (\<forall>y \<in> yld w. parents_of rd y \<subseteq> enq w) \<and> (\<forall>y \<in> yld w. ancestor rd E y \<longrightarrow> parents_of rd y \<subseteq> unint w)"

definition youngest_first :: "(oid \<Rightarrow> commit_obj bit_result) \<Rightarrow> revwalk \<Rightarrow> bool" where
  "youngest_first rd w \<longleftrightarrow> (\<forall>y \<in> yld w. \<forall>q \<in> qoids w. time_of rd q \<le> time_of rd y)"

text \<open>The commits that are to be yielded.\<close>

definition wanted :: "(oid \<Rightarrow> commit_obj bit_result) \<Rightarrow> oid set \<Rightarrow> oid set \<Rightarrow> oid set" where
  "wanted rd R E = {x. ancestor rd R x \<and> \<not> ancestor rd E x}"

definition stored_commits :: "(oid \<Rightarrow> commit_obj bit_result) \<Rightarrow> oid set \<Rightarrow> commit_obj list \<Rightarrow> bool" where
  "stored_commits rd S cs \<longleftrightarrow> (\<forall>c \<in> set cs. fst c \<in> S \<and> rd (fst c) = Inr c)"

locale commit_store =
  fixes rd :: "oid \<Rightarrow> commit_obj bit_result" and S :: "oid set"
  assumes finite_store: "finite S"
    and stored: "x \<in> S \<Longrightarrow> \<exists>c. rd x = Inr (x, c) \<and> set (parents c) \<subseteq> S"
begin

lemma ancestor_stored: "ancestor rd A x \<Longrightarrow> A \<subseteq> S \<Longrightarrow> x \<in> S"
proof (induction rule: ancestor.induct)
  case (anc_parent x p)
  then show ?case using stored [of x] by (auto simp: parents_of_def)
qed auto

lemma enqueue_parents_effect:
  assumes "queue_ok rd S X w" "set ps \<subseteq> S"
  shows "\<exists>w'. enqueue_parents rd ps w = (Inr (), w') \<and> queue_ok rd S X w' \<and> enq w' = enq w \<union> set ps
    \<and> yld w' = yld w \<and> unint w' = unint w \<and> qoids w' = qoids w \<union> (set ps - enq w)"
  using assms
proof (induction ps arbitrary: w)
  case (Cons p ps)
  obtain c where c: "rd p = Inr (p, c)" using stored [of p] Cons.prems(2) by auto
  let ?w = "enqueue_commit (p, c) w"
  have e: "queue_ok rd S X ?w" "enq ?w = insert p (enq w)" "yld ?w = yld w" "unint ?w = unint w" "qoids ?w = qoids w \<union> ({p} - enq w)"
    using enqueue_effect [OF Cons.prems(1) c] Cons.prems(2) by (simp_all add: enqueue_commit_def)
  obtain w' where "enqueue_parents rd ps ?w = (Inr (), w')" "queue_ok rd S X w'" "enq w' = enq ?w \<union> set ps"
    "yld w' = yld ?w" "unint w' = unint ?w" "qoids w' = qoids ?w \<union> (set ps - enq ?w)"
    using Cons.IH [OF e(1)] Cons.prems(2) by auto
  then show ?case using e c by auto
qed (auto intro: exI)

lemma older_than_queue:
  assumes "walk_inv rd S R E w" "times_increase rd S" "E \<subseteq> S" "\<forall>q \<in> qoids w. time_of rd q \<le> t"
    and "ancestor rd E z" "t < time_of rd z"
  shows "z \<in> yld w"
  using assms(5,6)
proof (induction rule: ancestor.induct)
  case (anc_root x)
  then have "x \<in> enq w" using assms(1) by (auto simp: walk_inv_def)
  then show ?case using assms(1,4) anc_root by (auto simp: walk_inv_def queue_ok_def)
next
  case (anc_parent y p)
  have "y \<in> S" by (rule ancestor_stored [OF anc_parent.hyps(1) assms(3)])
  then have "time_of rd p < time_of rd y" using assms(2) anc_parent.hyps(2) by (auto simp: times_increase_def)
  then have "y \<in> yld w" using anc_parent.IH anc_parent.prems by (meson order.strict_trans)
  then have "p \<in> enq w" using assms(1) anc_parent.hyps(2) by (auto simp: walk_inv_def)
  then show ?case using assms(1,4) anc_parent.prems by (auto simp: walk_inv_def queue_ok_def)
qed

lemma popped_uninteresting:
  assumes "walk_inv rd S R E w" "E = {} \<or> times_increase rd S" "E \<subseteq> S" "x \<in> qoids w"
    and "\<forall>q \<in> qoids w. time_of rd q \<le> time_of rd x"
  shows "x \<in> unint w \<longleftrightarrow> ancestor rd E x"
proof
  show "x \<in> unint w \<Longrightarrow> ancestor rd E x" using assms(1) by (auto simp: walk_inv_def)
  assume a: "ancestor rd E x"
  then show "x \<in> unint w"
  proof cases
    case anc_root
    then show ?thesis using assms(1) by (auto simp: walk_inv_def)
  next
    case (anc_parent y)
    have "E \<noteq> {}"
    proof
      assume "E = {}"
      with a show False by (induction rule: ancestor.induct) auto
    qed
    then have inc: "times_increase rd S" using assms(2) by blast
    have "time_of rd x < time_of rd y"
      using inc ancestor_stored [OF anc_parent(1) assms(3)] anc_parent(2) by (auto simp: times_increase_def)
    then have "y \<in> yld w" by (rule older_than_queue [OF assms(1) inc assms(3,5) anc_parent(1)])
    then show ?thesis using assms(1) anc_parent by (auto simp: walk_inv_def)
  qed
qed

lemma round_effect:
  assumes "walk_inv rd S R E w" "E = {} \<or> times_increase rd S" "E \<subseteq> S" "still_interesting w"
  shows "\<exists>x c w'. rd x = Inr (x, c) \<and> x \<in> S \<and> x \<notin> yld w \<and> x \<in> qoids w \<and> walk_inv rd S R E w' \<and> yld w' = insert x (yld w)
    \<and> revwalk_round rd w = (if ancestor rd E x then Again w' else Yield (x, c) w')
    \<and> (times_ordered rd S \<and> youngest_first rd w \<longrightarrow> youngest_first rd w')"
proof -
  have q: "queue_ok rd S {} w" using assms(1) by (simp add: walk_inv_def)
  have "pqueue w \<noteq> []" using assms(4) by (auto simp: still_interesting_def)
  then obtain m qs where pop: "heap_pop (pqueue w) = Some (m, qs)" using heap.pop_exists [of "pqueue w"] by auto
  let ?x = "node_oid m" and ?w = "w\<lparr>pqueue := qs\<rparr>"
  have m: "m \<in> set (pqueue w)" using heap.pop_member [OF pop] by simp
  obtain c where c: "node_commit m = (?x, c)" by (metis node_oid_def prod.collapse)
  have x: "?x \<in> S" "rd ?x = Inr (?x, c)" "?x \<in> qoids w" using q m c by (auto simp: queue_ok_def qoids_def)
  have elems: "mset (pqueue w) = add_mset m (mset qs)" by (rule heap.pop_elems [OF pop])
  then have set_q: "set (pqueue w) = insert m (set qs)" by (metis set_mset_add_mset_insert set_mset_mset)
  have "mset (map node_oid (pqueue w)) = mset (?x # map node_oid qs)" using elems by simp
  then have "distinct (?x # map node_oid qs)" using q mset_eq_imp_distinct_iff unfolding queue_ok_def by blast
  then have d: "distinct (map node_oid qs)" "?x \<notin> node_oid ` set qs" by simp_all
  have sets: "enq ?w = enq w" "yld ?w = yld w" "unint ?w = unint w" "qoids ?w = qoids w - {?x}"
    using d(2) set_q by (auto simp: enq_def yld_def unint_def qoids_def)
  have qw: "queue_ok rd S {?x} ?w"
    using q d x(3) set_q unfolding queue_ok_def sets by auto
  have ps: "set (parents c) \<subseteq> S" "parents_of rd ?x = set (parents c)"
    using stored [OF x(1)] x(2) by (auto simp: parents_of_def)
  obtain w1 where w1: "enqueue_parents rd (parents c) ?w = (Inr (), w1)" "queue_ok rd S {?x} w1" "enq w1 = enq w \<union> set (parents c)"
    "yld w1 = yld w" "unint w1 = unint w" "qoids w1 = (qoids w - {?x}) \<union> (set (parents c) - enq w)"
    using enqueue_parents_effect [OF qw ps(1)] unfolding sets by blast
  define w2 where "w2 = add_flags ?x (no_flags\<lparr>YIELDED := True\<rparr>) w1"
  have f: "YIELDED (no_flags\<lparr>YIELDED := True\<rparr>)" "\<not> ENQUEUED (no_flags\<lparr>YIELDED := True\<rparr>)" "\<not> UNINTERESTING (no_flags\<lparr>YIELDED := True\<rparr>)"
    by (simp_all add: no_flags_def)
  have s2: "enq w2 = enq w1" "yld w2 = insert ?x (yld w)" "unint w2 = unint w1" "qoids w2 = qoids w1" "pqueue w2 = pqueue w1"
    using f w1(4) by (auto simp: w2_def enq_def yld_def unint_def qoids_def)
  have max: "\<forall>z \<in> qoids w. time_of rd z \<le> time_of rd ?x"
  proof
    fix z assume "z \<in> qoids w"
    then obtain n where n: "n \<in> set (pqueue w)" "z = node_oid n" by (auto simp: qoids_def)
    have "node_time n \<le> node_time m" using heap.pop_max [OF pop, of n] n(1) by simp
    moreover have "time_of rd (node_oid k) = node_time k" if "k \<in> set (pqueue w)" for k
      using q that by (simp add: queue_ok_def time_of_def node_time_def)
    ultimately show "time_of rd z \<le> time_of rd ?x" using n m by simp
  qed
  have un: "?x \<in> unint w \<longleftrightarrow> ancestor rd E ?x" by (rule popped_uninteresting [OF assms(1-3) x(3) max])
  have "UNINTERESTING (flags_of w2 ?x) \<longleftrightarrow> ancestor rd E ?x" using un s2(3) w1(5) by (auto simp: unint_def)
  then have rw: "revwalk_round rd w = (if ancestor rd E ?x then Again (mark_parents_uninteresting m w2) else Yield (?x, c) w2)"
    using assms(4) pop w1(1) c by (simp add: revwalk_round_def Let_def w2_def del: flags_of_add)
  define w' where "w' = (if ancestor rd E ?x then mark_parents_uninteresting m w2 else w2)"
  have s3: "enq w' = enq w \<union> set (parents c)" "yld w' = insert ?x (yld w)"
    "unint w' = unint w \<union> (if ancestor rd E ?x then set (parents c) else {})" "qoids w' = qoids w1" "pqueue w' = pqueue w1"
    using s2 w1 c by (auto simp: w'_def mark_parents_effect qoids_def)
  have "?x \<notin> yld w" "?x \<in> enq w" using q x(3) by (auto simp: queue_ok_def)
  moreover have "walk_inv rd S R E w'"
  proof -
    have I: "yld w \<subseteq> S" "R \<union> E \<subseteq> enq w" "E \<subseteq> unint w" "\<And>y. y \<in> enq w \<Longrightarrow> ancestor rd (R \<union> E) y"
      "\<And>y. y \<in> unint w \<Longrightarrow> ancestor rd E y" "\<And>y. y \<in> yld w \<Longrightarrow> parents_of rd y \<subseteq> enq w"
      "\<And>y. y \<in> yld w \<Longrightarrow> ancestor rd E y \<Longrightarrow> parents_of rd y \<subseteq> unint w"
      using assms(1) by (auto simp: walk_inv_def)
    have "queue_ok rd S {} w'" using w1(2,3,4) s3 unfolding queue_ok_def by auto
    moreover have "\<forall>y \<in> enq w'. ancestor rd (R \<union> E) y" using I(4) \<open>?x \<in> enq w\<close> ps(2) unfolding s3 by blast
    moreover have "\<forall>y \<in> unint w'. ancestor rd E y" using I(5) ps(2) unfolding s3 by (auto split: if_splits)
    moreover have "\<forall>y \<in> yld w'. parents_of rd y \<subseteq> enq w'" using I(6) ps(2) unfolding s3 by blast
    moreover have "\<forall>y \<in> yld w'. ancestor rd E y \<longrightarrow> parents_of rd y \<subseteq> unint w'"
    proof (intro ballI impI)
      fix y assume y: "y \<in> yld w'" "ancestor rd E y"
      show "parents_of rd y \<subseteq> unint w'"
      proof (cases "y = ?x")
        case True
        then show ?thesis using y(2) ps(2) by (simp add: s3)
      next
        case False
        then show ?thesis using y I(7) by (auto simp: s3)
      qed
    qed
    moreover have "yld w' \<subseteq> S" "R \<union> E \<subseteq> enq w'" "E \<subseteq> unint w'" using I(1-3) x(1) by (auto simp: s3)
    ultimately show ?thesis unfolding walk_inv_def by blast
  qed
  moreover have "times_ordered rd S \<and> youngest_first rd w \<longrightarrow> youngest_first rd w'"
  proof
    assume a: "times_ordered rd S \<and> youngest_first rd w"
    then have old: "time_of rd ?x \<le> time_of rd y" if "y \<in> yld w" for y using x(3) that by (auto simp: youngest_first_def)
    have le: "time_of rd z \<le> time_of rd ?x" if "z \<in> qoids w1" for z
      using that max a x(1) ps(2) unfolding w1(6) times_ordered_def by auto
    show "youngest_first rd w'" unfolding youngest_first_def s3
      using le old by (auto intro: order_trans)
  qed
  ultimately show ?thesis using x s3(2) rw unfolding w'_def by (auto split: if_splits)
qed

lemma exhausted:
  assumes "walk_inv rd S R E w" "\<not> still_interesting w" "ancestor rd R x" "\<not> ancestor rd E x"
  shows "x \<in> yld w"
  using assms(3,4)
proof (induction rule: ancestor.induct)
  have key: "z \<in> yld w" if "z \<in> enq w" "\<not> ancestor rd E z" for z
  proof -
    have "qoids w \<subseteq> unint w"
      using assms(2) by (auto simp: still_interesting_def list_ex_iff qoids_def unint_def node_oid_def)
    then show ?thesis using that assms(1) unfolding walk_inv_def queue_ok_def by blast
  qed
  { case (anc_root x)
    then show ?case using assms(1) key by (auto simp: walk_inv_def) }
  { case (anc_parent y p)
    then have "y \<in> yld w" by blast
    then have "p \<in> enq w" using assms(1) anc_parent.hyps(2) unfolding walk_inv_def by blast
    then show ?case using anc_parent.prems by (rule key) }
qed

lemma next_effect:
  assumes "walk_inv rd S R E w" "E = {} \<or> times_increase rd S" "E \<subseteq> S" "card (S - yld w) < fuel"
  shows "((\<exists>w'. revwalk_next fuel rd w = (Inr None, w')) \<and> wanted rd R E \<subseteq> yld w)
    \<or> (\<exists>x c w'. revwalk_next fuel rd w = (Inr (Some (x, c)), w') \<and> rd x = Inr (x, c) \<and> x \<in> S - yld w
        \<and> walk_inv rd S R E w' \<and> yld w \<subseteq> yld w' \<and> wanted rd R E - yld w = insert x (wanted rd R E - yld w') \<and> x \<in> yld w'
        \<and> (times_ordered rd S \<and> youngest_first rd w \<longrightarrow> youngest_first rd w' \<and> (\<forall>y \<in> yld w. time_of rd x \<le> time_of rd y)))"
  using assms(1,4)
proof (induction fuel arbitrary: w)
  case (Suc fuel)
  show ?case
  proof (cases "still_interesting w")
    case False
    then show ?thesis using exhausted [OF Suc.prems(1)] by (auto simp: revwalk_round_def wanted_def)
  next
    case True
    obtain x c w' where r: "rd x = Inr (x, c)" "x \<in> S" "x \<notin> yld w" "x \<in> qoids w" "walk_inv rd S R E w'" "yld w' = insert x (yld w)"
        "revwalk_round rd w = (if ancestor rd E x then Again w' else Yield (x, c) w')"
        "times_ordered rd S \<and> youngest_first rd w \<longrightarrow> youngest_first rd w'"
      using round_effect [OF Suc.prems(1) assms(2,3) True] by blast
    have old: "youngest_first rd w \<Longrightarrow> \<forall>y \<in> yld w. time_of rd x \<le> time_of rd y" using r(4) by (auto simp: youngest_first_def)
    show ?thesis
    proof (cases "ancestor rd E x")
      case False
      have "ancestor rd (R \<union> E) x" using Suc.prems(1) r(4) by (auto simp: walk_inv_def queue_ok_def)
      then have "x \<in> wanted rd R E" using False ancestor_Un [of rd R E x] by (auto simp: wanted_def)
      then show ?thesis using False r old by auto
    next
      case True
      have eq: "wanted rd R E - yld w' = wanted rd R E - yld w" using True r(6) by (auto simp: wanted_def)
      have "card (S - yld w') < card (S - yld w)"
        by (rule psubset_card_mono) (use finite_store r in auto)
      then have lt: "card (S - yld w') < fuel" using Suc.prems(2) by simp
      have "revwalk_next (Suc fuel) rd w = revwalk_next fuel rd w'" using True r(7) by simp
      moreover have "wanted rd R E \<subseteq> yld w' \<Longrightarrow> wanted rd R E \<subseteq> yld w" using eq by blast
      moreover have "y \<in> S - yld w' \<Longrightarrow> y \<in> S - yld w" "yld w' \<subseteq> yld w2 \<Longrightarrow> yld w \<subseteq> yld w2" for y w2 using r(6) by auto
      moreover have "\<forall>y \<in> yld w'. time_of rd z \<le> time_of rd y \<Longrightarrow> \<forall>y \<in> yld w. time_of rd z \<le> time_of rd y" for z
        using r(6) by auto
      ultimately show ?thesis using Suc.IH [OF r(5) lt] r(8) eq by metis
    qed
  qed
qed simp

lemma collect_effect:
  assumes "walk_inv rd S R E w" "E = {} \<or> times_increase rd S" "E \<subseteq> S" "card (S - yld w) < n" "card (S - yld w) < fuel"
  shows "\<exists>L. walk_collect n fuel rd w = Inr L \<and> distinct (map fst L) \<and> fst ` set L = wanted rd R E - yld w
    \<and> (\<forall>c \<in> set L. rd (fst c) = Inr c)
    \<and> (times_ordered rd S \<and> youngest_first rd w \<longrightarrow>
         sorted_wrt (\<lambda>a b. time_of rd b \<le> time_of rd a) (map fst L)
         \<and> (\<forall>y \<in> yld w. \<forall>x \<in> fst ` set L. time_of rd x \<le> time_of rd y))"
  using assms(1,4,5)
proof (induction n arbitrary: w)
  case (Suc n)
  show ?case using next_effect [OF Suc.prems(1) assms(2,3) Suc.prems(3)]
  proof (elim disjE conjE exE)
    fix w' assume "revwalk_next fuel rd w = (Inr None, w')" "wanted rd R E \<subseteq> yld w"
    then show ?thesis by auto
  next
    fix x c w'
    assume s: "revwalk_next fuel rd w = (Inr (Some (x, c)), w')" "rd x = Inr (x, c)" "x \<in> S - yld w"
        "walk_inv rd S R E w'" "yld w \<subseteq> yld w'" "wanted rd R E - yld w = insert x (wanted rd R E - yld w')" "x \<in> yld w'"
      and o: "times_ordered rd S \<and> youngest_first rd w \<longrightarrow> youngest_first rd w' \<and> (\<forall>y \<in> yld w. time_of rd x \<le> time_of rd y)"
    have "card (S - yld w') < card (S - yld w)"
      by (rule psubset_card_mono) (use finite_store s in auto)
    then have less: "card (S - yld w') < n" "card (S - yld w') < fuel" using Suc.prems(2,3) by simp_all
    obtain L where L: "walk_collect n fuel rd w' = Inr L" "distinct (map fst L)" "fst ` set L = wanted rd R E - yld w'"
        "\<forall>c \<in> set L. rd (fst c) = Inr c"
        and LO: "times_ordered rd S \<and> youngest_first rd w' \<longrightarrow>
         sorted_wrt (\<lambda>a b. time_of rd b \<le> time_of rd a) (map fst L)
         \<and> (\<forall>y \<in> yld w'. \<forall>x \<in> fst ` set L. time_of rd x \<le> time_of rd y)"
      using Suc.IH [OF s(4) less] by blast
    have "walk_collect (Suc n) fuel rd w = Inr ((x, c) # L)" using s(1) L(1) by simp
    moreover have "x \<notin> fst ` set L" using L(3) s(7) by blast
    then have "distinct (map fst ((x, c) # L))" using L(2) by simp
    moreover have "fst ` set ((x, c) # L) = wanted rd R E - yld w" using L(3) s(6) by simp
    moreover have "\<forall>c \<in> set ((x, c) # L). rd (fst c) = Inr c" using L(4) s(2) by simp
    moreover have "times_ordered rd S \<and> youngest_first rd w \<longrightarrow>
         sorted_wrt (\<lambda>a b. time_of rd b \<le> time_of rd a) (map fst ((x, c) # L))
         \<and> (\<forall>y \<in> yld w. \<forall>z \<in> fst ` set ((x, c) # L). time_of rd z \<le> time_of rd y)"
    proof
      assume a: "times_ordered rd S \<and> youngest_first rd w"
      then have "youngest_first rd w'" "\<forall>y \<in> yld w. time_of rd x \<le> time_of rd y" using o by blast+
      then show "sorted_wrt (\<lambda>a b. time_of rd b \<le> time_of rd a) (map fst ((x, c) # L))
         \<and> (\<forall>y \<in> yld w. \<forall>z \<in> fst ` set ((x, c) # L). time_of rd z \<le> time_of rd y)"
        using LO a s(5,7) by auto
    qed
    ultimately show ?thesis by blast
  qed
qed simp

lemma enqueue_all:
  assumes "queue_ok rd S {} w" "stored_commits rd S cs" "\<not> YIELDED init" "\<not> ENQUEUED init"
  defines "w' \<equiv> foldl (\<lambda>w c. enqueue_commit_with_flags c init w) w cs"
  shows "queue_ok rd S {} w' \<and> enq w' = enq w \<union> fst ` set cs \<and> yld w' = yld w
    \<and> unint w' = unint w \<union> (if UNINTERESTING init then fst ` set cs - enq w else {})"
  using assms(1,2) unfolding w'_def
proof (induction cs arbitrary: w)
  case (Cons c cs)
  have c: "rd (fst c) = Inr c" "fst c \<in> S" "stored_commits rd S cs" using Cons.prems(2) by (auto simp: stored_commits_def)
  let ?w = "enqueue_commit_with_flags c init w"
  note e = enqueue_effect [OF Cons.prems(1) c(1) refl c(2) assms(3,4)]
  show ?case using Cons.IH [OF e(1) c(3)] e(2-4) by auto
qed auto

lemma build_inv:
  assumes "stored_commits rd S exclude" "stored_commits rd S roots"
  defines "w \<equiv> revwalk_build exclude roots"
  shows "walk_inv rd S (fst ` set roots) (fst ` set exclude) w" "yld w = {}"
proof -
  have e: "enq empty_walk = {}" "yld empty_walk = {}" "unint empty_walk = {}" "qoids empty_walk = {}" "pqueue empty_walk = []"
    by (simp_all add: empty_walk_def enq_def yld_def unint_def qoids_def flags_of_def)
  have q: "queue_ok rd S {} empty_walk" by (simp add: queue_ok_def e)
  define w1 where "w1 = foldl (\<lambda>w c. enqueue_commit_with_flags c uninteresting_flags w) empty_walk exclude"
  have w1: "queue_ok rd S {} w1" "enq w1 = fst ` set exclude" "yld w1 = {}" "unint w1 = fst ` set exclude"
    using enqueue_all [OF q assms(1), of uninteresting_flags] by (simp_all add: w1_def e)
  have w: "w = foldl (\<lambda>w c. enqueue_commit_with_flags c no_flags w) w1 roots"
    by (simp add: w_def w1_def revwalk_build_def enqueue_commit_def)
  have w2: "queue_ok rd S {} w" "enq w = fst ` set exclude \<union> fst ` set roots" "yld w = {}" "unint w = fst ` set exclude"
    using enqueue_all [OF w1(1) assms(2), of no_flags] by (simp_all add: w w1)
  then show "walk_inv rd S (fst ` set roots) (fst ` set exclude) w" "yld w = {}"
    by (auto simp: walk_inv_def)
qed

lemma walk_yields:
  assumes "stored_commits rd S exclude" "stored_commits rd S roots" "exclude = [] \<or> times_increase rd S" "card S < n" "card S < fuel"
  shows "\<exists>L. walk_collect n fuel rd (revwalk_build exclude roots) = Inr L \<and> distinct (map fst L)
    \<and> fst ` set L = wanted rd (fst ` set roots) (fst ` set exclude) \<and> (\<forall>c \<in> set L. rd (fst c) = Inr c)
    \<and> (times_ordered rd S \<longrightarrow> sorted_wrt (\<lambda>a b. time_of rd b \<le> time_of rd a) (map fst L))"
proof -
  note b = build_inv [OF assms(1,2)]
  have "fst ` set exclude \<subseteq> S" using assms(1) by (auto simp: stored_commits_def)
  then show ?thesis
    using collect_effect [OF b(1), of n fuel] assms(3-5) b(2) by (auto simp: youngest_first_def)
qed

end

section \<open>Walks of a repository\<close>

text \<open>A graph given by id, committer time and parents, newest commits first.\<close>

definition graph_commit :: "nat \<Rightarrow> oid list \<Rightarrow> mutable_commit" where
  "graph_commit t ps = sample_commit\<lparr>committer := sample_signature\<lparr>sig_time := \<lparr>time = int t, offset = 0\<rparr>\<rparr>, parents := ps\<rparr>"

definition graph_read :: "(oid \<times> nat \<times> oid list) list \<Rightarrow> oid \<Rightarrow> commit_obj bit_result" where
  "graph_read g x = (case map_of g x of None \<Rightarrow> Inl (Bail ''object not found'') | Some (t, ps) \<Rightarrow> Inr (x, graph_commit t ps))"

definition graph_closed :: "(oid \<times> nat \<times> oid list) list \<Rightarrow> bool" where
  "graph_closed g \<longleftrightarrow> list_all (\<lambda>(x, t, ps). list_all (\<lambda>p. p \<in> fst ` set g) ps) g"

lemma graph_store:
  assumes "graph_closed g"
  shows "commit_store (graph_read g) (fst ` set g)"
proof
  fix x assume "x \<in> fst ` set g"
  then obtain t ps where m: "map_of g x = Some (t, ps)" by (metis map_of_eq_None_iff not_None_eq prod.collapse)
  then have "(x, t, ps) \<in> set g" by (rule map_of_SomeD)
  then have "set ps \<subseteq> fst ` set g" using assms by (auto simp: graph_closed_def list_all_iff)
  then show "\<exists>c. graph_read g x = Inr (x, c) \<and> set (parents c) \<subseteq> fst ` set g"
    using m by (simp add: graph_read_def graph_commit_def)
qed simp

definition diamond :: "(oid \<times> nat \<times> oid list) list" where
  "diamond = [([4], 4, [[3], [2]]), ([3], 3, [[1]]), ([2], 2, [[1]]), ([1], 1, [])]"

interpretation diamond_store: commit_store "graph_read diamond" "fst ` set diamond"
  by (rule graph_store) (simp add: graph_closed_def diamond_def)


lemma diamond_walk:
  "walk_collect 5 5 (graph_read diamond) (revwalk_build [([2], graph_commit 2 [[1]])] [([4], graph_commit 4 [[3], [2]])])
   = Inr [([4], graph_commit 4 [[3], [2]]), ([3], graph_commit 3 [[1]])]"
  by code_simp


text \<open>
  With equal times the exclusion leaks. Commit 1 is the grandparent of the excluded commit 3 and the
  parent of the root 4; commits 1 to 3 have the same time. Commit 1 enters the queue before 2 does and
  is yielded before 2 can mark it.
\<close>

lemma equal_times_leak:
  defines "g \<equiv> [([4], 2, [[1]]), ([3], 1, [[2]]), ([2], 1, [[1]]), ([1], 1, [])]"
  shows "walk_collect 5 5 (graph_read g) (revwalk_build [([3], graph_commit 1 [[2]])] [([4], graph_commit 2 [[1]])])
      = Inr [([4], graph_commit 2 [[1]]), ([1], graph_commit 1 [])]"
    and "ancestor (graph_read g) {[3]} [1]" "times_ordered (graph_read g) (fst ` set g)"
proof -
  show "walk_collect 5 5 (graph_read g) (revwalk_build [([3], graph_commit 1 [[2]])] [([4], graph_commit 2 [[1]])])
      = Inr [([4], graph_commit 2 [[1]]), ([1], graph_commit 1 [])]"
    unfolding g_def by code_simp
  have "[2] \<in> parents_of (graph_read g) [3]" "[1] \<in> parents_of (graph_read g) [2]"
    by (simp_all add: parents_of_def graph_read_def g_def graph_commit_def)
  then show "ancestor (graph_read g) {[3]} [1]" by blast
  show "times_ordered (graph_read g) (fst ` set g)"
    by (simp add: times_ordered_def parents_of_def time_of_def graph_read_def g_def graph_commit_def time_key_def commit_time_def)
qed

text \<open>
  With equal times a parent may also come before one of its children: commit 1 is yielded before its
  child 2.
\<close>

lemma parent_before_child:
  defines "g \<equiv> [([4], 1, [[2]]), ([3], 1, [[1]]), ([2], 1, [[1]]), ([1], 1, [])]"
  shows "walk_collect 5 5 (graph_read g) (revwalk_build [] [([3], graph_commit 1 [[1]]), ([4], graph_commit 1 [[2]])])
    = Inr [([3], graph_commit 1 [[1]]), ([4], graph_commit 1 [[2]]), ([1], graph_commit 1 []), ([2], graph_commit 1 [[1]])]"
  unfolding g_def by code_simp

end
