(* ===== verification/Bit_Merge_Base.thy ===== *)
theory Bit_Merge_Base
  imports Bit_Revwalk
begin

text \<open>
  Merge bases, \<open>MergeBaseCtxt\<close> of \<^verbatim>\<open>libbit/src/merge.rs\<close>: from two commits the walk paints the ancestors
  of each, and the commits that have both colours are candidates; what lies behind a candidate is
  stale. The queue and its order are those of the revision walk, and reading a commit is the
  parameter \<open>rd\<close>.
\<close>

section \<open>Model\<close>

datatype node_flag = PARENT1 | PARENT2 | RESULT | STALE

record merge_base_ctxt =
  candidates :: "commit_obj list"
  mb_queue :: "commit_node list"
  node_flags :: "oid \<rightharpoonup> node_flag set"
  mb_index :: nat

definition mb_flags :: "merge_base_ctxt \<Rightarrow> oid \<Rightarrow> node_flag set" where
  "mb_flags w x = (case node_flags w x of Some f \<Rightarrow> f | None \<Rightarrow> {})"

definition mb_insert_flags :: "oid \<Rightarrow> node_flag set \<Rightarrow> merge_base_ctxt \<Rightarrow> merge_base_ctxt" where
  "mb_insert_flags x f w = w\<lparr>node_flags := (node_flags w)(x \<mapsto> mb_flags w x \<union> f)\<rparr>"

definition mb_push :: "commit_obj \<Rightarrow> merge_base_ctxt \<Rightarrow> merge_base_ctxt" where
  "mb_push c w = w\<lparr>mb_queue := CommitNode c (mb_index w) # mb_queue w, mb_index := Suc (mb_index w)\<rparr>"

definition push_init :: "commit_obj \<Rightarrow> node_flag set \<Rightarrow> merge_base_ctxt \<Rightarrow> merge_base_ctxt" where
  "push_init c f w = mb_push c (mb_insert_flags (fst c) f w)"

definition mb_still_interesting :: "merge_base_ctxt \<Rightarrow> bool" where
  "mb_still_interesting w = list_ex (\<lambda>n. STALE \<notin> mb_flags w (fst (node_commit n))) (mb_queue w)"

text \<open>One parent: nothing to do when its flags are those already, else it is painted and queued again.\<close>

definition visit_parent ::
  "(oid \<Rightarrow> commit_obj bit_result) \<Rightarrow> node_flag set \<Rightarrow> merge_base_ctxt \<Rightarrow> oid \<Rightarrow> merge_base_ctxt bit_result" where
  "visit_parent rd parent_flags w p =
     (if mb_flags w p = parent_flags then Inr (mb_insert_flags p {} w)
      else and_then (rd p) (\<lambda>c. Inr (mb_push c (mb_insert_flags p parent_flags w))))"

text \<open>The body of the loop for the node that was taken from the queue.\<close>

definition visit_node :: "(oid \<Rightarrow> commit_obj bit_result) \<Rightarrow> commit_node \<Rightarrow> merge_base_ctxt \<Rightarrow> merge_base_ctxt bit_result" where
  "visit_node rd node w =
     (let o' = fst (node_commit node); flags = mb_flags w o'; parent_flags = flags - {RESULT};
          both = (PARENT1 \<in> flags \<and> PARENT2 \<in> flags);
          parent_flags = (if both then insert STALE parent_flags else parent_flags);
          w = (if both \<and> RESULT \<notin> flags \<and> STALE \<notin> flags
               then (mb_insert_flags o' {RESULT} w)\<lparr>candidates := candidates w @ [node_commit node]\<rparr> else w)
      in try_fold (visit_parent rd parent_flags) w (parents (snd (node_commit node))))"

fun build_candidates :: "nat \<Rightarrow> (oid \<Rightarrow> commit_obj bit_result) \<Rightarrow> merge_base_ctxt \<Rightarrow> merge_base_ctxt bit_result" where
  "build_candidates 0 rd w = Inl Diverge"
| "build_candidates (Suc fuel) rd w =
     (if \<not> mb_still_interesting w then Inr w
      else case heap_pop (mb_queue w) of
          None \<Rightarrow> Inr w
        | Some (node, q) \<Rightarrow> and_then (visit_node rd node (w\<lparr>mb_queue := q\<rparr>)) (build_candidates fuel rd))"

definition mb_start :: "commit_obj \<Rightarrow> commit_obj \<Rightarrow> merge_base_ctxt" where
  "mb_start a b = push_init b {PARENT2} (push_init a {PARENT1}
     \<lparr>candidates = [], mb_queue = [], node_flags = Map.empty, mb_index = 0\<rparr>)"

definition find_merge_bases :: "nat \<Rightarrow> (oid \<Rightarrow> commit_obj bit_result) \<Rightarrow> commit_obj \<Rightarrow> commit_obj \<Rightarrow> commit_obj list bit_result" where
  "find_merge_bases fuel rd a b =
     and_then (build_candidates fuel rd (mb_start a b)) (\<lambda>w.
       Inr (filter (\<lambda>c. STALE \<notin> mb_flags w (fst c)) (candidates w)))"

definition find_merge_base :: "nat \<Rightarrow> (oid \<Rightarrow> commit_obj bit_result) \<Rightarrow> commit_obj \<Rightarrow> commit_obj \<Rightarrow> commit_obj option bit_result" where
  "find_merge_base fuel rd a b =
     and_then (find_merge_bases fuel rd a b) (\<lambda>bases. Inr (case bases of [] \<Rightarrow> None | x # _ \<Rightarrow> Some x))"

section \<open>Best common ancestors\<close>

text \<open>A proper ancestor, and the common ancestors that are not behind another one.\<close>

definition behind :: "(oid \<Rightarrow> commit_obj bit_result) \<Rightarrow> oid \<Rightarrow> oid \<Rightarrow> bool" where
  "behind rd y x \<longleftrightarrow> ancestor rd (parents_of rd y) x"

definition common :: "(oid \<Rightarrow> commit_obj bit_result) \<Rightarrow> oid \<Rightarrow> oid \<Rightarrow> oid \<Rightarrow> bool" where
  "common rd a b x \<longleftrightarrow> ancestor rd {a} x \<and> ancestor rd {b} x"

definition best_common :: "(oid \<Rightarrow> commit_obj bit_result) \<Rightarrow> oid \<Rightarrow> oid \<Rightarrow> oid \<Rightarrow> bool" where
  "best_common rd a b x \<longleftrightarrow> common rd a b x \<and> (\<forall>y. common rd a b y \<longrightarrow> \<not> behind rd y x)"

lemma behind_parent: "behind rd y x \<Longrightarrow> p \<in> parents_of rd x \<Longrightarrow> behind rd y p"
  by (auto simp: behind_def)

lemma behind_parent0: "p \<in> parents_of rd y \<Longrightarrow> behind rd y p"
  by (auto simp: behind_def)

lemma behind_ancestor: "behind rd y z \<Longrightarrow> ancestor rd {z} x \<Longrightarrow> behind rd y x"
proof -
  assume z: "behind rd y z" and "ancestor rd {z} x"
  from this(2) show ?thesis by induction (use z behind_parent in auto)
qed

section \<open>The painting\<close>

definition mb_oids :: "merge_base_ctxt \<Rightarrow> oid set" where
  "mb_oids w = node_oid ` set (mb_queue w)"

lemma mb_flags_insert [simp]: "mb_flags (mb_insert_flags x f w) y = (if y = x then mb_flags w x \<union> f else mb_flags w y)"
  by (simp add: mb_flags_def mb_insert_flags_def)

lemma mb_insert_frame [simp]:
  "candidates (mb_insert_flags x f w) = candidates w" "mb_queue (mb_insert_flags x f w) = mb_queue w"
  by (simp_all add: mb_insert_flags_def)

lemma mb_push_frame [simp]:
  "mb_flags (mb_push c w) y = mb_flags w y" "candidates (mb_push c w) = candidates w"
  "mb_queue (mb_push c w) = CommitNode c (mb_index w) # mb_queue w"
  by (simp_all add: mb_push_def mb_flags_def)

lemma mb_update_frame [simp]:
  "mb_flags (w\<lparr>candidates := cs\<rparr>) y = mb_flags w y" "mb_flags (w\<lparr>mb_queue := q\<rparr>) y = mb_flags w y"
  by (simp_all add: mb_flags_def)

text \<open>
  The paint is right as far as it goes, and what has left the queue has passed its paint on.
\<close>

definition both :: "node_flag set \<Rightarrow> bool" where
  "both f \<longleftrightarrow> PARENT1 \<in> f \<and> PARENT2 \<in> f"

definition out_flags :: "node_flag set \<Rightarrow> node_flag set" where
  "out_flags f = (if both f then insert STALE (f - {RESULT}) else f - {RESULT})"

definition paint_sound :: "(oid \<Rightarrow> commit_obj bit_result) \<Rightarrow> oid \<Rightarrow> oid \<Rightarrow> (oid \<Rightarrow> node_flag set) \<Rightarrow> bool" where
  "paint_sound rd a b F \<longleftrightarrow>
     (\<forall>x. (PARENT1 \<in> F x \<longrightarrow> ancestor rd {a} x) \<and> (PARENT2 \<in> F x \<longrightarrow> ancestor rd {b} x)
        \<and> (STALE \<in> F x \<longrightarrow> (\<exists>y. common rd a b y \<and> behind rd y x)))"

definition passed_on :: "(oid \<Rightarrow> commit_obj bit_result) \<Rightarrow> (oid \<Rightarrow> node_flag set) \<Rightarrow> oid \<Rightarrow> bool" where
  "passed_on rd F x \<longleftrightarrow> (\<forall>p \<in> parents_of rd x. out_flags (F x) \<subseteq> F p) \<and> (both (F x) \<longrightarrow> RESULT \<in> F x \<or> STALE \<in> F x)"

definition candidates_ok :: "(oid \<Rightarrow> commit_obj bit_result) \<Rightarrow> oid \<Rightarrow> oid \<Rightarrow> merge_base_ctxt \<Rightarrow> bool" where
  "candidates_ok rd a b w \<longleftrightarrow> (\<forall>x. RESULT \<in> mb_flags w x \<longleftrightarrow> x \<in> fst ` set (candidates w))
     \<and> distinct (map fst (candidates w)) \<and> (\<forall>c \<in> set (candidates w). rd (fst c) = Inr c \<and> best_common rd a b (fst c))"

definition painted :: "(oid \<Rightarrow> commit_obj bit_result) \<Rightarrow> oid set \<Rightarrow> oid \<Rightarrow> oid \<Rightarrow> merge_base_ctxt \<Rightarrow> bool" where
  "painted rd S a b w \<longleftrightarrow>
     paint_sound rd a b (mb_flags w) \<and> PARENT1 \<in> mb_flags w a \<and> PARENT2 \<in> mb_flags w b
     \<and> (\<forall>x. mb_flags w x \<noteq> {} \<and> x \<notin> mb_oids w \<longrightarrow> passed_on rd (mb_flags w) x) \<and> candidates_ok rd a b w
     \<and> (\<forall>n \<in> set (mb_queue w). mb_flags w (node_oid n) - {RESULT} \<noteq> {} \<and> node_oid n \<in> S \<and> rd (node_oid n) = Inr (node_commit n))"

lemma visit_node_eq:
  "visit_node rd node w =
     (let f = mb_flags w (fst (node_commit node)) in
      try_fold (visit_parent rd (out_flags f))
        (if both f \<and> RESULT \<notin> f \<and> STALE \<notin> f
         then (mb_insert_flags (fst (node_commit node)) {RESULT} w)\<lparr>candidates := candidates w @ [node_commit node]\<rparr> else w)
        (parents (snd (node_commit node))))"
  by (simp only: visit_node_def Let_def out_flags_def both_def)

lemma ancestor_trans: "ancestor rd {y} p \<Longrightarrow> ancestor rd {p} x \<Longrightarrow> ancestor rd {y} x"
proof -
  assume p: "ancestor rd {y} p" and "ancestor rd {p} x"
  from this(2) show ?thesis by induction (use p in auto)
qed

lemma build_more:
  "build_candidates n rd w = Inr w' \<Longrightarrow> n \<le> m \<Longrightarrow> build_candidates m rd w = Inr w'"
proof (induction n arbitrary: w m)
  case (Suc n)
  then obtain k where "m = Suc k" "n \<le> k" by (cases m) auto
  then show ?case using Suc by (auto simp: and_then_eq_Inr split: if_splits option.splits prod.splits)
qed simp

context commit_store
begin

text \<open>A commit weighs more than all its parents together.\<close>

definition weight :: "nat \<Rightarrow> oid \<Rightarrow> nat" where
  "weight k x = Suc k ^ Suc (card {y \<in> S. time_of rd y < time_of rd x})"

definition queue_weight :: "nat \<Rightarrow> merge_base_ctxt \<Rightarrow> nat" where
  "queue_weight k w = (\<Sum>n\<leftarrow>mb_queue w. weight k (node_oid n))"

lemma weight_parents:
  assumes "times_increase rd S" "x \<in> S" "rd x = Inr (x, c)" "length (parents c) \<le> k"
  shows "Suc (\<Sum>p\<leftarrow>parents c. weight k p) \<le> weight k x"
proof -
  let ?r = "\<lambda>x. card {y \<in> S. time_of rd y < time_of rd x}"
  have ps: "set (parents c) = parents_of rd x" using assms(3) by (simp add: parents_of_def)
  have "weight k p \<le> Suc k ^ ?r x" if p: "p \<in> set (parents c)" for p
  proof -
    have lt: "time_of rd p < time_of rd x" using assms(1,2) p ps by (auto simp: times_increase_def)
    have "p \<in> S" using stored [OF assms(2)] assms(3) p by auto
    then have "{y \<in> S. time_of rd y < time_of rd p} \<subset> {y \<in> S. time_of rd y < time_of rd x}" using lt by auto
    then have "?r p < ?r x" using finite_store by (intro psubset_card_mono) auto
    then show ?thesis unfolding weight_def by (intro power_increasing) simp_all
  qed
  then have "(\<Sum>p\<leftarrow>parents c. weight k p) \<le> (\<Sum>p\<leftarrow>parents c. Suc k ^ ?r x)" by (rule sum_list_mono)
  also have "\<dots> \<le> k * Suc k ^ ?r x" using assms(4) by (simp add: sum_list_triv)
  also have "\<dots> < Suc k ^ ?r x + k * Suc k ^ ?r x" by simp
  also have "\<dots> = weight k x" by (simp add: weight_def)
  finally show ?thesis by simp
qed

lemma visit_parents_effect:
  assumes "set ps \<subseteq> S"
  shows "\<exists>w'. try_fold (visit_parent rd pf) w ps = Inr w' \<and> candidates w' = candidates w
    \<and> (\<forall>y. mb_flags w' y = (if y \<in> set ps then mb_flags w y \<union> pf else mb_flags w y))
    \<and> mb_oids w \<subseteq> mb_oids w' \<and> (\<forall>p \<in> set ps. \<not> pf \<subseteq> mb_flags w p \<longrightarrow> p \<in> mb_oids w')
    \<and> (\<forall>n \<in> set (mb_queue w'). n \<in> set (mb_queue w) \<or> node_oid n \<in> set ps \<and> rd (node_oid n) = Inr (node_commit n))
    \<and> queue_weight k w' \<le> queue_weight k w + (\<Sum>p\<leftarrow>ps. weight k p)"
  using assms
proof (induction ps arbitrary: w)
  case (Cons p ps)
  obtain c where c: "rd p = Inr (p, c)" using stored [of p] Cons.prems by auto
  have n: "node_oid (CommitNode (p, c) i) = p" for i by (simp add: node_oid_def)
  obtain w1 where w1: "visit_parent rd pf w p = Inr w1" "candidates w1 = candidates w"
      "\<And>y. mb_flags w1 y = (if y = p then mb_flags w y \<union> pf else mb_flags w y)"
      "mb_oids w \<subseteq> mb_oids w1" "\<not> pf \<subseteq> mb_flags w p \<Longrightarrow> p \<in> mb_oids w1"
      "\<forall>n \<in> set (mb_queue w1). n \<in> set (mb_queue w) \<or> node_oid n = p \<and> rd (node_oid n) = Inr (node_commit n)"
      "queue_weight k w1 \<le> queue_weight k w + weight k p"
  proof (cases "mb_flags w p = pf")
    case True
    then show thesis by (intro that [of "mb_insert_flags p {} w"]) (auto simp: visit_parent_def mb_oids_def queue_weight_def)
  next
    case False
    then show thesis using c n
      by (intro that [of "mb_push (p, c) (mb_insert_flags p pf w)"]) (auto simp: visit_parent_def mb_oids_def queue_weight_def)
  qed
  obtain w' where w': "try_fold (visit_parent rd pf) w1 ps = Inr w'" "candidates w' = candidates w1"
      "\<And>y. mb_flags w' y = (if y \<in> set ps then mb_flags w1 y \<union> pf else mb_flags w1 y)"
      "mb_oids w1 \<subseteq> mb_oids w'" "\<forall>q \<in> set ps. \<not> pf \<subseteq> mb_flags w1 q \<longrightarrow> q \<in> mb_oids w'"
      "\<forall>n \<in> set (mb_queue w'). n \<in> set (mb_queue w1) \<or> node_oid n \<in> set ps \<and> rd (node_oid n) = Inr (node_commit n)"
      "queue_weight k w' \<le> queue_weight k w1 + (\<Sum>p\<leftarrow>ps. weight k p)"
    using Cons.IH [of w1] Cons.prems by auto
  have "try_fold (visit_parent rd pf) w (p # ps) = Inr w'" using w1(1) w'(1) by simp
  moreover have "candidates w' = candidates w" using w1(2) w'(2) by simp
  moreover have "\<forall>y. mb_flags w' y = (if y \<in> set (p # ps) then mb_flags w y \<union> pf else mb_flags w y)" using w1(3) w'(3) by auto
  moreover have "mb_oids w \<subseteq> mb_oids w'" using w1(4) w'(4) by blast
  moreover have "\<forall>q \<in> set (p # ps). \<not> pf \<subseteq> mb_flags w q \<longrightarrow> q \<in> mb_oids w'"
  proof (intro ballI impI)
    fix q assume q: "q \<in> set (p # ps)" "\<not> pf \<subseteq> mb_flags w q"
    show "q \<in> mb_oids w'"
    proof (cases "q = p")
      case True
      then show ?thesis using q(2) w1(5) w'(4) by blast
    next
      case False
      then show ?thesis using q w1(3) [of q] w'(5) by simp
    qed
  qed
  moreover have "\<forall>n \<in> set (mb_queue w'). n \<in> set (mb_queue w) \<or> node_oid n \<in> set (p # ps) \<and> rd (node_oid n) = Inr (node_commit n)"
    using w1(6) w'(6) by auto
  moreover have "queue_weight k w' \<le> queue_weight k w + (\<Sum>p\<leftarrow>p # ps. weight k p)" using w1(7) w'(7) by simp
  ultimately show ?case by blast
qed (auto intro: exI)

text \<open>Among the commits younger than the queue the painting is complete.\<close>

lemma painted_passed:
  assumes "painted rd S a b w" "x \<notin> mb_oids w" "p \<in> parents_of rd x"
  shows "f \<in> mb_flags w x \<Longrightarrow> f \<noteq> RESULT \<Longrightarrow> f \<in> mb_flags w p" and "both (mb_flags w x) \<Longrightarrow> STALE \<in> mb_flags w p"
proof -
  have *: "mb_flags w x \<noteq> {} \<Longrightarrow> out_flags (mb_flags w x) \<subseteq> mb_flags w p"
    using assms unfolding painted_def passed_on_def by blast
  have "mb_flags w x - {RESULT} \<subseteq> out_flags (mb_flags w x)" by (auto simp: out_flags_def)
  then show "f \<in> mb_flags w x \<Longrightarrow> f \<noteq> RESULT \<Longrightarrow> f \<in> mb_flags w p" using * by blast
  show "both (mb_flags w x) \<Longrightarrow> STALE \<in> mb_flags w p" using * by (auto simp: out_flags_def both_def)
qed

lemma younger_painted:
  assumes "painted rd S a b w" "times_increase rd S" "a \<in> S" "b \<in> S" "\<forall>q \<in> mb_oids w. time_of rd q \<le> t"
  shows "ancestor rd {a} z \<Longrightarrow> t < time_of rd z \<Longrightarrow> PARENT1 \<in> mb_flags w z"
    and "ancestor rd {b} z \<Longrightarrow> t < time_of rd z \<Longrightarrow> PARENT2 \<in> mb_flags w z"
proof -
  have paint: "f \<in> mb_flags w z" if "ancestor rd {r} z" "t < time_of rd z" "r \<in> S" "f \<in> mb_flags w r" "f \<noteq> RESULT" for f r z
    using that(1,2)
  proof (induction rule: ancestor.induct)
    case (anc_root x)
    then show ?case using that(4) by simp
  next
    case (anc_parent y p)
    have "y \<in> S" using ancestor_stored [OF anc_parent.hyps(1)] that(3) by simp
    then have "time_of rd p < time_of rd y" using assms(2) anc_parent.hyps(2) by (auto simp: times_increase_def)
    then have "t < time_of rd y" using anc_parent.prems by (meson order.strict_trans)
    then have "f \<in> mb_flags w y" "y \<notin> mb_oids w" using anc_parent.IH assms(5) by auto
    then show ?case using painted_passed(1) [OF assms(1) _ anc_parent.hyps(2)] that(5) by blast
  qed
  have "PARENT1 \<in> mb_flags w a" "PARENT2 \<in> mb_flags w b" using assms(1) by (simp_all add: painted_def)
  then show "ancestor rd {a} z \<Longrightarrow> t < time_of rd z \<Longrightarrow> PARENT1 \<in> mb_flags w z"
    "ancestor rd {b} z \<Longrightarrow> t < time_of rd z \<Longrightarrow> PARENT2 \<in> mb_flags w z" using paint assms(3,4) by blast+
qed

lemma behind_older:
  assumes "times_increase rd S" "y \<in> S" "behind rd y x"
  shows "time_of rd x < time_of rd y \<and> x \<in> S"
  using assms(3) unfolding behind_def
proof (induction rule: ancestor.induct)
  case (anc_root x)
  then show ?case using assms(1,2) stored [OF assms(2)] by (auto simp: times_increase_def parents_of_def)
next
  case (anc_parent x p)
  then have "time_of rd p < time_of rd x" "x \<in> S" using assms(1) by (auto simp: times_increase_def)
  then show ?case using anc_parent stored [of x] by (auto simp: parents_of_def dest: order.strict_trans)
qed

lemma stale_when_popped:
  assumes "painted rd S a b w" "times_increase rd S" "a \<in> S" "b \<in> S" "\<forall>q \<in> mb_oids w. time_of rd q \<le> time_of rd x"
    and "common rd a b y" "behind rd y x"
  shows "STALE \<in> mb_flags w x"
proof -
  have yS: "y \<in> S" using assms(3,6) ancestor_stored [of "{a}" y] by (simp add: common_def)
  note old = behind_older [OF assms(2) yS assms(7)]
  have bothy: "both (mb_flags w y)"
    using younger_painted [OF assms(1-5)] assms(6) old by (simp add: both_def common_def)
  have "y \<notin> mb_oids w" using assms(5) old by (meson leD)
  have "STALE \<in> mb_flags w z" if "ancestor rd (parents_of rd y) z" "time_of rd x \<le> time_of rd z" for z
    using that
  proof (induction rule: ancestor.induct)
    case (anc_root p)
    show ?case using painted_passed(2) [OF assms(1) \<open>y \<notin> mb_oids w\<close> anc_root(1)] bothy by blast
  next
    case (anc_parent u p)
    have "u \<in> S" using behind_older [OF assms(2) yS] anc_parent.hyps(1) by (simp add: behind_def)
    then have lt: "time_of rd p < time_of rd u" using assms(2) anc_parent.hyps(2) by (auto simp: times_increase_def)
    then have "time_of rd x < time_of rd u" using anc_parent.prems by (meson le_less_trans)
    then have "STALE \<in> mb_flags w u" "u \<notin> mb_oids w" using anc_parent.IH assms(5) by (auto simp: order.strict_implies_order)
    then show ?case using painted_passed(1) [OF assms(1) _ anc_parent.hyps(2)] by blast
  qed
  then show ?thesis using assms(7) by (simp add: behind_def)
qed

lemma passed_on_mono:
  assumes "passed_on rd F x" "F' x = F x" "\<And>y. F y \<subseteq> F' y"
  shows "passed_on rd F' x"
  using assms unfolding passed_on_def by (metis subset_trans)

text \<open>The node that is taken from the queue, and its paint.\<close>

lemma visit_node_effect:
  assumes P: "painted rd S a b w" and T: "times_increase rd S" "a \<in> S" "b \<in> S"
    and pop: "heap_pop (mb_queue w) = Some (node, q)" and k: "\<forall>x \<in> S. \<forall>c. rd x = Inr (x, c) \<longrightarrow> length (parents c) \<le> k"
  shows "\<exists>w'. visit_node rd node (w\<lparr>mb_queue := q\<rparr>) = Inr w' \<and> painted rd S a b w' \<and> queue_weight k w' < queue_weight k w"
proof -
  let ?x = "node_oid node" and ?F = "mb_flags w"
  have elems: "mset (mb_queue w) = add_mset node (mset q)" by (rule heap.pop_elems [OF pop])
  then have set_q: "set (mb_queue w) = insert node (set q)" by (metis set_mset_add_mset_insert set_mset_mset)
  have Q: "?F (node_oid n) - {RESULT} \<noteq> {} \<and> node_oid n \<in> S \<and> rd (node_oid n) = Inr (node_commit n)" if "n \<in> set (mb_queue w)" for n
    using P that by (simp add: painted_def)
  have x: "?F ?x - {RESULT} \<noteq> {}" "?x \<in> S" "rd ?x = Inr (node_commit node)" using Q [of node] set_q by simp_all
  obtain c where c: "node_commit node = (?x, c)" "set (parents c) \<subseteq> S" using stored [OF x(2)] x(3) by auto
  have ps: "parents_of rd ?x = set (parents c)" using x(3) c(1) by (simp add: parents_of_def)
  have "mset (map (\<lambda>n. weight k (node_oid n)) (mb_queue w)) = mset (weight k ?x # map (\<lambda>n. weight k (node_oid n)) q)" using elems by simp
  then have weight_q: "queue_weight k w = weight k ?x + queue_weight k (w\<lparr>mb_queue := q\<rparr>)"
    using sum_mset_sum_list by (metis queue_weight_def select_convs(2) sum_list.Cons surjective update_convs(2))
  have max: "\<forall>z \<in> mb_oids w. time_of rd z \<le> time_of rd ?x"
  proof
    fix z assume "z \<in> mb_oids w"
    then obtain n where n: "n \<in> set (mb_queue w)" "z = node_oid n" by (auto simp: mb_oids_def)
    have "node_time n \<le> node_time node" using heap.pop_max [OF pop, of n] n(1) by simp
    moreover have "time_of rd (node_oid m) = node_time m" if "m \<in> set (mb_queue w)" for m
      using Q [OF that] by (simp add: time_of_def node_time_def)
    ultimately show "time_of rd z \<le> time_of rd ?x" using n set_q by simp
  qed
  define pf where "pf = out_flags (?F ?x)"
  define fresh where "fresh \<longleftrightarrow> both (?F ?x) \<and> RESULT \<notin> ?F ?x \<and> STALE \<notin> ?F ?x"
  define w0 where "w0 = w\<lparr>mb_queue := q\<rparr>"
  define w1 where "w1 = (if fresh then (mb_insert_flags ?x {RESULT} w0)\<lparr>candidates := candidates w @ [node_commit node]\<rparr> else w0)"
  have w1: "candidates w1 = candidates w @ (if fresh then [node_commit node] else [])" "mb_queue w1 = q"
    "\<And>y. mb_flags w1 y = ?F y \<union> (if y = ?x \<and> fresh then {RESULT} else {})"
    by (auto simp: w1_def w0_def)
  obtain w' where w': "try_fold (visit_parent rd pf) w1 (parents c) = Inr w'" "candidates w' = candidates w1"
      "\<And>y. mb_flags w' y = (if y \<in> set (parents c) then mb_flags w1 y \<union> pf else mb_flags w1 y)"
      "mb_oids w1 \<subseteq> mb_oids w'" "\<forall>p \<in> set (parents c). \<not> pf \<subseteq> mb_flags w1 p \<longrightarrow> p \<in> mb_oids w'"
      "\<forall>n \<in> set (mb_queue w'). n \<in> set (mb_queue w1) \<or> node_oid n \<in> set (parents c) \<and> rd (node_oid n) = Inr (node_commit n)"
      "queue_weight k w' \<le> queue_weight k w1 + (\<Sum>p\<leftarrow>parents c. weight k p)"
    using visit_parents_effect [OF c(2), of pf w1 k] by blast
  have run: "visit_node rd node (w\<lparr>mb_queue := q\<rparr>) = Inr w'"
  proof -
    have o': "fst (node_commit node) = ?x" "parents (snd (node_commit node)) = parents c" using c(1) by simp_all
    have e: "visit_node rd node w0 = try_fold (visit_parent rd pf) w1 (parents c)"
      unfolding visit_node_eq o' Let_def w1_def fresh_def pf_def by (simp add: w0_def cong: if_cong)
    show ?thesis using w'(1) unfolding e [symmetric] w0_def .
  qed
  have pf: "RESULT \<notin> pf" "pf \<noteq> {}" "?F ?x - {RESULT} \<subseteq> pf" using x(1) by (auto simp: pf_def out_flags_def)
  have no_loop: "?x \<notin> set (parents c)" using T(1) x(2) ps by (auto simp: times_increase_def)
  have F': "mb_flags w' y = ?F y \<union> (if y = ?x \<and> fresh then {RESULT} else {}) \<union> (if y \<in> set (parents c) then pf else {})" for y
    by (auto simp: w'(3) w1(3))
  have sound: "paint_sound rd a b ?F" using P by (simp add: painted_def)
  have pf_mem: "PARENT1 \<in> pf \<Longrightarrow> ancestor rd {a} ?x" "PARENT2 \<in> pf \<Longrightarrow> ancestor rd {b} ?x"
    "STALE \<in> pf \<Longrightarrow> STALE \<in> ?F ?x \<or> common rd a b ?x"
    using sound by (auto simp: pf_def out_flags_def both_def paint_sound_def common_def split: if_splits)
  have sound': "paint_sound rd a b (mb_flags w')"
    unfolding paint_sound_def
  proof (intro allI conjI impI)
    fix y
    show "ancestor rd {a} y" if "PARENT1 \<in> mb_flags w' y"
      using that pf_mem(1) sound ps unfolding F' paint_sound_def by (auto split: if_splits)
    show "ancestor rd {b} y" if "PARENT2 \<in> mb_flags w' y"
      using that pf_mem(2) sound ps unfolding F' paint_sound_def by (auto split: if_splits)
    assume "STALE \<in> mb_flags w' y"
    then consider "STALE \<in> ?F y" | "y \<in> parents_of rd ?x" "STALE \<in> ?F ?x" | "y \<in> parents_of rd ?x" "common rd a b ?x"
      using pf_mem(3) ps unfolding F' by (auto split: if_splits)
    then show "\<exists>z. common rd a b z \<and> behind rd z y"
    proof cases
      case 1
      then show ?thesis using sound by (auto simp: paint_sound_def)
    next
      case 2
      then show ?thesis using sound behind_parent unfolding paint_sound_def by blast
    next
      case 3
      then show ?thesis using behind_parent0 by blast
    qed
  qed
  have passed: "passed_on rd (mb_flags w') y" if y: "mb_flags w' y \<noteq> {}" "y \<notin> mb_oids w'" for y
  proof (cases "y = ?x")
    case True
    have "out_flags (mb_flags w' ?x) = pf" using no_loop by (auto simp: F' pf_def out_flags_def both_def)
    then have "\<forall>p \<in> parents_of rd ?x. out_flags (mb_flags w' ?x) \<subseteq> mb_flags w' p" unfolding ps F' by auto
    moreover have "both (mb_flags w' ?x) \<longrightarrow> RESULT \<in> mb_flags w' ?x \<or> STALE \<in> mb_flags w' ?x"
      using no_loop by (auto simp: F' fresh_def both_def)
    ultimately show ?thesis using True by (simp add: passed_on_def)
  next
    case False
    have same: "mb_flags w' y = ?F y" using y(2) w'(5) False by (auto simp: F' w1(3) split: if_splits)
    have "y \<notin> mb_oids w" using y(2) w'(4) False set_q by (auto simp: mb_oids_def w1(2))
    then have "passed_on rd ?F y" using P y(1) same by (auto simp: painted_def)
    then show ?thesis by (rule passed_on_mono) (use same F' in auto)
  qed
  have cand: "candidates_ok rd a b w'"
  proof -
    have C: "\<And>y. RESULT \<in> ?F y \<longleftrightarrow> y \<in> fst ` set (candidates w)" "distinct (map fst (candidates w))"
        "\<forall>c \<in> set (candidates w). rd (fst c) = Inr c \<and> best_common rd a b (fst c)"
      using P by (simp_all add: painted_def candidates_ok_def)
    have best: "best_common rd a b ?x" if fresh
    proof -
      have "common rd a b ?x" using that sound by (auto simp: fresh_def both_def paint_sound_def common_def)
      moreover have "STALE \<notin> ?F ?x" using that by (simp add: fresh_def)
      ultimately show ?thesis using stale_when_popped [OF P T max] by (auto simp: best_common_def)
    qed
    have cs: "candidates w' = candidates w @ (if fresh then [node_commit node] else [])" using w'(2) w1(1) by simp
    have fr: "fresh \<Longrightarrow> ?x \<notin> fst ` set (candidates w)" using C(1) by (auto simp: fresh_def)
    have "RESULT \<in> mb_flags w' y \<longleftrightarrow> y \<in> fst ` set (candidates w')" for y
      using C(1) [of y] pf(1) c(1) by (auto simp: F' cs)
    moreover have "distinct (map fst (candidates w'))" using C(2) fr c(1) by (auto simp: cs)
    moreover have "\<forall>d \<in> set (candidates w'). rd (fst d) = Inr d \<and> best_common rd a b (fst d)"
      using C(3) best x(3) c(1) by (auto simp: cs split: if_splits)
    ultimately show ?thesis by (simp add: candidates_ok_def)
  qed
  have queue: "mb_flags w' (node_oid n) - {RESULT} \<noteq> {} \<and> node_oid n \<in> S \<and> rd (node_oid n) = Inr (node_commit n)"
    if n: "n \<in> set (mb_queue w')" for n
  proof (cases "n \<in> set q")
    case True
    then show ?thesis using Q [of n] set_q F' [of "node_oid n"] by auto
  next
    case False
    then have "node_oid n \<in> set (parents c)" "rd (node_oid n) = Inr (node_commit n)" using w'(6) n w1(2) by auto
    moreover from this(1) have "pf \<subseteq> mb_flags w' (node_oid n)" by (auto simp: F')
    ultimately show ?thesis using pf(1,2) c(2) by blast
  qed
  have "painted rd S a b w'"
    using sound' passed cand queue P unfolding painted_def by (auto simp: F')
  moreover have "queue_weight k w1 = queue_weight k (w\<lparr>mb_queue := q\<rparr>)" by (simp add: queue_weight_def w1(2))
  then have "queue_weight k w' < queue_weight k w"
  proof -
    have "rd ?x = Inr (?x, c)" using x(3) c(1) by simp
    then have "Suc (\<Sum>p\<leftarrow>parents c. weight k p) \<le> weight k ?x" using weight_parents [OF T(1) x(2)] k x(2) by blast
    then show ?thesis using w'(7) weight_q \<open>queue_weight k w1 = queue_weight k (w\<lparr>mb_queue := q\<rparr>)\<close> by linarith
  qed
  ultimately show ?thesis using run by blast
qed

lemma build_effect:
  assumes "painted rd S a b w" "times_increase rd S" "a \<in> S" "b \<in> S"
    and k: "\<forall>x \<in> S. \<forall>c. rd x = Inr (x, c) \<longrightarrow> length (parents c) \<le> k" and "queue_weight k w < fuel"
  shows "\<exists>w'. build_candidates fuel rd w = Inr w' \<and> painted rd S a b w' \<and> \<not> mb_still_interesting w'"
  using assms(1,6)
proof (induction fuel arbitrary: w)
  case (Suc fuel)
  show ?case
  proof (cases "mb_still_interesting w")
    case True
    then have "mb_queue w \<noteq> []" by (auto simp: mb_still_interesting_def)
    then obtain node q where pop: "heap_pop (mb_queue w) = Some (node, q)" using heap.pop_exists [of "mb_queue w"] by auto
    obtain w' where w': "visit_node rd node (w\<lparr>mb_queue := q\<rparr>) = Inr w'" "painted rd S a b w'" "queue_weight k w' < queue_weight k w"
      using visit_node_effect [OF Suc.prems(1) assms(2-4) pop k] by blast
    have "queue_weight k w' < fuel" using w'(3) Suc.prems(2) by simp
    from Suc.IH [OF w'(2) this] show ?thesis using True pop w'(1) by simp
  qed (use Suc.prems in auto)
qed simp

lemma exhausted_best:
  assumes P: "painted rd S a b w" and "\<not> mb_still_interesting w" "best_common rd a b x"
  shows "RESULT \<in> mb_flags w x"
proof -
  have stale: "STALE \<in> mb_flags w z" if "z \<in> mb_oids w" for z
    using assms(2) that by (auto simp: mb_still_interesting_def list_ex_iff mb_oids_def node_oid_def)
  have sound: "paint_sound rd a b (mb_flags w)" using P by (simp add: painted_def)
  have clean: "z \<notin> mb_oids w" if "ancestor rd {z} x" for z
  proof
    assume "z \<in> mb_oids w"
    then obtain y where y: "common rd a b y" "behind rd y z" using stale sound by (auto simp: paint_sound_def)
    then have "behind rd y x" using behind_ancestor that by blast
    then show False using assms(3) y(1) by (auto simp: best_common_def)
  qed
  have reach: "f \<in> mb_flags w z" if "ancestor rd {r} z" "ancestor rd {z} x" "f \<in> mb_flags w r" "f \<noteq> RESULT" for f r z
    using that(1,2)
  proof (induction rule: ancestor.induct)
    case (anc_root z)
    then show ?case using that(3) by simp
  next
    case (anc_parent y p)
    have "ancestor rd {y} p" using anc_parent.hyps(2) by blast
    then have y: "ancestor rd {y} x" using anc_parent.prems by (rule ancestor_trans)
    show ?case by (rule painted_passed(1) [OF P clean [OF y] anc_parent.hyps(2) anc_parent.IH [OF y] that(4)])
  qed
  have "ancestor rd {x} x" by blast
  moreover have "ancestor rd {a} x" "ancestor rd {b} x" using assms(3) by (simp_all add: best_common_def common_def)
  ultimately have "PARENT1 \<in> mb_flags w x" "PARENT2 \<in> mb_flags w x" using reach P by (auto simp: painted_def)
  then have "both (mb_flags w x)" "passed_on rd (mb_flags w) x" "mb_flags w x \<noteq> {}"
    using P clean [OF \<open>ancestor rd {x} x\<close>] unfolding painted_def both_def by blast+
  then have "RESULT \<in> mb_flags w x \<or> STALE \<in> mb_flags w x" by (simp add: passed_on_def)
  moreover have "STALE \<notin> mb_flags w x" using sound assms(3) by (auto simp: paint_sound_def best_common_def)
  ultimately show ?thesis by blast
qed

lemma start_painted:
  assumes "x \<in> S" "y \<in> S" "rd x = Inr (x, c)" "rd y = Inr (y, d)"
  shows "painted rd S x y (mb_start (x, c) (y, d))"
proof -
  let ?w = "mb_start (x, c) (y, d)"
  have F: "mb_flags ?w z = (if z = x then {PARENT1} else {}) \<union> (if z = y then {PARENT2} else {})" for z
  proof -
    have "mb_flags \<lparr>candidates = [], mb_queue = [], node_flags = Map.empty, mb_index = 0\<rparr> z = {}" for z by (simp add: mb_flags_def)
    then show ?thesis by (auto simp: mb_start_def push_init_def)
  qed
  have q: "mb_oids ?w = {x, y}" "mb_queue ?w = [CommitNode (y, d) 1, CommitNode (x, c) 0]" "candidates ?w = []"
    by (auto simp: mb_start_def push_init_def mb_oids_def node_oid_def mb_push_def mb_insert_flags_def)
  have "paint_sound rd x y (mb_flags ?w)" by (auto simp: paint_sound_def F split: if_splits)
  moreover have "candidates_ok rd x y ?w" by (auto simp: candidates_ok_def q F split: if_splits)
  moreover have "\<forall>n \<in> set (mb_queue ?w). mb_flags ?w (node_oid n) - {RESULT} \<noteq> {} \<and> node_oid n \<in> S \<and> rd (node_oid n) = Inr (node_commit n)"
    using assms by (simp add: q F node_oid_def)
  ultimately show ?thesis by (auto simp: painted_def q F split: if_splits)
qed

lemma merge_bases_best:
  assumes "times_increase rd S" "x \<in> S" "y \<in> S" "rd x = Inr (x, c)" "rd y = Inr (y, d)"
  shows "\<exists>n L. (\<forall>fuel \<ge> n. find_merge_bases fuel rd (x, c) (y, d) = Inr L)
    \<and> distinct (map fst L) \<and> fst ` set L = {z. best_common rd x y z} \<and> (\<forall>c \<in> set L. rd (fst c) = Inr c)"
proof -
  define k where "k = Max (insert 0 ((\<lambda>z. length (parents (snd (projr (rd z))))) ` S))"
  have k: "\<forall>z \<in> S. \<forall>c. rd z = Inr (z, c) \<longrightarrow> length (parents c) \<le> k"
    unfolding k_def using finite_store by (intro ballI allI impI Max_ge) force+
  let ?n = "Suc (queue_weight k (mb_start (x, c) (y, d)))"
  have fin: "\<exists>w. build_candidates fuel rd (mb_start (x, c) (y, d)) = Inr w \<and> painted rd S x y w \<and> \<not> mb_still_interesting w" if "?n \<le> fuel" for fuel
    using build_effect [OF start_painted [OF assms(2-5)] assms(1-3) k] that by simp
  obtain w where w: "build_candidates ?n rd (mb_start (x, c) (y, d)) = Inr w" "painted rd S x y w" "\<not> mb_still_interesting w"
    using fin [OF order_refl] by blast
  have same: "build_candidates fuel rd (mb_start (x, c) (y, d)) = Inr w" if "?n \<le> fuel" for fuel
    by (rule build_more [OF w(1) that])
  have C: "\<And>z. RESULT \<in> mb_flags w z \<longleftrightarrow> z \<in> fst ` set (candidates w)" "distinct (map fst (candidates w))"
      "\<forall>c \<in> set (candidates w). rd (fst c) = Inr c \<and> best_common rd x y (fst c)"
    using w(2) by (simp_all add: painted_def candidates_ok_def)
  have "paint_sound rd x y (mb_flags w)" using w(2) by (simp add: painted_def)
  then have clean: "STALE \<notin> mb_flags w z" if "best_common rd x y z" for z
    using that by (auto simp: paint_sound_def best_common_def)
  have all: "filter (\<lambda>c. STALE \<notin> mb_flags w (fst c)) (candidates w) = candidates w" using C(3) clean by (simp add: filter_id_conv)
  have "fst ` set (candidates w) = {z. best_common rd x y z}"
    using C(1,3) exhausted_best [OF w(2,3)] by blast
  then show ?thesis using same all C(2,3) by (intro exI [of _ ?n] exI [of _ "candidates w"]) (simp add: find_merge_bases_def)
qed

end

section \<open>Merge bases of a repository\<close>

text \<open>
  C5. The merge bases of two commits of a finite commit graph. When every commit is younger than its
  parents the search returns, and the merge bases are exactly the best common ancestors: the common
  ancestors that are not behind another common ancestor. None is listed twice, and each is as the
  object database has it.
\<close>

theorem find_merge_bases_spec:
  assumes "commit_store rd S" "times_increase rd S" "x \<in> S" "y \<in> S" "rd x = Inr (x, c)" "rd y = Inr (y, d)"
  shows "\<exists>n L. (\<forall>fuel \<ge> n. find_merge_bases fuel rd (x, c) (y, d) = Inr L)
    \<and> distinct (map fst L) \<and> fst ` set L = {z. best_common rd x y z} \<and> (\<forall>c \<in> set L. rd (fst c) = Inr c)"
  by (rule commit_store.merge_bases_best [OF assms])

text \<open>Two commits that merge the same two commits have both as merge bases.\<close>

definition criss_cross :: "(oid \<times> nat \<times> oid list) list" where
  "criss_cross = [([5], 5, [[3], [2]]), ([4], 4, [[2], [3]]), ([3], 3, [[1]]), ([2], 2, [[1]]), ([1], 1, [])]"

interpretation criss_cross_store: commit_store "graph_read criss_cross" "fst ` set criss_cross"
  by (rule graph_store) (simp add: graph_closed_def criss_cross_def)

lemma criss_cross_bases:
  "find_merge_bases 20 (graph_read criss_cross) ([5], graph_commit 5 [[3], [2]]) ([4], graph_commit 4 [[2], [3]])
   = Inr [([3], graph_commit 3 [[1]]), ([2], graph_commit 2 [[1]])]"
  by code_simp

theorem find_merge_bases_spec_witness:
  "{z. best_common (graph_read criss_cross) [5] [4] z} = {[3], [2]}"
proof -
  let ?rd = "graph_read criss_cross"
  have "times_increase ?rd (fst ` set criss_cross)"
    by (simp add: times_increase_def parents_of_def time_of_def graph_read_def criss_cross_def graph_commit_def time_key_def commit_time_def)
  moreover have "[5] \<in> fst ` set criss_cross" "[4] \<in> fst ` set criss_cross" by (simp_all add: criss_cross_def)
  moreover have "?rd [5] = Inr ([5], graph_commit 5 [[3], [2]])" "?rd [4] = Inr ([4], graph_commit 4 [[2], [3]])"
    by (simp_all add: graph_read_def criss_cross_def)
  ultimately obtain n L where L: "\<forall>fuel \<ge> n. find_merge_bases fuel ?rd ([5], graph_commit 5 [[3], [2]]) ([4], graph_commit 4 [[2], [3]]) = Inr L"
      "fst ` set L = {z. best_common ?rd [5] [4] z}"
    using find_merge_bases_spec [OF criss_cross_store.commit_store_axioms] by blast
  have "find_merge_bases (max n 20) ?rd ([5], graph_commit 5 [[3], [2]]) ([4], graph_commit 4 [[2], [3]])
      = Inr [([3], graph_commit 3 [[1]]), ([2], graph_commit 2 [[1]])]"
    using criss_cross_bases build_more [of 20 ?rd _ _ "max n 20"]
    by (fastforce simp: find_merge_bases_def and_then_eq_Inr)
  then have "L = [([3], graph_commit 3 [[1]]), ([2], graph_commit 2 [[1]])]" using L(1) by (metis Inr_inject max.cobounded1)
  then show ?thesis using L(2) by auto
qed

text \<open>
  With equal times a merge base may be behind another one. Both heads have the parents 3 and 1, and 3
  is followed by 2 and then by 1; commits 1 and 2 have the same time. Commit 1 leaves the queue before
  the paint arrives over 2, and the search stops with 2, stale, in the queue.
\<close>

lemma equal_times_extra_base:
  defines "g \<equiv> [([5], 3, [[3], [1]]), ([4], 3, [[3], [1]]), ([3], 2, [[2]]), ([2], 1, [[1]]), ([1], 1, [])]"
  shows "find_merge_bases 20 (graph_read g) ([5], graph_commit 3 [[3], [1]]) ([4], graph_commit 3 [[3], [1]])
      = Inr [([3], graph_commit 2 [[2]]), ([1], graph_commit 1 [])]"
    and "behind (graph_read g) [3] [1]" "times_ordered (graph_read g) (fst ` set g)"
proof -
  show "find_merge_bases 20 (graph_read g) ([5], graph_commit 3 [[3], [1]]) ([4], graph_commit 3 [[3], [1]])
      = Inr [([3], graph_commit 2 [[2]]), ([1], graph_commit 1 [])]"
    unfolding g_def by code_simp
  have "[2] \<in> parents_of (graph_read g) [3]" "[1] \<in> parents_of (graph_read g) [2]"
    by (simp_all add: parents_of_def graph_read_def g_def graph_commit_def)
  then show "behind (graph_read g) [3] [1]" by (auto simp: behind_def)
  show "times_ordered (graph_read g) (fst ` set g)"
    by (simp add: times_ordered_def parents_of_def time_of_def graph_read_def g_def graph_commit_def time_key_def commit_time_def)
qed

end
