(* ===== verification/Bit_Tree_Iter.thy ===== *)
theory Bit_Tree_Iter
  imports Bit_Index_Entry
begin

text \<open>
  Tree iterators, \<^verbatim>\<open>libbit/src/iter/tree_iter.rs\<close>: the trait \<open>BitTreeIterator\<close> as a record of operations
  with the forest of entries that is left as its abstract state, the methods the trait derives from
  \<open>next\<close>, \<open>over\<close> and \<open>peek\<close>, and the iterator over the trees of the object database, \<open>TreeIter\<close>. Reading a
  tree object is the parameter \<open>treeish\<close>.
\<close>

section \<open>Model: the trait\<close>

datatype iter_kind = TreeKind | IndexKind | WorktreeKind

type_synonym 's iter_step = "'s \<Rightarrow> index_entry option bit_result \<times> 's"

record 's tree_iter_ops =
  it_kind :: iter_kind
  it_next :: "'s iter_step"
  it_over :: "'s iter_step"
  it_peek :: "'s iter_step"

text \<open>
  \<open>collect_over_tree_filtered\<close>: the entry of the tree, and behind it the entries whose path starts with
  the path of the tree, of which those that satisfy the predicate are kept. The loop is bounded by the
  fuel.
\<close>

fun collect_loop :: "nat \<Rightarrow> 's tree_iter_ops \<Rightarrow> (index_entry \<Rightarrow> bool) \<Rightarrow> bit_path \<Rightarrow> index_entry list \<Rightarrow> 's
    \<Rightarrow> index_entry list bit_result \<times> 's" where
  "collect_loop 0 ops pred base container s = (Inl Diverge, s)"
| "collect_loop (Suc fuel) ops pred base container s =
     (case it_peek ops s of
        (Inl e, s) \<Rightarrow> (Inl e, s)
      | (Inr None, s) \<Rightarrow> (Inr container, s)
      | (Inr (Some entry), s) \<Rightarrow>
          if path_starts_with (ie_path entry) base
          then (case it_next ops s of
                  (Inl e, s) \<Rightarrow> (Inl e, s)
                | (Inr None, s) \<Rightarrow> (Inl Panic, s)
                | (Inr (Some entry), s) \<Rightarrow>
                    collect_loop fuel ops pred base (if pred entry then container @ [entry] else container) s)
          else (Inr container, s))"

definition collect_over_tree_filtered :: "nat \<Rightarrow> 's tree_iter_ops \<Rightarrow> (index_entry \<Rightarrow> bool) \<Rightarrow> index_entry list \<Rightarrow> 's
    \<Rightarrow> (index_entry \<times> index_entry list) bit_result \<times> 's" where
  "collect_over_tree_filtered fuel ops pred container s =
     (case it_next ops s of
        (Inl e, s) \<Rightarrow> (Inl e, s)
      | (Inr None, s) \<Rightarrow> (Inl Panic, s)
      | (Inr (Some tree_entry), s) \<Rightarrow>
          (case collect_loop fuel ops pred (ie_path tree_entry) container s of
             (res, s) \<Rightarrow> (and_then res (\<lambda>c. Inr (tree_entry, c)), s)))"

definition ie_is_tree :: "index_entry \<Rightarrow> bool" where
  "ie_is_tree e \<longleftrightarrow> is_tree (ie_mode e)"

definition ie_is_blob :: "index_entry \<Rightarrow> bool" where
  "ie_is_blob e \<longleftrightarrow> is_blob (ie_mode e)"

definition collect_over_tree_blobs :: "nat \<Rightarrow> 's tree_iter_ops \<Rightarrow> index_entry list \<Rightarrow> 's
    \<Rightarrow> (index_entry \<times> index_entry list) bit_result \<times> 's" where
  "collect_over_tree_blobs fuel ops = collect_over_tree_filtered fuel ops ie_is_blob"

definition collect_over_tree_all :: "nat \<Rightarrow> 's tree_iter_ops \<Rightarrow> index_entry list \<Rightarrow> 's
    \<Rightarrow> (index_entry \<times> index_entry list) bit_result \<times> 's" where
  "collect_over_tree_all fuel ops = collect_over_tree_filtered fuel ops (\<lambda>_. True)"

text \<open>
  \<open>collect_over_tree_files_iter\<close>, run to its end: \<open>CollectSubtree\<close> yields what starts with the path of the
  peeked tree, the tree itself included, and the filter keeps the blobs. A \<open>peek\<close> that fails or is at the
  end, or that is not a tree, panics.
\<close>

definition iter_files :: "nat \<Rightarrow> 's tree_iter_ops \<Rightarrow> 's \<Rightarrow> index_entry list bit_result \<times> 's" where
  "iter_files fuel ops s =
     (case it_peek ops s of
        (Inr (Some entry), s) \<Rightarrow>
          if ie_mode entry = TREE then collect_loop fuel ops ie_is_blob (ie_path entry) [] s else (Inl Panic, s)
      | (_, s) \<Rightarrow> (Inl Panic, s))"

section \<open>Model: the iterator over tree objects\<close>

text \<open>The stack has its top at the front.\<close>

record tree_iter =
  entry_stack :: "tree_entry list"
  previous_len :: nat

definition tree_iter_new :: "oid \<Rightarrow> tree_iter" where
  "tree_iter_new o' =
     \<lparr>entry_stack = [\<lparr>te_mode = TREE, te_path = BitPath [], te_oid = (if is_known o' then o' else EMPTY_TREE)\<rparr>], previous_len = 0\<rparr>"

definition child_entry :: "tree_entry \<Rightarrow> tree_entry \<Rightarrow> tree_entry" where
  "child_entry parent e = e\<lparr>te_path := join (te_path parent) (path_bytes (te_path e))\<rparr>"

definition child_entries :: "tree_entry \<Rightarrow> tree_entry list \<Rightarrow> tree_entry list" where
  "child_entries parent es = map (child_entry parent) (filter (\<lambda>e. te_mode e \<noteq> GITLINK) es)"

fun tree_iter_pop :: "(oid \<Rightarrow> tree_entry list bit_result) \<Rightarrow> tree_entry list \<Rightarrow> nat \<Rightarrow> index_entry option bit_result \<times> tree_iter" where
  "tree_iter_pop treeish [] pl = (Inr None, \<lparr>entry_stack = [], previous_len = pl\<rparr>)"
| "tree_iter_pop treeish (entry # st) pl =
     (case te_mode entry of
        TREE \<Rightarrow>
          if is_unknown (te_oid entry) then (Inr (Some (entry_from_tree_entry entry)), \<lparr>entry_stack = st, previous_len = pl\<rparr>)
          else (case treeish (te_oid entry) of
                  Inl e \<Rightarrow> (Inl e, \<lparr>entry_stack = st, previous_len = pl\<rparr>)
                | Inr es \<Rightarrow> (Inr (Some (entry_from_tree_entry entry)),
                            \<lparr>entry_stack = child_entries entry es @ st, previous_len = length st\<rparr>))
      | GITLINK \<Rightarrow> tree_iter_pop treeish st pl
      | _ \<Rightarrow> (Inr (Some (entry_from_tree_entry entry)), \<lparr>entry_stack = st, previous_len = pl\<rparr>))"

definition tree_iter_next :: "(oid \<Rightarrow> tree_entry list bit_result) \<Rightarrow> tree_iter iter_step" where
  "tree_iter_next treeish s = tree_iter_pop treeish (entry_stack s) (previous_len s)"

definition tree_iter_over :: "(oid \<Rightarrow> tree_entry list bit_result) \<Rightarrow> tree_iter iter_step" where
  "tree_iter_over treeish s =
     (case tree_iter_next treeish s of
        (Inr (Some entry), s) \<Rightarrow>
          (Inr (Some entry),
           if ie_mode entry = TREE
           then s\<lparr>entry_stack := drop (length (entry_stack s) - previous_len s) (entry_stack s)\<rparr> else s)
      | r \<Rightarrow> r)"

definition tree_iter_peek :: "tree_iter iter_step" where
  "tree_iter_peek s = (Inr (case entry_stack s of [] \<Rightarrow> None | e # _ \<Rightarrow> Some (entry_from_tree_entry e)), s)"

definition tree_iter_ops_of :: "(oid \<Rightarrow> tree_entry list bit_result) \<Rightarrow> tree_iter tree_iter_ops" where
  "tree_iter_ops_of treeish =
     \<lparr>it_kind = TreeKind, it_next = tree_iter_next treeish, it_over = tree_iter_over treeish, it_peek = tree_iter_peek\<rparr>"

section \<open>Forests\<close>

datatype node = Node (entry: index_entry) (subnodes: "node list")

fun flat :: "node list \<Rightarrow> index_entry list" where
  "flat [] = []"
| "flat (Node e cs # F) = e # flat cs @ flat F"

lemma flat_append: "flat (A @ B) = flat A @ flat B"
  by (induction A rule: flat.induct) simp_all

text \<open>
  What is left of an iteration: only trees have entries below them, everything below a tree starts with
  its path and nothing behind it does, and there are no submodules.
\<close>

fun forest_ok :: "node list \<Rightarrow> bool" where
  "forest_ok [] = True"
| "forest_ok (Node e cs # F) =
     ((ie_is_tree e \<or> cs = []) \<and> ie_mode e \<noteq> GITLINK
      \<and> (\<forall>x \<in> set (flat cs). path_starts_with (ie_path x) (ie_path e))
      \<and> (\<forall>x \<in> set (flat F). \<not> path_starts_with (ie_path x) (ie_path e)) \<and> forest_ok cs \<and> forest_ok F)"

definition blobs :: "node list \<Rightarrow> index_entry list" where
  "blobs F = filter ie_is_blob (flat F)"

text \<open>
  The contract of a tree iterator whose entries are the forest that \<open>rel\<close> relates to its state.
\<close>

locale tree_iterator =
  fixes ops :: "'s tree_iter_ops" and rel :: "'s \<Rightarrow> node list \<Rightarrow> bool"
  assumes peek_law: "rel s F \<Longrightarrow> \<exists>s'. it_peek ops s = (Inr (case F of [] \<Rightarrow> None | n # _ \<Rightarrow> Some (entry n)), s') \<and> rel s' F"
    and next_law: "rel s (n # F) \<Longrightarrow> \<exists>s'. it_next ops s = (Inr (Some (entry n)), s') \<and> rel s' (subnodes n @ F)"
    and over_law: "rel s (n # F) \<Longrightarrow> \<exists>s'. it_over ops s = (Inr (Some (entry n)), s') \<and> rel s' F"
begin

lemma peek_Cons: "rel s (n # F) \<Longrightarrow> \<exists>s'. it_peek ops s = (Inr (Some (entry n)), s') \<and> rel s' (n # F)"
  using peek_law [of s "n # F"] by simp

lemma peek_Nil: "rel s [] \<Longrightarrow> \<exists>s'. it_peek ops s = (Inr None, s') \<and> rel s' []"
  using peek_law [of s "[]"] by simp

text \<open>Collecting a subtree takes exactly the entries of the subtree.\<close>

lemma collect_loop_subtree:
  assumes "rel s (cs @ F)" "\<forall>x \<in> set (flat cs). path_starts_with (ie_path x) base"
    and "\<forall>x \<in> set (flat F). \<not> path_starts_with (ie_path x) base" "length (flat cs) < fuel"
  shows "\<exists>s'. collect_loop fuel ops pred base c s = (Inr (c @ filter pred (flat cs)), s') \<and> rel s' F"
  using assms(1,2,4)
proof (induction fuel arbitrary: cs c s)
  case (Suc fuel)
  show ?case
  proof (cases cs)
    case Nil
    show ?thesis
    proof (cases F)
      case Nil
      then show ?thesis using peek_Nil [of s] Suc.prems(1) \<open>cs = []\<close> by auto
    next
      case (Cons m G)
      obtain e ds where m: "m = Node e ds" by (cases m)
      then have "\<not> path_starts_with (ie_path e) base" using assms(3) Cons by simp
      then show ?thesis using peek_Cons [of s m G] Suc.prems(1) \<open>cs = []\<close> Cons m by auto
    qed
  next
    case (Cons n cs')
    obtain e ds where n: "n = Node e ds" by (cases n)
    have fl: "flat cs = e # flat (ds @ cs')" by (simp add: Cons n flat_append)
    obtain s1 where s1: "it_peek ops s = (Inr (Some e), s1)" "rel s1 (n # cs' @ F)"
      using peek_Cons [of s n "cs' @ F"] Suc.prems(1) Cons n by auto
    obtain s2 where s2: "it_next ops s1 = (Inr (Some e), s2)" "rel s2 ((ds @ cs') @ F)"
      using next_law [OF s1(2)] n by auto
    have sub: "\<forall>x \<in> set (flat (ds @ cs')). path_starts_with (ie_path x) base" "length (flat (ds @ cs')) < fuel" "path_starts_with (ie_path e) base"
      using Suc.prems(2,3) fl by auto
    from Suc.IH [OF s2(2) sub(1,2), of "if pred e then c @ [e] else c"] show ?thesis using s1(1) s2(1) sub(3) fl by auto
  qed
qed simp

lemma collect_over_subtree:
  assumes "rel s (Node e cs # F)" "forest_ok (Node e cs # F)" "length (flat cs) < fuel"
  shows "\<exists>s'. collect_over_tree_filtered fuel ops pred c s = (Inr (e, c @ filter pred (flat cs)), s') \<and> rel s' F"
proof -
  obtain s1 where s1: "it_next ops s = (Inr (Some e), s1)" "rel s1 (cs @ F)" using next_law [OF assms(1)] by auto
  obtain s' where "collect_loop fuel ops pred (ie_path e) c s1 = (Inr (c @ filter pred (flat cs)), s')" "rel s' F"
    using collect_loop_subtree [OF s1(2), of "ie_path e" fuel pred c] assms(2,3) by auto
  then show ?thesis using s1(1) by (simp add: collect_over_tree_filtered_def)
qed

lemma iter_files_subtree:
  assumes "rel s (Node e cs # F)" "forest_ok (Node e cs # F)" "ie_mode e = TREE" "length (flat cs) < fuel"
  shows "\<exists>s'. iter_files (Suc fuel) ops s = (Inr (filter ie_is_blob (flat cs)), s') \<and> rel s' F"
proof -
  obtain s1 where s1: "it_peek ops s = (Inr (Some e), s1)" "rel s1 ([Node e cs] @ F)" using peek_Cons [OF assms(1)] by auto
  have "\<forall>x \<in> set (flat [Node e cs]). path_starts_with (ie_path x) (ie_path e)" using assms(2) by (simp add: path_starts_with_def)
  moreover have "\<forall>x \<in> set (flat F). \<not> path_starts_with (ie_path x) (ie_path e)" "length (flat [Node e cs]) < Suc fuel"
    using assms(2,4) by simp_all
  moreover have "filter ie_is_blob (flat [Node e cs]) = filter ie_is_blob (flat cs)" using assms(3) by (simp add: ie_is_blob_def)
  ultimately obtain s' where "collect_loop (Suc fuel) ops ie_is_blob (ie_path e) [] s1 = (Inr (filter ie_is_blob (flat cs)), s')" "rel s' F"
    using collect_loop_subtree [OF s1(2), of "ie_path e" "Suc fuel" ie_is_blob "[]"] by auto
  then show ?thesis using s1(1) assms(3) by (auto simp: iter_files_def)
qed

end

section \<open>The iterator over tree objects\<close>

text \<open>What the object database holds below an entry.\<close>

inductive unfolds :: "(oid \<Rightarrow> tree_entry list bit_result) \<Rightarrow> tree_entry \<Rightarrow> node \<Rightarrow> bool" for treeish where
  unf_blob: "is_blob (te_mode e) \<Longrightarrow> unfolds treeish e (Node (entry_from_tree_entry e) [])"
| unf_tree: "te_mode e = TREE \<Longrightarrow> is_known (te_oid e) \<Longrightarrow> treeish (te_oid e) = Inr es
    \<Longrightarrow> list_all2 (unfolds treeish) (child_entries e es) ns \<Longrightarrow> unfolds treeish e (Node (entry_from_tree_entry e) ns)"
  monos list_all2_mono

inductive_cases unfoldsE: "unfolds treeish e n"

definition tree_iter_rel :: "(oid \<Rightarrow> tree_entry list bit_result) \<Rightarrow> tree_iter \<Rightarrow> node list \<Rightarrow> bool" where
  "tree_iter_rel treeish s F \<longleftrightarrow> list_all2 (unfolds treeish) (entry_stack s) F"

lemma unfolds_entry: "unfolds treeish e n \<Longrightarrow> entry n = entry_from_tree_entry e"
  by (erule unfoldsE) simp_all

lemma tree_next_step:
  assumes "tree_iter_rel treeish s (n # F)"
  obtains s' where "tree_iter_next treeish s = (Inr (Some (entry n)), s')" "tree_iter_rel treeish s' (subnodes n @ F)"
    "ie_mode (entry n) = TREE \<Longrightarrow> drop (length (entry_stack s') - previous_len s') (entry_stack s') = tl (entry_stack s)"
    "ie_mode (entry n) \<noteq> TREE \<Longrightarrow> entry_stack s' = tl (entry_stack s) \<and> subnodes n = []"
proof -
  obtain e st where st: "entry_stack s = e # st" "unfolds treeish e n" "list_all2 (unfolds treeish) st F"
    using assms by (auto simp: tree_iter_rel_def list_all2_Cons2)
  from st(2) show thesis
  proof cases
    case unf_blob
    then have m: "te_mode e \<noteq> TREE" "te_mode e \<noteq> GITLINK" by auto
    then have "tree_iter_next treeish s = (Inr (Some (entry_from_tree_entry e)), \<lparr>entry_stack = st, previous_len = previous_len s\<rparr>)"
      by (cases "te_mode e") (simp_all add: tree_iter_next_def st(1))
    then show thesis using unf_blob m st by (intro that) (auto simp: tree_iter_rel_def entry_from_tree_entry_def)
  next
    case (unf_tree es ns)
    then have "tree_iter_next treeish s = (Inr (Some (entry_from_tree_entry e)),
        \<lparr>entry_stack = child_entries e es @ st, previous_len = length st\<rparr>)"
      by (simp add: tree_iter_next_def st(1) is_known_def is_unknown_def)
    then show thesis using unf_tree st
      by (intro that) (auto simp: tree_iter_rel_def entry_from_tree_entry_def intro: list_all2_appendI)
  qed
qed

interpretation tree_objects: tree_iterator "tree_iter_ops_of treeish" "tree_iter_rel treeish" for treeish
proof
  fix s F n
  show "tree_iter_rel treeish s F \<Longrightarrow>
      \<exists>s'. it_peek (tree_iter_ops_of treeish) s = (Inr (case F of [] \<Rightarrow> None | n # _ \<Rightarrow> Some (entry n)), s') \<and> tree_iter_rel treeish s' F"
    by (cases "entry_stack s"; cases F)
      (auto simp: tree_iter_ops_of_def tree_iter_peek_def tree_iter_rel_def unfolds_entry)
  assume r: "tree_iter_rel treeish s (n # F)"
  obtain s' where s': "tree_iter_next treeish s = (Inr (Some (entry n)), s')" "tree_iter_rel treeish s' (subnodes n @ F)"
      "ie_mode (entry n) = TREE \<Longrightarrow> drop (length (entry_stack s') - previous_len s') (entry_stack s') = tl (entry_stack s)"
      "ie_mode (entry n) \<noteq> TREE \<Longrightarrow> entry_stack s' = tl (entry_stack s) \<and> subnodes n = []"
    using tree_next_step [OF r] by blast
  show "\<exists>s'. it_next (tree_iter_ops_of treeish) s = (Inr (Some (entry n)), s') \<and> tree_iter_rel treeish s' (subnodes n @ F)"
    using s'(1,2) by (simp add: tree_iter_ops_of_def)
  have "list_all2 (unfolds treeish) (tl (entry_stack s)) F" using r by (auto simp: tree_iter_rel_def list_all2_Cons2)
  then show "\<exists>s'. it_over (tree_iter_ops_of treeish) s = (Inr (Some (entry n)), s') \<and> tree_iter_rel treeish s' F"
    using s'(1,3,4) by (auto simp: tree_iter_ops_of_def tree_iter_over_def tree_iter_rel_def)
qed

section \<open>Paths of tree objects\<close>

text \<open>The paths of a repository are the empty path of the root and the clean paths, made of names.\<close>

definition parts :: "bit_path \<Rightarrow> byte list list" where
  "parts p = (if path_bytes p = [] then [] else segments p)"

definition repo_path :: "bit_path \<Rightarrow> bool" where
  "repo_path p \<longleftrightarrow> path_bytes p = [] \<or> clean_path p"

definition name_ok :: "byte list \<Rightarrow> bool" where
  "name_ok nm \<longleftrightarrow> clean_seg nm \<and> b_slash \<notin> set nm"

lemma starts_with_parts:
  assumes "repo_path p" "repo_path q"
  shows "path_starts_with p q \<longleftrightarrow> prefix (parts q) (parts p)"
proof -
  have "components (path_bytes r) = map Normal (parts r)" if "repo_path r" for r
  proof (cases "path_bytes r = []")
    case True
    then show ?thesis by (simp add: parts_def components_def is_absolute_def component_of_def List.map_filter_def)
  next
    case False
    then show ?thesis using that components_clean [of r] by (simp add: repo_path_def parts_def)
  qed
  then show ?thesis using assms by (simp add: path_starts_with_def prefix_map_inj inj_def)
qed

lemma parts_inject: "parts p = parts q \<Longrightarrow> p = q"
  by (metis bit_path.expand parts_def segments_inject segments_nonempty)

lemma split_on_name: "b_slash \<notin> set nm \<Longrightarrow> split_on b_slash nm = [nm]"
  by (induction nm) auto

lemma clean_last: "clean_path p \<Longrightarrow> path_bytes p \<noteq> [] \<and> last (path_bytes p) \<noteq> b_slash"
proof -
  assume c: "clean_path p"
  then have ne: "path_bytes p \<noteq> []" by (auto simp: clean_path_def segments_def clean_seg_def)
  have "last (path_bytes p) \<noteq> b_slash"
  proof
    assume "last (path_bytes p) = b_slash"
    then have "path_bytes p = butlast (path_bytes p) @ b_slash # []" using ne by (metis append_butlast_last_id)
    then have "segments p = split_on b_slash (butlast (path_bytes p)) @ [[]]" unfolding segments_def by (metis split_on.simps(1) split_on_append)
    then show False using c by (simp add: clean_path_def clean_seg_def)
  qed
  then show ?thesis using ne by blast
qed

lemma parts_join:
  assumes "repo_path p" "name_ok nm"
  shows "repo_path (join p nm)" "parts (join p nm) = parts p @ [nm]"
proof -
  have nm: "nm \<noteq> []" "\<not> is_absolute nm" "split_on b_slash nm = [nm]" "clean_seg nm"
    using assms(2) by (cases nm; auto simp: name_ok_def clean_seg_def is_absolute_def split_on_name)+
  show "parts (join p nm) = parts p @ [nm]"
  proof (cases "path_bytes p = []")
    case True
    then show ?thesis using nm by (simp add: join_def path_push_def parts_def segments_def)
  next
    case False
    then have "clean_path p" using assms(1) by (simp add: repo_path_def)
    then show ?thesis using False nm clean_last [of p] by (simp add: join_def path_push_def parts_def segments_def split_on_append)
  qed
  then show "repo_path (join p nm)"
    using assms(1) nm(4) by (cases "path_bytes p = []") (auto simp: repo_path_def parts_def clean_path_def split: if_splits)
qed

definition names_ok :: "(oid \<Rightarrow> tree_entry list bit_result) \<Rightarrow> bool" where
  "names_ok treeish \<longleftrightarrow> (\<forall>o' es. treeish o' = Inr es \<longrightarrow> (\<forall>e \<in> set es. name_ok (path_bytes (te_path e))) \<and> distinct (map te_path es))"

text \<open>The forest below a path: it is well formed, below the path, and has all paths on the way.\<close>

definition below_path :: "bit_path \<Rightarrow> node list \<Rightarrow> bool" where
  "below_path p F \<longleftrightarrow> forest_ok F \<and> (\<forall>x \<in> set (flat F). repo_path (ie_path x) \<and> prefix (parts p) (parts (ie_path x))
     \<and> (\<forall>q. repo_path q \<and> strict_prefix (parts p) (parts q) \<and> prefix (parts q) (parts (ie_path x)) \<longrightarrow> q \<in> ie_path ` set (flat F)))"

lemma below_children:
  assumes "repo_path p" "list_all2 (\<lambda>e n. entry n = entry_from_tree_entry e \<and> below_path (te_path e) [n]) (map (child_entry par) es) ns"
    and "te_path par = p" "\<forall>e \<in> set es. name_ok (path_bytes (te_path e))" "distinct (map te_path es)"
  shows "below_path p ns \<and> (\<forall>x \<in> set (flat ns). \<exists>e \<in> set es. prefix (parts p @ [path_bytes (te_path e)]) (parts (ie_path x)))"
  using assms(2,4,5)
proof (induction es arbitrary: ns)
  case (Cons e es)
  obtain n ms where ns: "ns = n # ms" "entry n = entry_from_tree_entry (child_entry par e)" "below_path (te_path (child_entry par e)) [n]"
      "list_all2 (\<lambda>e n. entry n = entry_from_tree_entry e \<and> below_path (te_path e) [n]) (map (child_entry par) es) ms"
    using Cons.prems(1) by (auto simp: list_all2_Cons1)
  have rest: "below_path p ms" "\<forall>x \<in> set (flat ms). \<exists>e \<in> set es. prefix (parts p @ [path_bytes (te_path e)]) (parts (ie_path x))"
    using Cons.IH [OF ns(4)] Cons.prems(2,3) by simp_all
  let ?nm = "path_bytes (te_path e)" and ?c = "te_path (child_entry par e)"
  have c: "repo_path ?c" "parts ?c = parts p @ [?nm]"
    using parts_join [OF assms(1), of ?nm] Cons.prems(2) assms(3) by (simp_all add: child_entry_def)
  obtain f cs where n: "n = Node f cs" by (cases n)
  have f: "ie_path f = ?c" using ns(2) n by (simp add: entry_from_tree_entry_def)
  have sub: "\<And>x. x \<in> set (flat [n]) \<Longrightarrow> repo_path (ie_path x) \<and> prefix (parts p @ [?nm]) (parts (ie_path x))" "forest_ok [n]"
    using ns(3) c(2) by (auto simp: below_path_def)
  have sep: "\<not> path_starts_with (ie_path x) (ie_path f)" if x: "x \<in> set (flat ms)" for x
  proof
    assume "path_starts_with (ie_path x) (ie_path f)"
    moreover have "repo_path (ie_path x)" using rest(1) x by (simp add: below_path_def)
    ultimately have a: "prefix (parts p @ [?nm]) (parts (ie_path x))" using c f by (simp add: starts_with_parts)
    obtain e' where e': "e' \<in> set es" "prefix (parts p @ [path_bytes (te_path e')]) (parts (ie_path x))" using rest(2) x by blast
    from prefix_same_cases [OF a e'(2)] have "te_path e = te_path e'" by (auto simp: bit_path.expand)
    then show False using e'(1) Cons.prems(3) by auto
  qed
  have ok: "forest_ok ns" using sub(2) rest(1) sep by (simp add: ns(1) n below_path_def)
  have fl: "flat ns = flat [n] @ flat ms" by (simp add: ns(1) n)
  have under: "\<forall>x \<in> set (flat ns). repo_path (ie_path x) \<and> prefix (parts p) (parts (ie_path x))"
    using sub(1) rest(1) unfolding fl below_path_def by (auto dest: append_prefixD)
  have closed: "q \<in> ie_path ` set (flat ns)"
    if x: "x \<in> set (flat ns)" and q: "repo_path q" "strict_prefix (parts p) (parts q)" "prefix (parts q) (parts (ie_path x))" for x q
  proof (cases "x \<in> set (flat ms)")
    case True
    then show ?thesis using rest(1) q unfolding below_path_def fl by auto
  next
    case False
    then have xn: "x \<in> set (flat [n])" using x fl by auto
    have "prefix (parts ?c) (parts q)"
    proof -
      have "prefix (parts p @ [?nm]) (parts (ie_path x))" using sub(1) [OF xn] by blast
      from prefix_same_cases [OF q(3) this] show ?thesis using q(2) c(2) by (auto simp: strict_prefix_def prefix_snoc)
    qed
    show ?thesis
    proof (cases "parts q = parts ?c")
      case True
      then have "q = ie_path f" using f parts_inject by simp
      then show ?thesis by (simp add: ns(1) n)
    next
      case False
      then have "strict_prefix (parts ?c) (parts q)" using \<open>prefix (parts ?c) (parts q)\<close> by (simp add: strict_prefix_def)
      then show ?thesis using ns(3) xn q(1,3) unfolding below_path_def fl by auto
    qed
  qed
  show ?case
    using ok under closed rest(2) sub(1) unfolding below_path_def fl by auto
qed (simp add: below_path_def)

lemma unfolds_below:
  assumes "unfolds treeish e n" "names_ok treeish" "repo_path (te_path e)"
  shows "entry n = entry_from_tree_entry e \<and> below_path (te_path e) [n]"
  using assms(1,3)
proof (induction rule: unfolds.induct)
  case (unf_blob e)
  then show ?case by (auto simp: below_path_def entry_from_tree_entry_def ie_is_tree_def strict_prefix_def prefix_order.order_antisym)
next
  case (unf_tree e es ns)
  have es: "\<forall>x \<in> set es. name_ok (path_bytes (te_path x))" "distinct (map te_path es)"
    using assms(2) unf_tree.hyps(3) by (auto simp: names_ok_def)
  let ?es = "filter (\<lambda>x. te_mode x \<noteq> GITLINK) es"
  have ok: "\<forall>x \<in> set ?es. name_ok (path_bytes (te_path x))" "distinct (map te_path ?es)" using es by (auto simp: distinct_map inj_on_def)
  have "repo_path (te_path x)" if "x \<in> set (child_entries e es)" for x
    using that ok(1) parts_join(1) [OF unf_tree.prems] by (auto simp: child_entries_def child_entry_def)
  then have "list_all2 (\<lambda>e n. entry n = entry_from_tree_entry e \<and> below_path (te_path e) [n]) (map (child_entry e) ?es) ns"
    using unf_tree.IH unfolding child_entries_def list_all2_conv_all_nth by (metis nth_mem)
  then have b: "below_path (te_path e) ns"
      "\<forall>x \<in> set (flat ns). \<exists>y \<in> set ?es. prefix (parts (te_path e) @ [path_bytes (te_path y)]) (parts (ie_path x))"
    using below_children [OF unf_tree.prems _ refl ok] by blast+
  have p: "ie_path (entry_from_tree_entry e) = te_path e" "ie_mode (entry_from_tree_entry e) = TREE"
    using unf_tree.hyps(1) by (simp_all add: entry_from_tree_entry_def)
  have "forest_ok [Node (entry_from_tree_entry e) ns]"
    using b(1) p unf_tree.prems by (auto simp: below_path_def ie_is_tree_def starts_with_parts)
  then show ?case using b(1) p unf_tree.prems by (auto simp: below_path_def strict_prefix_def prefix_order.order_antisym)
qed

end
