(* ===== verification/Bit_Tree_Diff.thy ===== *)
theory Bit_Tree_Diff
  imports Bit_Tree_Iter
begin

text \<open>
  Differences of trees, \<^verbatim>\<open>libbit/src/diff/tree_diff.rs\<close> and \<^verbatim>\<open>libbit/src/diff.rs\<close>: \<open>TreeDiffIter\<close> walks two
  tree iterators at once, \<open>TreeStatusDiffer\<close> collects what was created, modified and deleted. The check of
  a file of the work tree against the index is the parameter \<open>wt\<close>, which also returns the entry with
  its hash filled in.
\<close>

section \<open>Model: the iterator of differences\<close>

text \<open>
  The entries with a \<open>TreeEntriesConsumer\<close> borrow one of the two iterators, which stands at the tree: it
  is the state the entry is returned with.
\<close>

datatype tree_diff_entry =
    DeletedBlob index_entry
  | CreatedBlob index_entry
  | ModifiedBlob index_entry index_entry
  | MaybeModifiedTree index_entry
  | UnmodifiedBlob index_entry
  | UnmodifiedTree
  | DeletedTree
  | CreatedTree
  | BlobToTree index_entry
  | TreeToBlob index_entry

definition diff_cmp :: "index_entry \<Rightarrow> index_entry \<Rightarrow> ordering" where
  "diff_cmp a b = bit_path_cmp (ie_path a) (ie_path b)"

datatype ('s, 't) diff_step = DiffReturn "tree_diff_entry option bit_result" 's 't | DiffAgain 's 't

text \<open>Advance an iterator and go on, unless that fails.\<close>

definition advance_old :: "'s iter_step \<Rightarrow> ('s \<Rightarrow> 't \<Rightarrow> ('s, 't) diff_step) \<Rightarrow> 's \<Rightarrow> 't \<Rightarrow> ('s, 't) diff_step" where
  "advance_old f k s1 s2 = (case f s1 of (Inl e, s1) \<Rightarrow> DiffReturn (Inl e) s1 s2 | (Inr _, s1) \<Rightarrow> k s1 s2)"

definition advance_new :: "'t iter_step \<Rightarrow> ('s \<Rightarrow> 't \<Rightarrow> ('s, 't) diff_step) \<Rightarrow> 's \<Rightarrow> 't \<Rightarrow> ('s, 't) diff_step" where
  "advance_new f k s1 s2 = (case f s2 of (Inl e, s2) \<Rightarrow> DiffReturn (Inl e) s1 s2 | (Inr _, s2) \<Rightarrow> k s1 s2)"

definition on_created :: "'t tree_iter_ops \<Rightarrow> index_entry \<Rightarrow> 's \<Rightarrow> 't \<Rightarrow> ('s, 't) diff_step" where
  "on_created ops2 new s1 s2 =
     (if ie_is_tree new then DiffReturn (Inr (Some CreatedTree)) s1 s2
      else advance_new (it_next ops2) (DiffReturn (Inr (Some (CreatedBlob new)))) s1 s2)"

definition on_deleted :: "'s tree_iter_ops \<Rightarrow> index_entry \<Rightarrow> 's \<Rightarrow> 't \<Rightarrow> ('s, 't) diff_step" where
  "on_deleted ops1 old s1 s2 =
     (if ie_is_tree old then DiffReturn (Inr (Some DeletedTree)) s1 s2
      else advance_old (it_next ops1) (DiffReturn (Inr (Some (DeletedBlob old)))) s1 s2)"

text \<open>Two entries with the same path.\<close>

definition on_match ::
  "(index_entry \<Rightarrow> (bool \<times> index_entry) bit_result) \<Rightarrow> bool \<Rightarrow> 's tree_iter_ops \<Rightarrow> 't tree_iter_ops
   \<Rightarrow> index_entry \<Rightarrow> index_entry \<Rightarrow> 's \<Rightarrow> 't \<Rightarrow> ('s, 't) diff_step" where
  "on_match wt include_unmodified ops1 ops2 old new s1 s2 =
     (if ie_mode old = GITLINK \<or> ie_mode new = GITLINK then DiffReturn (Inl Panic) s1 s2
      else if ie_mode old = TREE \<and> ie_mode new = TREE then
        (if is_known (ie_oid old) \<and> old = new then
           (if include_unmodified then advance_old (it_over ops1) (DiffReturn (Inr (Some UnmodifiedTree))) s1 s2
            else advance_old (it_over ops1) (advance_new (it_over ops2) DiffAgain) s1 s2)
         else advance_old (it_next ops1) (advance_new (it_next ops2) (DiffReturn (Inr (Some (MaybeModifiedTree new))))) s1 s2)
      else if ie_mode old = TREE then advance_new (it_next ops2) (DiffReturn (Inr (Some (TreeToBlob new)))) s1 s2
      else if ie_mode new = TREE then advance_old (it_next ops1) (DiffReturn (Inr (Some (BlobToTree old)))) s1 s2
      else case (if it_kind ops2 = WorktreeKind then wt new else Inr (ie_oid old \<noteq> ie_oid new, new)) of
          Inl e \<Rightarrow> DiffReturn (Inl e) s1 s2
        | Inr (has_changed, new) \<Rightarrow>
            if \<not> has_changed
            then advance_old (it_next ops1) (advance_new (it_next ops2)
                   (if include_unmodified then DiffReturn (Inr (Some (UnmodifiedBlob new))) else DiffAgain)) s1 s2
            else advance_old (it_next ops1) (advance_new (it_next ops2)
                   (DiffReturn (Inr (Some (ModifiedBlob old new))))) s1 s2)"

definition diff_round ::
  "(index_entry \<Rightarrow> (bool \<times> index_entry) bit_result) \<Rightarrow> bool \<Rightarrow> 's tree_iter_ops \<Rightarrow> 't tree_iter_ops \<Rightarrow> 's \<Rightarrow> 't \<Rightarrow> ('s, 't) diff_step" where
  "diff_round wt include_unmodified ops1 ops2 s1 s2 =
     (case it_peek ops1 s1 of
        (Inl e, s1) \<Rightarrow> DiffReturn (Inl e) s1 s2
      | (Inr old, s1) \<Rightarrow>
          (case it_peek ops2 s2 of
             (Inl e, s2) \<Rightarrow> DiffReturn (Inl e) s1 s2
           | (Inr new, s2) \<Rightarrow>
               (case (old, new) of
                  (None, None) \<Rightarrow> DiffReturn (Inr None) s1 s2
                | (None, Some new) \<Rightarrow> on_created ops2 new s1 s2
                | (Some old, None) \<Rightarrow> on_deleted ops1 old s1 s2
                | (Some old, Some new) \<Rightarrow>
                    (case diff_cmp old new of
                       Less \<Rightarrow> on_deleted ops1 old s1 s2
                     | Greater \<Rightarrow> on_created ops2 new s1 s2
                     | Equal \<Rightarrow> on_match wt include_unmodified ops1 ops2 old new s1 s2))))"

fun tree_diff_next ::
  "nat \<Rightarrow> (index_entry \<Rightarrow> (bool \<times> index_entry) bit_result) \<Rightarrow> bool \<Rightarrow> 's tree_iter_ops \<Rightarrow> 't tree_iter_ops \<Rightarrow> 's \<Rightarrow> 't
   \<Rightarrow> tree_diff_entry option bit_result \<times> 's \<times> 't" where
  "tree_diff_next 0 wt incl ops1 ops2 s1 s2 = (Inl Diverge, s1, s2)"
| "tree_diff_next (Suc fuel) wt incl ops1 ops2 s1 s2 =
     (case diff_round wt incl ops1 ops2 s1 s2 of
        DiffReturn r s1 s2 \<Rightarrow> (r, s1, s2)
      | DiffAgain s1 s2 \<Rightarrow> tree_diff_next fuel wt incl ops1 ops2 s1 s2)"

section \<open>Model: the status of two trees\<close>

record workspace_status =
  st_new :: "index_entry list"
  st_modified :: "(index_entry \<times> index_entry) list"
  st_deleted :: "index_entry list"

definition empty_status :: workspace_status where
  "empty_status = \<lparr>st_new = [], st_modified = [], st_deleted = []\<rparr>"

definition status_len :: "workspace_status \<Rightarrow> nat" where
  "status_len st = length (st_new st) + length (st_modified st) + length (st_deleted st)"

definition status_is_empty :: "workspace_status \<Rightarrow> bool" where
  "status_is_empty st \<longleftrightarrow> st_new st = [] \<and> st_deleted st = [] \<and> st_modified st = []"

definition status_iter_paths :: "workspace_status \<Rightarrow> bit_path list" where
  "status_iter_paths st =
     map ie_path (st_deleted st) @ map (\<lambda>(_, e). ie_path e) (st_modified st) @ map ie_path (st_deleted st)"

text \<open>The methods of \<open>TreeStatusDiffer\<close>; a consumer is the iterator it borrows.\<close>

definition created_tree :: "nat \<Rightarrow> 't tree_iter_ops \<Rightarrow> workspace_status \<Rightarrow> 't \<Rightarrow> workspace_status bit_result \<times> 't" where
  "created_tree fuel ops2 st s2 =
     (case collect_over_tree_blobs fuel ops2 (st_new st) s2 of (res, s2) \<Rightarrow> (and_then res (\<lambda>(_, c). Inr (st\<lparr>st_new := c\<rparr>)), s2))"

definition deleted_tree :: "nat \<Rightarrow> 's tree_iter_ops \<Rightarrow> workspace_status \<Rightarrow> 's \<Rightarrow> workspace_status bit_result \<times> 's" where
  "deleted_tree fuel ops1 st s1 =
     (case collect_over_tree_blobs fuel ops1 (st_deleted st) s1 of (res, s1) \<Rightarrow> (and_then res (\<lambda>(_, c). Inr (st\<lparr>st_deleted := c\<rparr>)), s1))"

definition tree_to_blob :: "nat \<Rightarrow> 's tree_iter_ops \<Rightarrow> workspace_status \<Rightarrow> index_entry \<Rightarrow> 's \<Rightarrow> workspace_status bit_result \<times> 's" where
  "tree_to_blob fuel ops1 st new s1 =
     (case iter_files fuel ops1 s1 of
        (res, s1) \<Rightarrow> (and_then res (\<lambda>fs. Inr (st\<lparr>st_deleted := st_deleted st @ fs, st_new := st_new st @ [new]\<rparr>)), s1))"

definition blob_to_tree :: "nat \<Rightarrow> 't tree_iter_ops \<Rightarrow> workspace_status \<Rightarrow> index_entry \<Rightarrow> 't \<Rightarrow> workspace_status bit_result \<times> 't" where
  "blob_to_tree fuel ops2 st old s2 =
     (case iter_files fuel ops2 s2 of
        (res, s2) \<Rightarrow> (and_then res (\<lambda>fs. Inr (st\<lparr>st_deleted := st_deleted st @ [old], st_new := st_new st @ fs\<rparr>)), s2))"

definition diff_apply :: "nat \<Rightarrow> 's tree_iter_ops \<Rightarrow> 't tree_iter_ops \<Rightarrow> workspace_status \<Rightarrow> tree_diff_entry \<Rightarrow> 's \<Rightarrow> 't
    \<Rightarrow> workspace_status bit_result \<times> 's \<times> 't" where
  "diff_apply fuel ops1 ops2 st d s1 s2 =
     (case d of
        DeletedBlob old \<Rightarrow> (Inr (st\<lparr>st_deleted := st_deleted st @ [old]\<rparr>), s1, s2)
      | CreatedBlob new \<Rightarrow> (Inr (st\<lparr>st_new := st_new st @ [new]\<rparr>), s1, s2)
      | ModifiedBlob old new \<Rightarrow> (Inr (st\<lparr>st_modified := st_modified st @ [(old, new)]\<rparr>), s1, s2)
      | DeletedTree \<Rightarrow> (case deleted_tree fuel ops1 st s1 of (r, s1) \<Rightarrow> (r, s1, s2))
      | CreatedTree \<Rightarrow> (case created_tree fuel ops2 st s2 of (r, s2) \<Rightarrow> (r, s1, s2))
      | BlobToTree old \<Rightarrow> (case blob_to_tree fuel ops2 st old s2 of (r, s2) \<Rightarrow> (r, s1, s2))
      | TreeToBlob new \<Rightarrow> (case tree_to_blob fuel ops1 st new s1 of (r, s1) \<Rightarrow> (r, s1, s2))
      | MaybeModifiedTree _ \<Rightarrow> (Inr st, s1, s2)
      | UnmodifiedBlob _ \<Rightarrow> (Inl Panic, s1, s2)
      | UnmodifiedTree \<Rightarrow> (Inl Panic, s1, s2))"

text \<open>\<open>run_diff\<close>; the old iterator must not be that of the work tree.\<close>

fun diff_loop :: "nat \<Rightarrow> nat \<Rightarrow> (index_entry \<Rightarrow> (bool \<times> index_entry) bit_result) \<Rightarrow> bool \<Rightarrow> 's tree_iter_ops \<Rightarrow> 't tree_iter_ops
    \<Rightarrow> workspace_status \<Rightarrow> 's \<Rightarrow> 't \<Rightarrow> workspace_status bit_result" where
  "diff_loop 0 fuel wt incl ops1 ops2 st s1 s2 = Inl Diverge"
| "diff_loop (Suc n) fuel wt incl ops1 ops2 st s1 s2 =
     (case tree_diff_next fuel wt incl ops1 ops2 s1 s2 of
        (Inl e, _) \<Rightarrow> Inl e
      | (Inr None, _) \<Rightarrow> Inr st
      | (Inr (Some d), s1, s2) \<Rightarrow>
          (case diff_apply fuel ops1 ops2 st d s1 s2 of
             (Inl e, _) \<Rightarrow> Inl e
           | (Inr st, s1, s2) \<Rightarrow> diff_loop n fuel wt incl ops1 ops2 st s1 s2))"

definition diff_iterators :: "nat \<Rightarrow> (index_entry \<Rightarrow> (bool \<times> index_entry) bit_result) \<Rightarrow> bool \<Rightarrow> 's tree_iter_ops \<Rightarrow> 't tree_iter_ops
    \<Rightarrow> 's \<Rightarrow> 't \<Rightarrow> workspace_status bit_result" where
  "diff_iterators fuel wt incl ops1 ops2 s1 s2 =
     (if it_kind ops1 = WorktreeKind then Inl Panic else diff_loop fuel fuel wt incl ops1 ops2 empty_status s1 s2)"

definition diff_tree_to_tree :: "nat \<Rightarrow> (oid \<Rightarrow> tree_entry list bit_result) \<Rightarrow> oid \<Rightarrow> oid \<Rightarrow> workspace_status bit_result" where
  "diff_tree_to_tree fuel treeish a b =
     diff_iterators fuel (\<lambda>_. Inl Panic) False (tree_iter_ops_of treeish) (tree_iter_ops_of treeish) (tree_iter_new a) (tree_iter_new b)"

text \<open>\<open>trees_are_diff\<close>: the first entry that is a difference ends the loop; the iterators stay where they are.\<close>

fun trees_are_diff_loop :: "nat \<Rightarrow> nat \<Rightarrow> (index_entry \<Rightarrow> (bool \<times> index_entry) bit_result) \<Rightarrow> 's tree_iter_ops \<Rightarrow> 't tree_iter_ops
    \<Rightarrow> 's \<Rightarrow> 't \<Rightarrow> (bool \<times> 's \<times> 't) bit_result" where
  "trees_are_diff_loop 0 fuel wt ops1 ops2 s1 s2 = Inl Diverge"
| "trees_are_diff_loop (Suc n) fuel wt ops1 ops2 s1 s2 =
     (case tree_diff_next fuel wt False ops1 ops2 s1 s2 of
        (Inl e, _) \<Rightarrow> Inl e
      | (Inr None, s1, s2) \<Rightarrow> Inr (False, s1, s2)
      | (Inr (Some (MaybeModifiedTree _)), s1, s2) \<Rightarrow> trees_are_diff_loop n fuel wt ops1 ops2 s1 s2
      | (Inr (Some (UnmodifiedBlob _)), s1, s2) \<Rightarrow> trees_are_diff_loop n fuel wt ops1 ops2 s1 s2
      | (Inr (Some UnmodifiedTree), s1, s2) \<Rightarrow>
          (case it_over ops2 s2 of (Inl _, _) \<Rightarrow> Inl Panic | (Inr _, s2) \<Rightarrow> trees_are_diff_loop n fuel wt ops1 ops2 s1 s2)
      | (Inr (Some DeletedTree), s1, s2) \<Rightarrow>
          (case it_over ops1 s1 of (Inl _, _) \<Rightarrow> Inl Panic | (Inr _, s1) \<Rightarrow> Inr (True, s1, s2))
      | (Inr (Some (TreeToBlob _)), s1, s2) \<Rightarrow>
          (case it_over ops1 s1 of (Inl _, _) \<Rightarrow> Inl Panic | (Inr _, s1) \<Rightarrow> Inr (True, s1, s2))
      | (Inr (Some CreatedTree), s1, s2) \<Rightarrow>
          (case it_over ops2 s2 of (Inl _, _) \<Rightarrow> Inl Panic | (Inr _, s2) \<Rightarrow> Inr (True, s1, s2))
      | (Inr (Some (BlobToTree _)), s1, s2) \<Rightarrow>
          (case it_over ops2 s2 of (Inl _, _) \<Rightarrow> Inl Panic | (Inr _, s2) \<Rightarrow> Inr (True, s1, s2))
      | (Inr (Some _), s1, s2) \<Rightarrow> Inr (True, s1, s2))"

definition trees_are_diff :: "nat \<Rightarrow> (index_entry \<Rightarrow> (bool \<times> index_entry) bit_result) \<Rightarrow> 's tree_iter_ops \<Rightarrow> 't tree_iter_ops
    \<Rightarrow> 's \<Rightarrow> 't \<Rightarrow> (bool \<times> 's \<times> 't) bit_result" where
  "trees_are_diff fuel wt ops1 ops2 s1 s2 =
     (if it_kind ops1 = WorktreeKind then Inl Panic else trees_are_diff_loop fuel fuel wt ops1 ops2 s1 s2)"

section \<open>The difference of two lists of files\<close>

definition same_file :: "index_entry \<Rightarrow> index_entry \<Rightarrow> bool" where
  "same_file a b \<longleftrightarrow> ie_path a = ie_path b \<and> ie_oid a = ie_oid b"

definition minus_paths :: "index_entry list \<Rightarrow> index_entry list \<Rightarrow> index_entry list" where
  "minus_paths X Y = filter (\<lambda>x. ie_path x \<notin> ie_path ` set Y) X"

definition changed_pairs :: "index_entry list \<Rightarrow> index_entry list \<Rightarrow> (index_entry \<times> index_entry) list" where
  "changed_pairs X Y = concat (map (\<lambda>a. map (Pair a) (filter (\<lambda>b. ie_path a = ie_path b \<and> ie_oid a \<noteq> ie_oid b) Y)) X)"

text \<open>What is to be collected: files by path, compared by their object.\<close>

definition status_of :: "workspace_status \<Rightarrow> index_entry list \<Rightarrow> index_entry list \<Rightarrow> workspace_status" where
  "status_of st X Y =
     \<lparr>st_new = st_new st @ minus_paths Y X, st_modified = st_modified st @ changed_pairs X Y, st_deleted = st_deleted st @ minus_paths X Y\<rparr>"

definition paths_of :: "index_entry list \<Rightarrow> bit_path set" where
  "paths_of X = ie_path ` set X"

lemma sorted_disjoint:
  assumes "sorted_wrt (<) (map ie_path (X @ Y))"
  shows "paths_of X \<inter> paths_of Y = {}" "distinct (map ie_path X)"
proof -
  have "distinct (map ie_path (X @ Y))" using assms by (simp only: strict_sorted_iff)
  then show "paths_of X \<inter> paths_of Y = {}" "distinct (map ie_path X)" by (simp_all add: paths_of_def)
qed

lemma minus_left: "paths_of X \<inter> paths_of Y = {} \<Longrightarrow> minus_paths (X @ X') Y = X @ minus_paths X' Y"
  unfolding minus_paths_def paths_of_def filter_append by (simp add: disjoint_iff filter_id_conv)

lemma minus_right: "paths_of X \<inter> paths_of Y = {} \<Longrightarrow> minus_paths Y (X @ X') = minus_paths Y X'"
  unfolding minus_paths_def paths_of_def by (rule filter_cong) auto

lemma changed_left: "paths_of X \<inter> paths_of Y = {} \<Longrightarrow> changed_pairs (X @ X') Y = changed_pairs X' Y"
  unfolding changed_pairs_def paths_of_def by (simp add: disjoint_iff filter_empty_conv) blast

lemma changed_right: "paths_of X \<inter> paths_of Y = {} \<Longrightarrow> changed_pairs Y (X @ X') = changed_pairs Y X'"
proof -
  assume "paths_of X \<inter> paths_of Y = {}"
  then have "filter (\<lambda>b. ie_path a = ie_path b \<and> ie_oid a \<noteq> ie_oid b) X = []" if "a \<in> set Y" for a
    using that by (auto simp: paths_of_def filter_empty_conv)
  then show ?thesis unfolding changed_pairs_def by (simp cong: map_cong)
qed

lemma status_deleted:
  "paths_of X \<inter> paths_of Y = {} \<Longrightarrow> status_of st (X @ X') Y = status_of (st\<lparr>st_deleted := st_deleted st @ X\<rparr>) X' Y"
  by (simp add: status_of_def minus_left minus_right changed_left)

lemma status_created:
  "paths_of Y \<inter> paths_of X = {} \<Longrightarrow> status_of st X (Y @ Y') = status_of (st\<lparr>st_new := st_new st @ Y\<rparr>) X Y'"
  by (simp add: status_of_def minus_left minus_right changed_right)

lemma status_same:
  assumes "list_all2 same_file X Y" "paths_of X \<inter> paths_of A = {}" "paths_of Y \<inter> paths_of B = {}" "distinct (map ie_path X)"
  shows "status_of st (X @ A) (Y @ B) = status_of st A B"
proof -
  have paths: "map ie_path X = map ie_path Y" using assms(1) by (auto simp: list_all2_conv_all_nth same_file_def intro: nth_equalityI)
  then have P: "paths_of X = paths_of Y" unfolding paths_of_def by (metis set_map)
  have "filter (\<lambda>x. ie_path x \<notin> ie_path ` set (Z @ C)) U = []" if "paths_of U = paths_of Z" for U Z C
    using that by (auto simp: filter_empty_conv paths_of_def)
  then have "minus_paths (X @ A) (Y @ B) = minus_paths A B" "minus_paths (Y @ B) (X @ A) = minus_paths B A"
    using minus_right [of Y A B] minus_right [of X B A] assms(2,3) P by (simp_all add: minus_paths_def)
  moreover have none: "filter (\<lambda>b. ie_path a = ie_path b \<and> ie_oid a \<noteq> ie_oid b) (Y @ B) = []" if a: "a \<in> set X" for a
  proof -
    obtain i where i: "i < length X" "a = X ! i" using a by (metis in_set_conv_nth)
    have "ie_oid a = ie_oid b" if b: "b \<in> set Y" "ie_path a = ie_path b" for b
    proof -
      obtain k where k: "k < length Y" "b = Y ! k" using b(1) by (metis in_set_conv_nth)
      have "same_file (X ! i) (Y ! i)" "same_file (X ! k) (Y ! k)" "length X = length Y"
        using assms(1) i(1) k(1) by (auto simp: list_all2_conv_all_nth)
      moreover have "k = i" using calculation b(2) i k assms(4) by (metis distinct_conv_nth length_map nth_map same_file_def)
      ultimately show ?thesis using i(2) k(2) by (simp add: same_file_def)
    qed
    moreover have "ie_path a \<notin> paths_of B"
    proof -
      have "ie_path a \<in> paths_of Y" using a P unfolding paths_of_def by blast
      then show ?thesis using assms(3) by blast
    qed
    ultimately show ?thesis by (auto simp: filter_empty_conv paths_of_def)
  qed
  then have "changed_pairs (X @ A) (Y @ B) = changed_pairs A (Y @ B)" by (simp add: changed_pairs_def)
  then have "changed_pairs (X @ A) (Y @ B) = changed_pairs A B" using changed_right [of Y A B] assms(2) P by simp
  ultimately show ?thesis by (simp add: status_of_def)
qed

lemma status_match:
  assumes "ie_path a = ie_path b" "ie_path a \<notin> paths_of A" "ie_path a \<notin> paths_of B"
  shows "status_of st (a # A) (b # B)
    = status_of (if ie_oid a \<noteq> ie_oid b then st\<lparr>st_modified := st_modified st @ [(a, b)]\<rparr> else st) A B"
proof -
  have "minus_paths (a # A) (b # B) = minus_paths A B" "minus_paths (b # B) (a # A) = minus_paths B A"
    using assms unfolding minus_paths_def paths_of_def by (auto intro!: filter_cong) (metis image_eqI)+
  moreover have "changed_pairs (a # A) (b # B) = (if ie_oid a \<noteq> ie_oid b then [(a, b)] else []) @ changed_pairs A (b # B)"
  proof -
    have "filter (\<lambda>y. ie_path b = ie_path y \<and> Q y) B = []" for Q
      using assms(1,3) by (auto simp: filter_empty_conv paths_of_def)
    then show ?thesis unfolding changed_pairs_def using assms(1) by simp
  qed
  moreover have "changed_pairs A ([b] @ B) = changed_pairs A B"
    using assms(1,2) by (intro changed_right) (auto simp: paths_of_def)
  ultimately show ?thesis by (simp add: status_of_def)
qed

section \<open>Two forests\<close>

fun nodes :: "node list \<Rightarrow> node list" where
  "nodes [] = []"
| "nodes (Node e cs # F) = Node e cs # nodes cs @ nodes F"

definition sorted_paths :: "node list \<Rightarrow> bool" where
  "sorted_paths F \<longleftrightarrow> sorted_wrt (<) (map ie_path (flat F))"

text \<open>A path of one forest that leads to an entry of the other is in the other, too.\<close>

definition aligned :: "node list \<Rightarrow> node list \<Rightarrow> bool" where
  "aligned A B \<longleftrightarrow> (\<forall>e \<in> set (flat B). \<forall>a \<in> set (flat A). path_starts_with (ie_path e) (ie_path a) \<longrightarrow> ie_path a \<in> paths_of (flat B))"

text \<open>
  The same object at the same path has the same entries below it. How much of them has to be the same is
  a parameter: two trees of the object database agree in everything, a tree and the index in the paths
  and the objects of their files.
\<close>

definition agree_by :: "(node \<Rightarrow> node \<Rightarrow> bool) \<Rightarrow> node list \<Rightarrow> node list \<Rightarrow> bool" where
  "agree_by Q A B \<longleftrightarrow> (\<forall>n \<in> set (nodes A). \<forall>m \<in> set (nodes B). entry n = entry m \<and> is_known (ie_oid (entry n)) \<longrightarrow> Q n m)"

definition comparable_by :: "(node \<Rightarrow> node \<Rightarrow> bool) \<Rightarrow> node list \<Rightarrow> node list \<Rightarrow> bool" where
  "comparable_by Q A B \<longleftrightarrow> forest_ok A \<and> forest_ok B \<and> sorted_paths A \<and> sorted_paths B \<and> aligned A B \<and> aligned B A \<and> agree_by Q A B"

abbreviation agree :: "node list \<Rightarrow> node list \<Rightarrow> bool" where
  "agree \<equiv> agree_by (=)"

abbreviation comparable :: "node list \<Rightarrow> node list \<Rightarrow> bool" where
  "comparable \<equiv> comparable_by (=)"

lemmas agree_def = agree_by_def

lemmas comparable_def = comparable_by_def

definition same_files :: "node \<Rightarrow> node \<Rightarrow> bool" where
  "same_files n m \<longleftrightarrow> list_all2 same_file (blobs [n]) (blobs [m])"

abbreviation diffable :: "node list \<Rightarrow> node list \<Rightarrow> bool" where
  "diffable \<equiv> comparable_by same_files"

lemma comparable_by_mono: "comparable_by Q A B \<Longrightarrow> (\<And>n m. Q n m \<Longrightarrow> R n m) \<Longrightarrow> comparable_by R A B"
  unfolding comparable_def agree_def by blast

lemma comparable_by_sym: "comparable_by Q A B \<Longrightarrow> (\<And>n m. Q n m \<Longrightarrow> Q m n) \<Longrightarrow> comparable_by Q B A"
  unfolding comparable_def agree_def by metis

lemma comparable_sym: "comparable A B \<Longrightarrow> comparable B A"
  by (rule comparable_by_sym) simp_all

lemma comparable_diffable: "comparable A B \<Longrightarrow> diffable A B"
  by (erule comparable_by_mono) (simp add: same_files_def same_file_def list_all2_same)

lemma diffable_sym: "diffable A B \<Longrightarrow> diffable B A"
  by (rule comparable_by_sym) (auto simp: same_files_def same_file_def list_all2_conv_all_nth)

lemma nodes_append: "nodes (A @ B) = nodes A @ nodes B"
  by (induction A rule: nodes.induct) simp_all

lemma flat_nodes: "set (flat F) = entry ` set (nodes F)"
  by (induction F rule: nodes.induct) auto

lemma starts_with_trans: "path_starts_with a b \<Longrightarrow> path_starts_with b c \<Longrightarrow> path_starts_with a c"
  by (auto simp: path_starts_with_def)

lemma starts_with_refl [simp]: "path_starts_with a a"
  by (simp add: path_starts_with_def)

lemma forest_ok_append:
  assumes "forest_ok A" "forest_ok B" "\<forall>a \<in> set (flat A). \<forall>x \<in> set (flat B). \<not> path_starts_with (ie_path x) (ie_path a)"
  shows "forest_ok (A @ B)"
  using assms by (induction A rule: flat.induct) (auto simp: flat_append)

lemma forest_ok_into: "forest_ok (Node e cs # F) \<Longrightarrow> forest_ok (cs @ F)"
  by (rule forest_ok_append) (auto dest: starts_with_trans)

lemma comparable_drop: "comparable_by Q (n # A) B \<Longrightarrow> comparable_by Q A B"
proof -
  assume c: "comparable_by Q (n # A) B"
  obtain e cs where n: "n = Node e cs" by (cases n)
  have "aligned B A"
    unfolding aligned_def
  proof (intro ballI impI)
    fix x b assume x: "x \<in> set (flat A)" "b \<in> set (flat B)" "path_starts_with (ie_path x) (ie_path b)"
    then have "ie_path b \<in> paths_of (flat (n # A))" using c n by (auto simp: comparable_def aligned_def)
    moreover have "ie_path b \<noteq> ie_path y" if "y \<in> set (flat [n])" for y
    proof
      assume "ie_path b = ie_path y"
      then have "path_starts_with (ie_path x) (ie_path e)" using that x(3) c n by (auto simp: comparable_def dest: starts_with_trans)
      then show False using x(1) c n by (simp add: comparable_def)
    qed
    ultimately show "ie_path b \<in> paths_of (flat A)" using n by (auto simp: paths_of_def)
  qed
  then show ?thesis using c n by (auto simp: comparable_def sorted_paths_def aligned_def agree_def sorted_wrt_append)
qed

lemma comparable_into:
  assumes c: "comparable_by Q (Node e cs # A) (Node f ds # B)" and "ie_path e = ie_path f"
  shows "comparable_by Q (cs @ A) (ds @ B)"
proof -
  have into: "aligned (cs @ A) (ds @ B)"
    if c: "aligned (Node e cs # A) (Node f ds # B)" "sorted_paths (Node e cs # A)" "ie_path e = ie_path f" for e f cs ds A B
    unfolding aligned_def
  proof (intro ballI impI)
    fix x a assume x: "x \<in> set (flat (ds @ B))" "a \<in> set (flat (cs @ A))" "path_starts_with (ie_path x) (ie_path a)"
    then have "ie_path a \<in> paths_of (flat (Node f ds # B))" using c(1) by (auto simp: aligned_def flat_append)
    moreover have "ie_path e < ie_path a" using c(2) x(2) by (auto simp: sorted_paths_def flat_append)
    ultimately show "ie_path a \<in> paths_of (flat (ds @ B))" using c(3) by (auto simp: paths_of_def flat_append)
  qed
  have "forest_ok (cs @ A)" "forest_ok (ds @ B)" using c forest_ok_into by (auto simp: comparable_def)
  moreover have "sorted_paths (cs @ A)" "sorted_paths (ds @ B)" using c by (simp_all add: comparable_def sorted_paths_def flat_append)
  moreover have "agree_by Q (cs @ A) (ds @ B)"
  proof -
    have "agree_by Q (Node e cs # A) (Node f ds # B)" using c by (simp add: comparable_def)
    moreover have "set (nodes (cs @ A)) \<subseteq> set (nodes (Node e cs # A))" "set (nodes (ds @ B)) \<subseteq> set (nodes (Node f ds # B))"
      by (auto simp: nodes_append)
    ultimately show ?thesis unfolding agree_def by blast
  qed
  ultimately show ?thesis
    using into [of e cs A f ds B] into [of f ds B e cs A] c assms(2) by (simp add: comparable_def)
qed

text \<open>A subtree whose root is missing on the other side is missing there as a whole.\<close>

lemma subtree_missing:
  assumes "comparable_by Q (Node e cs # A) B" "ie_path e \<notin> paths_of (flat B)"
  shows "paths_of (flat [Node e cs]) \<inter> paths_of (flat B) = {}"
proof -
  have "ie_path x \<noteq> ie_path y" if "x \<in> set (flat [Node e cs])" "y \<in> set (flat B)" for x y
  proof
    assume "ie_path x = ie_path y"
    then have "path_starts_with (ie_path y) (ie_path e)" using that(1) assms(1) by (auto simp: comparable_def)
    then show False using assms that(2) by (auto simp: comparable_def aligned_def)
  qed
  then show ?thesis by (auto simp: paths_of_def)
qed

lemma blobs_simps [simp]:
  "blobs [] = []" "blobs (Node e cs # F) = (if ie_is_blob e then [e] else []) @ blobs cs @ blobs F" "blobs (A @ B) = blobs A @ blobs B"
  by (simp_all add: blobs_def flat_append)

lemma blobs_paths: "paths_of (blobs F) \<subseteq> paths_of (flat F)"
  by (auto simp: blobs_def paths_of_def)

lemma disjoint_blob_tree:
  assumes "\<And>x y. x \<in> set X \<Longrightarrow> y \<in> set (flat F) \<Longrightarrow> ie_path x \<noteq> ie_path y" "\<And>x. x \<in> set X \<Longrightarrow> ie_path x \<noteq> ie_path f"
  shows "paths_of X \<inter> paths_of (flat (Node f [] # F)) = {}"
proof -
  have "ie_path x \<noteq> ie_path y" if "x \<in> set X" "y \<in> set (flat (Node f [] # F))" for x y using assms that by (cases "y = f") auto
  then show ?thesis unfolding paths_of_def by blast
qed

lemma disjoint_blobs:
  assumes "sorted_wrt (<) (map ie_path (flat cs @ flat A))"
  shows "paths_of (blobs cs) \<inter> paths_of (blobs A) = {}" "distinct (map ie_path (blobs cs))"
proof -
  show "paths_of (blobs cs) \<inter> paths_of (blobs A) = {}"
    using sorted_disjoint [OF assms] blobs_paths [of cs] blobs_paths [of A] by blast
  have "sorted_wrt (<) (map ie_path (flat cs))" using assms by (simp add: sorted_wrt_append)
  then have "distinct (map ie_path (flat cs))" by (simp add: strict_sorted_iff)
  then show "distinct (map ie_path (blobs cs))" unfolding blobs_def by (rule distinct_map_filter)
qed

section \<open>The walk over two iterators\<close>

locale tree_diff = old: tree_iterator ops1 rel1 + new: tree_iterator ops2 rel2
  for ops1 :: "'s tree_iter_ops" and rel1 and ops2 :: "'t tree_iter_ops" and rel2 +
  assumes not_worktree: "it_kind ops1 \<noteq> WorktreeKind" "it_kind ops2 \<noteq> WorktreeKind"
begin

definition size2 :: "node list \<Rightarrow> node list \<Rightarrow> nat" where
  "size2 A B = length (flat A) + length (flat B)"

text \<open>
  An entry is found and applied: the iterators stand at forests that are smaller, with the same status
  still to come.
\<close>

definition progress :: "nat \<Rightarrow> nat \<Rightarrow> workspace_status \<Rightarrow> node list \<Rightarrow> node list
    \<Rightarrow> tree_diff_entry \<times> 's \<times> 't \<Rightarrow> bool" where
  "progress fuel m st A B r = (case r of (d, t1, t2) \<Rightarrow>
     \<exists>st' u1 u2 A' B'. diff_apply fuel ops1 ops2 st d t1 t2 = (Inr st', u1, u2) \<and> rel1 u1 A' \<and> rel2 u2 B'
       \<and> diffable A' B' \<and> size2 A' B' < m \<and> status_of st' (blobs A') (blobs B') = status_of st (blobs A) (blobs B))"

lemma progressI:
  assumes "diff_apply fuel ops1 ops2 st d t1 t2 = (Inr st', u1, u2)" "rel1 u1 A'" "rel2 u2 B'" "diffable A' B'" "size2 A' B' < m"
    and "status_of st (blobs A) (blobs B) = status_of st' (blobs A') (blobs B')"
  shows "progress fuel m st A B (d, t1, t2)"
  unfolding progress_def using assms by auto

lemma deleted_progress:
  assumes c: "diffable (Node e cs # A) B" and out: "ie_path e \<notin> paths_of (flat B)"
    and r: "rel1 s1 (Node e cs # A)" "rel2 s2 B" and m: "size2 (Node e cs # A) B \<le> m" "m \<le> fuel"
  shows "\<exists>d t1 t2. on_deleted ops1 e s1 s2 = DiffReturn (Inr (Some d)) t1 t2 \<and> progress fuel m st (Node e cs # A) B (d, t1, t2)"
proof -
  note c' = comparable_drop [OF c]
  have ok: "forest_ok (Node e cs # A)" using c by (simp add: comparable_def)
  have dis: "paths_of (blobs [Node e cs]) \<inter> paths_of (blobs B) = {}"
    using subtree_missing [OF c out] blobs_paths [of "[Node e cs]"] blobs_paths [of B] by blast
  have st: "status_of st (blobs (Node e cs # A)) (blobs B) = status_of (st\<lparr>st_deleted := st_deleted st @ blobs [Node e cs]\<rparr>) (blobs A) (blobs B)"
    using status_deleted [OF dis, of st "blobs A"] by simp
  show ?thesis
  proof (cases "ie_is_tree e")
    case False
    then have cs: "cs = []" "ie_is_blob e" using ok by (cases "ie_mode e"; auto simp: ie_is_tree_def ie_is_blob_def)+
    obtain t1 where "it_next ops1 s1 = (Inr (Some e), t1)" "rel1 t1 A" using old.next_law [OF r(1)] cs by auto
    then show ?thesis using False cs st c' r(2) m
      by (auto simp: on_deleted_def advance_old_def size2_def diff_apply_def intro!: progressI [of _ _ _ _ _ _ _ _ A B])
  next
    case True
    then have "\<not> ie_is_blob e" by (cases "ie_mode e") (auto simp: ie_is_tree_def ie_is_blob_def)
    then have b: "blobs [Node e cs] = filter ie_is_blob (flat cs)" by (simp add: blobs_def)
    have "length (flat cs) < fuel" using m by (simp add: size2_def)
    then obtain u1 where u1: "collect_over_tree_filtered fuel ops1 ie_is_blob (st_deleted st) s1 = (Inr (e, st_deleted st @ filter ie_is_blob (flat cs)), u1)" "rel1 u1 A"
      using old.collect_over_subtree [OF r(1) ok] by blast
    have "diff_apply fuel ops1 ops2 st DeletedTree s1 s2 = (Inr (st\<lparr>st_deleted := st_deleted st @ blobs [Node e cs]\<rparr>), u1, s2)"
      using u1(1) by (simp add: diff_apply_def deleted_tree_def collect_over_tree_blobs_def b del: blobs_simps)
    moreover have "size2 A B < m" using m by (simp add: size2_def)
    ultimately have "progress fuel m st (Node e cs # A) B (DeletedTree, s1, s2)" by (rule progressI [OF _ u1(2) r(2) c' _ st])
    then show ?thesis using True by (auto simp: on_deleted_def)
  qed
qed

lemma created_progress:
  assumes c: "diffable A (Node e cs # B)" and out: "ie_path e \<notin> paths_of (flat A)"
    and r: "rel1 s1 A" "rel2 s2 (Node e cs # B)" and m: "size2 A (Node e cs # B) \<le> m" "m \<le> fuel"
  shows "\<exists>d t1 t2. on_created ops2 e s1 s2 = DiffReturn (Inr (Some d)) t1 t2 \<and> progress fuel m st A (Node e cs # B) (d, t1, t2)"
proof -
  note c' = diffable_sym [OF comparable_drop [OF diffable_sym [OF c]]]
  have ok: "forest_ok (Node e cs # B)" using c by (simp add: comparable_def)
  have dis: "paths_of (blobs [Node e cs]) \<inter> paths_of (blobs A) = {}"
    using subtree_missing [OF diffable_sym [OF c] out] blobs_paths [of "[Node e cs]"] blobs_paths [of A] by blast
  have st: "status_of st (blobs A) (blobs (Node e cs # B)) = status_of (st\<lparr>st_new := st_new st @ blobs [Node e cs]\<rparr>) (blobs A) (blobs B)"
    using status_created [OF dis, of st "blobs B"] by simp
  show ?thesis
  proof (cases "ie_is_tree e")
    case False
    then have cs: "cs = []" "ie_is_blob e" using ok by (cases "ie_mode e"; auto simp: ie_is_tree_def ie_is_blob_def)+
    obtain t2 where "it_next ops2 s2 = (Inr (Some e), t2)" "rel2 t2 B" using new.next_law [OF r(2)] cs by auto
    then show ?thesis using False cs st c' r(1) m
      by (auto simp: on_created_def advance_new_def size2_def diff_apply_def intro!: progressI [of _ _ _ _ _ _ _ _ A B])
  next
    case True
    then have "\<not> ie_is_blob e" by (cases "ie_mode e") (auto simp: ie_is_tree_def ie_is_blob_def)
    then have b: "blobs [Node e cs] = filter ie_is_blob (flat cs)" by (simp add: blobs_def)
    have "length (flat cs) < fuel" using m by (simp add: size2_def)
    then obtain u2 where u2: "collect_over_tree_filtered fuel ops2 ie_is_blob (st_new st) s2 = (Inr (e, st_new st @ filter ie_is_blob (flat cs)), u2)" "rel2 u2 B"
      using new.collect_over_subtree [OF r(2) ok] by blast
    have "diff_apply fuel ops1 ops2 st CreatedTree s1 s2 = (Inr (st\<lparr>st_new := st_new st @ blobs [Node e cs]\<rparr>), s1, u2)"
      using u2(1) by (simp add: diff_apply_def created_tree_def collect_over_tree_blobs_def b del: blobs_simps)
    moreover have "size2 A B < m" using m by (simp add: size2_def)
    ultimately have "progress fuel m st A (Node e cs # B) (CreatedTree, s1, s2)" by (rule progressI [OF _ r(1) u2(2) c' _ st])
    then show ?thesis using True by (auto simp: on_created_def)
  qed
qed

text \<open>Two entries with the same path: an entry to apply, or a smaller problem.\<close>

lemma match_progress:
  assumes c: "diffable (Node e cs # A) (Node f ds # B)" and path: "ie_path e = ie_path f"
    and r: "rel1 s1 (Node e cs # A)" "rel2 s2 (Node f ds # B)" and m: "size2 (Node e cs # A) (Node f ds # B) \<le> m" "m \<le> fuel"
  shows "(\<exists>d t1 t2. on_match wt False ops1 ops2 e f s1 s2 = DiffReturn (Inr (Some d)) t1 t2
        \<and> progress (Suc fuel) m st (Node e cs # A) (Node f ds # B) (d, t1, t2))
    \<or> (\<exists>t1 t2 A' B'. on_match wt False ops1 ops2 e f s1 s2 = DiffAgain t1 t2 \<and> rel1 t1 A' \<and> rel2 t2 B' \<and> diffable A' B'
        \<and> size2 A' B' < size2 (Node e cs # A) (Node f ds # B)
        \<and> status_of st (blobs (Node e cs # A)) (blobs (Node f ds # B)) = status_of st (blobs A') (blobs B'))"
proof -
  have ok: "forest_ok (Node e cs # A)" "forest_ok (Node f ds # B)" using c by (simp_all add: comparable_def)
  have ng: "ie_mode e \<noteq> GITLINK" "ie_mode f \<noteq> GITLINK" using ok by simp_all
  have both: "diffable A B" using comparable_drop [OF c] diffable_sym comparable_drop by blast
  obtain n1 where n1: "it_next ops1 s1 = (Inr (Some e), n1)" "rel1 n1 (cs @ A)" using old.next_law [OF r(1)] by auto
  obtain n2 where n2: "it_next ops2 s2 = (Inr (Some f), n2)" "rel2 n2 (ds @ B)" using new.next_law [OF r(2)] by auto
  obtain o1 where o1: "it_over ops1 s1 = (Inr (Some e), o1)" "rel1 o1 A" using old.over_law [OF r(1)] by auto
  obtain o2 where o2: "it_over ops2 s2 = (Inr (Some f), o2)" "rel2 o2 B" using new.over_law [OF r(2)] by auto
  have gtA: "\<forall>x \<in> set (flat cs @ flat A). ie_path e < ie_path x" and gtB: "\<forall>x \<in> set (flat ds @ flat B). ie_path f < ie_path x"
    using c by (auto simp: comparable_def sorted_paths_def)
  consider (same) "ie_mode e = TREE" "ie_mode f = TREE" "is_known (ie_oid e)" "e = f"
    | (trees) "ie_mode e = TREE" "ie_mode f = TREE" "\<not> (is_known (ie_oid e) \<and> e = f)"
    | (tree_blob) "ie_mode e = TREE" "ie_mode f \<noteq> TREE" | (blob_tree) "ie_mode e \<noteq> TREE" "ie_mode f = TREE"
    | (blobs) "ie_mode e \<noteq> TREE" "ie_mode f \<noteq> TREE" by blast
  then show ?thesis
  proof cases
    case same
    have "agree_by same_files (Node e cs # A) (Node f ds # B)" using c by (simp add: comparable_def)
    then have "same_files (Node e cs) (Node f ds)" using same unfolding agree_def by force
    then have sub: "list_all2 same_file (blobs cs) (blobs ds)" using same(1,2) by (simp add: same_files_def ie_is_blob_def)
    have d: "sorted_wrt (<) (map ie_path (flat cs @ flat A))" "sorted_wrt (<) (map ie_path (flat ds @ flat B))"
      using c by (simp_all add: comparable_def sorted_paths_def)
    have "status_of st (blobs cs @ blobs A) (blobs ds @ blobs B) = status_of st (blobs A) (blobs B)"
      using disjoint_blobs [OF d(1)] disjoint_blobs [OF d(2)] by (intro status_same [OF sub])
    moreover have "blobs (Node e cs # A) = blobs cs @ blobs A" "blobs (Node f ds # B) = blobs ds @ blobs B"
      using same(1,2) by (simp_all add: ie_is_blob_def)
    ultimately have "status_of st (blobs (Node e cs # A)) (blobs (Node f ds # B)) = status_of st (blobs A) (blobs B)" by (simp only:)
    moreover have "on_match wt False ops1 ops2 e f s1 s2 = DiffAgain o1 o2"
      using same ng o1(1) o2(1) by (simp add: on_match_def advance_old_def advance_new_def)
    moreover have "size2 A B < size2 (Node e cs # A) (Node f ds # B)" by (simp add: size2_def)
    ultimately show ?thesis using o1(2) o2(2) both by blast
  next
    case trees
    have "on_match wt False ops1 ops2 e f s1 s2 = DiffReturn (Inr (Some (MaybeModifiedTree f))) n1 n2"
      using trees ng n1(1) n2(1) by (auto simp: on_match_def advance_old_def advance_new_def)
    moreover have "progress (Suc fuel) m st (Node e cs # A) (Node f ds # B) (MaybeModifiedTree f, n1, n2)"
      by (rule progressI [OF _ n1(2) n2(2) comparable_into [OF c path]])
        (use m trees in \<open>simp_all add: diff_apply_def size2_def flat_append ie_is_blob_def\<close>)
    ultimately show ?thesis by blast
  next
    case tree_blob
    then have ds: "ds = []" "ie_is_blob f" using ok(2) ng by (cases "ie_mode f"; auto simp: ie_is_tree_def ie_is_blob_def)+
    have "length (flat cs) < fuel" using m by (simp add: size2_def)
    then obtain u1 where u1: "iter_files (Suc fuel) ops1 s1 = (Inr (filter ie_is_blob (flat cs)), u1)" "rel1 u1 A"
      using old.iter_files_subtree [OF r(1) ok(1) tree_blob(1)] by blast
    have "paths_of (flat cs) \<inter> paths_of (flat (Node f ds # B)) = {}"
    proof -
      have "ie_path x \<noteq> ie_path y" if x: "x \<in> set (flat cs)" "y \<in> set (flat B)" for x y
        using x ok path by (metis (no_types, lifting) forest_ok.simps(2))
      moreover have "ie_path x \<noteq> ie_path f" if "x \<in> set (flat cs)" for x
        using bspec [OF gtA, of x] path that by simp
      ultimately show ?thesis unfolding ds(1) by (rule disjoint_blob_tree)
    qed
    then have dis1: "paths_of (blobs cs) \<inter> paths_of (blobs (Node f ds # B)) = {}" using blobs_paths by blast
    have "ie_path f \<notin> paths_of (flat A)" using bspec [OF gtA] path by (fastforce simp: paths_of_def)
    then have dis2: "paths_of [f] \<inter> paths_of (blobs A) = {}" using blobs_paths by (auto simp: paths_of_def)
    have be: "blobs (Node e cs # A) = blobs cs @ blobs A" using tree_blob by (simp add: ie_is_blob_def)
    have bf: "blobs (Node f ds # B) = [f] @ blobs B" using ds by simp
    have "status_of st (blobs (Node e cs # A)) (blobs (Node f ds # B))
        = status_of (st\<lparr>st_deleted := st_deleted st @ blobs cs, st_new := st_new st @ [f]\<rparr>) (blobs A) (blobs B)"
      unfolding be status_deleted [OF dis1] unfolding bf status_created [OF dis2] by simp
    moreover have "diff_apply (Suc fuel) ops1 ops2 st (TreeToBlob f) s1 n2
        = (Inr (st\<lparr>st_deleted := st_deleted st @ blobs cs, st_new := st_new st @ [f]\<rparr>), u1, n2)"
      using u1(1) by (simp add: diff_apply_def tree_to_blob_def blobs_def)
    moreover have "size2 A B < m" using m by (simp add: size2_def)
    ultimately have "progress (Suc fuel) m st (Node e cs # A) (Node f ds # B) (TreeToBlob f, s1, n2)"
      using n2(2) ds by (intro progressI [OF _ u1(2) _ both]) simp_all
    moreover have "on_match wt False ops1 ops2 e f s1 s2 = DiffReturn (Inr (Some (TreeToBlob f))) s1 n2"
      using tree_blob ng n2(1) by (simp add: on_match_def advance_new_def)
    ultimately show ?thesis by blast
  next
    case blob_tree
    then have cs: "cs = []" "ie_is_blob e" using ok(1) ng by (cases "ie_mode e"; auto simp: ie_is_tree_def ie_is_blob_def)+
    have "length (flat ds) < fuel" using m by (simp add: size2_def)
    then obtain u2 where u2: "iter_files (Suc fuel) ops2 s2 = (Inr (filter ie_is_blob (flat ds)), u2)" "rel2 u2 B"
      using new.iter_files_subtree [OF r(2) ok(2) blob_tree(2)] by blast
    have "paths_of (flat ds) \<inter> paths_of (flat (Node e cs # A)) = {}"
    proof -
      have "ie_path x \<noteq> ie_path y" if x: "x \<in> set (flat ds)" "y \<in> set (flat A)" for x y
        using x ok path by (metis (no_types, lifting) forest_ok.simps(2))
      moreover have "ie_path x \<noteq> ie_path e" if "x \<in> set (flat ds)" for x
        using bspec [OF gtB, of x] path that by simp
      ultimately show ?thesis unfolding cs(1) by (rule disjoint_blob_tree)
    qed
    then have dis1: "paths_of (blobs ds) \<inter> paths_of (blobs (Node e cs # A)) = {}" using blobs_paths by blast
    have "ie_path e \<notin> paths_of (flat B)" using bspec [OF gtB] path by (fastforce simp: paths_of_def)
    then have dis2: "paths_of [e] \<inter> paths_of (blobs B) = {}" using blobs_paths by (auto simp: paths_of_def)
    have bf: "blobs (Node f ds # B) = blobs ds @ blobs B" using blob_tree by (simp add: ie_is_blob_def)
    have be: "blobs (Node e cs # A) = [e] @ blobs A" using cs by simp
    have "status_of st (blobs (Node e cs # A)) (blobs (Node f ds # B))
        = status_of (st\<lparr>st_deleted := st_deleted st @ [e], st_new := st_new st @ blobs ds\<rparr>) (blobs A) (blobs B)"
      unfolding bf status_created [OF dis1] unfolding be status_deleted [OF dis2] by (simp add: status_of_def)
    moreover have "diff_apply (Suc fuel) ops1 ops2 st (BlobToTree e) n1 s2
        = (Inr (st\<lparr>st_deleted := st_deleted st @ [e], st_new := st_new st @ blobs ds\<rparr>), n1, u2)"
      using u2(1) by (simp add: diff_apply_def blob_to_tree_def blobs_def)
    moreover have "size2 A B < m" using m by (simp add: size2_def)
    ultimately have "progress (Suc fuel) m st (Node e cs # A) (Node f ds # B) (BlobToTree e, n1, s2)"
      using n1(2) cs by (intro progressI [OF _ _ u2(2) both]) simp_all
    moreover have "on_match wt False ops1 ops2 e f s1 s2 = DiffReturn (Inr (Some (BlobToTree e))) n1 s2"
      using blob_tree ng n1(1) by (simp add: on_match_def advance_old_def)
    ultimately show ?thesis by blast
  next
    case blobs
    then have cs: "cs = []" "ie_is_blob e" "ds = []" "ie_is_blob f"
      using ok ng by (cases "ie_mode e"; cases "ie_mode f"; auto simp: ie_is_tree_def ie_is_blob_def)+
    have out: "ie_path e \<notin> paths_of (Bit_Tree_Iter.blobs A)" "ie_path e \<notin> paths_of (Bit_Tree_Iter.blobs B)"
      using gtA gtB path blobs_paths by (auto simp: paths_of_def blobs_def)
    note sm = status_match [OF path out, of st]
    have rel: "rel1 n1 A" "rel2 n2 B" using n1(2) n2(2) cs by simp_all
    have sz: "size2 A B < size2 (Node e cs # A) (Node f ds # B)" by (simp add: size2_def)
    show ?thesis
    proof (cases "ie_oid e = ie_oid f")
      case True
      have "on_match wt False ops1 ops2 e f s1 s2 = DiffAgain n1 n2"
        using blobs ng n1(1) n2(1) True not_worktree by (simp add: on_match_def advance_old_def advance_new_def)
      moreover have "status_of st (Bit_Tree_Iter.blobs (Node e cs # A)) (Bit_Tree_Iter.blobs (Node f ds # B))
          = status_of st (Bit_Tree_Iter.blobs A) (Bit_Tree_Iter.blobs B)"
        using sm True cs by simp
      ultimately show ?thesis using rel both sz by blast
    next
      case False
      have "on_match wt False ops1 ops2 e f s1 s2 = DiffReturn (Inr (Some (ModifiedBlob e f))) n1 n2"
        using blobs ng n1(1) n2(1) False not_worktree by (simp add: on_match_def advance_old_def advance_new_def)
      moreover have "progress (Suc fuel) m st (Node e cs # A) (Node f ds # B) (ModifiedBlob e f, n1, n2)"
        by (rule progressI [OF _ rel both]) (use m sz sm False cs in \<open>simp_all add: diff_apply_def\<close>)
      ultimately show ?thesis by blast
    qed
  qed
qed

lemma status_of_empty: "status_of st [] [] = st"
  by (simp add: status_of_def minus_paths_def changed_pairs_def)

lemma round_progress:
  assumes c: "diffable A B" and r: "rel1 s1 A" "rel2 s2 B" and m: "size2 A B \<le> m" "m \<le> fuel"
  shows "(A = [] \<and> B = [] \<and> (\<exists>t1 t2. diff_round wt False ops1 ops2 s1 s2 = DiffReturn (Inr None) t1 t2))
    \<or> (\<exists>d t1 t2. diff_round wt False ops1 ops2 s1 s2 = DiffReturn (Inr (Some d)) t1 t2 \<and> progress (Suc fuel) m st A B (d, t1, t2))
    \<or> (\<exists>t1 t2 A' B'. diff_round wt False ops1 ops2 s1 s2 = DiffAgain t1 t2 \<and> rel1 t1 A' \<and> rel2 t2 B' \<and> diffable A' B'
        \<and> size2 A' B' < size2 A B \<and> status_of st (blobs A) (blobs B) = status_of st (blobs A') (blobs B'))"
proof -
  obtain p1 where p1: "it_peek ops1 s1 = (Inr (case A of [] \<Rightarrow> None | n # _ \<Rightarrow> Some (entry n)), p1)" "rel1 p1 A"
    using old.peek_law [OF r(1)] by blast
  obtain p2 where p2: "it_peek ops2 s2 = (Inr (case B of [] \<Rightarrow> None | n # _ \<Rightarrow> Some (entry n)), p2)" "rel2 p2 B"
    using new.peek_law [OF r(2)] by blast
  have leB: "ie_path f \<le> ie_path x" if "B = Node f ds # B'" "x \<in> set (flat B)" for f ds B' x
    using c that by (auto simp: comparable_def sorted_paths_def order.strict_implies_order)
  have leA: "ie_path f \<le> ie_path x" if "A = Node f ds # A'" "x \<in> set (flat A)" for f ds A' x
    using c that by (auto simp: comparable_def sorted_paths_def order.strict_implies_order)
  show ?thesis
  proof (cases A)
    case Nil
    show ?thesis
    proof (cases B)
      case Nil
      then show ?thesis using \<open>A = []\<close> p1(1) p2(1) by (simp add: diff_round_def)
    next
      case (Cons n B')
      obtain e cs where n: "n = Node e cs" by (cases n)
      have "diff_round wt False ops1 ops2 s1 s2 = on_created ops2 e p1 p2"
        using \<open>A = []\<close> Cons n p1(1) p2(1) by (simp add: diff_round_def)
      moreover have "ie_path e \<notin> paths_of (flat A)" using \<open>A = []\<close> by (simp add: paths_of_def)
      ultimately show ?thesis using created_progress [of A e cs B' p1 p2 m "Suc fuel" st] c p1(2) p2(2) m Cons n by auto
    qed
  next
    case (Cons n A')
    obtain e cs where n: "n = Node e cs" by (cases n)
    show ?thesis
    proof (cases B)
      case Nil
      have "diff_round wt False ops1 ops2 s1 s2 = on_deleted ops1 e p1 p2"
        using Cons n Nil p1(1) p2(1) by (simp add: diff_round_def)
      moreover have "ie_path e \<notin> paths_of (flat B)" using Nil by (simp add: paths_of_def)
      ultimately show ?thesis using deleted_progress [of e cs A' B p1 p2 m "Suc fuel" st] c p1(2) p2(2) m Cons n by auto
    next
      case (Cons k B')
      obtain f ds where k: "k = Node f ds" by (cases k)
      have A: "A = Node e cs # A'" and B: "B = Node f ds # B'" using \<open>A = n # A'\<close> n Cons k by simp_all
      have round: "diff_round wt False ops1 ops2 s1 s2 = (case diff_cmp e f of Less \<Rightarrow> on_deleted ops1 e p1 p2
          | Greater \<Rightarrow> on_created ops2 f p1 p2 | Equal \<Rightarrow> on_match wt False ops1 ops2 e f p1 p2)"
        using A B p1(1) p2(1) by (simp add: diff_round_def)
      consider "ie_path e < ie_path f" | "ie_path f < ie_path e" | "ie_path e = ie_path f" by (metis neqE)
      then show ?thesis
      proof cases
        case 1
        then have "diff_cmp e f = Less" by (simp add: diff_cmp_def less_bit_path_def)
        moreover have "ie_path e \<notin> paths_of (flat B)" using 1 leB [OF B] unfolding paths_of_def by (metis imageE leD)
        ultimately have "\<exists>d t1 t2. diff_round wt False ops1 ops2 s1 s2 = DiffReturn (Inr (Some d)) t1 t2 \<and> progress (Suc fuel) m st A B (d, t1, t2)"
          using deleted_progress [of e cs A' B p1 p2 m "Suc fuel" st] c p1(2) p2(2) m unfolding A round by (simp del: blobs_simps)
        then show ?thesis by blast
      next
        case 2
        then have "diff_cmp f e = Less" by (simp add: diff_cmp_def less_bit_path_def)
        then have "diff_cmp e f = Greater" by (simp add: diff_cmp_def bit_path_cmp_def path_cmp_slice_cmp slice_cmp_swap [of "path_bytes (ie_path e)"])
        moreover have "ie_path f \<notin> paths_of (flat A)" using 2 leA [OF A] unfolding paths_of_def by (metis imageE leD)
        ultimately have "\<exists>d t1 t2. diff_round wt False ops1 ops2 s1 s2 = DiffReturn (Inr (Some d)) t1 t2 \<and> progress (Suc fuel) m st A B (d, t1, t2)"
          using created_progress [of A f ds B' p1 p2 m "Suc fuel" st] c p1(2) p2(2) m unfolding B round by (simp del: blobs_simps)
        then show ?thesis by blast
      next
        case 3
        then have "diff_cmp e f = Equal" by (simp add: diff_cmp_def bit_path_cmp_def path_cmp_slice_cmp)
        then have "diff_round wt False ops1 ops2 s1 s2 = on_match wt False ops1 ops2 e f p1 p2" using round by simp
        note match = match_progress [of e cs A' f ds B' p1 p2 m fuel wt st, folded A B this, OF c 3 p1(2) p2(2) m]
        show ?thesis by (rule disjI2) (rule match)
      qed
    qed
  qed
qed

lemma next_progress:
  assumes "diffable A B" "rel1 s1 A" "rel2 s2 B" "size2 A B \<le> m" "m \<le> fuel" "size2 A B < k"
  shows "((\<exists>t1 t2. tree_diff_next k wt False ops1 ops2 s1 s2 = (Inr None, t1, t2)) \<and> status_of st (blobs A) (blobs B) = st)
    \<or> (\<exists>d t1 t2. tree_diff_next k wt False ops1 ops2 s1 s2 = (Inr (Some d), t1, t2) \<and> progress (Suc fuel) m st A B (d, t1, t2))"
  using assms(1-4,6)
proof (induction k arbitrary: A B s1 s2)
  case (Suc k)
  show ?case using round_progress [OF Suc.prems(1-4) assms(5), of wt st]
  proof (elim disjE conjE exE)
    fix t1 t2 assume "A = []" "B = []" "diff_round wt False ops1 ops2 s1 s2 = DiffReturn (Inr None) t1 t2"
    then show ?thesis by (simp add: status_of_empty)
  next
    fix d t1 t2 assume "diff_round wt False ops1 ops2 s1 s2 = DiffReturn (Inr (Some d)) t1 t2" "progress (Suc fuel) m st A B (d, t1, t2)"
    then show ?thesis by simp
  next
    fix t1 t2 A' B'
    assume a: "diff_round wt False ops1 ops2 s1 s2 = DiffAgain t1 t2" "rel1 t1 A'" "rel2 t2 B'" "diffable A' B'" "size2 A' B' < size2 A B"
      "status_of st (blobs A) (blobs B) = status_of st (blobs A') (blobs B')"
    have "tree_diff_next (Suc k) wt False ops1 ops2 s1 s2 = tree_diff_next k wt False ops1 ops2 t1 t2" using a(1) by simp
    moreover have "progress (Suc fuel) m st A' B' = progress (Suc fuel) m st A B"
      using a(6) by (simp add: progress_def fun_eq_iff)
    ultimately show ?thesis using Suc.IH [OF a(4,2,3)] a(5,6) Suc.prems(4,5) by simp
  qed
qed simp

lemma loop_status:
  assumes "diffable A B" "rel1 s1 A" "rel2 s2 B" "size2 A B < n" "size2 A B < fuel"
  shows "diff_loop n (Suc fuel) wt False ops1 ops2 st s1 s2 = Inr (status_of st (blobs A) (blobs B))"
  using assms(1-4,5)
proof (induction n arbitrary: A B s1 s2 st)
  case (Suc n)
  have "size2 A B \<le> fuel" "size2 A B < Suc fuel" using Suc.prems(5) by simp_all
  then show ?case using next_progress [OF Suc.prems(1-3) order_refl, of fuel "Suc fuel" wt st, OF \<open>size2 A B \<le> fuel\<close> \<open>size2 A B < Suc fuel\<close>]
  proof (elim disjE conjE exE)
    fix d t1 t2 assume d: "tree_diff_next (Suc fuel) wt False ops1 ops2 s1 s2 = (Inr (Some d), t1, t2)"
      "progress (Suc fuel) (size2 A B) st A B (d, t1, t2)"
    then obtain st' u1 u2 A' B' where p: "diff_apply (Suc fuel) ops1 ops2 st d t1 t2 = (Inr st', u1, u2)" "rel1 u1 A'" "rel2 u2 B'"
        "diffable A' B'" "size2 A' B' < size2 A B" "status_of st' (blobs A') (blobs B') = status_of st (blobs A) (blobs B)"
      by (auto simp: progress_def)
    show ?thesis using Suc.IH [OF p(4,2,3), of st'] p Suc.prems(4,5) d(1) by simp
  qed simp_all
qed simp

end

section \<open>Differences of tree objects\<close>

interpretation tree_diffs: tree_diff "tree_iter_ops_of treeish" "tree_iter_rel treeish" "tree_iter_ops_of treeish" "tree_iter_rel treeish" for treeish
  by unfold_locales (simp_all add: tree_iter_ops_of_def)

lemma from_tree_entry_inject: "entry_from_tree_entry d = entry_from_tree_entry e \<Longrightarrow> d = e"
  by (simp add: entry_from_tree_entry_def)

lemma unfolds_unique: "unfolds treeish e n \<Longrightarrow> unfolds treeish e m \<Longrightarrow> n = m"
proof (induction arbitrary: m rule: unfolds.induct)
  case (unf_blob e)
  from unf_blob.prems show ?case by cases (use unf_blob.hyps in simp_all)
next
  case (unf_tree e es ns)
  obtain ms where m: "m = Node (entry_from_tree_entry e) ms" "list_all2 (unfolds treeish) (child_entries e es) ms"
    using unf_tree.prems unf_tree.hyps(1,3) by cases simp_all
  have "ns = ms"
  proof (rule nth_equalityI)
    show "length ns = length ms" using list_all2_lengthD [OF unf_tree.IH] list_all2_lengthD [OF m(2)] by simp
    show "ns ! i = ms ! i" if "i < length ns" for i
      using that unf_tree.IH m(2) by (auto simp: list_all2_conv_all_nth)
  qed
  then show ?case by (simp add: m(1))
qed

lemma unfolds_nodes: "unfolds treeish e n \<Longrightarrow> m \<in> set (nodes [n]) \<Longrightarrow> \<exists>d. unfolds treeish d m"
proof (induction arbitrary: m rule: unfolds.induct)
  case (unf_blob e)
  then show ?case using unfolds.unf_blob [OF unf_blob.hyps] by auto
next
  case (unf_tree e es ns)
  have t: "unfolds treeish e (Node (entry_from_tree_entry e) ns)"
    using unf_tree.hyps unf_tree.IH by (intro unfolds.unf_tree) (auto intro: list_all2_mono)
  have "\<exists>k \<in> set ns. m \<in> set (nodes [k])" if "m \<in> set (nodes ns)" for ns
    using that by (induction ns rule: nodes.induct) auto
  then consider "m = Node (entry_from_tree_entry e) ns" | k where "k \<in> set ns" "m \<in> set (nodes [k])" using unf_tree.prems by auto
  then show ?case
  proof cases
    case 1
    then show ?thesis using t by blast
  next
    case 2
    then show ?thesis using unf_tree.IH unfolding list_all2_conv_all_nth by (metis in_set_conv_nth)
  qed
qed

lemma below_aligned:
  assumes A: "below_path p [A]" "ie_path (entry A) = p" and B: "below_path p [B]" "ie_path (entry B) = p"
  shows "aligned [A] [B]"
  unfolding aligned_def
proof (intro ballI impI)
  fix x a assume x: "x \<in> set (flat [B])" "a \<in> set (flat [A])" "path_starts_with (ie_path x) (ie_path a)"
  have ok: "repo_path (ie_path x)" "repo_path (ie_path a)" "prefix (parts p) (parts (ie_path a))"
    using x(1,2) A(1) B(1) by (auto simp: below_path_def)
  have pre: "prefix (parts (ie_path a)) (parts (ie_path x))" using x(3) ok by (simp add: starts_with_parts)
  show "ie_path a \<in> paths_of (flat [B])"
  proof (cases "parts (ie_path a) = parts p")
    case True
    then have "ie_path a = ie_path (entry B)" using parts_inject B(2) by simp
    then show ?thesis by (cases B) (simp add: paths_of_def)
  next
    case False
    then have "strict_prefix (parts p) (parts (ie_path a))" using ok(3) by (simp add: strict_prefix_def)
    then show ?thesis using B(1) x(1) ok(2) pre by (simp add: below_path_def paths_of_def)
  qed
qed

lemma unfolds_comparable:
  assumes "names_ok treeish" "unfolds treeish d A" "unfolds treeish e B" "te_path d = te_path e" "repo_path (te_path e)"
    and "sorted_paths [A]" "sorted_paths [B]"
  shows "comparable [A] [B]"
proof -
  have A: "below_path (te_path e) [A]" "ie_path (entry A) = te_path e"
    using unfolds_below [OF assms(2,1)] assms(4,5) by (simp_all add: entry_from_tree_entry_def)
  have B: "below_path (te_path e) [B]" "ie_path (entry B) = te_path e"
    using unfolds_below [OF assms(3,1)] assms(5) by (simp_all add: entry_from_tree_entry_def)
  have "agree [A] [B]"
    unfolding agree_def
  proof (intro ballI impI)
    fix n m assume "n \<in> set (nodes [A])" "m \<in> set (nodes [B])" "entry n = entry m \<and> is_known (ie_oid (entry n))"
    then show "n = m" using unfolds_nodes [OF assms(2)] unfolds_nodes [OF assms(3)]
      by (metis from_tree_entry_inject unfolds_entry unfolds_unique)
  qed
  then show ?thesis using assms(6,7) below_aligned [OF A B] below_aligned [OF B A] A(1) B(1) by (simp add: comparable_def below_path_def)
qed

definition root_entry :: "oid \<Rightarrow> tree_entry" where
  "root_entry o' = \<lparr>te_mode = TREE, te_path = BitPath [], te_oid = (if is_known o' then o' else EMPTY_TREE)\<rparr>"

text \<open>
  C6. The difference of two trees of the object database, each readable to its leaves, with names that
  are single path components and a listing in the order of the paths: with fuel for all entries, the walk
  ends and returns as new the files only the second tree has, as deleted those only the first one has and
  as modified the pairs of files with the same path and different objects, in the order of the walk.
\<close>

theorem diff_tree_to_tree_spec:
  assumes "names_ok treeish" "unfolds treeish (root_entry a) A" "unfolds treeish (root_entry b) B"
    and "sorted_paths [A]" "sorted_paths [B]" "length (flat [A]) + length (flat [B]) + 1 < fuel"
  shows "diff_tree_to_tree fuel treeish a b =
    Inr \<lparr>st_new = minus_paths (blobs [B]) (blobs [A]), st_modified = changed_pairs (blobs [A]) (blobs [B]),
         st_deleted = minus_paths (blobs [A]) (blobs [B])\<rparr>"
proof -
  obtain k where k: "fuel = Suc k" using assms(6) by (cases fuel) auto
  have c: "comparable [A] [B]"
    using assms(1-5) by (intro unfolds_comparable [of treeish "root_entry a" _ "root_entry b"]) (simp_all add: root_entry_def repo_path_def)
  have r: "tree_iter_rel treeish (tree_iter_new a) [A]" "tree_iter_rel treeish (tree_iter_new b) [B]"
    using assms(2,3) by (simp_all add: tree_iter_rel_def tree_iter_new_def root_entry_def)
  have "tree_diffs.size2 [A] [B] < k" using assms(6) k by (simp add: tree_diffs.size2_def)
  then have "diff_loop fuel fuel (\<lambda>_. Inl Panic) False (tree_iter_ops_of treeish) (tree_iter_ops_of treeish) empty_status
      (tree_iter_new a) (tree_iter_new b) = Inr (status_of empty_status (blobs [A]) (blobs [B]))"
    unfolding k by (intro tree_diffs.loop_status [OF comparable_diffable [OF c] r]) simp_all
  then show ?thesis
    by (simp add: diff_tree_to_tree_def diff_iterators_def tree_iter_ops_of_def status_of_def empty_status_def del: blobs_simps)
qed

text \<open>A store given as a table, and its trees.\<close>

definition tree_store :: "(oid \<times> (file_mode \<times> string \<times> oid) list) list \<Rightarrow> oid \<Rightarrow> tree_entry list bit_result" where
  "tree_store trees x = (case map_of trees x of None \<Rightarrow> Inl UnexpectedEof
     | Some es \<Rightarrow> Inr (map (\<lambda>(m, p, x). \<lparr>te_mode = m, te_path = BitPath (bytes_of p), te_oid = x\<rparr>) es))"

definition table_names_ok :: "(oid \<times> (file_mode \<times> string \<times> oid) list) list \<Rightarrow> bool" where
  "table_names_ok = list_all (\<lambda>(_, es). list_all (\<lambda>(_, p, _). name_ok (bytes_of p)) es \<and> distinct (map (\<lambda>(_, p, _). bytes_of p) es))"

lemma table_names: "table_names_ok trees \<Longrightarrow> names_ok (tree_store trees)"
  unfolding names_ok_def
proof (intro allI impI)
  fix x es assume t: "table_names_ok trees" "tree_store trees x = Inr es"
  then obtain l where l: "(x, l) \<in> set trees" "es = map (\<lambda>(m, p, x). \<lparr>te_mode = m, te_path = BitPath (bytes_of p), te_oid = x\<rparr>) l"
    by (auto simp: tree_store_def split: option.splits dest: map_of_SomeD)
  have ok: "list_all (\<lambda>(_, p, _). name_ok (bytes_of p)) l" "distinct (map (\<lambda>(_, p, _). bytes_of p) l)"
    using t(1) l(1) by (auto simp: table_names_ok_def list_all_iff)
  have "map te_path es = map BitPath (map (\<lambda>(_, p, _). bytes_of p) l)" using l(2) by auto
  then have "distinct (map te_path es)" using ok(2) by (simp only: distinct_map) (auto simp: inj_on_def)
  then show "(\<forall>e \<in> set es. name_ok (path_bytes (te_path e))) \<and> distinct (map te_path es)"
    using ok(1) l(2) by (auto simp: list_all_iff)
qed

fun unfold_tree :: "nat \<Rightarrow> (oid \<Rightarrow> tree_entry list bit_result) \<Rightarrow> tree_entry \<Rightarrow> node option" where
  "unfold_tree 0 treeish e = None"
| "unfold_tree (Suc k) treeish e =
     (if is_blob (te_mode e) then Some (Node (entry_from_tree_entry e) [])
      else if te_mode e = TREE \<and> is_known (te_oid e)
      then (case treeish (te_oid e) of Inl _ \<Rightarrow> None
            | Inr es \<Rightarrow> map_option (Node (entry_from_tree_entry e)) (those (map (unfold_tree k treeish) (child_entries e es))))
      else None)"

lemma those_Some: "those (map f xs) = Some ys \<Longrightarrow> list_all2 (\<lambda>x y. f x = Some y) xs ys"
  by (induction xs arbitrary: ys) (auto split: option.splits)

lemma unfold_tree_unfolds: "unfold_tree k treeish e = Some n \<Longrightarrow> unfolds treeish e n"
proof (induction k arbitrary: e n)
  case (Suc k)
  show ?case
  proof (cases "is_blob (te_mode e)")
    case True
    then show ?thesis using Suc.prems by (auto intro: unf_blob)
  next
    case False
    then obtain es ns where "te_mode e = TREE" "is_known (te_oid e)" "treeish (te_oid e) = Inr es"
        "those (map (unfold_tree k treeish) (child_entries e es)) = Some ns" "n = Node (entry_from_tree_entry e) ns"
      using Suc.prems by (auto split: if_splits sum.splits)
    moreover from this(4) have "list_all2 (unfolds treeish) (child_entries e es) ns"
      by (rule list_all2_mono [OF those_Some]) (rule Suc.IH)
    ultimately show ?thesis by (auto intro: unf_tree)
  qed
qed simp

text \<open>Two small trees: \<open>f\<close> is changed, \<open>d/x\<close> is moved to \<open>e/x\<close>, \<open>g\<close> stays.\<close>

definition moved_trees :: "(oid \<times> (file_mode \<times> string \<times> oid) list) list" where
  "moved_trees =
     [([1], [(TREE, ''d'', [3]), (REG, ''f'', [4]), (REG, ''g'', [5])]),
      ([2], [(TREE, ''e'', [3]), (REG, ''f'', [6]), (REG, ''g'', [5])]), ([3], [(REG, ''x'', [5])])]"

definition tree_root :: "(oid \<times> (file_mode \<times> string \<times> oid) list) list \<Rightarrow> oid \<Rightarrow> node" where
  "tree_root trees x = the (unfold_tree 10 (tree_store trees) (root_entry x))"

definition table_ok :: "(oid \<times> (file_mode \<times> string \<times> oid) list) list \<Rightarrow> oid \<Rightarrow> bool" where
  "table_ok trees x \<longleftrightarrow> table_names_ok trees \<and> unfold_tree 10 (tree_store trees) (root_entry x) \<noteq> None \<and> sorted_paths [tree_root trees x]"

lemma moved_ok: "table_ok moved_trees [1]" "table_ok moved_trees [2]"
  by code_simp+

definition file_at :: "string \<Rightarrow> oid \<Rightarrow> index_entry" where
  "file_at p x = entry_from_tree_entry \<lparr>te_mode = REG, te_path = BitPath (bytes_of p), te_oid = x\<rparr>"

theorem diff_tree_to_tree_spec_witness:
  "diff_tree_to_tree 100 (tree_store moved_trees) [1] [2] =
     Inr \<lparr>st_new = [file_at ''e/x'' [5]], st_modified = [(file_at ''f'' [4], file_at ''f'' [6])], st_deleted = [file_at ''d/x'' [5]]\<rparr>"
proof -
  let ?A = "tree_root moved_trees [1]" and ?B = "tree_root moved_trees [2]"
  have "unfolds (tree_store moved_trees) (root_entry [1]) ?A" "unfolds (tree_store moved_trees) (root_entry [2]) ?B"
    using moved_ok unfolding table_ok_def tree_root_def by (auto intro!: unfold_tree_unfolds)
  moreover have "length (flat [?A]) + length (flat [?B]) + 1 < 100" by code_simp
  ultimately have "diff_tree_to_tree 100 (tree_store moved_trees) [1] [2] =
      Inr \<lparr>st_new = minus_paths (blobs [?B]) (blobs [?A]), st_modified = changed_pairs (blobs [?A]) (blobs [?B]),
         st_deleted = minus_paths (blobs [?A]) (blobs [?B])\<rparr>"
    using moved_ok by (intro diff_tree_to_tree_spec) (auto simp: table_ok_def intro: table_names)
  moreover have "minus_paths (blobs [?B]) (blobs [?A]) = [file_at ''e/x'' [5]]" by code_simp
  moreover have "changed_pairs (blobs [?A]) (blobs [?B]) = [(file_at ''f'' [4], file_at ''f'' [6])]" by code_simp
  moreover have "minus_paths (blobs [?A]) (blobs [?B]) = [file_at ''d/x'' [5]]" by code_simp
  ultimately show ?thesis by simp
qed

text \<open>
  Without the order of the paths the result is wrong. A tree sorts \<open>a.c\<close> before the directory \<open>a\<close>, which
  counts as \<open>a/\<close>, but the iterators are compared by the bytes of the paths, where \<open>a\<close> is first: removing
  \<open>a.c\<close> reports the untouched file \<open>a/x\<close> as created and as deleted.
\<close>

definition dotted_trees :: "(oid \<times> (file_mode \<times> string \<times> oid) list) list" where
  "dotted_trees = [([1], [(REG, ''a.c'', [4]), (TREE, ''a'', [3])]), ([2], [(TREE, ''a'', [3])]), ([3], [(REG, ''x'', [5])])]"

lemma diff_order_mismatch:
  "diff_tree_to_tree 100 (tree_store dotted_trees) [1] [2] =
     Inr \<lparr>st_new = [file_at ''a/x'' [5]], st_modified = [], st_deleted = [file_at ''a.c'' [4], file_at ''a/x'' [5]]\<rparr>"
  "entry_cmp \<lparr>te_mode = REG, te_path = BitPath (bytes_of ''a.c''), te_oid = [4]\<rparr> \<lparr>te_mode = TREE, te_path = BitPath (bytes_of ''a''), te_oid = [3]\<rparr> = Less"
  by code_simp+

end
