(* ===== verification/Bit_Walk.thy ===== *)
theory Bit_Walk
  imports Bit_Tree_Diff
begin

text \<open>
  Walking several tree iterators in step, \<^verbatim>\<open>libbit/src/iter/walk.rs\<close>: every row holds the entries of the
  iterators that stand at the least path. A tree that all of them share is stepped over. A boxed iterator
  is its operations together with its state.
\<close>

section \<open>Model\<close>

type_synonym 's boxed_iter = "'s tree_iter_ops \<times> 's"

type_synonym row = "index_entry option list"

text \<open>
  The common part of the two walks: peek at every iterator and keep the entries with the least path.
\<close>

fun walk_scan :: "'s boxed_iter list \<Rightarrow> row \<Rightarrow> index_entry option \<Rightarrow> (row \<times> index_entry option) bit_result \<times> 's boxed_iter list" where
  "walk_scan [] next_entries first_match = (Inr (next_entries, first_match), [])"
| "walk_scan ((ops, s) # its) next_entries first_match =
     (case it_peek ops s of
        (Inl e, s) \<Rightarrow> (Inl e, (ops, s) # its)
      | (Inr peeked, s) \<Rightarrow>
          (case
             (case peeked of
                None \<Rightarrow> walk_scan its (next_entries @ [None]) first_match
              | Some ent \<Rightarrow>
                  (case first_match of
                     None \<Rightarrow> walk_scan its (next_entries @ [Some ent]) (Some ent)
                   | Some fst_entry \<Rightarrow>
                       (case diff_cmp ent fst_entry of
                          Less \<Rightarrow> walk_scan its (map (\<lambda>_. None) next_entries @ [Some ent]) (Some ent)
                        | Equal \<Rightarrow> walk_scan its (next_entries @ [Some ent]) first_match
                        | Greater \<Rightarrow> walk_scan its (next_entries @ [None]) first_match)))
           of (res, its) \<Rightarrow> (res, (ops, s) # its)))"

text \<open>Whether all entries are the same tree, and how many there are until the first that is not.\<close>

fun step_over_count :: "index_entry list \<Rightarrow> oid option \<Rightarrow> nat \<Rightarrow> bool \<times> nat" where
  "step_over_count [] known count = (True, count)"
| "step_over_count (ent # es) known count =
     (if \<not> ie_is_tree ent then (False, count)
      else case known of
          Some oid \<Rightarrow> if ie_oid ent \<noteq> oid then (False, count) else step_over_count es known (count + 1)
        | None \<Rightarrow> step_over_count es (Some (ie_oid ent)) (count + 1))"

definition row_entries :: "row \<Rightarrow> index_entry list" where
  "row_entries r = List.map_filter id r"

definition step_over_row :: "row \<Rightarrow> bool" where
  "step_over_row r = (case step_over_count (row_entries r) None 0 of (should_step_over, count) \<Rightarrow> should_step_over \<and> count > 1)"

text \<open>Advance the iterators that were used.\<close>

fun walk_advance :: "bool \<Rightarrow> row \<Rightarrow> 's boxed_iter list \<Rightarrow> unit bit_result \<times> 's boxed_iter list" where
  "walk_advance over (Some _ # es) ((ops, s) # its) =
     (case (if over then it_over ops s else it_next ops s) of
        (Inl e, s) \<Rightarrow> (Inl e, (ops, s) # its)
      | (Inr _, s) \<Rightarrow> (case walk_advance over es its of (res, its) \<Rightarrow> (res, (ops, s) # its)))"
| "walk_advance over (None # es) (it # its) = (case walk_advance over es its of (res, its) \<Rightarrow> (res, it # its))"
| "walk_advance over es its = (Inr (), its)"

definition walk_tree_next :: "'s boxed_iter list \<Rightarrow> row option bit_result \<times> 's boxed_iter list" where
  "walk_tree_next its =
     (case walk_scan its [] None of
        (Inl e, its) \<Rightarrow> (Inl e, its)
      | (Inr (next_entries, None), its) \<Rightarrow> (Inr None, its)
      | (Inr (next_entries, Some _), its) \<Rightarrow>
          (case walk_advance (step_over_row next_entries) next_entries its of
             (Inl e, its) \<Rightarrow> (Inl e, its)
           | (Inr _, its) \<Rightarrow> (Inr (Some next_entries), its)))"

text \<open>\<open>for_each\<close> over the walk, with the state of the callback; the fuel bounds the rows.\<close>

fun walk_for_each :: "nat \<Rightarrow> (row \<Rightarrow> 'a \<Rightarrow> unit bit_result \<times> 'a) \<Rightarrow> 's boxed_iter list \<Rightarrow> 'a \<Rightarrow> unit bit_result \<times> 'a" where
  "walk_for_each 0 f its a = (Inl Diverge, a)"
| "walk_for_each (Suc fuel) f its a =
     (case walk_tree_next its of
        (Inl e, _) \<Rightarrow> (Inl e, a)
      | (Inr None, _) \<Rightarrow> (Inr (), a)
      | (Inr (Some r), its) \<Rightarrow>
          (case f r a of
             (Inl e, a) \<Rightarrow> (Inl e, a)
           | (Inr _, a) \<Rightarrow> walk_for_each fuel f its a))"

fun for_rows :: "(row \<Rightarrow> 'a \<Rightarrow> unit bit_result \<times> 'a) \<Rightarrow> row list \<Rightarrow> 'a \<Rightarrow> unit bit_result \<times> 'a" where
  "for_rows f [] a = (Inr (), a)"
| "for_rows f (r # rs) a = (case f r a of (Inl e, a) \<Rightarrow> (Inl e, a) | (Inr _, a) \<Rightarrow> for_rows f rs a)"

section \<open>Rows of forests\<close>

definition lookup :: "node list \<Rightarrow> bit_path \<Rightarrow> index_entry option" where
  "lookup F p = find (\<lambda>e. ie_path e = p) (flat F)"

definition at_head :: "bit_path \<Rightarrow> node list \<Rightarrow> index_entry option" where
  "at_head p F = (case F of [] \<Rightarrow> None | n # _ \<Rightarrow> if ie_path (entry n) = p then Some (entry n) else None)"

definition advanced :: "bool \<Rightarrow> bit_path \<Rightarrow> node list \<Rightarrow> node list" where
  "advanced over p F = (case F of [] \<Rightarrow> []
     | n # F' \<Rightarrow> if ie_path (entry n) = p then (if over then F' else subnodes n @ F') else F)"

lemma at_head_simps [simp]:
  "at_head p [] = None" "at_head p (n # F) = (if ie_path (entry n) = p then Some (entry n) else None)"
  by (simp_all add: at_head_def)

lemma advanced_simps [simp]:
  "advanced ov p [] = []" "advanced ov p (n # F) = (if ie_path (entry n) = p then (if ov then F else subnodes n @ F) else n # F)"
  by (simp_all add: advanced_def)

definition all_paths :: "node list list \<Rightarrow> bit_path set" where
  "all_paths Fs = (\<Union>F \<in> set Fs. paths_of (flat F))"

lemma lookup_iff: "lookup F p = None \<longleftrightarrow> p \<notin> paths_of (flat F)"
  unfolding lookup_def paths_of_def find_None_iff by force

lemma lookup_Some: "lookup F p = Some e \<Longrightarrow> e \<in> set (flat F) \<and> ie_path e = p"
  by (auto simp: lookup_def find_Some_iff)

lemma lookup_append: "lookup (A @ B) p = (case lookup A p of None \<Rightarrow> lookup B p | Some e \<Rightarrow> Some e)"
proof -
  have "find P (xs @ ys) = (case find P xs of None \<Rightarrow> find P ys | Some e \<Rightarrow> Some e)" for P :: "index_entry \<Rightarrow> bool" and xs ys
    by (induction xs) auto
  then show ?thesis unfolding lookup_def flat_append .
qed

lemma lookup_Cons: "lookup (Node e cs # F) p = (if ie_path e = p then Some e else case lookup cs p of None \<Rightarrow> lookup F p | Some e \<Rightarrow> Some e)"
  using lookup_append [of cs F p] by (simp add: lookup_def flat_append)

text \<open>
  Several forests that can be walked in step: every two of them are comparable, and the entries come from
  tree objects.
\<close>

definition walkable :: "node list list \<Rightarrow> bool" where
  "walkable Fs \<longleftrightarrow> (\<forall>F \<in> set Fs. \<forall>G \<in> set Fs. comparable F G)
     \<and> (\<forall>F \<in> set Fs. \<forall>e \<in> set (flat F). \<exists>te. e = entry_from_tree_entry te \<and> (te_mode te = TREE \<longrightarrow> is_known (te_oid te)))"

lemma head_least:
  assumes "sorted_paths (n # F)" "x \<in> set (flat (n # F))"
  shows "x = entry n \<or> ie_path (entry n) < ie_path x"
  using assms by (cases n) (auto simp: sorted_paths_def)

lemma at_head_lookup:
  assumes "sorted_paths F" "\<forall>n F'. F = n # F' \<longrightarrow> p \<le> ie_path (entry n)"
  shows "at_head p F = lookup F p"
proof (cases F)
  case Nil
  then show ?thesis by (simp add: lookup_def)
next
  case (Cons n F')
  show ?thesis
  proof (cases "ie_path (entry n) = p")
    case True
    then show ?thesis using Cons by (cases n) (simp add: lookup_Cons)
  next
    case False
    have "p < ie_path (entry n)" using assms(2) Cons False by (simp add: order.strict_iff_order)
    then have "p \<noteq> ie_path x" if "x \<in> set (flat F)" for x using head_least [of n F' x] assms(1) that Cons by auto
    then have "lookup F p = None" by (auto simp: lookup_iff paths_of_def)
    then show ?thesis using Cons False by simp
  qed
qed

text \<open>The least path at the head of a forest.\<close>

fun least_head :: "bit_path option \<Rightarrow> node list list \<Rightarrow> bit_path option" where
  "least_head m [] = m"
| "least_head m ([] # Fs) = least_head m Fs"
| "least_head m ((n # F) # Fs) = least_head (Some (case m of None \<Rightarrow> ie_path (entry n) | Some q \<Rightarrow> min q (ie_path (entry n)))) Fs"

lemma least_head_Some: "\<exists>l \<le> m. least_head (Some m) Fs = Some l"
proof (induction Fs arbitrary: m)
  case (Cons F Fs)
  show ?case
  proof (cases F)
    case (Cons n F')
    from Cons.IH [of "min m (ie_path (entry n))"] show ?thesis using Cons by (auto simp: Cons intro: order_trans)
  qed (use Cons.IH in simp)
qed simp

lemma least_head_le:
  "least_head m Fs = Some l \<Longrightarrow> (\<forall>q. m = Some q \<longrightarrow> l \<le> q) \<and> (\<forall>n F. n # F \<in> set Fs \<longrightarrow> l \<le> ie_path (entry n))
    \<and> (m = Some l \<or> (\<exists>n F. n # F \<in> set Fs \<and> ie_path (entry n) = l))"
proof (induction m Fs rule: least_head.induct)
  case (3 m n F Fs)
  let ?q = "case m of None \<Rightarrow> ie_path (entry n) | Some q \<Rightarrow> min q (ie_path (entry n))"
  have ih: "l \<le> ?q" "\<forall>n F. n # F \<in> set Fs \<longrightarrow> l \<le> ie_path (entry n)" "l = ?q \<or> (\<exists>n F. n # F \<in> set Fs \<and> ie_path (entry n) = l)"
    using "3.IH" "3.prems" by auto
  have "l \<le> ie_path (entry n)" "\<forall>q. m = Some q \<longrightarrow> l \<le> q" using ih(1) by (cases m; simp)+
  moreover have "m = Some l \<or> (\<exists>n' F'. n' # F' \<in> set ((n # F) # Fs) \<and> ie_path (entry n') = l)"
  proof (cases "l = ?q")
    case True
    then have "m = Some l \<or> ie_path (entry n) = l" by (cases m) (auto simp: min_def split: if_splits)
    then show ?thesis by auto
  next
    case False
    then show ?thesis using ih(3) by auto
  qed
  ultimately show ?case using ih(2) by auto
qed auto

lemma least_head_None: "least_head m Fs = None \<Longrightarrow> m = None \<and> (\<forall>F \<in> set Fs. F = [])"
  by (induction m Fs rule: least_head.induct) auto

lemma diff_cmp_cases:
  "diff_cmp a b = (if ie_path a < ie_path b then Less else if ie_path a = ie_path b then Equal else Greater)"
proof (cases "ie_path a = ie_path b")
  case True
  then show ?thesis by (simp add: diff_cmp_def bit_path_cmp_def path_cmp_slice_cmp)
next
  case False
  then show ?thesis
    by (cases "diff_cmp a b") (auto simp: diff_cmp_def less_bit_path_def bit_path_cmp_def path_cmp_slice_cmp bit_path.expand)
qed

section \<open>Advancing forests in step\<close>

lemma comparable_into_left:
  assumes c: "comparable (Node e cs # A) B" and out: "ie_path e \<notin> paths_of (flat B)"
  shows "comparable (cs @ A) B"
proof -
  have "forest_ok (cs @ A)" "sorted_paths (cs @ A)" using c forest_ok_into by (auto simp: comparable_def sorted_paths_def flat_append)
  moreover have "aligned (cs @ A) B" using c by (auto simp: comparable_def aligned_def flat_append)
  moreover have "aligned B (cs @ A)"
    unfolding aligned_def
  proof (intro ballI impI)
    fix x b assume x: "x \<in> set (flat (cs @ A))" "b \<in> set (flat B)" "path_starts_with (ie_path x) (ie_path b)"
    then have "ie_path b \<in> paths_of (flat (Node e cs # A))" using c by (auto simp: comparable_def aligned_def flat_append)
    moreover have "ie_path b \<noteq> ie_path e" using out x(2) by (metis image_eqI paths_of_def)
    ultimately show "ie_path b \<in> paths_of (flat (cs @ A))" by (auto simp: paths_of_def flat_append)
  qed
  moreover have "agree (cs @ A) B"
  proof -
    have "set (nodes (cs @ A)) \<subseteq> set (nodes (Node e cs # A))" by (auto simp: nodes_append)
    then show ?thesis using c unfolding comparable_def agree_def by blast
  qed
  ultimately show ?thesis using c by (simp add: comparable_def)
qed

definition at_or_before :: "bit_path \<Rightarrow> node list \<Rightarrow> bool" where
  "at_or_before p F \<longleftrightarrow> (\<forall>n F'. F = n # F' \<longrightarrow> p \<le> ie_path (entry n))"

lemma not_at_head:
  assumes "sorted_paths F" "at_or_before p F" "\<forall>n F'. F = n # F' \<longrightarrow> ie_path (entry n) \<noteq> p" "x \<in> set (flat F)"
  shows "p < ie_path x"
proof -
  obtain n F' where F: "F = n # F'" using assms(4) by (cases F) auto
  then have "p < ie_path (entry n)" using assms(2,3) by (auto simp: at_or_before_def order.strict_iff_order)
  then show ?thesis using head_least [of n F' x] assms(1,4) F by auto
qed

lemma comparable_advanced:
  assumes c: "comparable F G" and p: "at_or_before p F" "at_or_before p G"
  shows "comparable (advanced ov p F) (advanced ov p G)"
proof -
  have one: "comparable (advanced ov p F) G"
    if c: "comparable F G" and F: "F = Node e cs # A" "ie_path e = p" and G: "at_or_before p G" "\<forall>n G'. G = n # G' \<longrightarrow> ie_path (entry n) \<noteq> p"
    for F G e cs A
  proof -
    have "p \<notin> paths_of (flat G)" using not_at_head [of G p] c G by (force simp: comparable_def paths_of_def)
    then show ?thesis using c F comparable_into_left [of e cs A G] comparable_drop [of "(=)" "Node e cs" A G] by simp
  qed
  show ?thesis
  proof (cases "\<exists>e cs A. F = Node e cs # A \<and> ie_path e = p")
    case True
    then obtain e cs A where F: "F = Node e cs # A" "ie_path e = p" by blast
    show ?thesis
    proof (cases "\<exists>f ds B. G = Node f ds # B \<and> ie_path f = p")
      case True
      then obtain f ds B where G: "G = Node f ds # B" "ie_path f = p" by blast
      have "comparable (cs @ A) (ds @ B)" using comparable_into [of "(=)" e cs A f ds B] c F G by simp
      moreover have "comparable A B" using comparable_drop [OF c [unfolded F(1) G(1)]] comparable_sym comparable_drop by blast
      ultimately show ?thesis using F G by simp
    next
      case False
      have G: "\<forall>n G'. G = n # G' \<longrightarrow> ie_path (entry n) \<noteq> p" using False by (metis node.collapse)
      then have "advanced ov p G = G" by (cases G) simp_all
      then show ?thesis using one [OF c F p(2) G] by simp
    qed
  next
    case False
    have F: "\<forall>n F'. F = n # F' \<longrightarrow> ie_path (entry n) \<noteq> p" using False by (metis node.collapse)
    then have aF: "advanced ov p F = F" by (cases F) simp_all
    show ?thesis
    proof (cases "\<exists>f ds B. G = Node f ds # B \<and> ie_path f = p")
      case True
      then show ?thesis using one [OF comparable_sym [OF c] _ _ p(1) F] aF comparable_sym by metis
    next
      case False
      then have "\<forall>n G'. G = n # G' \<longrightarrow> ie_path (entry n) \<noteq> p" by (metis node.collapse)
      then have "advanced ov p G = G" by (cases G) simp_all
      then show ?thesis using c aF by simp
    qed
  qed
qed

lemma flat_advanced: "set (flat (advanced ov p F)) \<subseteq> set (flat F)"
proof (cases F)
  case (Cons n F')
  then show ?thesis by (cases n) (auto simp: flat_append)
qed simp

lemma least_at_or_before: "least_head None Fs = Some p \<Longrightarrow> F \<in> set Fs \<Longrightarrow> at_or_before p F"
  using least_head_le [of None Fs p] by (auto simp: at_or_before_def)

lemma walkable_advanced:
  assumes "walkable Fs" "least_head None Fs = Some p"
  shows "walkable (map (advanced ov p) Fs)"
  unfolding walkable_def
proof (intro conjI ballI)
  fix F G assume "F \<in> set (map (advanced ov p) Fs)" "G \<in> set (map (advanced ov p) Fs)"
  then obtain A B where "F = advanced ov p A" "G = advanced ov p B" "A \<in> set Fs" "B \<in> set Fs" by auto
  then show "comparable F G" using assms least_at_or_before comparable_advanced by (simp add: walkable_def)
next
  fix F e assume "F \<in> set (map (advanced ov p) Fs)" "e \<in> set (flat F)"
  then obtain A where "A \<in> set Fs" "e \<in> set (flat A)" using flat_advanced by fastforce
  then show "\<exists>te. e = entry_from_tree_entry te \<and> (te_mode te = TREE \<longrightarrow> is_known (te_oid te))" using assms(1) by (simp add: walkable_def)
qed

lemma lookup_advanced:
  assumes "forest_ok F" "q \<noteq> p" "ov \<longrightarrow> \<not> path_starts_with q p"
  shows "lookup (advanced ov p F) q = lookup F q"
proof (cases F)
  case (Cons n F')
  obtain e cs where n: "n = Node e cs" by (cases n)
  have "lookup cs q = None" if "ov" "ie_path e = p"
    using assms that Cons n by (auto simp: lookup_iff paths_of_def)
  then show ?thesis using assms(2) Cons n by (auto simp: lookup_Cons lookup_append)
qed simp

lemma paths_advanced:
  assumes w: "walkable Fs" and p: "least_head None Fs = Some p" and q: "q \<in> all_paths (map (advanced ov p) Fs)"
  shows "q \<in> all_paths Fs" "p < q" "ov \<longrightarrow> \<not> path_starts_with q p"
proof -
  obtain F x where F: "F \<in> set Fs" "x \<in> set (flat (advanced ov p F))" "q = ie_path x" using q by (auto simp: all_paths_def paths_of_def)
  have x: "x \<in> set (flat F)" using F(2) flat_advanced by blast
  then show "q \<in> all_paths Fs" using F by (auto simp: all_paths_def paths_of_def)
  have sF: "sorted_paths F" "forest_ok F" "at_or_before p F" using w F(1) least_at_or_before [OF p] by (auto simp: walkable_def comparable_def)
  have "p < q \<and> (ov \<longrightarrow> \<not> path_starts_with q p)"
  proof (cases "\<exists>e cs A. F = Node e cs # A \<and> ie_path e = p")
    case True
    then obtain e cs A where e: "F = Node e cs # A" "ie_path e = p" by blast
    have "x \<in> set (flat (cs @ A))" "ov \<longrightarrow> x \<in> set (flat A)" using F(2) e by (auto simp: flat_append split: if_splits)
    then show ?thesis using sF(1,2) e F(3) by (auto simp: sorted_paths_def flat_append)
  next
    case False
    then have no: "\<forall>n F'. F = n # F' \<longrightarrow> ie_path (entry n) \<noteq> p" by (metis node.collapse)
    have gt: "p < ie_path y" if "y \<in> set (flat F)" for y using not_at_head [OF sF(1,3) no that] .
    obtain n G' where G: "n # G' \<in> set Fs" "ie_path (entry n) = p" using least_head_le [OF p] by auto
    have "aligned (n # G') F" using w G(1) F(1) by (auto simp: walkable_def comparable_def)
    moreover have "entry n \<in> set (flat (n # G'))" by (cases n) simp
    moreover have "p \<notin> paths_of (flat F)" using gt by (fastforce simp: paths_of_def)
    ultimately have "\<not> path_starts_with q p" using x F(3) G(2) unfolding aligned_def by metis
    then show ?thesis using gt x F(3) by simp
  qed
  then show "p < q" "ov \<longrightarrow> \<not> path_starts_with q p" by simp_all
qed

section \<open>What a walk yields\<close>

definition row_path :: "row \<Rightarrow> bit_path" where
  "row_path r = ie_path (hd (row_entries r))"

text \<open>
  A path that is left out: a row above it is a tree the forests share, and below it those that have the
  tree agree.
\<close>

definition skips :: "node list list \<Rightarrow> row \<Rightarrow> bit_path \<Rightarrow> bool" where
  "skips Fs r q \<longleftrightarrow> step_over_row r \<and> path_starts_with q (row_path r)
     \<and> (\<exists>v. \<forall>F \<in> set Fs. lookup F q = (if lookup F (row_path r) = None then None else v))"

definition row_before :: "row \<Rightarrow> row \<Rightarrow> bool" where
  "row_before r r' \<longleftrightarrow> row_path r < row_path r' \<and> (step_over_row r \<longrightarrow> \<not> path_starts_with (row_path r') (row_path r))"

definition rows_ok :: "node list list \<Rightarrow> row list \<Rightarrow> bool" where
  "rows_ok Fs rows \<longleftrightarrow> sorted_wrt row_before rows
     \<and> (\<forall>r \<in> set rows. row_path r \<in> all_paths Fs \<and> r = map (\<lambda>F. lookup F (row_path r)) Fs)
     \<and> (\<forall>q \<in> all_paths Fs. q \<in> row_path ` set rows \<or> (\<exists>r \<in> set rows. skips Fs r q))"

lemma row_entries_set: "set (row_entries r) = {e. Some e \<in> set r}"
  by (induction r) (auto simp: row_entries_def List.map_filter_def)

lemma row_path_head:
  assumes "least_head None Fs = Some p"
  shows "row_path (map (at_head p) Fs) = p"
proof -
  let ?es = "row_entries (map (at_head p) Fs)"
  obtain n F where "n # F \<in> set Fs" "ie_path (entry n) = p" using least_head_le [OF assms] by auto
  then have "Some (entry n) \<in> set (map (at_head p) Fs)" by force
  then have "?es \<noteq> []" using row_entries_set [of "map (at_head p) Fs"] by fastforce
  then have "Some (hd ?es) \<in> set (map (at_head p) Fs)" using hd_in_set [of ?es] row_entries_set [of "map (at_head p) Fs"] by auto
  then obtain F' where "at_head p F' = Some (hd ?es)" by auto
  then have "ie_path (hd ?es) = p" by (cases F') (auto split: if_splits)
  then show ?thesis by (simp add: row_path_def)
qed

lemma step_over_count_all:
  "step_over_count es k c = (True, n) \<Longrightarrow> \<forall>e \<in> set es. ie_is_tree e \<and> (case k of None \<Rightarrow> ie_oid e = ie_oid (hd es) | Some o' \<Rightarrow> ie_oid e = o')"
proof (induction es k c rule: step_over_count.induct)
  case (2 ent es known count)
  then show ?case by (cases known) (auto split: if_splits)
qed simp

lemma step_over_same:
  assumes "step_over_row r" "Some d \<in> set r" "Some e \<in> set r"
  shows "ie_is_tree d" "ie_is_tree e" "ie_oid d = ie_oid e"
proof -
  obtain n where "step_over_count (row_entries r) None 0 = (True, n)" using assms(1) by (auto simp: step_over_row_def split: prod.splits)
  from step_over_count_all [OF this] show "ie_is_tree d" "ie_is_tree e" "ie_oid d = ie_oid e" using assms(2,3) row_entries_set [of r] by auto
qed

lemma shared_tree:
  assumes w: "walkable Fs" and F: "Node d cs # A \<in> set Fs" "Node e ds # B \<in> set Fs"
    and "ie_path d = ie_path e" "ie_is_tree d" "ie_is_tree e" "ie_oid d = ie_oid e"
  shows "cs = ds"
proof -
  have from_te: "\<exists>te. x = entry_from_tree_entry te \<and> (te_mode te = TREE \<longrightarrow> is_known (te_oid te))" if "Node x cs # A \<in> set Fs" for x cs A
    using w that unfolding walkable_def by force
  obtain t u where t: "d = entry_from_tree_entry t" "e = entry_from_tree_entry u" "te_mode t = TREE \<longrightarrow> is_known (te_oid t)"
    using from_te [OF F(1)] from_te [OF F(2)] by blast
  have "t = u"
    using t assms(4-7) by (cases "te_mode t"; cases "te_mode u") (auto simp: entry_from_tree_entry_def ie_is_tree_def)
  then have "entry (Node d cs) = entry (Node e ds)" "is_known (ie_oid (entry (Node d cs)))"
    using t assms(5) by (cases "te_mode t"; simp add: entry_from_tree_entry_def ie_is_tree_def)+
  moreover have "agree (Node d cs # A) (Node e ds # B)" using w F by (auto simp: walkable_def comparable_def)
  ultimately have "Node d cs = Node e ds" unfolding agree_def by (metis list.set_intros(1) nodes.simps(2))
  then show ?thesis by simp
qed

text \<open>What is below a tree that is stepped over.\<close>

lemma skipped_path:
  assumes w: "walkable Fs" and p: "least_head None Fs = Some p" and over: "step_over_row (map (at_head p) Fs)"
    and q: "q \<noteq> p" "path_starts_with q p"
  shows "\<exists>v. \<forall>F \<in> set Fs. lookup F q = (if lookup F p = None then None else v)"
proof -
  have ok: "forest_ok F" "sorted_paths F" "at_or_before p F" if "F \<in> set Fs" for F
    using w that least_at_or_before [OF p] by (auto simp: walkable_def comparable_def)
  obtain n G where G: "n # G \<in> set Fs" "ie_path (entry n) = p" using least_head_le [OF p] by auto
  obtain e cs where n: "n = Node e cs" by (cases n)
  have sn: "Some e \<in> set (map (at_head p) Fs)" using G n by force
  have "lookup F q = (if lookup F p = None then None else lookup cs q)" if F: "F \<in> set Fs" for F
  proof (cases "\<exists>d ds A. F = Node d ds # A \<and> ie_path d = p")
    case True
    then obtain d ds A where d: "F = Node d ds # A" "ie_path d = p" by blast
    have "Some d \<in> set (map (at_head p) Fs)" using F d by force
    from step_over_same [OF over this sn] have "ds = cs" using shared_tree [OF w] F d G n by (metis node.sel(1))
    moreover have "lookup A q = None" using ok(1) [OF F] d q(2) by (auto simp: lookup_iff paths_of_def)
    ultimately show ?thesis using d q(1) by (simp add: lookup_Cons split: option.splits)
  next
    case False
    then have no: "\<forall>n F'. F = n # F' \<longrightarrow> ie_path (entry n) \<noteq> p" by (metis node.collapse)
    have "p \<notin> paths_of (flat F)" using not_at_head [OF ok(2,3) [OF F] no] by (fastforce simp: paths_of_def)
    moreover have "aligned (n # G) F" using w G(1) F by (auto simp: walkable_def comparable_def)
    moreover have "e \<in> set (flat (n # G))" "ie_path e = p" using n G(2) by simp_all
    ultimately have "q \<notin> paths_of (flat F)" using q(2) unfolding aligned_def paths_of_def by (metis imageE)
    then show ?thesis using \<open>p \<notin> paths_of (flat F)\<close> by (simp add: lookup_iff)
  qed
  then show ?thesis by blast
qed

lemma rows_ok_Cons:
  assumes w: "walkable Fs" and p: "least_head None Fs = Some p"
  defines "r \<equiv> map (at_head p) Fs"
  assumes rows: "rows_ok (map (advanced (step_over_row r) p) Fs) rows"
  shows "rows_ok Fs (r # rows)"
proof -
  let ?ov = "step_over_row r"
  let ?Gs = "map (advanced ?ov p) Fs"
  have ok: "forest_ok F" "sorted_paths F" "at_or_before p F" if "F \<in> set Fs" for F
    using w that least_at_or_before [OF p] by (auto simp: walkable_def comparable_def)
  have rp: "row_path r = p" unfolding r_def by (rule row_path_head [OF p])
  have head: "r = map (\<lambda>F. lookup F p) Fs" unfolding r_def using ok at_head_lookup by (simp add: at_or_before_def)
  have same: "lookup (advanced ?ov p F) q = lookup F q" if "F \<in> set Fs" "q \<in> all_paths ?Gs" for F q
    using paths_advanced(2,3) [OF w p that(2)] ok(1) that(1) by (intro lookup_advanced) auto
  have later: "row_path r' \<in> all_paths ?Gs" "r' = map (\<lambda>F. lookup F (row_path r')) ?Gs" if "r' \<in> set rows" for r'
    using rows that by (auto simp: rows_ok_def)
  have "sorted_wrt row_before (r # rows)" using rows paths_advanced(2,3) [OF w p later(1)] rp unfolding rows_ok_def by (simp add: row_before_def)
  moreover have "p \<in> all_paths Fs"
  proof -
    obtain n F where "n # F \<in> set Fs" "ie_path (entry n) = p" using least_head_le [OF p] by auto
    then show ?thesis by (cases n) (force simp: all_paths_def paths_of_def)
  qed
  moreover have "r' = map (\<lambda>F. lookup F (row_path r')) Fs" if "r' \<in> set rows" for r'
  proof -
    have "map (\<lambda>F. lookup F (row_path r')) ?Gs = map (\<lambda>F. lookup F (row_path r')) Fs" using same [OF _ later(1) [OF that]] by simp
    then show ?thesis using later(2) [OF that] by metis
  qed
  moreover have "q \<in> row_path ` set (r # rows) \<or> (\<exists>r' \<in> set (r # rows). skips Fs r' q)" if q: "q \<in> all_paths Fs" for q
  proof -
    consider "q = p" | "q \<noteq> p" "q \<in> all_paths ?Gs" | "q \<noteq> p" "q \<notin> all_paths ?Gs" by blast
    then show ?thesis
    proof cases
      case 1
      then show ?thesis using rp by simp
    next
      case 2
      then consider "q \<in> row_path ` set rows" | r' where "r' \<in> set rows" "skips ?Gs r' q" using rows by (auto simp: rows_ok_def)
      then show ?thesis
      proof cases
        case (2 r')
        have "skips Fs r' q"
          using 2(2) same [OF _ \<open>q \<in> all_paths ?Gs\<close>] same [OF _ later(1) [OF 2(1)]] by (simp add: skips_def)
        then show ?thesis using 2(1) by auto
      qed auto
    next
      case 3
      obtain F where F: "F \<in> set Fs" "q \<in> paths_of (flat F)" using q by (auto simp: all_paths_def)
      have "q \<notin> paths_of (flat (advanced ?ov p F))" using 3(2) F(1) by (auto simp: all_paths_def)
      then have "lookup (advanced ?ov p F) q \<noteq> lookup F q" using F(2) lookup_iff by metis
      then have "?ov" "path_starts_with q p" using lookup_advanced [OF ok(1) [OF F(1)] 3(1)] by blast+
      then have "skips Fs r q" using skipped_path [OF w p] 3(1) rp by (simp add: skips_def r_def)
      then show ?thesis by simp
    qed
  qed
  moreover have "row_path r' \<in> all_paths Fs" if "r' \<in> set rows" for r' using paths_advanced(1) [OF w p later(1) [OF that]] .
  ultimately show ?thesis using head rp unfolding rows_ok_def by (metis set_ConsD)
qed

definition total_size :: "node list list \<Rightarrow> nat" where
  "total_size Fs = sum_list (map (\<lambda>F. length (flat F)) Fs)"

lemma total_size_advanced:
  assumes "least_head None Fs = Some p"
  shows "total_size (map (advanced ov p) Fs) < total_size Fs"
proof -
  have le: "length (flat (advanced ov p F)) \<le> length (flat F)" for F
  proof (cases F)
    case (Cons n F')
    then show ?thesis by (cases n) (simp add: flat_append)
  qed simp
  obtain n F where "n # F \<in> set Fs" "ie_path (entry n) = p" using least_head_le [OF assms] by auto
  then obtain xs ys where Fs: "Fs = xs @ (n # F) # ys" by (meson split_list)
  have "sum_list (map (\<lambda>F. length (flat (advanced ov p F))) zs) \<le> sum_list (map (\<lambda>F. length (flat F)) zs)" for zs
    using le by (simp add: sum_list_mono)
  from this [of xs] this [of ys] show ?thesis using \<open>ie_path (entry n) = p\<close>
    by (cases ov; cases n) (simp_all add: total_size_def Fs flat_append comp_def)
qed

context tree_iterator
begin

definition boxes :: "'s boxed_iter list \<Rightarrow> node list list \<Rightarrow> bool" where
  "boxes its Fs \<longleftrightarrow> list_all2 (\<lambda>(o', s) F. o' = ops \<and> rel s F) its Fs"

lemma scan_rows:
  assumes "boxes its Fs" "fm = None \<Longrightarrow> set ne \<subseteq> {None}"
  defines "m \<equiv> map_option ie_path fm"
  shows "\<exists>its' fm'. walk_scan its ne fm =
      (Inr ((if least_head m Fs = m then ne else map (\<lambda>_. None) ne)
            @ map (case least_head m Fs of None \<Rightarrow> \<lambda>_. None | Some p \<Rightarrow> at_head p) Fs, fm'), its')
    \<and> map_option ie_path fm' = least_head m Fs \<and> boxes its' Fs"
  using assms(1,2) unfolding m_def
proof (induction its arbitrary: Fs ne fm)
  case Nil
  then show ?case by (simp add: boxes_def)
next
  case (Cons it its)
  obtain s F Fs' where F: "it = (ops, s)" "Fs = F # Fs'" "rel s F" "boxes its Fs'"
    using Cons.prems(1) by (auto simp: boxes_def list_all2_Cons1 split: prod.splits)
  obtain s' where s': "it_peek ops s = (Inr (case F of [] \<Rightarrow> None | n # _ \<Rightarrow> Some (entry n)), s')" "rel s' F"
    using peek_law [OF F(3)] by blast
  have box: "boxes ((ops, s') # its') (F # Fs')" if "boxes its' Fs'" for its' using that s'(2) by (simp add: boxes_def)
  show ?case
  proof (cases F)
    case Nil
    from Cons.IH [OF F(4), of fm "ne @ [None]"] Cons.prems(2) obtain its' fm' where
      "walk_scan its (ne @ [None]) fm =
        (Inr ((if least_head (map_option ie_path fm) Fs' = map_option ie_path fm then ne @ [None] else map (\<lambda>_. None) (ne @ [None]))
            @ map (case least_head (map_option ie_path fm) Fs' of None \<Rightarrow> \<lambda>_. None | Some p \<Rightarrow> at_head p) Fs', fm'), its')"
      "map_option ie_path fm' = least_head (map_option ie_path fm) Fs'" "boxes its' Fs'" by auto
    then show ?thesis using F(1,2) s'(1) Nil box by (auto split: option.splits)
  next
    case n: (Cons n F')
    let ?p = "ie_path (entry n)"
    show ?thesis
    proof (cases fm)
      case None
      then have ne: "map (\<lambda>_. None) ne = ne" using Cons.prems(2) by (auto intro: map_idI)
      from Cons.IH [OF F(4), of "Some (entry n)" "ne @ [Some (entry n)]"] obtain its' fm' where
        "walk_scan its (ne @ [Some (entry n)]) (Some (entry n)) =
          (Inr ((if least_head (Some ?p) Fs' = Some ?p then ne @ [Some (entry n)] else map (\<lambda>_. None) (ne @ [Some (entry n)]))
              @ map (case least_head (Some ?p) Fs' of None \<Rightarrow> \<lambda>_. None | Some p \<Rightarrow> at_head p) Fs', fm'), its')"
        "map_option ie_path fm' = least_head (Some ?p) Fs'" "boxes its' Fs'" by auto
      moreover obtain l where "least_head (Some ?p) Fs' = Some l" using least_head_Some by blast
      ultimately show ?thesis using F(1,2) s'(1) n None box ne by auto
    next
      case (Some e)
      obtain l where l: "least_head (Some (min (ie_path e) ?p)) Fs' = Some l" "l \<le> ie_path e" "l \<le> ?p"
        using least_head_Some [of "min (ie_path e) ?p" Fs'] by auto
      consider "?p < ie_path e" | "?p = ie_path e" | "ie_path e < ?p" by (metis neqE)
      then show ?thesis
      proof cases
        case 1
        from Cons.IH [OF F(4), of "Some (entry n)" "map (\<lambda>_. None) ne @ [Some (entry n)]"] obtain its' fm' where
          "walk_scan its (map (\<lambda>_. None) ne @ [Some (entry n)]) (Some (entry n)) =
            (Inr ((if least_head (Some ?p) Fs' = Some ?p then map (\<lambda>_. None) ne @ [Some (entry n)]
                   else map (\<lambda>_. None) (map (\<lambda>_. None) ne @ [Some (entry n)]))
                @ map (case least_head (Some ?p) Fs' of None \<Rightarrow> \<lambda>_. None | Some p \<Rightarrow> at_head p) Fs', fm'), its')"
          "map_option ie_path fm' = least_head (Some ?p) Fs'" "boxes its' Fs'" by auto
        moreover have mn: "min (ie_path e) ?p = ?p" by (rule min.absorb2) (rule less_imp_le [OF 1])
        moreover have "l \<noteq> ie_path e" using l(3) 1 by auto
        ultimately show ?thesis using F(1,2) s'(1) n Some box l(1) [unfolded mn] 1 by (auto simp: diff_cmp_cases o_def)
      next
        case 2
        from Cons.IH [OF F(4), of fm "ne @ [Some (entry n)]"] Some obtain its' fm' where
          "walk_scan its (ne @ [Some (entry n)]) fm =
            (Inr ((if least_head (Some ?p) Fs' = Some ?p then ne @ [Some (entry n)] else map (\<lambda>_. None) (ne @ [Some (entry n)]))
                @ map (case least_head (Some ?p) Fs' of None \<Rightarrow> \<lambda>_. None | Some p \<Rightarrow> at_head p) Fs', fm'), its')"
          "map_option ie_path fm' = least_head (Some ?p) Fs'" "boxes its' Fs'" using 2 by auto
        then show ?thesis using F(1,2) s'(1) n Some box l 2 by (auto simp: diff_cmp_cases)
      next
        case 3
        from Cons.IH [OF F(4), of fm "ne @ [None]"] Some obtain its' fm' where
          "walk_scan its (ne @ [None]) fm =
            (Inr ((if least_head (Some (ie_path e)) Fs' = Some (ie_path e) then ne @ [None] else map (\<lambda>_. None) (ne @ [None]))
                @ map (case least_head (Some (ie_path e)) Fs' of None \<Rightarrow> \<lambda>_. None | Some p \<Rightarrow> at_head p) Fs', fm'), its')"
          "map_option ie_path fm' = least_head (Some (ie_path e)) Fs'" "boxes its' Fs'" by auto
        moreover have mn: "min (ie_path e) ?p = ie_path e" by (rule min.absorb1) (rule less_imp_le [OF 3])
        moreover have "l \<noteq> ?p" using l(2) 3 by auto
        moreover have "\<not> ?p < ie_path e" "?p \<noteq> ie_path e" using 3 by auto
        ultimately show ?thesis using F(1,2) s'(1) n Some box l(1) [unfolded mn] by (auto simp: diff_cmp_cases)
      qed
    qed
  qed
qed

lemma advance_rows:
  assumes "boxes its Fs"
  shows "\<exists>its'. walk_advance ov (map (at_head p) Fs) its = (Inr (), its') \<and> boxes its' (map (advanced ov p) Fs)"
  using assms
proof (induction its arbitrary: Fs)
  case (Cons it its)
  obtain s F Fs' where F: "it = (ops, s)" "Fs = F # Fs'" "rel s F" "boxes its Fs'"
    using Cons.prems by (auto simp: boxes_def list_all2_Cons1 split: prod.splits)
  obtain its' where its': "walk_advance ov (map (at_head p) Fs') its = (Inr (), its')" "boxes its' (map (advanced ov p) Fs')"
    using Cons.IH [OF F(4)] by blast
  have box: "boxes ((ops, s') # its') (G # map (advanced ov p) Fs')" if "rel s' G" for s' G using its'(2) that by (simp add: boxes_def)
  show ?case
  proof (cases "\<exists>n F'. F = n # F' \<and> ie_path (entry n) = p")
    case True
    then obtain n F' where n: "F = n # F'" "ie_path (entry n) = p" by blast
    obtain s' where "(if ov then it_over ops s else it_next ops s) = (Inr (Some (entry n)), s')" "rel s' (if ov then F' else subnodes n @ F')"
      using next_law [of s n F'] over_law [of s n F'] F(3) n(1) by (cases ov) auto
    then show ?thesis using F(1,2) n its'(1) box by auto
  next
    case False
    then have "at_head p F = None" "advanced ov p F = F" by (cases F; auto)+
    then show ?thesis using F(1,2,3) its'(1) box by auto
  qed
qed (simp add: boxes_def)

lemma next_row:
  assumes "boxes its Fs"
  shows "(case least_head None Fs of
      None \<Rightarrow> \<exists>its'. walk_tree_next its = (Inr None, its')
    | Some p \<Rightarrow> let r = map (at_head p) Fs in
        \<exists>its'. walk_tree_next its = (Inr (Some r), its') \<and> boxes its' (map (advanced (step_over_row r) p) Fs))"
proof -
  obtain its' fm' where sc: "walk_scan its [] None =
      (Inr (map (case least_head None Fs of None \<Rightarrow> \<lambda>_. None | Some p \<Rightarrow> at_head p) Fs, fm'), its')"
    "map_option ie_path fm' = least_head None Fs" "boxes its' Fs"
    using scan_rows [OF assms, of None "[]"] by auto
  show ?thesis
  proof (cases "least_head None Fs")
    case None
    then show ?thesis using sc by (simp add: walk_tree_next_def)
  next
    case (Some p)
    obtain its'' where "walk_advance (step_over_row (map (at_head p) Fs)) (map (at_head p) Fs) its' = (Inr (), its'')"
        "boxes its'' (map (advanced (step_over_row (map (at_head p) Fs)) p) Fs)"
      using advance_rows [OF sc(3)] by blast
    moreover obtain e where "fm' = Some e" using sc(2) Some by auto
    ultimately show ?thesis using sc(1) Some by (auto simp: walk_tree_next_def)
  qed
qed

lemma for_each_rows:
  assumes "walkable Fs" "boxes its Fs" "total_size Fs < fuel"
  shows "\<exists>rows. (\<forall>f (a :: 'a). walk_for_each fuel f its a = for_rows f rows a) \<and> rows_ok Fs rows"
  using assms
proof (induction fuel arbitrary: its Fs)
  case (Suc fuel)
  show ?case
  proof (cases "least_head None Fs")
    case None
    then have "\<forall>F \<in> set Fs. F = []" using least_head_None by blast
    then have "rows_ok Fs []" by (auto simp: rows_ok_def all_paths_def paths_of_def)
    moreover have "walk_for_each (Suc fuel) f its a = for_rows f [] a" for f and a :: 'a
      using next_row [OF Suc.prems(2)] None by auto
    ultimately show ?thesis by blast
  next
    case (Some p)
    let ?r = "map (at_head p) Fs"
    let ?Gs = "map (advanced (step_over_row ?r) p) Fs"
    obtain its' where n: "walk_tree_next its = (Inr (Some ?r), its')" "boxes its' ?Gs"
      using next_row [OF Suc.prems(2)] Some by (auto simp: Let_def)
    have "total_size ?Gs < fuel" using total_size_advanced [OF Some, of "step_over_row ?r"] Suc.prems(3) by simp
    then obtain rows where rows: "\<forall>f (a :: 'a). walk_for_each fuel f its' a = for_rows f rows a" "rows_ok ?Gs rows"
      using Suc.IH [OF walkable_advanced [OF Suc.prems(1) Some] n(2)] by blast
    have "walk_for_each (Suc fuel) f its a = for_rows f (?r # rows) a" for f and a :: 'a
      using n(1) rows(1) by (auto split: prod.splits sum.splits)
    then show ?thesis using rows_ok_Cons [OF Suc.prems(1) Some rows(2)] by blast
  qed
qed simp

end

section \<open>Walking tree objects\<close>

lemma unfolds_known:
  assumes "unfolds treeish e n" "x \<in> set (flat [n])"
  shows "\<exists>te. x = entry_from_tree_entry te \<and> (te_mode te = TREE \<longrightarrow> is_known (te_oid te))"
proof -
  obtain m where m: "m \<in> set (nodes [n])" "x = entry m" using assms(2) flat_nodes [of "[n]"] by auto
  then obtain d where "unfolds treeish d m" using unfolds_nodes [OF assms(1)] by blast
  then show ?thesis using m(2) by cases auto
qed

lemma unfolds_walkable:
  assumes "names_ok treeish" "list_all2 (unfolds treeish) (map root_entry os) ns" "\<forall>n \<in> set ns. sorted_paths [n]"
  shows "walkable (map (\<lambda>n. [n]) ns)"
proof -
  have "\<exists>o'. unfolds treeish (root_entry o') n" if "n \<in> set ns" for n
    using assms(2) that by (auto simp: list_all2_conv_all_nth in_set_conv_nth)
  then have root: "\<exists>o'. unfolds treeish (root_entry o') n \<and> F = [n] \<and> sorted_paths [n]" if "F \<in> set (map (\<lambda>n. [n]) ns)" "F = [n]" for F n
    using that assms(3) by auto
  show ?thesis
    unfolding walkable_def
  proof (intro conjI ballI)
    fix F G assume "F \<in> set (map (\<lambda>n. [n]) ns)" "G \<in> set (map (\<lambda>n. [n]) ns)"
    then obtain n m c d where "F = [n]" "G = [m]" "unfolds treeish (root_entry c) n" "unfolds treeish (root_entry d) m" "sorted_paths [n]" "sorted_paths [m]"
      using root by fastforce
    then show "comparable F G" using unfolds_comparable [OF assms(1), of "root_entry c" n "root_entry d" m]
      by (simp add: root_entry_def repo_path_def)
  next
    fix F e assume "F \<in> set (map (\<lambda>n. [n]) ns)" "e \<in> set (flat F)"
    then show "\<exists>te. e = entry_from_tree_entry te \<and> (te_mode te = TREE \<longrightarrow> is_known (te_oid te))" using root unfolds_known by fastforce
  qed
qed

definition boxed_trees :: "(oid \<Rightarrow> tree_entry list bit_result) \<Rightarrow> oid list \<Rightarrow> tree_iter boxed_iter list" where
  "boxed_trees treeish os = map (\<lambda>o'. (tree_iter_ops_of treeish, tree_iter_new o')) os"

lemma walk_trees_aux:
  assumes "names_ok treeish" "list_all2 (unfolds treeish) (map root_entry os) ns" "\<forall>n \<in> set ns. sorted_paths [n]"
    and "total_size (map (\<lambda>n. [n]) ns) < fuel"
  shows "\<exists>rows. (\<forall>f (a :: 'a). walk_for_each fuel f (boxed_trees treeish os) a = for_rows f rows a) \<and> rows_ok (map (\<lambda>n. [n]) ns) rows"
proof -
  have "tree_objects.boxes treeish (boxed_trees treeish os) (map (\<lambda>n. [n]) ns)"
    using assms(2) by (simp add: tree_objects.boxes_def boxed_trees_def list_all2_map1 list_all2_map2 tree_iter_rel_def tree_iter_new_def root_entry_def)
  then show ?thesis using tree_objects.for_each_rows [OF unfolds_walkable [OF assms(1-3)]] assms(4) by blast
qed



end
