(* ===== verification/Bit_Worktree.thy ===== *)
theory Bit_Worktree
  imports Bit_Index
begin

text \<open>
  The work tree as the repository uses it: \<open>mkdir\<close>, \<open>rm\<close>, \<open>mv\<close> and the others of
  \<^verbatim>\<open>libbit/src/repo.rs\<close>, \<open>UniquePath\<close> of \<^verbatim>\<open>libbit/src/fs.rs\<close> and the transfer between object database and
  work tree of \<^verbatim>\<open>libbit/src/iter.rs\<close>. Below them are the operations of \<open>std::fs\<close> they call. Paths are
  relative to the work tree; there are files and directories, and no symbolic links.
\<close>

section \<open>Files and directories\<close>

datatype wt_node = WFile "byte list" | WDir

type_synonym worktree = "bit_path \<Rightarrow> wt_node option"

type_synonym ('s, 'a) st_op = "'s \<Rightarrow> 'a bit_result \<times> 's"

definition st_bind :: "('s, 'a) st_op \<Rightarrow> ('a \<Rightarrow> ('s, 'b) st_op) \<Rightarrow> ('s, 'b) st_op" where
  "st_bind m f s = (case m s of (Inl e, s) \<Rightarrow> (Inl e, s) | (Inr a, s) \<Rightarrow> f a s)"

definition st_return :: "'a \<Rightarrow> ('s, 'a) st_op" where
  "st_return a s = (Inr a, s)"

definition st_fail :: "bit_error \<Rightarrow> ('s, 'a) st_op" where
  "st_fail e s = (Inl e, s)"

definition wt_parent :: "bit_path \<Rightarrow> bit_path" where
  "wt_parent p = BitPath (path_buf (butlast (components (path_bytes p))))"

definition wt_is_dir :: "worktree \<Rightarrow> bit_path \<Rightarrow> bool" where
  "wt_is_dir wt p \<longleftrightarrow> components (path_bytes p) = [] \<or> wt p = Some WDir"

definition wt_is_file :: "worktree \<Rightarrow> bit_path \<Rightarrow> bool" where
  "wt_is_file wt p = (case wt p of Some (WFile _) \<Rightarrow> True | _ \<Rightarrow> False)"

definition io_error :: "string \<Rightarrow> bit_error" where
  "io_error = Bail"

text \<open>
  \<open>Path::try_exists\<close>, which fails when something on the way is a file, \<open>create_dir\<close> and \<open>create_dir_all\<close>.
\<close>

definition try_exists :: "bit_path \<Rightarrow> (worktree, bool) st_op" where
  "try_exists p wt =
     (if components (path_bytes p) = [] \<or> wt p \<noteq> None then (Inr True, wt)
      else if list_ex (wt_is_file wt) (cumulative_components p) then (Inl (io_error ''not a directory''), wt)
      else (Inr False, wt))"

definition create_dir :: "bit_path \<Rightarrow> (worktree, unit) st_op" where
  "create_dir p wt =
     (if components (path_bytes p) = [] \<or> wt p \<noteq> None then (Inl (io_error ''file exists''), wt)
      else if \<not> wt_is_dir wt (wt_parent p) then (Inl (io_error ''no such directory''), wt)
      else (Inr (), wt(p \<mapsto> WDir)))"

fun create_dirs :: "bit_path list \<Rightarrow> (worktree, unit) st_op" where
  "create_dirs [] wt = (Inr (), wt)"
| "create_dirs (p # ps) wt =
     (if wt_is_file wt p then (Inl (io_error ''not a directory''), wt) else create_dirs ps (wt(p \<mapsto> WDir)))"

definition create_dir_all :: "bit_path \<Rightarrow> (worktree, unit) st_op" where
  "create_dir_all p = create_dirs (if components (path_bytes p) = [] then [] else cumulative_components p)"

text \<open>\<open>remove_file\<close>, \<open>remove_dir_all\<close> and \<open>rename\<close>.\<close>

definition remove_file :: "bit_path \<Rightarrow> (worktree, unit) st_op" where
  "remove_file p wt = (if wt_is_file wt p then (Inr (), wt(p := None)) else (Inl (io_error ''cannot remove''), wt))"

definition remove_dir_all :: "bit_path \<Rightarrow> (worktree, unit) st_op" where
  "remove_dir_all p wt =
     (if wt p = Some WDir then (Inr (), \<lambda>q. if path_starts_with q p then None else wt q) else (Inl (io_error ''cannot remove''), wt))"

text \<open>
  \<open>rename\<close> to a path that is free, which is all that is used; a directory takes what is below it along.
\<close>

definition rename :: "bit_path \<Rightarrow> bit_path \<Rightarrow> (worktree, unit) st_op" where
  "rename from to wt =
     (if wt from = None \<or> wt to \<noteq> None \<or> \<not> wt_is_dir wt (wt_parent to) \<or> path_starts_with to from then (Inl (io_error ''cannot rename''), wt)
      else (Inr (), \<lambda>q.
        if path_starts_with q to
        then wt (BitPath (path_buf (components (path_bytes from) @ drop (length (components (path_bytes to))) (components (path_bytes q)))))
        else if path_starts_with q from then None else wt q))"

text \<open>
  Opening a file with \<open>create_new\<close>, opening an existing file for writing, and \<open>write_all\<close> at its start,
  which leaves what is behind the written bytes.
\<close>

definition open_new :: "bit_path \<Rightarrow> (worktree, unit) st_op" where
  "open_new p wt =
     (if components (path_bytes p) = [] \<or> wt p \<noteq> None \<or> \<not> wt_is_dir wt (wt_parent p) then (Inl (io_error ''cannot create''), wt)
      else (Inr (), wt(p \<mapsto> WFile [])))"

definition open_existing :: "bit_path \<Rightarrow> (worktree, unit) st_op" where
  "open_existing p wt = (if wt_is_file wt p then (Inr (), wt) else (Inl (io_error ''cannot open''), wt))"

definition write_all_at_start :: "bit_path \<Rightarrow> byte list \<Rightarrow> (worktree, unit) st_op" where
  "write_all_at_start p data wt =
     (case wt p of Some (WFile c) \<Rightarrow> (Inr (), wt(p \<mapsto> WFile (data @ drop (length data) c))) | _ \<Rightarrow> (Inl (io_error ''cannot write''), wt))"

definition read_file :: "bit_path \<Rightarrow> (worktree, byte list) st_op" where
  "read_file p wt = (case wt p of Some (WFile c) \<Rightarrow> (Inr c, wt) | _ \<Rightarrow> (Inl (io_error ''cannot read''), wt))"

section \<open>Model: the operations of the repository\<close>

definition repo_mkdir :: "bit_path \<Rightarrow> (worktree, unit) st_op" where
  "repo_mkdir p = create_dir p"

definition repo_rmdir_all :: "bit_path \<Rightarrow> (worktree, unit) st_op" where
  "repo_rmdir_all p = remove_dir_all p"

definition repo_touch :: "bit_path \<Rightarrow> (worktree, unit) st_op" where
  "repo_touch p = st_bind (create_dir_all (wt_parent p)) (\<lambda>_. open_new p)"

definition repo_path_exists :: "bit_path \<Rightarrow> (worktree, bool) st_op" where
  "repo_path_exists p = try_exists p"

definition repo_rm :: "bit_path \<Rightarrow> (worktree, unit) st_op" where
  "repo_rm p = remove_file p"

definition repo_mv :: "bit_path \<Rightarrow> bit_path \<Rightarrow> (worktree, unit) st_op" where
  "repo_mv from to = rename from to"

text \<open>\<open>UniquePath::make\<close>: the path, then the path with \<open>_0\<close>, \<open>_1\<close> and so on until one is free.\<close>

type_synonym rename_index = "nat option"

definition rename_index_inc :: "rename_index \<Rightarrow> rename_index" where
  "rename_index_inc i = (case i of Some i \<Rightarrow> Some (i + 1) | None \<Rightarrow> Some 0)"

definition rename_index_display :: "rename_index \<Rightarrow> byte list" where
  "rename_index_display i = (case i of Some idx \<Rightarrow> bytes_of ''_'' @ int_to_string (int idx) | None \<Rightarrow> [])"

fun unique_path_from :: "nat \<Rightarrow> byte list \<Rightarrow> rename_index \<Rightarrow> (worktree, bit_path) st_op" where
  "unique_path_from 0 base i wt = (Inl Diverge, wt)"
| "unique_path_from (Suc fuel) base i wt =
     st_bind (repo_path_exists (BitPath (base @ rename_index_display i))) (\<lambda>exists.
       if \<not> exists then st_return (BitPath (base @ rename_index_display i))
       else unique_path_from fuel base (rename_index_inc i)) wt"

definition unique_path_make :: "nat \<Rightarrow> byte list \<Rightarrow> (worktree, bit_path) st_op" where
  "unique_path_make fuel base = unique_path_from fuel base None"

section \<open>Model: objects and files\<close>

text \<open>What reading an object tells, and the object database as it is used here.\<close>

datatype obj_read = ObjBlob "byte list" | ObjOther | ObjNotFound

type_synonym obj_reader = "oid \<Rightarrow> obj_read bit_result"

definition read_blob_from_worktree :: "bit_path \<Rightarrow> (worktree, byte list) st_op" where
  "read_blob_from_worktree p = read_file p"

definition read_to_bytes :: "obj_reader \<Rightarrow> index_entry \<Rightarrow> (worktree, byte list) st_op" where
  "read_to_bytes rd e =
     (if is_known (ie_oid e)
      then (case rd (ie_oid e) of
              Inl err \<Rightarrow> st_fail err
            | Inr (ObjBlob bs) \<Rightarrow> st_return bs
            | Inr ObjOther \<Rightarrow> st_fail Panic
            | Inr ObjNotFound \<Rightarrow> read_blob_from_worktree (ie_path e))
      else read_blob_from_worktree (ie_path e))"

definition write_to_disk_at :: "obj_reader \<Rightarrow> index_entry \<Rightarrow> bit_path \<Rightarrow> (worktree, unit) st_op" where
  "write_to_disk_at rd e p =
     st_bind (read_to_bytes rd e) (\<lambda>bs. st_bind (repo_touch p) (\<lambda>_. write_all_at_start p bs))"

definition write_to_disk :: "obj_reader \<Rightarrow> index_entry \<Rightarrow> (worktree, unit) st_op" where
  "write_to_disk rd e = write_to_disk_at rd e (ie_path e)"

section \<open>Where files can be written\<close>

lemma strict_prefix_iff_butlast: "ys \<noteq> [] \<Longrightarrow> strict_prefix xs ys \<longleftrightarrow> prefix xs (butlast ys)"
proof -
  assume ne: "ys \<noteq> []"
  then have "ys = butlast ys @ [last ys]" by simp
  then have "prefix xs ys \<longleftrightarrow> xs = ys \<or> prefix xs (butlast ys)" by (metis prefix_snoc)
  moreover have "\<not> prefix ys (butlast ys)"
  proof
    assume "prefix ys (butlast ys)"
    moreover have "length (butlast ys) < length ys" using ne by (cases ys) simp_all
    ultimately show False using prefix_length_le [of ys "butlast ys"] by linarith
  qed
  ultimately show ?thesis by (auto simp: strict_prefix_def)
qed

lemma inside_segments:
  "clean_path p \<Longrightarrow> clean_path q \<Longrightarrow> inside q p \<longleftrightarrow> strict_prefix (segments p) (segments q)"
  by (auto simp: inside_def starts_with_clean strict_prefix_def segments_inject)

lemma segments_no_slash: "seg \<in> set (segments p) \<Longrightarrow> b_slash \<notin> set seg"
  by (auto simp: segments_def dest: split_on_seg)

text \<open>The directory a clean path is in.\<close>

lemma wt_parent_clean:
  assumes "clean_path p"
  shows "butlast (segments p) = [] \<Longrightarrow> components (path_bytes (wt_parent p)) = []"
    and "butlast (segments p) \<noteq> [] \<Longrightarrow> clean_path (wt_parent p) \<and> segments (wt_parent p) = butlast (segments p)"
proof -
  have cp: "clean_parts (butlast (segments p))"
    using assms segments_no_slash by (auto simp: clean_parts_def clean_path_def list_all_iff dest: in_set_butlastD)
  have wp: "path_bytes (wt_parent p) = join_on b_slash (butlast (segments p))"
    using path_buf_relative [OF cp] assms by (simp add: wt_parent_def components_clean map_butlast [symmetric])
  show "butlast (segments p) = [] \<Longrightarrow> components (path_bytes (wt_parent p)) = []" using components_join [OF cp] wp by simp
  assume ne: "butlast (segments p) \<noteq> []"
  have "segments (wt_parent p) = butlast (segments p)"
    using split_join_on [OF ne] cp wp by (auto simp: segments_def [of "wt_parent p"] clean_parts_def list_all_iff)
  then show "clean_path (wt_parent p) \<and> segments (wt_parent p) = butlast (segments p)"
    using assms by (auto simp: clean_path_def list_all_iff dest: in_set_butlastD)
qed

lemma parent_cumulative:
  assumes "clean_path p" "components (path_bytes (wt_parent p)) \<noteq> []"
  shows "set (cumulative_components (wt_parent p)) = {q. clean_path q \<and> inside p q}"
proof -
  have w: "clean_path (wt_parent p)" "segments (wt_parent p) = butlast (segments p)" using wt_parent_clean [OF assms(1)] assms(2) by auto
  have "q \<in> set (cumulative_components (wt_parent p)) \<longleftrightarrow> clean_path q \<and> inside p q" for q
  proof (cases "clean_path q")
    case True
    then show ?thesis
      using cumulative_iff_starts_with [OF w(1) True] starts_with_clean [OF w(1) True] inside_segments [OF True assms(1)]
        strict_prefix_iff_butlast [of "segments p" "segments q"] w(2) by simp
  next
    case False
    then show ?thesis using cumulative_clean [OF w(1)] by blast
  qed
  then show ?thesis by blast
qed

lemma parent_inside:
  assumes "clean_path p" "components (path_bytes (wt_parent p)) \<noteq> []"
  shows "clean_path (wt_parent p)" "inside p (wt_parent p)"
proof -
  have w: "clean_path (wt_parent p)" "segments (wt_parent p) = butlast (segments p)" using wt_parent_clean [OF assms(1)] assms(2) by auto
  show "clean_path (wt_parent p)" "inside p (wt_parent p)"
    using w inside_segments [OF w(1) assms(1)] strict_prefix_iff_butlast [of "segments p" "segments (wt_parent p)"] by simp_all
qed

lemma parent_root_inside:
  assumes "clean_path p" "components (path_bytes (wt_parent p)) = []" "clean_path q"
  shows "\<not> inside p q"
proof -
  have "butlast (segments p) = []"
    using wt_parent_clean(2) [OF assms(1)] assms(2) components_clean [of "wt_parent p"] by fastforce
  then show ?thesis using inside_segments [OF assms(3,1)] strict_prefix_iff_butlast [of "segments p" "segments q"] by simp
qed

lemma create_dirs_free:
  "\<forall>q \<in> set ps. \<not> wt_is_file wt q \<Longrightarrow> create_dirs ps wt = (Inr (), \<lambda>q. if q \<in> set ps then Some WDir else wt q)"
proof (induction ps arbitrary: wt)
  case (Cons p ps)
  have "\<forall>q \<in> set ps. \<not> wt_is_file (wt(p \<mapsto> WDir)) q" using Cons.prems by (auto simp: wt_is_file_def)
  note ih = Cons.IH [OF this]
  have "create_dirs (p # ps) wt = create_dirs ps (wt(p \<mapsto> WDir))" using Cons.prems by simp
  moreover have "(\<lambda>q. if q \<in> set ps then Some WDir else (wt(p \<mapsto> WDir)) q) = (\<lambda>q. if q \<in> set (p # ps) then Some WDir else wt q)"
    by auto
  ultimately show ?case using ih by (simp only:)
qed simp

definition no_file_above :: "worktree \<Rightarrow> bit_path \<Rightarrow> bool" where
  "no_file_above wt p \<longleftrightarrow> (\<forall>q. clean_path q \<and> inside p q \<longrightarrow> \<not> wt_is_file wt q)"

definition with_dirs :: "bit_path \<Rightarrow> worktree \<Rightarrow> worktree" where
  "with_dirs p wt = (\<lambda>q. if clean_path q \<and> inside p q then Some WDir else wt q)"

lemma create_parents:
  assumes "clean_path p" "no_file_above wt p"
  shows "create_dir_all (wt_parent p) wt = (Inr (), with_dirs p wt)"
proof (cases "components (path_bytes (wt_parent p)) = []")
  case True
  then show ?thesis using parent_root_inside [OF assms(1) True] by (auto simp: create_dir_all_def with_dirs_def fun_eq_iff)
next
  case False
  note c = parent_cumulative [OF assms(1) False]
  have "\<forall>q \<in> set (cumulative_components (wt_parent p)). \<not> wt_is_file wt q" using c assms(2) by (auto simp: no_file_above_def)
  from create_dirs_free [OF this] show ?thesis using False c by (auto simp: create_dir_all_def with_dirs_def fun_eq_iff)
qed

lemma clean_components: "clean_path p \<Longrightarrow> components (path_bytes p) \<noteq> []"
  by (simp add: components_clean)

lemma touch_free:
  assumes "clean_path p" "no_file_above wt p" "wt p = None"
  shows "repo_touch p wt = (Inr (), (with_dirs p wt)(p \<mapsto> WFile []))"
proof -
  have "with_dirs p wt p = None" using assms(3) by (simp add: with_dirs_def inside_def)
  moreover have "wt_is_dir (with_dirs p wt) (wt_parent p)"
    using parent_inside [OF assms(1)] by (auto simp: wt_is_dir_def with_dirs_def)
  ultimately show ?thesis using create_parents [OF assms(1,2)] clean_components [OF assms(1)] by (simp add: repo_touch_def st_bind_def open_new_def)
qed

lemma exists_free:
  assumes "clean_path p" "no_file_above wt p" "wt p = None"
  shows "repo_path_exists p wt = (Inr False, wt)"
proof -
  have "\<not> wt_is_file wt q" if q: "q \<in> set (cumulative_components p)" for q
  proof (cases "q = p")
    case False
    have "clean_path q" using cumulative_clean [OF assms(1) q] .
    then have "inside p q" using cumulative_iff_starts_with [OF assms(1)] q False by (simp add: inside_def)
    then show ?thesis using assms(2) \<open>clean_path q\<close> by (simp add: no_file_above_def)
  qed (use assms(3) in \<open>simp add: wt_is_file_def\<close>)
  then show ?thesis using assms(3) clean_components [OF assms(1)] by (auto simp: repo_path_exists_def try_exists_def list_ex_iff)
qed

lemma write_to_disk_free:
  assumes "clean_path p" "no_file_above wt p" "wt p = None" "is_known (ie_oid e)" "rd (ie_oid e) = Inr (ObjBlob bs)"
  shows "write_to_disk_at rd e p wt = (Inr (), (with_dirs p wt)(p \<mapsto> WFile bs))"
  using touch_free [OF assms(1-3)] assms(4,5)
  by (simp add: write_to_disk_at_def st_bind_def read_to_bytes_def st_return_def write_all_at_start_def)

section \<open>A free path is found\<close>

definition nth_index :: "nat \<Rightarrow> rename_index" where
  "nth_index n = (case n of 0 \<Rightarrow> None | Suc k \<Rightarrow> Some k)"

definition candidate :: "byte list \<Rightarrow> nat \<Rightarrow> bit_path" where
  "candidate base n = BitPath (base @ rename_index_display (nth_index n))"

lemma nth_index_inc: "rename_index_inc (nth_index n) = nth_index (Suc n)"
  by (cases n) (simp_all add: rename_index_inc_def nth_index_def)

lemma candidate_inj: "inj (candidate base)"
proof (rule injI)
  fix a b assume "candidate base a = candidate base b"
  then have eq: "rename_index_display (nth_index a) = rename_index_display (nth_index b)" by (simp add: candidate_def)
  have digits: "m = n" if "nat_digits 10 m = nat_digits 10 n" for m n
  proof -
    have "Some m = parse_nat_radix 10 (nat_digits 10 m)" by (simp add: parse_nat_radix_nat_digits)
    also have "\<dots> = parse_nat_radix 10 (nat_digits 10 n)" by (simp only: that)
    also have "\<dots> = Some n" by (simp add: parse_nat_radix_nat_digits)
    finally show ?thesis by simp
  qed
  have disp: "rename_index_display (Some m) = 95 # nat_digits 10 m" "rename_index_display None = []" for m
    by (simp_all add: rename_index_display_def int_to_string_def)
  have "nth_index a = nth_index b" using eq by (cases "nth_index a"; cases "nth_index b") (auto simp: disp dest: digits)
  then show "a = b" by (simp add: nth_index_def split: nat.splits)
qed

lemma suffix_no_slash: "b_slash \<notin> set (rename_index_display i)"
proof (cases i)
  case (Some k)
  have "b_slash \<notin> set (int_to_string (int k))" using nat_digits_10_range [of k] by (auto simp: int_to_string_def)
  then show ?thesis using Some by (simp add: rename_index_display_def)
qed (simp add: rename_index_display_def)

lemma join_on_last: "join_on sep (xs @ [x @ y]) = join_on sep (xs @ [x]) @ y"
  by (induction xs) (simp_all add: join_on_Cons)

lemma candidate_segments:
  assumes "clean_path (BitPath base)"
  shows "butlast (segments (candidate base n)) = butlast (segments (BitPath base))" "clean_path (candidate base n)"
proof -
  let ?sfx = "rename_index_display (nth_index n)" and ?ss = "segments (BitPath base)"
  have base: "base = join_on b_slash ?ss" using path_of_segments [of "BitPath base"] by simp
  obtain xs x where ss: "?ss = xs @ [x]" by (cases ?ss rule: rev_cases) simp
  have sl: "\<forall>y \<in> set (xs @ [x @ ?sfx]). b_slash \<notin> set y" using segments_no_slash [of _ "BitPath base"] suffix_no_slash [of "nth_index n"] by (auto simp: ss)
  have "base @ ?sfx = join_on b_slash (xs @ [x @ ?sfx])"
    by (subst base) (simp only: ss join_on_last)
  then have seg: "segments (candidate base n) = xs @ [x @ ?sfx]" using sl by (simp add: candidate_def segments_def split_join_on)
  then show "butlast (segments (candidate base n)) = butlast ?ss" by (simp add: ss)
  have "clean_seg x" "\<forall>y \<in> set xs. clean_seg y" using assms by (simp_all add: clean_path_def ss list_all_iff)
  moreover have "clean_seg (x @ ?sfx)"
  proof (cases "nth_index n")
    case (Some k)
    have "95 \<in> set ?sfx" "95 \<notin> set [46::byte]" "95 \<notin> set [46::byte, 46]" using Some by (simp_all add: rename_index_display_def)
    then have "x @ ?sfx \<noteq> [46]" "x @ ?sfx \<noteq> [46, 46]" "x @ ?sfx \<noteq> []" by (metis in_set_conv_decomp_last set_append UnCI append_is_Nil_conv empty_iff list.set(1))+
    then show ?thesis by (simp add: clean_seg_def)
  qed (use \<open>clean_seg x\<close> in \<open>simp add: rename_index_display_def\<close>)
  ultimately show "clean_path (candidate base n)" by (simp add: clean_path_def seg list_all_iff)
qed

lemma candidate_above:
  assumes "clean_path (BitPath base)" "no_file_above wt (BitPath base)"
  shows "no_file_above wt (candidate base n)"
  unfolding no_file_above_def
proof (intro allI impI)
  fix q assume q: "clean_path q \<and> inside (candidate base n) q"
  note c = candidate_segments [OF assms(1), of n]
  have "strict_prefix (segments q) (segments (candidate base n))" using q inside_segments [of q "candidate base n"] c(2) by simp
  then have "prefix (segments q) (butlast (segments (candidate base n)))"
    using prefix_snoc [of "segments q" "butlast (segments (candidate base n))" "last (segments (candidate base n))"]
    by (simp add: strict_prefix_def)
  then have "prefix (segments q) (butlast (segments (BitPath base)))" by (simp only: c(1))
  moreover have "strict_prefix (butlast (segments (BitPath base))) (segments (BitPath base))"
    using append_butlast_last_id [OF segments_nonempty, of "BitPath base"] by (metis strict_prefixI')
  ultimately have "strict_prefix (segments q) (segments (BitPath base))" by (rule prefix_order.le_less_trans)
  then have "inside (BitPath base) q" using q inside_segments [of q "BitPath base"] assms(1) by simp
  then show "\<not> wt_is_file wt q" using assms(2) q by (simp add: no_file_above_def)
qed

lemma unique_path_from_spec:
  assumes b: "clean_path (BitPath base)" "no_file_above wt (BitPath base)"
  shows "wt (candidate base (n + m)) = None \<Longrightarrow> m < fuel \<Longrightarrow>
     \<exists>k. unique_path_from fuel base (nth_index n) wt = (Inr (candidate base k), wt) \<and> wt (candidate base k) = None"
proof (induction fuel arbitrary: n m)
  case (Suc fuel)
  let ?p = "candidate base n"
  have c: "components (path_bytes ?p) \<noteq> []" using clean_components [OF candidate_segments(2) [OF b(1)]] by simp
  show ?case
  proof (cases "wt ?p")
    case None
    then have "unique_path_from (Suc fuel) base (nth_index n) wt = (Inr ?p, wt)"
      using exists_free [OF candidate_segments(2) [OF b(1)] candidate_above [OF b] None] by (simp add: st_bind_def st_return_def candidate_def)
    then show ?thesis using None by blast
  next
    case (Some x)
    then obtain m' where m: "m = Suc m'" using Suc.prems(1) by (cases m) auto
    have "repo_path_exists ?p wt = (Inr True, wt)" using Some by (simp add: repo_path_exists_def try_exists_def)
    then have "unique_path_from (Suc fuel) base (nth_index n) wt = unique_path_from fuel base (nth_index (Suc n)) wt"
      by (simp add: st_bind_def candidate_def nth_index_inc)
    then show ?thesis using Suc.IH [of "Suc n" m'] Suc.prems m by simp
  qed
qed simp

text \<open>
  C31. \<open>UniquePath::make\<close> comes to an end: in a work tree of finitely many files, with no file where a directory
  of the path is to be, the loop finds a path that is free after at most as many rounds as the work tree has
  paths. The path found is the given one with a number behind it, and the work tree is as it was.
\<close>

theorem unique_path_found:
  assumes "finite (dom wt)" "clean_path (BitPath base)" "no_file_above wt (BitPath base)" "card (dom wt) < fuel"
  shows "\<exists>i. unique_path_make fuel base wt = (Inr (BitPath (base @ rename_index_display i)), wt) \<and> wt (BitPath (base @ rename_index_display i)) = None"
proof -
  have "card (candidate base ` {..card (dom wt)}) = Suc (card (dom wt))" using inj_on_subset [OF candidate_inj subset_UNIV] by (subst card_image) simp_all
  then have "\<not> candidate base ` {..card (dom wt)} \<subseteq> dom wt" using card_mono [OF assms(1), of "candidate base ` {..card (dom wt)}"] by auto
  then obtain m where m: "m \<le> card (dom wt)" "wt (candidate base (0 + m)) = None" by auto
  then obtain k where "unique_path_from fuel base (nth_index 0) wt = (Inr (candidate base k), wt)" "wt (candidate base k) = None"
    using unique_path_from_spec [OF assms(2,3), of 0 m fuel] assms(4) by auto
  then show ?thesis by (auto simp: unique_path_make_def candidate_def nth_index_def)
qed

theorem unique_path_found_witness:
  "\<exists>i. unique_path_make 3 (bytes_of ''a'') [BitPath (bytes_of ''a'') \<mapsto> WFile [], BitPath (bytes_of ''a_0'') \<mapsto> WDir]
     = (Inr (BitPath (bytes_of ''a'' @ rename_index_display i)), [BitPath (bytes_of ''a'') \<mapsto> WFile [], BitPath (bytes_of ''a_0'') \<mapsto> WDir])"
proof -
  let ?wt = "[BitPath (bytes_of ''a'') \<mapsto> WFile [], BitPath (bytes_of ''a_0'') \<mapsto> WDir]"
  have a: "clean_path (BitPath (bytes_of ''a''))" by code_simp
  have "\<not> inside (BitPath (bytes_of ''a'')) q" if "clean_path q" for q
  proof -
    have "length (segments (BitPath (bytes_of ''a''))) = 1" by code_simp
    then have "\<not> strict_prefix (segments q) (segments (BitPath (bytes_of ''a'')))"
      using segments_nonempty [of q] prefix_length_less by fastforce
    then show ?thesis using inside_segments [OF that a] by simp
  qed
  then have "no_file_above ?wt (BitPath (bytes_of ''a''))" unfolding no_file_above_def by blast
  moreover have "finite (dom ?wt)" "card (dom ?wt) < 3" by (simp_all add: card_insert_if)
  ultimately show ?thesis using unique_path_found [OF _ a, of ?wt 3] by blast
qed

end
