(* ===== verification/Bit_Merge.thy ===== *)
theory Bit_Merge
  imports Bit_Walk Bit_Worktree
begin

text \<open>
  Three-way merge of trees, \<^verbatim>\<open>libbit/src/merge.rs\<close>: the entries of base, ours and theirs at a path are
  compared, and index and work tree are changed accordingly. Reading objects, writing blobs, the metadata
  of files and the merge of file contents (crate \<open>diffy\<close>) are the parameters of \<open>merge_env\<close>.
\<close>

section \<open>Model: differences to the base\<close>

datatype merge_diff_entry =
    MDeletedBlob index_entry
  | MCreatedBlob index_entry
  | MModifiedBlob index_entry
  | MModifiedTree index_entry
  | MUnmodifiedBlob index_entry
  | MUnmodifiedTree index_entry
  | MDeletedTree index_entry
  | MCreatedTree index_entry
  | MBlobToTree index_entry
  | MTreeToBlob index_entry

definition base_only :: "index_entry \<Rightarrow> merge_diff_entry bit_result" where
  "base_only base =
     (case ie_mode base of TREE \<Rightarrow> Inr (MDeletedTree base) | GITLINK \<Rightarrow> Inl Panic | _ \<Rightarrow> Inr (MDeletedBlob base))"

definition other_only :: "index_entry \<Rightarrow> merge_diff_entry bit_result" where
  "other_only other =
     (case ie_mode other of TREE \<Rightarrow> Inr (MCreatedTree other) | GITLINK \<Rightarrow> Inl Panic | _ \<Rightarrow> Inr (MCreatedBlob other))"

definition diff_matching :: "index_entry \<Rightarrow> index_entry \<Rightarrow> merge_diff_entry bit_result" where
  "diff_matching base other =
     (if \<not> is_known (ie_oid base) \<or> \<not> is_known (ie_oid other) then Inl Panic
      else if ie_mode base = GITLINK \<or> ie_mode other = GITLINK then Inl Panic
      else if ie_mode base = TREE \<and> ie_mode other = TREE
      then Inr (if ie_oid base = ie_oid other then MUnmodifiedTree other else MModifiedTree other)
      else if ie_mode base = TREE then Inr (MTreeToBlob other)
      else if ie_mode other = TREE then Inr (MBlobToTree other)
      else Inr (if ie_oid base = ie_oid other then MUnmodifiedBlob other else MModifiedBlob other))"

definition diff_base_to_other :: "index_entry option \<Rightarrow> index_entry option \<Rightarrow> merge_diff_entry option bit_result" where
  "diff_base_to_other base other =
     (case (base, other) of
        (None, None) \<Rightarrow> Inr None
      | (None, Some other) \<Rightarrow> and_then (other_only other) (\<lambda>d. Inr (Some d))
      | (Some base, None) \<Rightarrow> and_then (base_only base) (\<lambda>d. Inr (Some d))
      | (Some base, Some other) \<Rightarrow>
          and_then
            (case diff_cmp base other of
               Less \<Rightarrow> base_only base
             | Greater \<Rightarrow> other_only other
             | Equal \<Rightarrow> diff_matching base other)
            (\<lambda>d. Inr (Some d)))"

section \<open>Model: changing index and work tree\<close>

record merge_env =
  me_read_obj :: obj_reader
  me_write_blob :: "byte list \<Rightarrow> oid bit_result"
  me_lstat :: "worktree \<Rightarrow> bit_path \<Rightarrow> stat bit_result"
  me_merge :: "byte list \<Rightarrow> byte list \<Rightarrow> byte list \<Rightarrow> byte list + byte list"
  me_their_head_desc :: "byte list"
  me_fuel :: nat

record merge_ctxt =
  mc_index :: index_inner
  mc_wt :: worktree
  mc_uncommitted :: "bit_path list"

type_synonym 'a merge_op = "(merge_ctxt, 'a) st_op"

definition on_wt :: "(worktree, 'a) st_op \<Rightarrow> 'a merge_op" where
  "on_wt m s = (case m (mc_wt s) of (r, wt) \<Rightarrow> (r, s\<lparr>mc_wt := wt\<rparr>))"

definition on_index :: "(worktree \<Rightarrow> index_inner \<Rightarrow> index_inner bit_result) \<Rightarrow> unit merge_op" where
  "on_index f s = (case f (mc_wt s) (mc_index s) of Inl e \<Rightarrow> (Inl e, s) | Inr idx \<Rightarrow> (Inr (), s\<lparr>mc_index := idx\<rparr>))"

definition write_wt_blob :: "merge_env \<Rightarrow> worktree \<Rightarrow> bit_path \<Rightarrow> oid bit_result" where
  "write_wt_blob env wt p = and_then (fst (read_blob_from_worktree p wt)) (me_write_blob env)"

definition m_add_entry :: "merge_env \<Rightarrow> index_entry \<Rightarrow> unit merge_op" where
  "m_add_entry env e = on_index (\<lambda>wt. add_entry (me_lstat env wt) (write_wt_blob env wt) e)"

definition m_add_conflicted_entry :: "merge_env \<Rightarrow> index_entry \<Rightarrow> merge_stage \<Rightarrow> unit merge_op" where
  "m_add_conflicted_entry env e stage = on_index (\<lambda>wt. add_conflicted_entry (write_wt_blob env wt) e stage)"

definition m_remove_entry :: "entry_key \<Rightarrow> unit merge_op" where
  "m_remove_entry k = on_index (\<lambda>_ idx. Inr (remove_entry k idx))"

definition m_remove_directory :: "bit_path \<Rightarrow> unit merge_op" where
  "m_remove_directory p = on_index (\<lambda>_ idx. Inr (remove_directory p idx))"

definition add_entry_from_path :: "merge_env \<Rightarrow> bit_path \<Rightarrow> unit merge_op" where
  "add_entry_from_path env p =
     on_index (\<lambda>wt idx. and_then (from_relative_path (me_lstat env wt) p) (\<lambda>e. add_entry (me_lstat env wt) (write_wt_blob env wt) e idx))"

definition write_and_add_blob :: "merge_env \<Rightarrow> index_entry \<Rightarrow> unit merge_op" where
  "write_and_add_blob env e = st_bind (on_wt (write_to_disk (me_read_obj env) e)) (\<lambda>_. m_add_entry env e)"

definition update_blob :: "merge_env \<Rightarrow> index_entry \<Rightarrow> unit merge_op" where
  "update_blob env e = st_bind (on_wt (repo_rm (ie_path e))) (\<lambda>_. write_and_add_blob env e)"

definition base_to_ours_only :: "merge_env \<Rightarrow> merge_diff_entry \<Rightarrow> unit merge_op" where
  "base_to_ours_only env d =
     (case d of MCreatedBlob e \<Rightarrow> m_add_entry env e | MCreatedTree _ \<Rightarrow> st_return () | _ \<Rightarrow> st_fail Panic)"

definition push_uncommitted :: "bit_path \<Rightarrow> unit merge_op" where
  "push_uncommitted p s = (Inr (), s\<lparr>mc_uncommitted := mc_uncommitted s @ [p]\<rparr>)"

definition base_to_theirs_only :: "merge_env \<Rightarrow> merge_diff_entry \<Rightarrow> unit merge_op" where
  "base_to_theirs_only env d =
     (case d of
        MCreatedBlob e \<Rightarrow>
          st_bind (on_wt (repo_path_exists (ie_path e))) (\<lambda>exists.
            if exists then push_uncommitted (ie_path e) else write_and_add_blob env e)
      | MCreatedTree t \<Rightarrow> on_wt (repo_mkdir (ie_path t))
      | _ \<Rightarrow> st_fail Panic)"

definition write_their_conflicted :: "merge_env \<Rightarrow> index_entry \<Rightarrow> unit merge_op" where
  "write_their_conflicted env theirs =
     on_wt (st_bind (unique_path_make (me_fuel env) (path_bytes (ie_path theirs) @ bytes_of ''~'' @ me_their_head_desc env))
       (\<lambda>moved_path. write_to_disk_at (me_read_obj env) theirs moved_path))"

definition mv_our_conflicted :: "merge_env \<Rightarrow> bit_path \<Rightarrow> unit merge_op" where
  "mv_our_conflicted env p =
     on_wt (st_bind (unique_path_make (me_fuel env) (path_bytes p @ bytes_of ''~HEAD'')) (\<lambda>moved_path. repo_mv p moved_path))"

text \<open>The closure \<open>three_way_merge\<close> of \<open>merge_entry\<close>; the file is opened without truncating it.\<close>

definition three_way_merge :: "merge_env \<Rightarrow> index_entry option \<Rightarrow> index_entry \<Rightarrow> index_entry \<Rightarrow> unit merge_op" where
  "three_way_merge env base ours theirs =
     st_bind (case base of Some b \<Rightarrow> on_wt (read_to_bytes (me_read_obj env) b) | None \<Rightarrow> st_return []) (\<lambda>base_bytes.
     if ie_mode ours \<noteq> ie_mode theirs then st_fail Panic
     else
       st_bind (on_wt (open_existing (ie_path ours))) (\<lambda>_.
       st_bind (on_wt (read_to_bytes (me_read_obj env) ours)) (\<lambda>our_bytes.
       st_bind (on_wt (read_to_bytes (me_read_obj env) theirs)) (\<lambda>their_bytes.
       case me_merge env base_bytes our_bytes their_bytes of
         Inr merged \<Rightarrow>
           st_bind (on_wt (write_all_at_start (ie_path ours) merged)) (\<lambda>_. add_entry_from_path env (ie_path ours))
       | Inl conflicted \<Rightarrow>
           st_bind (on_wt (write_all_at_start (ie_path ours) conflicted)) (\<lambda>_.
           st_bind (case base of Some b \<Rightarrow> m_add_conflicted_entry env b BASE | None \<Rightarrow> st_return ()) (\<lambda>_.
           st_bind (m_add_conflicted_entry env ours OURS) (\<lambda>_. m_add_conflicted_entry env theirs THEIRS)))))))"

definition unwrap_base :: "index_entry option \<Rightarrow> (index_entry \<Rightarrow> unit merge_op) \<Rightarrow> unit merge_op" where
  "unwrap_base base f = (case base of Some b \<Rightarrow> f b | None \<Rightarrow> st_fail Panic)"

definition ignore_error :: "unit merge_op \<Rightarrow> unit merge_op" where
  "ignore_error m s = (Inr (), snd (m s))"

definition merge_entry :: "merge_env \<Rightarrow> index_entry option \<Rightarrow> merge_diff_entry \<Rightarrow> merge_diff_entry \<Rightarrow> unit merge_op" where
  "merge_entry env base base_to_ours base_to_theirs =
     (case (base_to_ours, base_to_theirs) of
        (MDeletedBlob ent, MDeletedBlob _) \<Rightarrow> m_remove_entry (entry_key ent)
      | (MDeletedBlob _, MModifiedBlob theirs) \<Rightarrow>
          st_bind (unwrap_base base (\<lambda>b. m_add_conflicted_entry env b BASE)) (\<lambda>_.
          st_bind (m_add_conflicted_entry env theirs THEIRS) (\<lambda>_.
          on_wt (write_to_disk (me_read_obj env) theirs)))
      | (MModifiedBlob ours, MDeletedBlob _) \<Rightarrow>
          st_bind (unwrap_base base (\<lambda>b. m_add_conflicted_entry env b BASE)) (\<lambda>_. m_add_conflicted_entry env ours OURS)
      | (MDeletedBlob ours, MUnmodifiedBlob _) \<Rightarrow> m_remove_entry (entry_key ours)
      | (MCreatedBlob ours, MCreatedBlob theirs) \<Rightarrow> three_way_merge env base ours theirs
      | (MModifiedBlob ours, MModifiedBlob theirs) \<Rightarrow> three_way_merge env base ours theirs
      | (MModifiedBlob ent, MUnmodifiedBlob _) \<Rightarrow> m_add_entry env ent
      | (MModifiedBlob ours, MBlobToTree tree) \<Rightarrow>
          st_bind (unwrap_base base (\<lambda>b. m_add_conflicted_entry env b BASE)) (\<lambda>_.
          st_bind (m_add_conflicted_entry env ours OURS) (\<lambda>_.
          st_bind (mv_our_conflicted env (ie_path ours)) (\<lambda>_. on_wt (repo_mkdir (ie_path tree)))))
      | (MBlobToTree _, MModifiedBlob theirs) \<Rightarrow>
          st_bind (unwrap_base base (\<lambda>b. m_add_conflicted_entry env b BASE)) (\<lambda>_.
          st_bind (m_add_conflicted_entry env theirs THEIRS) (\<lambda>_. write_their_conflicted env theirs))
      | (MModifiedTree _, MTreeToBlob theirs) \<Rightarrow>
          st_bind (m_add_conflicted_entry env theirs THEIRS) (\<lambda>_. write_their_conflicted env theirs)
      | (MTreeToBlob ours, MModifiedTree _) \<Rightarrow>
          st_bind (m_add_conflicted_entry env ours OURS) (\<lambda>_. mv_our_conflicted env (ie_path ours))
      | (MUnmodifiedTree tree, MDeletedTree _) \<Rightarrow>
          st_bind (m_remove_directory (ie_path tree)) (\<lambda>_. on_wt (repo_rmdir_all (ie_path tree)))
      | (MUnmodifiedBlob _, MModifiedBlob theirs) \<Rightarrow> update_blob env theirs
      | (MUnmodifiedBlob _, MBlobToTree tree) \<Rightarrow>
          st_bind (on_wt (repo_rm (ie_path tree))) (\<lambda>_. on_wt (repo_mkdir (ie_path tree)))
      | (MCreatedBlob ours, MCreatedTree _) \<Rightarrow>
          st_bind (m_add_conflicted_entry env ours OURS) (\<lambda>_. mv_our_conflicted env (ie_path ours))
      | (MCreatedTree _, MCreatedBlob theirs) \<Rightarrow>
          st_bind (m_add_conflicted_entry env theirs THEIRS) (\<lambda>_. write_their_conflicted env theirs)
      | (MDeletedTree ent, MDeletedTree _) \<Rightarrow> m_remove_directory (ie_path ent)
      | (MUnmodifiedTree ours, MTreeToBlob theirs) \<Rightarrow>
          st_bind (on_wt (repo_rmdir_all (ie_path ours))) (\<lambda>_.
          st_bind (on_wt (write_to_disk (me_read_obj env) theirs)) (\<lambda>_. m_add_entry env theirs))
      | (MUnmodifiedBlob _, MDeletedBlob theirs) \<Rightarrow>
          st_bind (ignore_error (on_wt (repo_rm (ie_path theirs)))) (\<lambda>_. m_remove_entry (entry_key theirs))
      | (MDeletedTree _, MTreeToBlob theirs) \<Rightarrow>
          st_bind (on_wt (write_to_disk (me_read_obj env) theirs)) (\<lambda>_. m_add_entry env theirs)
      | (MTreeToBlob ours, MTreeToBlob theirs) \<Rightarrow> three_way_merge env None ours theirs
      | (MModifiedTree _, MModifiedTree _) \<Rightarrow> st_return ()
      | (MCreatedTree _, MCreatedTree _) \<Rightarrow> st_return ()
      | (MBlobToTree _, MUnmodifiedBlob _) \<Rightarrow> st_return ()
      | (MBlobToTree _, MBlobToTree _) \<Rightarrow> st_return ()
      | (MModifiedTree _, MUnmodifiedTree _) \<Rightarrow> st_return ()
      | (MUnmodifiedTree _, MModifiedTree _) \<Rightarrow> st_return ()
      | (MDeletedTree _, MModifiedTree _) \<Rightarrow> st_return ()
      | (MUnmodifiedTree _, MUnmodifiedTree _) \<Rightarrow> st_return ()
      | (MBlobToTree _, MDeletedBlob _) \<Rightarrow> st_return ()
      | (MUnmodifiedBlob _, MUnmodifiedBlob _) \<Rightarrow> st_return ()
      | (MDeletedBlob _, MBlobToTree _) \<Rightarrow> st_return ()
      | (MModifiedTree _, MDeletedTree _) \<Rightarrow> st_return ()
      | (MTreeToBlob _, MUnmodifiedTree _) \<Rightarrow> st_return ()
      | (MTreeToBlob _, MDeletedTree _) \<Rightarrow> st_return ()
      | (MDeletedTree _, MUnmodifiedTree _) \<Rightarrow> st_return ()
      | _ \<Rightarrow> st_fail Panic)"

definition merge_entries :: "merge_env \<Rightarrow> index_entry option \<Rightarrow> index_entry option \<Rightarrow> index_entry option \<Rightarrow> unit merge_op" where
  "merge_entries env base ours theirs =
     (case diff_base_to_other base ours of
        Inl e \<Rightarrow> st_fail e
      | Inr base_to_ours \<Rightarrow>
          (case diff_base_to_other base theirs of
             Inl e \<Rightarrow> st_fail e
           | Inr base_to_theirs \<Rightarrow>
               (case (base_to_ours, base_to_theirs) of
                  (None, None) \<Rightarrow> st_return ()
                | (None, Some base_to_theirs) \<Rightarrow> base_to_theirs_only env base_to_theirs
                | (Some base_to_ours, None) \<Rightarrow> base_to_ours_only env base_to_ours
                | (Some base_to_ours, Some base_to_theirs) \<Rightarrow> merge_entry env base base_to_ours base_to_theirs)))"

definition merge_row :: "merge_env \<Rightarrow> row \<Rightarrow> unit merge_op" where
  "merge_row env r = (case r of [base, ours, theirs] \<Rightarrow> merge_entries env base ours theirs | _ \<Rightarrow> st_fail Panic)"

definition merge_from_iterators :: "nat \<Rightarrow> merge_env \<Rightarrow> 's boxed_iter \<Rightarrow> 's boxed_iter \<Rightarrow> 's boxed_iter \<Rightarrow> unit merge_op" where
  "merge_from_iterators fuel env base_iter a_iter b_iter = walk_for_each fuel (merge_row env) [base_iter, a_iter, b_iter]"

definition merge_trees :: "nat \<Rightarrow> merge_env \<Rightarrow> (oid \<Rightarrow> tree_entry list bit_result) \<Rightarrow> oid \<Rightarrow> oid \<Rightarrow> oid \<Rightarrow> unit merge_op" where
  "merge_trees fuel env treeish base_tree our_tree their_tree =
     merge_from_iterators fuel env (tree_iter_ops_of treeish, tree_iter_new base_tree)
       (tree_iter_ops_of treeish, tree_iter_new our_tree) (tree_iter_ops_of treeish, tree_iter_new their_tree)"

section \<open>No panics\<close>

text \<open>An operation that does not panic and keeps a property of the state.\<close>

definition calm :: "(merge_ctxt \<Rightarrow> bool) \<Rightarrow> 'a merge_op \<Rightarrow> bool" where
  "calm P m \<longleftrightarrow> (\<forall>s. P s \<longrightarrow> fst (m s) \<noteq> Inl Panic \<and> P (snd (m s)))"

definition index_good :: "merge_ctxt \<Rightarrow> bool" where
  "index_good s \<longleftrightarrow> index_ok (mc_index s) \<and> index_clean (mc_index s)"

definition wt_calm :: "(worktree, 'a) st_op \<Rightarrow> bool" where
  "wt_calm m \<longleftrightarrow> (\<forall>wt. fst (m wt) \<noteq> Inl Panic)"

lemma calm_bind: "calm P m \<Longrightarrow> (\<And>a. calm P (f a)) \<Longrightarrow> calm P (st_bind m f)"
proof -
  assume m: "calm P m" and f: "\<And>a. calm P (f a)"
  have "fst (st_bind m f s) \<noteq> Inl Panic \<and> P (snd (st_bind m f s))" if "P s" for s
  proof (cases "m s")
    case (Pair r s')
    then have "r \<noteq> Inl Panic" "P s'" using m that unfolding calm_def by (metis fst_conv, metis snd_conv)
    then show ?thesis using f Pair by (cases r) (auto simp: st_bind_def calm_def)
  qed
  then show ?thesis by (simp add: calm_def)
qed

lemma calm_return: "calm P (st_return a)"
  by (simp add: calm_def st_return_def)

lemma calm_ignore: "calm P m \<Longrightarrow> calm P (ignore_error m)"
  by (simp add: calm_def ignore_error_def)

lemma calm_on_wt: "wt_calm m \<Longrightarrow> calm index_good (on_wt m)"
  by (auto simp: calm_def wt_calm_def on_wt_def index_good_def split: prod.splits) (metis fst_conv)

lemma wt_calm_bind: "wt_calm m \<Longrightarrow> (\<And>a. wt_calm (f a)) \<Longrightarrow> wt_calm (st_bind m f)"
  unfolding wt_calm_def st_bind_def by (auto split: prod.splits sum.splits) (metis fst_conv)+

lemma wt_calm_if: "wt_calm m \<Longrightarrow> wt_calm k \<Longrightarrow> wt_calm (if b then m else k)"
  by simp

lemma wt_calm_create_dirs: "wt_calm (create_dirs ps)"
proof -
  have "fst (create_dirs ps wt) \<noteq> Inl Panic" for wt by (induction ps arbitrary: wt) (auto simp: io_error_def)
  then show ?thesis by (simp add: wt_calm_def)
qed

lemma wt_calm_basic:
  "wt_calm (repo_mkdir p)" "wt_calm (repo_rm p)" "wt_calm (repo_rmdir_all p)" "wt_calm (repo_path_exists p)" "wt_calm (repo_mv p q)"
  "wt_calm (open_existing p)" "wt_calm (open_new p)" "wt_calm (write_all_at_start p bs)" "wt_calm (read_blob_from_worktree p)" "wt_calm (st_return a)"
  by (auto simp: wt_calm_def repo_mkdir_def create_dir_def repo_rm_def remove_file_def repo_rmdir_all_def remove_dir_all_def repo_path_exists_def
      try_exists_def repo_mv_def rename_def open_existing_def open_new_def write_all_at_start_def read_blob_from_worktree_def read_file_def
      st_return_def io_error_def split: option.splits wt_node.splits)

lemma wt_calm_touch: "wt_calm (repo_touch p)"
  unfolding repo_touch_def create_dir_all_def by (intro wt_calm_bind wt_calm_create_dirs wt_calm_basic)

lemma wt_calm_unique: "wt_calm (unique_path_make n base)"
proof -
  have "wt_calm (unique_path_from n base i)" for i
  proof (induction n arbitrary: i)
    case (Suc n)
    have "unique_path_from (Suc n) base i = st_bind (repo_path_exists (BitPath (base @ rename_index_display i))) (\<lambda>exists.
       if \<not> exists then st_return (BitPath (base @ rename_index_display i)) else unique_path_from n base (rename_index_inc i))"
      by (rule ext) simp
    then show ?case by (auto intro!: wt_calm_bind wt_calm_basic Suc.IH)
  qed (simp add: wt_calm_def)
  then show ?thesis by (simp add: unique_path_make_def)
qed

definition readable :: "obj_reader \<Rightarrow> index_entry \<Rightarrow> bool" where
  "readable rd e \<longleftrightarrow> is_known (ie_oid e) \<and> rd (ie_oid e) \<noteq> Inl Panic \<and> rd (ie_oid e) \<noteq> Inr ObjOther"

lemma wt_calm_read: "readable rd e \<Longrightarrow> wt_calm (read_to_bytes rd e)"
  using wt_calm_basic(9)
  by (auto simp: readable_def read_to_bytes_def wt_calm_def st_fail_def st_return_def split: sum.splits obj_read.splits)

lemma wt_calm_write: "readable rd e \<Longrightarrow> wt_calm (write_to_disk_at rd e p)"
  unfolding write_to_disk_at_def by (intro wt_calm_bind wt_calm_read wt_calm_touch wt_calm_basic)

definition env_calm :: "merge_env \<Rightarrow> bool" where
  "env_calm env \<longleftrightarrow> (\<forall>wt p. me_lstat env wt p \<noteq> Inl Panic) \<and> (\<forall>bs. me_write_blob env bs \<noteq> Inl Panic)"

lemma write_wt_blob_calm: "env_calm env \<Longrightarrow> write_wt_blob env wt p \<noteq> Inl Panic"
  by (auto simp: env_calm_def write_wt_blob_def read_blob_from_worktree_def read_file_def io_error_def and_then_def split: option.splits wt_node.splits sum.splits)

lemma calm_on_index:
  assumes "\<And>wt idx. index_ok idx \<Longrightarrow> index_clean idx \<Longrightarrow> f wt idx \<noteq> Inl Panic \<and> (\<forall>idx'. f wt idx = Inr idx' \<longrightarrow> index_ok idx' \<and> index_clean idx')"
  shows "calm index_good (on_index f)"
  unfolding calm_def index_good_def
proof (intro allI impI)
  fix s :: merge_ctxt assume "index_ok (mc_index s) \<and> index_clean (mc_index s)"
  then show "fst (on_index f s) \<noteq> Inl Panic \<and> index_ok (mc_index (snd (on_index f s))) \<and> index_clean (mc_index (snd (on_index f s)))"
    using assms [of "mc_index s" "mc_wt s"] by (cases "f (mc_wt s) (mc_index s)") (auto simp: on_index_def)
qed

lemma add_entry_common_calm:
  assumes "index_ok idx" "index_clean idx" "clean_path (ie_path e)" "\<And>p. wr p \<noteq> Inl Panic"
  shows "add_entry_common wr e idx \<noteq> Inl Panic" "add_entry_common wr e idx = Inr idx' \<Longrightarrow> index_ok idx' \<and> index_clean idx'"
proof -
  obtain idx1 where "remove_collisions (ie_path e) idx = Inr idx1" using remove_collisions_spec [OF assms(1-3)] by blast
  then show "add_entry_common wr e idx \<noteq> Inl Panic"
    using assms(4) by (auto simp: add_entry_common_def entry_write_def and_then_def split: sum.splits if_splits)
  show "add_entry_common wr e idx = Inr idx' \<Longrightarrow> index_ok idx' \<and> index_clean idx'"
    using add_entry_common_spec [OF assms(1-3)] by blast
qed

lemma add_entry_calm:
  assumes "index_ok idx" "index_clean idx" "clean_path (ie_path e)" "\<And>p. lstat p \<noteq> Inl Panic" "\<And>p. wr p \<noteq> Inl Panic"
  shows "add_entry lstat wr e idx \<noteq> Inl Panic" "add_entry lstat wr e idx = Inr idx' \<Longrightarrow> index_ok idx' \<and> index_clean idx'"
proof -
  have "fill lstat e \<noteq> Inl Panic" using assms(4) by (auto simp: fill_def from_relative_path_def and_then_def split: sum.splits)
  moreover have "add_entry_common wr e' (remove_conflicted (ie_path e') idx) \<noteq> Inl Panic" if "fill lstat e = Inr e'" for e'
    using assms fill_path [OF that] by (intro add_entry_common_calm) (simp_all add: remove_conflicted_def index_preserved)
  ultimately show "add_entry lstat wr e idx \<noteq> Inl Panic" by (auto simp: add_entry_def and_then_def split: sum.splits)
  show "add_entry lstat wr e idx = Inr idx' \<Longrightarrow> index_ok idx' \<and> index_clean idx'" using add_entry_aux [OF assms(1-3)] by blast
qed

lemma calm_add_entry: "env_calm env \<Longrightarrow> clean_path (ie_path e) \<Longrightarrow> calm index_good (m_add_entry env e)"
proof -
  assume a: "env_calm env" "clean_path (ie_path e)"
  have "add_entry (me_lstat env wt) (write_wt_blob env wt) e idx \<noteq> Inl Panic"
    "add_entry (me_lstat env wt) (write_wt_blob env wt) e idx = Inr idx' \<Longrightarrow> index_ok idx' \<and> index_clean idx'"
    if "index_ok idx" "index_clean idx" for wt idx idx'
    using add_entry_calm [of idx e "me_lstat env wt" "write_wt_blob env wt"] that a write_wt_blob_calm [OF a(1)] by (simp_all add: env_calm_def)
  then show ?thesis unfolding m_add_entry_def by (intro calm_on_index) blast
qed

lemma calm_add_from_path: "env_calm env \<Longrightarrow> clean_path p \<Longrightarrow> calm index_good (add_entry_from_path env p)"
proof -
  assume a: "env_calm env" "clean_path p"
  have body: "(case me_lstat env wt p of Inl e \<Rightarrow> Inl e | Inr md \<Rightarrow> add_entry (me_lstat env wt) (write_wt_blob env wt) (entry_new md p) idx) \<noteq> Inl Panic
      \<and> (\<forall>idx'. (case me_lstat env wt p of Inl e \<Rightarrow> Inl e | Inr md \<Rightarrow> add_entry (me_lstat env wt) (write_wt_blob env wt) (entry_new md p) idx) = Inr idx'
          \<longrightarrow> index_ok idx' \<and> index_clean idx')" if i: "index_ok idx" "index_clean idx" for wt idx
  proof (cases "me_lstat env wt p")
    case (Inl e)
    then have "e \<noteq> Panic" using a(1) unfolding env_calm_def by metis
    then show ?thesis using Inl by simp
  next
    case (Inr md)
    have "clean_path (ie_path (entry_new md p))" using a(2) by (simp add: entry_new_def)
    moreover have "me_lstat env wt q \<noteq> Inl Panic" for q using a(1) unfolding env_calm_def by blast
    ultimately show ?thesis
      unfolding Inr using add_entry_calm [OF i, of "entry_new md p" "me_lstat env wt" "write_wt_blob env wt"] write_wt_blob_calm [OF a(1)] by simp
  qed
  have eq: "and_then (from_relative_path (me_lstat env wt) p) (\<lambda>e. add_entry (me_lstat env wt) (write_wt_blob env wt) e idx)
      = (case me_lstat env wt p of Inl e \<Rightarrow> Inl e | Inr md \<Rightarrow> add_entry (me_lstat env wt) (write_wt_blob env wt) (entry_new md p) idx)" for wt idx
    by (cases "me_lstat env wt p") (simp_all add: from_relative_path_def)
  show ?thesis unfolding add_entry_from_path_def eq by (rule calm_on_index) (rule body)
qed

lemma calm_add_conflicted:
  assumes "env_calm env" "clean_path (ie_path e)" "is_known (ie_oid e)"
  shows "calm index_good (m_add_conflicted_entry env e st)"
  unfolding m_add_conflicted_entry_def
proof (rule calm_on_index)
  fix wt idx assume "index_ok idx" "index_clean idx"
  then have i: "index_ok (remove_entry (ie_path e, NONE) idx)" "index_clean (remove_entry (ie_path e, NONE) idx)" by (simp_all add: index_preserved)
  have p: "clean_path (ie_path (entry_set_stage e st))" using assms(2) by (simp add: entry_set_stage_def)
  show "add_conflicted_entry (write_wt_blob env wt) e st idx \<noteq> Inl Panic
      \<and> (\<forall>idx'. add_conflicted_entry (write_wt_blob env wt) e st idx = Inr idx' \<longrightarrow> index_ok idx' \<and> index_clean idx')"
    using add_entry_common_calm [OF i p, of "write_wt_blob env wt"] write_wt_blob_calm [OF assms(1)] assms(3)
    by (simp add: add_conflicted_entry_def ensure_def and_then_def)
qed

lemma calm_remove: "calm index_good (m_remove_entry k)" "calm index_good (m_remove_directory p)"
  unfolding m_remove_entry_def m_remove_directory_def
  by (auto intro!: calm_on_index simp: index_preserved remove_directory_def)

lemmas calm_rules = calm_bind calm_return calm_ignore calm_on_wt calm_add_entry calm_add_from_path calm_add_conflicted calm_remove
  wt_calm_bind wt_calm_basic wt_calm_touch wt_calm_unique wt_calm_read wt_calm_write

text \<open>An entry of a row that can be merged, at the path of the row.\<close>

definition row_entry_ok :: "merge_env \<Rightarrow> bit_path \<Rightarrow> index_entry \<Rightarrow> bool" where
  "row_entry_ok env p e \<longleftrightarrow> ie_path e = p \<and> is_known (ie_oid e) \<and> ie_mode e \<noteq> GITLINK
     \<and> (ie_is_blob e \<longrightarrow> clean_path p \<and> readable (me_read_obj env) e)"

lemma tree_or_blob: "row_entry_ok env p e \<Longrightarrow> ie_mode e = TREE \<or> ie_is_blob e \<and> ie_mode e \<noteq> TREE"
  by (cases "ie_mode e") (auto simp: row_entry_ok_def ie_is_blob_def)

lemma calm_three_way:
  assumes "env_calm env" "clean_path (ie_path ours)" "readable (me_read_obj env) ours" "readable (me_read_obj env) theirs"
    and "clean_path (ie_path theirs)" "ie_mode ours = ie_mode theirs"
    and "\<forall>b. base = Some b \<longrightarrow> readable (me_read_obj env) b \<and> clean_path (ie_path b)"
  shows "calm index_good (three_way_merge env base ours theirs)"
proof -
  have known: "is_known (ie_oid x)" if "readable (me_read_obj env) x" for x using that by (simp add: readable_def)
  have b: "calm index_good (case base of Some b \<Rightarrow> on_wt (read_to_bytes (me_read_obj env) b) | None \<Rightarrow> st_return [])"
    "calm index_good (case base of Some b \<Rightarrow> m_add_conflicted_entry env b BASE | None \<Rightarrow> st_return ())"
    using assms(1,7) known by (cases base; auto intro!: calm_rules)+
  show ?thesis
    unfolding three_way_merge_def using assms(6) known [OF assms(3)] known [OF assms(4)]
    by (auto intro!: calm_bind [OF b(1)] calm_bind [OF b(2)] calm_rules assms(1-5) split: sum.splits)
qed

text \<open>What a side can do to a base that is missing, a file or a tree.\<close>

lemma diff_base_none:
  assumes "\<forall>e. x = Some e \<longrightarrow> row_entry_ok env p e"
  obtains "x = None" "diff_base_to_other None x = Inr None"
  | e where "x = Some e" "ie_is_blob e" "diff_base_to_other None x = Inr (Some (MCreatedBlob e))"
  | e where "x = Some e" "ie_mode e = TREE" "diff_base_to_other None x = Inr (Some (MCreatedTree e))"
proof (cases x)
  case (Some e)
  then have "row_entry_ok env p e" using assms by simp
  then show thesis using that Some tree_or_blob [of env p e]
    by (cases "ie_mode e") (auto simp: diff_base_to_other_def other_only_def row_entry_ok_def ie_is_blob_def)
qed (use that in \<open>simp add: diff_base_to_other_def\<close>)

lemma diff_base_blob:
  assumes "row_entry_ok env p b" "ie_is_blob b" "\<forall>e. x = Some e \<longrightarrow> row_entry_ok env p e"
  obtains "x = None" "diff_base_to_other (Some b) x = Inr (Some (MDeletedBlob b))"
  | e where "x = Some e" "ie_is_blob e" "ie_oid e = ie_oid b" "diff_base_to_other (Some b) x = Inr (Some (MUnmodifiedBlob e))"
  | e where "x = Some e" "ie_is_blob e" "ie_oid e \<noteq> ie_oid b" "diff_base_to_other (Some b) x = Inr (Some (MModifiedBlob e))"
  | e where "x = Some e" "ie_mode e = TREE" "diff_base_to_other (Some b) x = Inr (Some (MBlobToTree e))"
proof (cases x)
  case None
  then show thesis using that(1) assms(2) by (cases "ie_mode b") (auto simp: diff_base_to_other_def base_only_def ie_is_blob_def)
next
  case (Some e)
  then have e: "row_entry_ok env p e" using assms by simp
  have nb: "ie_mode b \<noteq> TREE" using assms(2) by (auto simp: ie_is_blob_def)
  have "diff_base_to_other (Some b) x = and_then (diff_matching b e) (\<lambda>d. Inr (Some d))"
    using assms(1) e Some by (simp add: diff_base_to_other_def diff_cmp_cases row_entry_ok_def)
  then show thesis using that Some tree_or_blob [OF e] e assms(1) nb
    by (cases "ie_mode e = TREE"; cases "ie_oid e = ie_oid b") (auto simp: diff_matching_def row_entry_ok_def)
qed

lemma diff_base_tree:
  assumes "row_entry_ok env p b" "ie_mode b = TREE" "\<forall>e. x = Some e \<longrightarrow> row_entry_ok env p e"
  obtains "x = None" "diff_base_to_other (Some b) x = Inr (Some (MDeletedTree b))"
  | e where "x = Some e" "ie_mode e = TREE" "ie_oid e = ie_oid b" "diff_base_to_other (Some b) x = Inr (Some (MUnmodifiedTree e))"
  | e where "x = Some e" "ie_mode e = TREE" "ie_oid e \<noteq> ie_oid b" "diff_base_to_other (Some b) x = Inr (Some (MModifiedTree e))"
  | e where "x = Some e" "ie_is_blob e" "diff_base_to_other (Some b) x = Inr (Some (MTreeToBlob e))"
proof (cases x)
  case None
  then show thesis using that(1) assms(2) by (auto simp: diff_base_to_other_def base_only_def)
next
  case (Some e)
  then have e: "row_entry_ok env p e" using assms by simp
  have "diff_base_to_other (Some b) x = and_then (diff_matching b e) (\<lambda>d. Inr (Some d))"
    using assms(1) e Some by (simp add: diff_base_to_other_def diff_cmp_cases row_entry_ok_def)
  then show thesis using that Some tree_or_blob [OF e] e assms(1,2)
    by (cases "ie_mode e = TREE"; cases "ie_oid e = ie_oid b") (auto simp: diff_matching_def row_entry_ok_def)
qed

definition blob_ok :: "merge_env \<Rightarrow> index_entry \<Rightarrow> bool" where
  "blob_ok env e \<longleftrightarrow> clean_path (ie_path e) \<and> readable (me_read_obj env) e \<and> is_known (ie_oid e)"

lemma row_blob_ok: "row_entry_ok env p e \<Longrightarrow> ie_is_blob e \<Longrightarrow> blob_ok env e"
  by (auto simp: row_entry_ok_def blob_ok_def)

lemma calm_blob:
  assumes "env_calm env" "blob_ok env e"
  shows "calm index_good (m_add_entry env e)" "calm index_good (m_add_conflicted_entry env e st)"
    "calm index_good (write_and_add_blob env e)" "calm index_good (update_blob env e)"
    "calm index_good (write_their_conflicted env e)" "calm index_good (on_wt (write_to_disk (me_read_obj env) e))"
  using assms unfolding blob_ok_def write_and_add_blob_def update_blob_def write_their_conflicted_def write_to_disk_def
  by (auto intro!: calm_rules)

lemma calm_mv: "calm index_good (mv_our_conflicted env p)"
  unfolding mv_our_conflicted_def by (intro calm_rules)

lemma calm_base: "env_calm env \<Longrightarrow> blob_ok env b \<Longrightarrow> calm index_good (unwrap_base (Some b) (\<lambda>b. m_add_conflicted_entry env b st))"
  by (simp add: unwrap_base_def calm_blob)

lemma calm_merge_blobs:
  assumes "env_calm env" "blob_ok env ours" "blob_ok env theirs" "ie_mode ours = ie_mode theirs" "\<forall>b. base = Some b \<longrightarrow> blob_ok env b"
  shows "calm index_good (three_way_merge env base ours theirs)"
  using assms by (intro calm_three_way) (auto simp: blob_ok_def)

lemma calm_push: "calm index_good (push_uncommitted q)"
  by (simp add: calm_def push_uncommitted_def index_good_def)

lemmas calm_steps = calm_bind calm_blob calm_mv calm_base calm_merge_blobs calm_push calm_return calm_ignore calm_remove calm_on_wt wt_calm_basic

text \<open>The file a side has, and whether the base is missing, a file or a tree.\<close>

fun side_blob :: "merge_diff_entry \<Rightarrow> index_entry option" where
  "side_blob (MCreatedBlob e) = Some e"
| "side_blob (MModifiedBlob e) = Some e"
| "side_blob (MUnmodifiedBlob e) = Some e"
| "side_blob (MTreeToBlob e) = Some e"
| "side_blob _ = None"

datatype base_kind = NoBase | BlobBase | TreeBase

fun base_kind_of :: "merge_diff_entry \<Rightarrow> base_kind" where
  "base_kind_of (MCreatedBlob _) = NoBase"
| "base_kind_of (MCreatedTree _) = NoBase"
| "base_kind_of (MDeletedBlob _) = BlobBase"
| "base_kind_of (MModifiedBlob _) = BlobBase"
| "base_kind_of (MUnmodifiedBlob _) = BlobBase"
| "base_kind_of (MBlobToTree _) = BlobBase"
| "base_kind_of (MDeletedTree _) = TreeBase"
| "base_kind_of (MModifiedTree _) = TreeBase"
| "base_kind_of (MUnmodifiedTree _) = TreeBase"
| "base_kind_of (MTreeToBlob _) = TreeBase"

fun same_mode :: "index_entry option \<Rightarrow> index_entry option \<Rightarrow> bool" where
  "same_mode (Some a) (Some b) \<longleftrightarrow> ie_mode a = ie_mode b"
| "same_mode _ _ \<longleftrightarrow> True"

lemma merge_entry_calm_none:
  assumes "env_calm env" "pred_option (blob_ok env) (side_blob d1)" "pred_option (blob_ok env) (side_blob d2)" "same_mode (side_blob d1) (side_blob d2)"
    and "base_kind_of d1 = NoBase" "base_kind_of d2 = NoBase"
  shows "calm index_good (merge_entry env None d1 d2)"
  by (insert assms, cases d1; cases d2; simp) (simp add: merge_entry_def, intro calm_steps; simp)+

lemma merge_entry_calm_blob:
  assumes "env_calm env" "pred_option (blob_ok env) (side_blob d1)" "pred_option (blob_ok env) (side_blob d2)" "same_mode (side_blob d1) (side_blob d2)"
    and "base_kind_of d1 = BlobBase" "base_kind_of d2 = BlobBase" "blob_ok env b"
  shows "calm index_good (merge_entry env (Some b) d1 d2)"
  by (insert assms, cases d1; cases d2; simp) (simp add: merge_entry_def, intro calm_steps; simp)+

lemma merge_entry_calm_tree:
  assumes "env_calm env" "pred_option (blob_ok env) (side_blob d1)" "pred_option (blob_ok env) (side_blob d2)" "same_mode (side_blob d1) (side_blob d2)"
    and "base_kind_of d1 = TreeBase" "base_kind_of d2 = TreeBase"
  shows "calm index_good (merge_entry env base d1 d2)"
  by (insert assms, cases d1; cases d2; simp) (simp add: merge_entry_def, intro calm_steps; simp)+

definition kind_of_base :: "index_entry option \<Rightarrow> base_kind" where
  "kind_of_base base = (case base of None \<Rightarrow> NoBase | Some b \<Rightarrow> if ie_mode b = TREE then TreeBase else BlobBase)"

lemma side_of_row:
  assumes "\<forall>e. base = Some e \<or> x = Some e \<longrightarrow> row_entry_ok env p e"
  obtains "base = None" "x = None" "diff_base_to_other base x = Inr None"
  | d where "diff_base_to_other base x = Inr (Some d)" "base_kind_of d = kind_of_base base" "pred_option (blob_ok env) (side_blob d)"
    "\<And>e. side_blob d = Some e \<Longrightarrow> x = Some e \<and> ie_is_blob e"
    "base = None \<Longrightarrow> (\<exists>e. x = Some e \<and> (d = MCreatedBlob e \<or> d = MCreatedTree e))"
proof -
  have x: "\<forall>e. x = Some e \<longrightarrow> row_entry_ok env p e" using assms by simp
  consider "base = None" | b where "base = Some b" "ie_is_blob b" "ie_mode b \<noteq> TREE" "row_entry_ok env p b"
    | b where "base = Some b" "ie_mode b = TREE" "row_entry_ok env p b"
    using tree_or_blob assms by (cases base) blast+
  then show thesis
  proof cases
    case 1
    show thesis
      by (rule diff_base_none [OF x]) (use 1 that assms row_blob_ok in \<open>auto simp: kind_of_base_def\<close>)
  next
    case (2 b)
    show thesis
      by (rule diff_base_blob [OF 2(4,2) x]) (use 2 that assms row_blob_ok in \<open>auto simp: kind_of_base_def\<close>)
  next
    case (3 b)
    show thesis
      by (rule diff_base_tree [OF 3(3,2) x]) (use 3 that assms row_blob_ok in \<open>auto simp: kind_of_base_def\<close>)
  qed
qed

lemma merge_entries_calm:
  assumes env: "env_calm env" and ok: "\<forall>e. base = Some e \<or> ours = Some e \<or> theirs = Some e \<longrightarrow> row_entry_ok env p e"
    and modes: "\<forall>a b. ours = Some a \<and> theirs = Some b \<and> ie_is_blob a \<and> ie_is_blob b \<longrightarrow> ie_mode a = ie_mode b"
  shows "calm index_good (merge_entries env base ours theirs)"
proof -
  have o: "\<forall>e. base = Some e \<or> ours = Some e \<longrightarrow> row_entry_ok env p e" and t: "\<forall>e. base = Some e \<or> theirs = Some e \<longrightarrow> row_entry_ok env p e"
    using ok by simp_all
  show ?thesis
  proof (cases rule: side_of_row [OF o])
    case 1
    show ?thesis
    proof (cases rule: side_of_row [OF t])
      case one: 1
      then show ?thesis using 1 by (simp add: merge_entries_def calm_return)
    next
      case (2 d)
      have "calm index_good (st_bind (on_wt (repo_path_exists (ie_path e))) (\<lambda>exists. if exists then push_uncommitted (ie_path e) else write_and_add_blob env e))"
        if "blob_ok env e" for e
        by (rule calm_bind) (simp_all add: calm_on_wt wt_calm_basic calm_push calm_blob env that)
      moreover have "d = MCreatedBlob e \<Longrightarrow> blob_ok env e" for e using 2(3) by simp
      ultimately have "calm index_good (base_to_theirs_only env d)"
        using 2(5) [OF 1(1)] by (auto simp: base_to_theirs_only_def calm_on_wt wt_calm_basic)
      then show ?thesis using 1 2(1) by (simp add: merge_entries_def)
    qed
  next
    case (2 d1)
    show ?thesis
    proof (cases rule: side_of_row [OF t])
      case 1
      have "d1 = MCreatedBlob e \<Longrightarrow> blob_ok env e" for e using 2(3) by simp
      then have "calm index_good (base_to_ours_only env d1)"
        using 2(5) [OF 1(1)] env by (auto simp: base_to_ours_only_def calm_return calm_blob)
      then show ?thesis using 1 2(1) by (simp add: merge_entries_def)
    next
      case d2: (2 d2)
      have m: "same_mode (side_blob d1) (side_blob d2)"
      proof (cases "side_blob d1 = None \<or> side_blob d2 = None")
        case False
        then obtain a b where ab: "side_blob d1 = Some a" "side_blob d2 = Some b" by auto
        then have "ie_mode a = ie_mode b" using 2(4) [OF ab(1)] d2(4) [OF ab(2)] modes by blast
        then show ?thesis using ab by simp
      qed auto
      have "merge_entries env base ours theirs = merge_entry env base d1 d2" using 2(1) d2(1) by (simp add: merge_entries_def)
      moreover have "calm index_good (merge_entry env base d1 d2)"
      proof (cases "kind_of_base base")
        case NoBase
        then have "base = None" by (auto simp: kind_of_base_def split: option.splits if_splits)
        then show ?thesis using merge_entry_calm_none [OF env 2(3) d2(3) m] 2(2) d2(2) NoBase by simp
      next
        case BlobBase
        then obtain b where b: "base = Some b" "ie_mode b \<noteq> TREE" by (auto simp: kind_of_base_def split: option.splits if_splits)
        then have "blob_ok env b" using ok tree_or_blob [of env p b] row_blob_ok by auto
        then show ?thesis using merge_entry_calm_blob [OF env 2(3) d2(3) m] 2(2) d2(2) BlobBase b by simp
      next
        case TreeBase
        then show ?thesis using merge_entry_calm_tree [OF env 2(3) d2(3) m] 2(2) d2(2) by simp
      qed
      ultimately show ?thesis by simp
    qed
  qed
qed

text \<open>
  C32. Merging the entries of a row does not panic: whatever of base, ours and theirs is missing, a file or a
  tree at the path, none of the unreachable cases is reached, and the order, the keys and the paths of the
  index stay right. The entries must not be submodules, two files on both sides must have the same mode,
  and neither reading objects nor asking for metadata may panic.
\<close>

theorem merge_entries_no_panic:
  assumes "env_calm env" "\<forall>e. base = Some e \<or> ours = Some e \<or> theirs = Some e \<longrightarrow> row_entry_ok env p e"
    and "\<forall>a b. ours = Some a \<and> theirs = Some b \<and> ie_is_blob a \<and> ie_is_blob b \<longrightarrow> ie_mode a = ie_mode b"
    and "index_good s" "merge_entries env base ours theirs s = (r, s')"
  shows "r \<noteq> Inl Panic \<and> index_good s'"
  using merge_entries_calm [OF assms(1-3)] assms(4,5) unfolding calm_def by (metis fst_conv snd_conv)

text \<open>A store in which every blob is its own name.\<close>

definition sample_stat :: stat where
  "sample_stat = \<lparr>md_is_symlink = False, md_is_dir = False, md_mode = 33188, st_ctime = (1, 0), st_mtime = (1, 0), st_dev = 1, st_ino = 1,
     st_uid = 0, st_gid = 0, st_size = 1\<rparr>"

definition content_env :: merge_env where
  "content_env = \<lparr>me_read_obj = (\<lambda>o'. Inr (ObjBlob o')), me_write_blob = Inr,
     me_lstat = (\<lambda>wt p. if wt_is_file wt p then Inr sample_stat else Inl UnexpectedEof),
     me_merge = (\<lambda>b x y. if x = y then Inr x else if b = x then Inr y else if b = y then Inr x else Inl (x @ y)),
     me_their_head_desc = bytes_of ''theirs'', me_fuel = 10\<rparr>"

definition one_file_ctxt :: "string \<Rightarrow> byte list \<Rightarrow> merge_ctxt" where
  "one_file_ctxt p c = \<lparr>mc_index = \<lparr>entries = entries_from_iter [file_at p c], index_tree_cache = None, reuc = None\<rparr>,
     mc_wt = [BitPath (bytes_of p) \<mapsto> WFile c], mc_uncommitted = []\<rparr>"

theorem merge_entries_no_panic_witness:
  "fst (merge_entries content_env (Some (file_at ''f'' [1])) (Some (file_at ''f'' [2])) (Some (file_at ''f'' [3])) (one_file_ctxt ''f'' [2])) \<noteq> Inl Panic"
proof -
  have "env_calm content_env" by (simp add: env_calm_def content_env_def)
  moreover have "row_entry_ok content_env (BitPath (bytes_of ''f'')) (file_at ''f'' [x])" for x
  proof -
    have "clean_path (BitPath (bytes_of ''f''))" by code_simp
    moreover have "[x] \<noteq> replicate 20 b_nul" by (auto dest: arg_cong [where f = length])
    ultimately show ?thesis by (simp add: row_entry_ok_def file_at_def entry_from_tree_entry_def ie_is_blob_def readable_def content_env_def is_known_def UNKNOWN_def)
  qed
  moreover have "ie_mode (file_at ''f'' [2]) = ie_mode (file_at ''f'' [3])" by (simp add: file_at_def entry_from_tree_entry_def)
  moreover have "index_good (one_file_ctxt ''f'' [2])" by code_simp
  ultimately show ?thesis
    using merge_entries_no_panic [of content_env "Some (file_at ''f'' [1])" "Some (file_at ''f'' [2])" "Some (file_at ''f'' [3])" "BitPath (bytes_of ''f'')" "one_file_ctxt ''f'' [2]"]
    by (cases "merge_entries content_env (Some (file_at ''f'' [1])) (Some (file_at ''f'' [2])) (Some (file_at ''f'' [3])) (one_file_ctxt ''f'' [2])") auto
qed

section \<open>What goes wrong\<close>

text \<open>
  Both sides change a file in different modes: the merge panics.
\<close>

lemma mode_conflict_panics:
  "fst (merge_entries content_env (Some (file_at ''f'' [1])) (Some (file_at ''f'' [2])) (Some ((file_at ''f'' [3])\<lparr>ie_mode := EXEC\<rparr>)) (one_file_ctxt ''f'' [2]))
   = Inl Panic"
  by code_simp

text \<open>
  The merged file is written over the old one without truncating it: when ours drops the tail and the file
  on disk is longer than the merge, the rest of the old file stays, and the index records that content.
  Here the base is \<open>[1, 2, 3]\<close>, ours has the file \<open>[1, 2, 3, 4]\<close>, and the merge of both changes is \<open>[9]\<close>.
\<close>

lemma merged_file_keeps_old_tail:
  defines "env \<equiv> content_env\<lparr>me_merge := \<lambda>_ _ _. Inr [9]\<rparr>"
  defines "r \<equiv> merge_entries env (Some (file_at ''f'' [1, 2, 3])) (Some (file_at ''f'' [1, 2, 3, 4])) (Some (file_at ''f'' [7])) (one_file_ctxt ''f'' [1, 2, 3, 4])"
  shows "fst r = Inr ()" "mc_wt (snd r) (BitPath (bytes_of ''f'')) = Some (WFile [9, 2, 3, 4])"
    and "map_option ie_oid (find_entry (mc_index (snd r)) (BitPath (bytes_of ''f''), NONE)) = Some [9, 2, 3, 4]"
  unfolding r_def env_def by code_simp+

text \<open>
  A file that only theirs has is written with the default permissions, and the index takes its mode from the
  disk: an executable file arrives as a plain one.
\<close>

lemma executable_bit_lost:
  defines "r \<equiv> merge_entries content_env None None (Some ((file_at ''x'' [5])\<lparr>ie_mode := EXEC\<rparr>)) (one_file_ctxt ''f'' [2])"
  shows "fst r = Inr ()" "map_option ie_mode (find_entry (mc_index (snd r)) (BitPath (bytes_of ''x''), NONE)) = Some REG"
  unfolding r_def by code_simp+

text \<open>
  Ours removes a directory in which theirs creates a subdirectory: the row of the directory creates nothing, and
  then the subdirectory has no parent. The merge fails with an input/output error.
\<close>

definition lost_parent_trees :: "(oid \<times> (file_mode \<times> string \<times> oid) list) list" where
  "lost_parent_trees =
     [([1], [(TREE, ''d'', [4]), (REG, ''f'', [2])]), ([2], [(REG, ''f'', [2])]), ([3], [(TREE, ''d'', [5]), (REG, ''f'', [2])]),
      ([4], [(REG, ''x'', [9])]), ([5], [(TREE, ''s'', [6]), (REG, ''x'', [9])]), ([6], [(REG, ''y'', [8])])]"

lemma subdirectory_of_removed_directory_fails:
  "fst (merge_trees 100 content_env (tree_store lost_parent_trees) [1] [2] [3] (one_file_ctxt ''f'' [2])) = Inl (io_error ''no such directory'')"
  by code_simp

end
