(* ===== verification/Bit_Merge_Spec.thy ===== *)
theory Bit_Merge_Spec
  imports Bit_Merge
begin

text \<open>
  What a merge does: index and work tree are seen as maps, every operation is a step between such views, and
  the merge of three trees without directory/file conflicts turns out to be the three-way merge of every
  single path.
\<close>

section \<open>Views\<close>

type_synonym view = "bit_path \<Rightarrow> merge_stage \<Rightarrow> oid option"

definition oid_at :: "index_inner \<Rightarrow> view" where
  "oid_at idx q st = map_option ie_oid (find_entry idx (q, st))"

definition sees :: "merge_ctxt \<Rightarrow> view \<times> worktree \<Rightarrow> bool" where
  "sees s = (\<lambda>(V, wt). index_good s \<and> oid_at (mc_index s) = V \<and> mc_wt s = wt)"

definition does :: "unit merge_op \<Rightarrow> view \<times> worktree \<Rightarrow> view \<times> worktree \<Rightarrow> bool" where
  "does m a b \<longleftrightarrow> (\<forall>s. sees s a \<longrightarrow> (\<exists>s'. m s = (Inr (), s') \<and> sees s' b \<and> mc_uncommitted s' = mc_uncommitted s))"

definition yields :: "'a merge_op \<Rightarrow> 'a \<Rightarrow> view \<times> worktree \<Rightarrow> bool" where
  "yields m x a \<longleftrightarrow> (\<forall>s. sees s a \<longrightarrow> m s = (Inr x, s))"

lemma does_bind: "does m a b \<Longrightarrow> does (f ()) b c \<Longrightarrow> does (st_bind m f) a c"
  unfolding does_def st_bind_def by fastforce

lemma yields_bind: "yields m x a \<Longrightarrow> does (f x) a b \<Longrightarrow> does (st_bind m f) a b"
  unfolding does_def yields_def st_bind_def by simp

lemma does_return: "does (st_return ()) a a"
  by (simp add: does_def st_return_def)

lemma yields_return: "yields (st_return x) x a"
  by (simp add: yields_def st_return_def)

lemma does_wt: "m wt = (Inr (), wt') \<Longrightarrow> does (on_wt m) (V, wt) (V, wt')"
  by (auto simp: does_def on_wt_def sees_def index_good_def)

lemma yields_wt: "m wt = (Inr x, wt) \<Longrightarrow> yields (on_wt m) x (V, wt)"
  by (auto simp: yields_def on_wt_def sees_def)

lemma does_index:
  assumes "\<And>idx. index_ok idx \<Longrightarrow> index_clean idx \<Longrightarrow> oid_at idx = V
    \<Longrightarrow> \<exists>idx'. f wt idx = Inr idx' \<and> index_ok idx' \<and> index_clean idx' \<and> oid_at idx' = V'"
  shows "does (on_index f) (V, wt) (V', wt)"
  unfolding does_def
proof (intro allI impI)
  fix s assume "sees s (V, wt)"
  then have s: "index_ok (mc_index s)" "index_clean (mc_index s)" "oid_at (mc_index s) = V" "mc_wt s = wt" by (auto simp: sees_def index_good_def)
  obtain idx' where "f wt (mc_index s) = Inr idx'" "index_ok idx'" "index_clean idx'" "oid_at idx' = V'" using assms [OF s(1-3)] by blast
  then show "\<exists>s'. on_index f s = (Inr (), s') \<and> sees s' (V', wt) \<and> mc_uncommitted s' = mc_uncommitted s"
    using s(4) by (auto simp: on_index_def sees_def index_good_def)
qed

section \<open>The index\<close>

text \<open>The stages of a path that is merged, and a path without collisions.\<close>

definition merged_stage :: "oid option \<Rightarrow> merge_stage \<Rightarrow> oid option" where
  "merged_stage x st = (if st = NONE then x else None)"

definition free_path :: "view \<Rightarrow> bit_path \<Rightarrow> bool" where
  "free_path V p \<longleftrightarrow> (\<forall>q st. V q st \<noteq> None \<longrightarrow> \<not> inside q p \<and> \<not> inside p q)"

lemma oid_at_unclean: "index_ok idx \<Longrightarrow> index_clean idx \<Longrightarrow> \<not> clean_path q \<Longrightarrow> find_entry idx (q, st) = None"
  by (auto simp: index_clean_def find_entry_def index_ok_def bt_get_None)

lemma oid_atI:
  assumes "index_ok idx" "index_clean idx" "\<And>q st. \<not> clean_path q \<Longrightarrow> V q st = None"
    and "\<And>q st. clean_path q \<Longrightarrow> map_option ie_oid (find_entry idx (q, st)) = V q st"
  shows "oid_at idx = V"
proof (intro ext)
  fix q st show "oid_at idx q st = V q st"
    using assms(3,4) oid_at_unclean [OF assms(1,2)] by (cases "clean_path q") (simp_all add: oid_at_def)
qed

lemma free_dropped:
  assumes "free_path (oid_at idx) p" "dropped p hits (q, st)" "clean_path q" "clean_path p"
  shows "q = p \<and> st = NONE \<or> find_entry idx (q, st) = None"
proof (cases "q = p")
  case False
  then have "inside p q \<or> inside q p" using assms(2) by (auto simp: dropped_def inside_def)
  then show ?thesis using assms(1) by (auto simp: free_path_def oid_at_def)
qed (use assms(2) in \<open>simp add: dropped_def\<close>)

lemma remove_collisions_returns: "index_ok idx \<Longrightarrow> index_clean idx \<Longrightarrow> clean_path p \<Longrightarrow> \<exists>idx'. remove_collisions p idx = Inr idx'"
  by (erule (2) remove_collisions_spec) blast

lemma add_entry_view:
  assumes idx: "index_ok idx" "index_clean idx" and p: "clean_path (ie_path e)" "free_path (oid_at idx) (ie_path e)"
    and e': "fill lstat e = Inr e'" "entry_stage e' = NONE" "entry_write wr e' = Inr o'"
  shows "\<exists>idx'. add_entry lstat wr e idx = Inr idx' \<and> index_ok idx' \<and> index_clean idx' \<and> oid_at idx' = (oid_at idx)(ie_path e := merged_stage (Some o'))"
proof -
  have pe: "ie_path e' = ie_path e" using fill_path [OF e'(1)] .
  have "index_ok (remove_conflicted (ie_path e') idx)" "index_clean (remove_conflicted (ie_path e') idx)"
    using idx by (simp_all add: remove_conflicted_def index_preserved)
  then obtain idx1 where "remove_collisions (ie_path e') (remove_conflicted (ie_path e') idx) = Inr idx1"
    using remove_collisions_returns p(1) pe by metis
  then obtain idx' where a: "add_entry lstat wr e idx = Inr idx'" using e' by (simp add: add_entry_def add_entry_common_def)
  obtain hits where i: "index_ok idx'" "index_clean idx'"
    and f: "\<And>q s. clean_path q \<Longrightarrow> find_entry idx' (q, s) = (if (q, s) = entry_key e' then Some (e'\<lparr>ie_oid := o'\<rparr>)
                 else if dropped (ie_path e) hits (q, s) \<or> (q = ie_path e \<and> s \<noteq> NONE) then None else find_entry idx (q, s))"
    using add_entry_aux [OF idx p(1) a] e' by auto
  have "oid_at idx' = (oid_at idx)(ie_path e := merged_stage (Some o'))"
  proof (rule oid_atI [OF i])
    fix q st assume "\<not> clean_path q"
    then show "((oid_at idx)(ie_path e := merged_stage (Some o'))) q st = None"
      using p(1) oid_at_unclean [OF idx] by (auto simp: oid_at_def)
  next
    fix q st assume q: "clean_path q"
    show "map_option ie_oid (find_entry idx' (q, st)) = ((oid_at idx)(ie_path e := merged_stage (Some o'))) q st"
      using f [OF q] free_dropped [OF p(2) _ q p(1)] pe e'(2)
      by (cases "q = ie_path e") (auto simp: entry_key_def merged_stage_def oid_at_def)
  qed
  then show ?thesis using a i by blast
qed

lemma add_conflicted_view:
  assumes idx: "index_ok idx" "index_clean idx" and p: "clean_path (ie_path e)" "free_path (oid_at idx) (ie_path e)"
    and e: "is_known (ie_oid e)" "st \<noteq> NONE"
  shows "\<exists>idx'. add_conflicted_entry wr e st idx = Inr idx' \<and> index_ok idx' \<and> index_clean idx'
    \<and> oid_at idx' = (oid_at idx)(ie_path e := (oid_at idx (ie_path e))(NONE := None, st := Some (ie_oid e)))"
proof -
  let ?e = "entry_set_stage e st" and ?idx = "remove_entry (ie_path e, NONE) idx"
  have ok: "index_ok ?idx" "index_clean ?idx" using idx by (simp_all add: index_preserved)
  have pe: "ie_path ?e = ie_path e" "ie_oid ?e = ie_oid e" by (simp_all add: entry_set_stage_def)
  have key: "entry_key ?e = (ie_path e, st)" by (simp add: entry_key_def entry_stage_def entry_set_stage_def)
  obtain idx1 where "remove_collisions (ie_path ?e) ?idx = Inr idx1" using remove_collisions_returns [OF ok] p(1) pe by metis
  then obtain idx' where c: "add_entry_common wr ?e ?idx = Inr idx'" using e(1) pe by (simp add: add_entry_common_def entry_write_def)
  then have a: "add_conflicted_entry wr e st idx = Inr idx'" using e(1) by (simp add: add_conflicted_entry_def ensure_def)
  have w: "entry_write wr ?e = Inr (ie_oid e)" using e(1) pe by (simp add: entry_write_def)
  obtain hits where i: "index_ok idx'" "index_clean idx'"
    and f: "\<And>q s. clean_path q \<Longrightarrow> find_entry idx' (q, s) = (if (q, s) = (ie_path e, st) then Some (?e\<lparr>ie_oid := ie_oid e\<rparr>)
                 else if dropped (ie_path e) hits (q, s) then None else find_entry ?idx (q, s))"
    using add_entry_common_spec [OF ok _ c] p(1) pe w key by (metis Inr_inject)
  have "oid_at idx' = (oid_at idx)(ie_path e := (oid_at idx (ie_path e))(NONE := None, st := Some (ie_oid e)))"
  proof (rule oid_atI [OF i])
    fix q s' assume "\<not> clean_path q"
    then show "((oid_at idx)(ie_path e := (oid_at idx (ie_path e))(NONE := None, st := Some (ie_oid e)))) q s' = None"
      using p(1) oid_at_unclean [OF idx] by (auto simp: oid_at_def)
  next
    fix q s' assume q: "clean_path q"
    show "map_option ie_oid (find_entry idx' (q, s')) = ((oid_at idx)(ie_path e := (oid_at idx (ie_path e))(NONE := None, st := Some (ie_oid e)))) q s'"
      using f [OF q] free_dropped [OF p(2) _ q p(1)] find_remove [OF idx(1), of "(ie_path e, NONE)"] e(2)
      by (cases "q = ie_path e"; cases "s' = NONE") (auto simp: oid_at_def)
  qed
  then show ?thesis using a i by blast
qed

lemma remove_entry_view:
  assumes "index_ok idx" "index_clean idx"
  shows "index_ok (remove_entry (p, NONE) idx)" "index_clean (remove_entry (p, NONE) idx)"
    "oid_at (remove_entry (p, NONE) idx) = (oid_at idx)(p := (oid_at idx p)(NONE := None))"
  using assms by (auto simp: index_preserved oid_at_def find_remove fun_eq_iff)

lemma remove_directory_view:
  assumes "index_ok idx" "index_clean idx" "clean_path p"
  shows "index_ok (remove_directory p idx)" "index_clean (remove_directory p idx)"
    "oid_at (remove_directory p idx) = (\<lambda>q st. if st = NONE \<and> inside q p then None else oid_at idx q st)"
  using assms remove_directory_find [OF assms] by (auto simp: index_preserved oid_at_def remove_directory_def fun_eq_iff)

section \<open>Steps\<close>

text \<open>
  What is relied on: a file has metadata, a blob can be written, writing a blob that was read gives its
  name back, and the merge of a change with itself is that change.
\<close>

definition merge_laws :: "merge_env \<Rightarrow> bool" where
  "merge_laws env \<longleftrightarrow> (\<forall>wt p. wt_is_file wt p \<longrightarrow> (\<exists>md. me_lstat env wt p = Inr md))
     \<and> (\<forall>bs. \<exists>o'. me_write_blob env bs = Inr o')
     \<and> (\<forall>o' bs. me_read_obj env o' = Inr (ObjBlob bs) \<longrightarrow> me_write_blob env bs = Inr o')
     \<and> (\<forall>b x. me_merge env b x x = Inr x)"

definition obj_bytes :: "merge_env \<Rightarrow> index_entry \<Rightarrow> byte list" where
  "obj_bytes env e = (case me_read_obj env (ie_oid e) of Inr (ObjBlob bs) \<Rightarrow> bs | _ \<Rightarrow> [])"

definition blob_oid :: "merge_env \<Rightarrow> byte list \<Rightarrow> oid" where
  "blob_oid env bs = projr (me_write_blob env bs)"

text \<open>A file of a tree, at a path: its blob is in the object database.\<close>

definition file_ok :: "merge_env \<Rightarrow> bit_path \<Rightarrow> index_entry \<Rightarrow> bool" where
  "file_ok env p e \<longleftrightarrow> ie_path e = p \<and> ie_is_blob e \<and> is_known (ie_oid e) \<and> entry_stage e = NONE \<and> clean_path p
     \<and> (\<exists>bs. me_read_obj env (ie_oid e) = Inr (ObjBlob bs))"

lemma file_ok_read: "file_ok env p e \<Longrightarrow> me_read_obj env (ie_oid e) = Inr (ObjBlob (obj_bytes env e))"
  by (auto simp: file_ok_def obj_bytes_def)

lemma file_ok_bytes: "file_ok env p e \<Longrightarrow> yields (on_wt (read_to_bytes (me_read_obj env) e)) (obj_bytes env e) (V, wt)"
  using file_ok_read [of env p e] by (intro yields_wt) (simp add: read_to_bytes_def file_ok_def st_return_def)

lemma fill_oid: "fill lstat e = Inr e' \<Longrightarrow> ie_oid e' = ie_oid e"
  by (auto simp: fill_def from_relative_path_def and_then_eq_Inr split: if_splits)

lemma fill_returns: "lstat (ie_path e) = Inr md \<Longrightarrow> \<exists>e'. fill lstat e = Inr e'"
  by (simp add: fill_def from_relative_path_def)

lemma step_add_entry:
  assumes "merge_laws env" "file_ok env p e" "free_path V p" "wt_is_file wt p"
  shows "does (m_add_entry env e) (V, wt) (V(p := merged_stage (Some (ie_oid e))), wt)"
  unfolding m_add_entry_def
proof (rule does_index)
  fix idx assume idx: "index_ok idx" "index_clean idx" "oid_at idx = V"
  obtain md where md: "me_lstat env wt p = Inr md" using assms(1,4) unfolding merge_laws_def by blast
  obtain e' where e': "fill (me_lstat env wt) e = Inr e'" using fill_returns md assms(2) unfolding file_ok_def by metis
  have "entry_write (write_wt_blob env wt) e' = Inr (ie_oid e)" using fill_oid [OF e'] assms(2) by (simp add: entry_write_def file_ok_def)
  from add_entry_view [OF idx(1,2) _ _ e' _ this]
  show "\<exists>idx'. add_entry (me_lstat env wt) (write_wt_blob env wt) e idx = Inr idx' \<and> index_ok idx' \<and> index_clean idx'
      \<and> oid_at idx' = V(p := merged_stage (Some (ie_oid e)))"
    using assms(2,3) entry_stage_fill [OF e'] idx(3) by (simp add: file_ok_def)
qed

lemma step_add_conflicted:
  assumes "file_ok env p e" "free_path V p" "st \<noteq> NONE"
  shows "does (m_add_conflicted_entry env e st) (V, wt) (V(p := (V p)(NONE := None, st := Some (ie_oid e))), wt)"
  unfolding m_add_conflicted_entry_def
  by (rule does_index) (use add_conflicted_view assms in \<open>auto simp: file_ok_def\<close>)

lemma step_add_from_path:
  assumes "merge_laws env" "clean_path p" "free_path V p" "wt p = Some (WFile bs)"
  shows "does (add_entry_from_path env p) (V, wt) (V(p := merged_stage (Some (blob_oid env bs))), wt)"
  unfolding add_entry_from_path_def
proof (rule does_index)
  fix idx assume idx: "index_ok idx" "index_clean idx" "oid_at idx = V"
  have "wt_is_file wt p" using assms(4) by (simp add: wt_is_file_def)
  then obtain md where md: "me_lstat env wt p = Inr md" using assms(1) unfolding merge_laws_def by blast
  let ?e = "entry_new md p"
  have e: "ie_path ?e = p" "ie_oid ?e = UNKNOWN" "entry_stage ?e = NONE"
    by (simp_all add: entry_new_def entry_stage_def with_path_len_fields)
  obtain e' where e': "fill (me_lstat env wt) ?e = Inr e'" using fill_returns md e(1) by metis
  obtain o' where o': "me_write_blob env bs = Inr o'" using assms(1) unfolding merge_laws_def by blast
  have "entry_write (write_wt_blob env wt) e' = Inr (blob_oid env bs)"
    using fill_oid [OF e'] fill_path [OF e'] e o' assms(4)
    by (simp add: entry_write_def is_known_def write_wt_blob_def read_blob_from_worktree_def read_file_def blob_oid_def)
  from add_entry_view [OF idx(1,2) _ _ e' _ this]
  show "\<exists>idx'. and_then (from_relative_path (me_lstat env wt) p) (\<lambda>e. add_entry (me_lstat env wt) (write_wt_blob env wt) e idx) = Inr idx'
      \<and> index_ok idx' \<and> index_clean idx' \<and> oid_at idx' = V(p := merged_stage (Some (blob_oid env bs)))"
    using assms(2,3) entry_stage_fill [OF e'] idx(3) e md by (simp add: from_relative_path_def)
qed

lemma step_remove: "does (m_remove_entry (p, NONE)) (V, wt) (V(p := (V p)(NONE := None)), wt)"
  unfolding m_remove_entry_def by (rule does_index) (use remove_entry_view in blast)

lemma step_remove_directory:
  "clean_path p \<Longrightarrow> does (m_remove_directory p) (V, wt) (\<lambda>q st. if st = NONE \<and> inside q p then None else V q st, wt)"
  unfolding m_remove_directory_def by (rule does_index) (use remove_directory_view in blast)

lemma step_write:
  assumes "file_ok env p e" "no_file_above wt p" "wt p = None"
  shows "does (on_wt (write_to_disk (me_read_obj env) e)) (V, wt) (V, (with_dirs p wt)(p \<mapsto> WFile (obj_bytes env e)))"
  using write_to_disk_free [of p wt e "me_read_obj env" "obj_bytes env e"] file_ok_read [OF assms(1)] assms
  by (intro does_wt) (simp add: write_to_disk_def file_ok_def)

lemma step_write_add:
  assumes "merge_laws env" "file_ok env p e" "free_path V p" "no_file_above wt p" "wt p = None"
  shows "does (write_and_add_blob env e) (V, wt)
    (V(p := merged_stage (Some (ie_oid e))), (with_dirs p wt)(p \<mapsto> WFile (obj_bytes env e)))"
  unfolding write_and_add_blob_def
  by (rule does_bind [OF step_write [OF assms(2,4,5)]]) (use assms in \<open>auto intro!: step_add_entry simp: wt_is_file_def\<close>)

lemma step_update:
  assumes "merge_laws env" "file_ok env p e" "free_path V p" "no_file_above wt p" "wt_is_file wt p"
  shows "does (update_blob env e) (V, wt)
    (V(p := merged_stage (Some (ie_oid e))), (with_dirs p wt)(p \<mapsto> WFile (obj_bytes env e)))"
proof -
  have "does (on_wt (repo_rm (ie_path e))) (V, wt) (V, wt(p := None))"
    using assms(2,5) by (intro does_wt) (simp add: repo_rm_def remove_file_def file_ok_def)
  moreover have "no_file_above (wt(p := None)) p" using assms(4) by (auto simp: no_file_above_def wt_is_file_def)
  moreover have "with_dirs p (wt(p := None)) = (with_dirs p wt)(p := None)" by (auto simp: with_dirs_def inside_def fun_eq_iff)
  ultimately show ?thesis
    unfolding update_blob_def using step_write_add [OF assms(1-3), of "wt(p := None)"] by (auto intro: does_bind)
qed

section \<open>The three-way merge of a file\<close>

definition conflict_stages :: "index_entry option \<Rightarrow> index_entry option \<Rightarrow> index_entry option \<Rightarrow> merge_stage \<Rightarrow> oid option" where
  "conflict_stages base ours theirs st =
     map_option ie_oid (case st of NONE \<Rightarrow> None | BASE \<Rightarrow> base | OURS \<Rightarrow> ours | THEIRS \<Rightarrow> theirs)"

definition over_ours :: "byte list \<Rightarrow> byte list \<Rightarrow> byte list" where
  "over_ours new old = new @ drop (length new) old"

text \<open>
  The specification: the stages a path has after the merge. The side that did not change the file gives
  way to the other; otherwise a deletion conflicts with a change, and two changes are merged. The merged
  content ends with what of our file is longer than it.
\<close>

definition merge3 :: "merge_env \<Rightarrow> index_entry option \<Rightarrow> index_entry option \<Rightarrow> index_entry option \<Rightarrow> merge_stage \<Rightarrow> oid option" where
  "merge3 env base ours theirs =
     (let oid = map_option ie_oid in
      if oid theirs = oid base then merged_stage (oid ours)
      else if oid ours = oid base then merged_stage (oid theirs)
      else case (ours, theirs) of
          (Some x, Some y) \<Rightarrow>
            (case me_merge env (case base of None \<Rightarrow> [] | Some b \<Rightarrow> obj_bytes env b) (obj_bytes env x) (obj_bytes env y) of
               Inr merged \<Rightarrow> merged_stage (Some (blob_oid env (over_ours merged (obj_bytes env x))))
             | Inl _ \<Rightarrow> conflict_stages base ours theirs)
        | (None, None) \<Rightarrow> merged_stage None
        | _ \<Rightarrow> conflict_stages base ours theirs)"

text \<open>What the file holds on disk: where both sides changed it, what the content merge wrote, conflict markers included.\<close>

definition changed_file :: "merge_env \<Rightarrow> index_entry option \<Rightarrow> index_entry \<Rightarrow> index_entry \<Rightarrow> byte list" where
  "changed_file env base x y =
     over_ours (case me_merge env (case base of None \<Rightarrow> [] | Some b \<Rightarrow> obj_bytes env b) (obj_bytes env x) (obj_bytes env y) of
         Inr merged \<Rightarrow> merged | Inl conflicted \<Rightarrow> conflicted) (obj_bytes env x)"

definition merge3_file :: "merge_env \<Rightarrow> index_entry option \<Rightarrow> index_entry option \<Rightarrow> index_entry option \<Rightarrow> byte list option" where
  "merge3_file env base ours theirs =
     (let oid = map_option ie_oid in
      if oid theirs = oid base then map_option (obj_bytes env) ours
      else if oid ours = oid base then map_option (obj_bytes env) theirs
      else case (ours, theirs) of
          (Some x, Some y) \<Rightarrow> Some (changed_file env base x y)
        | (Some x, None) \<Rightarrow> Some (obj_bytes env x)
        | (None, Some y) \<Rightarrow> Some (obj_bytes env y)
        | (None, None) \<Rightarrow> None)"

definition synced :: "merge_env \<Rightarrow> view \<times> worktree \<Rightarrow> bit_path \<Rightarrow> index_entry option \<Rightarrow> bool" where
  "synced env = (\<lambda>(V, wt) p ours. V p = merged_stage (map_option ie_oid ours) \<and> wt p = map_option (\<lambda>e. WFile (obj_bytes env e)) ours)"

definition wt_frame :: "bit_path \<Rightarrow> worktree \<Rightarrow> worktree \<Rightarrow> bool" where
  "wt_frame p wt wt' \<longleftrightarrow> (\<forall>q. q \<noteq> p \<longrightarrow> wt' q = wt q \<or> clean_path q \<and> inside p q \<and> wt' q = Some WDir)"

lemma wt_frame_simps: "wt_frame p wt wt" "wt_frame p wt (wt(p := x))" "wt_frame p wt ((with_dirs p wt)(p := x))"
  by (auto simp: wt_frame_def with_dirs_def)

lemma free_path_upd: "free_path V p \<Longrightarrow> free_path (V(p := f)) p"
  by (auto simp: free_path_def inside_def)

lemma stages_upd:
  "(merged_stage x)(NONE := None) = merged_stage None"
  "(merged_stage x)(NONE := None, BASE := Some (ie_oid b), NONE := None, OURS := Some (ie_oid a)) = conflict_stages (Some b) (Some a) None"
  "(merged_stage x)(NONE := None, BASE := Some (ie_oid b), NONE := None, THEIRS := Some (ie_oid c)) = conflict_stages (Some b) None (Some c)"
  "(merged_stage x)(NONE := None, OURS := Some (ie_oid a), NONE := None, THEIRS := Some (ie_oid c)) = conflict_stages None (Some a) (Some c)"
  "(merged_stage x)(NONE := None, BASE := Some (ie_oid b), NONE := None, OURS := Some (ie_oid a), NONE := None, THEIRS := Some (ie_oid c))
    = conflict_stages (Some b) (Some a) (Some c)"
  by (auto simp: fun_eq_iff merged_stage_def conflict_stages_def split: merge_stage.splits)

lemma step_conflict:
  assumes "file_ok env p e" "free_path V p" "st \<noteq> NONE" "V p = f"
  shows "does (m_add_conflicted_entry env e st) (V, wt) (V(p := f(NONE := None, st := Some (ie_oid e))), wt)"
  using step_add_conflicted [OF assms(1-3)] unfolding assms(4) .

lemma step_conflict2:
  assumes "file_ok env p d" "file_ok env p e" "free_path V p" "st \<noteq> NONE" "st' \<noteq> NONE" "V p = f"
  shows "does (st_bind (m_add_conflicted_entry env d st) (\<lambda>_. m_add_conflicted_entry env e st')) (V, wt)
    (V(p := f(NONE := None, st := Some (ie_oid d), NONE := None, st' := Some (ie_oid e))), wt)"
  using step_conflict [OF assms(2) free_path_upd [OF assms(3)] assms(5) fun_upd_same]
  by (intro does_bind [OF step_conflict [OF assms(1,3,4,6)]]) (simp only: fun_upd_upd)

lemma step_conflict3:
  assumes "file_ok env p c" "file_ok env p d" "file_ok env p e" "free_path V p" "st \<noteq> NONE" "st' \<noteq> NONE" "st'' \<noteq> NONE" "V p = f"
  shows "does (st_bind (m_add_conflicted_entry env c st) (\<lambda>_. st_bind (m_add_conflicted_entry env d st') (\<lambda>_. m_add_conflicted_entry env e st''))) (V, wt)
    (V(p := f(NONE := None, st := Some (ie_oid c), NONE := None, st' := Some (ie_oid d), NONE := None, st'' := Some (ie_oid e))), wt)"
  using step_conflict2 [OF assms(2,3) free_path_upd [OF assms(4)] assms(6,7) fun_upd_same]
  by (intro does_bind [OF step_conflict [OF assms(1,4,5,8)]]) (simp only: fun_upd_upd)

definition changed_merge :: "merge_env \<Rightarrow> index_entry option \<Rightarrow> index_entry \<Rightarrow> index_entry \<Rightarrow> merge_stage \<Rightarrow> oid option" where
  "changed_merge env base x y =
     (case me_merge env (case base of None \<Rightarrow> [] | Some b \<Rightarrow> obj_bytes env b) (obj_bytes env x) (obj_bytes env y) of
        Inr merged \<Rightarrow> merged_stage (Some (blob_oid env (over_ours merged (obj_bytes env x))))
      | Inl _ \<Rightarrow> conflict_stages base (Some x) (Some y))"

lemma step_three_way:
  assumes env: "merge_laws env" and base: "\<forall>b. base = Some b \<longrightarrow> file_ok env p b" and ok: "file_ok env p x" "file_ok env p y"
    and V: "free_path V p" "synced env (V, wt) p (Some x)" and mode: "ie_mode x = ie_mode y"
  shows "\<exists>wt'. does (three_way_merge env base x y) (V, wt) (V(p := changed_merge env base x y), wt') \<and> wt_frame p wt wt'
      \<and> wt' p = Some (WFile (changed_file env base x y))"
proof -
  have p: "ie_path x = p" "ie_path y = p" "clean_path p" using ok by (simp_all add: file_ok_def)
  have Vp: "V p = merged_stage (Some (ie_oid x))" and wtp: "wt p = Some (WFile (obj_bytes env x))" using V(2) by (simp_all add: synced_def)
  let ?bb = "case base of None \<Rightarrow> [] | Some b \<Rightarrow> obj_bytes env b"
  have rb: "yields (case base of Some b \<Rightarrow> on_wt (read_to_bytes (me_read_obj env) b) | None \<Rightarrow> st_return []) ?bb (V, wt)"
    using base file_ok_bytes by (cases base) (auto simp: yields_return)
  have op: "does (on_wt (open_existing p)) (V, wt) (V, wt)" using wtp by (intro does_wt) (simp add: open_existing_def wt_is_file_def)
  have wr: "does (on_wt (write_all_at_start p bs)) (V, wt) (V, wt(p \<mapsto> WFile (over_ours bs (obj_bytes env x))))" for bs
    using wtp by (intro does_wt) (simp add: write_all_at_start_def over_ours_def)
  let ?conf = "st_bind (case base of Some b \<Rightarrow> m_add_conflicted_entry env b BASE | None \<Rightarrow> st_return ()) (\<lambda>_.
    st_bind (m_add_conflicted_entry env x OURS) (\<lambda>_. m_add_conflicted_entry env y THEIRS))"
  have reads: "does (three_way_merge env base x y) (V, wt) c"
    if "does (case me_merge env ?bb (obj_bytes env x) (obj_bytes env y) of
        Inr merged \<Rightarrow> st_bind (on_wt (write_all_at_start p merged)) (\<lambda>_. add_entry_from_path env p)
      | Inl conflicted \<Rightarrow> st_bind (on_wt (write_all_at_start p conflicted)) (\<lambda>_. ?conf)) (V, wt) c" for c
    unfolding three_way_merge_def p(1)
    by (rule yields_bind [OF rb], simp only: mode not_True_eq_False if_False simp_thms, rule does_bind [OF op],
        rule yields_bind [OF file_ok_bytes [OF ok(1)]], rule yields_bind [OF file_ok_bytes [OF ok(2)]], rule that)
  show ?thesis
  proof (cases "me_merge env ?bb (obj_bytes env x) (obj_bytes env y)")
    case (Inr merged)
    let ?bs = "over_ours merged (obj_bytes env x)"
    have "does (add_entry_from_path env p) (V, wt(p \<mapsto> WFile ?bs)) (V(p := merged_stage (Some (blob_oid env ?bs))), wt(p \<mapsto> WFile ?bs))"
      by (rule step_add_from_path [OF env p(3) V(1)]) simp
    then have "does (three_way_merge env base x y) (V, wt) (V(p := changed_merge env base x y), wt(p \<mapsto> WFile ?bs))"
      unfolding changed_merge_def by (intro reads) (simp only: Inr sum.case does_bind [OF wr])
    moreover have "changed_file env base x y = ?bs" using Inr by (simp add: changed_file_def)
    ultimately show ?thesis using wt_frame_simps(2) by (metis fun_upd_same)
  next
    case (Inl c)
    let ?wt = "wt(p \<mapsto> WFile (over_ours c (obj_bytes env x)))"
    have "does ?conf (V, ?wt) (V(p := conflict_stages base (Some x) (Some y)), ?wt)"
    proof (cases base)
      case None
      have "does (st_bind (m_add_conflicted_entry env x OURS) (\<lambda>_. m_add_conflicted_entry env y THEIRS)) (V, ?wt)
          (V(p := conflict_stages None (Some x) (Some y)), ?wt)"
        using step_conflict2 [OF ok V(1) _ _ Vp, of OURS THEIRS ?wt] unfolding stages_upd(4) by simp
      then show ?thesis unfolding None option.case by (rule does_bind [OF does_return])
    next
      case (Some b)
      then have b: "file_ok env p b" using base by simp
      show ?thesis
        unfolding Some option.case using step_conflict3 [OF b ok V(1) _ _ _ Vp, of BASE OURS THEIRS ?wt] unfolding stages_upd(5) by simp
    qed
    then have "does (three_way_merge env base x y) (V, wt) (V(p := changed_merge env base x y), ?wt)"
      unfolding changed_merge_def by (intro reads) (simp only: Inl sum.case does_bind [OF wr])
    moreover have "changed_file env base x y = over_ours c (obj_bytes env x)" using Inl by (simp add: changed_file_def)
    ultimately show ?thesis using wt_frame_simps(2) by (metis fun_upd_same)
  qed
qed

lemma file_row_ok: "file_ok env p e \<Longrightarrow> row_entry_ok env p e"
  by (auto simp: file_ok_def row_entry_ok_def readable_def ie_is_blob_def)

lemma file_key: "file_ok env p e \<Longrightarrow> entry_key e = (p, NONE)"
  by (simp add: file_ok_def entry_key_def)

text \<open>A row of files, in a state that has our file at the path and can take any other there.\<close>

definition file_row :: "merge_env \<Rightarrow> view \<times> worktree \<Rightarrow> bit_path \<Rightarrow> index_entry option \<Rightarrow> index_entry option \<Rightarrow> index_entry option \<Rightarrow> bool" where
  "file_row env = (\<lambda>(V, wt) p base ours theirs. merge_laws env \<and> clean_path p
     \<and> (\<forall>e. base = Some e \<or> ours = Some e \<or> theirs = Some e \<longrightarrow> file_ok env p e)
     \<and> free_path V p \<and> no_file_above wt p \<and> synced env (V, wt) p ours
     \<and> (\<forall>x y. ours = Some x \<and> theirs = Some y \<longrightarrow> ie_mode x = ie_mode y))"

lemma file_facts:
  assumes "file_ok env p e"
  shows "ie_is_blob e" "row_entry_ok env p e" "ie_path e = p" "entry_key e = (p, NONE)" "ie_mode e \<noteq> TREE" "ie_mode e \<noteq> GITLINK" "is_known (ie_oid e)"
  using file_row_ok [OF assms] file_key [OF assms] assms by (auto simp: file_ok_def ie_is_blob_def)

lemma file_diffs:
  assumes "file_ok env p e" "file_ok env p b"
  shows "diff_base_to_other None (Some e) = Inr (Some (MCreatedBlob e))"
    "diff_base_to_other (Some b) None = Inr (Some (MDeletedBlob b))"
    "diff_base_to_other (Some b) (Some e) = Inr (Some (if ie_oid e = ie_oid b then MUnmodifiedBlob e else MModifiedBlob e))"
  using file_facts [OF assms(1)] file_facts [OF assms(2)]
  by (cases "ie_mode e"; cases "ie_mode b"; auto simp: diff_base_to_other_def other_only_def base_only_def diff_matching_def diff_cmp_cases)+

text \<open>The outcome of a row.\<close>

definition row_does :: "merge_env \<Rightarrow> view \<times> worktree \<Rightarrow> bit_path \<Rightarrow> index_entry option \<Rightarrow> index_entry option \<Rightarrow> index_entry option \<Rightarrow> bool" where
  "row_does env = (\<lambda>(V, wt) p base ours theirs.
     \<exists>wt'. does (merge_entries env base ours theirs) (V, wt) (V(p := merge3 env base ours theirs), wt') \<and> wt_frame p wt wt'
       \<and> wt' p = map_option WFile (merge3_file env base ours theirs))"

lemma row_doesI:
  assumes "merge_entries env base ours theirs = m" "does m (V, wt) (V(p := f), wt')" "f = merge3 env base ours theirs" "wt_frame p wt wt'"
    and "wt' p = map_option WFile (merge3_file env base ours theirs)"
  shows "row_does env (V, wt) p base ours theirs"
  unfolding row_does_def using assms by auto

lemma row_nothing:
  assumes "file_row env (V, wt) p base ours theirs" "merge_entries env base ours theirs = st_return ()"
    and "merge3 env base ours theirs = merged_stage (map_option ie_oid ours)" "merge3_file env base ours theirs = map_option (obj_bytes env) ours"
  shows "row_does env (V, wt) p base ours theirs"
proof (rule row_doesI [OF assms(2) _ assms(3) [symmetric] wt_frame_simps(1)])
  have "V p = merged_stage (map_option ie_oid ours)" using assms(1) by (simp add: file_row_def synced_def)
  then show "does (st_return ()) (V, wt) (V(p := merged_stage (map_option ie_oid ours)), wt)" using does_return by (metis fun_upd_triv)
  show "wt p = map_option WFile (merge3_file env base ours theirs)" using assms(1,4) by (cases ours) (simp_all add: file_row_def synced_def)
qed

lemma row_created:
  assumes r: "file_row env (V, wt) p None ours theirs"
  shows "row_does env (V, wt) p None ours theirs"
proof -
  have env: "merge_laws env" and p: "clean_path p" and V: "free_path V p" "no_file_above wt p" "synced env (V, wt) p ours"
    using r by (simp_all add: file_row_def)
  have ok: "file_ok env p e" if "ours = Some e \<or> theirs = Some e" for e
    using r that unfolding file_row_def split_conv by blast
  have wtp: "wt p = map_option (\<lambda>e. WFile (obj_bytes env e)) ours" using V(3) by (simp add: synced_def)
  consider "ours = None" "theirs = None" | y where "ours = None" "theirs = Some y" | x where "ours = Some x" "theirs = None"
    | x y where "ours = Some x" "theirs = Some y" by (cases ours; cases theirs) auto
  then show ?thesis
  proof cases
    case 1
    then show ?thesis using r by (intro row_nothing) (simp_all add: merge_entries_def diff_base_to_other_def merge3_def merge3_file_def)
  next
    case (2 y)
    have y: "file_ok env p y" using ok 2 by simp
    have "yields (on_wt (repo_path_exists p)) False (V, wt)" using exists_free [OF p V(2)] wtp 2 by (intro yields_wt) simp
    then have "does (base_to_theirs_only env (MCreatedBlob y)) (V, wt)
        (V(p := merged_stage (Some (ie_oid y))), (with_dirs p wt)(p \<mapsto> WFile (obj_bytes env y)))"
      using step_write_add [OF env y V(1,2)] wtp 2 file_facts(3) [OF y] by (simp add: base_to_theirs_only_def yields_bind)
    then show ?thesis
      by (rule row_doesI [rotated]) (use 2 wtp file_diffs [OF y y] in \<open>simp_all add: merge_entries_def diff_base_to_other_def merge3_def merge3_file_def wt_frame_simps\<close>)
  next
    case (3 x)
    have x: "file_ok env p x" using ok 3 by simp
    have "does (m_add_entry env x) (V, wt) (V(p := merged_stage (Some (ie_oid x))), wt)"
      using step_add_entry [OF env x V(1)] wtp 3 by (simp add: wt_is_file_def)
    then show ?thesis
      by (rule row_doesI [rotated])
        (use 3 wtp file_diffs(1) [OF x x] in \<open>simp_all add: merge_entries_def diff_base_to_other_def [of None None] base_to_ours_only_def merge3_def merge3_file_def wt_frame_simps\<close>)
  next
    case (4 x y)
    have xy: "file_ok env p x" "file_ok env p y" "ie_mode x = ie_mode y" using ok r 4 by (simp_all add: file_row_def)
    obtain wt' where wt': "does (three_way_merge env None x y) (V, wt) (V(p := changed_merge env None x y), wt')" "wt_frame p wt wt'"
        "wt' p = Some (WFile (changed_file env None x y))"
      using step_three_way [OF env _ xy(1,2) V(1) _ xy(3), of None wt] V(3) 4 by auto
    show ?thesis
      by (rule row_doesI [OF _ wt'(1) _ wt'(2)])
        (use 4 wt'(3) file_diffs(1) [OF xy(1,1)] file_diffs(1) [OF xy(2,2)] in \<open>simp_all add: merge_entries_def merge_entry_def merge3_def merge3_file_def changed_merge_def Let_def\<close>)
  qed
qed

lemma row_deleted:
  assumes r: "file_row env (V, wt) p (Some b) None theirs"
  shows "row_does env (V, wt) p (Some b) None theirs"
proof -
  have V: "free_path V p" "no_file_above wt p" and wtp: "wt p = None" and Vp: "V p = merged_stage None"
    using r by (simp_all add: file_row_def synced_def)
  have ok: "file_ok env p e" if "theirs = Some e" for e using r that unfolding file_row_def split_conv by blast
  have b: "file_ok env p b" using r unfolding file_row_def split_conv by blast
  have rm: "does (m_remove_entry (p, NONE)) (V, wt) (V(p := merged_stage None), wt)"
    using step_remove [of p V wt] unfolding Vp stages_upd(1) .
  note d = file_diffs [OF b b] file_facts [OF b] merge_entries_def merge_entry_def merge3_def merge3_file_def Let_def
  show ?thesis
  proof (cases theirs)
    case None
    show ?thesis by (rule row_doesI [OF _ rm _ wt_frame_simps(1)]) (use None wtp in \<open>simp_all add: d\<close>)
  next
    case (Some y)
    then have y: "file_ok env p y" using ok by blast
    note dy = d file_diffs(3) [OF y b] Some
    show ?thesis
    proof (cases "ie_oid y = ie_oid b")
      case True
      show ?thesis by (rule row_doesI [OF _ rm _ wt_frame_simps(1)]) (use True wtp in \<open>simp_all add: dy\<close>)
    next
      case False
      let ?V = "V(p := conflict_stages (Some b) None (Some y))"
      have "does (st_bind (m_add_conflicted_entry env b BASE) (\<lambda>_. st_bind (m_add_conflicted_entry env y THEIRS) (\<lambda>_. on_wt (write_to_disk (me_read_obj env) y))))
          (V, wt) (?V, (with_dirs p wt)(p \<mapsto> WFile (obj_bytes env y)))"
      proof (rule does_bind [OF step_conflict [OF b V(1) _ Vp]])
        show "does (st_bind (m_add_conflicted_entry env y THEIRS) (\<lambda>_. on_wt (write_to_disk (me_read_obj env) y)))
          (V(p := (merged_stage None)(NONE := None, BASE := Some (ie_oid b))), wt) (?V, (with_dirs p wt)(p \<mapsto> WFile (obj_bytes env y)))"
          by (rule does_bind [OF step_conflict [OF y free_path_upd [OF V(1)] _ fun_upd_same]])
            (simp_all only: fun_upd_upd stages_upd(3) step_write [OF y V(2) wtp], simp)
      qed simp
      then show ?thesis
        by (rule row_doesI [rotated]) (use False in \<open>simp_all add: dy unwrap_base_def wt_frame_simps\<close>)
    qed
  qed
qed

lemma row_same:
  assumes r: "file_row env (V, wt) p (Some b) (Some x) theirs" and same: "ie_oid x = ie_oid b"
  shows "row_does env (V, wt) p (Some b) (Some x) theirs"
proof -
  have env: "merge_laws env" and V: "free_path V p" "no_file_above wt p" and wtp: "wt_is_file wt p" and Vp: "V p = merged_stage (Some (ie_oid x))"
    using r by (simp_all add: file_row_def synced_def wt_is_file_def)
  have b: "file_ok env p b" and x: "file_ok env p x" using r unfolding file_row_def split_conv by blast+
  note d = file_diffs [OF b b] file_diffs(3) [OF x b] same file_facts [OF b] merge_entries_def merge_entry_def merge3_def merge3_file_def Let_def
  show ?thesis
  proof (cases theirs)
    case None
    have "does (on_wt (repo_rm p)) (V, wt) (V, wt(p := None))" using wtp by (intro does_wt) (simp add: repo_rm_def remove_file_def)
    then have "does (ignore_error (on_wt (repo_rm p))) (V, wt) (V, wt(p := None))" by (fastforce simp: does_def ignore_error_def)
    from does_bind [where f = "\<lambda>_. m_remove_entry (p, NONE)", OF this step_remove]
    have "does (st_bind (ignore_error (on_wt (repo_rm p))) (\<lambda>_. m_remove_entry (p, NONE))) (V, wt) (V(p := merged_stage None), wt(p := None))"
      unfolding Vp stages_upd(1) .
    then show ?thesis by (rule row_doesI [rotated]) (use None in \<open>simp_all add: d wt_frame_simps\<close>)
  next
    case (Some y)
    then have y: "file_ok env p y" using r unfolding file_row_def split_conv by blast
    note dy = d file_diffs(3) [OF y b] Some
    show ?thesis
    proof (cases "ie_oid y = ie_oid b")
      case True
      show ?thesis by (rule row_nothing [OF r]) (use True in \<open>simp_all add: dy\<close>)
    next
      case False
      show ?thesis
        by (rule row_doesI [OF _ step_update [OF env y V wtp] _ wt_frame_simps(3)]) (use False in \<open>simp_all add: dy\<close>)
    qed
  qed
qed

lemma row_changed:
  assumes r: "file_row env (V, wt) p (Some b) (Some x) theirs" and changed: "ie_oid x \<noteq> ie_oid b"
  shows "row_does env (V, wt) p (Some b) (Some x) theirs"
proof -
  have env: "merge_laws env" and V: "free_path V p" "synced env (V, wt) p (Some x)" and wtp: "wt_is_file wt p" "wt p = Some (WFile (obj_bytes env x))"
    and Vp: "V p = merged_stage (Some (ie_oid x))"
    using r by (simp_all add: file_row_def synced_def wt_is_file_def)
  have b: "file_ok env p b" and x: "file_ok env p x" using r unfolding file_row_def split_conv by blast+
  note d = file_diffs [OF b b] file_diffs(3) [OF x b] changed changed [symmetric] file_facts [OF b] merge_entries_def merge_entry_def merge3_def merge3_file_def Let_def
  show ?thesis
  proof (cases theirs)
    case None
    have "does (st_bind (m_add_conflicted_entry env b BASE) (\<lambda>_. m_add_conflicted_entry env x OURS)) (V, wt) (V(p := conflict_stages (Some b) (Some x) None), wt)"
      using step_conflict2 [OF b x V(1) _ _ Vp, of BASE OURS wt] unfolding stages_upd(2) by simp
    then show ?thesis by (rule row_doesI [rotated]) (use None wtp in \<open>simp_all add: d unwrap_base_def wt_frame_simps\<close>)
  next
    case (Some y)
    then have y: "file_ok env p y" and mode: "ie_mode x = ie_mode y" using r unfolding file_row_def split_conv by blast+
    note dy = d file_diffs(3) [OF y b] Some
    show ?thesis
    proof (cases "ie_oid y = ie_oid b")
      case True
      show ?thesis
        by (rule row_doesI [OF _ step_add_entry [OF env x V(1) wtp(1)] _ wt_frame_simps(1)]) (use True wtp in \<open>simp_all add: dy\<close>)
    next
      case False
      obtain wt' where wt': "does (three_way_merge env (Some b) x y) (V, wt) (V(p := changed_merge env (Some b) x y), wt')" "wt_frame p wt wt'"
          "wt' p = Some (WFile (changed_file env (Some b) x y))"
        using step_three_way [OF env _ x y V mode, of "Some b"] b by auto
      show ?thesis
        by (rule row_doesI [OF _ wt'(1) _ wt'(2)]) (use False wt'(3) in \<open>simp_all add: dy changed_merge_def\<close>)
    qed
  qed
qed

lemma row_of_files: "file_row env a p base ours theirs \<Longrightarrow> row_does env a p base ours theirs"
  by (cases a; cases base; cases ours) (metis row_created row_deleted row_same row_changed)+

end
