(* ===== verification/Bit_Merge_Trees.thy ===== *)
theory Bit_Merge_Trees
  imports Bit_Merge_Spec
begin

text \<open>
  The merge of three trees as the three-way merge of every path: the rows of the walk are handled one after
  the other, and what they leave out needs no work.
\<close>

section \<open>Trees that can be merged path by path\<close>

type_synonym tree_map = "bit_path \<Rightarrow> index_entry option"

definition blob_at :: "tree_map \<Rightarrow> tree_map" where
  "blob_at X q = (case X q of Some e \<Rightarrow> if ie_is_tree e then None else Some e | None \<Rightarrow> None)"

text \<open>The entries of a tree: files that can be read, and directories down to them.\<close>

definition tree_map_ok :: "merge_env \<Rightarrow> tree_map \<Rightarrow> bool" where
  "tree_map_ok env X \<longleftrightarrow>
     (\<forall>q e. X q = Some e \<longrightarrow> ie_path e = q \<and> (if ie_is_tree e then repo_path q \<and> is_known (ie_oid e) else file_ok env q e))
     \<and> (\<forall>q p e. X q = Some e \<and> clean_path p \<and> inside q p \<longrightarrow> (\<exists>t. X p = Some t \<and> ie_is_tree t))
     \<and> X (BitPath []) \<noteq> None"

definition same_kind :: "tree_map \<Rightarrow> tree_map \<Rightarrow> bool" where
  "same_kind X Y \<longleftrightarrow> (\<forall>q e f. X q = Some e \<and> Y q = Some f \<longrightarrow> ie_is_tree e = ie_is_tree f)"

definition new_dir :: "tree_map \<Rightarrow> tree_map \<Rightarrow> tree_map \<Rightarrow> bit_path \<Rightarrow> bool" where
  "new_dir B U T q \<longleftrightarrow> (\<exists>t. T q = Some t \<and> ie_is_tree t) \<and> B q = None \<and> U q = None"

text \<open>
  No path is a file on one side and a directory on another, files of both sides have the same mode, and a
  directory only they have is not in a directory only we removed.
\<close>

definition path_by_path :: "tree_map \<Rightarrow> tree_map \<Rightarrow> tree_map \<Rightarrow> bool" where
  "path_by_path B U T \<longleftrightarrow> same_kind B U \<and> same_kind B T \<and> same_kind U T
     \<and> (\<forall>q x y. U q = Some x \<and> T q = Some y \<longrightarrow> ie_mode x = ie_mode y)
     \<and> (\<forall>q. new_dir B U T q \<and> clean_path (wt_parent q) \<longrightarrow> B (wt_parent q) = None \<or> U (wt_parent q) \<noteq> None)"

definition mergeable :: "merge_env \<Rightarrow> tree_map \<Rightarrow> tree_map \<Rightarrow> tree_map \<Rightarrow> bool" where
  "mergeable env B U T \<longleftrightarrow> tree_map_ok env B \<and> tree_map_ok env U \<and> tree_map_ok env T \<and> path_by_path B U T"

text \<open>The index and the work tree a checkout of a tree leaves.\<close>

definition tree_view :: "tree_map \<Rightarrow> view" where
  "tree_view X q = merged_stage (map_option ie_oid (blob_at X q))"

definition tree_files :: "merge_env \<Rightarrow> tree_map \<Rightarrow> worktree" where
  "tree_files env X q =
     (if q = BitPath [] then None
      else case X q of None \<Rightarrow> None | Some e \<Rightarrow> Some (if ie_is_tree e then WDir else WFile (obj_bytes env e)))"

definition merged_view :: "merge_env \<Rightarrow> tree_map \<Rightarrow> tree_map \<Rightarrow> tree_map \<Rightarrow> view" where
  "merged_view env B U T q = merge3 env (blob_at B q) (blob_at U q) (blob_at T q)"

definition merged_file :: "merge_env \<Rightarrow> tree_map \<Rightarrow> tree_map \<Rightarrow> tree_map \<Rightarrow> bit_path \<Rightarrow> wt_node option" where
  "merged_file env B U T q = map_option WFile (merge3_file env (blob_at B q) (blob_at U q) (blob_at T q))"

definition leaf :: "tree_map \<Rightarrow> tree_map \<Rightarrow> tree_map \<Rightarrow> bit_path \<Rightarrow> bool" where
  "leaf B U T q \<longleftrightarrow> blob_at B q \<noteq> None \<or> blob_at U q \<noteq> None \<or> blob_at T q \<noteq> None"

text \<open>The state between two rows: the paths in \<open>D\<close> are done, the others are as in our tree.\<close>

definition between :: "merge_env \<Rightarrow> tree_map \<Rightarrow> tree_map \<Rightarrow> tree_map \<Rightarrow> bit_path set \<Rightarrow> view \<times> worktree \<Rightarrow> bool" where
  "between env B U T D = (\<lambda>(V, wt).
     (\<forall>q. V q = (if q \<in> D then merged_view env B U T q else tree_view U q))
     \<and> (\<forall>q. leaf B U T q \<longrightarrow> wt q = (if q \<in> D then merged_file env B U T q else tree_files env U q))
     \<and> (\<forall>q. new_dir B U T q \<longrightarrow> wt q = (if q \<in> D then Some WDir else None))
     \<and> (\<forall>q. clean_path q \<and> (\<exists>t. U q = Some t \<and> ie_is_tree t) \<and> (T q \<noteq> None \<or> q \<notin> D) \<longrightarrow> wt q = Some WDir)
     \<and> (\<forall>q. wt_is_file wt q \<longrightarrow> leaf B U T q))"

lemma betweenD:
  assumes "between env B U T D (V, wt)"
  shows "V q = (if q \<in> D then merged_view env B U T q else tree_view U q)"
    and "leaf B U T q \<Longrightarrow> wt q = (if q \<in> D then merged_file env B U T q else tree_files env U q)"
    and "new_dir B U T q \<Longrightarrow> wt q = (if q \<in> D then Some WDir else None)"
    and "clean_path q \<Longrightarrow> U q = Some t \<Longrightarrow> ie_is_tree t \<Longrightarrow> T q \<noteq> None \<or> q \<notin> D \<Longrightarrow> wt q = Some WDir"
    and "wt_is_file wt q \<Longrightarrow> leaf B U T q"
  using assms unfolding between_def split_conv by blast+

lemma leafE:
  assumes "leaf B U T q" "mergeable env B U T"
  obtains X e where "X \<in> {B, U, T}" "X q = Some e" "\<not> ie_is_tree e" "file_ok env q e"
proof -
  have "\<exists>X \<in> {B, U, T}. \<exists>e. X q = Some e \<and> \<not> ie_is_tree e"
    using assms(1) by (auto simp: leaf_def blob_at_def split: option.splits if_splits)
  then obtain X e where X: "X \<in> {B, U, T}" "X q = Some e" "\<not> ie_is_tree e" by blast
  moreover have "tree_map_ok env X" using X(1) assms(2) by (auto simp: mergeable_def)
  ultimately show ?thesis using that unfolding tree_map_ok_def by metis
qed

lemma kinds_agree:
  assumes "mergeable env B U T" "X \<in> {B, U, T}" "Y \<in> {B, U, T}" "X q = Some e" "Y q = Some f"
  shows "ie_is_tree e = ie_is_tree f"
proof -
  have "same_kind B U" "same_kind B T" "same_kind U T" using assms(1) by (simp_all add: mergeable_def path_by_path_def)
  then have "same_kind X Y \<or> same_kind Y X \<or> X = Y" using assms(2,3) by blast
  then show ?thesis using assms(4,5) unfolding same_kind_def by (metis option.inject)
qed

lemma above_is_dir:
  assumes m: "mergeable env B U T" and X: "X \<in> {B, U, T}" "X q = Some e" and p: "clean_path p" "inside q p"
  shows "\<exists>t. X p = Some t \<and> ie_is_tree t" "\<not> leaf B U T p"
proof -
  have "tree_map_ok env X" using X(1) m by (auto simp: mergeable_def)
  then show 1: "\<exists>t. X p = Some t \<and> ie_is_tree t" using X(2) p unfolding tree_map_ok_def by blast
  show "\<not> leaf B U T p"
  proof
    assume "leaf B U T p"
    then obtain Y f where "Y \<in> {B, U, T}" "Y p = Some f" "\<not> ie_is_tree f" by (rule leafE [OF _ m])
    then show False using 1 kinds_agree [OF m X(1), of Y p] by blast
  qed
qed

lemma view_leaf:
  assumes "merged_view env B U T q st \<noteq> None \<or> tree_view U q st \<noteq> None"
  shows "leaf B U T q"
  using assms by (auto simp: merged_view_def tree_view_def merge3_def leaf_def merged_stage_def conflict_stages_def Let_def
      split: option.splits if_splits sum.splits)

section \<open>A row of files\<close>

lemma leaf_entries:
  assumes m: "mergeable env B U T" and l: "leaf B U T p" and X: "X \<in> {B, U, T}"
  shows "blob_at X p = X p" "X p = Some e \<Longrightarrow> file_ok env p e"
proof -
  obtain Y f where Y: "Y \<in> {B, U, T}" "Y p = Some f" "\<not> ie_is_tree f" using leafE [OF l m] .
  have nt: "\<not> ie_is_tree e" if "X p = Some e" for e using kinds_agree [OF m X Y(1) that Y(2)] Y(3) by simp
  then show "blob_at X p = X p" by (auto simp: blob_at_def split: option.splits)
  have "tree_map_ok env X" using X m by (auto simp: mergeable_def)
  then show "X p = Some e \<Longrightarrow> file_ok env p e" using nt unfolding tree_map_ok_def by metis
qed

lemma leaf_clean: "mergeable env B U T \<Longrightarrow> leaf B U T p \<Longrightarrow> clean_path p"
  by (erule leafE) (auto simp: file_ok_def)

lemma leaf_not_inside:
  assumes m: "mergeable env B U T" and "leaf B U T p" "leaf B U T q"
  shows "\<not> inside q p"
proof
  assume i: "inside q p"
  obtain X e where "X \<in> {B, U, T}" "X q = Some e" using leafE [OF assms(3) m] .
  then show False using above_is_dir(2) [OF m _ _ leaf_clean [OF m assms(2)] i] assms(2) by blast
qed

lemma leaf_file_row:
  assumes m: "mergeable env B U T" "merge_laws env" and bt: "between env B U T D (V, wt)" and p: "leaf B U T p" "p \<notin> D"
  shows "file_row env (V, wt) p (B p) (U p) (T p)"
proof -
  have ok: "\<forall>e. B p = Some e \<or> U p = Some e \<or> T p = Some e \<longrightarrow> file_ok env p e"
    using leaf_entries(2) [OF m(1) p(1)] by blast
  have leaf_V: "leaf B U T q" if "V q st \<noteq> None" for q st
    using that view_leaf [of env B U T q st] betweenD(1) [OF bt, of q] by (auto split: if_splits)
  have "free_path V p"
    unfolding free_path_def using leaf_V leaf_not_inside [OF m(1)] p(1) by blast
  moreover have "no_file_above wt p"
    unfolding no_file_above_def using betweenD(5) [OF bt] leaf_not_inside [OF m(1)] p(1) by blast
  moreover have "synced env (V, wt) p (U p)"
  proof -
    have "p \<noteq> BitPath []" using clean_last [OF leaf_clean [OF m(1) p(1)]] by auto
    moreover have "\<not> ie_is_tree e" if "U p = Some e" for e
      using leaf_entries(1) [OF m(1) p(1), of U] that by (auto simp: blob_at_def split: if_splits)
    ultimately show ?thesis
      using betweenD(1,2) [OF bt, of p] p leaf_entries(1) [OF m(1) p(1), of U]
      by (cases "U p") (simp_all add: synced_def tree_view_def tree_files_def)
  qed
  moreover have "\<forall>x y. U p = Some x \<and> T p = Some y \<longrightarrow> ie_mode x = ie_mode y" using m(1) unfolding mergeable_def path_by_path_def by blast
  ultimately show ?thesis using ok m(2) leaf_clean [OF m(1) p(1)] unfolding file_row_def split_conv by blast
qed

lemma leaf_row:
  assumes m: "mergeable env B U T" "merge_laws env" and bt: "between env B U T D (V, wt)" and p: "leaf B U T p" "p \<notin> D"
    and dirs: "\<forall>q. new_dir B U T q \<and> inside p q \<longrightarrow> q \<in> D"
  shows "\<exists>b. does (merge_entries env (B p) (U p) (T p)) (V, wt) b \<and> between env B U T (insert p D) b"
proof -
  note fr = leaf_file_row [OF m bt p]
  obtain wt' where wt': "does (merge_entries env (B p) (U p) (T p)) (V, wt) (V(p := merge3 env (B p) (U p) (T p)), wt')" "wt_frame p wt wt'"
      "wt' p = map_option WFile (merge3_file env (B p) (U p) (T p))"
    using row_of_files [OF fr] unfolding row_does_def split_conv by blast
  have blobs: "blob_at B p = B p" "blob_at U p = U p" "blob_at T p = T p" using leaf_entries(1) [OF m(1) p(1)] by simp_all
  have not_dir: "\<not> (\<exists>t. X p = Some t \<and> ie_is_tree t)" if "X \<in> {B, U, T}" for X
    using leaf_entries(1) [OF m(1) p(1) that] by (auto simp: blob_at_def split: if_splits)
  have frame: "wt' q = wt q \<or> clean_path q \<and> inside p q \<and> wt' q = Some WDir" if "q \<noteq> p" for q
    using wt'(2) that unfolding wt_frame_def by blast
  obtain X e where X: "X \<in> {B, U, T}" "X p = Some e" using leafE [OF p(1) m(1)] .
  have "between env B U T (insert p D) (V(p := merge3 env (B p) (U p) (T p)), wt')"
    unfolding between_def split_conv
  proof (intro conjI allI impI)
    fix q
    show "(V(p := merge3 env (B p) (U p) (T p))) q = (if q \<in> insert p D then merged_view env B U T q else tree_view U q)"
      using betweenD(1) [OF bt, of q] blobs by (simp add: merged_view_def)
    show "wt' q = (if q \<in> insert p D then merged_file env B U T q else tree_files env U q)" if q: "leaf B U T q"
    proof (cases "q = p")
      case True
      then show ?thesis using wt'(3) blobs by (simp add: merged_file_def)
    next
      case False
      then have "wt' q = wt q" using frame above_is_dir(2) [OF m(1) X] q by blast
      then show ?thesis using betweenD(2) [OF bt q] False by simp
    qed
    show "wt' q = (if q \<in> insert p D then Some WDir else None)" if q: "new_dir B U T q"
    proof -
      have "q \<noteq> p" using q not_dir [of T] by (auto simp: new_dir_def)
      then show ?thesis using frame [of q] betweenD(3) [OF bt q] dirs q by auto
    qed
    show "wt' q = Some WDir" if q: "clean_path q \<and> (\<exists>t. U q = Some t \<and> ie_is_tree t) \<and> (T q \<noteq> None \<or> q \<notin> insert p D)"
    proof -
      have "q \<noteq> p" using q not_dir [of U] by auto
      then show ?thesis using frame [of q] betweenD(4) [OF bt, of q] q by auto
    qed
    show "leaf B U T q" if q: "wt_is_file wt' q"
    proof (cases "q = p")
      case False
      then have "wt_is_file wt q" using frame [of q] q by (auto simp: wt_is_file_def)
      then show ?thesis by (rule betweenD(5) [OF bt])
    qed (use p in simp)
  qed
  then show ?thesis using wt'(1) by blast
qed

section \<open>A row of directories\<close>

definition removes :: "tree_map \<Rightarrow> tree_map \<Rightarrow> tree_map \<Rightarrow> bit_path \<Rightarrow> bool" where
  "removes B U T p \<longleftrightarrow> (\<exists>b u. B p = Some b \<and> U p = Some u \<and> ie_is_tree b \<and> ie_is_tree u \<and> ie_oid b = ie_oid u) \<and> T p = None"

definition handled :: "tree_map \<Rightarrow> tree_map \<Rightarrow> tree_map \<Rightarrow> bit_path \<Rightarrow> bit_path set" where
  "handled B U T p = {q. q = p \<or> removes B U T p \<and> inside q p}"

lemma tree_mode: "ie_is_tree e \<Longrightarrow> ie_mode e = TREE"
  by (cases "ie_mode e") (simp_all add: ie_is_tree_def)

lemma dir_diffs:
  "ie_is_tree e \<Longrightarrow> diff_base_to_other None (Some e) = Inr (Some (MCreatedTree e))"
  "ie_is_tree b \<Longrightarrow> diff_base_to_other (Some b) None = Inr (Some (MDeletedTree b))"
  "ie_is_tree e \<Longrightarrow> ie_is_tree b \<Longrightarrow> ie_path e = ie_path b \<Longrightarrow> is_known (ie_oid e) \<Longrightarrow> is_known (ie_oid b)
    \<Longrightarrow> diff_base_to_other (Some b) (Some e) = Inr (Some (if ie_oid b = ie_oid e then MUnmodifiedTree e else MModifiedTree e))"
  using tree_mode by (simp_all add: diff_base_to_other_def other_only_def base_only_def diff_matching_def diff_cmp_cases)

lemma not_leaf_blobs: "\<not> leaf B U T p \<Longrightarrow> blob_at B p = None \<and> blob_at U p = None \<and> blob_at T p = None"
  by (simp add: leaf_def)

lemma not_leaf_view: "\<not> leaf B U T p \<Longrightarrow> merged_view env B U T p = tree_view U p"
  using not_leaf_blobs [of B U T p] by (simp add: merged_view_def tree_view_def merge3_def)

lemma between_stay:
  assumes "between env B U T D (V, wt)" "\<not> leaf B U T p" "\<not> new_dir B U T p"
  shows "between env B U T (insert p D) (V, wt)"
proof -
  have "V q = (if q \<in> insert p D then merged_view env B U T q else tree_view U q)" for q
    using betweenD(1) [OF assms(1), of q] not_leaf_view [OF assms(2), of env] by auto
  moreover have "wt q = (if q \<in> insert p D then merged_file env B U T q else tree_files env U q)" if "leaf B U T q" for q
    using betweenD(2) [OF assms(1) that] assms(2) that by auto
  moreover have "wt q = (if q \<in> insert p D then Some WDir else None)" if "new_dir B U T q" for q
    using betweenD(3) [OF assms(1) that] assms(3) that by auto
  moreover have "wt q = Some WDir" if "clean_path q \<and> (\<exists>t. U q = Some t \<and> ie_is_tree t) \<and> (T q \<noteq> None \<or> q \<notin> insert p D)" for q
    using betweenD(4) [OF assms(1), of q] that by auto
  moreover have "leaf B U T q" if "wt_is_file wt q" for q by (rule betweenD(5) [OF assms(1) that])
  ultimately show ?thesis unfolding between_def split_conv by blast
qed

lemma new_dir_row:
  assumes m: "mergeable env B U T" and bt: "between env B U T D (V, wt)" and p: "new_dir B U T p" "p \<notin> D"
    and dirs: "\<forall>q. new_dir B U T q \<and> inside p q \<longrightarrow> q \<in> D"
  shows "\<exists>b. does (merge_entries env (B p) (U p) (T p)) (V, wt) b \<and> between env B U T (insert p D) b"
proof -
  obtain t where t: "T p = Some t" "ie_is_tree t" "B p = None" "U p = None" using p(1) by (auto simp: new_dir_def)
  have ok: "tree_map_ok env T" "tree_map_ok env U" using m by (simp_all add: mergeable_def)
  have tp: "ie_path t = p" "repo_path p" "is_known (ie_oid t)" using ok(1) t(1,2) unfolding tree_map_ok_def by metis+
  have "path_bytes p \<noteq> []" using ok(2) t(4) unfolding tree_map_ok_def by (metis bit_path.collapse)
  then have c: "clean_path p" using tp(2) by (simp add: repo_path_def)
  have parent: "wt_is_dir wt (wt_parent p)"
  proof (cases "components (path_bytes (wt_parent p)) = []")
    case False
    note pp = parent_inside [OF c False]
    obtain t' where t': "T (wt_parent p) = Some t'" "ie_is_tree t'" using above_is_dir(1) [of env B U T T p t, OF m _ t(1) pp] by auto
    show ?thesis
    proof (cases "U (wt_parent p)")
      case None
      then have "new_dir B U T (wt_parent p)" using m p(1) pp(1) t' unfolding mergeable_def path_by_path_def new_dir_def by blast
      then show ?thesis using betweenD(3) [OF bt] dirs pp(2) by (simp add: wt_is_dir_def)
    next
      case (Some u)
      then have "ie_is_tree u" using kinds_agree [OF m, of U T "wt_parent p" u t'] t' by simp
      then show ?thesis using betweenD(4) [OF bt pp(1) Some] t'(1) by (simp add: wt_is_dir_def)
    qed
  qed (simp add: wt_is_dir_def)
  have "wt p = None" using betweenD(3) [OF bt p(1)] p(2) by simp
  then have "does (on_wt (repo_mkdir p)) (V, wt) (V, wt(p \<mapsto> WDir))"
    using parent clean_components [OF c] by (intro does_wt) (simp add: repo_mkdir_def create_dir_def)
  moreover have "merge_entries env (B p) (U p) (T p) = on_wt (repo_mkdir p)"
    using dir_diffs(1) [of t] t tp by (simp add: merge_entries_def diff_base_to_other_def [of None None] base_to_theirs_only_def)
  moreover have "between env B U T (insert p D) (V, wt(p \<mapsto> WDir))"
  proof -
    have nl: "\<not> leaf B U T p" using t by (simp add: leaf_def blob_at_def)
    have "V q = (if q \<in> insert p D then merged_view env B U T q else tree_view U q)" for q
      using betweenD(1) [OF bt, of q] not_leaf_view [OF nl, of env] by auto
    moreover have "(wt(p \<mapsto> WDir)) q = (if q \<in> insert p D then merged_file env B U T q else tree_files env U q)" if "leaf B U T q" for q
      using betweenD(2) [OF bt that] nl that by auto
    moreover have "(wt(p \<mapsto> WDir)) q = (if q \<in> insert p D then Some WDir else None)" if "new_dir B U T q" for q
      using betweenD(3) [OF bt that] by auto
    moreover have "(wt(p \<mapsto> WDir)) q = Some WDir" if "clean_path q \<and> (\<exists>t. U q = Some t \<and> ie_is_tree t) \<and> (T q \<noteq> None \<or> q \<notin> insert p D)" for q
      using betweenD(4) [OF bt, of q] that by auto
    moreover have "leaf B U T q" if "wt_is_file (wt(p \<mapsto> WDir)) q" for q
      using betweenD(5) [OF bt, of q] that by (auto simp: wt_is_file_def split: if_splits)
    ultimately show ?thesis unfolding between_def split_conv by blast
  qed
  ultimately show ?thesis by metis
qed

lemma dir_facts:
  assumes "mergeable env B U T" "X \<in> {B, U, T}" "X p = Some e" "ie_is_tree e"
  shows "ie_path e = p" "repo_path p" "is_known (ie_oid e)"
proof -
  have "tree_map_ok env X" using assms(1,2) by (auto simp: mergeable_def)
  then show "ie_path e = p" "repo_path p" "is_known (ie_oid e)" using assms(3,4) unfolding tree_map_ok_def by metis+
qed

lemma missing_clean:
  assumes "mergeable env B U T" "X \<in> {B, U, T}" "X p = None" "repo_path p"
  shows "clean_path p"
proof -
  have "tree_map_ok env X" using assms(1,2) by (auto simp: mergeable_def)
  then have "p \<noteq> BitPath []" using assms(3) unfolding tree_map_ok_def by metis
  then show ?thesis using assms(4) unfolding repo_path_def by (metis bit_path.collapse)
qed

lemma missing_below:
  assumes "mergeable env B U T" "X \<in> {B, U, T}" "X p = None" "clean_path p" "inside q p"
  shows "X q = None"
  using above_is_dir(1) [OF assms(1,2) _ assms(4,5)] assms(3) by (cases "X q") auto

text \<open>A directory we left alone and they removed.\<close>

lemma removed_row:
  assumes m: "mergeable env B U T" and bt: "between env B U T D (V, wt)" and p: "removes B U T p" "p \<notin> D"
    and same: "\<forall>q. inside q p \<longrightarrow> B q = U q"
  shows "\<exists>b. does (merge_entries env (B p) (U p) (T p)) (V, wt) b \<and> between env B U T (handled B U T p \<union> D) b"
proof -
  obtain b u where bu: "B p = Some b" "U p = Some u" "ie_is_tree b" "ie_is_tree u" "ie_oid b = ie_oid u" "T p = None"
    using p(1) by (auto simp: removes_def)
  have b: "ie_path b = p" "repo_path p" "is_known (ie_oid b)" using dir_facts [of env B U T B p, OF m _ bu(1,3)] by simp_all
  have u: "ie_path u = p" "is_known (ie_oid u)" using dir_facts [of env B U T U p, OF m _ bu(2,4)] by simp_all
  have c: "clean_path p" using missing_clean [of env B U T T p, OF m _ bu(6) b(2)] by simp
  have h: "q \<in> handled B U T p \<longleftrightarrow> q = p \<or> inside q p" for q using p(1) by (auto simp: handled_def)
  have gone: "T q = None" if "inside q p" for q using missing_below [of env B U T T p, OF m _ bu(6) c that] by simp
  have nl: "\<not> leaf B U T p" using bu by (simp add: leaf_def blob_at_def)
  let ?V = "\<lambda>q st. if st = NONE \<and> inside q p then None else V q st"
  let ?wt = "\<lambda>q. if path_starts_with q p then None else wt q"
  have "wt p = Some WDir" using betweenD(4) [OF bt c bu(2,4)] p(2) by simp
  then have "does (on_wt (repo_rmdir_all p)) (?V, wt) (?V, ?wt)" by (intro does_wt) (simp add: repo_rmdir_all_def remove_dir_all_def)
  then have d: "does (st_bind (m_remove_directory p) (\<lambda>_. on_wt (repo_rmdir_all p))) (V, wt) (?V, ?wt)"
    by (rule does_bind [OF step_remove_directory [OF c]])
  have m_eq: "merge_entries env (B p) (U p) (T p) = st_bind (m_remove_directory p) (\<lambda>_. on_wt (repo_rmdir_all p))"
    using dir_diffs(2) [of b] dir_diffs(3) [of u b] bu b u by (simp add: merge_entries_def merge_entry_def)
  have "between env B U T (handled B U T p \<union> D) (?V, ?wt)"
    unfolding between_def split_conv
  proof (intro conjI allI impI)
    fix q
    have sw: "path_starts_with q p \<longleftrightarrow> q = p \<or> inside q p" by (auto simp: inside_def path_starts_with_def)
    have below: "merged_view env B U T q = merged_stage None" "merged_file env B U T q = None" if "inside q p"
      using gone [OF that] same that
      by (auto simp: merged_view_def merged_file_def blob_at_def merge3_def merge3_file_def Let_def split: option.splits)
    show "?V q = (if q \<in> handled B U T p \<union> D then merged_view env B U T q else tree_view U q)"
    proof (cases "inside q p")
      case True
      have "V q st = None" if "st \<noteq> NONE" for st
        using betweenD(1) [OF bt, of q] below(1) [OF True] that by (simp add: tree_view_def merged_stage_def)
      then show ?thesis using True below(1) [OF True] by (auto simp: h merged_stage_def fun_eq_iff)
    next
      case False
      then show ?thesis using betweenD(1) [OF bt, of q] not_leaf_view [OF nl, of env] by (auto simp: h)
    qed
    show "?wt q = (if q \<in> handled B U T p \<union> D then merged_file env B U T q else tree_files env U q)" if "leaf B U T q"
      using betweenD(2) [OF bt that] below(2) nl that by (auto simp: h sw)
    show "?wt q = (if q \<in> handled B U T p \<union> D then Some WDir else None)" if "new_dir B U T q"
      using betweenD(3) [OF bt that] gone that bu by (auto simp: h sw new_dir_def)
    show "?wt q = Some WDir" if "clean_path q \<and> (\<exists>t. U q = Some t \<and> ie_is_tree t) \<and> (T q \<noteq> None \<or> q \<notin> handled B U T p \<union> D)"
      using betweenD(4) [OF bt, of q] gone that bu by (auto simp: h sw)
    show "leaf B U T q" if "wt_is_file ?wt q"
      using betweenD(5) [OF bt, of q] that by (auto simp: wt_is_file_def split: if_splits)
  qed
  then show ?thesis unfolding m_eq using d by blast
qed

lemma base_dir_row:
  assumes m: "mergeable env B U T" and bt: "between env B U T D (V, wt)"
    and b: "B p = Some b" "ie_is_tree b" "U p = None" "T p = None"
  shows "does (merge_entries env (B p) (U p) (T p)) (V, wt) (V, wt)"
proof -
  have bp: "ie_path b = p" "repo_path p" "is_known (ie_oid b)" using dir_facts [of env B U T B p, OF m _ b(1,2)] by simp_all
  have c: "clean_path p" using missing_clean [of env B U T T p, OF m _ b(4) bp(2)] by simp
  have "V q st = None" if "inside q p" for q st
  proof -
    have "T q = None" "U q = None" using missing_below [OF m _ _ c that] b(3,4) by simp_all
    then show ?thesis
      using betweenD(1) [OF bt, of q] by (auto simp: merged_view_def tree_view_def blob_at_def merge3_def merged_stage_def Let_def)
  qed
  then have "(\<lambda>q st. if st = NONE \<and> inside q p then None else V q st) = V" by (auto simp: fun_eq_iff)
  then have "does (m_remove_directory p) (V, wt) (V, wt)" using step_remove_directory [OF c, of V wt] by simp
  then show ?thesis using dir_diffs(2) [of b] b bp by (simp add: merge_entries_def merge_entry_def)
qed

lemma quiet_dir_row:
  assumes m: "mergeable env B U T" and X: "X \<in> {B, U, T}" "X p = Some e" "ie_is_tree e"
    and no: "\<not> new_dir B U T p" "\<not> removes B U T p" "U p \<noteq> None \<or> T p \<noteq> None"
  shows "merge_entries env (B p) (U p) (T p) = st_return ()"
proof -
  have d: "ie_is_tree d \<and> ie_path d = p \<and> is_known (ie_oid d)" if "Y \<in> {B, U, T}" "Y p = Some d" for Y d
    using kinds_agree [OF m X(1) that(1) X(2) that(2)] X(3) dir_facts [OF m that] by simp
  note diffs = merge_entries_def merge_entry_def base_to_ours_only_def diff_base_to_other_def [of None None] dir_diffs
  show ?thesis
    using d [of B] d [of U] d [of T] no
    by (cases "B p"; cases "U p"; cases "T p") (simp_all add: diffs new_dir_def removes_def)
qed

lemma dir_row:
  assumes m: "mergeable env B U T" and bt: "between env B U T D (V, wt)" and X: "X \<in> {B, U, T}" "X p = Some e"
    and p: "\<not> leaf B U T p" "p \<notin> D"
    and dirs: "\<forall>q. new_dir B U T q \<and> inside p q \<longrightarrow> q \<in> D" and same: "removes B U T p \<longrightarrow> (\<forall>q. inside q p \<longrightarrow> B q = U q)"
  shows "\<exists>b. does (merge_entries env (B p) (U p) (T p)) (V, wt) b \<and> between env B U T (handled B U T p \<union> D) b"
proof -
  have e: "ie_is_tree e" using X p(1) by (auto simp: leaf_def blob_at_def split: if_splits)
  have h: "handled B U T p \<union> D = insert p D" if "\<not> removes B U T p" using that by (auto simp: handled_def)
  consider "removes B U T p" | "new_dir B U T p" "\<not> removes B U T p"
    | "\<not> removes B U T p" "\<not> new_dir B U T p" "U p \<noteq> None \<or> T p \<noteq> None" | "\<not> removes B U T p" "\<not> new_dir B U T p" "U p = None" "T p = None" by blast
  then show ?thesis
  proof cases
    case 1
    then show ?thesis using removed_row [OF m bt] p(2) same by blast
  next
    case 2
    then show ?thesis using new_dir_row [OF m bt _ p(2) dirs] h by simp
  next
    case 3
    then show ?thesis using quiet_dir_row [OF m X e] between_stay [OF bt p(1)] does_return h by metis
  next
    case 4
    then have "B p = Some e" using X by auto
    then show ?thesis using base_dir_row [OF m bt _ e] between_stay [OF bt p(1)] h 4 by metis
  qed
qed

section \<open>All rows\<close>

lemma inside_less:
  assumes "repo_path p" "repo_path q" "inside p q"
  shows "q < p"
proof -
  have pre: "prefix (parts q) (parts p)" and ne: "p \<noteq> q" using assms by (simp_all add: inside_def starts_with_parts)
  have path: "path_bytes r = join_on b_slash (parts r)" for r by (auto simp: parts_def path_of_segments [symmetric])
  obtain zs where zs: "parts p = parts q @ zs" "zs \<noteq> []" using pre ne parts_inject by (metis append_Nil2 prefix_def)
  have "\<exists>ys. path_bytes p = path_bytes q @ ys" using zs path [of p] path [of q] by (cases "parts q = []") (simp_all add: join_on_append)
  then obtain ys where "path_bytes p = path_bytes q @ ys" by blast
  moreover have "path_bytes p \<noteq> path_bytes q" using ne bit_path.expand by blast
  ultimately show ?thesis by (simp add: bit_path_less slice_cmp_append_right)
qed

lemma entry_repo_path:
  assumes "mergeable env B U T" "X \<in> {B, U, T}" "X p = Some e"
  shows "repo_path p"
proof -
  have "tree_map_ok env X" using assms(1,2) by (auto simp: mergeable_def)
  then have "repo_path p \<or> file_ok env p e" using assms(3) unfolding tree_map_ok_def by metis
  then show ?thesis by (auto simp: file_ok_def repo_path_def)
qed

lemma removes_step_over: "removes B U T p \<Longrightarrow> step_over_row [B p, U p, T p]"
  by (auto simp: removes_def step_over_row_def row_entries_def List.map_filter_def)

lemma row_step:
  assumes m: "mergeable env B U T" "merge_laws env" and bt: "between env B U T D a" and X: "X \<in> {B, U, T}" "X p = Some e" "p \<notin> D"
    and dirs: "\<forall>q. new_dir B U T q \<and> inside p q \<longrightarrow> q \<in> D" and same: "removes B U T p \<longrightarrow> (\<forall>q. inside q p \<longrightarrow> B q = U q)"
  shows "\<exists>b. does (merge_entries env (B p) (U p) (T p)) a b \<and> between env B U T (handled B U T p \<union> D) b"
proof -
  obtain V wt where a: "a = (V, wt)" by (cases a)
  show ?thesis
  proof (cases "leaf B U T p")
    case True
    have "blob_at U p = U p" using leaf_entries(1) [OF m(1) True] by simp
    then have "\<not> removes B U T p" by (auto simp: removes_def blob_at_def split: if_splits)
    then have "handled B U T p \<union> D = insert p D" by (auto simp: handled_def)
    then show ?thesis using leaf_row [OF m bt [unfolded a] True X(3) dirs] a by simp
  next
    case False
    then show ?thesis using dir_row [OF m(1) bt [unfolded a] X(1,2) False X(3) dirs same] a by simp
  qed
qed

definition row_of :: "tree_map \<Rightarrow> tree_map \<Rightarrow> tree_map \<Rightarrow> row \<Rightarrow> bool" where
  "row_of B U T r \<longleftrightarrow> r = [B (row_path r), U (row_path r), T (row_path r)] \<and> (\<exists>X \<in> {B, U, T}. X (row_path r) \<noteq> None)"

lemma for_rows_Cons: "for_rows f (r # rs) = st_bind (f r) (\<lambda>_. for_rows f rs)"
  by (auto simp: fun_eq_iff st_bind_def split: prod.splits sum.splits)

lemma rows_merge:
  assumes m: "mergeable env B U T" "merge_laws env" and same: "\<forall>p. removes B U T p \<longrightarrow> (\<forall>q. inside q p \<longrightarrow> B q = U q)"
  shows "sorted_wrt row_before rows \<Longrightarrow> \<forall>r \<in> set rows. row_of B U T r \<Longrightarrow> between env B U T D a \<Longrightarrow> \<forall>r \<in> set rows. row_path r \<notin> D
    \<Longrightarrow> \<forall>r \<in> set rows. \<forall>q. new_dir B U T q \<and> inside (row_path r) q \<longrightarrow> q \<in> D \<union> row_path ` set rows
    \<Longrightarrow> \<exists>b. does (for_rows (merge_row env) rows) a b \<and> between env B U T ((\<Union>r \<in> set rows. handled B U T (row_path r)) \<union> D) b"
proof (induction rows arbitrary: D a)
  case Nil
  have "for_rows (merge_row env) [] = st_return ()" by (simp add: fun_eq_iff st_return_def)
  then have "does (for_rows (merge_row env) []) a a" using does_return by simp
  moreover have "(\<Union>r \<in> set []. handled B U T (row_path r)) \<union> D = D" by simp
  ultimately show ?case using Nil(3) by metis
next
  case (Cons r rs)
  let ?p = "row_path r" and ?D = "handled B U T (row_path r) \<union> D"
  have r: "r = [B ?p, U ?p, T ?p]" using Cons.prems(2) by (simp add: row_of_def)
  obtain X e where X: "X \<in> {B, U, T}" "X ?p = Some e" using Cons.prems(2) by (auto simp: row_of_def)
  have later: "?p < row_path r'" "step_over_row r \<Longrightarrow> \<not> path_starts_with (row_path r') ?p" if "r' \<in> set rs" for r'
    using Cons.prems(1) that by (auto simp: row_before_def)
  have "q \<in> D" if q: "new_dir B U T q" "inside ?p q" for q
  proof -
    have "repo_path q" using q(1) entry_repo_path [of env B U T T q] m(1) by (auto simp: new_dir_def)
    then have "q < ?p" using inside_less [OF entry_repo_path [OF m(1) X]] q(2) by blast
    moreover have "q \<in> D \<union> row_path ` set (r # rs)" using Cons.prems(5) q by (meson list.set_intros(1))
    ultimately show ?thesis using later(1) by (auto dest: less_asym)
  qed
  then obtain b where b: "does (merge_entries env (B ?p) (U ?p) (T ?p)) a b" "between env B U T ?D b"
    using row_step [OF m Cons.prems(3) X] Cons.prems(4) same by auto
  have row: "merge_row env r = merge_entries env (B ?p) (U ?p) (T ?p)" by (subst r) (simp add: merge_row_def)
  have out: "\<forall>r' \<in> set rs. row_path r' \<notin> ?D"
  proof
    fix r' assume r': "r' \<in> set rs"
    have "\<not> inside (row_path r') ?p" if "removes B U T ?p"
      using later(2) [OF r'] removes_step_over [OF that] r by (simp add: inside_def)
    then show "row_path r' \<notin> ?D" using Cons.prems(4) r' later(1) [OF r'] by (auto simp: handled_def)
  qed
  have dirs: "\<forall>r' \<in> set rs. \<forall>q. new_dir B U T q \<and> inside (row_path r') q \<longrightarrow> q \<in> ?D \<union> row_path ` set rs"
  proof (intro ballI allI impI)
    fix r' q assume "r' \<in> set rs" "new_dir B U T q \<and> inside (row_path r') q"
    then have "q \<in> D \<union> row_path ` set (r # rs)" using Cons.prems(5) by (meson list.set_intros(2))
    then show "q \<in> ?D \<union> row_path ` set rs" by (auto simp: handled_def)
  qed
  have "sorted_wrt row_before rs" "\<forall>r \<in> set rs. row_of B U T r" using Cons.prems(1,2) by simp_all
  from Cons.IH [OF this b(2) out dirs] obtain c where
    c: "does (for_rows (merge_row env) rs) b c" "between env B U T ((\<Union>r \<in> set rs. handled B U T (row_path r)) \<union> ?D) c" by blast
  have "does (for_rows (merge_row env) (r # rs)) a c" unfolding for_rows_Cons row by (rule does_bind [OF b(1) c(1)])
  moreover have "(\<Union>r \<in> set rs. handled B U T (row_path r)) \<union> ?D = (\<Union>r \<in> set (r # rs). handled B U T (row_path r)) \<union> D" by auto
  ultimately show ?case using c(2) by metis
qed

section \<open>What is left out\<close>

definition covers :: "tree_map \<Rightarrow> tree_map \<Rightarrow> tree_map \<Rightarrow> row list \<Rightarrow> bool" where
  "covers B U T rows \<longleftrightarrow> (\<forall>q. q \<in> row_path ` set rows \<or> (B q = None \<and> U q = None \<and> T q = None)
     \<or> (\<exists>r \<in> set rows. row_of B U T r \<and> step_over_row r \<and> inside q (row_path r)
          \<and> (\<exists>v. \<forall>X \<in> {B, U, T}. X q = (if X (row_path r) = None then None else v))))"

lemma step_over_three:
  assumes "step_over_row [b, u, t]"
  shows "b \<noteq> None \<and> u \<noteq> None \<or> b \<noteq> None \<and> t \<noteq> None \<or> u \<noteq> None \<and> t \<noteq> None"
  using assms by (cases b; cases u; cases t) (auto simp: step_over_row_def row_entries_def List.map_filter_def split: if_splits)

lemma step_over_removes:
  assumes "step_over_row [B p, U p, T p]" "T p = None"
  shows "removes B U T p"
proof -
  obtain b u where bu: "B p = Some b" "U p = Some u" using step_over_three [OF assms(1)] assms(2) by auto
  then show ?thesis using step_over_same [OF assms(1), of b u] assms(2) by (auto simp: removes_def)
qed

lemma same_change_merge:
  assumes "merge_laws env" "file_ok env q x"
  shows "merge3 env None (Some x) (Some x) = merged_stage (Some (ie_oid x))" "merge3_file env None (Some x) (Some x) = Some (obj_bytes env x)"
proof -
  have "me_merge env [] (obj_bytes env x) (obj_bytes env x) = Inr (obj_bytes env x)" using assms(1) by (simp add: merge_laws_def)
  moreover have "blob_oid env (obj_bytes env x) = ie_oid x" using assms file_ok_read [OF assms(2)] by (simp add: merge_laws_def blob_oid_def)
  ultimately show "merge3 env None (Some x) (Some x) = merged_stage (Some (ie_oid x))" "merge3_file env None (Some x) (Some x) = Some (obj_bytes env x)"
    by (simp_all add: merge3_def merge3_file_def changed_file_def over_ours_def)
qed

lemma left_out:
  assumes m: "mergeable env B U T" "merge_laws env" and c: "covers B U T rows" and q: "q \<notin> (\<Union>r \<in> set rows. handled B U T (row_path r))"
  shows "merged_view env B U T q = tree_view U q" "leaf B U T q \<Longrightarrow> merged_file env B U T q = tree_files env U q"
proof -
  have eq: "merged_view env B U T q = tree_view U q \<and> (leaf B U T q \<longrightarrow> merged_file env B U T q = tree_files env U q)"
  proof (cases "B q = None \<and> U q = None \<and> T q = None")
    case True
    then have "\<not> leaf B U T q" by (simp add: leaf_def blob_at_def)
    then show ?thesis using not_leaf_view by blast
  next
    case False
    have "q \<notin> row_path ` set rows" using q by (auto simp: handled_def)
    then obtain r v where r: "r \<in> set rows" "row_of B U T r" "step_over_row r" "inside q (row_path r)"
        "\<forall>X \<in> {B, U, T}. X q = (if X (row_path r) = None then None else v)"
      using c False unfolding covers_def by blast
    let ?p = "row_path r"
    have over: "step_over_row [B ?p, U ?p, T ?p]" using r(2,3) by (metis row_of_def)
    have "\<not> removes B U T ?p" using q r(1,4) by (auto simp: handled_def)
    then have t: "T ?p \<noteq> None" "B ?p \<noteq> None \<or> U ?p \<noteq> None" using step_over_removes [of B ?p U T, OF over] step_over_three [OF over] by auto
    have lf: "leaf B U T q \<longrightarrow> q \<noteq> BitPath []" using leaf_clean [OF m(1), of q] clean_last [of q] by auto
    show ?thesis
    proof (cases "leaf B U T q")
      case False
      then show ?thesis using not_leaf_view by blast
    next
      case leaf: True
      have b: "blob_at B q = B q" "blob_at U q = U q" "blob_at T q = T q" using leaf_entries(1) [OF m(1) leaf] by simp_all
      have ok: "file_ok env q e" if "U q = Some e" for e using leaf_entries(2) [OF m(1) leaf, of U] that by simp
      have Tq: "T q = v" using r(5) t(1) by simp
      have fu: "tree_files env U q = map_option (\<lambda>e. WFile (obj_bytes env e)) (U q)"
        using b(2) lf leaf by (cases "U q") (auto simp: tree_files_def blob_at_def split: if_splits)
      show ?thesis
      proof (cases "B ?p")
        case None
        then have "U q = v" "B q = None" using r(5) t(2) by auto
        then show ?thesis
          using same_change_merge [OF m(2) ok] b Tq fu by (cases v) (auto simp: merged_view_def tree_view_def merged_file_def merge3_def merge3_file_def)
      next
        case (Some x)
        then have "B q = v" using r(5) by simp
        then show ?thesis
          using b Tq fu by (cases "U q") (auto simp: merged_view_def tree_view_def merged_file_def merge3_def merge3_file_def)
      qed
    qed
  qed
  then show "merged_view env B U T q = tree_view U q" "leaf B U T q \<Longrightarrow> merged_file env B U T q = tree_files env U q" by blast+
qed

lemma new_dirs_have_rows:
  assumes "covers B U T rows" "new_dir B U T q"
  shows "q \<in> row_path ` set rows"
proof (rule ccontr)
  assume "q \<notin> row_path ` set rows"
  then obtain r v where r: "row_of B U T r" "step_over_row r" "\<forall>X \<in> {B, U, T}. X q = (if X (row_path r) = None then None else v)"
    using assms unfolding covers_def new_dir_def by (metis option.distinct(1))
  have "step_over_row [B (row_path r), U (row_path r), T (row_path r)]" using r(1,2) by (metis row_of_def)
  from step_over_three [OF this] show False using r(3) assms(2) by (auto simp: new_dir_def split: if_splits)
qed

lemma between_start: "between env B U T {} (tree_view U, tree_files env U)"
proof -
  have "clean_path q \<Longrightarrow> q \<noteq> BitPath []" for q using clean_last [of q] by auto
  then show ?thesis
    by (auto simp: between_def tree_files_def new_dir_def leaf_def blob_at_def wt_is_file_def split: option.splits if_splits)
qed

lemma all_rows_merge:
  assumes m: "mergeable env B U T" "merge_laws env" and same: "\<forall>p. removes B U T p \<longrightarrow> (\<forall>q. inside q p \<longrightarrow> B q = U q)"
    and rows: "sorted_wrt row_before rows" "\<forall>r \<in> set rows. row_of B U T r" "covers B U T rows"
  shows "\<exists>wt. does (for_rows (merge_row env) rows) (tree_view U, tree_files env U) (merged_view env B U T, wt)
    \<and> (\<forall>q. leaf B U T q \<longrightarrow> wt q = merged_file env B U T q)"
proof -
  let ?D = "\<Union>r \<in> set rows. handled B U T (row_path r)"
  obtain V wt where b: "does (for_rows (merge_row env) rows) (tree_view U, tree_files env U) (V, wt)" "between env B U T ?D (V, wt)"
    using rows_merge [OF m same rows(1,2) between_start] new_dirs_have_rows [OF rows(3)] by auto
  have "V q = merged_view env B U T q" for q
    using betweenD(1) [OF b(2), of q] left_out(1) [OF m rows(3), of q] by auto
  moreover have "wt q = merged_file env B U T q" if "leaf B U T q" for q
    using betweenD(2) [OF b(2) that] left_out(2) [OF m rows(3) _ that] by auto
  moreover have "V = merged_view env B U T" using calculation(1) by blast
  ultimately show ?thesis using b(1) by blast
qed

section \<open>Tree objects\<close>

lemma below_node:
  assumes "forest_ok F" "sorted_paths F" "\<forall>y \<in> set (flat F). repo_path (ie_path y)" "n \<in> set (nodes F)" "x \<in> set (flat F)"
    and "inside (ie_path x) (ie_path (entry n))"
  shows "x \<in> set (flat (subnodes n))"
  using assms
proof (induction F rule: nodes.induct)
  case (2 e cs F)
  have n_in: "entry n \<in> set (flat G)" if "n \<in> set (nodes G)" for G using that flat_nodes [of G] by blast
  have sw: "path_starts_with (ie_path x) (ie_path (entry n))" and ne: "ie_path x \<noteq> ie_path (entry n)" using "2.prems"(6) by (auto simp: inside_def)
  have en: "entry n \<in> set (flat (Node e cs # F))" using n_in "2.prems"(4) by blast
  have repo: "repo_path (ie_path e)" "repo_path (ie_path x)" "repo_path (ie_path (entry n))" using "2.prems"(3,5) en by auto
  have srt: "sorted_paths cs" "sorted_paths F" using "2.prems"(2) by (auto simp: sorted_paths_def sorted_wrt_append)
  have after: "ie_path e < ie_path y" if "y \<in> set (flat F)" for y using "2.prems"(2) that by (auto simp: sorted_paths_def)
  consider "n = Node e cs" | "n \<in> set (nodes cs)" | "n \<in> set (nodes F)" using "2.prems"(4) by auto
  then show ?case
  proof cases
    case 1
    then show ?thesis using "2.prems"(1,5) sw ne by auto
  next
    case 2
    then have ne': "path_starts_with (ie_path (entry n)) (ie_path e)" using n_in "2.prems"(1) by auto
    have "x \<noteq> e"
    proof
      assume "x = e"
      then have "prefix (parts (ie_path (entry n))) (parts (ie_path x))" "prefix (parts (ie_path x)) (parts (ie_path (entry n)))"
        using sw ne' repo by (simp_all add: starts_with_parts)
      then show False using ne parts_inject prefix_order.order_antisym by metis
    qed
    moreover have "x \<notin> set (flat F)" using starts_with_trans [OF sw ne'] "2.prems"(1) by auto
    ultimately show ?thesis using "2.IH"(1) "2.prems" srt 2 by simp
  next
    case 3
    have nl: "ie_path e < ie_path (entry n)" "\<not> path_starts_with (ie_path (entry n)) (ie_path e)" using n_in [OF 3] after "2.prems"(1) by auto
    have nb: "\<not> path_starts_with (ie_path e) (ie_path (entry n))"
      using inside_less [OF repo(1,3)] nl(1) unfolding inside_def by (metis less_asym less_irrefl)
    have "x \<notin> set (flat cs)"
    proof
      assume "x \<in> set (flat cs)"
      then have "path_starts_with (ie_path x) (ie_path e)" using "2.prems"(1) by simp
      then show False using prefix_same_cases [of "parts (ie_path e)" "parts (ie_path x)" "parts (ie_path (entry n))"] sw repo nl(2) nb
        by (simp add: starts_with_parts)
    qed
    moreover have "x \<noteq> e" using nb sw by blast
    ultimately show ?thesis using "2.IH"(2) "2.prems" srt 3 by simp
  qed
qed simp

lemma lookup_sorted:
  assumes "sorted_paths F"
  shows "lookup F q = Some e \<longleftrightarrow> e \<in> set (flat F) \<and> ie_path e = q"
proof
  assume e: "e \<in> set (flat F) \<and> ie_path e = q"
  have d: "distinct (map ie_path (flat F))" using assms unfolding sorted_paths_def by (simp add: strict_sorted_iff)
  have "lookup F q \<noteq> None" using e by (auto simp: lookup_iff paths_of_def)
  then obtain f where f: "lookup F q = Some f" by blast
  then have "f = e" using lookup_Some [OF f] e d by (auto simp: distinct_map inj_on_def)
  then show "lookup F q = Some e" using f by simp
qed (use lookup_Some in blast)

text \<open>A tree of the object database that can be read to its leaves, files and all.\<close>

definition tree_read :: "merge_env \<Rightarrow> (oid \<Rightarrow> tree_entry list bit_result) \<Rightarrow> oid \<Rightarrow> node \<Rightarrow> bool" where
  "tree_read env treeish o' n \<longleftrightarrow> unfolds treeish (root_entry o') n \<and> sorted_paths [n]
     \<and> (\<forall>e \<in> set (flat [n]). ie_is_tree e \<or> is_known (ie_oid e) \<and> (\<exists>bs. me_read_obj env (ie_oid e) = Inr (ObjBlob bs)))"

lemma tree_read_below:
  assumes "tree_read env treeish o' n" "names_ok treeish"
  shows "below_path (BitPath []) [n]" "entry n = entry_from_tree_entry (root_entry o')" "forest_ok [n]" "sorted_paths [n]"
    "\<forall>y \<in> set (flat [n]). repo_path (ie_path y)"
proof -
  have "unfolds treeish (root_entry o') n" using assms(1) by (simp add: tree_read_def)
  from unfolds_below [OF this assms(2)]
  have b: "entry n = entry_from_tree_entry (root_entry o')" "below_path (BitPath []) [n]" by (simp_all add: root_entry_def repo_path_def)
  then show "below_path (BitPath []) [n]" "entry n = entry_from_tree_entry (root_entry o')" "forest_ok [n]" "sorted_paths [n]"
    "\<forall>y \<in> set (flat [n]). repo_path (ie_path y)"
    using assms(1) by (simp_all add: below_path_def tree_read_def)
qed

lemma subnodes_flat: "m \<in> set (nodes F) \<Longrightarrow> x \<in> set (flat (subnodes m)) \<Longrightarrow> x \<in> set (flat F)"
  by (induction F rule: nodes.induct) auto

lemma nodes_forest_ok: "forest_ok F \<Longrightarrow> m \<in> set (nodes F) \<Longrightarrow> ie_is_tree (entry m) \<or> subnodes m = []"
  by (induction F rule: nodes.induct) auto

lemma forest_no_links: "forest_ok F \<Longrightarrow> y \<in> set (flat F) \<Longrightarrow> ie_mode y \<noteq> GITLINK"
  by (induction F rule: nodes.induct) auto

lemma tree_read_map:
  assumes t: "tree_read env treeish o' n" "names_ok treeish"
  shows "tree_map_ok env (lookup [n])"
proof -
  note b = tree_read_below [OF t]
  have un: "unfolds treeish (root_entry o') n" using t(1) by (simp add: tree_read_def)
  have 1: "ie_path e = q \<and> (if ie_is_tree e then repo_path q \<and> is_known (ie_oid e) else file_ok env q e)" if "lookup [n] q = Some e" for q e
  proof -
    have e: "e \<in> set (flat [n])" "ie_path e = q" using lookup_Some [OF that] by auto
    obtain te where te: "e = entry_from_tree_entry te" "te_mode te = TREE \<longrightarrow> is_known (te_oid te)" using unfolds_known [OF un e(1)] by blast
    have root: "ie_path (entry n) = BitPath []" "ie_is_tree (entry n)" using b(2) by (simp_all add: entry_from_tree_entry_def root_entry_def ie_is_tree_def)
    show ?thesis
    proof (cases "ie_is_tree e")
      case True
      then show ?thesis using e b(5) te tree_mode [OF True] by (auto simp: entry_from_tree_entry_def)
    next
      case False
      have "path_bytes q \<noteq> []"
      proof
        assume "path_bytes q = []"
        then have "ie_path e = ie_path (entry n)" using e(2) root(1) by (metis bit_path.collapse)
        moreover have "lookup [n] (ie_path (entry n)) = Some (entry n)" by (cases n) (simp add: lookup_Cons)
        ultimately have "e = entry n" using that e(2) by simp
        then show False using root(2) False by simp
      qed
      then have "clean_path q" using e b(5) by (auto simp: repo_path_def)
      moreover have "is_known (ie_oid e)" "\<exists>bs. me_read_obj env (ie_oid e) = Inr (ObjBlob bs)"
        using t(1) e(1) False by (auto simp: tree_read_def)
      moreover have "ie_is_blob e \<and> entry_stage e = NONE"
        using False te forest_no_links [OF b(3) e(1)]
        by (cases "te_mode te") (simp_all add: ie_is_tree_def ie_is_blob_def entry_from_tree_entry_def entry_stage_def with_path_len_fields)
      ultimately show ?thesis using False e(2) by (simp add: file_ok_def)
    qed
  qed
  moreover have "\<exists>t. lookup [n] p = Some t \<and> ie_is_tree t" if q: "lookup [n] q = Some e" "clean_path p" "inside q p" for q p e
  proof -
    have e: "e \<in> set (flat [n])" "ie_path e = q" using lookup_Some [OF q(1)] by auto
    have rp: "repo_path p" "repo_path q" "parts p \<noteq> []" using q(2) e b(5) clean_last [OF q(2)] by (auto simp: repo_path_def parts_def)
    then have "p \<in> ie_path ` set (flat [n])"
      using b(1) e q(3) unfolding below_path_def by (auto simp: inside_def starts_with_parts parts_def strict_prefix_def)
    then obtain m where m: "m \<in> set (nodes [n])" "ie_path (entry m) = p" using flat_nodes [of "[n]"] by auto
    have "e \<in> set (flat (subnodes m))" using below_node [OF b(3-5) m(1) e(1)] q(3) e(2) m(2) by simp
    then have "ie_is_tree (entry m)" using nodes_forest_ok [OF b(3) m(1)] by auto
    moreover have "lookup [n] p = Some (entry m)" using lookup_sorted [OF b(4)] m flat_nodes [of "[n]"] by auto
    ultimately show ?thesis by blast
  qed
  moreover have "lookup [n] (BitPath []) \<noteq> None"
    using b(2) by (cases n) (simp add: lookup_Cons entry_from_tree_entry_def root_entry_def)
  ultimately show ?thesis unfolding tree_map_ok_def by blast
qed

text \<open>Directories that are the same object have the same entries.\<close>

lemma shared_below:
  assumes "names_ok treeish" and a: "tree_read env treeish a A" and b: "tree_read env treeish b B"
    and p: "lookup [A] p = Some d" "lookup [B] p = Some e" "ie_is_tree d" "ie_is_tree e" "ie_oid d = ie_oid e" and q: "inside q p"
  shows "lookup [A] q = lookup [B] q"
proof -
  note A = tree_read_below [OF a assms(1)] and B = tree_read_below [OF b assms(1)]
  have un: "unfolds treeish (root_entry a) A" "unfolds treeish (root_entry b) B" using a b by (simp_all add: tree_read_def)
  have c: "comparable [A] [B]" using unfolds_comparable [OF assms(1) un _ _ A(4) B(4)] by (simp add: root_entry_def repo_path_def)
  obtain n m where n: "n \<in> set (nodes [A])" "d = entry n" and m: "m \<in> set (nodes [B])" "e = entry m"
    using lookup_Some [OF p(1)] lookup_Some [OF p(2)] flat_nodes [of "[A]"] flat_nodes [of "[B]"] by auto
  obtain t u where t: "d = entry_from_tree_entry t" "te_mode t = TREE \<longrightarrow> is_known (te_oid t)" and u: "e = entry_from_tree_entry u"
    using unfolds_known [OF un(1), of d] unfolds_known [OF un(2), of e] lookup_Some [OF p(1)] lookup_Some [OF p(2)] by blast
  have "t = u"
    using t u tree_mode [OF p(3)] tree_mode [OF p(4)] p(5) lookup_Some [OF p(1)] lookup_Some [OF p(2)] by (simp add: entry_from_tree_entry_def)
  then have "d = e" "is_known (ie_oid d)" using t u tree_mode [OF p(3)] by (simp_all add: entry_from_tree_entry_def)
  then have nm: "n = m" using c n m unfolding comparable_def agree_def by metis
  have np: "ie_path (entry n) = p" using lookup_Some [OF p(1)] n(2) by simp
  have sub: "set (flat (subnodes n)) \<subseteq> set (flat [A])" "set (flat (subnodes n)) \<subseteq> set (flat [B])"
    using n(1) m(1) nm by (auto dest: subnodes_flat)
  have "lookup [A] q = Some x \<longleftrightarrow> lookup [B] q = Some x" for x
    using lookup_sorted [OF A(4), of q x] lookup_sorted [OF B(4), of q x] sub below_node [OF A(3-5) n(1), of x] below_node [OF B(3-5) m(1), of x] nm np q
    by auto
  then show ?thesis by (metis option.exhaust)
qed

lemma rows_cover:
  assumes "rows_ok [[nb], [nu], [nt]] rows"
  shows "sorted_wrt row_before rows" "\<forall>r \<in> set rows. row_of (lookup [nb]) (lookup [nu]) (lookup [nt]) r"
    "covers (lookup [nb]) (lookup [nu]) (lookup [nt]) rows"
proof -
  have paths: "q \<in> all_paths [[nb], [nu], [nt]] \<longleftrightarrow> lookup [nb] q \<noteq> None \<or> lookup [nu] q \<noteq> None \<or> lookup [nt] q \<noteq> None" for q
    by (simp add: all_paths_def lookup_iff)
  show "sorted_wrt row_before rows" using assms by (simp add: rows_ok_def)
  show row: "\<forall>r \<in> set rows. row_of (lookup [nb]) (lookup [nu]) (lookup [nt]) r"
    using assms paths by (simp add: rows_ok_def row_of_def)
  show "covers (lookup [nb]) (lookup [nu]) (lookup [nt]) rows"
    unfolding covers_def
  proof (intro allI)
    fix q
    have "q \<in> row_path ` set rows \<or> q \<notin> all_paths [[nb], [nu], [nt]] \<or> (\<exists>r \<in> set rows. q \<noteq> row_path r \<and> skips [[nb], [nu], [nt]] r q)"
      using assms unfolding rows_ok_def by blast
    moreover have "\<exists>r \<in> set rows. row_of (lookup [nb]) (lookup [nu]) (lookup [nt]) r \<and> step_over_row r \<and> inside q (row_path r)
          \<and> (\<exists>v. \<forall>X \<in> {lookup [nb], lookup [nu], lookup [nt]}. X q = (if X (row_path r) = None then None else v))"
      if "r \<in> set rows" "q \<noteq> row_path r" "skips [[nb], [nu], [nt]] r q" for r
      using that row by (intro bexI [of _ r]) (auto simp: skips_def inside_def)
    ultimately show "q \<in> row_path ` set rows \<or> (lookup [nb] q = None \<and> lookup [nu] q = None \<and> lookup [nt] q = None)
       \<or> (\<exists>r \<in> set rows. row_of (lookup [nb]) (lookup [nu]) (lookup [nt]) r \<and> step_over_row r \<and> inside q (row_path r)
          \<and> (\<exists>v. \<forall>X \<in> {lookup [nb], lookup [nu], lookup [nt]}. X q = (if X (row_path r) = None then None else v)))"
      using paths by blast
  qed
qed

lemma merge_trees_does:
  assumes names: "names_ok treeish" and t: "tree_read env treeish base nb" "tree_read env treeish ours nu" "tree_read env treeish theirs nt"
    and fuel: "total_size [[nb], [nu], [nt]] < fuel" and laws: "merge_laws env"
    and ok: "path_by_path (lookup [nb]) (lookup [nu]) (lookup [nt])"
  shows "\<exists>wt. does (merge_trees fuel env treeish base ours theirs) (tree_view (lookup [nu]), tree_files env (lookup [nu]))
      (merged_view env (lookup [nb]) (lookup [nu]) (lookup [nt]), wt)
    \<and> (\<forall>q. leaf (lookup [nb]) (lookup [nu]) (lookup [nt]) q \<longrightarrow> wt q = merged_file env (lookup [nb]) (lookup [nu]) (lookup [nt]) q)"
proof -
  let ?B = "lookup [nb]" and ?U = "lookup [nu]" and ?T = "lookup [nt]"
  have m: "mergeable env ?B ?U ?T" using ok tree_read_map [OF t(1) names] tree_read_map [OF t(2) names] tree_read_map [OF t(3) names]
    by (simp add: mergeable_def)
  have same: "\<forall>p. removes ?B ?U ?T p \<longrightarrow> (\<forall>q. inside q p \<longrightarrow> ?B q = ?U q)"
    using shared_below [OF names t(1,2)] unfolding removes_def by blast
  obtain rows where r: "\<forall>f (a :: merge_ctxt). walk_for_each fuel f (boxed_trees treeish [base, ours, theirs]) a = for_rows f rows a"
      "rows_ok (map (\<lambda>n. [n]) [nb, nu, nt]) rows"
    using walk_trees_aux [of treeish "[base, ours, theirs]" "[nb, nu, nt]" fuel] names t fuel by (auto simp: tree_read_def)
  have "merge_trees fuel env treeish base ours theirs = for_rows (merge_row env) rows"
    using r(1) by (simp add: merge_trees_def merge_from_iterators_def boxed_trees_def fun_eq_iff)
  moreover have "rows_ok [[nb], [nu], [nt]] rows" using r(2) by simp
  ultimately show ?thesis using all_rows_merge [OF m laws same rows_cover] by simp
qed


text \<open>Three trees: ours changes a file, theirs adds a directory.\<close>

definition pair_check :: "(index_entry \<Rightarrow> index_entry \<Rightarrow> bool) \<Rightarrow> node list \<Rightarrow> node list \<Rightarrow> bool" where
  "pair_check P F G = list_all (\<lambda>e. list_all (\<lambda>f. ie_path e = ie_path f \<longrightarrow> P e f) (flat G)) (flat F)"

definition dir_check :: "node list \<Rightarrow> node list \<Rightarrow> node list \<Rightarrow> bool" where
  "dir_check B U T = list_all (\<lambda>t. ie_is_tree t \<and> clean_path (wt_parent (ie_path t)) \<longrightarrow> lookup U (wt_parent (ie_path t)) \<noteq> None) (flat T)"

lemma pair_checkD: "pair_check P F G \<Longrightarrow> lookup F q = Some e \<Longrightarrow> lookup G q = Some f \<Longrightarrow> P e f"
  by (auto simp: pair_check_def list_all_iff dest!: lookup_Some)

lemma path_by_path_check:
  assumes "pair_check (\<lambda>e f. ie_is_tree e = ie_is_tree f) B U" "pair_check (\<lambda>e f. ie_is_tree e = ie_is_tree f) B T"
    and "pair_check (\<lambda>e f. ie_is_tree e = ie_is_tree f) U T" "pair_check (\<lambda>e f. ie_mode e = ie_mode f) U T" "dir_check B U T"
  shows "path_by_path (lookup B) (lookup U) (lookup T)"
proof -
  have "same_kind (lookup B) (lookup U)" "same_kind (lookup B) (lookup T)" "same_kind (lookup U) (lookup T)"
    using pair_checkD [OF assms(1)] pair_checkD [OF assms(2)] pair_checkD [OF assms(3)] unfolding same_kind_def by blast+
  moreover have "lookup U (wt_parent q) \<noteq> None" if "new_dir (lookup B) (lookup U) (lookup T) q" "clean_path (wt_parent q)" for q
    using assms(5) that by (auto simp: dir_check_def new_dir_def list_all_iff dest!: lookup_Some)
  ultimately show ?thesis using pair_checkD [OF assms(4)] unfolding path_by_path_def by blast
qed

definition sample_trees :: "(oid \<times> (file_mode \<times> string \<times> oid) list) list" where
  "sample_trees = [([1], [(REG, ''f'', [7])]), ([2], [(REG, ''f'', [8])]), ([3], [(TREE, ''d'', [4]), (REG, ''f'', [7])]), ([4], [(REG, ''x'', [9])])]"

lemma sample_ok: "table_ok sample_trees [1]" "table_ok sample_trees [2]" "table_ok sample_trees [3]"
  by code_simp+

lemma content_laws: "merge_laws content_env"
  by (simp add: merge_laws_def content_env_def)

lemma content_read:
  assumes "table_ok trees x" "list_all (\<lambda>e. is_known (ie_oid e)) (flat [tree_root trees x])"
  shows "tree_read content_env (tree_store trees) x (tree_root trees x)"
  using assms unfolding tree_read_def table_ok_def tree_root_def
  by (auto intro!: unfold_tree_unfolds simp: content_env_def list_all_iff)


end
