(* ===== verification/Bit_Odb.thy ===== *)
theory Bit_Odb
  imports Bit_Lockfile Bit_Pack
begin

text \<open>
  The object database, \<^verbatim>\<open>libbit/src/odb.rs\<close>: packs and loose object files behind one interface, asked one
  after the other. Parameters are what comes from outside: the hexadecimal coder, zlib, the hash and the
  listing of a directory.
\<close>

section \<open>Model: errors\<close>

datatype odb_error =
    ObjectNotFound bit_id
  | NotFoundInPackIndex oid u64
  | AmbiguousPrefix partial_oid "oid list"
  | PackBackendWrite
  | OdbError bit_error

type_synonym 'a odb_result = "odb_error + 'a"

fun is_not_found_err :: "odb_error \<Rightarrow> bool" where
  "is_not_found_err (ObjectNotFound _) = True"
| "is_not_found_err (NotFoundInPackIndex _ _) = True"
| "is_not_found_err _ = False"

fun is_fatal :: "odb_error \<Rightarrow> bool" where
  "is_fatal (ObjectNotFound _) = False"
| "is_fatal (NotFoundInPackIndex _ _) = False"
| "is_fatal PackBackendWrite = False"
| "is_fatal _ = True"

definition odb_err :: "'a bit_result \<Rightarrow> 'a odb_result" where
  "odb_err r = (case r of Inl e \<Rightarrow> Inl (OdbError e) | Inr x \<Rightarrow> Inr x)"

definition of_pack_err :: "(pack_error + 'a) \<Rightarrow> 'a odb_result" where
  "of_pack_err r =
     (case r of Inr x \<Rightarrow> Inr x
      | Inl (ObjectNotFoundInPackIndex o' i) \<Rightarrow> Inl (NotFoundInPackIndex o' i)
      | Inl (PackError e) \<Rightarrow> Inl (OdbError e))"

section \<open>Model: what comes from outside, and the state\<close>

record odb_env =
  oe_hex :: "byte list \<Rightarrow> byte list"
  oe_unhex :: "byte list \<Rightarrow> byte list bit_result"
  oe_deflate :: "byte list \<Rightarrow> byte list list"
  oe_decode :: "byte list \<Rightarrow> byte list bit_result"
  oe_zlib :: zlib
  oe_sha1 :: "byte list \<Rightarrow> oid"
  oe_list :: "fs \<Rightarrow> byte list \<Rightarrow> byte list list"
  oe_debug :: bool
  oe_fuel :: nat
  objects_path :: "byte list"

text \<open>\<open>BitRawObj\<close>, its stream being the bytes that are still to be read.\<close>

record bit_raw_obj =
  ro_oid :: oid
  ro_type :: bit_obj_type
  ro_size :: u64
  ro_stream :: "byte list"

record odb =
  od_fs :: fs
  od_packs :: "(byte list \<times> pack) list"

type_synonym 'a odb_op = "odb \<Rightarrow> 'a odb_result \<times> odb"

definition odb_bind :: "'a odb_op \<Rightarrow> ('a \<Rightarrow> 'b odb_op) \<Rightarrow> 'b odb_op" where
  "odb_bind m f s = (case m s of (Inl e, s) \<Rightarrow> (Inl e, s) | (Inr x, s) \<Rightarrow> f x s)"

definition odb_lift :: "'a odb_result \<Rightarrow> 'a odb_op" where
  "odb_lift r s = (r, s)"

section \<open>Model: the trait\<close>

text \<open>\<open>expand_prefix\<close> and \<open>expand_id\<close>, over the \<open>prefix_candidates\<close> of a backend.\<close>

definition expand_prefix :: "(partial_oid \<Rightarrow> oid list odb_op) \<Rightarrow> partial_oid \<Rightarrow> oid odb_op" where
  "expand_prefix prefix_candidates pre =
     odb_bind (prefix_candidates pre) (\<lambda>candidates. odb_lift
       (case candidates of
          [] \<Rightarrow> Inl (ObjectNotFound (Partial pre))
        | [o'] \<Rightarrow> Inr o'
        | _ \<Rightarrow> Inl (AmbiguousPrefix pre candidates)))"

definition expand_id :: "(partial_oid \<Rightarrow> oid list odb_op) \<Rightarrow> bit_id \<Rightarrow> oid odb_op" where
  "expand_id prefix_candidates i =
     (case i of Full o' \<Rightarrow> odb_lift (Inr o') | Partial pre \<Rightarrow> expand_prefix prefix_candidates pre)"

section \<open>Model: loose objects\<close>

definition obj_path :: "odb_env \<Rightarrow> oid \<Rightarrow> byte list" where
  "obj_path env o' = (let s = oe_hex env o' in objects_path env @ b_slash # take 2 s @ b_slash # drop 2 s)"

text \<open>
  The directory of the first two digits is listed; a directory that is not there lists nothing. The digits of
  the prefix behind them select the files.
\<close>

fun select_files :: "odb_env \<Rightarrow> byte list \<Rightarrow> byte list \<Rightarrow> byte list list \<Rightarrow> oid list bit_result" where
  "select_files env dir file_prefix [] = Inr []"
| "select_files env dir file_prefix (filename # fs) =
     (if \<not> prefix file_prefix filename then select_files env dir file_prefix fs
      else if oe_debug env \<and> length filename \<noteq> 38 then Inl Panic
      else and_then (oid_from_str (oe_unhex env) (dir @ filename)) (\<lambda>o'.
           and_then (select_files env dir file_prefix fs) (\<lambda>os. Inr (o' # os))))"

definition loose_prefix_candidates :: "odb_env \<Rightarrow> partial_oid \<Rightarrow> oid list odb_op" where
  "loose_prefix_candidates env pre s =
     (let (dir, file_prefix) = partial_split pre
      in odb_lift (odb_err (select_files env dir file_prefix (oe_list env (od_fs s) (objects_path env @ b_slash # dir)))) s)"

definition locate_obj :: "odb_env \<Rightarrow> bit_id \<Rightarrow> byte list odb_op" where
  "locate_obj env i =
     odb_bind (expand_id (loose_prefix_candidates env) i) (\<lambda>o' s.
       let p = obj_path env o'
       in odb_lift (if fs_exists (od_fs s) p then Inr p else Inl (ObjectNotFound (Full o'))) s)"

text \<open>Opening the file and decoding it; reading a directory fails.\<close>

definition read_stream :: "odb_env \<Rightarrow> bit_id \<Rightarrow> byte list odb_op" where
  "read_stream env i =
     odb_bind (locate_obj env i) (\<lambda>p s.
       odb_lift (case fs_content (od_fs s) p of
           None \<Rightarrow> Inl (OdbError (Bail ''cannot read''))
         | Some c \<Rightarrow> odb_err (oe_decode env c)) s)"

definition raw_obj_from_stream :: "oid \<Rightarrow> byte list \<Rightarrow> bit_raw_obj odb_result" where
  "raw_obj_from_stream o' stream =
     odb_err (and_then (read_obj_header stream) (\<lambda>(h, rest).
       Inr \<lparr>ro_oid = o', ro_type = hdr_obj_type h, ro_size = hdr_size h, ro_stream = rest\<rparr>))"

definition loose_read_raw :: "odb_env \<Rightarrow> bit_id \<Rightarrow> bit_raw_obj odb_op" where
  "loose_read_raw env i =
     odb_bind (expand_id (loose_prefix_candidates env) i) (\<lambda>o'.
     odb_bind (read_stream env (Full o')) (\<lambda>stream. odb_lift (raw_obj_from_stream o' stream)))"

definition loose_read_header :: "odb_env \<Rightarrow> bit_id \<Rightarrow> bit_obj_header odb_op" where
  "loose_read_header env i =
     odb_bind (read_stream env i) (\<lambda>stream. odb_lift (odb_err (and_then (read_obj_header stream) (\<lambda>(h, _). Inr h))))"

text \<open>Writing: the encoder passes its output on in pieces. A file that is there already is not written again.\<close>

definition write_pieces :: "byte list list \<Rightarrow> lockfile \<Rightarrow> fs \<Rightarrow> unit bit_result \<times> lockfile \<times> fs" where
  "write_pieces ps lk s = (case write_all ps lk s of (lk, s) \<Rightarrow> (Inr (), lk, s))"

definition loose_write :: "odb_env \<Rightarrow> bit_obj_type \<Rightarrow> byte list \<Rightarrow> oid odb_op" where
  "loose_write env ty content s =
     (let (o', bs) = hash_and_serialize (oe_sha1 env) ty content;
          p = obj_path env o'
      in if fs_exists (od_fs s) p
         then (if oe_debug env
               then (case fs_content (od_fs s) p of
                       None \<Rightarrow> (Inl (OdbError (Bail ''cannot read'')), s)
                     | Some c \<Rightarrow> (case oe_decode env c of
                           Inl e \<Rightarrow> (Inl (OdbError e), s)
                         | Inr buf \<Rightarrow> if buf = bs then (Inr o', s) else (Inl (OdbError Panic), s)))
               else (Inr o', s))
         else (case with_mut p True (write_pieces (oe_deflate env bs)) (od_fs s) of
                 Inl e \<Rightarrow> (Inl (OdbError e), s)
               | Inr (r, fs) \<Rightarrow> (odb_err (and_then r (\<lambda>_. Inr o')), s\<lparr>od_fs := fs\<rparr>)))"

definition loose_exists :: "odb_env \<Rightarrow> bit_id \<Rightarrow> bool odb_op" where
  "loose_exists env i s =
     (case locate_obj env i s of
        (Inr _, s) \<Rightarrow> (Inr True, s)
      | (Inl e, s) \<Rightarrow> if is_not_found_err e then (Inr False, s) else (Inl e, s))"

section \<open>Model: packs\<close>

text \<open>
  The packs are asked in the order of the map, which is any; the macro \<open>process\<close> takes the first answer and
  goes on after an error that is not fatal.
\<close>

fun packs_process :: "'a pack_op \<Rightarrow> odb_error \<Rightarrow> (byte list \<times> pack) list \<Rightarrow> 'a odb_result \<times> (byte list \<times> pack) list" where
  "packs_process f none [] = (Inl none, [])"
| "packs_process f none ((p, pk) # ps) =
     (case f pk of
        (Inr x, pk) \<Rightarrow> (Inr x, (p, pk) # ps)
      | (Inl e, pk) \<Rightarrow>
          (case of_pack_err (Inl e :: pack_error + 'a) of
             Inl e \<Rightarrow> if is_fatal e then (Inl e, (p, pk) # ps)
                else (case packs_process f none ps of (r, ps) \<Rightarrow> (r, (p, pk) # ps))
           | Inr x \<Rightarrow> (Inr x, (p, pk) # ps)))"

definition on_packs :: "((byte list \<times> pack) list \<Rightarrow> 'a odb_result \<times> (byte list \<times> pack) list) \<Rightarrow> 'a odb_op" where
  "on_packs f s = (case f (od_packs s) of (r, ps) \<Rightarrow> (r, s\<lparr>od_packs := ps\<rparr>))"

definition on_idx :: "'a idx_op \<Rightarrow> 'a pack_op" where
  "on_idx f pk = (case f (idx_reader pk) of (r, idx) \<Rightarrow> (r, pk\<lparr>idx_reader := idx\<rparr>))"

fun packs_candidates :: "odb_env \<Rightarrow> partial_oid \<Rightarrow> (byte list \<times> pack) list \<Rightarrow> oid list odb_result \<times> (byte list \<times> pack) list" where
  "packs_candidates env pre [] = (Inr [], [])"
| "packs_candidates env pre ((p, pk) # ps) =
     (case on_idx (prefix_matches (oe_unhex env) pre) pk of
        (Inl e, pk) \<Rightarrow> (of_pack_err (Inl e), (p, pk) # ps)
      | (Inr os, pk) \<Rightarrow>
          (case packs_candidates env pre ps of (r, ps) \<Rightarrow> (and_then r (\<lambda>os'. Inr (os @ os')), (p, pk) # ps)))"

definition packed_prefix_candidates :: "odb_env \<Rightarrow> partial_oid \<Rightarrow> oid list odb_op" where
  "packed_prefix_candidates env pre = on_packs (packs_candidates env pre)"

definition read_raw_pack_obj :: "odb_env \<Rightarrow> oid \<Rightarrow> bit_pack_obj_raw odb_op" where
  "read_raw_pack_obj env o' = on_packs (packs_process (pack_read_obj_raw (oe_fuel env) (oe_zlib env) o') (ObjectNotFound (Full o')))"

definition raw_obj_from_pack :: "oid \<Rightarrow> bit_pack_obj_raw \<Rightarrow> bit_raw_obj" where
  "raw_obj_from_pack o' raw =
     \<lparr>ro_oid = o', ro_type = raw_obj_type raw, ro_size = of_nat (length (raw_bytes raw)), ro_stream = raw_bytes raw\<rparr>"

definition packed_read_raw :: "odb_env \<Rightarrow> bit_id \<Rightarrow> bit_raw_obj odb_op" where
  "packed_read_raw env i =
     odb_bind (expand_id (packed_prefix_candidates env) i) (\<lambda>o'.
     odb_bind (read_raw_pack_obj env o') (\<lambda>raw. odb_lift (Inr (raw_obj_from_pack o' raw))))"

definition packed_read_header :: "odb_env \<Rightarrow> bit_id \<Rightarrow> bit_obj_header odb_op" where
  "packed_read_header env i =
     odb_bind (expand_id (packed_prefix_candidates env) i) (\<lambda>o'.
       on_packs (packs_process (pack_read_obj_header (oe_fuel env) o') (ObjectNotFound i)))"

definition packed_write :: "oid odb_op" where
  "packed_write = odb_lift (Inl PackBackendWrite)"

fun packs_any :: "oid \<Rightarrow> (byte list \<times> pack) list \<Rightarrow> bool \<times> (byte list \<times> pack) list" where
  "packs_any o' [] = (False, [])"
| "packs_any o' ((p, pk) # ps) =
     (case on_idx (pack_obj_exists o') pk of
        (Inr True, pk) \<Rightarrow> (True, (p, pk) # ps)
      | (_, pk) \<Rightarrow> (case packs_any o' ps of (b, ps) \<Rightarrow> (b, (p, pk) # ps)))"

definition packed_exists :: "odb_env \<Rightarrow> bit_id \<Rightarrow> bool odb_op" where
  "packed_exists env i =
     odb_bind (expand_id (packed_prefix_candidates env) i) (\<lambda>o'. on_packs (\<lambda>ps. case packs_any o' ps of (b, ps) \<Rightarrow> (Inr b, ps)))"

text \<open>\<open>refresh\<close>: packs that are not known yet are opened, each with the index file beside it.\<close>

definition PACK_EXT :: "byte list" where
  "PACK_EXT = bytes_of ''pack''"

definition PACK_IDX_EXT :: "byte list" where
  "PACK_IDX_EXT = bytes_of ''idx''"

definition file_extension :: "byte list \<Rightarrow> byte list option" where
  "file_extension name = (if file_stem name = name then None else Some (drop (Suc (length (file_stem name))) name))"

definition pack_dir :: "odb_env \<Rightarrow> byte list" where
  "pack_dir env = path_push (objects_path env) (bytes_of ''pack'')"

fun open_packs :: "odb_env \<Rightarrow> fs \<Rightarrow> byte list list \<Rightarrow> (byte list \<times> pack) list \<Rightarrow> unit odb_result \<times> (byte list \<times> pack) list" where
  "open_packs env s [] ps = (Inr (), ps)"
| "open_packs env s (name # rest) ps =
     (let path = pack_dir env @ b_slash # name
      in if file_extension name \<noteq> Some PACK_EXT \<or> path \<in> fst ` set ps then open_packs env s rest ps
         else let idx = with_extension path PACK_IDX_EXT
         in if \<not> fs_exists s idx then (Inl (OdbError (Bail ''packfile is missing a corresponding index file'')), ps)
            else case (fs_content s path, fs_content s idx) of
                (Some pack_file, Some idx_file) \<Rightarrow>
                  (case pack_new pack_file idx_file of
                     Inl e \<Rightarrow> (Inl (OdbError e), ps)
                   | Inr pk \<Rightarrow> open_packs env s rest ((path, pk) # ps))
              | _ \<Rightarrow> (Inl (OdbError (Bail ''cannot read'')), ps))"

definition packed_refresh :: "odb_env \<Rightarrow> unit odb_op" where
  "packed_refresh env s = on_packs (open_packs env (od_fs s) (oe_list env (od_fs s) (pack_dir env))) s"

section \<open>Model: the whole database\<close>

text \<open>The macro \<open>backend_method\<close>, and the methods it makes.\<close>

fun backend_method :: "'a odb_op list \<Rightarrow> odb_error option \<Rightarrow> 'a odb_op" where
  "backend_method [] last_err s =
     (Inl (case last_err of Some e \<Rightarrow> e | None \<Rightarrow> OdbError (Bail ''all backends failed to execute method'')), s)"
| "backend_method (f # fs) last_err s =
     (case f s of
        (Inr x, s) \<Rightarrow> (Inr x, s)
      | (Inl e, s) \<Rightarrow> if is_fatal e then (Inl e, s) else backend_method fs (Some e) s)"

definition odb_read_header :: "odb_env \<Rightarrow> bit_id \<Rightarrow> bit_obj_header odb_op" where
  "odb_read_header env i = backend_method [packed_read_header env i, loose_read_header env i] None"

definition odb_read_raw :: "odb_env \<Rightarrow> bit_id \<Rightarrow> bit_raw_obj odb_op" where
  "odb_read_raw env i = backend_method [packed_read_raw env i, loose_read_raw env i] None"

definition odb_write :: "odb_env \<Rightarrow> bit_obj_type \<Rightarrow> byte list \<Rightarrow> oid odb_op" where
  "odb_write env ty content = backend_method [packed_write, loose_write env ty content] None"

definition odb_prefix_candidates :: "odb_env \<Rightarrow> partial_oid \<Rightarrow> oid list odb_op" where
  "odb_prefix_candidates env pre =
     odb_bind (packed_prefix_candidates env pre) (\<lambda>os.
     odb_bind (loose_prefix_candidates env pre) (\<lambda>os'. odb_lift (Inr (os @ os'))))"

definition odb_refresh :: "odb_env \<Rightarrow> unit odb_op" where
  "odb_refresh env = odb_bind (packed_refresh env) (\<lambda>_. odb_lift (Inr ()))"

definition odb_exists :: "odb_env \<Rightarrow> bit_id \<Rightarrow> bool odb_op" where
  "odb_exists env i s =
     (case packed_exists env i s of
        (Inr True, s) \<Rightarrow> (Inr True, s)
      | (_, s) \<Rightarrow> (case loose_exists env i s of (Inr b, s) \<Rightarrow> (Inr b, s) | (Inl _, s) \<Rightarrow> (Inr False, s)))"

definition odb_expand_prefix :: "odb_env \<Rightarrow> partial_oid \<Rightarrow> oid odb_op" where
  "odb_expand_prefix env = expand_prefix (odb_prefix_candidates env)"

text \<open>\<open>BitObjDb::new\<close>: no packs are known before the first refresh.\<close>

definition odb_new :: "odb_env \<Rightarrow> fs \<Rightarrow> odb odb_result" where
  "odb_new env s = (case packed_refresh env \<lparr>od_fs = s, od_packs = []\<rparr> of (Inl e, _) \<Rightarrow> Inl e | (Inr _, odb) \<Rightarrow> Inr odb)"

section \<open>The contract of a backend\<close>

text \<open>
  Every backend reads an abbreviated identifier by expanding it first; what an expansion gives then follows
  for all of them.
\<close>

lemma odb_bind_assoc: "odb_bind (odb_bind m f) g = odb_bind m (\<lambda>x. odb_bind (f x) g)"
  by (auto simp: odb_bind_def fun_eq_iff split: prod.splits sum.splits)

lemma odb_bind_lift [simp]: "odb_bind (odb_lift (Inr x)) f = f x" "odb_bind (odb_lift (Inl e)) f = odb_lift (Inl e)"
  by (simp_all add: odb_bind_def odb_lift_def fun_eq_iff)

locale obj_backend =
  fixes candidates :: "partial_oid \<Rightarrow> oid list odb_op" and read_raw :: "bit_id \<Rightarrow> 'a odb_op"
  assumes read_expanded: "read_raw i = odb_bind (expand_id candidates i) (\<lambda>o'. read_raw (Full o'))"
begin

lemma read_none:
  assumes "candidates pre s = (Inr [], s')"
  shows "read_raw (Partial pre) s = (Inl (ObjectNotFound (Partial pre)), s')"
  by (subst read_expanded) (simp add: expand_id_def expand_prefix_def odb_bind_def odb_lift_def assms)

lemma read_unique:
  assumes "candidates pre s = (Inr [o'], s')"
  shows "read_raw (Partial pre) s = read_raw (Full o') s'"
  by (subst read_expanded) (simp add: expand_id_def expand_prefix_def odb_bind_def odb_lift_def assms)

lemma read_ambiguous:
  assumes "candidates pre s = (Inr os, s')" "2 \<le> length os"
  shows "read_raw (Partial pre) s = (Inl (AmbiguousPrefix pre os), s')"
  using assms by (subst read_expanded) (cases os rule: remdups_adj.cases; simp add: expand_id_def expand_prefix_def odb_bind_def odb_lift_def)

end

interpretation loose: obj_backend "loose_prefix_candidates env" "loose_read_raw env" for env
  by unfold_locales (simp add: loose_read_raw_def expand_id_def)

interpretation packed: obj_backend "packed_prefix_candidates env" "packed_read_raw env" for env
  by unfold_locales (simp add: packed_read_raw_def expand_id_def)

section \<open>Loose objects\<close>

definition zlib_ok :: "odb_env \<Rightarrow> bool" where
  "zlib_ok env \<longleftrightarrow> (\<forall>bs. oe_decode env (concat (oe_deflate env bs)) = Inr bs)"

text \<open>Every object file holds an object with the name of the file.\<close>

definition loose_ok :: "odb_env \<Rightarrow> fs \<Rightarrow> bool" where
  "loose_ok env s \<longleftrightarrow> fs_ok s
     \<and> (\<forall>o'. oid_wf o' \<and> fs_exists s (obj_path env o') \<longrightarrow>
          (\<exists>c bs. fs_content s (obj_path env o') = Some c \<and> oe_decode env c = Inr bs \<and> oe_sha1 env bs = o'))"

definition not_packed :: "odb_env \<Rightarrow> oid \<Rightarrow> odb \<Rightarrow> bool" where
  "not_packed env o' s \<longleftrightarrow> (\<forall>(p, pk) \<in> set (od_packs s). \<exists>x i r. find_oid_crc_offset o' (idx_reader pk) = (Inl (ObjectNotFoundInPackIndex x i), r))"

lemma obj_path_inject:
  assumes "encodes_hex (oe_hex env)" "oid_wf a" "oid_wf b"
  shows "obj_path env a = obj_path env b \<longleftrightarrow> a = b"
proof
  assume eq: "obj_path env a = obj_path env b"
  have len: "length (oe_hex env x) = 40" if "oid_wf x" for x using assms(1) that by (simp add: encodes_hex_def oid_wf_def OID_SIZE_def)
  have "take 2 (oe_hex env a) = take 2 (oe_hex env b)" "drop 2 (oe_hex env a) = drop 2 (oe_hex env b)"
    using eq len [OF assms(2)] len [OF assms(3)] by (simp_all add: obj_path_def Let_def)
  then have "oe_hex env a = oe_hex env b" by (metis append_take_drop_id)
  then have "map hex_val (map hex_digit (hex_of a)) = map hex_val (map hex_digit (hex_of b))" using assms(1) by (simp add: encodes_hex_def)
  then show "a = b" by (simp only: hex_digits_ok hex_of_inject)
qed simp

lemma obj_path_not_lock:
  assumes "encodes_hex (oe_hex env)" "oid_wf a"
  shows "\<not> suffix lock_suffix (obj_path env a)"
proof
  assume "suffix lock_suffix (obj_path env a)"
  then have "last (obj_path env a) = 107" by (auto simp: suffix_def lock_suffix_def)
  moreover have "drop 2 (oe_hex env a) \<noteq> []" "set (oe_hex env a) \<subseteq> Collect is_hexdigit"
    using assms hex_digits_ok(1) [of a] by (auto simp: encodes_hex_def oid_wf_def OID_SIZE_def list_all_iff)
  ultimately have "is_hexdigit 107" using last_in_set [of "drop 2 (oe_hex env a)"] set_drop_subset [of 2 "oe_hex env a"] by (auto simp: obj_path_def Let_def)
  then show False by (simp add: is_hexdigit_def)
qed

lemma loose_write_spec:
  fixes ty content
  defines "bs \<equiv> serialize_with_headers ty content"
  assumes env: "encodes_hex (oe_hex env)" "zlib_ok env" and s: "loose_ok env (od_fs s)" "no_locks (od_fs s)"
    and o': "o' = oe_sha1 env bs" "oid_wf o'" and unique: "\<forall>c. fs_content (od_fs s) (obj_path env o') = Some c \<longrightarrow> oe_decode env c = Inr bs"
  shows "\<exists>s' c. loose_write env ty content s = (Inr o', s') \<and> od_packs s' = od_packs s \<and> loose_ok env (od_fs s') \<and> no_locks (od_fs s')
    \<and> same_elsewhere {obj_path env o'} (od_fs s) (od_fs s') \<and> fs_content (od_fs s') (obj_path env o') = Some c \<and> oe_decode env c = Inr bs"
proof -
  let ?p = "obj_path env o'" and ?fs = "od_fs s"
  have ok: "fs_ok ?fs" using s(1) by (simp add: loose_ok_def)
  have hs: "hash_and_serialize (oe_sha1 env) ty content = (o', bs)" by (simp add: hash_and_serialize_def o'(1) bs_def Let_def)
  show ?thesis
  proof (cases "fs_exists ?fs ?p")
    case True
    then obtain c where c: "fs_content ?fs ?p = Some c" "oe_decode env c = Inr bs" using s(1) o'(2) unique unfolding loose_ok_def by blast
    then have "loose_write env ty content s = (Inr o', s)" using True c by (simp add: loose_write_def hs)
    then show ?thesis using c s by (auto simp: same_elsewhere_def)
  next
    case False
    note nl = obj_path_not_lock [OF env(1) o'(2)]
    have "fs_content ?fs ?p = None" using False by (simp add: fs_exists_def fs_content_def)
    obtain lk s1 where op: "lockfile_open ?p True ?fs = Inr (lk, s1)" using open_rest [OF s(2)] False by blast
    have lp: "lock_path ?p \<noteq> ?p" using nl lock_path_suffix by metis
    let ?g = "\<lambda>_. (oe_deflate env bs, Inr ())"
    have cl: "write_pieces (oe_deflate env bs) = closure ?g" by (simp add: fun_eq_iff write_pieces_def closure_def)
    obtain fs' where fs': "with_mut ?p True (closure ?g) ?fs = Inr (Inr (), fs')" "committed_to ?fs ?p True (concat (oe_deflate env bs)) fs'"
      by (rule with_mut_outcome [OF ok lp op, of ?g]) auto
    note cs = committed_same [OF ok fs'(2)]
    have w: "loose_write env ty content s = (Inr o', s\<lparr>od_fs := fs'\<rparr>)" using False fs'(1) by (simp add: loose_write_def hs cl odb_err_def)
    have dec: "oe_decode env (concat (oe_deflate env bs)) = Inr bs" using env(2) by (simp add: zlib_ok_def)
    have other: "names fs' q = names ?fs q \<and> fs_content fs' q = fs_content ?fs q" if "q \<noteq> ?p" for q
      using cs that unfolding same_elsewhere_def by (auto simp: fs_content_def split: option.splits)
    have "loose_ok env fs'"
      unfolding loose_ok_def
    proof (intro conjI allI impI)
      show "fs_ok fs'" by (rule fs_ok_committed [OF ok fs'(2)])
      fix x assume x: "oid_wf x \<and> fs_exists fs' (obj_path env x)"
      show "\<exists>c bs. fs_content fs' (obj_path env x) = Some c \<and> oe_decode env c = Inr bs \<and> oe_sha1 env bs = x"
      proof (cases "x = o'")
        case True
        then show ?thesis using cs dec o'(1) by blast
      next
        case False
        then have "obj_path env x \<noteq> ?p" using obj_path_inject [OF env(1)] x o'(2) by blast
        then show ?thesis using other x s(1) unfolding loose_ok_def fs_exists_def by metis
      qed
    qed
    moreover have "no_locks fs'"
      unfolding no_locks_def using other s(2) nl unfolding no_locks_def by metis
    ultimately show ?thesis using w cs dec by auto
  qed
qed

lemma loose_read_spec:
  assumes "fs_content (od_fs s) (obj_path env o') = Some c" "oe_decode env c = Inr (serialize_with_headers ty content)" "length content < 2 ^ 63"
  shows "loose_read_raw env (Full o') s = (Inr \<lparr>ro_oid = o', ro_type = ty, ro_size = of_nat (length content), ro_stream = content\<rparr>, s)"
    and "loose_read_header env (Full o') s = (Inr \<lparr>hdr_obj_type = ty, hdr_size = of_nat (length content)\<rparr>, s)"
    and "loose_exists env (Full o') s = (Inr True, s)"
proof -
  have e: "fs_exists (od_fs s) (obj_path env o')" using assms(1) by (auto simp: fs_exists_def fs_content_def split: option.splits)
  then have l: "locate_obj env (Full o') s = (Inr (obj_path env o'), s)" by (simp add: locate_obj_def expand_id_def odb_lift_def)
  then have r: "read_stream env (Full o') s = (Inr (serialize_with_headers ty content), s)"
    using assms(1,2) by (simp add: read_stream_def odb_bind_def odb_lift_def odb_err_def)
  note h = read_obj_header_serialize [OF assms(3), of ty "[]", simplified]
  show "loose_read_raw env (Full o') s = (Inr \<lparr>ro_oid = o', ro_type = ty, ro_size = of_nat (length content), ro_stream = content\<rparr>, s)"
    by (simp add: loose_read_raw_def expand_id_def odb_bind_def odb_lift_def r raw_obj_from_stream_def h odb_err_def)
  show "loose_read_header env (Full o') s = (Inr \<lparr>hdr_obj_type = ty, hdr_size = of_nat (length content)\<rparr>, s)"
    by (simp add: loose_read_header_def odb_bind_def odb_lift_def r h odb_err_def)
  show "loose_exists env (Full o') s = (Inr True, s)" by (simp add: loose_exists_def l)
qed

section \<open>Packs that do not have the object\<close>

lemma packs_process_none:
  assumes "\<forall>(p, pk) \<in> set ps. \<exists>x i pk'. f pk = (Inl (ObjectNotFoundInPackIndex x i), pk')"
  shows "fst (packs_process f none ps) = Inl none"
  using assms
proof (induction ps)
  case (Cons a ps)
  obtain p pk where a: "a = (p, pk)" by (cases a)
  obtain x i pk' where f: "f pk = (Inl (ObjectNotFoundInPackIndex x i), pk')" using Cons.prems a by auto
  have "fst (packs_process f none ps) = Inl none" using Cons by simp
  then show ?case by (cases "packs_process f none ps") (simp add: a f of_pack_err_def)
qed simp

lemma packs_any_none:
  assumes "\<forall>(p, pk) \<in> set ps. \<exists>x i r. find_oid_crc_offset o' (idx_reader pk) = (Inl (ObjectNotFoundInPackIndex x i), r)"
  shows "\<not> fst (packs_any o' ps)"
  using assms
proof (induction ps)
  case (Cons a ps)
  obtain p pk where a: "a = (p, pk)" by (cases a)
  obtain x i r where f: "find_oid_crc_offset o' (idx_reader pk) = (Inl (ObjectNotFoundInPackIndex x i), r)" using Cons.prems a by auto
  have "\<not> fst (packs_any o' ps)" using Cons by simp
  then show ?case by (cases "packs_any o' ps") (simp add: a on_idx_def pack_obj_exists_def f)
qed simp

lemma packed_missing:
  assumes "not_packed env o' s"
  shows "\<exists>ps. packed_read_raw env (Full o') s = (Inl (ObjectNotFound (Full o')), s\<lparr>od_packs := ps\<rparr>)"
    and "\<exists>ps. packed_read_header env (Full o') s = (Inl (ObjectNotFound (Full o')), s\<lparr>od_packs := ps\<rparr>)"
    and "\<exists>ps. packed_exists env (Full o') s = (Inr False, s\<lparr>od_packs := ps\<rparr>)"
proof -
  have miss: "\<forall>(p, pk) \<in> set (od_packs s). \<exists>x i r. find_oid_crc_offset o' (idx_reader pk) = (Inl (ObjectNotFoundInPackIndex x i), r)"
    using assms by (simp add: not_packed_def)
  have off: "\<exists>x i pk'. obj_offset o' pk = (Inl (ObjectNotFoundInPackIndex x i), pk')" if "(p, pk) \<in> set (od_packs s)" for p pk
    using miss that by (fastforce simp: obj_offset_def obj_crc_offset_def)
  have "\<forall>(p, pk) \<in> set (od_packs s). \<exists>x i pk'. pack_read_obj_raw (oe_fuel env) (oe_zlib env) o' pk = (Inl (ObjectNotFoundInPackIndex x i), pk')"
    using off by (fastforce simp: pack_read_obj_raw_def read_obj_raw_via_def)
  from packs_process_none [OF this, of "ObjectNotFound (Full o')"]
  show "\<exists>ps. packed_read_raw env (Full o') s = (Inl (ObjectNotFound (Full o')), s\<lparr>od_packs := ps\<rparr>)"
    by (auto simp: packed_read_raw_def expand_id_def read_raw_pack_obj_def on_packs_def odb_bind_def split: prod.splits)
  have "\<forall>(p, pk) \<in> set (od_packs s). \<exists>x i pk'. pack_read_obj_header (oe_fuel env) o' pk = (Inl (ObjectNotFoundInPackIndex x i), pk')"
    using miss by (fastforce simp: pack_read_obj_header_def read_obj_header_via_def obj_crc_offset_def)
  from packs_process_none [OF this, of "ObjectNotFound (Full o')"]
  show "\<exists>ps. packed_read_header env (Full o') s = (Inl (ObjectNotFound (Full o')), s\<lparr>od_packs := ps\<rparr>)"
    by (auto simp: packed_read_header_def expand_id_def on_packs_def split: prod.splits)
  show "\<exists>ps. packed_exists env (Full o') s = (Inr False, s\<lparr>od_packs := ps\<rparr>)"
    using packs_any_none [OF miss] by (auto simp: packed_exists_def expand_id_def on_packs_def split: prod.splits)
qed

text \<open>
  C16. Writing an object and reading it back. The object files are named after what they hold, no lock is
  left, no pack has the object, and a file that is there already under its name holds the same object: then
  writing returns the name of the object, the files are still named after their content, no other file has
  changed, and reading the name gives type, size and content back; the header alone is read as well and the
  object exists.
\<close>

theorem odb_write_read:
  assumes "encodes_hex (oe_hex env)" "zlib_ok env" "loose_ok env (od_fs s)" "no_locks (od_fs s)" "not_packed env o' s"
    and "o' = oe_sha1 env (serialize_with_headers ty content)" "oid_wf o'" "length content < 2 ^ 63"
    and "\<forall>c. fs_content (od_fs s) (obj_path env o') = Some c \<longrightarrow> oe_decode env c = Inr (serialize_with_headers ty content)"
  shows "\<exists>s'. odb_write env ty content s = (Inr o', s') \<and> loose_ok env (od_fs s') \<and> no_locks (od_fs s')
    \<and> od_packs s' = od_packs s \<and> same_elsewhere {obj_path env o'} (od_fs s) (od_fs s')
    \<and> fst (odb_read_raw env (Full o') s') = Inr \<lparr>ro_oid = o', ro_type = ty, ro_size = of_nat (length content), ro_stream = content\<rparr>
    \<and> fst (odb_read_header env (Full o') s') = Inr \<lparr>hdr_obj_type = ty, hdr_size = of_nat (length content)\<rparr>
    \<and> fst (odb_exists env (Full o') s') = Inr True"
proof -
  obtain s' c where w: "loose_write env ty content s = (Inr o', s')" "od_packs s' = od_packs s" "loose_ok env (od_fs s')" "no_locks (od_fs s')"
      "same_elsewhere {obj_path env o'} (od_fs s) (od_fs s')"
    and c: "fs_content (od_fs s') (obj_path env o') = Some c" "oe_decode env c = Inr (serialize_with_headers ty content)"
    using loose_write_spec [OF assms(1-4,6,7,9)] by blast
  have c': "fs_content (od_fs (s'\<lparr>od_packs := ps\<rparr>)) (obj_path env o') = Some c" for ps using c(1) by simp
  have "not_packed env o' s'" using assms(5) w(2) by (simp add: not_packed_def)
  note m = packed_missing [OF this] and l = loose_read_spec [OF c' c(2) assms(8)]
  have "fst (odb_read_raw env (Full o') s') = Inr \<lparr>ro_oid = o', ro_type = ty, ro_size = of_nat (length content), ro_stream = content\<rparr>"
    using m(1) l(1) by (auto simp: odb_read_raw_def)
  moreover have "fst (odb_read_header env (Full o') s') = Inr \<lparr>hdr_obj_type = ty, hdr_size = of_nat (length content)\<rparr>"
    using m(2) l(2) by (auto simp: odb_read_header_def)
  moreover have "fst (odb_exists env (Full o') s') = Inr True"
    using m(3) l(3) by (auto simp: odb_exists_def)
  moreover have "odb_write env ty content s = (Inr o', s')" using w(1) by (simp add: odb_write_def packed_write_def odb_lift_def)
  ultimately show ?thesis using w by blast
qed

section \<open>Abbreviated identifiers\<close>

definition loose_objs :: "odb_env \<Rightarrow> fs \<Rightarrow> oid set" where
  "loose_objs env s = {o'. oid_wf o' \<and> fs_exists s (obj_path env o')}"

text \<open>
  The listing of the directory of two digits: the object files in it, once each, and nothing else.
\<close>

definition lists_objs :: "odb_env \<Rightarrow> fs \<Rightarrow> bool" where
  "lists_objs env s \<longleftrightarrow> (\<forall>d. \<exists>os. distinct os \<and> set os = {o' \<in> loose_objs env s. take 2 (oe_hex env o') = d}
     \<and> oe_list env s (objects_path env @ b_slash # d) = map (\<lambda>o'. drop 2 (oe_hex env o')) os)"

definition lower_hex :: "byte list \<Rightarrow> bool" where
  "lower_hex str \<longleftrightarrow> list_all (\<lambda>b. hex_digit (hex_val b) = b) str"

lemma select_files_spec:
  assumes "encodes_hex (oe_hex env)" "decodes_hex (oe_unhex env)" "\<forall>o' \<in> set os. oid_wf o' \<and> take 2 (oe_hex env o') = d"
  shows "select_files env d pre (map (\<lambda>o'. drop 2 (oe_hex env o')) os) = Inr (filter (\<lambda>o'. prefix pre (drop 2 (oe_hex env o'))) os)"
  using assms(3)
proof (induction os)
  case (Cons o' os)
  have "d @ drop 2 (oe_hex env o') = oe_hex env o'" using Cons.prems by (metis append_take_drop_id list.set_intros(1))
  moreover have "oid_from_str (oe_unhex env) (oe_hex env o') = Inr o'" using oid_hex_roundtrip(1) [OF assms(1,2)] Cons.prems by simp
  moreover have "length (drop 2 (oe_hex env o')) = 38" using assms(1) Cons.prems by (simp add: encodes_hex_def oid_wf_def OID_SIZE_def)
  ultimately show ?case using Cons by simp
qed simp

lemma lower_prefix:
  assumes "encodes_hex enc" "partial_oid_from_str str = Inr p" "lower_hex str"
  shows "take 2 (enc o') = fst (partial_split p) \<and> prefix (snd (partial_split p)) (drop 2 (enc o')) \<longleftrightarrow> prefix (map hex_val str) (hex_of o')"
proof -
  note p = partial_oid_digits [OF assms(2)]
  have e: "enc o' = map hex_digit (hex_of o')" using assms(1) by (simp add: encodes_hex_def)
  have split: "fst (partial_split p) = take 2 str" "snd (partial_split p) = drop 2 str"
    using p by (simp_all add: partial_split_def)
  have low: "str = map hex_digit (map hex_val str)" using assms(3) by (auto simp: lower_hex_def list_all_iff intro: map_idI [symmetric])
  have "take 2 (enc o') = take 2 str \<and> prefix (drop 2 str) (drop 2 (enc o')) \<longleftrightarrow> prefix str (enc o')"
  proof
    assume a: "take 2 (enc o') = take 2 str \<and> prefix (drop 2 str) (drop 2 (enc o'))"
    then obtain zs where "drop 2 (enc o') = drop 2 str @ zs" by (auto simp: prefix_def)
    then have "enc o' = str @ zs" using a by (metis append_assoc append_take_drop_id)
    then show "prefix str (enc o')" by simp
  next
    assume "prefix str (enc o')"
    then show "take 2 (enc o') = take 2 str \<and> prefix (drop 2 str) (drop 2 (enc o'))" using p(4) by (auto simp: prefix_def)
  qed
  also have "\<dots> \<longleftrightarrow> prefix (map hex_digit (map hex_val str)) (map hex_digit (hex_of o'))" using low e by metis
  also have "\<dots> \<longleftrightarrow> prefix (map hex_val str) (hex_of o')"
  proof
    assume "prefix (map hex_digit (map hex_val str)) (map hex_digit (hex_of o'))"
    then have "prefix (map hex_val (map hex_digit (map hex_val str))) (map hex_val (map hex_digit (hex_of o')))" by (rule map_mono_prefix)
    then show "prefix (map hex_val str) (hex_of o')" using low hex_digits_ok(2) by metis
  qed (rule map_mono_prefix)
  finally show ?thesis using split by simp
qed

lemma loose_candidates_spec:
  assumes "encodes_hex (oe_hex env)" "decodes_hex (oe_unhex env)" "lists_objs env (od_fs s)"
    and "partial_oid_from_str str = Inr pre" "lower_hex str"
  shows "\<exists>os. loose_prefix_candidates env pre s = (Inr os, s) \<and> distinct os
    \<and> set os = {o' \<in> loose_objs env (od_fs s). prefix (map hex_val str) (hex_of o')}"
proof -
  let ?d = "fst (partial_split pre)" and ?f = "snd (partial_split pre)"
  obtain os where os: "distinct os" "set os = {o' \<in> loose_objs env (od_fs s). take 2 (oe_hex env o') = ?d}"
      "oe_list env (od_fs s) (objects_path env @ b_slash # ?d) = map (\<lambda>o'. drop 2 (oe_hex env o')) os"
    using assms(3) unfolding lists_objs_def by blast
  have "select_files env ?d ?f (map (\<lambda>o'. drop 2 (oe_hex env o')) os) = Inr (filter (\<lambda>o'. prefix ?f (drop 2 (oe_hex env o'))) os)"
    using os(2) by (intro select_files_spec [OF assms(1,2)]) (auto simp: loose_objs_def)
  then have "loose_prefix_candidates env pre s = (Inr (filter (\<lambda>o'. prefix ?f (drop 2 (oe_hex env o'))) os), s)"
    using os(3) by (simp add: loose_prefix_candidates_def odb_lift_def odb_err_def split_beta)
  moreover have "set (filter (\<lambda>o'. prefix ?f (drop 2 (oe_hex env o'))) os) = {o' \<in> loose_objs env (od_fs s). prefix (map hex_val str) (hex_of o')}"
    using os(2) lower_prefix [OF assms(1,4,5)] by auto
  ultimately show ?thesis using distinct_filter [OF os(1)] by blast
qed

lemma expand_prefix_candidates:
  assumes "candidates pre s = (Inr os, s')"
  shows "expand_prefix candidates pre s = ((case os of [] \<Rightarrow> Inl (ObjectNotFound (Partial pre)) | [o'] \<Rightarrow> Inr o' | _ \<Rightarrow> Inl (AmbiguousPrefix pre os)), s')"
  using assms by (simp add: expand_prefix_def odb_bind_def odb_lift_def)

lemma distinct_cases:
  assumes "distinct os"
  shows "set os = {} \<longleftrightarrow> os = []" "set os = {x} \<longleftrightarrow> os = [x]" "a \<in> set os \<Longrightarrow> b \<in> set os \<Longrightarrow> a \<noteq> b \<Longrightarrow> \<exists>y z zs. os = y # z # zs"
proof -
  show "set os = {} \<longleftrightarrow> os = []" by simp
  show "set os = {x} \<longleftrightarrow> os = [x]"
    using assms by (cases os rule: remdups_adj.cases) (auto simp: doubleton_eq_iff)
  show "a \<in> set os \<Longrightarrow> b \<in> set os \<Longrightarrow> a \<noteq> b \<Longrightarrow> \<exists>y z zs. os = y # z # zs" by (cases os rule: remdups_adj.cases) auto
qed


text \<open>
  The whole database collects the candidates of both backends: an object that is in a pack and in a file is a
  candidate twice, and its abbreviation is refused as ambiguous, however long it is.
\<close>

lemma stored_twice_is_ambiguous:
  assumes "packed_prefix_candidates env pre s = (Inr ps, s1)" "o' \<in> set ps" "loose_prefix_candidates env pre s1 = (Inr os, s2)" "o' \<in> set os"
  shows "odb_expand_prefix env pre s = (Inl (AmbiguousPrefix pre (ps @ os)), s2)"
proof -
  have "odb_prefix_candidates env pre s = (Inr (ps @ os), s2)" using assms by (simp add: odb_prefix_candidates_def odb_bind_def odb_lift_def)
  moreover obtain y z zs where "ps @ os = y # z # zs" using assms(2,4) by (cases ps; cases os; cases "tl ps") auto
  ultimately show ?thesis using expand_prefix_candidates [of "odb_prefix_candidates env" pre s "ps @ os" s2] by (simp add: odb_expand_prefix_def)
qed

section \<open>A small database\<close>

definition lower_coder :: "byte list \<Rightarrow> byte list" where
  "lower_coder bs = map hex_digit (hex_of bs)"

definition sample_odb_env :: odb_env where
  "sample_odb_env = \<lparr>oe_hex = lower_coder, oe_unhex = (\<lambda>s. Inr (unhex (map hex_val s))), oe_deflate = (\<lambda>bs. [bs]), oe_decode = Inr,
     oe_zlib = stored_zlib, oe_sha1 = (\<lambda>_. EMPTY_BLOB),
     oe_list = (\<lambda>s p. if p = bytes_of ''o/e6'' \<and> fs_exists s (bytes_of ''o/e6/9de29bb2d1d6434b8b29ae775ad8c2e48c5391'')
                      then [bytes_of ''9de29bb2d1d6434b8b29ae775ad8c2e48c5391''] else []),
     oe_debug = True, oe_fuel = 10, objects_path = bytes_of ''o''\<rparr>"

definition empty_odb :: odb where
  "empty_odb = \<lparr>od_fs = \<lparr>names = Map.empty, nodes = (\<lambda>_. OtherNode), next_node = 0\<rparr>, od_packs = []\<rparr>"

lemma sample_coders: "encodes_hex (oe_hex sample_odb_env)" "decodes_hex (oe_unhex sample_odb_env)" "zlib_ok sample_odb_env"
  by (simp_all add: sample_odb_env_def encodes_hex_def decodes_hex_def zlib_ok_def lower_coder_def)

theorem odb_write_read_witness:
  "\<exists>s'. odb_write sample_odb_env Blob [] empty_odb = (Inr EMPTY_BLOB, s')
     \<and> fst (odb_read_raw sample_odb_env (Full EMPTY_BLOB) s') = Inr \<lparr>ro_oid = EMPTY_BLOB, ro_type = Blob, ro_size = 0, ro_stream = []\<rparr>"
proof -
  have "loose_ok sample_odb_env (od_fs empty_odb)" by (simp add: loose_ok_def fs_ok_def fs_exists_def empty_odb_def)
  moreover have "no_locks (od_fs empty_odb)" "not_packed sample_odb_env EMPTY_BLOB empty_odb" "oid_wf EMPTY_BLOB"
    "EMPTY_BLOB = oe_sha1 sample_odb_env (serialize_with_headers Blob [])"
    by (simp_all add: no_locks_def not_packed_def empty_odb_def oid_wf_def OID_SIZE_def EMPTY_BLOB_def sample_odb_env_def)
  moreover have "\<forall>c. fs_content (od_fs empty_odb) (obj_path sample_odb_env EMPTY_BLOB) = Some c \<longrightarrow> oe_decode sample_odb_env c = Inr (serialize_with_headers Blob [])"
    by (simp add: empty_odb_def fs_content_def)
  ultimately obtain s' where "odb_write sample_odb_env Blob [] empty_odb = (Inr EMPTY_BLOB, s')"
      "fst (odb_read_raw sample_odb_env (Full EMPTY_BLOB) s') = Inr \<lparr>ro_oid = EMPTY_BLOB, ro_type = Blob, ro_size = of_nat (length []), ro_stream = []\<rparr>"
    using odb_write_read [OF sample_coders(1,3), of empty_odb EMPTY_BLOB Blob "[]"] by force
  then show ?thesis by auto
qed

definition one_object_odb :: odb where
  "one_object_odb = \<lparr>od_fs = \<lparr>names = [bytes_of ''o/e6/9de29bb2d1d6434b8b29ae775ad8c2e48c5391'' \<mapsto> 0],
     nodes = (\<lambda>_. FileNode (bytes_of ''blob 0'' @ [0]) True), next_node = 1\<rparr>, od_packs = []\<rparr>"


text \<open>An abbreviation in upper case finds no file, although the test for prefixes takes digits of either case.\<close>

lemma upper_case_prefix_misses_loose:
  "fst (expand_prefix (loose_prefix_candidates sample_odb_env) \<lparr>bytes = bytes_of ''E69DE'' @ replicate 35 48, len = 5\<rparr> one_object_odb)
     = Inl (ObjectNotFound (Partial \<lparr>bytes = bytes_of ''E69DE'' @ replicate 35 48, len = 5\<rparr>))"
  "has_prefix (oe_unhex sample_odb_env) EMPTY_BLOB \<lparr>bytes = bytes_of ''E69DE'' @ replicate 35 48, len = 5\<rparr> = Inr True"
  by code_simp+

end
