(* ===== verification/Bit_Dag.thy ===== *)
theory Bit_Dag
  imports Bit_Hash
begin

text \<open>
  Graphs of commits, \<^verbatim>\<open>libbit/src/graph/dag.rs\<close> and \<^verbatim>\<open>libbit/src/graph/dag/topological.rs\<close>: the builder and
  Kahn's algorithm.
\<close>

section \<open>Model: the builder\<close>

record dag_node =
  dn_parents :: "nat list"
  dn_tree :: "oid option"

type_synonym dag_builder = "dag_node list"

definition dag_nodes :: "dag_builder \<Rightarrow> nat list" where
  "dag_nodes dag = [0..<length dag]"

definition dag_node_data :: "dag_builder \<Rightarrow> nat \<Rightarrow> dag_node bit_result" where
  "dag_node_data dag n = (if n < length dag then Inr (dag ! n) else Inl Panic)"

definition dag_add_parent :: "nat \<Rightarrow> nat \<Rightarrow> dag_builder \<Rightarrow> dag_builder bit_result" where
  "dag_add_parent child parent dag =
     and_then (dag_node_data dag child) (\<lambda>d. Inr (dag[child := d\<lparr>dn_parents := dn_parents d @ [parent]\<rparr>]))"

definition dag_add_parents :: "(nat \<times> nat) list \<Rightarrow> dag_builder \<Rightarrow> dag_builder bit_result" where
  "dag_add_parents edges dag = try_fold (\<lambda>dag (child, parent). dag_add_parent child parent dag) dag edges"

definition dag_mk_node :: "oid option \<Rightarrow> dag_builder \<Rightarrow> nat \<times> dag_builder" where
  "dag_mk_node tree dag = (length dag, dag @ [\<lparr>dn_parents = [], dn_tree = tree\<rparr>])"

section \<open>Model: Kahn's algorithm\<close>

text \<open>The degrees are an association list: the order in which the hash map is iterated is any.\<close>

record topological_sort =
  indegrees :: "(nat \<times> u32) list"
  ts_queue :: "nat list"

fun bump :: "nat \<Rightarrow> (nat \<times> u32) list \<Rightarrow> (nat \<times> u32) list" where
  "bump n [] = [(n, 1)]"
| "bump n ((m, d) # ds) = (if m = n then (m, d + 1) # ds else (m, d) # bump n ds)"

definition topological_new :: "dag_builder \<Rightarrow> topological_sort bit_result" where
  "topological_new dag =
     and_then (try_fold (\<lambda>ds n. and_then (dag_node_data dag n) (\<lambda>d. Inr (foldl (\<lambda>ds p. bump p ds) ds (dn_parents d)))) [] (dag_nodes dag)) (\<lambda>ds.
       Inr \<lparr>indegrees = ds, ts_queue = map fst (filter (\<lambda>(_, d). d = 0) ds)\<rparr>)"

definition lower_degree :: "topological_sort \<Rightarrow> nat \<Rightarrow> topological_sort bit_result" where
  "lower_degree ts p =
     (case map_of (indegrees ts) p of
        None \<Rightarrow> Inl Panic
      | Some d \<Rightarrow>
          Inr (ts\<lparr>indegrees := map (\<lambda>(m, e). if m = p then (m, e - 1) else (m, e)) (indegrees ts),
                  ts_queue := (if d - 1 = 0 then ts_queue ts @ [p] else ts_queue ts)\<rparr>))"

definition topological_next :: "dag_builder \<Rightarrow> topological_sort \<Rightarrow> (nat option \<times> topological_sort) bit_result" where
  "topological_next dag ts =
     (case ts_queue ts of
        [] \<Rightarrow> Inr (None, ts)
      | node # queue \<Rightarrow>
          and_then (dag_node_data dag node) (\<lambda>d.
          and_then (try_fold lower_degree (ts\<lparr>ts_queue := queue\<rparr>) (dn_parents d)) (\<lambda>ts. Inr (Some node, ts))))"

section \<open>Nodes without incoming edges\<close>

text \<open>
  Only nodes that are the parent of another get a degree, and it is at least one: the queue starts empty.
\<close>

definition edge_count :: "dag_builder \<Rightarrow> nat" where
  "edge_count dag = sum_list (map (\<lambda>d. length (dn_parents d)) dag)"

definition degrees_ok :: "nat \<Rightarrow> (nat \<times> u32) list \<Rightarrow> bool" where
  "degrees_ok k ds \<longleftrightarrow> (\<forall>(n, d) \<in> set ds. 0 < d \<and> unat d \<le> k)"

lemma bump_ok:
  assumes "degrees_ok k ds" "Suc k < 2 ^ 32"
  shows "degrees_ok (Suc k) (bump n ds)"
  using assms
proof (induction ds rule: bump.induct)
  case (2 n m d ds)
  have d: "0 < d" "unat d \<le> k" "degrees_ok k ds" using "2.prems"(1) by (auto simp: degrees_ok_def)
  have "unat (d + 1) = Suc (unat d)" using d(2) "2.prems"(2) by (simp add: unat_word_ariths)
  moreover have "0 < d + 1" using calculation by (simp add: word_less_nat_alt)
  ultimately show ?case using d 2 by (auto simp: degrees_ok_def)
qed (simp add: degrees_ok_def)

lemma bumps_ok: "degrees_ok k ds \<Longrightarrow> k + length ps < 2 ^ 32 \<Longrightarrow> degrees_ok (k + length ps) (foldl (\<lambda>ds p. bump p ds) ds ps)"
proof (induction ps arbitrary: k ds)
  case (Cons p ps)
  show ?case using Cons.IH [OF bump_ok [OF Cons.prems(1)]] Cons.prems(2) by simp
qed simp

lemma degrees_fold:
  "\<forall>n \<in> set ns. n < length dag \<Longrightarrow> degrees_ok k ds \<Longrightarrow> k + sum_list (map (\<lambda>n. length (dn_parents (dag ! n))) ns) < 2 ^ 32
    \<Longrightarrow> \<exists>ds'. try_fold (\<lambda>ds n. and_then (dag_node_data dag n) (\<lambda>d. Inr (foldl (\<lambda>ds p. bump p ds) ds (dn_parents d)))) ds ns = Inr ds'
      \<and> degrees_ok (k + sum_list (map (\<lambda>n. length (dn_parents (dag ! n))) ns)) ds'"
proof (induction ns arbitrary: k ds)
  case (Cons n ns)
  let ?ps = "dn_parents (dag ! n)"
  have "degrees_ok (k + length ?ps) (foldl (\<lambda>ds p. bump p ds) ds ?ps)" using bumps_ok Cons.prems by simp
  then show ?case using Cons.IH [of "k + length ?ps" "foldl (\<lambda>ds p. bump p ds) ds ?ps"] Cons.prems
    by (simp add: dag_node_data_def add.assoc)
qed simp

text \<open>
  The topological order of a graph is empty: the iterator ends with its first call, for every graph
  with fewer than \<open>2 ^ 32\<close> edges, because the queue is filled from the nodes that have a degree, and every
  degree is that of a node with an incoming edge.
\<close>

theorem topological_yields_nothing:
  assumes "edge_count dag < 2 ^ 32"
  shows "\<exists>ts. topological_new dag = Inr ts \<and> topological_next dag ts = Inr (None, ts)"
proof -
  have sum: "sum_list (map (\<lambda>n. length (dn_parents (dag ! n))) (dag_nodes dag)) = edge_count dag"
  proof -
    have "map (\<lambda>n. length (dn_parents (dag ! n))) [0..<length dag] = map (\<lambda>d. length (dn_parents d)) dag" by (rule nth_equalityI) simp_all
    then show ?thesis by (simp add: dag_nodes_def edge_count_def)
  qed
  obtain ds where ds: "try_fold (\<lambda>ds n. and_then (dag_node_data dag n) (\<lambda>d. Inr (foldl (\<lambda>ds p. bump p ds) ds (dn_parents d)))) [] (dag_nodes dag) = Inr ds"
      "degrees_ok (edge_count dag) ds"
    using degrees_fold [of "dag_nodes dag" dag 0 "[]"] assms sum by (auto simp: degrees_ok_def dag_nodes_def)
  have "filter (\<lambda>(_, d). d = 0) ds = []" using ds(2) by (auto simp: degrees_ok_def filter_empty_conv)
  then show ?thesis using ds(1) by (simp add: topological_new_def topological_next_def)
qed

definition two_commits :: dag_builder where
  "two_commits = [\<lparr>dn_parents = [1], dn_tree = None\<rparr>, \<lparr>dn_parents = [], dn_tree = None\<rparr>]"

theorem topological_yields_nothing_witness:
  "\<exists>ts. topological_new two_commits = Inr ts \<and> topological_next two_commits ts = Inr (None, ts)"
  by (rule topological_yields_nothing) (simp add: edge_count_def two_commits_def)

end
