(* ===== verification/Bit_Rev.thy ===== *)
theory Bit_Rev
  imports Bit_Refdb
begin

text \<open>
  Revisions, \<^verbatim>\<open>libbit/src/rev.rs\<close>: the syntax of revisions, its parser, and what a revision resolves to. The
  expansion of abbreviated identifiers and the parents of a commit come from the object database.
\<close>

section \<open>Model: the syntax\<close>

datatype parsed_revspec =
    RevRef bit_ref
  | RevPartial partial_oid
  | RevParent parsed_revspec nat
  | RevAncestor parsed_revspec nat
  | RevRange parsed_revspec parsed_revspec
  | RevReflog parsed_revspec nat

record rev_env =
  rv_db :: refdb
  rv_expand :: "partial_oid \<Rightarrow> oid bit_result"
  rv_parents :: "oid \<Rightarrow> oid list bit_result"
  rv_fuel :: nat

definition usize_to_string :: "nat \<Rightarrow> byte list" where
  "usize_to_string n = nat_digits 10 n"

fun rev_display :: "rev_env \<Rightarrow> parsed_revspec \<Rightarrow> byte list" where
  "rev_display env (RevRef r) = ref_display (to_hex (rv_db env)) r"
| "rev_display env (RevPartial p) = take (len p) (bytes p)"
| "rev_display env (RevParent rv n) = rev_display env rv @ (if n = 1 then [94] else 94 # usize_to_string n)"
| "rev_display env (RevAncestor rv n) = rev_display env rv @ (if n = 1 then [94] else 126 # usize_to_string n)"
| "rev_display env (RevReflog rv n) = rev_display env rv @ [64, 123] @ usize_to_string n @ [125]"
| "rev_display env (RevRange from to) = rev_display env from @ [46, 46] @ rev_display env to"

section \<open>Model: the parser\<close>

definition is_rev_sep :: "byte \<Rightarrow> bool" where
  "is_rev_sep b \<longleftrightarrow> b \<in> {64, 126, 94, 123, 125}"

definition rev_next :: "byte list \<Rightarrow> byte list \<times> byte list" where
  "rev_next src = (takeWhile (\<lambda>b. \<not> is_rev_sep b) src, dropWhile (\<lambda>b. \<not> is_rev_sep b) src)"

text \<open>Taking the first byte off a string panics at its end and inside a character of several bytes.\<close>

definition first_byte :: "byte list \<Rightarrow> (byte \<times> byte list) bit_result" where
  "first_byte src = (case src of [] \<Rightarrow> Inl Panic | b # r \<Rightarrow> if b \<ge> 128 then Inl Panic else Inr (b, r))"

definition rev_parse_base :: "rev_env \<Rightarrow> byte list \<Rightarrow> (parsed_revspec \<times> byte list) bit_result" where
  "rev_parse_base env src =
     and_then (first_byte src) (\<lambda>(b, r).
       let (s, src) = (if b = 64 then ([64], r) else rev_next src);
           reference = (case and_then (partial_oid_from_str s) (rv_expand env) of
               Inr o' \<Rightarrow> Direct o'
             | Inl _ \<Rightarrow> ref_from_str (from_hex (rv_db env)) s)
       in Inr (RevRef reference, src))"

definition rev_expect :: "byte \<Rightarrow> byte list \<Rightarrow> byte list bit_result" where
  "rev_expect c src = and_then (first_byte src) (\<lambda>(b, r). if b = c then Inr r else Inl (Bail ''expected another token''))"

text \<open>\<open>usize::from_str\<close>: an optional plus, digits, no overflow.\<close>

definition parse_usize :: "byte list \<Rightarrow> nat option" where
  "parse_usize s =
     (let digits = (case s of c # cs \<Rightarrow> if c = 43 then cs else s | [] \<Rightarrow> s) in
      case parse_nat_radix 10 digits of None \<Rightarrow> None | Some n \<Rightarrow> if n < 2 ^ 64 then Some n else None)"

text \<open>The text up to the next separator is taken off whether it is a number or not.\<close>

definition rev_expect_num :: "byte list \<Rightarrow> nat option \<times> byte list" where
  "rev_expect_num src = (let (s, src) = rev_next src in (parse_usize s, src))"

definition rev_accept_num :: "byte list \<Rightarrow> nat \<times> byte list" where
  "rev_accept_num src = (case rev_expect_num src of (n, src) \<Rightarrow> (case n of Some n \<Rightarrow> n | None \<Rightarrow> 1, src))"

definition rev_parse_reflog :: "byte list \<Rightarrow> (nat \<times> byte list) bit_result" where
  "rev_parse_reflog src =
     and_then (rev_expect 123 src) (\<lambda>src.
       case rev_expect_num src of
         (None, _) \<Rightarrow> Inl (Bail ''invalid digit found in string'')
       | (Some n, src) \<Rightarrow> and_then (rev_expect 125 src) (\<lambda>src. Inr (n, src)))"

lemma rev_next_length: "length (snd (rev_next src)) \<le> length src"
  by (simp add: rev_next_def length_dropWhile_le)

lemma rev_expect_num_length: "length (snd (rev_expect_num src)) \<le> length src"
  using rev_next_length [of src] by (simp add: rev_expect_num_def split_beta)

lemma rev_accept_num_length: "rev_accept_num src = (n, r) \<Longrightarrow> length r \<le> length src"
  using rev_expect_num_length [of src] by (auto simp: rev_accept_num_def split_beta)

lemma first_byte_Cons: "first_byte src = Inr (c, r) \<Longrightarrow> src = c # r"
  by (auto simp: first_byte_def split: list.splits if_splits)

lemma rev_expect_length: "rev_expect c src = Inr r \<Longrightarrow> length r < length src"
  by (auto simp: rev_expect_def and_then_eq_Inr split: if_splits dest: first_byte_Cons)

lemma rev_parse_reflog_length:
  assumes "rev_parse_reflog src = Inr (n, r)"
  shows "length r < length src"
proof -
  obtain a where a: "rev_expect 123 src = Inr a" using assms by (auto simp: rev_parse_reflog_def and_then_eq_Inr)
  obtain m b where b: "rev_expect_num a = (m, b)" by fastforce
  have "rev_expect 125 b = Inr r" using assms a b by (cases m) (auto simp: rev_parse_reflog_def and_then_eq_Inr)
  from rev_expect_length [OF this] rev_expect_length [OF a] rev_expect_num_length [of a] show ?thesis by (simp add: b)
qed

function rev_parse_loop :: "parsed_revspec \<Rightarrow> byte list \<Rightarrow> parsed_revspec bit_result" where
  "rev_parse_loop rv src =
     (if src = [] then Inr rv
      else case first_byte src of
          Inl e \<Rightarrow> Inl e
        | Inr (c, src) \<Rightarrow>
            if c = 94 then (case rev_accept_num src of (n, src) \<Rightarrow> rev_parse_loop (RevParent rv n) src)
            else if c = 126 then (case rev_accept_num src of (n, src) \<Rightarrow> rev_parse_loop (RevAncestor rv n) src)
            else if c = 64 then
              (case rev_parse_reflog src of Inl e \<Rightarrow> Inl e | Inr (n, src) \<Rightarrow> rev_parse_loop (RevReflog rv n) src)
            else Inl (Bail ''unexpected token''))"
  by pat_completeness auto
termination
  by (relation "measure (\<lambda>(_, src). length src)")
    (auto dest!: first_byte_Cons rev_accept_num_length [OF sym] rev_parse_reflog_length)

declare rev_parse_loop.simps [simp del]

definition rev_parse :: "rev_env \<Rightarrow> byte list \<Rightarrow> parsed_revspec bit_result" where
  "rev_parse env src = and_then (rev_parse_base env src) (\<lambda>(rv, src). rev_parse_loop rv src)"

section \<open>Model: resolution\<close>

definition get_nth_parent :: "rev_env \<Rightarrow> nat \<Rightarrow> bit_ref \<Rightarrow> bit_ref refdb_op" where
  "get_nth_parent env n r =
     op_bind (fully_resolve (rv_fuel env) (rv_db env) r) (\<lambda>o'.
       if n = 0 then op_lift (\<lambda>_. Inr (Direct o'))
       else op_lift (\<lambda>_. lift_err (and_then (rv_parents env o') (\<lambda>ps.
         if ps = [] then Inl (Bail ''revision refers to the parent of an initial commit'')
         else if n - 1 < length ps then Inr (Direct (ps ! (n - 1)))
         else Inl (Bail ''attempted to access a parent the commit does not have'')))))"

fun first_parents :: "rev_env \<Rightarrow> nat \<Rightarrow> bit_ref \<Rightarrow> bit_ref refdb_op" where
  "first_parents env 0 r = op_lift (\<lambda>_. Inr r)"
| "first_parents env (Suc n) r = op_bind (get_nth_parent env 1 r) (\<lambda>r. first_parents env n r)"

definition reflog_ref :: "rev_env \<Rightarrow> symbolic_ref \<Rightarrow> nat \<Rightarrow> bit_ref refdb_op" where
  "reflog_ref env symref n =
     op_bind (read_reflog (rv_db env) symref) (\<lambda>fl s.
       case filelock_drop (reflog_serialize (to_hex (rv_db env))) fl s of
         Inl e \<Rightarrow> (Inl (Other e), s)
       | Inr s' \<Rightarrow>
           (case reflog_get (fl_data fl) n of
              Some e \<Rightarrow> (Inr (Direct (new_oid e)), s')
            | None \<Rightarrow> (Inl (Other (Bail ''index is out of range in reflog'')), s')))"

fun resolve_rev_internal :: "rev_env \<Rightarrow> parsed_revspec \<Rightarrow> bit_ref refdb_op" where
  "resolve_rev_internal env (RevRef r) =
     (if r = Symbolic HEAD then read_head (rv_db env) else op_lift (validate (rv_db env) r))"
| "resolve_rev_internal env (RevPartial p) = op_lift (\<lambda>_. lift_err (and_then (rv_expand env p) (\<lambda>o'. Inr (Direct o'))))"
| "resolve_rev_internal env (RevParent rv n) = op_bind (resolve_rev_internal env rv) (get_nth_parent env n)"
| "resolve_rev_internal env (RevAncestor rv n) = op_bind (resolve_rev_internal env rv) (first_parents env n)"
| "resolve_rev_internal env (RevRange from to) = op_lift (\<lambda>_. Inl (Other Panic))"
| "resolve_rev_internal env (RevReflog rv n) =
     op_bind (resolve_rev_internal env rv) (\<lambda>r. case r of
         Direct _ \<Rightarrow> op_lift (\<lambda>_. Inl (Other (Bail ''can't use reflog revision syntax on a direct reference'')))
       | Symbolic symref \<Rightarrow> reflog_ref env symref n)"

definition resolve_rev :: "rev_env \<Rightarrow> byte list \<Rightarrow> bit_ref refdb_op" where
  "resolve_rev env src = op_bind (op_lift (\<lambda>_. lift_err (rev_parse env src))) (resolve_rev_internal env)"

definition fully_resolve_rev :: "rev_env \<Rightarrow> byte list \<Rightarrow> oid refdb_op" where
  "fully_resolve_rev env src = op_bind (resolve_rev env src) (fully_resolve (rv_fuel env) (rv_db env))"

definition try_fully_resolve_rev :: "rev_env \<Rightarrow> byte list \<Rightarrow> oid option refdb_op" where
  "try_fully_resolve_rev env src = op_bind (resolve_rev env src) (try_fully_resolve_ref (rv_fuel env) (rv_db env))"

definition resolve_rev_to_branch :: "rev_env \<Rightarrow> byte list \<Rightarrow> symbolic_ref refdb_op" where
  "resolve_rev_to_branch env src =
     op_bind (resolve_rev env src) (\<lambda>r. op_lift (\<lambda>_. case r of
         Direct _ \<Rightarrow> Inl (Other (Bail ''expected branch, found commit''))
       | Symbolic symref \<Rightarrow> Inr symref))"

section \<open>Printing and parsing\<close>

text \<open>A single first parent prints like the first parent selector, and is parsed as that.\<close>

fun rev_norm :: "parsed_revspec \<Rightarrow> parsed_revspec" where
  "rev_norm (RevParent rv n) = RevParent (rev_norm rv) n"
| "rev_norm (RevAncestor rv n) = (if n = 1 then RevParent (rev_norm rv) 1 else RevAncestor (rev_norm rv) n)"
| "rev_norm (RevReflog rv n) = RevReflog (rev_norm rv) n"
| "rev_norm rv = rv"

text \<open>
  A reference that is read back from its text: no separators in it, and the text is not the abbreviation of
  another object.
\<close>

definition base_ok :: "rev_env \<Rightarrow> bit_ref \<Rightarrow> bool" where
  "base_ok env r \<longleftrightarrow>
     (let t = ref_display (to_hex (rv_db env)) r in
      t \<noteq> [] \<and> hd t < 128 \<and> list_all (\<lambda>b. \<not> is_rev_sep b) t
      \<and> (case and_then (partial_oid_from_str t) (rv_expand env) of Inr o' \<Rightarrow> Direct o' | Inl _ \<Rightarrow> ref_from_str (from_hex (rv_db env)) t) = r)"

fun rev_ok :: "rev_env \<Rightarrow> parsed_revspec \<Rightarrow> bool" where
  "rev_ok env (RevRef r) = base_ok env r"
| "rev_ok env (RevParent rv n) = (rev_ok env rv \<and> n < 2 ^ 64)"
| "rev_ok env (RevAncestor rv n) = (rev_ok env rv \<and> n < 2 ^ 64)"
| "rev_ok env (RevReflog rv n) = (rev_ok env rv \<and> n < 2 ^ 64)"
| "rev_ok env _ = False"

definition sep_or_end :: "byte list \<Rightarrow> bool" where
  "sep_or_end rest \<longleftrightarrow> rest = [] \<or> is_rev_sep (hd rest)"

lemma rev_next_stop:
  assumes "list_all (\<lambda>b. \<not> is_rev_sep b) t" "sep_or_end rest"
  shows "rev_next (t @ rest) = (t, rest)"
  using assms by (cases rest) (auto simp: rev_next_def sep_or_end_def list_all_iff takeWhile_append dropWhile_append)

lemma usize_digits:
  "list_all (\<lambda>b. \<not> is_rev_sep b) (usize_to_string n)" "n < 2 ^ 64 \<Longrightarrow> parse_usize (usize_to_string n) = Some n"
proof -
  have r: "48 \<le> b \<and> b \<le> 57" if "b \<in> set (usize_to_string n)" for b using nat_digits_10_range that by (simp add: usize_to_string_def)
  then show "list_all (\<lambda>b. \<not> is_rev_sep b) (usize_to_string n)"
    by (fastforce simp: list_all_iff is_rev_sep_def word_le_nat_alt)
  obtain c cs where c: "usize_to_string n = c # cs" using nat_digits_nonempty [of 10 n] by (cases "usize_to_string n") (auto simp: usize_to_string_def)
  then have "c \<noteq> 43" using r [of c] by auto
  then show "n < 2 ^ 64 \<Longrightarrow> parse_usize (usize_to_string n) = Some n"
    using parse_nat_radix_nat_digits [of 10 n] c by (simp add: parse_usize_def usize_to_string_def)
qed

lemma accept_num_digits:
  assumes "sep_or_end rest" "n < 2 ^ 64"
  shows "rev_accept_num ((if n = 1 then [] else usize_to_string n) @ rest) = (n, rest)"
proof (cases "n = 1")
  case True
  have "rev_next rest = ([], rest)" using rev_next_stop [of "[]" rest] assms(1) by simp
  then show ?thesis using True by (simp add: rev_accept_num_def rev_expect_num_def parse_usize_def parse_nat_radix_def)
next
  case False
  then show ?thesis using rev_next_stop [OF usize_digits(1) assms(1)] usize_digits(2) [OF assms(2)]
    by (simp add: rev_accept_num_def rev_expect_num_def)
qed

lemma parse_reflog_digits:
  assumes "n < 2 ^ 64"
  shows "rev_parse_reflog (123 # usize_to_string n @ 125 # rest) = Inr (n, rest)"
proof -
  have "sep_or_end (125 # rest)" by (simp add: sep_or_end_def is_rev_sep_def)
  then show ?thesis using rev_next_stop [OF usize_digits(1)] usize_digits(2) [OF assms]
    by (simp add: rev_parse_reflog_def rev_expect_def first_byte_def rev_expect_num_def)
qed

lemma loop_selector:
  assumes "sep_or_end rest" "n < 2 ^ 64"
  shows "rev_parse_loop rv (94 # (if n = 1 then [] else usize_to_string n) @ rest) = rev_parse_loop (RevParent rv n) rest"
    and "n \<noteq> 1 \<Longrightarrow> rev_parse_loop rv (126 # usize_to_string n @ rest) = rev_parse_loop (RevAncestor rv n) rest"
    and "rev_parse_loop rv ([64, 123] @ usize_to_string n @ [125] @ rest) = rev_parse_loop (RevReflog rv n) rest"
proof -
  note num = accept_num_digits [OF assms]
  show "rev_parse_loop rv (94 # (if n = 1 then [] else usize_to_string n) @ rest) = rev_parse_loop (RevParent rv n) rest"
    using num by (subst rev_parse_loop.simps) (simp add: first_byte_def)
  show "n \<noteq> 1 \<Longrightarrow> rev_parse_loop rv (126 # usize_to_string n @ rest) = rev_parse_loop (RevAncestor rv n) rest"
    using num by (subst rev_parse_loop.simps) (simp add: first_byte_def)
  show "rev_parse_loop rv ([64, 123] @ usize_to_string n @ [125] @ rest) = rev_parse_loop (RevReflog rv n) rest"
    using parse_reflog_digits [OF assms(2), of rest] by (subst rev_parse_loop.simps) (simp add: first_byte_def)
qed

lemma parse_display:
  "rev_ok env rv \<Longrightarrow> sep_or_end rest \<Longrightarrow> rev_parse env (rev_display env rv @ rest) = rev_parse_loop (rev_norm rv) rest"
proof (induction rv arbitrary: rest)
  case (RevRef r)
  let ?t = "ref_display (to_hex (rv_db env)) r"
  have t: "?t \<noteq> []" "hd ?t < 128" "list_all (\<lambda>b. \<not> is_rev_sep b) ?t"
    and r: "(case and_then (partial_oid_from_str ?t) (rv_expand env) of Inr o' \<Rightarrow> Direct o' | Inl _ \<Rightarrow> ref_from_str (from_hex (rv_db env)) ?t) = r"
    using RevRef.prems(1) by (simp_all add: base_ok_def Let_def)
  obtain c cs where c: "?t = c # cs" using t(1) by (cases ?t) auto
  then have "c \<noteq> 64" "\<not> c \<ge> 128" using t by (auto simp: is_rev_sep_def)
  then have "rev_parse_base env (?t @ rest) = Inr (RevRef r, rest)"
    using rev_next_stop [OF t(3) RevRef.prems(2)] r unfolding c by (simp add: rev_parse_base_def first_byte_def)
  then show ?case by (simp add: rev_parse_def)
next
  case (RevParent rv n)
  have s: "sep_or_end (94 # (if n = 1 then [] else usize_to_string n) @ rest)" by (simp add: sep_or_end_def is_rev_sep_def)
  have "rev_display env (RevParent rv n) @ rest = rev_display env rv @ 94 # (if n = 1 then [] else usize_to_string n) @ rest" by simp
  then show ?case using RevParent.IH [OF _ s] RevParent.prems loop_selector(1) [OF RevParent.prems(2), of n] by simp
next
  case (RevAncestor rv n)
  show ?case
  proof (cases "n = 1")
    case True
    have s: "sep_or_end (94 # rest)" by (simp add: sep_or_end_def is_rev_sep_def)
    then show ?thesis using RevAncestor.IH [OF _ s] RevAncestor.prems loop_selector(1) [OF RevAncestor.prems(2), of 1] True by simp
  next
    case False
    have s: "sep_or_end (126 # usize_to_string n @ rest)" by (simp add: sep_or_end_def is_rev_sep_def)
    then show ?thesis using RevAncestor.IH [OF _ s] RevAncestor.prems loop_selector(2) [OF RevAncestor.prems(2), of n] False by simp
  qed
next
  case (RevReflog rv n)
  have s: "sep_or_end ([64, 123] @ usize_to_string n @ [125] @ rest)" by (simp add: sep_or_end_def is_rev_sep_def)
  then show ?case using RevReflog.IH [OF _ s] RevReflog.prems loop_selector(3) [OF RevReflog.prems(2), of n] by simp
qed simp_all

lemma op_bind_return: "op_bind m (\<lambda>r. op_lift (\<lambda>_. Inr r)) = m"
  by (auto simp: op_bind_def op_lift_def fun_eq_iff split: prod.splits sum.splits)

lemma resolve_norm: "resolve_rev_internal env (rev_norm rv) = resolve_rev_internal env rv"
proof (induction rv)
  case (RevAncestor rv n)
  have "first_parents env 1 = get_nth_parent env 1"
  proof
    have "first_parents env 0 = (\<lambda>r. op_lift (\<lambda>_. Inr r))" by (rule ext) simp
    then show "first_parents env 1 r = get_nth_parent env 1 r" for r by (simp add: op_bind_return)
  qed
  then show ?case using RevAncestor by simp
qed simp_all

text \<open>
  C29. Printing a revision and parsing the text: the selectors come back in the same order with the same
  numbers, only \<open>~1\<close> as \<open>^\<close>, and the text resolves to what the revision resolves to, with the same
  effect on the store. The reference the revision starts from is one that is read back from its text,
  and the numbers fit in 64 bits.
\<close>

theorem rev_display_faithful:
  assumes "rev_ok env rv"
  shows "rev_parse env (rev_display env rv) = Inr (rev_norm rv) \<and> resolve_rev env (rev_display env rv) = resolve_rev_internal env rv"
proof
  show p: "rev_parse env (rev_display env rv) = Inr (rev_norm rv)"
    using parse_display [OF assms, of "[]"] by (simp add: sep_or_end_def rev_parse_loop.simps)
  show "resolve_rev env (rev_display env rv) = resolve_rev_internal env rv"
    by (rule ext) (simp add: resolve_rev_def p lift_err_def op_bind_def op_lift_def resolve_norm)
qed

text \<open>References that are read back: full object names, the head and branches with plain names.\<close>

lemma base_ok_direct:
  assumes "encodes_hex (to_hex (rv_db env))" "decodes_hex (from_hex (rv_db env))" "oid_wf h"
  shows "base_ok env (Direct h)"
proof -
  let ?t = "to_hex (rv_db env) h"
  have e: "?t = map hex_digit (hex_of h)" using assms(1) by (simp add: encodes_hex_def)
  have len: "length ?t = 40" using e assms(3) by (simp add: oid_wf_def OID_SIZE_def)
  have d: "list_all is_hexdigit ?t" by (simp only: e hex_digits_ok)
  have b: "\<not> is_rev_sep b \<and> b < 128" if "b \<in> set ?t" for b
    using d that by (auto simp: list_all_iff is_hexdigit_def is_rev_sep_def word_le_nat_alt word_less_nat_alt)
  have "?t \<noteq> []" using len by auto
  moreover have "partial_oid_from_str ?t = Inl (Bail ''partial oid from full oid'')" using len by (simp add: partial_oid_from_str_def)
  moreover have "oid_from_str (from_hex (rv_db env)) ?t = Inr h" by (rule oid_hex_roundtrip(1) [OF assms])
  ultimately show ?thesis using b hd_in_set [of ?t] by (simp add: base_ok_def ref_display_def ref_from_str_def list_all_iff)
qed

section \<open>Ancestors\<close>

text \<open>The first parent of the first parent and so on; a commit of the history has a readable list of parents.\<close>

fun nth_first_parent :: "(oid \<Rightarrow> oid list bit_result) \<Rightarrow> nat \<Rightarrow> oid \<Rightarrow> oid option" where
  "nth_first_parent par 0 h = Some h"
| "nth_first_parent par (Suc n) h =
     (case par h of Inr (p # _) \<Rightarrow> nth_first_parent par n p | _ \<Rightarrow> None)"

definition history :: "rev_env \<Rightarrow> oid set \<Rightarrow> bool" where
  "history env C \<longleftrightarrow> (\<forall>h \<in> C. ensure_obj_is_commit (rv_db env) h = Inr () \<and> (\<exists>ps. rv_parents env h = Inr ps \<and> set ps \<subseteq> C))"

lemma nth_parent_direct:
  assumes "history env C" "h \<in> C" "0 < rv_fuel env" "rv_parents env h = Inr ps"
  shows "get_nth_parent env n (Direct h) s =
    ((if n = 0 then Inr (Direct h)
      else if ps = [] then Inl (Other (Bail ''revision refers to the parent of an initial commit''))
      else if n \<le> length ps then Inr (Direct (ps ! (n - 1)))
      else Inl (Other (Bail ''attempted to access a parent the commit does not have''))), s)"
proof -
  obtain k where k: "rv_fuel env = Suc k" using assms(3) by (cases "rv_fuel env") auto
  have "ensure_obj_is_commit (rv_db env) h = Inr ()" using assms(1,2) by (simp add: history_def)
  then have "fully_resolve (rv_fuel env) (rv_db env) (Direct h) s = (Inr h, s)"
    by (simp add: fully_resolve_def k op_bind_def op_lift_def partially_resolve_def validate_def lift_err_def)
  moreover have "n - 1 < length ps \<longleftrightarrow> n \<le> length ps" if "n \<noteq> 0" using that by arith
  ultimately show ?thesis using assms(4) by (simp add: get_nth_parent_def op_bind_def op_lift_def lift_err_def)
qed

lemma first_parents_spec:
  assumes "history env C" "0 < rv_fuel env"
  shows "h \<in> C \<Longrightarrow> first_parents env n (Direct h) s =
    ((case nth_first_parent (rv_parents env) n h of
        Some o' \<Rightarrow> Inr (Direct o') | None \<Rightarrow> Inl (Other (Bail ''revision refers to the parent of an initial commit''))), s)"
proof (induction n arbitrary: h)
  case (Suc n)
  obtain ps where ps: "rv_parents env h = Inr ps" "set ps \<subseteq> C" using assms(1) Suc.prems unfolding history_def by blast
  note p = nth_parent_direct [OF assms(1) Suc.prems assms(2) ps(1), of 1]
  show ?case using Suc.IH ps p by (cases ps) (simp_all add: op_bind_def)
qed (simp add: op_lift_def)

text \<open>
  C30. What the selectors mean, from a commit of a history whose commits can all be read: \<open>~n\<close> is the
  ancestor \<open>n\<close> first parents back, \<open>^n\<close> the parent with that number and \<open>^0\<close> the commit itself. The walk
  fails at an initial commit, and at a number larger than the number of parents; the store is not changed.
\<close>

theorem selectors_spec:
  assumes "history env C" "h \<in> C" "0 < rv_fuel env" "rv_parents env h = Inr ps"
  shows "resolve_rev_internal env (RevAncestor (RevRef (Direct h)) n) s =
      ((case nth_first_parent (rv_parents env) n h of
          Some o' \<Rightarrow> Inr (Direct o') | None \<Rightarrow> Inl (Other (Bail ''revision refers to the parent of an initial commit''))), s)
    \<and> resolve_rev_internal env (RevParent (RevRef (Direct h)) n) s =
      ((if n = 0 then Inr (Direct h)
        else if ps = [] then Inl (Other (Bail ''revision refers to the parent of an initial commit''))
        else if n \<le> length ps then Inr (Direct (ps ! (n - 1)))
        else Inl (Other (Bail ''attempted to access a parent the commit does not have''))), s)"
proof -
  have "resolve_rev_internal env (RevRef (Direct h)) s = (Inr (Direct h), s)"
    using assms(1,2) by (simp add: history_def op_lift_def validate_def lift_err_def)
  then show ?thesis
    using first_parents_spec [OF assms(1,3,2)] nth_parent_direct [OF assms]
    unfolding resolve_rev_internal.simps(3,4) op_bind_def by simp
qed

section \<open>A small history\<close>

definition sample_rev_env :: rev_env where
  "sample_rev_env = \<lparr>rv_db = \<lparr>bitdir = BitPath (bytes_of ''.git''), to_hex = sample_enc, from_hex = sample_dec,
       ensure_obj_is_commit = (\<lambda>_. Inr ()), repo_user_signature = Inl Panic\<rparr>,
     rv_expand = (\<lambda>_. Inl UnexpectedEof),
     rv_parents = (\<lambda>h. Inr (if h = replicate 20 3 then [replicate 20 2, replicate 20 1] else if h = replicate 20 2 then [replicate 20 1] else [])),
     rv_fuel = 5\<rparr>"

theorem rev_display_faithful_witness:
  "rev_parse sample_rev_env (bytes_of ''HEAD^2~3'') = Inr (RevAncestor (RevParent (RevRef (Symbolic HEAD)) 2) 3)"
proof -
  let ?rv = "RevAncestor (RevParent (RevRef (Symbolic HEAD)) 2) 3"
  have "base_ok sample_rev_env (Symbolic HEAD)" by code_simp
  then have ok: "rev_ok sample_rev_env ?rv" by simp
  have "rev_display sample_rev_env ?rv = bytes_of ''HEAD^2~3''" by code_simp
  moreover have "rev_norm ?rv = ?rv" by simp
  ultimately show ?thesis using rev_display_faithful [OF ok] by (simp only: simp_thms)
qed

theorem selectors_spec_witness:
  "resolve_rev_internal sample_rev_env (RevAncestor (RevRef (Direct (replicate 20 3))) 2) sample_store = (Inr (Direct (replicate 20 1)), sample_store)"
proof -
  have "history sample_rev_env UNIV" by (simp add: history_def sample_rev_env_def)
  moreover have "0 < rv_fuel sample_rev_env" by (simp add: sample_rev_env_def)
  moreover have "rv_parents sample_rev_env (replicate 20 3) = Inr [replicate 20 2, replicate 20 1]" by (simp add: sample_rev_env_def)
  moreover have "nth_first_parent (rv_parents sample_rev_env) 2 (replicate 20 3) = Some (replicate 20 1)" by code_simp
  ultimately show ?thesis using selectors_spec [of sample_rev_env UNIV "replicate 20 3" _ 2 sample_store] by (simp only: option.case UNIV_I simp_thms)
qed

section \<open>What goes wrong\<close>

text \<open>Text behind a selector that is no number is dropped; a text that ends too early panics.\<close>

lemma selector_swallows_text: "rev_parse sample_rev_env (bytes_of ''HEAD^main'') = rev_parse sample_rev_env (bytes_of ''HEAD^'')"
  by code_simp

lemma short_text_panics:
  "rev_parse sample_rev_env [] = Inl Panic" "rev_parse sample_rev_env (bytes_of ''HEAD@'') = Inl Panic"
  by code_simp+

end
