(* ===== verification/Bit_Index_Iter.thy ===== *)
theory Bit_Index_Iter
  imports Bit_Tree_Diff Bit_Worktree
begin

text \<open>
  The index as a tree, \<^verbatim>\<open>libbit/src/iter/index_tree_iter.rs\<close>: \<open>IndexTreeIter\<close> yields a pseudotree for the root
  and before the first entry of every directory, with the object the tree cache knows for it, and steps
  over directories with the counts of the tree cache. The theory shows that it is a tree iterator over the
  forest of the entries.
\<close>

section \<open>Model\<close>

text \<open>The set of pseudotrees is a list of what was inserted.\<close>

record index_iter =
  ii_entries :: "index_entry list"
  ii_pseudotrees :: "bit_path list"
  ii_peeked :: "index_entry option"

definition index_iter_new :: "index_inner \<Rightarrow> index_iter" where
  "index_iter_new idx = \<lparr>ii_entries = std_iter idx, ii_pseudotrees = [], ii_peeked = None\<rparr>"

definition cached_child :: "tree_cache option \<Rightarrow> bit_path \<Rightarrow> tree_cache option" where
  "cached_child cache p = (case cache of None \<Rightarrow> None | Some tc \<Rightarrow> find_valid_child tc p)"

definition create_pseudotree :: "tree_cache option \<Rightarrow> bit_path \<Rightarrow> index_entry" where
  "create_pseudotree cache p =
     entry_from_tree_entry \<lparr>te_mode = TREE, te_path = p, te_oid = (case cached_child cache p of None \<Rightarrow> UNKNOWN | Some c \<Rightarrow> tc_oid c)\<rparr>"

text \<open>A path without a parent panics.\<close>

definition index_iter_next :: "tree_cache option \<Rightarrow> index_iter iter_step" where
  "index_iter_next cache s =
     (if BitPath [] \<notin> set (ii_pseudotrees s)
      then (Inr (Some (create_pseudotree cache (BitPath []))), s\<lparr>ii_pseudotrees := BitPath [] # ii_pseudotrees s\<rparr>)
      else case ii_peeked s of
        Some peeked \<Rightarrow> (Inr (Some peeked), s\<lparr>ii_peeked := None\<rparr>)
      | None \<Rightarrow>
          (case ii_entries s of
             [] \<Rightarrow> (Inr None, s)
           | e # es \<Rightarrow>
               if components (path_bytes (ie_path e)) = [] \<or> components (path_bytes (ie_path e)) = [RootDir] then (Inl Panic, s)
               else case List.find (\<lambda>p. p \<notin> set (ii_pseudotrees s)) (cumulative_components (wt_parent (ie_path e))) of
                   Some p \<Rightarrow> (Inr (Some (create_pseudotree cache p)), s\<lparr>ii_pseudotrees := p # ii_pseudotrees s\<rparr>)
                 | None \<Rightarrow> (Inr (Some e), s\<lparr>ii_entries := es\<rparr>)))"

definition index_iter_peek :: "tree_cache option \<Rightarrow> index_iter iter_step" where
  "index_iter_peek cache s =
     (case ii_peeked s of
        Some peeked \<Rightarrow> (Inr (Some peeked), s)
      | None \<Rightarrow>
          (case index_iter_next cache s of
             (Inl e, s) \<Rightarrow> (Inl e, s)
           | (Inr r, s) \<Rightarrow> (Inr r, s\<lparr>ii_peeked := r\<rparr>)))"

text \<open>
  \<open>over\<close> and \<open>step_over_tree\<close>, which call each other; the fuel bounds the nesting and the loop. With a
  valid node of the tree cache as many entries are skipped as the node counts.
\<close>

fun index_iter_over :: "nat \<Rightarrow> tree_cache option \<Rightarrow> index_iter iter_step"
  and step_over_children :: "nat \<Rightarrow> tree_cache option \<Rightarrow> bit_path \<Rightarrow> index_iter \<Rightarrow> unit bit_result \<times> index_iter" where
  "index_iter_over 0 cache s = (Inl Diverge, s)"
| "index_iter_over (Suc k) cache s =
     (case index_iter_next cache s of
        (Inr (Some e), s) \<Rightarrow>
          (case ie_mode e of
             TREE \<Rightarrow>
               (case cached_child cache (ie_path e) of
                  Some c \<Rightarrow> (Inr (Some e), s\<lparr>ii_entries := drop (nat (tc_count c)) (ii_entries s)\<rparr>)
                | None \<Rightarrow>
                    (case step_over_children k cache (ie_path e) s of
                       (Inl err, s) \<Rightarrow> (Inl err, s)
                     | (Inr _, s) \<Rightarrow> (Inr (Some e), s)))
           | GITLINK \<Rightarrow> (Inl Panic, s)
           | _ \<Rightarrow> (Inr (Some e), s))
      | r \<Rightarrow> r)"
| "step_over_children 0 cache base s = (Inl Diverge, s)"
| "step_over_children (Suc k) cache base s =
     (case index_iter_peek cache s of
        (Inl err, s) \<Rightarrow> (Inl err, s)
      | (Inr None, s) \<Rightarrow> (Inr (), s)
      | (Inr (Some e), s) \<Rightarrow>
          if path_starts_with (ie_path e) base
          then (case index_iter_over k cache s of
                  (Inl err, s) \<Rightarrow> (Inl err, s)
                | (Inr _, s) \<Rightarrow> step_over_children k cache base s)
          else (Inr (), s))"

definition index_iter_ops_of :: "nat \<Rightarrow> tree_cache option \<Rightarrow> index_iter tree_iter_ops" where
  "index_iter_ops_of fuel cache =
     \<lparr>it_kind = IndexKind, it_next = index_iter_next cache, it_over = index_iter_over fuel cache, it_peek = index_iter_peek cache\<rparr>"

section \<open>The forest of the index\<close>

text \<open>
  Properties of the forest that do not change: the paths are those of a repository, nothing is above what
  comes before it, directories are pseudotrees and not empty, and the tree cache counts their files.
\<close>

definition pseudo_ok :: "tree_cache option \<Rightarrow> node \<Rightarrow> bool" where
  "pseudo_ok cache n \<longleftrightarrow> (ie_is_tree (entry n) \<longrightarrow> entry n = create_pseudotree cache (ie_path (entry n))
     \<and> (ie_path (entry n) \<noteq> BitPath [] \<longrightarrow> blobs (subnodes n) \<noteq> [])
     \<and> (\<forall>c. cached_child cache (ie_path (entry n)) = Some c \<longrightarrow> nat (tc_count c) = length (blobs (subnodes n))))"

definition index_shape :: "tree_cache option \<Rightarrow> node list \<Rightarrow> bool" where
  "index_shape cache F \<longleftrightarrow> forest_ok F \<and> (\<forall>x \<in> set (flat F). repo_path (ie_path x) \<and> (ie_is_blob x \<longrightarrow> clean_path (ie_path x)))
     \<and> sorted_wrt (\<lambda>x y. \<not> path_starts_with (ie_path x) (ie_path y)) (flat F) \<and> (\<forall>n \<in> set (nodes F). pseudo_ok cache n)"

lemma index_shape_over: "index_shape cache (Node e cs # F) \<Longrightarrow> index_shape cache F"
  by (auto simp: index_shape_def sorted_wrt_append)

lemma index_shape_into: "index_shape cache (Node e cs # F) \<Longrightarrow> index_shape cache (cs @ F)"
  using forest_ok_into [of e cs F] by (auto simp: index_shape_def flat_append nodes_append)

definition trees_of :: "node list \<Rightarrow> bit_path set" where
  "trees_of F = {ie_path x | x. x \<in> set (flat F) \<and> ie_is_tree x}"

definition root_next :: "bit_path list \<Rightarrow> node list \<Rightarrow> bool" where
  "root_next seen F \<longleftrightarrow> (if BitPath [] \<in> set seen then BitPath [] \<notin> paths_of (flat F)
     else \<exists>e cs. F = [Node e cs] \<and> ie_path e = BitPath [] \<and> ie_is_tree e)"

text \<open>What is left when nothing is peeked: the directories of the entries that were not yielded are left.\<close>

definition index_left :: "tree_cache option \<Rightarrow> index_entry list \<Rightarrow> bit_path list \<Rightarrow> node list \<Rightarrow> bool" where
  "index_left cache es seen F \<longleftrightarrow> index_shape cache F \<and> blobs F = es \<and> trees_of F \<inter> set seen = {} \<and> root_next seen F
     \<and> (\<forall>e \<in> set es. \<forall>q. clean_path q \<and> inside (ie_path e) q \<longrightarrow> q \<in> set seen \<union> trees_of F)"

definition index_iter_rel :: "nat \<Rightarrow> tree_cache option \<Rightarrow> index_iter \<Rightarrow> node list \<Rightarrow> bool" where
  "index_iter_rel fuel cache s F \<longleftrightarrow> 2 * length (flat F) \<le> fuel \<and>
     (case ii_peeked s of
        None \<Rightarrow> index_left cache (ii_entries s) (ii_pseudotrees s) F
      | Some x \<Rightarrow> \<exists>cs G. F = Node x cs # G \<and> BitPath [] \<in> set (ii_pseudotrees s) \<and> index_shape cache F
          \<and> index_left cache (ii_entries s) (ii_pseudotrees s) (cs @ G))"

section \<open>One step\<close>

lemma cumulative_sorted:
  assumes "clean_path p"
  shows "sorted_wrt (\<lambda>a b. path_starts_with b a) (cumulative_components p)"
proof -
  let ?f = "\<lambda>n. BitPath (join_on b_slash (take n (segments p)))"
  have seg: "segments (?f n) = take n (segments p)" "clean_path (?f n)" if "n \<in> {1..<Suc (length (segments p))}" for n
  proof -
    have "take n (segments p) \<noteq> []" "\<forall>x \<in> set (take n (segments p)). b_slash \<notin> set x"
      using that segments_no_slash by (auto dest: in_set_takeD)
    then show "segments (?f n) = take n (segments p)" unfolding segments_def by (simp add: split_join_on)
    then show "clean_path (?f n)" using assms by (auto simp: clean_path_def list_all_iff dest: in_set_takeD)
  qed
  have "path_starts_with (?f m) (?f n)" if "n \<in> {1..<Suc (length (segments p))}" "m \<in> {1..<Suc (length (segments p))}" "n \<le> m" for n m
    using that seg by (simp add: starts_with_clean take_is_prefix) (metis min.absorb1 take_is_prefix take_take)
  then show ?thesis unfolding cumulative_components_eq
    by (simp add: sorted_wrt_iff_nth_less nth_upt del: upt_Suc)
qed

text \<open>The directories of a path: what is above it, and the root for a path that is a single name.\<close>

lemma parent_dirs:
  assumes "clean_path p"
  shows "{q. clean_path q \<and> inside p q} \<subseteq> set (cumulative_components (wt_parent p))"
    and "set (cumulative_components (wt_parent p)) \<subseteq> insert (BitPath []) {q. clean_path q \<and> inside p q}"
    and "sorted_wrt (\<lambda>a b. path_starts_with b a) (cumulative_components (wt_parent p))"
proof -
  have "{q. clean_path q \<and> inside p q} \<subseteq> set (cumulative_components (wt_parent p))
      \<and> set (cumulative_components (wt_parent p)) \<subseteq> insert (BitPath []) {q. clean_path q \<and> inside p q}
      \<and> sorted_wrt (\<lambda>a b. path_starts_with b a) (cumulative_components (wt_parent p))"
  proof (cases "components (path_bytes (wt_parent p)) = []")
    case True
    have "butlast (segments p) = []" using wt_parent_clean(2) [OF assms] True components_clean [of "wt_parent p"] by fastforce
    then have "wt_parent p = BitPath []" using assms by (simp add: wt_parent_def components_clean map_butlast [symmetric] path_buf_def)
    moreover have "cumulative_components (BitPath []) = [BitPath []]" by (simp add: cumulative_components_def cumulative_from_no_slash)
    ultimately show ?thesis using parent_root_inside [OF assms True] by auto
  next
    case False
    then show ?thesis using parent_cumulative [OF assms] cumulative_sorted [OF parent_inside(1) [OF assms False]] by auto
  qed
  then show "{q. clean_path q \<and> inside p q} \<subseteq> set (cumulative_components (wt_parent p))"
    and "set (cumulative_components (wt_parent p)) \<subseteq> insert (BitPath []) {q. clean_path q \<and> inside p q}"
    and "sorted_wrt (\<lambda>a b. path_starts_with b a) (cumulative_components (wt_parent p))" by blast+
qed

lemma find_first:
  assumes "x \<in> set xs" "P x" "\<And>y. y \<in> set xs \<Longrightarrow> P y \<Longrightarrow> y = x \<or> \<not> R y x" "sorted_wrt R xs"
  shows "List.find P xs = Some x"
  using assms by (induction xs) auto

lemma find_none: "\<forall>x \<in> set xs. \<not> P x \<Longrightarrow> List.find P xs = None"
  by (simp add: find_None_iff)

lemma tree_not_blob: "ie_is_tree e \<Longrightarrow> \<not> ie_is_blob e"
  by (cases "ie_mode e") (simp_all add: ie_is_tree_def ie_is_blob_def)

lemma shape_head:
  assumes "index_shape cache (Node e cs # F)"
  shows "ie_is_tree e \<or> ie_is_blob e \<and> cs = []" "y \<in> set (flat cs @ flat F) \<Longrightarrow> \<not> path_starts_with (ie_path e) (ie_path y)"
    and "repo_path (ie_path e)" "pseudo_ok cache (Node e cs)"
proof -
  show "ie_is_tree e \<or> ie_is_blob e \<and> cs = []"
    using assms by (cases "ie_mode e") (auto simp: index_shape_def ie_is_tree_def ie_is_blob_def)
qed (use assms in \<open>auto simp: index_shape_def\<close>)

lemma trees_of_simps [simp]:
  "trees_of [] = {}" "trees_of (Node e cs # F) = (if ie_is_tree e then {ie_path e} else {}) \<union> trees_of cs \<union> trees_of F"
  "trees_of (A @ B) = trees_of A \<union> trees_of B"
  by (auto simp: trees_of_def flat_append)

lemma trees_paths: "trees_of F \<subseteq> paths_of (flat F)"
  by (auto simp: trees_of_def paths_of_def)

text \<open>The first file of the forest, with the directories above it that are still to come.\<close>

lemma first_dir:
  assumes l: "index_left cache (b # es) seen (Node e cs # F)" and t: "ie_is_tree e" and root: "BitPath [] \<in> set seen"
  shows "List.find (\<lambda>p. p \<notin> set seen) (cumulative_components (wt_parent (ie_path b))) = Some (ie_path e)"
proof (rule find_first)
  have shape: "index_shape cache (Node e cs # F)" and bl: "blobs (Node e cs # F) = b # es" using l by (simp_all add: index_left_def)
  note h = shape_head [OF shape]
  have "blobs cs \<noteq> []"
  proof -
    have "ie_path e \<noteq> BitPath []" using l root by (auto simp: index_left_def root_next_def paths_of_def)
    then show ?thesis using h(4) t by (simp add: pseudo_ok_def)
  qed
  then have b: "b \<in> set (blobs cs)" using bl t tree_not_blob [OF t] by (cases "blobs cs") auto
  then have "b \<in> set (flat cs)" "ie_is_blob b" by (auto simp: blobs_def)
  then have sw: "path_starts_with (ie_path b) (ie_path e)" "clean_path (ie_path b)" "\<not> path_starts_with (ie_path e) (ie_path b)"
    using shape by (simp_all add: index_shape_def)
  then have ne: "ie_path b \<noteq> ie_path e" using starts_with_refl [of "ie_path e"] by metis
  have ce: "clean_path (ie_path e)"
  proof -
    have "ie_path e \<noteq> BitPath []" using l root by (auto simp: index_left_def root_next_def paths_of_def)
    then have "path_bytes (ie_path e) \<noteq> []" by (metis bit_path.collapse)
    then show ?thesis using h(3) by (simp add: repo_path_def)
  qed
  note dirs = parent_dirs [OF sw(2)]
  show "ie_path e \<in> set (cumulative_components (wt_parent (ie_path b)))" using dirs(1) sw(1) ne ce by (auto simp: inside_def)
  show "ie_path e \<notin> set seen" using l t by (auto simp: index_left_def)
  show "sorted_wrt (\<lambda>a b. path_starts_with b a) (cumulative_components (wt_parent (ie_path b)))" by (rule dirs(3))
  fix q assume q: "q \<in> set (cumulative_components (wt_parent (ie_path b)))" "q \<notin> set seen"
  then have "clean_path q" "inside (ie_path b) q" using dirs(2) root by auto
  then have "q \<in> trees_of (Node e cs # F)" using l q(2) by (auto simp: index_left_def)
  then consider "q = ie_path e" | "q \<in> paths_of (flat cs @ flat F)" using trees_paths t by (fastforce simp: paths_of_def)
  then show "q = ie_path e \<or> \<not> path_starts_with (ie_path e) q"
    using h(2) by cases (auto simp: paths_of_def)
qed

lemma no_dir_left:
  assumes l: "index_left cache (b # es) seen (Node b [] # F)" and root: "BitPath [] \<in> set seen" and bb: "ie_is_blob b"
  shows "List.find (\<lambda>p. p \<notin> set seen) (cumulative_components (wt_parent (ie_path b))) = None"
proof (rule find_none, intro ballI, unfold not_not)
  have shape: "index_shape cache (Node b [] # F)" using l by (simp add: index_left_def)
  then have c: "clean_path (ie_path b)" using bb by (simp add: index_shape_def)
  fix q assume "q \<in> set (cumulative_components (wt_parent (ie_path b)))"
  then consider "q = BitPath []" | "clean_path q" "inside (ie_path b) q" using parent_dirs(2) [OF c] by auto
  then show "q \<in> set seen"
  proof cases
    case 2
    then consider "q \<in> set seen" | "q \<in> trees_of (Node b [] # F)" using l by (auto simp: index_left_def)
    then show ?thesis
    proof cases
      case 2
      then have "q \<in> paths_of (flat F)" using trees_paths [of F] tree_not_blob [of b] bb by (auto split: if_splits)
      then show ?thesis using shape_head(2) [OF shape] \<open>inside (ie_path b) q\<close> by (auto simp: paths_of_def inside_def)
    qed
  qed (use root in simp)
qed

lemma left_into:
  assumes l: "index_left cache es seen (Node e cs # F)" and t: "ie_is_tree e"
  shows "index_left cache es (ie_path e # seen) (cs @ F)"
proof -
  have shape: "index_shape cache (Node e cs # F)" using l by (simp add: index_left_def)
  have out: "ie_path e \<notin> paths_of (flat (cs @ F))"
  proof
    assume "ie_path e \<in> paths_of (flat (cs @ F))"
    then obtain y where "y \<in> set (flat cs @ flat F)" "ie_path y = ie_path e" unfolding paths_of_def flat_append by (metis imageE)
    then show False using shape_head(2) [OF shape, of y] by simp
  qed
  have "root_next (ie_path e # seen) (cs @ F)"
    using l out t by (auto simp: index_left_def root_next_def paths_of_def flat_append)
  then show ?thesis
    using l out t trees_paths [of "cs @ F"] index_shape_into [OF shape] tree_not_blob [OF t] unfolding index_left_def by auto
qed

lemma left_blob:
  assumes l: "index_left cache (b # es) seen (Node b [] # F)" and root: "BitPath [] \<in> set seen" and bb: "ie_is_blob b"
  shows "index_left cache es seen F"
proof -
  have "\<not> ie_is_tree b" using bb tree_not_blob by blast
  then show ?thesis using l bb root index_shape_over [of cache b "[]" F] by (auto simp: index_left_def root_next_def paths_of_def)
qed

lemma next_left:
  assumes l: "index_left cache (ii_entries s) (ii_pseudotrees s) (n # F)" and p: "ii_peeked s = None"
  obtains s' where "index_iter_next cache s = (Inr (Some (entry n)), s')" "ii_peeked s' = None"
    "index_left cache (ii_entries s') (ii_pseudotrees s') (subnodes n @ F)" "BitPath [] \<in> set (ii_pseudotrees s')"
proof -
  obtain e cs where n: "n = Node e cs" by (cases n)
  have shape: "index_shape cache (Node e cs # F)" using l n by (simp add: index_left_def)
  note h = shape_head [OF shape]
  note l' = l [unfolded n]
  have pseudo: "e = create_pseudotree cache (ie_path e)" if "ie_is_tree e" using h(4) that by (simp add: pseudo_ok_def)
  show thesis
  proof (cases "BitPath [] \<in> set (ii_pseudotrees s)")
    case False
    then have e: "ie_path e = BitPath []" "ie_is_tree e" using l' by (auto simp: index_left_def root_next_def)
    show thesis
      using left_into [OF l' e(2)] pseudo e False p n
      by (intro that [of "s\<lparr>ii_pseudotrees := BitPath [] # ii_pseudotrees s\<rparr>"]) (simp_all add: index_iter_next_def)
  next
    case root: True
    have ok: "components (path_bytes (ie_path b)) \<noteq> [] \<and> components (path_bytes (ie_path b)) \<noteq> [RootDir]"
      if "b \<in> set (ii_entries s)" for b
    proof -
      have "b \<in> set (blobs (n # F))" using l that by (simp add: index_left_def)
      then have "clean_path (ie_path b)" using l by (auto simp: index_left_def index_shape_def blobs_def)
      then show ?thesis by (cases "segments (ie_path b)") (simp_all add: components_clean)
    qed
    show thesis
    proof (cases "ie_is_tree e")
      case True
      have "ie_path e \<noteq> BitPath []" using l' root by (auto simp: index_left_def root_next_def paths_of_def)
      then have "blobs cs \<noteq> []" using h(4) True by (simp add: pseudo_ok_def)
      then obtain b es where b: "ii_entries s = b # es"
        using l' tree_not_blob [OF True] by (cases "ii_entries s") (auto simp: index_left_def)
      have "index_iter_next cache s = (Inr (Some e), s\<lparr>ii_pseudotrees := ie_path e # ii_pseudotrees s\<rparr>)"
        using first_dir [OF l' [unfolded b] True root] ok [of b] pseudo [OF True] root p b by (simp add: index_iter_next_def)
      then show thesis using left_into [OF l' True] root p n
        by (intro that [of "s\<lparr>ii_pseudotrees := ie_path e # ii_pseudotrees s\<rparr>"]) simp_all
    next
      case False
      then have cs: "cs = []" "ie_is_blob e" using h(1) by simp_all
      then obtain es where b: "ii_entries s = e # es" using l' by (cases "ii_entries s") (auto simp: index_left_def)
      have "index_iter_next cache s = (Inr (Some e), s\<lparr>ii_entries := es\<rparr>)"
        using no_dir_left [OF l' [unfolded b cs(1)] root cs(2)] ok [of e] root p b by (simp add: index_iter_next_def)
      then show thesis using left_blob [OF l' [unfolded b cs(1)] root cs(2)] root p n cs(1)
        by (intro that [of "s\<lparr>ii_entries := es\<rparr>"]) simp_all
    qed
  qed
qed

lemma next_rel:
  assumes "index_iter_rel fuel cache s (n # F)"
  obtains s' where "index_iter_next cache s = (Inr (Some (entry n)), s')" "index_iter_rel fuel cache s' (subnodes n @ F)"
    "ii_peeked s' = None" "BitPath [] \<in> set (ii_pseudotrees s')" "index_shape cache (n # F)"
proof -
  have len: "2 * length (flat (subnodes n @ F)) \<le> fuel" using assms by (cases n) (simp add: index_iter_rel_def flat_append)
  show thesis
  proof (cases "ii_peeked s")
    case None
    then have l: "index_left cache (ii_entries s) (ii_pseudotrees s) (n # F)" using assms by (simp add: index_iter_rel_def)
    from next_left [OF this None] obtain s' where s': "index_iter_next cache s = (Inr (Some (entry n)), s')" "ii_peeked s' = None"
        "index_left cache (ii_entries s') (ii_pseudotrees s') (subnodes n @ F)" "BitPath [] \<in> set (ii_pseudotrees s')" by blast
    moreover have "index_shape cache (n # F)" using l by (simp add: index_left_def)
    ultimately show thesis using len by (intro that) (simp_all add: index_iter_rel_def)
  next
    case (Some x)
    then obtain cs where "n = Node x cs" "BitPath [] \<in> set (ii_pseudotrees s)" "index_shape cache (n # F)"
        "index_left cache (ii_entries s) (ii_pseudotrees s) (cs @ F)"
      using assms by (auto simp: index_iter_rel_def)
    then show thesis using len Some
      by (intro that [of "s\<lparr>ii_peeked := None\<rparr>"]) (simp_all add: index_iter_next_def index_iter_rel_def)
  qed
qed

lemma peek_rel:
  assumes "index_iter_rel fuel cache s F"
  shows "\<exists>s'. index_iter_peek cache s = (Inr (case F of [] \<Rightarrow> None | n # _ \<Rightarrow> Some (entry n)), s') \<and> index_iter_rel fuel cache s' F"
proof (cases "ii_peeked s")
  case (Some x)
  then show ?thesis using assms by (auto simp: index_iter_rel_def index_iter_peek_def)
next
  case None
  show ?thesis
  proof (cases F)
    case Nil
    then have "index_left cache (ii_entries s) (ii_pseudotrees s) []" using assms None by (simp add: index_iter_rel_def)
    then have "BitPath [] \<in> set (ii_pseudotrees s)" "ii_entries s = []" by (auto simp: index_left_def root_next_def split: if_splits)
    then show ?thesis using assms None Nil by (simp add: index_iter_peek_def index_iter_next_def index_iter_rel_def)
  next
    case (Cons n G)
    obtain s' where s': "index_iter_next cache s = (Inr (Some (entry n)), s')" "index_iter_rel fuel cache s' (subnodes n @ G)"
        "ii_peeked s' = None" "BitPath [] \<in> set (ii_pseudotrees s')" "index_shape cache (n # G)"
      using next_rel [OF assms [unfolded Cons]] by blast
    have "index_iter_rel fuel cache (s'\<lparr>ii_peeked := Some (entry n)\<rparr>) F"
      using s'(2-5) assms Cons by (cases n) (auto simp: index_iter_rel_def)
    then show ?thesis using s'(1) None Cons by (simp add: index_iter_peek_def)
  qed
qed

section \<open>Stepping over a directory\<close>

text \<open>Skipping the files of a directory, whose subdirectories are then never asked for.\<close>

lemma left_skip:
  assumes l: "index_left cache es seen (cs @ F)" and shape: "index_shape cache (Node e cs # F)" and root: "BitPath [] \<in> set seen"
  shows "index_left cache (drop (length (blobs cs)) es) seen F"
proof -
  have es: "es = blobs cs @ blobs F" using l by (simp add: index_left_def)
  have "q \<in> set seen \<union> trees_of F" if b: "b \<in> set (blobs F)" "clean_path q" "inside (ie_path b) q" for b q
  proof -
    have "q \<notin> trees_of cs"
    proof
      assume "q \<in> trees_of cs"
      then obtain x where "x \<in> set (flat cs)" "ie_path x = q" by (auto simp: trees_of_def)
      moreover have "b \<in> set (flat F)" using b(1) by (simp add: blobs_def)
      ultimately show False using shape b(3) by (auto simp: index_shape_def inside_def dest: starts_with_trans)
    qed
    then show ?thesis using l b es by (auto simp: index_left_def)
  qed
  then show ?thesis using l es root index_shape_over [OF shape] by (auto simp: index_left_def root_next_def paths_of_def flat_append)
qed

lemma over_step:
  shows "\<lbrakk>index_iter_rel fuel cache s (n # F); 2 * length (flat [n]) \<le> k\<rbrakk>
      \<Longrightarrow> \<exists>s'. index_iter_over k cache s = (Inr (Some (entry n)), s') \<and> index_iter_rel fuel cache s' F"
    and "\<lbrakk>index_iter_rel fuel cache s (cs @ F); \<forall>x \<in> set (flat cs). path_starts_with (ie_path x) base;
        \<forall>x \<in> set (flat F). \<not> path_starts_with (ie_path x) base; 2 * length (flat cs) < k\<rbrakk>
      \<Longrightarrow> \<exists>s'. step_over_children k cache base s = (Inr (), s') \<and> index_iter_rel fuel cache s' F"
proof (induction k arbitrary: s n F cs base)
  case 0
  {
    case 1
    then show ?case by (cases n) simp
  next
    case 2
    then show ?case by simp
  }
next
  case (Suc k)
  {
    case 1
    obtain e cs where n: "n = Node e cs" by (cases n)
    obtain s1 where s1: "index_iter_next cache s = (Inr (Some e), s1)" "index_iter_rel fuel cache s1 (cs @ F)"
        "ii_peeked s1 = None" "BitPath [] \<in> set (ii_pseudotrees s1)" "index_shape cache (Node e cs # F)"
      using next_rel [OF 1(1)] n by auto
    note h = shape_head [OF s1(5)]
    show ?case
    proof (cases "ie_is_tree e")
      case False
      then have "cs = []" "ie_mode e \<noteq> TREE" "ie_mode e \<noteq> GITLINK" using h(1) by (cases "ie_mode e"; auto simp: ie_is_blob_def ie_is_tree_def)+
      then have "index_iter_over (Suc k) cache s = (Inr (Some e), s1)" using s1(1) by (cases "ie_mode e") simp_all
      then show ?thesis using s1(2) n \<open>cs = []\<close> by simp
    next
      case True
      then have mode: "ie_mode e = TREE" by (cases "ie_mode e") (simp_all add: ie_is_tree_def)
      show ?thesis
      proof (cases "cached_child cache (ie_path e)")
        case None
        have "2 * length (flat cs) < k" using 1(2) n by simp
        then obtain s2 where "step_over_children k cache (ie_path e) s1 = (Inr (), s2)" "index_iter_rel fuel cache s2 F"
          using Suc.IH(2) [OF s1(2), of "ie_path e"] s1(5) by (auto simp: index_shape_def)
        then show ?thesis using s1(1) mode None n by simp
      next
        case (Some c)
        let ?s2 = "s1\<lparr>ii_entries := drop (nat (tc_count c)) (ii_entries s1)\<rparr>"
        have "nat (tc_count c) = length (blobs cs)" using h(4) True Some by (simp add: pseudo_ok_def)
        then have "index_iter_rel fuel cache ?s2 F"
          using left_skip [OF _ s1(5,4), of "ii_entries s1"] s1(2,3) by (simp add: index_iter_rel_def flat_append)
        then show ?thesis using s1(1) mode Some n by simp
      qed
    qed
  next
    case 2
    obtain s1 where s1: "index_iter_peek cache s = (Inr (case cs @ F of [] \<Rightarrow> None | n # _ \<Rightarrow> Some (entry n)), s1)" "index_iter_rel fuel cache s1 (cs @ F)"
      using peek_rel [OF 2(1)] by blast
    show ?case
    proof (cases cs)
      case Nil
      then show ?thesis using s1 2(3) by (cases F rule: flat.cases) auto
    next
      case (Cons m ds)
      obtain f es where m: "m = Node f es" by (cases m)
      have sw: "path_starts_with (ie_path f) base" "\<forall>x \<in> set (flat ds). path_starts_with (ie_path x) base" using 2(2) Cons m by simp_all
      have len: "2 * length (flat [m]) \<le> k" "2 * length (flat ds) < k" using 2(4) Cons m by simp_all
      obtain s2 where s2: "index_iter_over k cache s1 = (Inr (Some f), s2)" "index_iter_rel fuel cache s2 (ds @ F)"
        using Suc.IH(1) [OF _ len(1), of s1 "ds @ F"] s1(2) Cons m by auto
      obtain s3 where "step_over_children k cache base s2 = (Inr (), s3)" "index_iter_rel fuel cache s3 F"
        using Suc.IH(2) [OF s2(2) sw(2) 2(3) len(2)] by blast
      then show ?thesis using s1(1) s2(1) sw(1) Cons m by simp
    qed
  }
qed

interpretation index_entries: tree_iterator "index_iter_ops_of fuel cache" "index_iter_rel fuel cache" for fuel cache
proof
  fix s F n
  show "index_iter_rel fuel cache s F \<Longrightarrow>
      \<exists>s'. it_peek (index_iter_ops_of fuel cache) s = (Inr (case F of [] \<Rightarrow> None | n # _ \<Rightarrow> Some (entry n)), s') \<and> index_iter_rel fuel cache s' F"
    by (simp add: index_iter_ops_of_def peek_rel)
  assume r: "index_iter_rel fuel cache s (n # F)"
  then show "\<exists>s'. it_next (index_iter_ops_of fuel cache) s = (Inr (Some (entry n)), s') \<and> index_iter_rel fuel cache s' (subnodes n @ F)"
    using next_rel [OF r] by (simp add: index_iter_ops_of_def) blast
  have "2 * length (flat [n]) \<le> fuel" using r by (cases n) (simp add: index_iter_rel_def)
  then show "\<exists>s'. it_over (index_iter_ops_of fuel cache) s = (Inr (Some (entry n)), s') \<and> index_iter_rel fuel cache s' F"
    using over_step(1) [OF r] by (simp add: index_iter_ops_of_def)
qed

section \<open>From sorted entries to a forest\<close>

text \<open>
  The forest of a sorted list of files, all in the same directory \<open>n\<close> levels down: a file that is directly
  there, or a directory with the files that follow and are inside it.
\<close>

definition dir_of :: "nat \<Rightarrow> bit_path \<Rightarrow> bit_path" where
  "dir_of n q = BitPath (join_on b_slash (take (Suc n) (segments q)))"

definition depth_left :: "nat \<Rightarrow> index_entry list \<Rightarrow> nat" where
  "depth_left n es = sum_list (map (\<lambda>e. Suc (length (segments (ie_path e))) - n) es)"

lemma depth_left_simps [simp]:
  "depth_left n [] = 0" "depth_left n (e # es) = (Suc (length (segments (ie_path e))) - n) + depth_left n es"
  "depth_left n (xs @ ys) = depth_left n xs + depth_left n ys"
  by (simp_all add: depth_left_def)

lemma depth_left_mono: "depth_left (Suc n) (takeWhile P es) \<le> depth_left n es" "depth_left n (dropWhile P es) \<le> depth_left n es"
proof -
  have le: "depth_left (Suc n) es \<le> depth_left n es" for es
    by (induction es) simp_all
  have sp: "depth_left k es = depth_left k (takeWhile P es) + depth_left k (dropWhile P es)" for k
    using depth_left_simps(3) [of k "takeWhile P es" "dropWhile P es"] by simp
  show "depth_left (Suc n) (takeWhile P es) \<le> depth_left n es" using le [of "takeWhile P es"] sp [of n] by linarith
  show "depth_left n (dropWhile P es) \<le> depth_left n es" using sp [of n] by linarith
qed

function index_forest :: "tree_cache option \<Rightarrow> nat \<Rightarrow> index_entry list \<Rightarrow> node list" where
  "index_forest cache n [] = []"
| "index_forest cache n (e # es) =
     (if length (segments (ie_path e)) \<le> Suc n then Node e [] # index_forest cache n es
      else let p = dir_of n (ie_path e); P = (\<lambda>x. inside (ie_path x) p) in
        Node (create_pseudotree cache p) (index_forest cache (Suc n) (e # takeWhile P es)) # index_forest cache n (dropWhile P es))"
  by pat_completeness auto
termination
proof (relation "measures [\<lambda>(cache, n, es). depth_left n es, \<lambda>(cache, n, es). length es]", goal_cases)
  case (3 cache n e es p P)
  then have "Suc (length (segments (ie_path e))) - Suc n < Suc (length (segments (ie_path e))) - n" by simp
  then have "depth_left (Suc n) (e # takeWhile P es) < depth_left n (e # es)"
    unfolding depth_left_simps(2) using depth_left_mono(1) [of n P es] by (rule add_less_le_mono)
  then show ?case by (simp del: depth_left_simps)
next
  case (4 cache n e es p P)
  have "depth_left n (dropWhile P es) \<le> depth_left n (e # es)" "length (dropWhile P es) < length (e # es)"
    using depth_left_mono(2) [of n P es] length_dropWhile_le [of P es] by (simp_all only: depth_left_simps list.size)
  then show ?case by (auto simp del: depth_left_simps)
qed auto

definition index_root :: "tree_cache option \<Rightarrow> index_inner \<Rightarrow> node" where
  "index_root cache idx = Node (create_pseudotree cache (BitPath [])) (index_forest cache 0 (std_iter idx))"

definition files_at :: "nat \<Rightarrow> index_entry list \<Rightarrow> bool" where
  "files_at n es \<longleftrightarrow> (\<forall>e \<in> set es. clean_path (ie_path e) \<and> ie_is_blob e \<and> n < length (segments (ie_path e)))
     \<and> sorted_wrt (<) (map ie_path es) \<and> (\<forall>x \<in> set es. \<forall>y \<in> set es. \<not> inside (ie_path x) (ie_path y))"

abbreviation key_at :: "nat \<Rightarrow> bit_path \<Rightarrow> byte list list" where
  "key_at n q \<equiv> take (Suc n) (segments q)"

lemma dir_of_facts:
  assumes "clean_path q"
  shows "segments (dir_of n q) = key_at n q" "clean_path (dir_of n q)"
proof -
  have "key_at n q \<noteq> []" "\<forall>x \<in> set (key_at n q). b_slash \<notin> set x" using segments_no_slash by (auto dest: in_set_takeD)
  then show "segments (dir_of n q) = key_at n q" by (simp add: dir_of_def segments_def split_join_on)
  then show "clean_path (dir_of n q)" using assms by (auto simp: clean_path_def list_all_iff dest: in_set_takeD)
qed

lemma key_starts_with:
  assumes "path_starts_with p q" "clean_path p" "clean_path q" "n < length (segments q)"
  shows "key_at n p = key_at n q"
  using assms by (auto simp: starts_with_clean prefix_def)

lemma inside_dir:
  assumes "clean_path q" "clean_path r" "n < length (segments r)" "Suc n < length (segments q)"
  shows "inside r (dir_of n q) \<longleftrightarrow> key_at n r = key_at n q \<and> Suc n < length (segments r)"
proof -
  note d = dir_of_facts [OF assms(1), of n]
  have len: "length (key_at n q) = Suc n" using assms(4) by simp
  show ?thesis
  proof
    assume "inside r (dir_of n q)"
    then have "strict_prefix (key_at n q) (segments r)" using inside_segments [OF d(2) assms(2)] d(1) by simp
    then show "key_at n r = key_at n q \<and> Suc n < length (segments r)"
      using len prefix_length_less [of "key_at n q" "segments r"] by (auto simp: strict_prefix_def prefix_def)
  next
    assume a: "key_at n r = key_at n q \<and> Suc n < length (segments r)"
    then have "prefix (key_at n q) (segments r)" by (metis take_is_prefix)
    then show "inside r (dir_of n q)" using inside_segments [OF d(2) assms(2)] d(1) a len by (auto simp: strict_prefix_def)
  qed
qed

lemma dropWhile_filter: "takeWhile P xs = filter P xs \<Longrightarrow> dropWhile P xs = filter (\<lambda>x. \<not> P x) xs"
proof (induction xs)
  case (Cons x xs)
  show ?case
  proof (cases "P x")
    case False
    then have "filter P xs = []" using Cons.prems by simp
    then have "filter (\<lambda>x. \<not> P x) xs = xs" by (auto simp: filter_id_conv filter_empty_conv)
    then show ?thesis using False by simp
  qed (use Cons in simp)
qed simp

text \<open>The files of one directory are one behind the other.\<close>

lemma group_filter:
  assumes f: "files_at n (e # es)" and deep: "Suc n < length (segments (ie_path e))"
  defines "P \<equiv> \<lambda>x. inside (ie_path x) (dir_of n (ie_path e))"
  shows "takeWhile P es = filter P es" "dropWhile P es = filter (\<lambda>x. \<not> P x) es" "P e"
    and "x \<in> set es \<Longrightarrow> P x \<longleftrightarrow> key_at n (ie_path x) = key_at n (ie_path e)"
proof -
  let ?p = "dir_of n (ie_path e)"
  have e: "clean_path (ie_path e)" using f by (simp add: files_at_def)
  have es: "clean_path (ie_path x)" "n < length (segments (ie_path x))" if "x \<in> set es" for x using f that by (auto simp: files_at_def)
  note d = dir_of_facts [OF e, of n]
  show "P e" using inside_dir [OF e e _ deep] deep by (simp add: P_def)
  have mono: "P x" if xy: "x \<in> set es" "y \<in> set es" "ie_path x < ie_path y" "P y" for x y
  proof -
    have "join ?p [] \<le> ie_path e" using inside_ge [OF d(2) e] \<open>P e\<close> by (simp add: P_def)
    also have "ie_path e \<le> ie_path x" using f xy(1) by (auto simp: files_at_def)
    finally show ?thesis using inside_between [OF d(2) es(1) [OF xy(1)] es(1) [OF xy(2)]] xy(3,4) by (simp add: P_def)
  qed
  have "sorted_wrt (\<lambda>x y. ie_path x < ie_path y) es" using f by (simp add: files_at_def sorted_wrt_map)
  then show tw: "takeWhile P es = filter P es" using mono by (intro takeWhile_sorted)
  then show "dropWhile P es = filter (\<lambda>x. \<not> P x) es" by (rule dropWhile_filter)
  show "P x \<longleftrightarrow> key_at n (ie_path x) = key_at n (ie_path e)" if x: "x \<in> set es"
  proof -
    have "Suc n < length (segments (ie_path x))" if k: "key_at n (ie_path x) = key_at n (ie_path e)"
    proof (rule ccontr)
      assume "\<not> Suc n < length (segments (ie_path x))"
      then have "segments (ie_path x) = key_at n (ie_path e)" using k es(2) [OF x] by simp
      then have "strict_prefix (segments (ie_path x)) (segments (ie_path e))" using deep
        by (auto simp: strict_prefix_def take_is_prefix dest: arg_cong [of _ _ length])
      then have "inside (ie_path e) (ie_path x)" using inside_segments [OF es(1) [OF x] e] by simp
      then show False using f x by (auto simp: files_at_def)
    qed
    then show ?thesis using inside_dir [OF e es(1) [OF x] es(2) [OF x] deep] by (auto simp: P_def)
  qed
qed

text \<open>
  What the forest of a list of files is: its files are the list, below every path is some file of the list,
  and every directory of a file is there.
\<close>

definition cache_counts :: "tree_cache option \<Rightarrow> nat \<Rightarrow> index_entry list \<Rightarrow> bool" where
  "cache_counts cache n es \<longleftrightarrow> (\<forall>p c. cached_child cache p = Some c \<and> clean_path p \<and> n < length (segments p)
     \<and> (\<exists>e \<in> set es. inside (ie_path e) p) \<longrightarrow> nat (tc_count c) = length (filter (\<lambda>e. inside (ie_path e) p) es))"

definition forest_of :: "tree_cache option \<Rightarrow> nat \<Rightarrow> index_entry list \<Rightarrow> node list \<Rightarrow> bool" where
  "forest_of cache n es F \<longleftrightarrow> blobs F = es \<and> forest_ok F
     \<and> (\<forall>x \<in> set (flat F). clean_path (ie_path x) \<and> n < length (segments (ie_path x)) \<and> (\<exists>e \<in> set es. path_starts_with (ie_path e) (ie_path x)))
     \<and> sorted_wrt (\<lambda>x y. \<not> path_starts_with (ie_path x) (ie_path y)) (flat F) \<and> (\<forall>m \<in> set (nodes F). pseudo_ok cache m)
     \<and> (\<forall>e \<in> set es. \<forall>q. clean_path q \<and> inside (ie_path e) q \<and> n < length (segments q) \<longrightarrow> q \<in> trees_of F)"

lemma forest_key:
  assumes "forest_of cache n es F" "x \<in> set (flat F)" "\<forall>e \<in> set es. clean_path (ie_path e)"
  obtains e where "e \<in> set es" "key_at n (ie_path x) = key_at n (ie_path e)" "clean_path (ie_path x)" "n < length (segments (ie_path x))"
proof -
  obtain e where e: "e \<in> set es" "path_starts_with (ie_path e) (ie_path x)" "clean_path (ie_path x)" "n < length (segments (ie_path x))"
    using assms(1,2) by (auto simp: forest_of_def)
  then show thesis using key_starts_with [of "ie_path e" "ie_path x" n] assms(3) by (intro that [of e]) simp_all
qed

lemma forest_of_blob:
  assumes f: "files_at n (e # es)" and flat: "length (segments (ie_path e)) \<le> Suc n" and F: "forest_of cache n es F"
  shows "forest_of cache n (e # es) (Node e [] # F)"
proof -
  have e: "clean_path (ie_path e)" "ie_is_blob e" "length (segments (ie_path e)) = Suc n" "\<not> ie_is_tree e"
    using f flat tree_not_blob by (auto simp: files_at_def)
  have cl: "\<forall>x \<in> set es. clean_path (ie_path x)" using f by (simp add: files_at_def)
  have ke: "key_at n (ie_path e) = segments (ie_path e)" using e(3) by simp
  have out: "key_at n (ie_path y) \<noteq> key_at n (ie_path e)" if y: "y \<in> set es" for y
  proof
    assume "key_at n (ie_path y) = key_at n (ie_path e)"
    then have "prefix (segments (ie_path e)) (segments (ie_path y))" using ke by (metis take_is_prefix)
    moreover have "ie_path y \<noteq> ie_path e" using f y by (auto simp: files_at_def)
    ultimately have "inside (ie_path y) (ie_path e)" using starts_with_clean e(1) cl y by (auto simp: inside_def)
    then show False using f y by (auto simp: files_at_def)
  qed
  have sep: "\<not> path_starts_with (ie_path x) (ie_path e) \<and> \<not> path_starts_with (ie_path e) (ie_path x)" if x: "x \<in> set (flat F)" for x
  proof -
    obtain y where y: "y \<in> set es" "key_at n (ie_path x) = key_at n (ie_path y)" "clean_path (ie_path x)" "n < length (segments (ie_path x))"
      using forest_key [OF F x cl] by blast
    then show ?thesis using out [OF y(1)] e(1,3) key_starts_with [of "ie_path x" "ie_path e" n] key_starts_with [of "ie_path e" "ie_path x" n] by auto
  qed
  have "ie_mode e \<noteq> GITLINK" using e(2) by (auto simp: ie_is_blob_def)
  moreover have "q \<in> trees_of F" if "clean_path q" "inside (ie_path e) q" "n < length (segments q)" for q
    using that e(1,3) prefix_length_less [of "segments q" "segments (ie_path e)"] by (simp add: inside_segments)
  ultimately show ?thesis using F sep e by (auto simp: forest_of_def pseudo_ok_def)
qed

lemma forest_of_dir:
  assumes e: "clean_path (ie_path e)" "Suc n < length (segments (ie_path e))" and ins: "e \<in> set ins"
    and cl: "\<forall>x \<in> set (ins @ outs). clean_path (ie_path x)"
    and key: "\<forall>x \<in> set ins. key_at n (ie_path x) = key_at n (ie_path e) \<and> inside (ie_path x) (dir_of n (ie_path e))"
      "\<forall>x \<in> set outs. key_at n (ie_path x) \<noteq> key_at n (ie_path e)"
    and F: "forest_of cache (Suc n) ins F" and G: "forest_of cache n outs G"
    and cnt: "\<forall>c. cached_child cache (dir_of n (ie_path e)) = Some c \<longrightarrow> nat (tc_count c) = length ins"
  shows "forest_of cache n (ins @ outs) (Node (create_pseudotree cache (dir_of n (ie_path e))) F # G)"
proof -
  let ?p = "dir_of n (ie_path e)"
  let ?t = "create_pseudotree cache ?p"
  note d = dir_of_facts [OF e(1), of n]
  have len: "length (segments ?p) = Suc n" using d(1) e(2) by simp
  have kp: "key_at n ?p = key_at n (ie_path e)" using d(1) by simp
  have t: "ie_path ?t = ?p" "ie_is_tree ?t" "\<not> ie_is_blob ?t" "ie_mode ?t = TREE"
    by (simp_all add: create_pseudotree_def entry_from_tree_entry_def ie_is_tree_def ie_is_blob_def)
  have inF: "key_at n (ie_path x) = key_at n ?p \<and> Suc n < length (segments (ie_path x)) \<and> clean_path (ie_path x)
      \<and> path_starts_with (ie_path x) ?p \<and> \<not> path_starts_with ?p (ie_path x)" if x: "x \<in> set (flat F)" for x
  proof -
    obtain y where y: "y \<in> set ins" "key_at (Suc n) (ie_path x) = key_at (Suc n) (ie_path y)" "clean_path (ie_path x)" "Suc n < length (segments (ie_path x))"
      using forest_key [OF F x] cl by auto
    have "key_at n (ie_path x) = take (Suc n) (key_at (Suc n) (ie_path x))" by (simp add: min_def)
    also have "\<dots> = key_at n (ie_path y)" unfolding y(2) by (simp add: min_def)
    finally have k: "key_at n (ie_path x) = key_at n ?p" using key(1) y(1) kp by simp
    then have "prefix (segments ?p) (segments (ie_path x))" using d(1) kp by (metis take_is_prefix)
    moreover have "\<not> prefix (segments (ie_path x)) (segments ?p)" using y(4) len prefix_length_le by fastforce
    ultimately show ?thesis using k y(3,4) d(2) by (simp add: starts_with_clean)
  qed
  have inG: "key_at n (ie_path x) \<noteq> key_at n ?p \<and> n < length (segments (ie_path x)) \<and> clean_path (ie_path x)
      \<and> \<not> path_starts_with (ie_path x) ?p \<and> \<not> path_starts_with ?p (ie_path x)" if x: "x \<in> set (flat G)" for x
  proof -
    obtain y where y: "y \<in> set outs" "key_at n (ie_path x) = key_at n (ie_path y)" "clean_path (ie_path x)" "n < length (segments (ie_path x))"
      using forest_key [OF G x] cl by auto
    then have "key_at n (ie_path x) \<noteq> key_at n ?p" using key(2) kp by simp
    then show ?thesis using y(3,4) d(2) len key_starts_with [of "ie_path x" ?p n] key_starts_with [of ?p "ie_path x" n] by auto
  qed
  have sep: "\<not> path_starts_with (ie_path x) (ie_path y)" if "x \<in> set (flat F)" "y \<in> set (flat G)" for x y
    using inF [OF that(1)] inG [OF that(2)] key_starts_with [of "ie_path x" "ie_path y" n] by auto
  have bl: "blobs (Node ?t F # G) = ins @ outs" "blobs F = ins" using F G t by (simp_all add: forest_of_def)
  moreover have "forest_ok (Node ?t F # G)" using F G inF inG t by (simp add: forest_of_def)
  moreover have "sorted_wrt (\<lambda>x y. \<not> path_starts_with (ie_path x) (ie_path y)) (flat (Node ?t F # G))"
    using F G inF inG sep t by (auto simp: forest_of_def sorted_wrt_append)
  moreover have "\<forall>m \<in> set (nodes (Node ?t F # G)). pseudo_ok cache m"
    using F G bl cnt ins t by (auto simp: forest_of_def pseudo_ok_def)
  moreover have "\<forall>x \<in> set (flat (Node ?t F # G)). clean_path (ie_path x) \<and> n < length (segments (ie_path x))
      \<and> (\<exists>e \<in> set (ins @ outs). path_starts_with (ie_path e) (ie_path x))"
    using F G d(2) len t ins key(1) by (fastforce simp: forest_of_def inside_def)
  moreover have "q \<in> trees_of (Node ?t F # G)"
    if x: "x \<in> set (ins @ outs)" "clean_path q" "inside (ie_path x) q" "n < length (segments q)" for x q
  proof (cases "x \<in> set outs")
    case True
    then show ?thesis using G x by (simp add: forest_of_def)
  next
    case False
    then have xi: "x \<in> set ins" using x(1) by simp
    show ?thesis
    proof (cases "Suc n < length (segments q)")
      case True
      then show ?thesis using F xi x(2,3) by (simp add: forest_of_def)
    next
      case False
      then have "length (segments q) = Suc n" using x(4) by simp
      moreover have "prefix (segments q) (segments (ie_path x))" using x(2,3) cl xi by (simp add: inside_segments strict_prefix_def)
      ultimately have "segments q = key_at n (ie_path x)" by (metis append_eq_conv_conj prefix_def)
      then have "segments q = segments ?p" using key(1) xi d(1) by simp
      then have "q = ?p" by (simp only: segments_inject)
      then show ?thesis using t by simp
    qed
  qed
  ultimately show ?thesis unfolding forest_of_def by blast
qed

lemma files_at_sub:
  assumes "files_at n es" "sorted_wrt (<) (map ie_path xs)" "set xs \<subseteq> set es" "\<forall>x \<in> set xs. m < length (segments (ie_path x))"
  shows "files_at m xs"
  using assms unfolding files_at_def by (auto 0 3 dest: subsetD)

lemma cache_counts_filter:
  assumes "cache_counts cache n es" "n \<le> m"
    and "\<And>x y q. \<lbrakk>x \<in> set es; y \<in> set es; clean_path q; m < length (segments q); inside (ie_path x) q; inside (ie_path y) q; P x\<rbrakk> \<Longrightarrow> P y"
  shows "cache_counts cache m (filter P es)"
  unfolding cache_counts_def
proof (intro allI impI, elim conjE bexE)
  fix q c x assume a: "cached_child cache q = Some c" "clean_path q" "m < length (segments q)" "x \<in> set (filter P es)" "inside (ie_path x) q"
  then have x: "x \<in> set es" "P x" by simp_all
  have "filter (\<lambda>y. inside (ie_path y) q) (filter P es) = filter (\<lambda>y. inside (ie_path y) q) es"
    unfolding filter_filter using assms(3) [OF x(1) _ a(2,3,5) _ x(2)] by (intro filter_cong [OF refl]) blast
  then show "nat (tc_count c) = length (filter (\<lambda>y. inside (ie_path y) q) (filter P es))"
    using assms(1,2) a(1-3,5) x(1) unfolding cache_counts_def by (metis order.strict_trans1)
qed

lemma index_forest_of:
  assumes "files_at n es" "cache_counts cache n es"
  shows "forest_of cache n es (index_forest cache n es)"
  using assms
proof (induction cache n es rule: index_forest.induct)
  case (1 cache n)
  show ?case by (simp add: forest_of_def)
next
  case (2 cache n e es)
  have sorted: "sorted_wrt (<) (map ie_path (e # es))" using "2.prems"(1) by (simp add: files_at_def)
  show ?case
  proof (cases "length (segments (ie_path e)) \<le> Suc n")
    case True
    have "\<not> inside (ie_path e) p" if "n < length (segments p)" "clean_path p" for p
      using that True "2.prems"(1) prefix_length_less [of "segments p" "segments (ie_path e)"] by (auto simp: files_at_def inside_segments)
    then have "cache_counts cache n es" using "2.prems"(2) by (auto simp: cache_counts_def)
    moreover have "files_at n es" using "2.prems"(1) by (rule files_at_sub) (use sorted "2.prems"(1) in \<open>auto simp: files_at_def\<close>)
    ultimately show ?thesis using "2.IH"(1) True forest_of_blob [OF "2.prems"(1) True] by simp
  next
    case False
    let ?p = "dir_of n (ie_path e)"
    let ?P = "\<lambda>x. inside (ie_path x) ?p"
    have deep: "Suc n < length (segments (ie_path e))" using False by simp
    note g = group_filter [OF "2.prems"(1) deep]
    have e: "clean_path (ie_path e)" using "2.prems"(1) by (simp add: files_at_def)
    have cl: "clean_path (ie_path x)" "n < length (segments (ie_path x))" if "x \<in> set (e # es)" for x using "2.prems"(1) that by (auto simp: files_at_def)
    note d = dir_of_facts [OF e, of n]
    let ?ins = "e # takeWhile ?P es" and ?outs = "dropWhile ?P es"
    have ins: "?ins = filter ?P (e # es)" and outs: "?outs = filter (\<lambda>x. \<not> ?P x) (e # es)" using g(1-3) by simp_all
    have key: "key_at n (ie_path x) = key_at n (ie_path e) \<longleftrightarrow> ?P x" if "x \<in> set (e # es)" for x using g(3,4) that by auto
    have longer: "Suc n < length (segments (ie_path x))" if "x \<in> set ?ins" for x
    proof -
      have "x \<in> set (e # es)" "?P x" using that unfolding ins by (simp_all only: set_filter mem_Collect_eq)
      then show ?thesis using inside_dir [OF e cl(1) cl(2) deep, of x] by blast
    qed
    have si: "sorted_wrt (<) (map ie_path ?ins)" "sorted_wrt (<) (map ie_path ?outs)"
      using sorted unfolding ins outs by (simp_all add: sorted_wrt_map sorted_wrt_filter)
    have fi: "files_at (Suc n) ?ins" by (rule files_at_sub [OF "2.prems"(1) si(1)]) (use longer in \<open>auto simp: ins\<close>)
    have fo: "files_at n ?outs" by (rule files_at_sub [OF "2.prems"(1) si(2)]) (use cl in \<open>auto simp: outs\<close>)
    have same: "?P x \<longleftrightarrow> ?P y" if "x \<in> set (e # es)" "y \<in> set (e # es)" "clean_path q" "n < length (segments q)"
        "inside (ie_path x) q" "inside (ie_path y) q" for x y q
    proof -
      have "key_at n (ie_path x) = key_at n q" "key_at n (ie_path y) = key_at n q"
        using key_starts_with [of "ie_path x" q n] key_starts_with [of "ie_path y" q n] cl(1) [OF that(1)] cl(1) [OF that(2)] that(3-6)
        unfolding inside_def by blast+
      then show ?thesis using key [OF that(1)] key [OF that(2)] by simp
    qed
    have ci: "cache_counts cache (Suc n) ?ins"
      unfolding ins by (rule cache_counts_filter [OF "2.prems"(2)]) (simp, drule Suc_lessD, rule iffD1 [OF same])
    have co: "cache_counts cache n ?outs"
      unfolding outs by (rule cache_counts_filter [OF "2.prems"(2)]) (simp, erule contrapos_nn, rule iffD2 [OF same])
    have cnt: "nat (tc_count c) = length ?ins" if "cached_child cache ?p = Some c" for c
    proof -
      have "n < length (segments ?p)" using d(1) deep by simp
      then show ?thesis using "2.prems"(2) that d(2) g(3) unfolding ins cache_counts_def by (meson list.set_intros(1))
    qed
    have "forest_of cache n (?ins @ ?outs) (Node (create_pseudotree cache ?p) (index_forest cache (Suc n) ?ins) # index_forest cache n ?outs)"
    proof (rule forest_of_dir [OF e deep])
      show "\<forall>x \<in> set ?ins. key_at n (ie_path x) = key_at n (ie_path e) \<and> ?P x" "\<forall>x \<in> set ?outs. key_at n (ie_path x) \<noteq> key_at n (ie_path e)"
        using key unfolding ins outs by auto
    qed (use "2.IH"(2,3) [OF False refl refl] fi fo ci co cl cnt in \<open>auto dest: set_takeWhileD set_dropWhileD\<close>)
    then show ?thesis using False by (simp add: Let_def)
  qed
qed

section \<open>The tree of an index\<close>

text \<open>
  An index without conflicts: entries under their own key, in order, each a file with a clean path, and
  none both a file and a directory of another.
\<close>

definition index_merged :: "index_inner \<Rightarrow> bool" where
  "index_merged idx \<longleftrightarrow> index_ok idx \<and> index_clean idx \<and> df_free idx
     \<and> (\<forall>(k, e) \<in> set (entries idx). snd k = NONE \<and> ie_is_blob e)"

text \<open>
  A tree cache that tells the truth about an index: a valid node counts the files of its directory, and
  its tree object holds just these files.
\<close>

definition cache_sound :: "tree_reader \<Rightarrow> tree_cache option \<Rightarrow> index_inner \<Rightarrow> bool" where
  "cache_sound treeish cache idx \<longleftrightarrow> (\<forall>p c. repo_path p \<and> cached_child cache p = Some c \<longrightarrow>
     nat (tc_count c) = length (filter (\<lambda>e. inside (ie_path e) p) (std_iter idx))
     \<and> (\<exists>n. unfolds treeish \<lparr>te_mode = TREE, te_path = p, te_oid = tc_oid c\<rparr> n
          \<and> list_all2 same_file (blobs [n]) (filter (\<lambda>e. inside (ie_path e) p) (std_iter idx))))"

lemma merged_entry:
  assumes "index_merged idx" "(k, e) \<in> set (entries idx)"
  shows "k = (ie_path e, NONE)" "ie_is_blob e" "clean_path (ie_path e)"
proof -
  have "k = entry_key e" "snd k = NONE" "ie_is_blob e" "clean_path (fst k)"
    using assms unfolding index_merged_def index_ok_def index_clean_def by fast+
  then show "k = (ie_path e, NONE)" "ie_is_blob e" "clean_path (ie_path e)" by (simp_all add: entry_key_def)
qed

lemma std_iter_merged: "index_merged idx \<Longrightarrow> std_iter idx = map snd (entries idx)"
proof -
  assume m: "index_merged idx"
  have "\<not> is_gitlink (ie_mode e)" if "e \<in> set (map snd (entries idx))" for e
  proof -
    obtain k where "(k, e) \<in> set (entries idx)" using \<open>e \<in> set (map snd (entries idx))\<close> by auto
    then have "is_blob (ie_mode e)" using merged_entry(2) [OF m] by (simp add: ie_is_blob_def)
    then show ?thesis by (cases "ie_mode e") simp_all
  qed
  then show ?thesis by (simp add: std_iter_def filter_id_conv)
qed

lemma files_of_index: "index_merged idx \<Longrightarrow> files_at 0 (std_iter idx)"
proof -
  assume m: "index_merged idx"
  have k: "fst k = ie_path e" "snd k = NONE" "ie_is_blob e" "clean_path (ie_path e)" if "(k, e) \<in> set (entries idx)" for k e
    using merged_entry [OF m that] by simp_all
  have keys: "map fst (map fst (entries idx)) = map ie_path (std_iter idx)"
    using k(1) by (auto simp: std_iter_merged [OF m])
  have "sorted_wrt (<) (map fst (entries idx))" using m by (simp add: index_merged_def index_ok_def bt_sorted_def)
  then have "sorted_wrt (\<lambda>j k. fst j < fst k) (map fst (entries idx))"
    by (rule sorted_wrt_mono_rel [rotated]) (use k(2) in \<open>fastforce simp: less_prod_def less_eq_prod_def\<close>)
  then have "sorted_wrt (<) (map ie_path (std_iter idx))" unfolding keys [symmetric] by (simp add: sorted_wrt_map)
  moreover have "\<not> inside (ie_path x) (ie_path y)" if xy: "x \<in> set (std_iter idx)" "y \<in> set (std_iter idx)" for x y
  proof -
    obtain j k' where e: "(j, x) \<in> set (entries idx)" "(k', y) \<in> set (entries idx)" using xy by (auto simp: std_iter_merged [OF m])
    have "df_free idx" using m by (simp add: index_merged_def)
    from bspec [OF bspec [OF this [unfolded df_free_def] e(2), unfolded split_conv] e(1)]
    show ?thesis using merged_entry(1) [OF m e(1)] merged_entry(1) [OF m e(2)] by simp
  qed
  moreover have "0 < length (segments (ie_path x))" for x :: index_entry by simp
  ultimately show ?thesis using k(3,4) by (auto simp: files_at_def std_iter_merged [OF m])
qed

lemma inside_root: "clean_path p \<Longrightarrow> inside p (BitPath [])"
  by (auto simp: inside_def path_starts_with_def components_def is_absolute_def component_of_def List.map_filter_def clean_path_def segments_def clean_seg_def)

lemma root_clean: "\<not> clean_path (BitPath [])"
  by (simp add: clean_path_def segments_def clean_seg_def)

lemma index_forest_root:
  "index_merged idx \<Longrightarrow> cache_sound treeish cache idx \<Longrightarrow> forest_of cache 0 (std_iter idx) (index_forest cache 0 (std_iter idx))"
  by (intro index_forest_of [OF files_of_index]) (auto simp: cache_sound_def cache_counts_def repo_path_def)

lemma pseudotree_fields:
  "ie_path (create_pseudotree cache p) = p" "ie_mode (create_pseudotree cache p) = TREE" "ie_is_tree (create_pseudotree cache p)"
  "\<not> ie_is_blob (create_pseudotree cache p)"
  by (simp_all add: create_pseudotree_def entry_from_tree_entry_def ie_is_tree_def ie_is_blob_def)

lemma index_root_files:
  "index_merged idx \<Longrightarrow> cache_sound treeish cache idx \<Longrightarrow> blobs [index_root cache idx] = std_iter idx"
  using index_forest_root [of idx treeish cache] by (simp add: index_root_def forest_of_def pseudotree_fields)

lemma index_root_shape:
  assumes m: "index_merged idx" and c: "cache_sound treeish cache idx"
  shows "index_shape cache [index_root cache idx]"
proof -
  let ?F = "index_forest cache 0 (std_iter idx)" and ?t = "create_pseudotree cache (BitPath [])"
  have F: "forest_of cache 0 (std_iter idx) ?F" by (rule index_forest_root [OF m c])
  have cl: "clean_path (ie_path x)" if "x \<in> set (flat ?F)" for x using F that by (simp add: forest_of_def)
  have sub: "path_starts_with (ie_path x) (BitPath [])" "\<not> path_starts_with (BitPath []) (ie_path x)" if "x \<in> set (flat ?F)" for x
    using inside_root [OF cl [OF that]] components_clean [OF cl [OF that]]
    by (auto simp: inside_def path_starts_with_def components_def is_absolute_def component_of_def List.map_filter_def)
  have "filter (\<lambda>e. inside (ie_path e) (BitPath [])) (std_iter idx) = std_iter idx"
    using files_of_index [OF m] inside_root by (simp add: filter_id_conv files_at_def)
  then have "nat (tc_count k) = length (std_iter idx)" if "cached_child cache (BitPath []) = Some k" for k
    using c that unfolding cache_sound_def repo_path_def by (metis bit_path.sel)
  then have "pseudo_ok cache (Node ?t ?F)" using F by (simp add: pseudo_ok_def pseudotree_fields forest_of_def)
  then show ?thesis using F sub cl
    by (auto simp: index_root_def index_shape_def forest_of_def pseudotree_fields repo_path_def sorted_wrt_append)
qed

lemma index_iter_start:
  assumes m: "index_merged idx" and c: "cache_sound treeish cache idx" and fuel: "2 * length (flat [index_root cache idx]) \<le> fuel"
  shows "index_iter_rel fuel cache (index_iter_new idx) [index_root cache idx]"
proof -
  have F: "forest_of cache 0 (std_iter idx) (index_forest cache 0 (std_iter idx))" by (rule index_forest_root [OF m c])
  have "q \<in> trees_of [index_root cache idx]" if "e \<in> set (std_iter idx)" "clean_path q" "inside (ie_path e) q" for e q
    using F that by (auto simp: forest_of_def index_root_def)
  then show ?thesis
    using index_root_shape [OF m c] index_root_files [OF m c] fuel
    by (auto simp: index_iter_rel_def index_iter_new_def index_left_def root_next_def index_root_def pseudotree_fields)
qed

lemma index_root_below:
  assumes m: "index_merged idx" and c: "cache_sound treeish cache idx"
  shows "below_path (BitPath []) [index_root cache idx]"
proof -
  have F: "forest_of cache 0 (std_iter idx) (index_forest cache 0 (std_iter idx))" by (rule index_forest_root [OF m c])
  note sh = index_root_shape [OF m c, unfolded index_shape_def]
  have q: "q \<in> ie_path ` set (flat [index_root cache idx])"
    if x: "x \<in> set (flat [index_root cache idx])" "repo_path q" "strict_prefix [] (parts q)" "prefix (parts q) (parts (ie_path x))" for x q
  proof -
    have cq: "clean_path q" using x(2,3) by (auto simp: repo_path_def parts_def)
    have "ie_path x \<noteq> BitPath []" using x(3,4) by (auto simp: parts_def)
    then have "x \<in> set (flat (index_forest cache 0 (std_iter idx)))" using x(1) by (auto simp: index_root_def pseudotree_fields)
    then obtain e where e: "e \<in> set (std_iter idx)" "path_starts_with (ie_path e) (ie_path x)" using F by (auto simp: forest_of_def)
    have "path_starts_with (ie_path x) q" using x(1,2,4) sh by (auto simp: starts_with_parts)
    then have sw: "path_starts_with (ie_path e) q" using e(2) starts_with_trans by blast
    have "e \<in> set (flat (index_forest cache 0 (std_iter idx)))" 
    proof -
      have "e \<in> set (blobs (index_forest cache 0 (std_iter idx)))" using F e(1) by (simp add: forest_of_def)
      then show ?thesis by (simp add: blobs_def)
    qed
    moreover have "q \<in> trees_of (index_forest cache 0 (std_iter idx))" if "ie_path e \<noteq> q"
      using F e(1) cq sw that by (auto simp: forest_of_def inside_def)
    ultimately show ?thesis using trees_paths by (cases "ie_path e = q") (auto simp: index_root_def paths_of_def)
  qed
  have "parts (BitPath []) = []" by (simp add: parts_def)
  then show ?thesis using sh q by (simp add: below_path_def)
qed

text \<open>The entries below a node are those that start with its path.\<close>

lemma node_entries:
  assumes "forest_ok F" "sorted_wrt (\<lambda>x y. \<not> path_starts_with (ie_path x) (ie_path y)) (flat F)" "m \<in> set (nodes F)"
  shows "filter (\<lambda>x. path_starts_with (ie_path x) (ie_path (entry m))) (flat F) = flat [m]"
  using assms
proof (induction F rule: nodes.induct)
  case (2 e cs F)
  let ?P = "\<lambda>x. path_starts_with (ie_path x) (ie_path (entry m))"
  have none: "filter ?P (flat G) = []" if "\<forall>x \<in> set (flat G). \<not> ?P x" for G using that by (simp add: filter_empty_conv)
  have mem: "entry m \<in> set (flat G)" if "m \<in> set (nodes G)" for G using that by (auto simp: flat_nodes)
  from "2.prems"(3) consider "m = Node e cs" | "m \<in> set (nodes cs)" | "m \<in> set (nodes F)" by auto
  then show ?case
  proof cases
    case 1
    then have "filter ?P (flat cs) = flat cs" "filter ?P (flat F) = []" using "2.prems"(1) by (auto simp: filter_id_conv filter_empty_conv)
    then show ?thesis using 1 by simp
  next
    case m: 2
    have "\<not> ?P e" using "2.prems"(2) mem [OF m] by auto
    moreover have "\<forall>x \<in> set (flat F). \<not> ?P x" using "2.prems"(1) mem [OF m] by (auto dest: starts_with_trans)
    ultimately show ?thesis using none "2.IH"(1) "2.prems" m by (simp add: sorted_wrt_append)
  next
    case m: 3
    have "\<not> ?P e" "\<forall>x \<in> set (flat cs). \<not> ?P x" using "2.prems"(2) mem [OF m] by (auto simp: sorted_wrt_append)
    then show ?thesis using none "2.IH"(2) "2.prems" m by (simp add: sorted_wrt_append)
  qed
qed simp

lemma forest_node: "forest_ok F \<Longrightarrow> m \<in> set (nodes F) \<Longrightarrow> ie_is_tree (entry m) \<or> ie_is_blob (entry m) \<and> subnodes m = []"
proof (induction F rule: nodes.induct)
  case (2 e cs F)
  then show ?case by (cases "ie_mode e") (auto simp: ie_is_tree_def ie_is_blob_def)
qed simp

lemma index_node_files:
  assumes sh: "index_shape cache F" and k: "k \<in> set (nodes F)" "ie_is_tree (entry k)"
  shows "blobs [k] = filter (\<lambda>e. inside (ie_path e) (ie_path (entry k))) (blobs F)"
proof -
  let ?p = "ie_path (entry k)"
  have below: "filter (\<lambda>x. path_starts_with (ie_path x) ?p) (flat F) = flat [k]"
    using sh k(1) by (intro node_entries) (simp_all add: index_shape_def)
  have sorted: "sorted_wrt (\<lambda>x y. \<not> path_starts_with (ie_path x) (ie_path y)) (flat [k])"
    unfolding below [symmetric] using sh by (intro sorted_wrt_filter) (simp add: index_shape_def)
  have "path_starts_with (ie_path e) ?p \<longleftrightarrow> inside (ie_path e) ?p" if e: "e \<in> set (blobs F)" for e
  proof -
    have "ie_path e \<noteq> ?p" if sw: "path_starts_with (ie_path e) ?p"
    proof -
      have "e \<in> set (flat F)" "ie_is_blob e" using e by (simp_all add: blobs_def)
      then have "e \<in> set (flat [k])" "e \<noteq> entry k" using sw below k(2) tree_not_blob by (auto simp: below [symmetric])
      then have "\<not> path_starts_with ?p (ie_path e)" using sorted by (cases k) auto
      then show ?thesis using starts_with_refl by metis
    qed
    then show ?thesis by (auto simp: inside_def)
  qed
  then have "filter (\<lambda>x. path_starts_with (ie_path x) ?p) (blobs F) = filter (\<lambda>e. inside (ie_path e) ?p) (blobs F)"
    by (rule filter_cong [OF refl])
  moreover have "blobs [k] = filter (\<lambda>x. path_starts_with (ie_path x) ?p) (blobs F)"
    unfolding blobs_def below [symmetric] by (simp add: filter_filter conj_commute)
  ultimately show ?thesis by simp
qed

lemma index_root_agree:
  assumes m: "index_merged idx" and c: "cache_sound treeish cache idx" and A: "unfolds treeish d A"
  shows "agree_by same_files [A] [index_root cache idx]"
  unfolding agree_def
proof (intro ballI impI, elim conjE)
  fix n k assume n: "n \<in> set (nodes [A])" and k: "k \<in> set (nodes [index_root cache idx])" "entry n = entry k" "is_known (ie_oid (entry n))"
  note sh = index_root_shape [OF m c]
  obtain t where t: "unfolds treeish t n" using unfolds_nodes [OF A n] by blast
  have en: "entry n = entry_from_tree_entry t" by (rule unfolds_entry [OF t])
  show "same_files n k"
  proof (cases "ie_is_tree (entry k)")
    case False
    then have kb: "ie_is_blob (entry k)" "subnodes k = []" using forest_node [OF _ k(1)] sh by (auto simp: index_shape_def)
    have "te_mode t = ie_mode (entry k)" using en k(2) by (metis entry_from_tree_entry_def index_entry.select_convs(5))
    then have "te_mode t \<noteq> TREE" using kb(1) by (auto simp: ie_is_blob_def)
    with t have "subnodes n = []" by cases simp_all
    then have "n = k" using k(2) kb(2) by (cases n; cases k) simp
    then show ?thesis by (simp add: same_files_def same_file_def list_all2_same)
  next
    case True
    let ?p = "ie_path (entry k)"
    have ps: "entry k = create_pseudotree cache ?p" using sh k(1) True by (simp add: index_shape_def pseudo_ok_def)
    obtain ch where ch: "cached_child cache ?p = Some ch"
    proof (cases "cached_child cache ?p")
      case None
      then have "ie_oid (entry k) = UNKNOWN" using ps by (metis create_pseudotree_def entry_from_tree_entry_def index_entry.select_convs option.simps(4) tree_entry.select_convs)
      then show thesis using k(2,3) by (simp add: is_known_def is_unknown_def)
    qed
    then have "entry k = entry_from_tree_entry \<lparr>te_mode = TREE, te_path = ?p, te_oid = tc_oid ch\<rparr>"
      using ps by (simp add: create_pseudotree_def)
    then have te: "t = \<lparr>te_mode = TREE, te_path = ?p, te_oid = tc_oid ch\<rparr>" using en k(2) by (metis from_tree_entry_inject)
    have "repo_path ?p" using sh k(1) by (auto simp: index_shape_def flat_nodes)
    then obtain n' where n': "unfolds treeish t n'" "list_all2 same_file (blobs [n']) (filter (\<lambda>e. inside (ie_path e) ?p) (std_iter idx))"
      using c ch unfolding cache_sound_def te by blast
    have "n' = n" by (rule unfolds_unique [OF n'(1) t])
    then show ?thesis using n'(2) index_node_files [OF sh k(1) True] index_root_files [OF m c] by (simp add: same_files_def del: blobs_simps)
  qed
qed

lemma index_diffable:
  assumes "index_merged idx" "cache_sound treeish cache idx" "names_ok treeish" "unfolds treeish (root_entry a) A"
    and "sorted_paths [A]" "sorted_paths [index_root cache idx]"
  shows "diffable [A] [index_root cache idx]"
proof -
  let ?B = "index_root cache idx"
  have A: "below_path (BitPath []) [A]" "ie_path (entry A) = BitPath []"
    using unfolds_below [OF assms(4,3)] by (simp_all add: root_entry_def repo_path_def entry_from_tree_entry_def)
  have B: "below_path (BitPath []) [?B]" "ie_path (entry ?B) = BitPath []"
    using index_root_below [OF assms(1,2)] by (simp_all add: index_root_def pseudotree_fields)
  show ?thesis
    using A(1) B(1) below_aligned [OF A B] below_aligned [OF B A] assms(5,6) index_root_agree [OF assms(1,2,4)]
    by (simp add: comparable_def below_path_def)
qed

end
