(* ===== verification/Bit_Diff.thy ===== *)
theory Bit_Diff
  imports Bit_Index_Iter
begin

text \<open>
  Differences of the index: \<^verbatim>\<open>libbit/src/pathspec.rs\<close>, the filter over tree iterators of
  \<^verbatim>\<open>libbit/src/iter/tree_iter.rs\<close> and the differences between a tree and the index of
  \<^verbatim>\<open>libbit/src/diff.rs\<close>.
\<close>

section \<open>Model: path specifications\<close>

text \<open>
  A Rust string is its sequence of Unicode scalar values. Its length and positions are counted in bytes
  of UTF-8, and cutting it inside a character panics.
\<close>

definition utf8_len :: "nat \<Rightarrow> nat" where
  "utf8_len c = (if c < 0x80 then 1 else if c < 0x800 then 2 else if c < 0x10000 then 3 else 4)"

fun str_slice_to :: "nat \<Rightarrow> nat list \<Rightarrow> nat list bit_result" where
  "str_slice_to n [] = (if n = 0 then Inr [] else Inl Panic)"
| "str_slice_to n (c # cs) =
     (if n = 0 then Inr []
      else if n < utf8_len c then Inl Panic
      else and_then (str_slice_to (n - utf8_len c) cs) (\<lambda>r. Inr (c # r)))"

definition utf8_encode_char :: "nat \<Rightarrow> byte list" where
  "utf8_encode_char c =
     (if c < 0x80 then [of_nat c]
      else if c < 0x800 then [of_nat (0xC0 + c div 0x40), of_nat (0x80 + c mod 0x40)]
      else if c < 0x10000 then [of_nat (0xE0 + c div 0x1000), of_nat (0x80 + c div 0x40 mod 0x40), of_nat (0x80 + c mod 0x40)]
      else [of_nat (0xF0 + c div 0x40000), of_nat (0x80 + c div 0x1000 mod 0x40), of_nat (0x80 + c div 0x40 mod 0x40), of_nat (0x80 + c mod 0x40)])"

definition utf8_encode :: "nat list \<Rightarrow> byte list" where
  "utf8_encode = concat \<circ> map utf8_encode_char"

record pathspec =
  spec_prefix :: bit_path

definition MATCH_ALL :: pathspec where
  "MATCH_ALL = \<lparr>spec_prefix = BitPath []\<rparr>"

definition is_match_all :: "pathspec \<Rightarrow> bool" where
  "is_match_all spec \<longleftrightarrow> spec = MATCH_ALL"

definition is_wildcard :: "nat \<Rightarrow> bool" where
  "is_wildcard c \<longleftrightarrow> c = 42 \<or> c = 63 \<or> c = 91"

text \<open>The position is counted in characters; \<open>escaped\<close> is whether the character before is a backslash.\<close>

fun find_prefix_end_from :: "nat \<Rightarrow> bool \<Rightarrow> nat list \<Rightarrow> nat option" where
  "find_prefix_end_from i escaped [] = None"
| "find_prefix_end_from i escaped (c # cs) =
     (if is_wildcard c \<and> \<not> escaped then Some i else find_prefix_end_from (Suc i) (c = 92) cs)"

definition find_prefix_end :: "nat list \<Rightarrow> nat option" where
  "find_prefix_end s = find_prefix_end_from 0 False s"

definition pathspec_from_str :: "nat list \<Rightarrow> pathspec bit_result" where
  "pathspec_from_str s =
     (if s = [46] then Inr MATCH_ALL
      else and_then (case find_prefix_end s of Some i \<Rightarrow> str_slice_to i s | None \<Rightarrow> Inr s)
        (\<lambda>p. Inr \<lparr>spec_prefix = BitPath (utf8_encode p)\<rparr>))"

definition matches_path :: "pathspec \<Rightarrow> bit_path \<Rightarrow> bool" where
  "matches_path spec p \<longleftrightarrow> path_starts_with p (spec_prefix spec)"

section \<open>Model: the filter over a tree iterator\<close>

text \<open>
  \<open>Filter\<close> of the crate fallible-iterator drops the entries that do not match; the loops are bounded by
  the fuel. \<open>over\<close> steps over what does not match as a whole.
\<close>

fun filter_step :: "nat \<Rightarrow> (index_entry \<Rightarrow> bool) \<Rightarrow> 's iter_step \<Rightarrow> 's iter_step" where
  "filter_step 0 pred step s = (Inl Diverge, s)"
| "filter_step (Suc k) pred step s =
     (case step s of
        (Inl e, s) \<Rightarrow> (Inl e, s)
      | (Inr None, s) \<Rightarrow> (Inr None, s)
      | (Inr (Some x), s) \<Rightarrow> if pred x then (Inr (Some x), s) else filter_step k pred step s)"

fun filter_peek :: "nat \<Rightarrow> (index_entry \<Rightarrow> bool) \<Rightarrow> 's tree_iter_ops \<Rightarrow> 's iter_step" where
  "filter_peek 0 pred ops s = (Inl Diverge, s)"
| "filter_peek (Suc k) pred ops s =
     (case it_peek ops s of
        (Inl e, s) \<Rightarrow> (Inl e, s)
      | (Inr None, s) \<Rightarrow> it_peek ops s
      | (Inr (Some x), s) \<Rightarrow>
          if pred x then it_peek ops s
          else (case it_next ops s of
                  (Inl e, s) \<Rightarrow> (Inl e, s)
                | (Inr _, s) \<Rightarrow> filter_peek k pred ops s))"

definition filter_ops :: "nat \<Rightarrow> (index_entry \<Rightarrow> bool) \<Rightarrow> 's tree_iter_ops \<Rightarrow> 's tree_iter_ops" where
  "filter_ops fuel pred ops =
     \<lparr>it_kind = it_kind ops, it_next = filter_step fuel pred (it_next ops), it_over = filter_step fuel pred (it_over ops),
      it_peek = filter_peek fuel pred ops\<rparr>"

definition match_tree_iter :: "nat \<Rightarrow> pathspec \<Rightarrow> 's tree_iter_ops \<Rightarrow> 's tree_iter_ops" where
  "match_tree_iter fuel spec = filter_ops fuel (\<lambda>e. matches_path spec (ie_path e))"

section \<open>Model: a tree and the index\<close>

text \<open>\<open>BitIndex::diff_tree\<close> and \<open>BitIndex::diff_iterator\<close>: the tree is the old side, the index the new one.\<close>

definition index_diff_tree :: "nat \<Rightarrow> tree_reader \<Rightarrow> index_inner \<Rightarrow> oid \<Rightarrow> pathspec \<Rightarrow> workspace_status bit_result" where
  "index_diff_tree fuel treeish idx o' spec =
     diff_iterators fuel (\<lambda>_. Inl Panic) False
       (match_tree_iter fuel spec (tree_iter_ops_of treeish)) (match_tree_iter fuel spec (index_iter_ops_of fuel (index_tree_cache idx)))
       (tree_iter_new o') (index_iter_new idx)"

section \<open>The prefix of a path specification\<close>

text \<open>
  The position of the wildcard is a number of characters, the slice takes a number of bytes. For ASCII they are
  the same; otherwise the prefix is too short, or the slice ends inside a character and panics.
\<close>

lemma utf8_len_ascii: "\<forall>c \<in> set s. c < 128 \<Longrightarrow> str_slice_to i s = (if i \<le> length s then Inr (take i s) else Inl Panic)"
  by (induction i s rule: str_slice_to.induct) (auto simp: utf8_len_def take_Cons')

lemma find_prefix_end_bound: "find_prefix_end_from i b s = Some j \<Longrightarrow> i \<le> j \<and> j < i + length s \<and> is_wildcard (s ! (j - i))"
  by (induction i b s rule: find_prefix_end_from.induct) (auto simp: nth_Cons' split: if_splits)

lemma pathspec_ascii:
  assumes "\<forall>c \<in> set s. c < 128" "s \<noteq> [46]"
  shows "pathspec_from_str s = Inr \<lparr>spec_prefix = BitPath (utf8_encode (case find_prefix_end s of Some i \<Rightarrow> take i s | None \<Rightarrow> s))\<rparr>"
  using assms find_prefix_end_bound [of 0 False s] by (auto simp: pathspec_from_str_def find_prefix_end_def utf8_len_ascii split: option.splits)

lemma pathspec_not_ascii:
  "pathspec_from_str [0xE9, 42] = Inl Panic"
  "pathspec_from_str [0xE9, 0xE9, 42] = Inr \<lparr>spec_prefix = BitPath [0xC3, 0xA9]\<rparr>"
  by code_simp+

section \<open>The filter is a tree iterator\<close>

text \<open>
  Behind the first match: what is left is matched up to some point and unmatched from there on.
\<close>

definition filter_rel :: "nat \<Rightarrow> (index_entry \<Rightarrow> bool) \<Rightarrow> ('s \<Rightarrow> node list \<Rightarrow> bool) \<Rightarrow> 's \<Rightarrow> node list \<Rightarrow> bool" where
  "filter_rel fuel pred rel s F \<longleftrightarrow>
     (\<exists>G. rel s (F @ G) \<and> (\<forall>x \<in> set (flat F). pred x) \<and> (\<forall>x \<in> set (flat G). \<not> pred x) \<and> length (flat G) < fuel)"

text \<open>The forest at the first match.\<close>

function drop_unmatched :: "(index_entry \<Rightarrow> bool) \<Rightarrow> node list \<Rightarrow> node list" where
  "drop_unmatched pred [] = []"
| "drop_unmatched pred (Node e cs # F) = (if pred e then Node e cs # F else drop_unmatched pred (cs @ F))"
  by pat_completeness auto
termination
  by (relation "measure (\<lambda>(pred, F). length (flat F))") (simp_all add: flat_append)

lemma drop_unmatched_none: "\<forall>x \<in> set (flat F). \<not> pred x \<Longrightarrow> drop_unmatched pred F = []"
  by (induction pred F rule: drop_unmatched.induct) (auto simp: flat_append)

context tree_iterator
begin

lemma filter_peek_seek:
  assumes "rel s F" "length (flat F) < k"
  shows "\<exists>s'. filter_peek k pred ops s = (Inr (case drop_unmatched pred F of [] \<Rightarrow> None | n # _ \<Rightarrow> Some (entry n)), s')
    \<and> rel s' (drop_unmatched pred F)"
  using assms
proof (induction k arbitrary: s F)
  case (Suc k)
  show ?case
  proof (cases F)
    case Nil
    obtain s1 where s1: "it_peek ops s = (Inr None, s1)" "rel s1 []" using peek_Nil Suc.prems(1) Nil by blast
    obtain s2 where "it_peek ops s1 = (Inr None, s2)" "rel s2 []" using peek_Nil s1(2) by blast
    then show ?thesis using s1 Nil by simp
  next
    case (Cons n G)
    obtain e cs where n: "n = Node e cs" by (cases n)
    obtain s1 where s1: "it_peek ops s = (Inr (Some e), s1)" "rel s1 (n # G)" using peek_Cons [of s n G] Suc.prems(1) Cons n by auto
    show ?thesis
    proof (cases "pred e")
      case True
      obtain s2 where "it_peek ops s1 = (Inr (Some e), s2)" "rel s2 (n # G)" using peek_Cons [OF s1(2)] n by auto
      then show ?thesis using s1(1) True Cons n by simp
    next
      case False
      obtain s2 where s2: "it_next ops s1 = (Inr (Some e), s2)" "rel s2 (cs @ G)" using next_law [OF s1(2)] n by auto
      have "length (flat (cs @ G)) < k" using Suc.prems(2) Cons n by (simp add: flat_append)
      from Suc.IH [OF s2(2) this] show ?thesis using s1(1) s2(1) False Cons n by simp
    qed
  qed
qed simp

lemma filter_laws:
  shows "filter_rel fuel pred rel s F \<Longrightarrow>
      \<exists>s'. filter_peek fuel pred ops s = (Inr (case F of [] \<Rightarrow> None | n # _ \<Rightarrow> Some (entry n)), s') \<and> filter_rel fuel pred rel s' F"
    and "filter_rel fuel pred rel s (n # F) \<Longrightarrow>
      \<exists>s'. filter_step fuel pred (it_next ops) s = (Inr (Some (entry n)), s') \<and> filter_rel fuel pred rel s' (subnodes n @ F)"
    and "filter_rel fuel pred rel s (n # F) \<Longrightarrow>
      \<exists>s'. filter_step fuel pred (it_over ops) s = (Inr (Some (entry n)), s') \<and> filter_rel fuel pred rel s' F"
proof -
  show "\<exists>s'. filter_peek fuel pred ops s = (Inr (case F of [] \<Rightarrow> None | n # _ \<Rightarrow> Some (entry n)), s') \<and> filter_rel fuel pred rel s' F"
    if "filter_rel fuel pred rel s F"
  proof -
    obtain G where G: "rel s (F @ G)" "\<forall>x \<in> set (flat F). pred x" "\<forall>x \<in> set (flat G). \<not> pred x" "length (flat G) < fuel"
      using \<open>filter_rel fuel pred rel s F\<close> by (auto simp: filter_rel_def)
    show ?thesis
    proof (cases F)
      case Nil
      then show ?thesis using filter_peek_seek [of s G fuel pred] G drop_unmatched_none [OF G(3)] by (fastforce simp: filter_rel_def)
    next
      case (Cons n H)
      obtain k where k: "fuel = Suc k" using G(4) by (cases fuel) auto
      obtain s1 where s1: "it_peek ops s = (Inr (Some (entry n)), s1)" "rel s1 (n # H @ G)" using peek_Cons G(1) Cons by fastforce
      obtain s2 where s2: "it_peek ops s1 = (Inr (Some (entry n)), s2)" "rel s2 (n # H @ G)" using peek_Cons [OF s1(2)] by blast
      have "pred (entry n)" using G(2) Cons by (cases n) simp
      then show ?thesis using s1(1) s2 Cons G k by (auto simp: filter_rel_def)
    qed
  qed
  have split: "\<exists>G k. rel s (n # F @ G) \<and> pred (entry n) \<and> (\<forall>x \<in> set (flat (subnodes n @ F)). pred x)
      \<and> (\<forall>x \<in> set (flat G). \<not> pred x) \<and> fuel = Suc k \<and> length (flat G) < fuel" if "filter_rel fuel pred rel s (n # F)"
    using that by (cases n; cases fuel) (auto simp: filter_rel_def flat_append)
  show "\<exists>s'. filter_step fuel pred (it_next ops) s = (Inr (Some (entry n)), s') \<and> filter_rel fuel pred rel s' (subnodes n @ F)"
    if r: "filter_rel fuel pred rel s (n # F)"
  proof -
    obtain G k where G: "rel s (n # F @ G)" "pred (entry n)" "\<forall>x \<in> set (flat (subnodes n @ F)). pred x"
        "\<forall>x \<in> set (flat G). \<not> pred x" "fuel = Suc k" "length (flat G) < fuel" using split [OF r] by blast
    obtain s' where "it_next ops s = (Inr (Some (entry n)), s')" "rel s' ((subnodes n @ F) @ G)" using next_law [OF G(1)] by auto
    then show ?thesis using G by (auto simp: filter_rel_def)
  qed
  show "\<exists>s'. filter_step fuel pred (it_over ops) s = (Inr (Some (entry n)), s') \<and> filter_rel fuel pred rel s' F"
    if r: "filter_rel fuel pred rel s (n # F)"
  proof -
    obtain G k where G: "rel s (n # F @ G)" "pred (entry n)" "\<forall>x \<in> set (flat (subnodes n @ F)). pred x"
        "\<forall>x \<in> set (flat G). \<not> pred x" "fuel = Suc k" "length (flat G) < fuel" using split [OF r] by blast
    obtain s' where "it_over ops s = (Inr (Some (entry n)), s')" "rel s' (F @ G)" using over_law [OF G(1)] by auto
    then show ?thesis using G by (auto simp: filter_rel_def flat_append)
  qed
qed

end

lemma filter_iterator: "tree_iterator ops rel \<Longrightarrow> tree_iterator (match_tree_iter fuel spec ops) (filter_rel fuel (\<lambda>e. matches_path spec (ie_path e)) rel)"
  using tree_iterator.filter_laws [of ops rel] unfolding match_tree_iter_def filter_ops_def by unfold_locales simp_all

interpretation matched_diff: tree_diff
  "match_tree_iter fuel spec (tree_iter_ops_of treeish)" "filter_rel fuel (\<lambda>e. matches_path spec (ie_path e)) (tree_iter_rel treeish)"
  "match_tree_iter fuel spec (index_iter_ops_of fuel' cache)" "filter_rel fuel (\<lambda>e. matches_path spec (ie_path e)) (index_iter_rel fuel' cache)"
  for fuel spec treeish fuel' cache
  by (intro tree_diff.intro tree_diff_axioms.intro filter_iterator tree_objects.tree_iterator_axioms index_entries.tree_iterator_axioms)
    (simp_all add: match_tree_iter_def filter_ops_def tree_iter_ops_of_def index_iter_ops_of_def)

section \<open>The part of a tree that matches\<close>

text \<open>A second \<open>peek\<close> changes nothing.\<close>

definition peek_idem :: "'s tree_iter_ops \<Rightarrow> bool" where
  "peek_idem ops \<longleftrightarrow> (\<forall>s r s'. it_peek ops s = (Inr r, s') \<longrightarrow> it_peek ops s' = (Inr r, s'))"

lemma filter_peek_end:
  "peek_idem ops \<Longrightarrow> filter_peek k pred ops s = (Inr r, s') \<Longrightarrow> it_peek ops s' = (Inr r, s') \<and> (\<forall>x. r = Some x \<longrightarrow> pred x) \<and> 0 < k"
proof (induction k arbitrary: s)
  case (Suc k)
  obtain q s1 where p: "it_peek ops s = (q, s1)" by (cases "it_peek ops s")
  show ?case
  proof (cases q)
    case (Inr x)
    then have i: "it_peek ops s1 = (Inr x, s1)" using Suc.prems(1) p by (simp add: peek_idem_def)
    show ?thesis
    proof (cases "\<exists>y. x = Some y \<and> \<not> pred y")
      case True
      then obtain y where y: "x = Some y" "\<not> pred y" by blast
      obtain q' s2 where n: "it_next ops s1 = (q', s2)" by (cases "it_next ops s1")
      then show ?thesis using Suc.IH [OF Suc.prems(1), of s2] Suc.prems(2) p Inr y by (cases q') auto
    next
      case False
      then have "filter_peek (Suc k) pred ops s = (Inr x, s1)" using p Inr i by (cases x) simp_all
      then show ?thesis using Suc.prems(2) i False by auto
    qed
  qed (use Suc.prems p in simp)
qed simp

lemma filter_idem: "peek_idem ops \<Longrightarrow> peek_idem (match_tree_iter fuel spec ops)"
  unfolding peek_idem_def [of "match_tree_iter fuel spec ops"]
proof (intro allI impI)
  fix s r s' assume i: "peek_idem ops" "it_peek (match_tree_iter fuel spec ops) s = (Inr r, s')"
  let ?pred = "\<lambda>e. matches_path spec (ie_path e)"
  have "it_peek ops s' = (Inr r, s') \<and> (\<forall>x. r = Some x \<longrightarrow> ?pred x) \<and> 0 < fuel"
    using i by (intro filter_peek_end) (simp_all add: match_tree_iter_def filter_ops_def)
  then show "it_peek (match_tree_iter fuel spec ops) s' = (Inr r, s')"
    by (cases fuel; cases r) (simp_all add: match_tree_iter_def filter_ops_def)
qed

lemma tree_iter_idem: "peek_idem (tree_iter_ops_of treeish)"
  by (auto simp: peek_idem_def tree_iter_ops_of_def tree_iter_peek_def)

lemma index_iter_idem: "peek_idem (index_iter_ops_of fuel cache)"
proof -
  have "it_peek (index_iter_ops_of fuel cache) s' = (Inr r, s')" if p: "it_peek (index_iter_ops_of fuel cache) s = (Inr r, s')" for s r s'
  proof (cases r)
    case (Some x)
    then show ?thesis using p by (auto simp: index_iter_ops_of_def index_iter_peek_def split: option.splits prod.splits sum.splits)
  next
    case None
    then have n: "ii_peeked s = None" "index_iter_next cache s = (Inr None, s') \<or> (\<exists>t. index_iter_next cache s = (Inr None, t) \<and> s' = t\<lparr>ii_peeked := None\<rparr>)"
      using p by (auto simp: index_iter_ops_of_def index_iter_peek_def split: option.splits prod.splits sum.splits)
    then have "s' = s" "index_iter_next cache s = (Inr None, s)"
      by (auto simp: index_iter_next_def split: if_splits option.splits list.splits)
    then show ?thesis using n(1) None by (simp add: index_iter_ops_of_def index_iter_peek_def)
  qed
  then show ?thesis by (simp add: peek_idem_def)
qed

text \<open>The loop gives the same from where the first \<open>peek\<close> leaves the iterators.\<close>

lemma diff_loop_peeked:
  assumes "peek_idem ops1" "peek_idem ops2" "it_peek ops1 s1 = (Inr r1, p1)" "it_peek ops2 s2 = (Inr r2, p2)"
  shows "diff_loop n fuel wt incl ops1 ops2 st s1 s2 = diff_loop n fuel wt incl ops1 ops2 st p1 p2"
proof -
  have "it_peek ops1 p1 = (Inr r1, p1)" "it_peek ops2 p2 = (Inr r2, p2)" using assms by (simp_all add: peek_idem_def)
  then have "diff_round wt incl ops1 ops2 s1 s2 = diff_round wt incl ops1 ops2 p1 p2" using assms(3,4) by (simp add: diff_round_def)
  then have "tree_diff_next fuel wt incl ops1 ops2 s1 s2 = tree_diff_next fuel wt incl ops1 ops2 p1 p2" if "fuel \<noteq> 0"
    using that by (cases fuel) simp_all
  then show ?thesis by (cases n; cases fuel) simp_all
qed

lemma starts_with_le:
  assumes "repo_path p" "repo_path q" "path_starts_with p q"
  shows "q \<le> p"
proof (cases "path_bytes q = []")
  case True
  then show ?thesis using slice_cmp_append_right [of "[]" "path_bytes p"] by (auto simp: bit_path_le split: if_splits)
next
  case False
  then have q: "clean_path q" using assms(2) by (simp add: repo_path_def)
  have "path_bytes p \<noteq> []"
  proof
    assume "path_bytes p = []"
    then have "components (path_bytes q) = []" using assms(3)
      by (simp add: path_starts_with_def components_def is_absolute_def component_of_def List.map_filter_def)
    then show False using components_clean [OF q] by simp
  qed
  then have p: "clean_path p" using assms(1) by (simp add: repo_path_def)
  show ?thesis using assms(3) slice_cmp_append_right [of "path_bytes q"] unfolding starts_with_bytes [OF p q] by (auto simp: bit_path_le split: if_splits)
qed

text \<open>Above an entry of a sorted forest is what comes before it.\<close>

lemma sorted_parents_first:
  assumes "sorted_paths F" "\<forall>x \<in> set (flat F). repo_path (ie_path x)"
  shows "sorted_wrt (\<lambda>x y. \<not> path_starts_with (ie_path x) (ie_path y)) (flat F)"
proof -
  have "sorted_wrt (\<lambda>x y. ie_path x < ie_path y) (flat F)" using assms(1) by (simp add: sorted_paths_def sorted_wrt_map)
  then show ?thesis by (rule sorted_wrt_mono_rel [rotated]) (use assms(2) starts_with_le in \<open>fastforce\<close>)
qed

lemma drop_unmatched_flat: "\<exists>pre. flat F = pre @ flat (drop_unmatched pred F) \<and> (\<forall>x \<in> set pre. \<not> pred x)"
proof (induction pred F rule: drop_unmatched.induct)
  case (2 pred e cs F)
  show ?case
  proof (cases "pred e")
    case False
    then obtain pre where "flat (cs @ F) = pre @ flat (drop_unmatched pred (cs @ F))" "\<forall>x \<in> set pre. \<not> pred x" using 2 by blast
    then show ?thesis using False by (intro exI [of _ "e # pre"]) (simp add: flat_append)
  qed simp
qed simp

lemma drop_unmatched_nodes: "set (nodes (drop_unmatched pred F)) \<subseteq> set (nodes F)"
  by (induction pred F rule: drop_unmatched.induct) (auto simp: nodes_append)

lemma drop_unmatched_ok: "forest_ok F \<Longrightarrow> forest_ok (drop_unmatched pred F)"
proof (induction pred F rule: drop_unmatched.induct)
  case (2 pred e cs F)
  then show ?case using forest_ok_into [of e cs F] by auto
qed simp

lemma drop_unmatched_head: "drop_unmatched pred F = n # G \<Longrightarrow> pred (entry n)"
  by (induction pred F rule: drop_unmatched.induct) (auto split: if_splits)

text \<open>The entries below a path are one subtree.\<close>

definition matched_forest :: "bit_path \<Rightarrow> node list \<Rightarrow> node list" where
  "matched_forest p F = take 1 (drop_unmatched (\<lambda>e. path_starts_with (ie_path e) p) F)"

lemma matched_forest_split:
  assumes b: "below_path (BitPath []) [A]" and root: "ie_path (entry A) = BitPath []" and s: "sorted_paths [A]" and p: "repo_path p"
  defines "pred \<equiv> \<lambda>e. path_starts_with (ie_path e) p"
  shows "\<exists>G. drop_unmatched pred [A] = matched_forest p [A] @ G \<and> (\<forall>x \<in> set (flat (matched_forest p [A])). pred x) \<and> (\<forall>x \<in> set (flat G). \<not> pred x)"
proof (cases "drop_unmatched pred [A]")
  case Nil
  then show ?thesis by (simp add: matched_forest_def pred_def)
next
  case (Cons n G)
  obtain e cs where n: "n = Node e cs" by (cases n)
  have M: "matched_forest p [A] = [n]" using Cons by (simp add: matched_forest_def pred_def)
  obtain pre where pre: "flat [A] = pre @ flat (n # G)" "\<forall>x \<in> set pre. \<not> pred x" using drop_unmatched_flat [of "[A]" pred] Cons by auto
  have rp: "\<forall>x \<in> set (flat [A]). repo_path (ie_path x)" using b by (simp add: below_path_def)
  note first = sorted_parents_first [OF s rp]
  have e: "pred e" "e \<in> set (flat [A])" "repo_path (ie_path e)" using drop_unmatched_head [OF Cons] pre(1) rp n by auto
  have "\<exists>t \<in> set (flat [A]). ie_path t = p"
  proof (cases "parts p = []")
    case True
    then have "p = BitPath []" using parts_inject [of p "BitPath []"] by (simp add: parts_def)
    then show ?thesis using root by (cases A) auto
  next
    case False
    have "prefix (parts p) (parts (ie_path e))" using e p by (simp add: pred_def starts_with_parts)
    moreover have "strict_prefix (parts (BitPath [])) (parts p)" using False by (simp add: parts_def [of "BitPath []"] strict_prefix_def)
    ultimately have "p \<in> ie_path ` set (flat [A])" using b p e(2) unfolding below_path_def by blast
    then show ?thesis by blast
  qed
  then obtain t where t: "t \<in> set (flat [A])" "ie_path t = p" by blast
  have "t = e"
  proof (rule ccontr)
    assume "t \<noteq> e"
    have "t \<notin> set pre" using pre(2) t(2) by (auto simp: pred_def)
    then have "t \<in> set (flat cs @ flat G)" using t(1) \<open>t \<noteq> e\<close> pre(1) n by auto
    then have "\<not> path_starts_with (ie_path e) p" using first t(2) unfolding pre(1) n by (auto simp: sorted_wrt_append)
    then show False using e(1) by (simp add: pred_def)
  qed
  then have "ie_path e = p" using t(2) by simp
  moreover have "forest_ok (n # G)" using drop_unmatched_ok [of "[A]" pred] b Cons by (simp add: below_path_def)
  ultimately show ?thesis using M Cons n e(1) by (auto simp: pred_def)
qed

lemma matched_forest_flat:
  assumes "below_path (BitPath []) [A]" "ie_path (entry A) = BitPath []" "sorted_paths [A]" "repo_path p"
  shows "flat (matched_forest p [A]) = filter (\<lambda>e. path_starts_with (ie_path e) p) (flat [A])"
    "blobs (matched_forest p [A]) = filter (\<lambda>e. path_starts_with (ie_path e) p) (blobs [A])"
proof -
  let ?pred = "\<lambda>e. path_starts_with (ie_path e) p"
  obtain G where G: "drop_unmatched ?pred [A] = matched_forest p [A] @ G" "\<forall>x \<in> set (flat (matched_forest p [A])). ?pred x" "\<forall>x \<in> set (flat G). \<not> ?pred x"
    using matched_forest_split [OF assms] by blast
  obtain pre where pre: "flat [A] = pre @ flat (matched_forest p [A] @ G)" "\<forall>x \<in> set pre. \<not> ?pred x"
    using drop_unmatched_flat [of "[A]" ?pred] G(1) by auto
  have "filter ?pred pre = []" "filter ?pred (flat G) = []" "filter ?pred (flat (matched_forest p [A])) = flat (matched_forest p [A])"
    using pre(2) G(2,3) by (simp_all add: filter_empty_conv filter_id_conv)
  then show fl: "flat (matched_forest p [A]) = filter ?pred (flat [A])" unfolding pre(1) by (simp add: flat_append)
  show "blobs (matched_forest p [A]) = filter ?pred (blobs [A])"
    unfolding blobs_def fl by (simp add: conj_commute)
qed

lemma matched_diffable:
  assumes A: "below_path (BitPath []) [A]" "ie_path (entry A) = BitPath []" "sorted_paths [A]"
    and B: "below_path (BitPath []) [B]" "ie_path (entry B) = BitPath []" "sorted_paths [B]"
    and d: "diffable [A] [B]" and p: "repo_path p"
  shows "diffable (matched_forest p [A]) (matched_forest p [B])"
proof -
  let ?pred = "\<lambda>e. path_starts_with (ie_path e) p"
  note fA = matched_forest_flat(1) [OF A p] and fB = matched_forest_flat(1) [OF B p]
  have ok: "forest_ok (matched_forest p [C]) \<and> set (nodes (matched_forest p [C])) \<subseteq> set (nodes [C])" if C: "forest_ok [C]" for C
  proof (cases "drop_unmatched ?pred [C]")
    case (Cons n G)
    obtain e cs where "n = Node e cs" by (cases n)
    then show ?thesis using drop_unmatched_ok [OF C, of ?pred] drop_unmatched_nodes [of ?pred "[C]"] Cons by (auto simp: matched_forest_def)
  qed (simp add: matched_forest_def)
  have sorted: "sorted_paths (matched_forest p [A])" "sorted_paths (matched_forest p [B])"
    using A(3) B(3) by (simp_all add: sorted_paths_def fA fB sorted_wrt_map sorted_wrt_filter del: flat.simps)
  have al: "aligned (matched_forest p [X]) (matched_forest p [Y])"
    if "aligned [X] [Y]" "flat (matched_forest p [X]) = filter ?pred (flat [X])" "flat (matched_forest p [Y]) = filter ?pred (flat [Y])" for X Y
    unfolding aligned_def that(2,3)
  proof (intro ballI impI)
    fix e a assume "e \<in> set (filter ?pred (flat [Y]))" and a: "a \<in> set (filter ?pred (flat [X]))" "path_starts_with (ie_path e) (ie_path a)"
    then have "ie_path a \<in> paths_of (flat [Y])" using that(1) unfolding aligned_def by fastforce
    then obtain y where "y \<in> set (flat [Y])" "ie_path y = ie_path a" unfolding paths_of_def by (metis imageE)
    then show "ie_path a \<in> paths_of (filter ?pred (flat [Y]))" using a(1) unfolding paths_of_def by (metis (no_types, lifting) image_eqI mem_Collect_eq set_filter)
  qed
  have "agree_by same_files (matched_forest p [A]) (matched_forest p [B])"
    using d ok [of A] ok [of B] unfolding comparable_def agree_def by blast
  then show ?thesis using ok [of A] ok [of B] sorted al [OF _ fA fB] al [OF _ fB fA] d unfolding comparable_def by blast
qed

lemma filter_start:
  assumes "tree_iterator ops rel" "rel s [A]" "below_path (BitPath []) [A]" "ie_path (entry A) = BitPath []" "sorted_paths [A]"
    and p: "repo_path (spec_prefix spec)" and fuel: "length (flat [A]) < fuel"
  shows "\<exists>r s'. it_peek (match_tree_iter fuel spec ops) s = (Inr r, s')
    \<and> filter_rel fuel (\<lambda>e. matches_path spec (ie_path e)) rel s' (matched_forest (spec_prefix spec) [A])"
proof -
  let ?pred = "\<lambda>e. path_starts_with (ie_path e) (spec_prefix spec)"
  obtain G where G: "drop_unmatched ?pred [A] = matched_forest (spec_prefix spec) [A] @ G"
      "\<forall>x \<in> set (flat (matched_forest (spec_prefix spec) [A])). ?pred x" "\<forall>x \<in> set (flat G). \<not> ?pred x"
    using matched_forest_split [OF assms(3-5) p] by blast
  have "length (flat (drop_unmatched ?pred [A])) \<le> length (flat [A])" using drop_unmatched_flat [of "[A]" ?pred] by fastforce
  then have "length (flat G) < fuel" using fuel unfolding G(1) by (simp add: flat_append)
  moreover obtain s' where "filter_peek fuel ?pred ops s = (Inr (case drop_unmatched ?pred [A] of [] \<Rightarrow> None | n # _ \<Rightarrow> Some (entry n)), s')"
      "rel s' (drop_unmatched ?pred [A])"
    using tree_iterator.filter_peek_seek [OF assms(1,2) fuel] by blast
  ultimately show ?thesis using G by (auto simp: match_tree_iter_def filter_ops_def matches_path_def filter_rel_def)
qed

lemma index_diff_tree_aux:
  fixes idx a treeish
  defines "cache \<equiv> index_tree_cache idx"
  assumes m: "index_merged idx" and c: "cache_sound treeish cache idx" and names: "names_ok treeish" and A: "unfolds treeish (root_entry a) A"
    and s: "sorted_paths [A]" "sorted_paths [index_root cache idx]" and p: "repo_path (spec_prefix spec)"
    and fuel: "2 * (length (flat [A]) + length (flat [index_root cache idx])) + 1 < fuel"
  shows "index_diff_tree fuel treeish idx a spec =
    (let X = filter (\<lambda>e. matches_path spec (ie_path e)) (blobs [A]); Y = filter (\<lambda>e. matches_path spec (ie_path e)) (std_iter idx) in
     Inr \<lparr>st_new = minus_paths Y X, st_modified = changed_pairs X Y, st_deleted = minus_paths X Y\<rparr>)"
proof -
  let ?B = "index_root cache idx" and ?p = "spec_prefix spec"
  let ?ops1 = "match_tree_iter fuel spec (tree_iter_ops_of treeish)" and ?ops2 = "match_tree_iter fuel spec (index_iter_ops_of fuel cache)"
  have bA: "below_path (BitPath []) [A]" "ie_path (entry A) = BitPath []"
    using unfolds_below [OF A names] by (simp_all add: root_entry_def repo_path_def entry_from_tree_entry_def)
  have bB: "below_path (BitPath []) [?B]" "ie_path (entry ?B) = BitPath []"
    using index_root_below [OF m c] by (simp_all add: index_root_def pseudotree_fields)
  have "tree_iter_rel treeish (tree_iter_new a) [A]" using A by (simp add: tree_iter_rel_def tree_iter_new_def root_entry_def)
  then obtain r1 p1 where p1: "it_peek ?ops1 (tree_iter_new a) = (Inr r1, p1)"
      "filter_rel fuel (\<lambda>e. matches_path spec (ie_path e)) (tree_iter_rel treeish) p1 (matched_forest ?p [A])"
    using filter_start [OF tree_objects.tree_iterator_axioms _ bA s(1) p, of treeish "tree_iter_new a" fuel] fuel by auto
  have "index_iter_rel fuel cache (index_iter_new idx) [?B]" using fuel by (intro index_iter_start [OF m c]) simp
  then obtain r2 p2 where p2: "it_peek ?ops2 (index_iter_new idx) = (Inr r2, p2)"
      "filter_rel fuel (\<lambda>e. matches_path spec (ie_path e)) (index_iter_rel fuel cache) p2 (matched_forest ?p [?B])"
    using filter_start [OF index_entries.tree_iterator_axioms _ bB s(2) p, of fuel cache "index_iter_new idx" fuel] fuel by auto
  obtain k where k: "fuel = Suc k" using fuel by (cases fuel) auto
  have d: "diffable (matched_forest ?p [A]) (matched_forest ?p [?B])"
    using matched_diffable [OF bA s(1) bB s(2) index_diffable [OF m c names A s] p] .
  have fl: "length (flat (matched_forest ?p [A])) \<le> length (flat [A])" "length (flat (matched_forest ?p [?B])) \<le> length (flat [?B])"
    unfolding matched_forest_flat(1) [OF bA s(1) p] matched_forest_flat(1) [OF bB s(2) p] by (rule length_filter_le)+
  have "diff_loop fuel (Suc k) (\<lambda>_. Inl Panic) False ?ops1 ?ops2 empty_status p1 p2
      = Inr (status_of empty_status (blobs (matched_forest ?p [A])) (blobs (matched_forest ?p [?B])))"
    using matched_diff.loop_status [OF d p1(2) p2(2), of fuel k "\<lambda>_. Inl Panic" empty_status] fl fuel k by (simp add: matched_diff.size2_def)
  then have "index_diff_tree fuel treeish idx a spec = Inr (status_of empty_status (blobs (matched_forest ?p [A])) (blobs (matched_forest ?p [?B])))"
    using diff_loop_peeked [OF filter_idem [OF tree_iter_idem] filter_idem [OF index_iter_idem] p1(1) p2(1), of fuel fuel] k
    by (simp add: index_diff_tree_def diff_iterators_def cache_def [symmetric] match_tree_iter_def filter_ops_def tree_iter_ops_of_def del: diff_loop.simps)
  then show ?thesis
    unfolding matched_forest_flat(2) [OF bA s(1) p] matched_forest_flat(2) [OF bB s(2) p] index_root_files [OF m c]
    by (simp add: status_of_def empty_status_def matches_path_def Let_def)
qed


text \<open>An index with \<open>d/x\<close> and \<open>f\<close> whose cache knows the directory \<open>d\<close>; the tree has another \<open>f\<close>, and \<open>g\<close>.\<close>

definition staged :: "string \<Rightarrow> oid \<Rightarrow> index_entry" where
  "staged p x = (file_at p x)\<lparr>ie_inode := 1, ie_filesize := 1\<rparr>"

definition staged_index :: index_inner where
  "staged_index = \<lparr>entries = entries_from_iter [staged ''d/x'' [5], staged ''f'' [6]],
     index_tree_cache = Some (TreeCache (BitPath []) UNKNOWN (- 1) [(BitPath (bytes_of ''d''), TreeCache (BitPath (bytes_of ''d'')) [3] 1 [])]),
     reuc = None\<rparr>"

lemma staged_merged: "index_merged staged_index"
  unfolding index_merged_def by (intro conjI) code_simp+

lemma child_of_bare: "tc_children c = [] \<Longrightarrow> find_child_internal c cs = (if cs = [] then Some c else None)"
  by (cases cs) auto

lemma staged_cache: "cache_sound (tree_store moved_trees) (index_tree_cache staged_index) staged_index"
  unfolding cache_sound_def
proof (intro allI impI)
  fix p c assume a: "repo_path p \<and> cached_child (index_tree_cache staged_index) p = Some c"
  let ?d = "BitPath (bytes_of ''d'')"
  have fc: "bit_path_components p = [?d] \<and> c = TreeCache ?d [3] 1 []"
    using a by (cases "bit_path_components p")
      (auto simp: cached_child_def staged_index_def find_valid_child_def find_child_def child_of_bare split: option.splits if_splits)
  have cp: "clean_path p" using a fc by (auto simp: repo_path_def bit_path_components_def components_def is_absolute_def component_of_def List.map_filter_def)
  then have "map BitPath (segments p) = [?d]" using fc components_clean [OF cp] by (simp add: bit_path_components_def o_def)
  then have "segments p = [bytes_of ''d'']" by (cases "segments p") auto
  then have p: "p = ?d" using path_of_segments [of p] by (cases p) simp
  let ?n = "the (unfold_tree 10 (tree_store moved_trees) \<lparr>te_mode = TREE, te_path = ?d, te_oid = [3]\<rparr>)"
  have "unfold_tree 10 (tree_store moved_trees) \<lparr>te_mode = TREE, te_path = ?d, te_oid = [3]\<rparr> \<noteq> None" by code_simp
  then have "unfolds (tree_store moved_trees) \<lparr>te_mode = TREE, te_path = p, te_oid = tc_oid c\<rparr> ?n"
    using fc unfolding p by (intro unfold_tree_unfolds [of 10]) auto
  moreover have "list_all2 same_file (blobs [?n]) (filter (\<lambda>e. inside (ie_path e) p) (std_iter staged_index))" unfolding p by code_simp
  moreover have "length (filter (\<lambda>e. inside (ie_path e) p) (std_iter staged_index)) = 1" unfolding p by code_simp
  ultimately show "nat (tc_count c) = length (filter (\<lambda>e. inside (ie_path e) p) (std_iter staged_index))
     \<and> (\<exists>n. unfolds (tree_store moved_trees) \<lparr>te_mode = TREE, te_path = p, te_oid = tc_oid c\<rparr> n
          \<and> list_all2 same_file (blobs [n]) (filter (\<lambda>e. inside (ie_path e) p) (std_iter staged_index)))" using fc by auto
qed

lemma staged_sizes:
  "sorted_paths [index_root (index_tree_cache staged_index) staged_index]"
  "2 * (length (flat [tree_root moved_trees [1]]) + length (flat [index_root (index_tree_cache staged_index) staged_index])) + 1 < 50"
  by code_simp+

lemma moved_facts:
  "names_ok (tree_store moved_trees)" "unfolds (tree_store moved_trees) (root_entry [1]) (tree_root moved_trees [1])" "sorted_paths [tree_root moved_trees [1]]"
  using moved_ok unfolding table_ok_def tree_root_def by (auto intro!: unfold_tree_unfolds table_names)


end
