(* ===== verification/Bit_Add.thy ===== *)
theory Bit_Add
  imports Bit_Diff Bit_Walk
begin

text \<open>
  The index, a tree and the work tree: \<open>read_tree\<close>, \<open>add_all\<close>, \<open>add\<close> and \<open>apply_diff\<close> of
  \<^verbatim>\<open>libbit/src/index.rs\<close>, the comparison of an index entry with a file and the differences between index and
  work tree of \<^verbatim>\<open>libbit/src/diff.rs\<close>. The listing of the work tree and the hash of a file are parameters.
\<close>

section \<open>Model: applying differences\<close>

text \<open>
  What the operations ask the system: metadata of a file, writing a file to the object database, hashing a
  file, and the time the index file was written.
\<close>

record index_env =
  ix_lstat :: "bit_path \<Rightarrow> stat bit_result"
  ix_write_blob :: "bit_path \<Rightarrow> oid bit_result"
  ix_hash_blob :: "bit_path \<Rightarrow> oid bit_result"
  ix_mtime :: "timespec option"

definition index_add :: "index_env \<Rightarrow> index_inner \<Rightarrow> index_entry \<Rightarrow> index_inner bit_result" where
  "index_add env idx e = add_entry (ix_lstat env) (ix_write_blob env) e idx"

text \<open>\<open>WorkspaceStatus::apply_with\<close> with the \<open>IndexApplier\<close>: deletions first, then modifications, then new files.\<close>

definition apply_diff :: "index_env \<Rightarrow> workspace_status \<Rightarrow> index_inner \<Rightarrow> index_inner bit_result" where
  "apply_diff env st idx =
     (let idx = foldl (\<lambda>idx e. remove_entry (entry_key e) idx) idx (st_deleted st) in
      and_then (try_fold (\<lambda>idx d. index_add env idx (snd d)) idx (st_modified st)) (\<lambda>idx.
      try_fold (index_add env) idx (st_new st)))"

definition index_read_tree :: "nat \<Rightarrow> tree_reader \<Rightarrow> index_env \<Rightarrow> oid \<Rightarrow> index_inner \<Rightarrow> index_inner bit_result" where
  "index_read_tree fuel rd env tree idx =
     and_then (index_diff_tree fuel rd idx tree MATCH_ALL) (\<lambda>diff.
     and_then (apply_diff env diff idx) (\<lambda>idx. update_cache_tree fuel rd tree idx))"

section \<open>Model: index and work tree\<close>

datatype changed = ChangedYes | ChangedNo | ChangedMaybe

definition has_changes_inner :: "timespec option \<Rightarrow> index_entry \<Rightarrow> index_entry \<Rightarrow> changed" where
  "has_changes_inner mtime idxe wte =
     (if ie_oid idxe = ie_oid wte then ChangedNo
      else if is_known (ie_oid wte) then ChangedYes
      else if ie_mtime idxe = ie_mtime wte \<and> \<not> is_racy_entry mtime idxe then ChangedNo
      else if ie_filesize idxe \<noteq> ie_filesize wte then ChangedYes
      else if ie_inode idxe \<noteq> ie_inode wte then ChangedYes
      else if ie_mode idxe \<noteq> ie_mode wte then ChangedYes
      else ChangedMaybe)"

text \<open>The answer comes with the entry of the file, whose hash may have been filled in, and the index.\<close>

definition has_changes :: "index_env \<Rightarrow> index_inner \<Rightarrow> index_entry \<Rightarrow> index_entry \<Rightarrow> (bool \<times> index_entry \<times> index_inner) bit_result" where
  "has_changes env idx idxe wte =
     (case has_changes_inner (ix_mtime env) idxe wte of
        ChangedYes \<Rightarrow> Inr (True, wte, idx)
      | ChangedNo \<Rightarrow> Inr (False, wte, idx)
      | ChangedMaybe \<Rightarrow>
          and_then (if is_unknown (ie_oid wte)
                    then and_then (ix_hash_blob env (ie_path wte)) (\<lambda>h. Inr (wte\<lparr>ie_oid := h\<rparr>)) else Inr wte) (\<lambda>wte.
          if ie_oid idxe \<noteq> ie_oid wte then Inr (True, wte, idx)
          else and_then (index_add env idx wte) (\<lambda>idx. Inr (False, wte, idx))))"

definition is_worktree_entry_modified :: "index_env \<Rightarrow> index_inner \<Rightarrow> index_entry \<Rightarrow> (bool \<times> index_entry \<times> index_inner) bit_result" where
  "is_worktree_entry_modified env idx wte =
     (case find_entry idx (entry_key wte) of
        Some e \<Rightarrow> has_changes env idx e wte
      | None \<Rightarrow> Inr (True, wte, idx))"

datatype diff_entry = Deleted index_entry | Modified index_entry index_entry | Created index_entry

text \<open>\<open>IndexWorktreeDiffIter::next\<close>, with what is left of both iterators.\<close>

fun worktree_diff_next :: "index_env \<Rightarrow> index_inner \<Rightarrow> index_entry list \<Rightarrow> index_entry list
    \<Rightarrow> (diff_entry option \<times> index_inner \<times> index_entry list \<times> index_entry list) bit_result" where
  "worktree_diff_next env idx [] [] = Inr (None, idx, [], [])"
| "worktree_diff_next env idx [] (new # ns) = Inr (Some (Created new), idx, [], ns)"
| "worktree_diff_next env idx (old # os) [] = Inr (Some (Deleted old), idx, os, [])"
| "worktree_diff_next env idx (old # os) (new # ns) =
     (case diff_cmp old new of
        Less \<Rightarrow> Inr (Some (Deleted old), idx, os, new # ns)
      | Greater \<Rightarrow> Inr (Some (Created new), idx, old # os, ns)
      | Equal \<Rightarrow>
          and_then (has_changes env idx old new) (\<lambda>(changed, new, idx).
            if changed then Inr (Some (Modified old new), idx, os, ns) else worktree_diff_next env idx os ns))"

lemma worktree_diff_next_shrinks:
  "worktree_diff_next env idx os ns = Inr (Some d, idx', os', ns') \<Longrightarrow> length os' + length ns' < length os + length ns"
  by (induction env idx os ns rule: worktree_diff_next.induct)
    (fastforce simp: and_then_eq_Inr split: ordering.splits if_splits)+

definition worktree_differ :: "diff_entry \<Rightarrow> workspace_status \<Rightarrow> workspace_status" where
  "worktree_differ d st =
     (case d of
        Deleted old \<Rightarrow> st\<lparr>st_deleted := st_deleted st @ [old]\<rparr>
      | Modified old new \<Rightarrow> st\<lparr>st_modified := st_modified st @ [(old, new)]\<rparr>
      | Created new \<Rightarrow> st\<lparr>st_new := st_new st @ [new]\<rparr>)"

function worktree_diff_run :: "index_env \<Rightarrow> workspace_status \<Rightarrow> index_inner \<Rightarrow> index_entry list \<Rightarrow> index_entry list
    \<Rightarrow> (workspace_status \<times> index_inner) bit_result" where
  "worktree_diff_run env st idx os ns =
     (case worktree_diff_next env idx os ns of
        Inl e \<Rightarrow> Inl e
      | Inr (None, idx, _, _) \<Rightarrow> Inr (st, idx)
      | Inr (Some d, idx, os, ns) \<Rightarrow> worktree_diff_run env (worktree_differ d st) idx os ns)"
  by pat_completeness auto
termination
  by (relation "measure (\<lambda>(env, st, idx, os, ns). length os + length ns)") (auto dest: worktree_diff_next_shrinks)

declare worktree_diff_run.simps [simp del]

text \<open>\<open>BitIndex::diff_worktree\<close>; \<open>files\<close> is what the iterator over the work tree yields.\<close>

definition index_diff_worktree :: "index_env \<Rightarrow> index_entry list \<Rightarrow> pathspec \<Rightarrow> index_inner \<Rightarrow> (workspace_status \<times> index_inner) bit_result" where
  "index_diff_worktree env files spec idx =
     worktree_diff_run env empty_status idx
       (filter (\<lambda>e. matches_path spec (ie_path e)) (std_iter idx)) (filter (\<lambda>e. matches_path spec (ie_path e)) files)"

definition add_all :: "index_env \<Rightarrow> index_entry list \<Rightarrow> index_inner \<Rightarrow> index_inner bit_result" where
  "add_all env files idx =
     and_then (index_diff_worktree env files MATCH_ALL idx) (\<lambda>(diff, idx). apply_diff env diff idx)"

definition add_spec :: "index_env \<Rightarrow> index_entry list \<Rightarrow> pathspec \<Rightarrow> index_inner \<Rightarrow> index_inner bit_result" where
  "add_spec env files spec idx =
     (let es = filter (\<lambda>e. matches_path spec (ie_path e)) files in
      and_then (ensure (es \<noteq> [] \<or> is_match_all spec) (Bail ''no files added: pathspec did not match any files'')) (\<lambda>_.
      try_fold (index_add env) idx es))"

text \<open>The paths of new files are not among them, so a difference can be without paths and not empty.\<close>

lemma iter_paths_misses_new:
  "status_iter_paths \<lparr>st_new = news, st_modified = [], st_deleted = []\<rparr> = [] \<and> (status_is_empty \<lparr>st_new = news, st_modified = [], st_deleted = []\<rparr> \<longleftrightarrow> news = [])"
  by (simp add: status_iter_paths_def status_is_empty_def)

section \<open>Adding a file where it collides with nothing\<close>

lemma find_clean: "index_ok idx \<Longrightarrow> index_clean idx \<Longrightarrow> find_entry idx (q, s) = Some x \<Longrightarrow> clean_path q"
  using bt_get_Some [of "entries idx" "(q, s)" x] by (auto simp: find_entry_def index_clean_def)

lemma merged_find:
  assumes "index_merged idx"
  shows "find_entry idx (q, s) = Some e \<longleftrightarrow> s = NONE \<and> e \<in> set (std_iter idx) \<and> ie_path e = q"
proof -
  have "find_entry idx (q, s) = Some e \<longleftrightarrow> ((q, s), e) \<in> set (entries idx)"
    using assms by (simp add: index_merged_def index_ok_def find_entry_def bt_mem_get)
  moreover have "((q, s), e) \<in> set (entries idx) \<longleftrightarrow> s = NONE \<and> e \<in> set (std_iter idx) \<and> ie_path e = q"
  proof
    assume a: "((q, s), e) \<in> set (entries idx)"
    then have "e \<in> snd ` set (entries idx)" by (metis image_eqI snd_conv)
    then show "s = NONE \<and> e \<in> set (std_iter idx) \<and> ie_path e = q" using merged_entry(1) [OF assms a] by (simp add: std_iter_merged [OF assms])
  next
    assume a: "s = NONE \<and> e \<in> set (std_iter idx) \<and> ie_path e = q"
    then have "e \<in> snd ` set (entries idx)" by (simp add: std_iter_merged [OF assms])
    then obtain k where k: "(k, e) \<in> set (entries idx)" by (metis imageE prod.collapse)
    then show "((q, s), e) \<in> set (entries idx)" using a merged_entry(1) [OF assms k] by simp
  qed
  ultimately show ?thesis by simp
qed

lemma merged_stage:
  assumes m: "index_merged idx" and e: "e \<in> set (std_iter idx)"
  shows "entry_stage e = NONE"
proof -
  have "e \<in> snd ` set (entries idx)" using e by (simp add: std_iter_merged [OF m])
  then obtain k where k: "(k, e) \<in> set (entries idx)" by (metis imageE prod.collapse)
  then have "k = entry_key e" using m unfolding index_merged_def index_ok_def by fast
  then show ?thesis using merged_entry(1) [OF m k] by (simp add: entry_key_def)
qed

lemma mergedI:
  assumes "index_ok idx" "index_clean idx"
    and "\<And>q s e. find_entry idx (q, s) = Some e \<Longrightarrow> s = NONE \<and> ie_is_blob e"
    and "\<And>p q d e. find_entry idx (p, NONE) = Some d \<Longrightarrow> find_entry idx (q, NONE) = Some e \<Longrightarrow> \<not> inside p q"
  shows "index_merged idx"
proof -
  have mem: "((q, s), e) \<in> set (entries idx) \<longleftrightarrow> find_entry idx (q, s) = Some e" for q s e
    using assms(1) by (simp add: index_ok_def find_entry_def bt_mem_get)
  have "df_free idx" unfolding df_free_find [OF assms(1,2)] using assms(4) by blast
  moreover have "snd k = NONE \<and> ie_is_blob e" if "(k, e) \<in> set (entries idx)" for k e
    using that assms(3) [of "fst k" "snd k" e] mem [of "fst k" "snd k" e] by simp
  ultimately show ?thesis using assms(1,2) by (auto simp: index_merged_def)
qed

definition no_collision :: "index_inner \<Rightarrow> bit_path \<Rightarrow> bool" where
  "no_collision idx p \<longleftrightarrow> (\<forall>e \<in> set (std_iter idx). \<not> inside (ie_path e) p \<and> \<not> inside p (ie_path e))"

lemma add_entry_free:
  assumes m: "index_merged idx" and p: "clean_path (ie_path e)" and f: "fill lstat e = Inr e'" "entry_write wr e' = Inr o'"
    and e': "entry_stage e' = NONE" "ie_is_blob e'" and free: "no_collision idx (ie_path e)"
  shows "\<exists>idx'. add_entry lstat wr e idx = Inr idx' \<and> index_merged idx'
    \<and> (\<forall>q s. find_entry idx' (q, s) = (if (q, s) = (ie_path e, NONE) then Some (e'\<lparr>ie_oid := o'\<rparr>) else find_entry idx (q, s)))"
proof -
  have ok: "index_ok idx" "index_clean idx" using m by (simp_all add: index_merged_def)
  have path: "ie_path e' = ie_path e" by (rule fill_path [OF f(1)])
  let ?i1 = "remove_conflicted (ie_path e) idx"
  have ok1: "index_ok ?i1" "index_clean ?i1" using ok by (simp_all add: remove_conflicted_def index_preserved)
  obtain i2 where "remove_collisions (ie_path e) ?i1 = Inr i2" using remove_collisions_spec [OF ok1 p] by blast
  then obtain idx' where idx': "add_entry lstat wr e idx = Inr idx'"
    using f path by (simp add: add_entry_def add_entry_common_def)
  obtain e2 o2 hits where a: "index_ok idx'" "index_clean idx'" "fill lstat e = Inr e2" "entry_write wr e2 = Inr o2"
      "\<And>q s. clean_path q \<Longrightarrow> find_entry idx' (q, s) = (if (q, s) = entry_key e2 then Some (e2\<lparr>ie_oid := o2\<rparr>)
         else if dropped (ie_path e) hits (q, s) \<or> (q = ie_path e \<and> s \<noteq> NONE) then None else find_entry idx (q, s))"
    using add_entry_aux [OF ok p idx'] by blast
  have key: "e2 = e'" "o2 = o'" "entry_key e2 = (ie_path e, NONE)" using a(3,4) f e'(1) path by (simp_all add: entry_key_def)
  have find: "find_entry idx' (q, s) = (if (q, s) = (ie_path e, NONE) then Some (e'\<lparr>ie_oid := o'\<rparr>) else find_entry idx (q, s))" for q s
  proof (cases "clean_path q")
    case True
    have "find_entry idx (q, s) = None" if "dropped (ie_path e) hits (q, s) \<or> (q = ie_path e \<and> s \<noteq> NONE)" "(q, s) \<noteq> (ie_path e, NONE)"
    proof (rule ccontr)
      assume "find_entry idx (q, s) \<noteq> None"
      then obtain x where "s = NONE" "x \<in> set (std_iter idx)" "ie_path x = q" using merged_find [OF m] by blast
      then show False using free that by (auto simp: no_collision_def dropped_def inside_def)
    qed
    then show ?thesis using a(5) [OF True] key by auto
  next
    case False
    then show ?thesis using find_clean [OF ok, of q s] find_clean [OF a(1,2), of q s] p by (cases "find_entry idx (q, s)"; cases "find_entry idx' (q, s)") auto
  qed
  have "index_merged idx'"
  proof (rule mergedI [OF a(1,2)])
    show "s = NONE \<and> ie_is_blob x" if "find_entry idx' (q, s) = Some x" for q s x
      using that merged_find [OF m, of q s x] files_of_index [OF m] e'(2) unfolding find by (auto simp: files_at_def ie_is_blob_def split: if_splits)
    show "\<not> inside q r" if "find_entry idx' (q, NONE) = Some x" "find_entry idx' (r, NONE) = Some y" for q r x y
    proof -
      have "\<not> inside (ie_path e) (ie_path e)" by (simp add: inside_def)
      then show ?thesis using that merged_find [OF m, of q NONE x] merged_find [OF m, of r NONE y] free files_of_index [OF m]
        unfolding find by (auto simp: files_at_def no_collision_def split: if_splits)
    qed
  qed
  then show ?thesis using idx' find by blast
qed

lemma index_eqI:
  assumes "index_ok idx" "index_ok idx'" "\<And>q s. find_entry idx (q, s) = find_entry idx' (q, s)"
  shows "entries idx = entries idx'"
  using assms by (intro btree.items_ext) (auto simp: index_ok_def find_entry_def)

section \<open>Reading a tree into the index\<close>

text \<open>An entry the index has, added again.\<close>

lemma add_again:
  assumes m: "index_merged idx" and e: "e \<in> set (std_iter idx)" "is_filled e" "is_known (ie_oid e)"
  shows "\<exists>idx'. index_add env idx e = Inr idx' \<and> index_merged idx' \<and> entries idx' = entries idx"
proof -
  have fe: "fill (ix_lstat env) e = Inr e" "entry_write (ix_write_blob env) e = Inr (ie_oid e)" using e(2,3) by (simp_all add: fill_def entry_write_def)
  have p: "clean_path (ie_path e)" "ie_is_blob e" "no_collision idx (ie_path e)" using files_of_index [OF m] e(1) by (auto simp: files_at_def no_collision_def)
  have fnd: "find_entry idx (ie_path e, NONE) = Some e" using merged_find [OF m] e(1) by simp
  have "entry_stage e = NONE" by (rule merged_stage [OF m e(1)])
  from add_entry_free [OF m p(1) fe this p(2,3)] obtain idx' where idx': "add_entry (ix_lstat env) (ix_write_blob env) e idx = Inr idx'" "index_merged idx'"
      "\<And>q s. find_entry idx' (q, s) = (if (q, s) = (ie_path e, NONE) then Some (e\<lparr>ie_oid := ie_oid e\<rparr>) else find_entry idx (q, s))" by blast
  then have "entries idx' = entries idx" using m fnd by (intro index_eqI) (auto simp: index_merged_def)
  then show ?thesis using idx' by (auto simp: index_add_def)
qed

lemma std_iter_entries: "entries idx' = entries idx \<Longrightarrow> std_iter idx' = std_iter idx"
  by (simp add: std_iter_def)

lemma add_again_all:
  assumes "index_merged idx" "\<forall>e \<in> set es. g e \<in> set (std_iter idx) \<and> is_filled (g e) \<and> is_known (ie_oid (g e))"
  shows "\<exists>idx'. try_fold (\<lambda>idx e. index_add env idx (g e)) idx es = Inr idx' \<and> index_merged idx' \<and> entries idx' = entries idx"
  using assms
proof (induction es arbitrary: idx)
  case (Cons e es)
  obtain i1 where i1: "index_add env idx (g e) = Inr i1" "index_merged i1" "entries i1 = entries idx"
    using add_again [OF Cons.prems(1), of "g e"] Cons.prems(2) by auto
  then show ?case using Cons.IH [OF i1(2)] Cons.prems(2) std_iter_entries [OF i1(3)] by simp
qed simp

lemma remove_missing:
  assumes "index_ok idx" "\<forall>k \<in> set ks. find_entry idx k = None"
  shows "index_ok (foldl (\<lambda>idx k. remove_entry k idx) idx ks) \<and> entries (foldl (\<lambda>idx k. remove_entry k idx) idx ks) = entries idx"
proof -
  have ok: "index_ok (foldl (\<lambda>idx k. remove_entry k idx) idx ks)" using assms(1) by (rule index_ok_remove_all)
  moreover have "entries (foldl (\<lambda>idx k. remove_entry k idx) idx ks) = entries idx"
    using assms by (intro index_eqI ok) (auto simp: find_remove_all)
  ultimately show ?thesis by simp
qed

lemma match_all: "filter (\<lambda>e. matches_path MATCH_ALL (ie_path e)) xs = xs"
  by (simp add: filter_id_conv matches_path_def MATCH_ALL_def path_starts_with_def components_def is_absolute_def component_of_def List.map_filter_def)

lemma merged_entries: "index_merged idx \<Longrightarrow> entries idx' = entries idx \<Longrightarrow> index_merged idx'"
  by (simp add: index_merged_def index_ok_def index_clean_def df_free_def)


section \<open>The differences between index and work tree\<close>

lemma run_simps:
  "worktree_diff_run env st idx [] [] = Inr (st, idx)"
  "worktree_diff_run env st idx [] (n # ns) = worktree_diff_run env (st\<lparr>st_new := st_new st @ [n]\<rparr>) idx [] ns"
  "worktree_diff_run env st idx (d # ds) [] = worktree_diff_run env (st\<lparr>st_deleted := st_deleted st @ [d]\<rparr>) idx ds []"
  "diff_cmp d n = Less \<Longrightarrow> worktree_diff_run env st idx (d # ds) (n # ns) = worktree_diff_run env (st\<lparr>st_deleted := st_deleted st @ [d]\<rparr>) idx ds (n # ns)"
  "diff_cmp d n = Greater \<Longrightarrow> worktree_diff_run env st idx (d # ds) (n # ns) = worktree_diff_run env (st\<lparr>st_new := st_new st @ [n]\<rparr>) idx (d # ds) ns"
  by (subst worktree_diff_run.simps, simp add: worktree_differ_def)+

lemma run_equal:
  assumes "diff_cmp d n = Equal"
  shows "worktree_diff_run env st idx (d # ds) (n # ns) = and_then (has_changes env idx d n)
     (\<lambda>(changed, n, idx). worktree_diff_run env (if changed then st\<lparr>st_modified := st_modified st @ [(d, n)]\<rparr> else st) idx ds ns)"
proof (cases "has_changes env idx d n")
  case (Inr r)
  obtain c n' idx' where r: "r = (c, n', idx')" by (cases r)
  note unf = worktree_diff_run.simps [of env st idx "d # ds" "n # ns"]
  show ?thesis
  proof (cases c)
    case True
    then show ?thesis using assms Inr r by (simp add: unf worktree_differ_def)
  next
    case False
    then show ?thesis using assms Inr r by (simp add: unf worktree_diff_run.simps [of env st idx' ds ns])
  qed
qed (use assms in \<open>simp add: worktree_diff_run.simps [of env st idx "d # ds" "n # ns"]\<close>)

text \<open>
  A file counts as changed when its metadata say so, or when they do not decide and its hash differs; in
  the second case the entry that is reported has the hash. \<open>h\<close> is the hash of the file at a path.
\<close>

definition file_changed :: "(bit_path \<Rightarrow> oid) \<Rightarrow> timespec option \<Rightarrow> index_entry \<Rightarrow> index_entry \<Rightarrow> bool" where
  "file_changed h mtime i w \<longleftrightarrow> (case has_changes_inner mtime i w of ChangedYes \<Rightarrow> True | ChangedNo \<Rightarrow> False | ChangedMaybe \<Rightarrow> ie_oid i \<noteq> h (ie_path w))"

definition file_seen :: "(bit_path \<Rightarrow> oid) \<Rightarrow> timespec option \<Rightarrow> index_entry \<Rightarrow> index_entry \<Rightarrow> index_entry" where
  "file_seen h mtime i w = (if has_changes_inner mtime i w = ChangedMaybe then w\<lparr>ie_oid := h (ie_path w)\<rparr> else w)"

definition changed_files :: "(bit_path \<Rightarrow> oid) \<Rightarrow> timespec option \<Rightarrow> index_entry list \<Rightarrow> index_entry list \<Rightarrow> (index_entry \<times> index_entry) list" where
  "changed_files h mtime I W = concat (map (\<lambda>i. map (\<lambda>w. (i, file_seen h mtime i w)) (filter (\<lambda>w. ie_path i = ie_path w \<and> file_changed h mtime i w) W)) I)"

lemma file_seen_path [simp]: "ie_path (file_seen h t i w) = ie_path w"
  by (simp add: file_seen_def)

text \<open>A listing of the work tree: files in the order of their paths, with metadata and without hashes, all of them readable.\<close>

definition listing_ok :: "index_env \<Rightarrow> (bit_path \<Rightarrow> oid) \<Rightarrow> index_entry list \<Rightarrow> bool" where
  "listing_ok env h W \<longleftrightarrow> files_at 0 W \<and> (\<forall>w \<in> set W. is_filled w \<and> entry_stage w = NONE \<and> ie_oid w = UNKNOWN
     \<and> ix_hash_blob env (ie_path w) = Inr (h (ie_path w)) \<and> ix_write_blob env (ie_path w) = Inr (h (ie_path w)))
     \<and> (\<forall>p. is_known (h p))"

definition oid_at :: "index_inner \<Rightarrow> bit_path \<Rightarrow> oid option" where
  "oid_at idx p = map_option ie_oid (find_entry idx (p, NONE))"

lemma oid_at_paths: "index_merged idx \<Longrightarrow> oid_at idx p \<noteq> None \<longleftrightarrow> p \<in> paths_of (std_iter idx)"
  using merged_find [of idx p NONE] by (auto simp: oid_at_def paths_of_def)

text \<open>Adding a file of the listing to an index whose files are all in the listing, or that has the file.\<close>

lemma add_listed:
  assumes m: "index_merged idx" and w: "clean_path (ie_path w)" "ie_is_blob w" "is_filled w" "entry_stage w = NONE"
    and wr: "entry_write (ix_write_blob env) w = Inr o'" and free: "no_collision idx (ie_path w)"
  shows "\<exists>idx'. index_add env idx w = Inr idx' \<and> index_merged idx' \<and> (\<forall>p. oid_at idx' p = (if p = ie_path w then Some o' else oid_at idx p))"
proof -
  have "fill (ix_lstat env) w = Inr w" using w(3) by (simp add: fill_def)
  from add_entry_free [OF m w(1) this wr w(4,2) free] show ?thesis by (auto simp: index_add_def oid_at_def)
qed

lemma has_changes_step:
  assumes l: "listing_ok env h W" and w: "w \<in> set W" and m: "index_merged idx" and p: "ie_path i = ie_path w" "ie_path w \<in> paths_of (std_iter idx)"
    and same: "oid_at idx (ie_path w) = Some (ie_oid i)"
  shows "\<exists>idx'. has_changes env idx i w = Inr (file_changed h (ix_mtime env) i w, file_seen h (ix_mtime env) i w, idx')
    \<and> index_merged idx' \<and> oid_at idx' = oid_at idx"
proof (cases "has_changes_inner (ix_mtime env) i w = ChangedMaybe \<and> ie_oid i = h (ie_path w)")
  case False
  have "is_unknown (ie_oid w)" "ix_hash_blob env (ie_path w) = Inr (h (ie_path w))" using l w by (auto simp: listing_ok_def is_unknown_def)
  then show ?thesis using False m by (auto simp: has_changes_def file_changed_def file_seen_def split: changed.splits)
next
  case True
  let ?w = "w\<lparr>ie_oid := h (ie_path w)\<rparr>"
  have un: "is_unknown (ie_oid w)" "ix_hash_blob env (ie_path w) = Inr (h (ie_path w))" "is_known (h (ie_path w))"
    using l w by (auto simp: listing_ok_def is_unknown_def)
  have "no_collision idx (ie_path ?w)" using files_of_index [OF m] p(2) by (auto simp: files_at_def no_collision_def paths_of_def)
  moreover have "clean_path (ie_path ?w)" "ie_is_blob ?w" "is_filled ?w" "entry_stage ?w = NONE" "entry_write (ix_write_blob env) ?w = Inr (h (ie_path w))"
    using l w un(3) by (auto simp: listing_ok_def files_at_def ie_is_blob_def is_filled_def entry_stage_def entry_write_def)
  ultimately obtain idx' where "index_add env idx ?w = Inr idx'" "index_merged idx'" "\<And>p. oid_at idx' p = (if p = ie_path ?w then Some (h (ie_path w)) else oid_at idx p)"
    using add_listed [OF m, of ?w env] by blast
  then show ?thesis using True un same by (auto simp: has_changes_def file_changed_def file_seen_def fun_eq_iff)
qed

text \<open>What the differences between index and work tree are to be: files by path, those on both sides compared as above.\<close>

definition worktree_status :: "(bit_path \<Rightarrow> oid) \<Rightarrow> timespec option \<Rightarrow> workspace_status \<Rightarrow> index_entry list \<Rightarrow> index_entry list \<Rightarrow> workspace_status" where
  "worktree_status h mtime st I W =
     \<lparr>st_new = st_new st @ minus_paths W I, st_modified = st_modified st @ changed_files h mtime I W, st_deleted = st_deleted st @ minus_paths I W\<rparr>"

lemma changed_files_new:
  assumes "ie_path n \<notin> paths_of I"
  shows "changed_files h t I (n # W) = changed_files h t I W"
proof -
  have "ie_path i \<noteq> ie_path n" if "i \<in> set I" for i using assms that unfolding paths_of_def by (metis image_eqI)
  then show ?thesis unfolding changed_files_def by (intro arg_cong [where f = concat] map_cong) auto
qed

lemma worktree_status_deleted:
  assumes "ie_path d \<notin> paths_of W"
  shows "worktree_status h t st (d # I) W = worktree_status h t (st\<lparr>st_deleted := st_deleted st @ [d]\<rparr>) I W"
proof -
  have "filter (\<lambda>w. ie_path d = ie_path w \<and> file_changed h t d w) W = []" using assms by (auto simp: filter_empty_conv paths_of_def)
  moreover have "paths_of [d] \<inter> paths_of W = {}" using assms by (simp add: paths_of_def)
  ultimately show ?thesis using minus_left [of "[d]" W I] minus_right [of "[d]" W I] by (simp add: worktree_status_def changed_files_def)
qed

lemma worktree_status_created:
  assumes "ie_path n \<notin> paths_of I"
  shows "worktree_status h t st I (n # W) = worktree_status h t (st\<lparr>st_new := st_new st @ [n]\<rparr>) I W"
proof -
  have "changed_files h t I (n # W) = changed_files h t I W" using assms by (rule changed_files_new)
  moreover have "paths_of [n] \<inter> paths_of I = {}" using assms by (simp add: paths_of_def)
  ultimately show ?thesis using minus_left [of "[n]" I W] minus_right [of "[n]" I W] by (simp add: worktree_status_def)
qed

lemma worktree_status_match:
  assumes "ie_path d = ie_path n" "ie_path d \<notin> paths_of I" "ie_path d \<notin> paths_of W"
  shows "worktree_status h t st (d # I) (n # W)
    = worktree_status h t (if file_changed h t d n then st\<lparr>st_modified := st_modified st @ [(d, file_seen h t d n)]\<rparr> else st) I W"
proof -
  have "minus_paths (d # I) (n # W) = minus_paths I W" "minus_paths (n # W) (d # I) = minus_paths W I"
    using assms unfolding minus_paths_def paths_of_def by (auto intro!: filter_cong) (metis image_eqI)+
  moreover have "changed_files h t I (n # W) = changed_files h t I W" using assms by (intro changed_files_new) simp
  moreover have "filter (\<lambda>w. ie_path d = ie_path w \<and> file_changed h t d w) W = []" using assms(3) by (auto simp: filter_empty_conv paths_of_def)
  ultimately show ?thesis using assms(1) by (simp add: worktree_status_def changed_files_def)
qed

lemma worktree_diff_run_aux:
  assumes "listing_ok env h W0" "set W \<subseteq> set W0" "sorted_wrt (<) (map ie_path I)" "sorted_wrt (<) (map ie_path W)"
    and "index_merged idx" "\<forall>i \<in> set I. oid_at idx (ie_path i) = Some (ie_oid i)"
  shows "\<exists>idx'. worktree_diff_run env st idx I W = Inr (worktree_status h (ix_mtime env) st I W, idx') \<and> index_merged idx' \<and> oid_at idx' = oid_at idx"
  using assms(2-)
proof (induction "length I + length W" arbitrary: I W st idx rule: less_induct)
  case less
  consider "I = []" "W = []" | (new) n ns where "W = n # ns" "I = [] \<or> ie_path n < ie_path (hd I)"
    | (gone) d ds where "I = d # ds" "W = [] \<or> ie_path d < ie_path (hd W)"
    | (both) d ds n ns where "I = d # ds" "W = n # ns" "ie_path d = ie_path n"
    by (cases I; cases W) (simp_all, metis linorder_less_linear)
  then show ?case
  proof cases
    case 1
    then show ?thesis using less.prems by (simp add: run_simps worktree_status_def minus_paths_def changed_files_def)
  next
    case new
    then have "ie_path n \<notin> paths_of I" using less.prems(2) by (cases I) (auto simp: paths_of_def)
    moreover have "worktree_diff_run env st idx I W = worktree_diff_run env (st\<lparr>st_new := st_new st @ [n]\<rparr>) idx I ns"
    proof (cases I)
      case (Cons d ds)
      then have "diff_cmp d n = Greater" using new(2) by (auto simp: diff_cmp_cases)
      then show ?thesis using Cons new(1) by (simp add: run_simps)
    qed (use new in \<open>simp add: run_simps\<close>)
    ultimately show ?thesis using new less.hyps [of I ns idx] less.prems worktree_status_created [of n I h] by simp
  next
    case gone
    then have "ie_path d \<notin> paths_of W" using less.prems(3) by (cases W) (auto simp: paths_of_def)
    moreover have "worktree_diff_run env st idx I W = worktree_diff_run env (st\<lparr>st_deleted := st_deleted st @ [d]\<rparr>) idx ds W"
      using gone by (cases W) (auto simp: run_simps diff_cmp_cases)
    ultimately show ?thesis using gone less.hyps [of ds W idx] less.prems worktree_status_deleted [of d W h] by simp
  next
    case both
    have w: "n \<in> set W0" using less.prems(1) both by simp
    have same: "oid_at idx (ie_path n) = Some (ie_oid d)" using less.prems(5) both by auto
    then have "ie_path n \<in> paths_of (std_iter idx)" using oid_at_paths [OF less.prems(4), of "ie_path n"] by simp
    from has_changes_step [OF assms(1) w less.prems(4) both(3) this same] obtain i1 where
      i1: "has_changes env idx d n = Inr (file_changed h (ix_mtime env) d n, file_seen h (ix_mtime env) d n, i1)" "index_merged i1" "oid_at i1 = oid_at idx" by blast
    have "ie_path d \<notin> paths_of ds" "ie_path d \<notin> paths_of ns" using less.prems(2,3) both by (auto simp: paths_of_def)
    note eq = worktree_status_match [OF both(3) this, of h "ix_mtime env" st]
    have "worktree_diff_run env st idx I W = worktree_diff_run env (if file_changed h (ix_mtime env) d n
        then st\<lparr>st_modified := st_modified st @ [(d, file_seen h (ix_mtime env) d n)]\<rparr> else st) i1 ds ns"
      using both i1(1) by (simp add: run_equal diff_cmp_cases)
    then show ?thesis unfolding both(1,2) eq using both less.hyps [of ds ns i1] less.prems i1(2,3) by simp
  qed
qed

section \<open>Adding the whole work tree\<close>

definition listed :: "index_env \<Rightarrow> (bit_path \<Rightarrow> oid) \<Rightarrow> index_entry list \<Rightarrow> index_entry \<Rightarrow> bool" where
  "listed env h W e \<longleftrightarrow> ie_path e \<in> paths_of W \<and> ie_is_blob e \<and> is_filled e \<and> entry_stage e = NONE
     \<and> entry_write (ix_write_blob env) e = Inr (h (ie_path e))"

lemma listed_entries:
  assumes "listing_ok env h W" "w \<in> set W"
  shows "listed env h W w" "listed env h W (file_seen h t i w)"
  using assms by (auto simp: listed_def listing_ok_def files_at_def file_seen_def paths_of_def entry_write_def is_known_def is_unknown_def
      ie_is_blob_def is_filled_def entry_stage_def)

lemma add_listed_all:
  assumes "listing_ok env h W" "index_merged idx" "paths_of (std_iter idx) \<subseteq> paths_of W" "\<forall>x \<in> set xs. listed env h W (g x)"
  shows "\<exists>idx'. try_fold (\<lambda>idx x. index_add env idx (g x)) idx xs = Inr idx' \<and> index_merged idx' \<and> paths_of (std_iter idx') \<subseteq> paths_of W
    \<and> (\<forall>p. oid_at idx' p = (if p \<in> (\<lambda>x. ie_path (g x)) ` set xs then Some (h p) else oid_at idx p))"
  using assms(2-)
proof (induction xs arbitrary: idx)
  case (Cons x xs)
  have f: "files_at 0 W" using assms(1) by (simp add: listing_ok_def)
  have x: "ie_path (g x) \<in> paths_of W" "ie_is_blob (g x)" "is_filled (g x)" "entry_stage (g x) = NONE" "entry_write (ix_write_blob env) (g x) = Inr (h (ie_path (g x)))"
    using Cons.prems(3) by (simp_all add: listed_def)
  have in_W: "clean_path p \<and> (\<forall>q \<in> paths_of W. \<not> inside p q \<and> \<not> inside q p)" if "p \<in> paths_of W" for p
    using f that by (auto simp: files_at_def paths_of_def)
  have free: "no_collision idx (ie_path (g x))" using in_W [OF x(1)] Cons.prems(2) by (auto simp: no_collision_def paths_of_def)
  obtain i1 where i1: "index_add env idx (g x) = Inr i1" "index_merged i1" "\<And>p. oid_at i1 p = (if p = ie_path (g x) then Some (h (ie_path (g x))) else oid_at idx p)"
    using add_listed [OF Cons.prems(1) _ x(2-5) free] in_W [OF x(1)] by blast
  have "p \<in> paths_of W" if "p \<in> paths_of (std_iter i1)" for p
    using that oid_at_paths [OF i1(2), of p] oid_at_paths [OF Cons.prems(1), of p] i1(3) [of p] Cons.prems(2) x(1) by (auto split: if_splits)
  then have "paths_of (std_iter i1) \<subseteq> paths_of W" by blast
  from Cons.IH [OF i1(2) this] Cons.prems(3) obtain idx' where "try_fold (\<lambda>idx x. index_add env idx (g x)) i1 xs = Inr idx'" "index_merged idx'"
      "paths_of (std_iter idx') \<subseteq> paths_of W" "\<And>p. oid_at idx' p = (if p \<in> (\<lambda>x. ie_path (g x)) ` set xs then Some (h p) else oid_at i1 p)" by auto
  then show ?case using i1 by auto
qed simp

lemma remove_merged:
  assumes m: "index_merged idx" and es: "\<forall>e \<in> set es. entry_stage e = NONE"
  shows "index_merged (foldl (\<lambda>idx e. remove_entry (entry_key e) idx) idx es)
    \<and> (\<forall>p. oid_at (foldl (\<lambda>idx e. remove_entry (entry_key e) idx) idx es) p = (if p \<in> paths_of es then None else oid_at idx p))"
proof -
  let ?ks = "map entry_key es" and ?i = "foldl (\<lambda>idx k. remove_entry k idx) idx (map entry_key es)"
  have i: "foldl (\<lambda>idx e. remove_entry (entry_key e) idx) idx es = ?i" by (simp add: foldl_map)
  have ok: "index_ok idx" "index_clean idx" using m by (simp_all add: index_merged_def)
  have ok': "index_ok ?i" using ok(1) by (rule index_ok_remove_all)
  have find: "find_entry ?i k = (if k \<in> set ?ks then None else find_entry idx k)" for k using ok(1) by (simp add: find_remove_all)
  have "index_clean ?i" using ok by (simp add: index_clean_remove_all)
  then have "index_merged ?i"
  proof (rule mergedI [OF ok'])
    show "s = NONE \<and> ie_is_blob e" if "find_entry ?i (q, s) = Some e" for q s e
      using that find [of "(q, s)"] merged_find [OF m, of q s e] files_of_index [OF m] by (auto simp: files_at_def split: if_splits)
    show "\<not> inside p q" if "find_entry ?i (p, NONE) = Some d" "find_entry ?i (q, NONE) = Some e" for p q d e
      using that find [of "(p, NONE)"] find [of "(q, NONE)"] merged_find [OF m, of p NONE d] merged_find [OF m, of q NONE e] files_of_index [OF m]
      by (auto simp: files_at_def split: if_splits)
  qed
  moreover have "(p, NONE) \<in> set ?ks \<longleftrightarrow> p \<in> paths_of es" for p using es by (auto simp: entry_key_def paths_of_def image_iff)
  ultimately show ?thesis unfolding i by (auto simp: oid_at_def find)
qed

text \<open>
  What the metadata are trusted for: a file whose modification time is that of the index entry, and not as
  recent as the index file itself, has the contents of the entry.
\<close>

definition stat_honest :: "index_env \<Rightarrow> (bit_path \<Rightarrow> oid) \<Rightarrow> index_inner \<Rightarrow> index_entry list \<Rightarrow> bool" where
  "stat_honest env h idx W \<longleftrightarrow> (\<forall>i \<in> set (std_iter idx). \<forall>w \<in> set W. ie_path i = ie_path w \<and> ie_mtime i = ie_mtime w
     \<and> \<not> is_racy_entry (ix_mtime env) i \<longrightarrow> ie_oid i = h (ie_path w))"

lemma unchanged_oid:
  assumes "stat_honest env h idx W" "listing_ok env h W" "i \<in> set (std_iter idx)" "w \<in> set W" "ie_path i = ie_path w"
    and "is_known (ie_oid i)" "\<not> file_changed h (ix_mtime env) i w"
  shows "ie_oid i = h (ie_path w)"
proof (cases "has_changes_inner (ix_mtime env) i w")
  case ChangedNo
  have "ie_oid w = UNKNOWN" using assms(2,4) by (simp add: listing_ok_def)
  then have "ie_mtime i = ie_mtime w \<and> \<not> is_racy_entry (ix_mtime env) i"
    using ChangedNo assms(6) by (auto simp: has_changes_inner_def is_known_def is_unknown_def split: if_splits)
  then show ?thesis using assms(1,3-5) by (simp add: stat_honest_def)
qed (use assms(7) in \<open>simp_all add: file_changed_def\<close>)

lemma sorted_files: "files_at n W \<Longrightarrow> sorted_wrt (<) (map ie_path W)"
  by (simp add: files_at_def)

lemma oid_at_file: "index_merged idx \<Longrightarrow> i \<in> set (std_iter idx) \<Longrightarrow> oid_at idx (ie_path i) = Some (ie_oid i)"
  using merged_find [of idx "ie_path i" NONE i] by (simp add: oid_at_def)

lemma index_diff_worktree_aux:
  assumes "index_merged idx" "listing_ok env h W"
  shows "\<exists>idx'. index_diff_worktree env W spec idx = Inr (worktree_status h (ix_mtime env) empty_status
      (filter (\<lambda>e. matches_path spec (ie_path e)) (std_iter idx)) (filter (\<lambda>e. matches_path spec (ie_path e)) W), idx')
    \<and> index_merged idx' \<and> oid_at idx' = oid_at idx"
proof -
  have "sorted_wrt (<) (map ie_path (filter P xs))" if "sorted_wrt (<) (map ie_path xs)" for P xs
    using that by (simp add: sorted_wrt_map sorted_wrt_filter)
  then have "sorted_wrt (<) (map ie_path (filter P (std_iter idx)))" "sorted_wrt (<) (map ie_path (filter P W))" for P
    using assms(2) sorted_files [OF files_of_index [OF assms(1)]] sorted_files [of 0 W] by (simp_all add: listing_ok_def)
  then show ?thesis unfolding index_diff_worktree_def using assms oid_at_file [OF assms(1)] by (intro worktree_diff_run_aux [OF assms(2)]) auto
qed

lemma add_all_aux:
  assumes m: "index_merged idx" and l: "listing_ok env h W" and honest: "stat_honest env h idx W"
    and known: "\<forall>e \<in> set (std_iter idx). is_known (ie_oid e)"
  shows "\<exists>idx'. add_all env W idx = Inr idx' \<and> index_merged idx' \<and> (\<forall>p. oid_at idx' p = (if p \<in> paths_of W then Some (h p) else None))"
proof -
  let ?I = "std_iter idx" and ?t = "ix_mtime env"
  let ?st = "worktree_status h ?t empty_status ?I W"
  obtain i0 where i0: "index_diff_worktree env W MATCH_ALL idx = Inr (?st, i0)" "index_merged i0" "oid_at i0 = oid_at idx"
    using index_diff_worktree_aux [OF m l, of MATCH_ALL] unfolding match_all by blast
  have st: "st_new ?st = minus_paths W ?I" "st_modified ?st = changed_files h ?t ?I W" "st_deleted ?st = minus_paths ?I W"
    by (simp_all add: worktree_status_def empty_status_def)
  have "\<forall>e \<in> set (minus_paths ?I W). entry_stage e = NONE" using merged_stage [OF m] by (simp add: minus_paths_def)
  note rm = remove_merged [OF i0(2) this]
  let ?i1 = "foldl (\<lambda>idx e. remove_entry (entry_key e) idx) i0 (minus_paths ?I W)"
  have i1: "index_merged ?i1" "\<And>p. oid_at ?i1 p = (if p \<in> paths_of (minus_paths ?I W) then None else oid_at idx p)" using rm i0(3) by auto
  have minus: "p \<in> paths_of (minus_paths X Y) \<longleftrightarrow> p \<in> paths_of X \<and> p \<notin> paths_of Y" for p X Y by (auto simp: minus_paths_def paths_of_def)
  have sub1: "paths_of (std_iter ?i1) \<subseteq> paths_of W"
  proof
    fix p assume "p \<in> paths_of (std_iter ?i1)"
    then show "p \<in> paths_of W" using oid_at_paths [OF i1(1), of p] oid_at_paths [OF m, of p] i1(2) [of p] minus [of p ?I W] by (auto split: if_splits)
  qed
  have "\<forall>x \<in> set (changed_files h ?t ?I W). listed env h W (snd x)" using listed_entries(2) [OF l] by (auto simp: changed_files_def)
  from add_listed_all [OF l i1(1) sub1 this] obtain i2 where i2: "try_fold (\<lambda>idx x. index_add env idx (snd x)) ?i1 (changed_files h ?t ?I W) = Inr i2"
      "index_merged i2" "paths_of (std_iter i2) \<subseteq> paths_of W"
      "\<And>p. oid_at i2 p = (if p \<in> (\<lambda>x. ie_path (snd x)) ` set (changed_files h ?t ?I W) then Some (h p) else oid_at ?i1 p)" by blast
  have "\<forall>x \<in> set (minus_paths W ?I). listed env h W x" using listed_entries(1) [OF l] by (simp add: minus_paths_def)
  from add_listed_all [OF l i2(2,3), of "minus_paths W ?I" "\<lambda>x. x"] this obtain i3 where i3: "try_fold (index_add env) i2 (minus_paths W ?I) = Inr i3"
      "index_merged i3" "\<And>p. oid_at i3 p = (if p \<in> paths_of (minus_paths W ?I) then Some (h p) else oid_at i2 p)" by (auto simp: paths_of_def)
  have "add_all env W idx = Inr i3" using i0(1) i2(1) i3(1) st by (simp add: add_all_def apply_diff_def)
  moreover have "oid_at i3 p = (if p \<in> paths_of W then Some (h p) else None)" for p
  proof (cases "p \<in> paths_of W \<and> p \<in> paths_of ?I")
    case True
    then obtain i w where iw: "i \<in> set ?I" "w \<in> set W" "ie_path i = p" "ie_path w = p" by (auto simp: paths_of_def)
    have "ie_oid i = h p" if "p \<notin> (\<lambda>x. ie_path (snd x)) ` set (changed_files h ?t ?I W)"
    proof -
      have "(i, file_seen h ?t i w) \<notin> set (changed_files h ?t ?I W)" using that iw(4) by (auto simp: file_seen_def image_iff split: if_splits)
      then have "\<not> file_changed h ?t i w" using iw by (auto simp: changed_files_def)
      then show ?thesis using unchanged_oid [OF honest l iw(1,2)] iw(3,4) known iw(1) by simp
    qed
    then show ?thesis using True i3(3) i2(4) i1(2) minus oid_at_file [OF m iw(1)] iw(3) by auto
  next
    case False
    have "p \<in> paths_of ?I \<and> p \<in> paths_of W" if "p \<in> (\<lambda>x. ie_path (snd x)) ` set (changed_files h ?t ?I W)"
      using that by (auto simp: changed_files_def paths_of_def) (metis image_eqI)
    then show ?thesis using False i3(3) i2(4) i1(2) minus oid_at_paths [OF m, of p] by auto
  qed
  ultimately show ?thesis using i3(2) by blast
qed



text \<open>A work tree in which \<open>d/x\<close> is gone, \<open>f\<close> is as it was and \<open>g\<close> is new.\<close>

definition sample_hash :: "bit_path \<Rightarrow> oid" where
  "sample_hash p = (if p = BitPath (bytes_of ''f'') then [6] else [7])"

definition sample_env :: index_env where
  "sample_env = \<lparr>ix_lstat = (\<lambda>_. Inl Panic), ix_write_blob = (\<lambda>p. Inr (sample_hash p)), ix_hash_blob = (\<lambda>p. Inr (sample_hash p)), ix_mtime = None\<rparr>"

definition sample_files :: "index_entry list" where
  "sample_files = [staged ''f'' UNKNOWN, staged ''g'' UNKNOWN]"

lemma sample_listing: "listing_ok sample_env sample_hash sample_files" "stat_honest sample_env sample_hash staged_index sample_files"
    "\<forall>e \<in> set (std_iter staged_index). is_known (ie_oid e)"
proof -
  have "files_at 0 sample_files" unfolding files_at_def by (intro conjI) code_simp+
  moreover have "\<forall>w \<in> set sample_files. is_filled w \<and> entry_stage w = NONE \<and> ie_oid w = UNKNOWN" by code_simp
  moreover have "is_known [6]" "is_known [7]" by code_simp+
  then have "is_known (sample_hash p)" for p by (simp add: sample_hash_def)
  ultimately show "listing_ok sample_env sample_hash sample_files" by (simp add: listing_ok_def sample_env_def)
  show "stat_honest sample_env sample_hash staged_index sample_files" by (simp add: stat_honest_def sample_env_def is_racy_entry_def)
  show "\<forall>e \<in> set (std_iter staged_index). is_known (ie_oid e)" by code_simp
qed




text \<open>
  A change of the mode alone is missed when the modification time stays as it was, as it does under
  \<open>chmod\<close>: the mode is compared only after the modification time has decided.
\<close>

lemma mode_change_missed:
  "has_changes_inner (Some \<lparr>sec = 1, nano = 0\<rparr>) (staged ''f'' [6]) ((staged ''f'' UNKNOWN)\<lparr>ie_mode := EXEC\<rparr>) = ChangedNo"
  by code_simp

end
