(* ===== verification/Bit_Write_Tree.thy ===== *)
theory Bit_Write_Tree
  imports Bit_Index_Iter
begin

text \<open>
  Writing the index as a tree: \<open>build_tree\<close> of \<^verbatim>\<open>libbit/src/iter/tree_iter.rs\<close> and \<open>write_tree\<close> of
  \<^verbatim>\<open>libbit/src/index.rs\<close>. The object database is the list of the tree objects stored in it; SHA-1 is a parameter.
\<close>

section \<open>Model\<close>

type_synonym tree_db = "(oid \<times> byte list) list"

definition write_tree_obj :: "(byte list \<Rightarrow> oid) \<Rightarrow> tree_entry list \<Rightarrow> tree_db \<Rightarrow> oid \<times> tree_db" where
  "write_tree_obj sha1 es db =
     (let content = tree_serialize es; (o', _) = hash_and_serialize sha1 Tree content in (o', db @ [(o', content)]))"

definition read_tree_db :: "tree_db \<Rightarrow> tree_reader" where
  "read_tree_db db o' =
     (case map_of db o' of None \<Rightarrow> Inl (Bail ''object not found'') | Some bs \<Rightarrow> read_entries (length bs) bs)"

definition file_name :: "bit_path \<Rightarrow> bit_path" where
  "file_name p =
     (case rev (components (path_bytes p)) of
        Normal nm # _ \<Rightarrow> BitPath nm
      | _ \<Rightarrow> BitPath [])"

text \<open>The loop of \<open>build_tree_internal\<close> with the entries it has collected; a subtree is the same loop one level down.\<close>

fun build_tree_internal :: "nat \<Rightarrow> (byte list \<Rightarrow> oid) \<Rightarrow> 's tree_iter_ops \<Rightarrow> tree_cache option \<Rightarrow> bit_path \<Rightarrow> tree_entry list \<Rightarrow> 's \<Rightarrow> tree_db
    \<Rightarrow> oid bit_result \<times> 's \<times> tree_db" where
  "build_tree_internal 0 sha1 ops cache base acc s db = (Inl Diverge, s, db)"
| "build_tree_internal (Suc k) sha1 ops cache base acc s db =
     (let finish = (\<lambda>s. let (o', db) = write_tree_obj sha1 (mutable_tree_from_entries acc) db in (Inr o', s, db)) in
      case it_peek ops s of
        (Inl x, s) \<Rightarrow> (Inl x, s, db)
      | (Inr None, s) \<Rightarrow> finish s
      | (Inr (Some e), s) \<Rightarrow>
          if \<not> path_starts_with (ie_path e) base then finish s
          else case ie_mode e of
            TREE \<Rightarrow>
              if (case cached_child cache (ie_path e) of Some c \<Rightarrow> tc_is_valid c \<and> tc_oid c = ie_oid e | None \<Rightarrow> False)
              then (case it_over ops s of
                      (Inl x, s) \<Rightarrow> (Inl x, s, db)
                    | (Inr None, s) \<Rightarrow> (Inl Panic, s, db)
                    | (Inr (Some t), s) \<Rightarrow>
                        build_tree_internal k sha1 ops cache base (acc @ [\<lparr>te_mode = TREE, te_path = file_name (ie_path e), te_oid = ie_oid t\<rparr>]) s db)
              else (case it_next ops s of
                      (Inl x, s) \<Rightarrow> (Inl x, s, db)
                    | (Inr _, s) \<Rightarrow>
                        (case build_tree_internal k sha1 ops cache (ie_path e) [] s db of
                           (Inl x, s, db) \<Rightarrow> (Inl x, s, db)
                         | (Inr o', s, db) \<Rightarrow>
                             build_tree_internal k sha1 ops cache base (acc @ [\<lparr>te_mode = TREE, te_path = file_name (ie_path e), te_oid = o'\<rparr>]) s db))
          | GITLINK \<Rightarrow> (Inl Panic, s, db)
          | m \<Rightarrow>
              (case it_next ops s of
                 (Inl x, s) \<Rightarrow> (Inl x, s, db)
               | (Inr _, s) \<Rightarrow>
                   build_tree_internal k sha1 ops cache base (acc @ [\<lparr>te_mode = m, te_path = file_name (ie_path e), te_oid = ie_oid e\<rparr>]) s db))"

definition build_tree :: "nat \<Rightarrow> (byte list \<Rightarrow> oid) \<Rightarrow> 's tree_iter_ops \<Rightarrow> tree_cache option \<Rightarrow> 's \<Rightarrow> tree_db \<Rightarrow> oid bit_result \<times> tree_db" where
  "build_tree fuel sha1 ops cache s db =
     (case it_next ops s of
        (Inl x, s) \<Rightarrow> (Inl x, db)
      | (Inr None, s) \<Rightarrow> (Inl Panic, db)
      | (Inr (Some _), s) \<Rightarrow> (let (r, _, db) = build_tree_internal fuel sha1 ops cache (BitPath []) [] s db in (r, db)))"

definition write_tree :: "nat \<Rightarrow> (byte list \<Rightarrow> oid) \<Rightarrow> index_inner \<Rightarrow> tree_db \<Rightarrow> (oid \<times> index_inner) bit_result \<times> tree_db" where
  "write_tree fuel sha1 idx db =
     (if has_conflicts idx then (Inl (Bail ''cannot write-tree an an index that is not fully merged''), db)
      else let cache = index_tree_cache idx;
               (r, db) = build_tree fuel sha1 (index_iter_ops_of fuel cache) cache (index_iter_new idx) db in
        (and_then r (\<lambda>o'. and_then (update_cache_tree fuel (read_tree_db db) o' idx) (\<lambda>idx. Inr (o', idx))), db))"

section \<open>Stored trees are read back\<close>

text \<open>What no two objects may be: different and of the same name.\<close>

definition no_clash :: "tree_db \<Rightarrow> bool" where
  "no_clash db \<longleftrightarrow> (\<forall>x \<in> set db. is_known (fst x) \<and> (\<forall>y \<in> set db. fst x = fst y \<longrightarrow> snd x = snd y))"

lemma no_clash_read:
  assumes "no_clash db" "(o', bs) \<in> set db"
  shows "map_of db o' = Some bs"
proof -
  obtain c where c: "map_of db o' = Some c" using assms(2) by (metis map_of_eq_None_iff not_Some_eq weak_map_of_SomeI option.distinct(1))
  then have "(o', c) \<in> set db" by (rule map_of_SomeD)
  then show ?thesis using assms c by (fastforce simp: no_clash_def)
qed

lemma no_clash_known: "no_clash db \<Longrightarrow> (o', bs) \<in> set db \<Longrightarrow> is_known o'"
  by (auto simp: no_clash_def)

lemma read_mono:
  assumes "set db \<subseteq> set db'" "no_clash db'" "read_tree_db db o' = Inr es"
  shows "read_tree_db db' o' = Inr es"
proof -
  obtain bs where bs: "map_of db o' = Some bs" using assms(3) by (cases "map_of db o'") (auto simp: read_tree_db_def)
  then have "(o', bs) \<in> set db'" using assms(1) map_of_SomeD by fast
  then show ?thesis using no_clash_read [OF assms(2)] bs assms(3) by (simp add: read_tree_db_def)
qed

lemma unfolds_mono:
  assumes "\<And>o' es. rd o' = Inr es \<Longrightarrow> rd' o' = Inr es"
  shows "unfolds rd e n \<Longrightarrow> unfolds rd' e n"
proof (induction rule: unfolds.induct)
  case (unf_tree e es ns)
  have "rd' (te_oid e) = Inr es" by (rule assms [OF unf_tree.hyps(3)])
  moreover have "list_all2 (unfolds rd') (child_entries e es) ns" using unf_tree.IH by (rule list_all2_mono) simp
  ultimately show ?case using unf_tree.hyps(1,2) by (intro unfolds.unf_tree)
qed (rule unfolds.unf_blob)

lemma read_written:
  assumes "list_all entry_valid es"
  shows "read_entries (length (tree_serialize es)) (tree_serialize es) = Inr es"
  using tree_entry_codec.read_to_eof_roundtrip [OF assms] by (simp add: read_entries_def tree_serialize_def)

section \<open>Names\<close>

lemma file_name_clean: "clean_path p \<Longrightarrow> file_name p = BitPath (last (segments p))"
proof -
  assume p: "clean_path p"
  obtain ss x where "segments p = ss @ [x]" using segments_nonempty [of p] by (cases "segments p" rule: rev_cases) auto
  then show ?thesis by (simp add: file_name_def components_clean [OF p])
qed

lemma set_entries_insert_new:
  assumes "named_entry e" "list_all named_entry es" "Bit_Tree.entry_key e \<notin> Bit_Tree.entry_key ` set es"
  shows "set (entries_insert e es) = insert e (set es)"
  using assms(2,3)
proof (induction es)
  case (Cons x xs)
  then have "entry_cmp e x \<noteq> Equal" using entry_cmp_key [OF assms(1), of x] slice_cmp_Equal [of "Bit_Tree.entry_key e" "Bit_Tree.entry_key x"] by auto
  then show ?case using Cons by (auto split: ordering.splits)
qed simp

lemma set_mutable_tree:
  assumes "list_all named_entry es" "distinct (map te_path es)"
  shows "set (mutable_tree_from_entries es) = set es"
proof -
  have name: "filter (\<lambda>c. c \<noteq> b_slash) (Bit_Tree.entry_key a) = path_bytes (te_path a)" if "named_entry a" for a
  proof -
    have "filter (\<lambda>c. c \<noteq> b_slash) (path_bytes (te_path a)) = path_bytes (te_path a)"
      using that by (auto simp: named_entry_def valid_name_def filter_id_conv)
    then show ?thesis by (simp add: Bit_Tree.entry_key_def sort_key_def)
  qed
  have key: "te_path a = te_path b" if "named_entry a" "named_entry b" "Bit_Tree.entry_key a = Bit_Tree.entry_key b" for a b
    using name [OF that(1)] name [OF that(2)] that(3) by (simp add: bit_path.expand)
  have "set (foldl (\<lambda>t e. entries_insert e t) t es) = set t \<union> set es"
    if "list_all named_entry t" "list_all named_entry es" "distinct (map te_path es)" "te_path ` set t \<inter> te_path ` set es = {}" for t
    using that
  proof (induction es arbitrary: t)
    case (Cons e es)
    have "Bit_Tree.entry_key e \<notin> Bit_Tree.entry_key ` set t"
    proof
      assume "Bit_Tree.entry_key e \<in> Bit_Tree.entry_key ` set t"
      then obtain x where "x \<in> set t" "Bit_Tree.entry_key e = Bit_Tree.entry_key x" by blast
      then have "te_path e \<in> te_path ` set t" using key [of e x] Cons.prems(1,2) by (auto simp: list_all_iff)
      then show False using Cons.prems(4) by auto
    qed
    then have "set (entries_insert e t) = insert e (set t)" using Cons.prems by (intro set_entries_insert_new) auto
    then show ?case using Cons.IH [of "entries_insert e t"] Cons.prems named_entries_insert [of e t] by auto
  qed simp
  from this [of "[]"] assms show ?thesis by (simp add: mutable_tree_from_entries_def)
qed

section \<open>The tree of a directory\<close>

text \<open>The files below a forest: where they are and what they hold.\<close>

definition files_of :: "node list \<Rightarrow> (bit_path \<times> oid) set" where
  "files_of F = (\<lambda>e. (ie_path e, ie_oid e)) ` set (blobs F)"

lemma files_of_append: "files_of (F @ G) = files_of F \<union> files_of G"
  by (simp add: files_of_def blobs_def flat_append image_Un)

lemma files_of_Nil [simp]: "files_of [] = {}"
  by (simp add: files_of_def blobs_def)

lemma files_of_tree: "\<not> ie_is_blob e \<Longrightarrow> files_of [Node e cs] = files_of cs"
  by (simp add: files_of_def blobs_def)

lemma files_of_set: "files_of F = (\<Union>n \<in> set F. files_of [n])"
proof (induction F)
  case (Cons n F)
  then show ?case using files_of_append [of "[n]" F] by (simp del: flat.simps)
qed simp

text \<open>A tree entry that stands for a node: it has the node's name and leads to the node's files.\<close>

definition stands_for :: "tree_reader \<Rightarrow> node \<Rightarrow> tree_entry \<Rightarrow> bool" where
  "stands_for rd n e \<longleftrightarrow> te_path e = file_name (ie_path (entry n)) \<and> te_mode e \<noteq> GITLINK \<and> entry_valid e \<and> named_entry e
     \<and> (\<exists>m. unfolds rd (e\<lparr>te_path := ie_path (entry n)\<rparr>) m \<and> files_of [m] = files_of [n])"

text \<open>A node just below a path.\<close>

definition child_of :: "bit_path \<Rightarrow> bit_path \<Rightarrow> bool" where
  "child_of base p \<longleftrightarrow> repo_path base \<and> clean_path p \<and> butlast (segments p) = parts base"

lemma child_name:
  assumes "child_of base p"
  shows "join base (path_bytes (file_name p)) = p" "segments p = parts base @ [path_bytes (file_name p)]"
proof -
  have p: "clean_path p" "file_name p = BitPath (last (segments p))" using assms file_name_clean by (simp_all add: child_of_def)
  define nm where "nm = last (segments p)"
  have seg: "segments p = parts base @ [nm]"
    using assms append_butlast_last_id [OF segments_nonempty, of p] by (simp add: child_of_def nm_def)
  then show "segments p = parts base @ [path_bytes (file_name p)]" by (simp add: p(2) flip: nm_def)
  have l: "nm \<in> set (segments p)" by (simp add: nm_def)
  then have "name_ok nm" using p(1) segments_no_slash [OF l] by (auto simp: name_ok_def clean_path_def list_all_iff)
  moreover have "path_bytes p \<noteq> []" using p(1) by (auto simp: clean_path_def segments_def clean_seg_def)
  ultimately have "parts (join base nm) = parts p" using parts_join(2) [of base nm] assms by (simp add: child_of_def parts_def seg)
  from parts_inject [OF this] show "join base (path_bytes (file_name p)) = p" by (simp add: p(2) flip: nm_def)
qed

lemma tree_of_children:
  assumes es: "list_all2 (stands_for rd) cs es" and names: "\<forall>n \<in> set cs. child_of base (ie_path (entry n))" "distinct (map (ie_path \<circ> entry) cs)"
    and t: "rd o' = Inr (mutable_tree_from_entries es)" "is_known o'"
  shows "\<exists>m. unfolds rd \<lparr>te_mode = TREE, te_path = base, te_oid = o'\<rparr> m \<and> files_of [m] = files_of cs"
proof -
  let ?t = "\<lparr>te_mode = TREE, te_path = base, te_oid = o'\<rparr>" and ?es = "mutable_tree_from_entries es"
  have len: "length es = length cs" using es by (simp add: list_all2_lengthD)
  have nth: "stands_for rd (cs ! i) (es ! i)" if "i < length cs" for i using es that by (simp add: list_all2_nthD)
  have paths: "map te_path es = map (\<lambda>n. file_name (ie_path (entry n))) cs"
    using nth len by (auto simp: stands_for_def intro!: nth_equalityI)
  have "inj_on (\<lambda>n. file_name (ie_path (entry n))) (set cs) \<and> distinct cs"
  proof
    show "inj_on (\<lambda>n. file_name (ie_path (entry n))) (set cs)"
    proof (rule inj_onI)
      fix a b assume ab: "a \<in> set cs" "b \<in> set cs" "file_name (ie_path (entry a)) = file_name (ie_path (entry b))"
      then have "ie_path (entry a) = ie_path (entry b)" using child_name(1) names(1) by metis
      then show "a = b" using ab(1,2) names(2) inj_onD [of "ie_path \<circ> entry" "set cs" a b] by (simp add: distinct_map)
    qed
    show "distinct cs" using names(2) by (simp add: distinct_map)
  qed
  then have dst: "distinct (map te_path es)" unfolding paths by (simp add: distinct_map)
  have "list_all named_entry es" using nth len by (auto simp: list_all_length stands_for_def)
  then have set: "set ?es = set es" using dst by (rule set_mutable_tree)
  have child: "\<exists>m. unfolds rd (child_entry ?t e) m \<and> (\<forall>i < length cs. e = es ! i \<longrightarrow> files_of [m] = files_of [cs ! i])" if mem: "e \<in> set es" for e
  proof -
    obtain i where i: "i < length cs" "e = es ! i" using mem len by (auto simp: in_set_conv_nth)
    obtain m where m: "unfolds rd (e\<lparr>te_path := ie_path (entry (cs ! i))\<rparr>) m" "files_of [m] = files_of [cs ! i]"
      using nth [OF i(1)] i(2) unfolding stands_for_def by blast
    have "child_entry ?t e = e\<lparr>te_path := ie_path (entry (cs ! i))\<rparr>"
      using nth [OF i(1)] i names(1) child_name(1) by (simp add: child_entry_def stands_for_def)
    moreover have "j = i" if "j < length cs" "e = es ! j" for j
      using nth_eq_iff_index_eq [OF dst, of j i] that i len by simp
    ultimately show ?thesis using m by (intro exI [of _ m]) auto
  qed
  then obtain f where f: "\<And>e. e \<in> set es \<Longrightarrow> unfolds rd (child_entry ?t e) (f e) \<and> (\<forall>i < length cs. e = es ! i \<longrightarrow> files_of [f e] = files_of [cs ! i])" by metis
  have "filter (\<lambda>e. te_mode e \<noteq> GITLINK) ?es = ?es" unfolding filter_id_conv set using nth len by (auto simp: in_set_conv_nth stands_for_def)
  then have "list_all2 (unfolds rd) (child_entries ?t ?es) (map f ?es)"
    using f set by (simp add: child_entries_def list_all2_conv_all_nth) (metis nth_mem)
  then have "unfolds rd ?t (Node (entry_from_tree_entry ?t) (map f ?es))" using t by (intro unfolds.unf_tree) simp_all
  moreover have "files_of [Node (entry_from_tree_entry ?t) (map f ?es)] = files_of cs"
  proof -
    have "files_of (map f ?es) = (\<Union>e \<in> set es. files_of [f e])" by (subst files_of_set) (simp add: set)
    also have "set es = (!) es ` {..<length cs}" using len by (auto simp: set_conv_nth)
    also have "(\<Union>e \<in> (!) es ` {..<length cs}. files_of [f e]) = (\<Union>i < length cs. files_of [cs ! i])"
    proof -
      have "files_of [f (es ! i)] = files_of [cs ! i]" if "i < length cs" for i using f [of "es ! i"] that len by simp
      then show ?thesis by simp
    qed
    also have "\<dots> = files_of cs" by (subst (2) files_of_set) (auto simp: set_conv_nth)
    finally show ?thesis by (subst files_of_tree) (simp_all add: entry_from_tree_entry_def ie_is_blob_def)
  qed
  ultimately show ?thesis by blast
qed

section \<open>The loop\<close>

definition writable_name :: "bit_path \<Rightarrow> bool" where
  "writable_name p \<longleftrightarrow> utf8_valid (path_bytes (file_name p)) \<and> b_nul \<notin> set (path_bytes (file_name p))"

text \<open>
  The forest below a path as the loop needs it: nodes just below the path, what a valid node of the cache names is
  stored and has the node's files, and nothing behind a directory is inside it.
\<close>

fun buildable :: "tree_reader \<Rightarrow> tree_cache option \<Rightarrow> bit_path \<Rightarrow> node list \<Rightarrow> bool" where
  "buildable rd cache base [] = True"
| "buildable rd cache base (Node e cs # F) \<longleftrightarrow>
     child_of base (ie_path e) \<and> writable_name (ie_path e) \<and> ie_mode e \<noteq> GITLINK
     \<and> (if ie_is_tree e
        then buildable rd cache (ie_path e) cs
          \<and> (\<forall>c. cached_child cache (ie_path e) = Some c \<and> tc_oid c = ie_oid e \<longrightarrow> oid_wf (tc_oid c)
               \<and> (\<exists>m. unfolds rd \<lparr>te_mode = TREE, te_path = ie_path e, te_oid = tc_oid c\<rparr> m \<and> files_of [m] = files_of [Node e cs]))
        else cs = [] \<and> oid_wf (ie_oid e))
     \<and> (\<forall>x \<in> set (flat F). \<not> path_starts_with (ie_path x) (ie_path e)) \<and> buildable rd cache base F"

definition head_outside :: "bit_path \<Rightarrow> node list \<Rightarrow> bool" where
  "head_outside base G \<longleftrightarrow> (case G of [] \<Rightarrow> True | n # _ \<Rightarrow> \<not> path_starts_with (ie_path (entry n)) base)"

lemma child_starts: "child_of base p \<Longrightarrow> path_starts_with p base"
proof -
  assume c: "child_of base p"
  then have p: "repo_path base" "clean_path p" by (simp_all add: child_of_def)
  then have "parts p = segments p" by (auto simp: parts_def clean_path_def segments_def clean_seg_def)
  then show ?thesis using child_name(2) [OF c] p by (simp add: starts_with_parts repo_path_def)
qed

lemma top_in_flat: "n \<in> set F \<Longrightarrow> entry n \<in> set (flat F)"
  by (induction F rule: flat.induct) auto

lemma buildable_children:
  assumes "buildable rd cache base cs"
  shows "\<forall>n \<in> set cs. child_of base (ie_path (entry n))" "distinct (map (ie_path \<circ> entry) cs)"
proof -
  have "(\<forall>n \<in> set cs. child_of base (ie_path (entry n))) \<and> distinct (map (ie_path \<circ> entry) cs)"
    using assms
  proof (induction rd cache base cs rule: buildable.induct)
    case (2 rd cache base e cs F)
    have "ie_path e \<notin> (ie_path \<circ> entry) ` set F"
    proof
      assume "ie_path e \<in> (ie_path \<circ> entry) ` set F"
      then obtain n where n: "n \<in> set F" "ie_path (entry n) = ie_path e" by auto
      have "\<forall>x \<in> set (flat F). \<not> path_starts_with (ie_path x) (ie_path e)" using "2.prems" by simp
      from bspec [OF this top_in_flat [OF n(1)]] show False using starts_with_refl by (simp add: n(2))
    qed
    then show ?case using "2.IH"(2) "2.prems" by auto
  qed simp
  then show "\<forall>n \<in> set cs. child_of base (ie_path (entry n))" "distinct (map (ie_path \<circ> entry) cs)" by blast+
qed

lemma standsI:
  assumes "child_of base (ie_path (entry n))" "writable_name (ie_path (entry n))" "oid_wf o'" "m \<noteq> GITLINK"
    and "unfolds rd \<lparr>te_mode = m, te_path = ie_path (entry n), te_oid = o'\<rparr> k" "files_of [k] = files_of [n]"
  shows "stands_for rd n \<lparr>te_mode = m, te_path = file_name (ie_path (entry n)), te_oid = o'\<rparr>"
proof -
  let ?p = "ie_path (entry n)"
  have p: "clean_path ?p" "file_name ?p = BitPath (last (segments ?p))" using assms(1) file_name_clean by (simp_all add: child_of_def)
  have l: "last (segments ?p) \<in> set (segments ?p)" by simp
  then have "last (segments ?p) \<noteq> []" "b_slash \<notin> set (last (segments ?p))"
    using p(1) segments_no_slash [OF l] by (auto simp: clean_path_def list_all_iff clean_seg_def)
  then show ?thesis using assms p(2) by (auto simp: stands_for_def entry_valid_def named_entry_def valid_name_def writable_name_def)
qed

lemma mutable_tree_subset: "set (mutable_tree_from_entries es) \<subseteq> set es"
proof -
  have "set (foldl (\<lambda>t e. entries_insert e t) t es) \<subseteq> set t \<union> set es" for t
    using set_entries_insert by (induction es arbitrary: t) fastforce+
  from this [of "[]"] show ?thesis by (simp add: mutable_tree_from_entries_def)
qed

lemma written_tree:
  assumes "write_tree_obj sha1 (mutable_tree_from_entries es) db = (o', db')" "list_all entry_valid es" "no_clash db'"
  shows "is_known o' \<and> read_tree_db db' o' = Inr (mutable_tree_from_entries es)"
proof -
  have "(o', tree_serialize (mutable_tree_from_entries es)) \<in> set db'" using assms(1) by (auto simp: write_tree_obj_def hash_and_serialize_def Let_def)
  moreover have "list_all entry_valid (mutable_tree_from_entries es)" using assms(2) mutable_tree_subset [of es] by (auto simp: list_all_iff)
  ultimately show ?thesis using no_clash_known [OF assms(3)] no_clash_read [OF assms(3)] read_written by (auto simp: read_tree_db_def)
qed

lemma no_clash_sub: "set db \<subseteq> set db' \<Longrightarrow> no_clash db' \<Longrightarrow> no_clash db"
  unfolding no_clash_def by fast

lemma stands_mono: "(\<And>o' es. rd o' = Inr es \<Longrightarrow> rd' o' = Inr es) \<Longrightarrow> stands_for rd n e \<Longrightarrow> stands_for rd' n e"
  unfolding stands_for_def using unfolds_mono [of rd rd'] by blast

context tree_iterator
begin

lemma build_tree_internal_spec:
  assumes wf: "\<forall>bs. oid_wf (sha1 bs)"
  shows "rel s (cs @ G) \<Longrightarrow> buildable (read_tree_db db0) cache base cs \<Longrightarrow> head_outside base G \<Longrightarrow> length (flat cs) < fuel
    \<Longrightarrow> set db0 \<subseteq> set db \<Longrightarrow> list_all entry_valid acc
    \<Longrightarrow> \<exists>o' s' db'. build_tree_internal fuel sha1 ops cache base acc s db = (Inr o', s', db') \<and> rel s' G \<and> oid_wf o' \<and> set db \<subseteq> set db'
      \<and> (no_clash db' \<longrightarrow> is_known o' \<and> (\<exists>es. list_all2 (stands_for (read_tree_db db')) cs es \<and> read_tree_db db' o' = Inr (mutable_tree_from_entries (acc @ es))))"
proof (induction fuel arbitrary: cs G base acc s db)
  case (Suc k)
  note prems = Suc.prems
  show ?case
  proof (cases cs)
    case Nil
    obtain o' db' where w: "write_tree_obj sha1 (mutable_tree_from_entries acc) db = (o', db')" by force
    then have o': "oid_wf o'" "set db \<subseteq> set db'" using wf by (auto simp: write_tree_obj_def hash_and_serialize_def Let_def)
    obtain s' where "build_tree_internal (Suc k) sha1 ops cache base acc s db = (Inr o', s', db')" "rel s' G"
    proof (cases G)
      case Nil
      then show thesis using that peek_Nil [of s] prems(1) \<open>cs = []\<close> w by auto
    next
      case (Cons g G')
      then have "\<not> path_starts_with (ie_path (entry g)) base" using prems(3) by (simp add: head_outside_def)
      then show thesis using that peek_Cons [of s g G'] prems(1) \<open>cs = []\<close> Cons w by auto
    qed
    then show ?thesis using o' written_tree [OF w prems(6)] Nil by (auto intro!: exI [of _ "[]"])
  next
    case (Cons n cs')
    obtain e ds where n: "n = Node e ds" by (cases n)
    note b = prems(2) [unfolded Cons n, simplified]
    have e: "child_of base (ie_path e)" "writable_name (ie_path e)" "ie_mode e \<noteq> GITLINK" "buildable (read_tree_db db0) cache base cs'" using b by blast+
    have sw: "path_starts_with (ie_path e) base" by (rule child_starts [OF e(1)])
    obtain s1 where s1: "it_peek ops s = (Inr (Some e), s1)" "rel s1 (Node e ds # cs' @ G)" using peek_Cons [of s n "cs' @ G"] prems(1) Cons n by auto
    have fl: "length (flat ds) + length (flat cs') < k" using prems(4) Cons n by simp
    let ?post = "\<lambda>r. \<exists>o' s' db'. r = (Inr o', s', db') \<and> rel s' G \<and> oid_wf o' \<and> set db \<subseteq> set db'
      \<and> (no_clash db' \<longrightarrow> is_known o' \<and> (\<exists>es. list_all2 (stands_for (read_tree_db db')) cs es \<and> read_tree_db db' o' = Inr (mutable_tree_from_entries (acc @ es))))"
    have step: "?post (build_tree_internal k sha1 ops cache base (acc @ [t]) s2 db1)"
      if t: "rel s2 (cs' @ G)" "set db \<subseteq> set db1" "entry_valid t" "no_clash db1 \<Longrightarrow> stands_for (read_tree_db db1) n t" for s2 db1 t
    proof -
      obtain o' s' db' where r: "build_tree_internal k sha1 ops cache base (acc @ [t]) s2 db1 = (Inr o', s', db')" "rel s' G" "oid_wf o'" "set db1 \<subseteq> set db'"
          "no_clash db' \<longrightarrow> is_known o' \<and> (\<exists>es. list_all2 (stands_for (read_tree_db db')) cs' es \<and> read_tree_db db' o' = Inr (mutable_tree_from_entries ((acc @ [t]) @ es)))"
        using Suc.IH [OF t(1) e(4) prems(3), of db1 "acc @ [t]"] fl subset_trans [OF prems(5) t(2)] prems(6) t(3) by auto
      have "stands_for (read_tree_db db') n t" if "no_clash db'"
        using t(4) [OF no_clash_sub [OF r(4) that]] by (rule stands_mono [rotated]) (rule read_mono [OF r(4) that])
      then show ?thesis using r t(2) Cons by auto
    qed
    show ?thesis
    proof (cases "ie_is_tree e")
      case False
      then have f: "ds = []" "oid_wf (ie_oid e)" "is_blob (ie_mode e)" using b e(3) by (auto simp: ie_is_tree_def) (cases "ie_mode e"; simp)
      let ?t = "\<lparr>te_mode = ie_mode e, te_path = file_name (ie_path e), te_oid = ie_oid e\<rparr>"
      obtain s2 where s2: "it_next ops s1 = (Inr (Some e), s2)" "rel s2 (cs' @ G)" using next_law [OF s1(2)] f(1) by auto
      have "stands_for rd n ?t" for rd
      proof -
        let ?m = "Node (entry_from_tree_entry \<lparr>te_mode = ie_mode e, te_path = ie_path e, te_oid = ie_oid e\<rparr>) []"
        have "unfolds rd \<lparr>te_mode = ie_mode e, te_path = ie_path e, te_oid = ie_oid e\<rparr> ?m" using f(3) by (intro unfolds.unf_blob) simp
        moreover have "files_of [?m] = files_of [n]" using f by (simp add: n files_of_def blobs_def entry_from_tree_entry_def ie_is_blob_def)
        ultimately show ?thesis using standsI [of base n "ie_oid e" "ie_mode e" rd ?m] e f n by simp
      qed
      moreover have "build_tree_internal (Suc k) sha1 ops cache base acc s db = build_tree_internal k sha1 ops cache base (acc @ [?t]) s2 db"
        using f(3) s1(1) s2(1) sw by (cases "ie_mode e") (simp_all add: Let_def)
      moreover have "entry_valid ?t" using e(2) f(2) by (simp add: entry_valid_def writable_name_def)
      ultimately show ?thesis using step [OF s2(2) subset_refl] by simp
    next
      case True
      then have m: "ie_mode e = TREE" by (cases "ie_mode e") (simp_all add: ie_is_tree_def)
      note T = b [simplified True if_True]
      let ?t = "\<lambda>o'. \<lparr>te_mode = TREE, te_path = file_name (ie_path e), te_oid = o'\<rparr>"
      show ?thesis
      proof (cases "case cached_child cache (ie_path e) of Some c \<Rightarrow> tc_is_valid c \<and> tc_oid c = ie_oid e | None \<Rightarrow> False")
        case c: True
        then obtain c where "cached_child cache (ie_path e) = Some c" "tc_oid c = ie_oid e" by (auto split: option.splits)
        then obtain k' where k': "oid_wf (ie_oid e)" "unfolds (read_tree_db db0) \<lparr>te_mode = TREE, te_path = ie_path e, te_oid = ie_oid e\<rparr> k'"
            "files_of [k'] = files_of [Node e ds]" using T by metis
        obtain s2 where s2: "it_over ops s1 = (Inr (Some e), s2)" "rel s2 (cs' @ G)" using over_law [OF s1(2)] by auto
        have st: "stands_for (read_tree_db db0) n (?t (ie_oid e))" using standsI [of base n "ie_oid e" TREE _ k'] e k' n by simp
        then have sdb: "stands_for (read_tree_db db) n (?t (ie_oid e))" if "no_clash db"
          by (rule stands_mono [rotated]) (rule read_mono [OF prems(5) that])
        have v: "entry_valid (?t (ie_oid e))" using e(2) k'(1) by (simp add: entry_valid_def writable_name_def)
        have "build_tree_internal (Suc k) sha1 ops cache base acc s db = build_tree_internal k sha1 ops cache base (acc @ [?t (ie_oid e)]) s2 db"
          using s1(1) s2(1) sw m c by (simp add: Let_def)
        then show ?thesis using step [OF s2(2) subset_refl v sdb] by simp
      next
        case c: False
        obtain s2 where s2: "it_next ops s1 = (Inr (Some e), s2)" "rel s2 (ds @ cs' @ G)" using next_law [OF s1(2)] by auto
        have "head_outside (ie_path e) (cs' @ G)"
        proof (cases cs')
          case Nil
          then show ?thesis using prems(3) sw starts_with_trans by (auto simp: head_outside_def split: list.splits)
        next
          case (Cons x xs)
          then show ?thesis using T top_in_flat [of x cs'] by (auto simp: head_outside_def)
        qed
        from Suc.IH [OF s2(2) _ this, of db "[]"] T fl prems(5) obtain o1 s3 db1 where
          r: "build_tree_internal k sha1 ops cache (ie_path e) [] s2 db = (Inr o1, s3, db1)" "rel s3 (cs' @ G)" "oid_wf o1" "set db \<subseteq> set db1"
            "no_clash db1 \<longrightarrow> is_known o1 \<and> (\<exists>es. list_all2 (stands_for (read_tree_db db1)) ds es \<and> read_tree_db db1 o1 = Inr (mutable_tree_from_entries es))" by auto
        have st: "stands_for (read_tree_db db1) n (?t o1)" if nc: "no_clash db1"
        proof -
          obtain es where es: "list_all2 (stands_for (read_tree_db db1)) ds es" "read_tree_db db1 o1 = Inr (mutable_tree_from_entries es)" "is_known o1" using r(5) nc by blast
          have bd: "buildable (read_tree_db db0) cache (ie_path e) ds" using T by blast
          obtain k' where "unfolds (read_tree_db db1) \<lparr>te_mode = TREE, te_path = ie_path e, te_oid = o1\<rparr> k'" "files_of [k'] = files_of ds"
            using tree_of_children [OF es(1) buildable_children [OF bd] es(2,3)] by blast
          moreover have "files_of ds = files_of [n]" using True tree_not_blob by (auto simp: n files_of_tree)
          ultimately show ?thesis using standsI [of base n o1 TREE _ k'] e r(3) n by simp
        qed
        have v: "entry_valid (?t o1)" using e(2) r(3) by (simp add: entry_valid_def writable_name_def)
        have "build_tree_internal (Suc k) sha1 ops cache base acc s db = build_tree_internal k sha1 ops cache base (acc @ [?t o1]) s3 db1"
          using s1(1) s2(1) sw m c r(1) by (simp add: Let_def)
        then show ?thesis using step [OF r(2,4) v st] by simp
      qed
    qed
  qed
qed simp

end

section \<open>The forest of the index\<close>

fun levels :: "nat \<Rightarrow> node list \<Rightarrow> bool" where
  "levels n [] = True"
| "levels n (Node e cs # F) \<longleftrightarrow> length (segments (ie_path e)) = Suc n \<and> levels (Suc n) cs \<and> levels n F"

lemma group_files:
  assumes f: "files_at n (e # es)" and deep: "Suc n < length (segments (ie_path e))"
  defines "P \<equiv> \<lambda>x. inside (ie_path x) (dir_of n (ie_path e))"
  shows "files_at (Suc n) (e # takeWhile P es)" "files_at n (dropWhile P es)"
proof -
  note g = group_filter [OF f deep, folded P_def]
  have cl: "clean_path (ie_path x)" "n < length (segments (ie_path x))" if "x \<in> set (e # es)" for x using f that by (auto simp: files_at_def)
  have longer: "Suc n < length (segments (ie_path x))" if "x \<in> set es" "P x" for x
    using inside_dir [of "ie_path e" "ie_path x" n] that cl deep by (simp add: P_def)
  have s: "sorted_wrt (<) (map ie_path (e # es))" using f by (simp add: files_at_def)
  then have "sorted_wrt (<) (map ie_path (e # takeWhile P es))" "sorted_wrt (<) (map ie_path (dropWhile P es))"
    unfolding g(1,2) by (auto simp: sorted_wrt_map sorted_wrt_filter)
  then show "files_at (Suc n) (e # takeWhile P es)" "files_at n (dropWhile P es)"
    using cl longer deep by (auto intro!: files_at_sub [OF f] simp: g(1,2))
qed

lemma index_levels: "files_at n es \<Longrightarrow> levels n (index_forest cache n es)"
proof (induction cache n es rule: index_forest.induct)
  case (2 cache n e es)
  show ?case
  proof (cases "length (segments (ie_path e)) \<le> Suc n")
    case True
    moreover have "files_at n es" by (rule files_at_sub [OF "2.prems"]) (use "2.prems" in \<open>auto simp: files_at_def\<close>)
    moreover have "n < length (segments (ie_path e))" using "2.prems" by (simp add: files_at_def)
    ultimately show ?thesis using "2.IH"(1) by simp
  next
    case False
    then have deep: "Suc n < length (segments (ie_path e))" by simp
    have "clean_path (ie_path e)" using "2.prems" by (simp add: files_at_def)
    then have "length (segments (dir_of n (ie_path e))) = Suc n" using dir_of_facts(1) [of "ie_path e" n] deep by simp
    then show ?thesis using False "2.IH"(2,3) [OF False refl refl] group_files [OF "2.prems" deep] by (simp add: Let_def pseudotree_fields)
  qed
qed simp

lemma child_ofI:
  assumes "repo_path base" "clean_path p" "path_starts_with p base" "length (segments p) = Suc (length (parts base))"
  shows "child_of base p"
proof -
  have "parts p = segments p" using assms(2) by (auto simp: parts_def clean_path_def segments_def clean_seg_def)
  then have "prefix (parts base) (segments p)" using assms(1-3) by (simp add: starts_with_parts repo_path_def)
  then obtain zs where "segments p = parts base @ zs" by (auto simp: prefix_def)
  then show ?thesis using assms by (cases zs) (auto simp: child_of_def butlast_append)
qed

definition cached_files :: "tree_reader \<Rightarrow> tree_cache option \<Rightarrow> node \<Rightarrow> bool" where
  "cached_files rd cache n \<longleftrightarrow> (\<forall>c. cached_child cache (ie_path (entry n)) = Some c \<longrightarrow> oid_wf (tc_oid c)
     \<and> (\<exists>m. unfolds rd \<lparr>te_mode = TREE, te_path = ie_path (entry n), te_oid = tc_oid c\<rparr> m \<and> files_of [m] = files_of [n]))"

lemma buildableI:
  assumes "forest_ok F" "repo_path base" "levels (length (parts base)) F" "\<forall>x \<in> set (flat F). path_starts_with (ie_path x) base"
    and "\<forall>x \<in> set (flat F). clean_path (ie_path x) \<and> writable_name (ie_path x) \<and> (ie_is_blob x \<longrightarrow> oid_wf (ie_oid x))"
    and "\<forall>n \<in> set (nodes F). ie_is_tree (entry n) \<longrightarrow> cached_files rd cache n"
  shows "buildable rd cache base F"
  using assms
proof (induction F arbitrary: base rule: nodes.induct)
  case (2 e cs F)
  have e: "clean_path (ie_path e)" "writable_name (ie_path e)" "path_starts_with (ie_path e) base" using "2.prems"(4,5) by simp_all
  then have c: "child_of base (ie_path e)" using "2.prems"(2,3) by (intro child_ofI) simp_all
  have F: "buildable rd cache base F" using "2.prems" by (intro "2.IH"(2)) simp_all
  have cs: "buildable rd cache (ie_path e) cs" if "ie_is_tree e"
  proof (rule "2.IH"(1))
    have "parts (ie_path e) = segments (ie_path e)" using e(1) by (auto simp: parts_def clean_path_def segments_def clean_seg_def)
    then show "levels (length (parts (ie_path e))) cs" using "2.prems"(3) by simp
  qed (use "2.prems" e in \<open>simp_all add: repo_path_def\<close>)
  have "ie_is_blob e" if "\<not> ie_is_tree e" using that "2.prems"(1) by (cases "ie_mode e") (auto simp: ie_is_tree_def ie_is_blob_def)
  then show ?case using e c F cs "2.prems"(1,5,6) by (auto simp: cached_files_def)
qed simp

lemma same_files_of: "list_all2 same_file xs ys \<Longrightarrow> (\<lambda>e. (ie_path e, ie_oid e)) ` set xs = (\<lambda>e. (ie_path e, ie_oid e)) ` set ys"
  by (induction rule: list_all2_induct) (auto simp: same_file_def)

text \<open>What an index needs to be written: names that a tree object can hold and object names of full length.\<close>

definition index_writable :: "index_inner \<Rightarrow> bool" where
  "index_writable idx \<longleftrightarrow> (\<forall>e \<in> set (std_iter idx). oid_wf (ie_oid e) \<and> (\<forall>nm \<in> set (segments (ie_path e)). utf8_valid nm \<and> b_nul \<notin> set nm))
     \<and> (\<forall>p c. cached_child (index_tree_cache idx) p = Some c \<longrightarrow> oid_wf (tc_oid c))"

lemma index_buildable:
  fixes idx
  defines "cache \<equiv> index_tree_cache idx"
  assumes m: "index_merged idx" and c: "cache_sound rd cache idx" and w: "index_writable idx"
  shows "buildable rd cache (BitPath []) (index_forest cache 0 (std_iter idx))"
proof -
  let ?F = "index_forest cache 0 (std_iter idx)"
  have F: "forest_of cache 0 (std_iter idx) ?F" by (rule index_forest_root [OF m c])
  note sh = index_root_shape [OF m c]
  show ?thesis
  proof (rule buildableI)
    show "forest_ok ?F" using F by (simp add: forest_of_def)
    show "levels (length (parts (BitPath []))) ?F" using index_levels [OF files_of_index [OF m]] by (simp add: parts_def)
    show "\<forall>x \<in> set (flat ?F). path_starts_with (ie_path x) (BitPath [])" using F inside_root by (auto simp: forest_of_def inside_def)
    show "\<forall>x \<in> set (flat ?F). clean_path (ie_path x) \<and> writable_name (ie_path x) \<and> (ie_is_blob x \<longrightarrow> oid_wf (ie_oid x))"
    proof (intro ballI conjI impI)
      fix x assume x: "x \<in> set (flat ?F)"
      then obtain e where e: "clean_path (ie_path x)" "e \<in> set (std_iter idx)" "path_starts_with (ie_path e) (ie_path x)" using F by (auto simp: forest_of_def)
      show "clean_path (ie_path x)" by (rule e(1))
      have "clean_path (ie_path e)" using files_of_index [OF m] e(2) by (simp add: files_at_def)
      then have "prefix (segments (ie_path x)) (segments (ie_path e))" using e(1,3) by (simp add: starts_with_clean)
      then have "last (segments (ie_path x)) \<in> set (segments (ie_path e))" using last_in_set [OF segments_nonempty] set_mono_prefix by blast
      then show "writable_name (ie_path x)" using w e(2) by (simp add: writable_name_def file_name_clean [OF e(1)] index_writable_def)
      assume "ie_is_blob x"
      then have "x \<in> set (blobs ?F)" using x by (simp add: blobs_def)
      then show "oid_wf (ie_oid x)" using F w by (simp add: forest_of_def index_writable_def)
    qed
    show "\<forall>n \<in> set (nodes ?F). ie_is_tree (entry n) \<longrightarrow> cached_files rd cache n"
      unfolding cached_files_def
    proof (intro ballI impI allI)
      fix n k assume n: "n \<in> set (nodes ?F)" "ie_is_tree (entry n)" "cached_child cache (ie_path (entry n)) = Some k"
      have r: "n \<in> set (nodes [index_root cache idx])" using n(1) by (simp add: index_root_def)
      have "entry n \<in> set (flat ?F)" using n(1) by (auto simp: flat_nodes)
      then have "repo_path (ie_path (entry n))" using F by (simp add: forest_of_def repo_path_def)
      then obtain k' where k': "unfolds rd \<lparr>te_mode = TREE, te_path = ie_path (entry n), te_oid = tc_oid k\<rparr> k'"
          "list_all2 same_file (blobs [k']) (filter (\<lambda>e. inside (ie_path e) (ie_path (entry n))) (std_iter idx))"
        using c n(3) unfolding cache_sound_def by blast
      have "blobs [n] = filter (\<lambda>e. inside (ie_path e) (ie_path (entry n))) (std_iter idx)"
        using index_node_files [OF sh r n(2)] index_root_files [OF m c] by simp
      then have "files_of [k'] = files_of [n]" using same_files_of [OF k'(2)] by (simp only: files_of_def)
      then show "oid_wf (tc_oid k) \<and> (\<exists>m. unfolds rd \<lparr>te_mode = TREE, te_path = ie_path (entry n), te_oid = tc_oid k\<rparr> m \<and> files_of [m] = files_of [n])"
        using w n(3) k'(1) by (auto simp: index_writable_def cache_def)
    qed
  qed (simp add: repo_path_def)
qed

lemma write_tree_aux:
  fixes idx
  defines "cache \<equiv> index_tree_cache idx"
  assumes m: "index_merged idx" and c: "cache_sound (read_tree_db db) cache idx" and w: "index_writable idx" and wf: "\<forall>bs. oid_wf (sha1 bs)"
    and fuel: "2 * length (flat [index_root cache idx]) < fuel"
  shows "\<exists>o' db'. write_tree fuel sha1 idx db = (and_then (update_cache_tree fuel (read_tree_db db') o' idx) (\<lambda>idx'. Inr (o', idx')), db') \<and> set db \<subseteq> set db'
    \<and> (no_clash db' \<longrightarrow> (\<exists>A. unfolds (read_tree_db db') (root_entry o') A \<and> files_of [A] = (\<lambda>e. (ie_path e, ie_oid e)) ` set (std_iter idx)))"
proof -
  let ?F = "index_forest cache 0 (std_iter idx)" and ?ops = "index_iter_ops_of fuel cache"
  have fl: "length (flat [index_root cache idx]) = Suc (length (flat ?F))" by (simp add: index_root_def)
  have "index_iter_rel fuel cache (index_iter_new idx) [index_root cache idx]" using fuel by (intro index_iter_start [OF m c]) simp
  then obtain s1 where s1: "it_next ?ops (index_iter_new idx) = (Inr (Some (create_pseudotree cache (BitPath []))), s1)" "index_iter_rel fuel cache s1 (?F @ [])"
    using index_entries.next_law [of fuel cache "index_iter_new idx" "index_root cache idx" "[]"] by (auto simp: index_root_def)
  have b: "buildable (read_tree_db db) cache (BitPath []) ?F" unfolding cache_def by (rule index_buildable [OF m c [unfolded cache_def] w])
  obtain o' s2 db' where r: "build_tree_internal fuel sha1 ?ops cache (BitPath []) [] s1 db = (Inr o', s2, db')" "set db \<subseteq> set db'"
      "no_clash db' \<longrightarrow> is_known o' \<and> (\<exists>es. list_all2 (stands_for (read_tree_db db')) ?F es \<and> read_tree_db db' o' = Inr (mutable_tree_from_entries es))"
    using index_entries.build_tree_internal_spec [OF wf s1(2) b, of fuel db "[]"] fuel fl by (auto simp: head_outside_def)
  have "\<not> has_conflicts idx"
  proof -
    have "s = NONE" if "((p, s), e) \<in> set (entries idx)" for p s e using merged_entry(1) [OF m that] by simp
    then show ?thesis by (fastforce simp: has_conflicts_def list_ex_iff stage_is_unmerged_def)
  qed
  then have "write_tree fuel sha1 idx db = (and_then (update_cache_tree fuel (read_tree_db db') o' idx) (\<lambda>idx'. Inr (o', idx')), db')"
    using s1(1) r(1) by (simp add: write_tree_def build_tree_def Let_def flip: cache_def)
  moreover have "\<exists>A. unfolds (read_tree_db db') (root_entry o') A \<and> files_of [A] = (\<lambda>e. (ie_path e, ie_oid e)) ` set (std_iter idx)" if nc: "no_clash db'"
  proof -
    obtain es where es: "is_known o'" "list_all2 (stands_for (read_tree_db db')) ?F es" "read_tree_db db' o' = Inr (mutable_tree_from_entries es)" using r(3) nc by blast
    have "files_of ?F = (\<lambda>e. (ie_path e, ie_oid e)) ` set (std_iter idx)" using index_forest_root [OF m c] by (simp add: files_of_def forest_of_def)
    then show ?thesis using tree_of_children [OF es(2) buildable_children [OF b] es(3,1)] es(1) by (simp add: root_entry_def)
  qed
  ultimately show ?thesis using r(2) by blast
qed

text \<open>
  C11. \<open>write_tree\<close> on an index without conflicts whose tree cache tells the truth: a tree is built and
  stored, nothing stored before is lost, and, unless two different objects have got the same name, reading the
  tree back from its bytes, directory by directory, gives exactly the files of the index. What is left
  after that is refreshing the tree cache.
\<close>

theorem write_tree_spec:
  fixes idx
  defines "cache \<equiv> index_tree_cache idx"
  assumes m: "index_merged idx" and c: "cache_sound (read_tree_db db) cache idx" and w: "index_writable idx" and wf: "\<forall>bs. oid_wf (sha1 bs)"
    and fuel: "2 * length (flat [index_root cache idx]) < fuel"
  shows "\<exists>o' db'. write_tree fuel sha1 idx db = (and_then (update_cache_tree fuel (read_tree_db db') o' idx) (\<lambda>idx'. Inr (o', idx')), db') \<and> set db \<subseteq> set db'
    \<and> (no_clash db' \<longrightarrow> (\<exists>A. unfolds (read_tree_db db') (root_entry o') A \<and> files_of [A] = (\<lambda>e. (ie_path e, ie_oid e)) ` set (std_iter idx)))"
  unfolding cache_def by (rule write_tree_aux [OF m c [unfolded cache_def] w wf fuel [unfolded cache_def]])

text \<open>The modes in octal, for evaluation.\<close>

lemma file_mode_display_code [code]:
  "file_mode_display alternate m =
     (let digits = (case m of REG \<Rightarrow> bytes_of ''100644'' | EXEC \<Rightarrow> bytes_of ''100755'' | LINK \<Rightarrow> bytes_of ''120000''
         | TREE \<Rightarrow> bytes_of ''40000'' | GITLINK \<Rightarrow> bytes_of ''160000'') in if alternate then digits else pad_left 6 48 digits)"
  by (cases m) (simp_all add: file_mode_display_def nat_digits.simps)

definition sample_sha1 :: "byte list \<Rightarrow> oid" where
  "sample_sha1 bs = replicate 19 1 @ [of_nat (length bs)]"

definition plain_index :: index_inner where
  "plain_index = \<lparr>entries = entries_from_iter [file_at ''d/x'' EMPTY_BLOB, file_at ''f'' EMPTY_BLOB], index_tree_cache = None, reuc = None\<rparr>"

theorem write_tree_spec_witness:
  "\<exists>o' db' A. snd (write_tree 20 sample_sha1 plain_index []) = db' \<and> unfolds (read_tree_db db') (root_entry o') A
     \<and> files_of [A] = {(BitPath (bytes_of ''d/x''), EMPTY_BLOB), (BitPath (bytes_of ''f''), EMPTY_BLOB)}"
proof -
  have m: "index_merged plain_index" unfolding index_merged_def by (intro conjI) code_simp+
  have c: "cache_sound (read_tree_db []) (index_tree_cache plain_index) plain_index" by (simp add: cache_sound_def cached_child_def plain_index_def)
  have e: "std_iter plain_index = [file_at ''d/x'' EMPTY_BLOB, file_at ''f'' EMPTY_BLOB]" by code_simp
  have "\<forall>e \<in> set (std_iter plain_index). oid_wf (ie_oid e) \<and> (\<forall>nm \<in> set (segments (ie_path e)). utf8_valid nm \<and> b_nul \<notin> set nm)" by code_simp
  then have w: "index_writable plain_index" by (simp add: index_writable_def cached_child_def plain_index_def)
  have f: "2 * length (flat [index_root (index_tree_cache plain_index) plain_index]) < 20" by code_simp
  have wf: "\<forall>bs. oid_wf (sample_sha1 bs)" by (simp add: oid_wf_def sample_sha1_def OID_SIZE_def)
  obtain o' db' where r: "snd (write_tree 20 sample_sha1 plain_index []) = db'"
      "no_clash db' \<longrightarrow> (\<exists>A. unfolds (read_tree_db db') (root_entry o') A \<and> files_of [A] = (\<lambda>e. (ie_path e, ie_oid e)) ` set (std_iter plain_index))"
    using write_tree_spec [OF m c w wf f] by fastforce
  have "\<not> has_conflicts plain_index" by code_simp
  then have "snd (write_tree 20 sample_sha1 plain_index []) = snd (build_tree 20 sample_sha1 (index_iter_ops_of 20 None) None (index_iter_new plain_index) [])"
    by (simp add: write_tree_def Let_def plain_index_def split: prod.split)
  moreover have "no_clash (snd (build_tree 20 sample_sha1 (index_iter_ops_of 20 None) None (index_iter_new plain_index) []))" by code_simp
  ultimately have "no_clash (snd (write_tree 20 sample_sha1 plain_index []))" by simp
  then obtain A where "unfolds (read_tree_db db') (root_entry o') A" "files_of [A] = (\<lambda>e. (ie_path e, ie_oid e)) ` set (std_iter plain_index)" using r by blast
  moreover have "(\<lambda>e. (ie_path e, ie_oid e)) ` set (std_iter plain_index) = {(BitPath (bytes_of ''d/x''), EMPTY_BLOB), (BitPath (bytes_of ''f''), EMPTY_BLOB)}"
    unfolding e by (simp add: file_at_def entry_from_tree_entry_def)
  ultimately show ?thesis using r(1) by auto
qed

end
