(* ===== verification/Bit_Stage.thy ===== *)
theory Bit_Stage
  imports Bit_Add Bit_Write_Tree
begin

text \<open>
  The tree cache under changes of the index, and what that gives together: a work tree that is staged by
  \<open>add_all\<close> and written by \<open>write_tree\<close>.
\<close>

section \<open>The tree cache stays true\<close>

text \<open>
  The invariant of an index in use: entries under their keys with clean paths, and a tree cache whose valid nodes
  count the files of their directories and name tree objects that hold just these.
\<close>

definition cache_invariant :: "tree_reader \<Rightarrow> index_inner \<Rightarrow> bool" where
  "cache_invariant rd idx \<longleftrightarrow> index_ok idx \<and> index_clean idx \<and> cache_sound rd (index_tree_cache idx) idx
     \<and> (\<forall>p c. cached_child (index_tree_cache idx) p = Some c \<longrightarrow> oid_wf (tc_oid c))"

lemma components_prefix:
  assumes "repo_path q" "repo_path p"
  shows "prefix (bit_path_components q) (bit_path_components p) \<longleftrightarrow> path_starts_with p q"
proof -
  have c: "components (path_bytes r) = map Normal (parts r)" if "repo_path r" for r
  proof (cases "path_bytes r = []")
    case True
    then show ?thesis by (simp add: parts_def components_def is_absolute_def component_of_def List.map_filter_def)
  next
    case False
    then show ?thesis using that components_clean [of r] by (simp add: repo_path_def parts_def)
  qed
  have "bit_path_components r = map BitPath (parts r)" if "repo_path r" for r using c [OF that] by (simp add: bit_path_components_def)
  then show ?thesis using assms by (simp add: starts_with_parts prefix_map_inj inj_def)
qed

lemma cached_invalidate:
  assumes "repo_path q" "repo_path p" "cached_child (map_option (\<lambda>tc. invalidate_path tc p) cache) q = Some c"
  shows "cached_child cache q = Some c \<and> \<not> path_starts_with p q"
proof (cases cache)
  case (Some tc)
  then have v: "find_valid_child (invalidate_path tc p) q = Some c" using assms(3) by (simp add: cached_child_def)
  then have n: "\<not> prefix (bit_path_components q) (bit_path_components p)" using invalidate_path_spec [of q p tc] by auto
  then have "find_child (invalidate_path tc p) q = find_child tc q" using invalidate_path_spec [of q p tc] by blast
  then show ?thesis using v n Some components_prefix [OF assms(1,2)] by (simp add: cached_child_def find_valid_child_def)
qed (use assms in \<open>simp add: cached_child_def\<close>)

lemma cached_invalidate_any:
  assumes "cached_child (map_option (\<lambda>tc. invalidate_path tc p) cache) q = Some c"
  shows "cached_child cache q = Some c"
proof (cases cache)
  case (Some tc)
  then have v: "find_valid_child (invalidate_path tc p) q = Some c" using assms by (simp add: cached_child_def)
  then have "\<not> prefix (bit_path_components q) (bit_path_components p)" using invalidate_path_spec [of q p tc] by auto
  then have "find_child (invalidate_path tc p) q = find_child tc q" using invalidate_path_spec [of q p tc] by blast
  then show ?thesis using v Some by (simp add: cached_child_def find_valid_child_def)
qed (use assms in \<open>simp add: cached_child_def\<close>)

text \<open>A change of one path whose nodes in the cache are invalidated.\<close>

lemma cache_sound_change:
  assumes c: "cache_sound rd (index_tree_cache idx) idx" and p: "repo_path p"
    and cache: "index_tree_cache idx' = map_option (\<lambda>tc. invalidate_path tc p) (index_tree_cache idx)"
    and files: "filter (\<lambda>e. ie_path e \<noteq> p) (std_iter idx') = filter (\<lambda>e. ie_path e \<noteq> p) (std_iter idx)"
  shows "cache_sound rd (index_tree_cache idx') idx'"
  unfolding cache_sound_def
proof (intro allI impI)
  fix q c assume a: "repo_path q \<and> cached_child (index_tree_cache idx') q = Some c"
  then have old: "cached_child (index_tree_cache idx) q = Some c" "\<not> path_starts_with p q"
    using cached_invalidate [of q p "index_tree_cache idx" c] p cache by simp_all
  have "filter (\<lambda>e. inside (ie_path e) q) (std_iter x) = filter (\<lambda>e. inside (ie_path e) q) (filter (\<lambda>e. ie_path e \<noteq> p) (std_iter x))" for x
    unfolding filter_filter using old(2) by (intro filter_cong) (auto simp: inside_def)
  then have "filter (\<lambda>e. inside (ie_path e) q) (std_iter idx') = filter (\<lambda>e. inside (ie_path e) q) (std_iter idx)" using files by metis
  then show "nat (tc_count c) = length (filter (\<lambda>e. inside (ie_path e) q) (std_iter idx'))
     \<and> (\<exists>n. unfolds rd \<lparr>te_mode = TREE, te_path = q, te_oid = tc_oid c\<rparr> n
          \<and> list_all2 same_file (blobs [n]) (filter (\<lambda>e. inside (ie_path e) q) (std_iter idx')))"
    using \<open>cache_sound rd (index_tree_cache idx) idx\<close> a old(1) unfolding cache_sound_def by simp
qed

lemma filter_bt_insert: "\<not> P (k, v) \<Longrightarrow> bt_sorted m \<Longrightarrow> (\<And>w. \<not> P (k, w)) \<Longrightarrow> filter P (bt_insert k v m) = filter P m"
  by (induction k v m rule: bt_insert.induct) (auto simp: bt_sorted_Cons)

lemma filter_bt_remove: "(\<And>w. \<not> P (k, w)) \<Longrightarrow> filter P (bt_remove k m) = filter P m"
  by (induction k m rule: bt_remove.induct) auto

lemma bt_remove_missing: "bt_sorted m \<Longrightarrow> bt_get m k = None \<Longrightarrow> bt_remove k m = m"
  by (rule btree.items_ext) (auto simp: bt_sorted_remove bt_get_remove)

lemma std_iter_not_at:
  "(\<forall>(k, e) \<in> set (entries idx). k = entry_key e) \<Longrightarrow>
     filter (\<lambda>e. ie_path e \<noteq> p) (std_iter idx) = filter (\<lambda>e. \<not> is_gitlink (ie_mode e)) (map snd (filter (\<lambda>x. fst (fst x) \<noteq> p) (entries idx)))"
proof -
  assume k: "\<forall>(k, e) \<in> set (entries idx). k = entry_key e"
  have "filter (\<lambda>e. ie_path e \<noteq> p) (map snd (entries idx)) = map snd (filter (\<lambda>x. fst (fst x) \<noteq> p) (entries idx))"
    unfolding filter_map o_def using k by (intro arg_cong [where f = "map snd"] filter_cong) (auto simp: entry_key_def)
  then show ?thesis unfolding std_iter_def filter_filter by (metis (no_types, lifting) filter_cong filter_filter conj_commute)
qed

lemma cache_invariant_insert:
  assumes "cache_invariant rd idx" "clean_path (ie_path e)"
  shows "cache_invariant rd (insert_entry e idx)"
proof -
  have ok: "index_ok idx" "index_clean idx" using assms(1) by (simp_all add: cache_invariant_def)
  then have ok': "index_ok (insert_entry e idx)" "index_clean (insert_entry e idx)" using assms(2) by (simp_all add: index_preserved)
  have cache: "index_tree_cache (insert_entry e idx) = map_option (\<lambda>tc. invalidate_path tc (ie_path e)) (index_tree_cache idx)"
    by (simp add: insert_entry_def invalidate_tree_cache_path_def)
  have "filter (\<lambda>x. fst (fst x) \<noteq> ie_path e) (bt_insert (entry_key e) e (entries idx)) = filter (\<lambda>x. fst (fst x) \<noteq> ie_path e) (entries idx)"
    using ok(1) by (intro filter_bt_insert) (auto simp: entry_key_def index_ok_def)
  then have "filter (\<lambda>x. ie_path x \<noteq> ie_path e) (std_iter (insert_entry e idx)) = filter (\<lambda>x. ie_path x \<noteq> ie_path e) (std_iter idx)"
    using std_iter_not_at [of idx] std_iter_not_at [of "insert_entry e idx"] ok(1) ok'(1) by (simp add: index_ok_def)
  then have "cache_sound rd (index_tree_cache (insert_entry e idx)) (insert_entry e idx)"
    using assms by (intro cache_sound_change [OF _ _ cache]) (auto simp: cache_invariant_def repo_path_def)
  then show ?thesis using assms(1) ok' cached_invalidate_any unfolding cache_invariant_def cache by blast
qed

lemma cache_invariant_remove:
  assumes "cache_invariant rd idx"
  shows "cache_invariant rd (remove_entry k idx)"
proof (cases "bt_get (entries idx) k")
  case None
  then have "remove_entry k idx = idx" using assms bt_remove_missing [of "entries idx" k] by (simp add: remove_entry_def cache_invariant_def index_ok_def)
  then show ?thesis using assms by simp
next
  case (Some e)
  have ok: "index_ok idx" "index_clean idx" using assms by (simp_all add: cache_invariant_def)
  then have ok': "index_ok (remove_entry k idx)" "index_clean (remove_entry k idx)" by (simp_all add: index_preserved)
  have p: "clean_path (fst k)" using ok Some find_clean [of idx "fst k" "snd k" e] by (simp add: find_entry_def)
  have cache: "index_tree_cache (remove_entry k idx) = map_option (\<lambda>tc. invalidate_path tc (fst k)) (index_tree_cache idx)"
    using Some by (simp add: remove_entry_def invalidate_tree_cache_path_def)
  have "filter (\<lambda>x. fst (fst x) \<noteq> fst k) (bt_remove k (entries idx)) = filter (\<lambda>x. fst (fst x) \<noteq> fst k) (entries idx)" by (rule filter_bt_remove) simp
  then have "filter (\<lambda>x. ie_path x \<noteq> fst k) (std_iter (remove_entry k idx)) = filter (\<lambda>x. ie_path x \<noteq> fst k) (std_iter idx)"
    using std_iter_not_at [of idx] std_iter_not_at [of "remove_entry k idx"] ok(1) ok'(1) by (simp add: index_ok_def)
  then have "cache_sound rd (index_tree_cache (remove_entry k idx)) (remove_entry k idx)"
    using assms p by (intro cache_sound_change [OF _ _ cache]) (auto simp: cache_invariant_def repo_path_def)
  then show ?thesis using assms ok' cached_invalidate_any unfolding cache_invariant_def cache by blast
qed

lemma cache_invariant_remove_all: "cache_invariant rd idx \<Longrightarrow> cache_invariant rd (foldl (\<lambda>idx x. remove_entry (f x) idx) idx ks)"
  by (induction ks arbitrary: idx) (auto simp: cache_invariant_remove)

lemma cache_invariant_collisions:
  "cache_invariant rd idx \<Longrightarrow> remove_collisions p idx = Inr idx' \<Longrightarrow> cache_invariant rd idx'"
  using cache_invariant_remove_all [of rd idx "\<lambda>c. (c, NONE)"] cache_invariant_remove_all [of rd _ "\<lambda>k. k"]
  by (auto simp: remove_collisions_def remove_dir_file_collisions_def remove_file_dir_collisions_def remove_directory_def and_then_eq_Inr Let_def split: if_splits)

lemma cache_invariant_common:
  "cache_invariant rd idx \<Longrightarrow> clean_path (ie_path e) \<Longrightarrow> add_entry_common wr e idx = Inr idx' \<Longrightarrow> cache_invariant rd idx'"
  by (auto simp: add_entry_common_def and_then_eq_Inr intro!: cache_invariant_insert dest: cache_invariant_collisions)

lemma cache_invariant_add:
  assumes "cache_invariant rd idx" "clean_path (ie_path e)" "add_entry lstat wr e idx = Inr idx'"
  shows "cache_invariant rd idx'"
proof -
  obtain e' where e': "fill lstat e = Inr e'" "add_entry_common wr e' (remove_conflicted (ie_path e') idx) = Inr idx'"
    using assms(3) by (auto simp: add_entry_def and_then_eq_Inr)
  have "cache_invariant rd (remove_conflicted (ie_path e') idx)" using assms(1) by (simp add: remove_conflicted_def cache_invariant_remove)
  then show ?thesis using cache_invariant_common [OF _ _ e'(2)] assms(2) fill_path [OF e'(1)] by simp
qed

lemma cache_invariant_add_conflicted:
  assumes "cache_invariant rd idx" "clean_path (ie_path e)" "add_conflicted_entry wr e s idx = Inr idx'"
  shows "cache_invariant rd idx'"
proof -
  have "add_entry_common wr (entry_set_stage e s) (remove_entry (ie_path e, NONE) idx) = Inr idx'"
    using assms(3) by (auto simp: add_conflicted_entry_def and_then_eq_Inr)
  then show ?thesis using cache_invariant_common [of rd "remove_entry (ie_path e, NONE) idx" "entry_set_stage e s"] assms(1,2)
    by (simp add: cache_invariant_remove entry_set_stage_def)
qed



section \<open>Staging keeps it\<close>

lemma cache_invariant_apply:
  assumes "cache_invariant rd idx" "apply_diff env st idx = Inr idx'"
    and "\<forall>e \<in> set (st_new st). clean_path (ie_path e)" "\<forall>d \<in> set (st_modified st). clean_path (ie_path (snd d))"
  shows "cache_invariant rd idx'"
proof -
  let ?i0 = "foldl (\<lambda>idx e. remove_entry (entry_key e) idx) idx (st_deleted st)"
  obtain i1 where i1: "try_fold (\<lambda>idx d. index_add env idx (snd d)) ?i0 (st_modified st) = Inr i1" "try_fold (index_add env) i1 (st_new st) = Inr idx'"
    using assms(2) by (auto simp: apply_diff_def and_then_eq_Inr Let_def)
  have "cache_invariant rd ?i0" using assms(1) by (rule cache_invariant_remove_all)
  have step: "cache_invariant rd j" if "cache_invariant rd i" "clean_path (ie_path e)" "index_add env i e = Inr j" for i e j
    using cache_invariant_add [OF that(1,2)] that(3) by (simp add: index_add_def)
  have "cache_invariant rd i1"
  proof (rule try_fold_invariant [OF i1(1), where P = "cache_invariant rd"])
    show "cache_invariant rd ?i0" by fact
    show "cache_invariant rd j" if "x \<in> set (st_modified st)" "cache_invariant rd i" "index_add env i (snd x) = Inr j" for i x j
      using step [OF that(2) _ that(3)] assms(4) that(1) by simp
  qed
  then show ?thesis
  proof (rule try_fold_invariant [OF i1(2), where P = "cache_invariant rd"])
    show "cache_invariant rd j" if "x \<in> set (st_new st)" "cache_invariant rd i" "index_add env i x = Inr j" for i x j
      using step [OF that(2) _ that(3)] assms(3) that(1) by simp
  qed
qed

lemma cache_invariant_has_changes:
  assumes "cache_invariant rd idx" "clean_path (ie_path w)" "has_changes env idx i w = Inr (c, w', idx')"
  shows "cache_invariant rd idx'"
proof (cases "has_changes_inner (ix_mtime env) i w")
  case ChangedMaybe
  then have "ie_path w' = ie_path w" "idx' = idx \<or> index_add env idx w' = Inr idx'"
    using assms(3) by (auto simp: has_changes_def and_then_eq_Inr split: if_splits)
  then show ?thesis using assms(1,2) cache_invariant_add [OF assms(1), of w'] by (auto simp: index_add_def)
qed (use assms in \<open>auto simp: has_changes_def\<close>)

lemma cache_invariant_next:
  assumes "worktree_diff_next env idx os ns = Inr (d, idx', os', ns')" "cache_invariant rd idx" "\<forall>n \<in> set ns. clean_path (ie_path n)"
  shows "cache_invariant rd idx' \<and> set ns' \<subseteq> set ns"
  using assms
proof (induction env idx os ns rule: worktree_diff_next.induct)
  case (4 env idx old os new ns)
  show ?case
  proof (cases "diff_cmp old new")
    case Equal
    obtain c w i1 where h: "has_changes env idx old new = Inr (c, w, i1)" using "4.prems"(1) Equal by (auto simp: and_then_eq_Inr)
    then have "cache_invariant rd i1" using cache_invariant_has_changes [OF "4.prems"(2) _ h] "4.prems"(3) by simp
    then show ?thesis using "4.IH" [OF Equal, of c i1] "4.prems" Equal h by (auto split: if_splits)
  qed (use "4.prems" in auto)
qed auto

lemma cache_invariant_run:
  assumes "worktree_diff_run env st idx os ns = Inr (st', idx')" "cache_invariant rd idx" "\<forall>n \<in> set ns. clean_path (ie_path n)"
  shows "cache_invariant rd idx'"
  using assms
proof (induction env st idx os ns rule: worktree_diff_run.induct)
  case (1 env st idx os ns)
  obtain d i1 os1 ns1 where n: "worktree_diff_next env idx os ns = Inr (d, i1, os1, ns1)"
    using "1.prems"(1) by (cases "worktree_diff_next env idx os ns") (auto simp: worktree_diff_run.simps [of env st idx os ns])
  have inv: "cache_invariant rd i1" "\<forall>n \<in> set ns1. clean_path (ie_path n)" using cache_invariant_next [OF n "1.prems"(2,3)] "1.prems"(3) by auto
  show ?case
  proof (cases d)
    case None
    then show ?thesis using "1.prems"(1) n inv by (simp add: worktree_diff_run.simps [of env st idx os ns])
  next
    case (Some x)
    then show ?thesis using "1.IH" [OF n refl Some refl refl] "1.prems"(1) n inv by (simp add: worktree_diff_run.simps [of env st idx os ns])
  qed
qed

lemma cache_invariant_add_all:
  assumes m: "index_merged idx" and l: "listing_ok env h W" and inv: "cache_invariant rd idx" and a: "add_all env W idx = Inr idx'"
  shows "cache_invariant rd idx'"
proof -
  have cl: "\<forall>w \<in> set W. clean_path (ie_path w)" using l by (simp add: listing_ok_def files_at_def)
  obtain st i0 where d: "index_diff_worktree env W MATCH_ALL idx = Inr (st, i0)" "apply_diff env st i0 = Inr idx'" using a by (auto simp: add_all_def and_then_eq_Inr)
  have "cache_invariant rd i0" using d(1) cache_invariant_run [OF _ inv, of env empty_status "std_iter idx" W st i0] cl unfolding index_diff_worktree_def match_all by simp
  moreover have st: "st = worktree_status h (ix_mtime env) empty_status (std_iter idx) W"
    using index_diff_worktree_aux [OF m l, of MATCH_ALL] d(1) unfolding match_all by auto
  have "\<forall>e \<in> set (st_new st). clean_path (ie_path e)" using cl by (simp add: st worktree_status_def empty_status_def minus_paths_def)
  moreover have "\<forall>x \<in> set (st_modified st). clean_path (ie_path (snd x))" using cl by (auto simp: st worktree_status_def empty_status_def changed_files_def)
  ultimately show ?thesis using cache_invariant_apply [OF _ d(2)] by blast
qed


definition blank_env :: index_env where
  "blank_env = \<lparr>ix_lstat = (\<lambda>_. Inl Panic), ix_write_blob = (\<lambda>_. Inr EMPTY_BLOB), ix_hash_blob = (\<lambda>_. Inr EMPTY_BLOB), ix_mtime = None\<rparr>"


end
