(* ===== verification/Bit_Protocol.thy ===== *)
theory Bit_Protocol
  imports Bit_Obj "HOL-Library.Sublist"
begin

text \<open>
  The packets of the git protocol, \<^verbatim>\<open>libbit/src/protocol.rs\<close>: packets with their length in front, messages that end
  with a flush packet, and the side bands in which a pack file is received. The stream is the list of its bytes;
  the names of capabilities are derived by the crate \<open>parse_display\<close> and are left out.
\<close>

section \<open>Model\<close>

function hex_digits :: "nat \<Rightarrow> byte list" where
  "hex_digits n = (if n < 16 then [hex_digit n] else hex_digits (n div 16) @ [hex_digit (n mod 16)])"
  by pat_completeness auto
termination
  by (relation "measure id") auto

declare hex_digits.simps [simp del]

definition format_04x :: "nat \<Rightarrow> byte list" where
  "format_04x n = pad_left 4 48 (hex_digits n)"

definition hex_digit_val :: "byte \<Rightarrow> nat option" where
  "hex_digit_val b =
     (if 48 \<le> b \<and> b \<le> 57 then Some (unat b - 48)
      else if 97 \<le> b \<and> b \<le> 102 then Some (unat b - 87)
      else if 65 \<le> b \<and> b \<le> 70 then Some (unat b - 55)
      else None)"

fun parse_hex_digits :: "nat \<Rightarrow> byte list \<Rightarrow> nat option" where
  "parse_hex_digits acc [] = Some acc"
| "parse_hex_digits acc (b # bs) =
     (case hex_digit_val b of None \<Rightarrow> None | Some d \<Rightarrow> parse_hex_digits (acc * 16 + d) bs)"

text \<open>\<open>usize::from_str_radix(s, 16)\<close> on four bytes, which cannot overflow: digits of either case, a plus may be in front.\<close>

definition parse_length :: "byte list \<Rightarrow> nat bit_result" where
  "parse_length s =
     (if \<not> utf8_valid s then Inl (Bail ''invalid utf-8'')
      else let digits = (case s of c # cs \<Rightarrow> if c = 43 then cs else s | [] \<Rightarrow> s) in
        if digits = [] then Inl (Bail ''cannot parse integer'')
        else case parse_hex_digits 0 digits of Some n \<Rightarrow> Inr n | None \<Rightarrow> Inl (Bail ''invalid digit''))"

text \<open>A length of one to three wraps around when four is subtracted, and the allocation panics.\<close>

definition read_contents_with_parsed_len :: "nat \<Rightarrow> byte list reader" where
  "read_contents_with_parsed_len n =
     (if n = 0 then rd_return [] else if n < 4 then rd_fail Panic else read_exact (n - 4))"

definition read_contents :: "byte list \<Rightarrow> byte list reader" where
  "read_contents digits = rd_bind (rd_lift (parse_length digits)) read_contents_with_parsed_len"

definition recv_packet :: "byte list reader" where
  "recv_packet = rd_bind (read_exact 4) read_contents"

lemma recv_packet_shorter: "recv_packet bs = Inr (p, r) \<Longrightarrow> length r < length bs"
  by (auto simp: recv_packet_def read_contents_def read_contents_with_parsed_len_def rd_bind_apply read_exact_def rd_lift_def and_then_eq_Inr
      split: if_splits)

function recv_message :: "byte list list reader" where
  "recv_message bs =
     (case recv_packet bs of
        Inl e \<Rightarrow> Inl e
      | Inr (packet, r) \<Rightarrow>
          if packet = [] \<or> packet = bytes_of ''done'' then Inr ([], r)
          else and_then (recv_message r) (\<lambda>(packets, r'). Inr (packet # packets, r')))"
  by pat_completeness auto
termination
  by (relation "measure length") (auto dest: recv_packet_shorter)

declare recv_message.simps [simp del]

definition SIDEBAND_DATA :: byte where "SIDEBAND_DATA = 1"
definition SIDEBAND_PROGRESS :: byte where "SIDEBAND_PROGRESS = 2"
definition SIDEBAND_ERROR :: byte where "SIDEBAND_ERROR = 3"

definition is_acknowledgement :: "byte list \<Rightarrow> bool" where
  "is_acknowledgement packet \<longleftrightarrow> utf8_valid packet \<and> (prefix (bytes_of ''ACK'') packet \<or> prefix (bytes_of ''NAK'') packet)"

text \<open>The first loop of \<open>recv_pack\<close>: the first packet that is no acknowledgement.\<close>

function skip_acknowledgements :: "byte list reader" where
  "skip_acknowledgements bs =
     (case recv_packet bs of
        Inl e \<Rightarrow> Inl e
      | Inr (packet, r) \<Rightarrow> if is_acknowledgement packet then skip_acknowledgements r else Inr (packet, r))"
  by pat_completeness auto
termination
  by (relation "measure length") (auto dest: recv_packet_shorter)

declare skip_acknowledgements.simps [simp del]

text \<open>The second loop: the bytes of the data band are written to the pack, progress is shown.\<close>

function recv_sidebands :: "byte list \<Rightarrow> byte list \<Rightarrow> byte list reader" where
  "recv_sidebands pack packet bs =
     (case packet of
        [] \<Rightarrow> Inr (pack, bs)
      | band # data \<Rightarrow>
          and_then (if band = SIDEBAND_DATA then Inr (pack @ data)
                    else if band = SIDEBAND_PROGRESS then (if utf8_valid data then Inr pack else Inl (Bail ''invalid utf-8''))
                    else if band = SIDEBAND_ERROR then Inl Panic
                    else Inl (Bail ''invalid sideband byte'')) (\<lambda>pack.
          case recv_packet bs of
            Inl e \<Rightarrow> Inl e
          | Inr (packet, r) \<Rightarrow> recv_sidebands pack packet r))"
  by pat_completeness auto
termination
  by (relation "measure (\<lambda>(_, _, bs). length bs)") (auto dest: recv_packet_shorter)

declare recv_sidebands.simps [simp del]

definition recv_pack_data :: "byte list reader" where
  "recv_pack_data = rd_bind skip_acknowledgements (recv_sidebands [])"

definition write_packet :: "byte list \<Rightarrow> byte list bit_result" where
  "write_packet bs = (if length bs < 65535 then Inr (format_04x (4 + length bs) @ bs) else Inl Panic)"

definition write_flush_packet :: "byte list" where
  "write_flush_packet = bytes_of ''0000''"

definition want :: "(oid \<Rightarrow> byte list) \<Rightarrow> oid \<Rightarrow> byte list bit_result" where
  "want to_hex o' = write_packet (bytes_of ''want '' @ to_hex o' @ [b_newline])"

definition have_packet :: "(oid \<Rightarrow> byte list) \<Rightarrow> oid \<Rightarrow> byte list bit_result" where
  "have_packet to_hex o' = write_packet (bytes_of ''have '' @ to_hex o' @ [b_newline])"

definition done_packet :: "byte list bit_result" where
  "done_packet = write_packet (bytes_of ''done'')"

section \<open>Lengths\<close>

lemma hex_digits_4:
  assumes "n < 65536"
  shows "format_04x n = map hex_digit [n div 4096, n div 256 mod 16, n div 16 mod 16, n mod 16]"
proof -
  have z: "hex_digit 0 = 48" "replicate 3 x = [x, x, x]" "replicate 2 x = [x, x]" for x :: byte by (simp_all add: hex_digit_def numeral_3_eq_3 numeral_2_eq_2)
  consider "n < 16" | "16 \<le> n" "n < 256" | "256 \<le> n" "n < 4096" | "4096 \<le> n" by linarith
  then show ?thesis
  proof cases
    case 1
    then show ?thesis by (simp add: format_04x_def pad_left_def hex_digits.simps z)
  next
    case 2
    then have "n div 16 < 16" "n div 256 = 0" by auto
    then show ?thesis using 2 by (simp add: format_04x_def pad_left_def hex_digits.simps [of n] hex_digits.simps [of "n div 16"] z)
  next
    case 3
    then have "16 \<le> n div 16" "n div 16 div 16 < 16" "n div 16 div 16 = n div 256" by auto
    then show ?thesis using 3 by (simp add: format_04x_def pad_left_def hex_digits.simps [of n] hex_digits.simps [of "n div 16"] hex_digits.simps [of "n div 256"] z)
  next
    case 4
    then have "16 \<le> n div 16" "16 \<le> n div 16 div 16" "n div 16 div 16 = n div 256" "n div 256 div 16 = n div 4096" "n div 4096 < 16" using assms by auto
    then show ?thesis using 4 by (simp add: format_04x_def pad_left_def hex_digits.simps [of n] hex_digits.simps [of "n div 16"] hex_digits.simps [of "n div 256"] hex_digits.simps [of "n div 4096"])
  qed
qed

lemma hex_digit_val_digit:
  assumes "d < 16"
  shows "hex_digit_val (hex_digit d) = Some d" "hex_digit d < 128" "hex_digit d \<noteq> 43"
proof -
  have "d = 0 \<or> d = 1 \<or> d = 2 \<or> d = 3 \<or> d = 4 \<or> d = 5 \<or> d = 6 \<or> d = 7 \<or> d = 8 \<or> d = 9 \<or> d = 10 \<or> d = 11 \<or> d = 12 \<or> d = 13 \<or> d = 14 \<or> d = 15"
    using assms by presburger
  then have "hex_digit_val (hex_digit d) = Some d \<and> hex_digit d < 128 \<and> hex_digit d \<noteq> 43"
    by (elim disjE) (simp_all add: hex_digit_def hex_digit_val_def)
  then show "hex_digit_val (hex_digit d) = Some d" "hex_digit d < 128" "hex_digit d \<noteq> 43" by simp_all
qed

lemma parse_format:
  assumes "n < 65536"
  shows "parse_length (format_04x n) = Inr n" "length (format_04x n) = 4"
proof -
  have d: "n div 4096 < 16" "n div 256 mod 16 < 16" "n div 16 mod 16 < 16" "n mod 16 < 16" using assms by auto
  note v = hex_digit_val_digit
  have "utf8_valid (format_04x n)" unfolding hex_digits_4 [OF assms] using v(2) [OF d(1)] v(2) [OF d(2)] v(2) [OF d(3)] v(2) [OF d(4)]
    by (intro utf8_valid_ascii) (simp add: ascii_def)
  moreover have "((n div 4096 * 16 + n div 256 mod 16) * 16 + n div 16 mod 16) * 16 + n mod 16 = n"
  proof -
    have "n div 4096 = n div 256 div 16" "n div 256 = n div 16 div 16" by (simp_all flip: div_mult2_eq)
    then have "n div 4096 * 16 + n div 256 mod 16 = n div 256" "n div 256 * 16 + n div 16 mod 16 = n div 16" by simp_all
    then show ?thesis by simp
  qed
  then have "parse_hex_digits 0 (format_04x n) = Some n"
    unfolding hex_digits_4 [OF assms] using v(1) [OF d(1)] v(1) [OF d(2)] v(1) [OF d(3)] v(1) [OF d(4)] by (simp del: mult_Suc)
  ultimately show "parse_length (format_04x n) = Inr n" using v(3) [OF d(1)] by (simp add: parse_length_def hex_digits_4 [OF assms])
  show "length (format_04x n) = 4" by (simp add: hex_digits_4 [OF assms])
qed

section \<open>Packets and messages\<close>

definition packet_bytes :: "byte list \<Rightarrow> byte list" where
  "packet_bytes bs = format_04x (4 + length bs) @ bs"

lemma write_packet_bytes: "length bs < 65535 \<Longrightarrow> write_packet bs = Inr (packet_bytes bs)"
  by (simp add: write_packet_def packet_bytes_def)

lemma recv_packet_roundtrip: "length bs < 65532 \<Longrightarrow> recv_packet (packet_bytes bs @ rest) = Inr (bs, rest)"
  using parse_format [of "4 + length bs"]
  by (simp add: recv_packet_def packet_bytes_def read_contents_def read_contents_with_parsed_len_def rd_bind_apply read_exact_def rd_lift_def)

interpretation packet_codec: codec packet_bytes recv_packet "\<lambda>bs. length bs < 65532"
  by unfold_locales (rule recv_packet_roundtrip)

lemma recv_flush: "recv_packet (write_flush_packet @ rest) = Inr ([], rest)"
proof -
  have "format_04x 0 = bytes_of ''0000''" using hex_digits_4 [of 0] by (simp add: hex_digit_def)
  then have "parse_length (bytes_of ''0000'') = Inr 0" using parse_format(1) [of 0] by simp
  then show ?thesis by (simp add: recv_packet_def write_flush_packet_def read_contents_def read_contents_with_parsed_len_def rd_bind_apply read_exact_def rd_lift_def)
qed

text \<open>
  C1. A message is received as it was sent: packets of fewer than 65532 bytes, none of them empty and none of
  them the word that ends a negotiation, written one after the other and followed by a flush packet, are read
  back, and what is behind the flush packet is still there.
\<close>

theorem message_roundtrip:
  assumes "\<forall>p \<in> set ps. p \<noteq> [] \<and> p \<noteq> bytes_of ''done'' \<and> length p < 65532"
  shows "\<exists>bs. traverse write_packet ps = Inr bs \<and> recv_message (concat bs @ write_flush_packet @ rest) = Inr (ps, rest)"
  using assms
proof (induction ps)
  case Nil
  then show ?case using recv_flush [of rest] by (simp add: recv_message.simps [of "write_flush_packet @ rest"])
next
  case (Cons p ps)
  then obtain bs where bs: "traverse write_packet ps = Inr bs" "recv_message (concat bs @ write_flush_packet @ rest) = Inr (ps, rest)" by auto
  have "recv_packet (packet_bytes p @ concat bs @ write_flush_packet @ rest) = Inr (p, concat bs @ write_flush_packet @ rest)"
    using Cons.prems by (intro recv_packet_roundtrip) simp
  then have "recv_message (packet_bytes p @ concat bs @ write_flush_packet @ rest) = Inr (p # ps, rest)"
    using Cons.prems bs(2) by (simp add: recv_message.simps [of "packet_bytes p @ concat bs @ write_flush_packet @ rest"])
  then show ?case using bs(1) Cons.prems by (simp add: write_packet_bytes)
qed

theorem message_roundtrip_witness:
  "\<exists>bs. traverse write_packet [bytes_of ''want'', bytes_of ''have''] = Inr bs
     \<and> recv_message (concat bs @ write_flush_packet @ [7]) = Inr ([bytes_of ''want'', bytes_of ''have''], [7])"
  by (rule message_roundtrip) (simp add: bytes_of_def)

text \<open>
  A packet of 65532 bytes or more, which \<open>write_packet\<close> accepts, has a length of five digits: the reader takes four of
  them and cuts the packet elsewhere.
\<close>

lemma long_packet_broken:
  assumes "length bs = 65532"
  shows "write_packet bs = Inr (packet_bytes bs) \<and> recv_packet (packet_bytes bs) \<noteq> Inr (bs, [])"
proof -
  have hd: "format_04x 65536 = bytes_of ''10000''" by (simp add: format_04x_def pad_left_def hex_digits.simps hex_digit_def)
  have "format_04x 4096 = bytes_of ''1000''" using hex_digits_4 [of 4096] by (simp add: hex_digit_def)
  then have "parse_length (bytes_of ''1000'') = Inr 4096" using parse_format(1) [of 4096] by simp
  then have "recv_packet (packet_bytes bs) = Inr (take 4092 (48 # bs), drop 4092 (48 # bs))"
    using assms hd by (simp add: recv_packet_def packet_bytes_def read_contents_def read_contents_with_parsed_len_def rd_bind_apply read_exact_def rd_lift_def)
  moreover have "length (take 4092 (48 # bs)) \<noteq> length bs" using assms by simp
  ultimately show ?thesis using assms by (auto simp: write_packet_bytes)
qed

section \<open>Receiving a pack\<close>

lemma recv_sidebands_data:
  assumes "\<forall>c \<in> set chunks. length c < 65531"
  shows "packet = SIDEBAND_DATA # data \<Longrightarrow>
    recv_sidebands pack packet (concat (map (\<lambda>c. packet_bytes (SIDEBAND_DATA # c)) chunks) @ write_flush_packet @ rest) = Inr (pack @ data @ concat chunks, rest)"
  using assms
proof (induction chunks arbitrary: pack packet data)
  case Nil
  then show ?case using recv_flush [of rest]
    by (simp add: recv_sidebands.simps [of _ "_ # _"] recv_sidebands.simps [of _ "[]"])
next
  case (Cons c cs)
  let ?r = "concat (map (\<lambda>c. packet_bytes (SIDEBAND_DATA # c)) cs) @ write_flush_packet @ rest"
  have "recv_packet (packet_bytes (SIDEBAND_DATA # c) @ ?r) = Inr (SIDEBAND_DATA # c, ?r)" using Cons.prems(2) by (intro recv_packet_roundtrip) simp
  then show ?case using Cons.IH [OF refl, of "pack @ data" c] Cons.prems
    by (simp add: recv_sidebands.simps [of pack "SIDEBAND_DATA # data"])
qed

lemma skip_acks:
  assumes "\<forall>a \<in> set acks. is_acknowledgement a \<and> length a < 65532" "\<not> is_acknowledgement p" "length p < 65532"
  shows "skip_acknowledgements (concat (map packet_bytes acks) @ packet_bytes p @ rest) = Inr (p, rest)"
  using assms(1)
proof (induction acks)
  case Nil
  then show ?case using assms(2) recv_packet_roundtrip [OF assms(3), of rest] by (simp add: skip_acknowledgements.simps [of "packet_bytes p @ rest"])
next
  case (Cons a as)
  let ?r = "concat (map packet_bytes as) @ packet_bytes p @ rest"
  have "recv_packet (packet_bytes a @ ?r) = Inr (a, ?r)" using Cons.prems by (intro recv_packet_roundtrip) simp
  then show ?case using Cons by (simp add: skip_acknowledgements.simps [of "packet_bytes a @ ?r"])
qed

text \<open>
  Receiving a pack: behind any number of acknowledgements, a pack that is sent in pieces on the data band and
  ended by a flush packet is put together again.
\<close>

theorem pack_received:
  assumes "\<forall>a \<in> set acks. is_acknowledgement a \<and> length a < 65532" "\<forall>c \<in> set (c # chunks). length c < 65531"
  shows "recv_pack_data (concat (map packet_bytes acks) @ packet_bytes (SIDEBAND_DATA # c)
     @ concat (map (\<lambda>c. packet_bytes (SIDEBAND_DATA # c)) chunks) @ write_flush_packet @ rest) = Inr (c @ concat chunks, rest)"
proof -
  have "\<not> is_acknowledgement (SIDEBAND_DATA # c)" by (simp add: is_acknowledgement_def SIDEBAND_DATA_def)
  then show ?thesis using skip_acks [OF assms(1), of "SIDEBAND_DATA # c"] recv_sidebands_data [of chunks "SIDEBAND_DATA # c" c "[]"] assms(2)
    by (simp add: recv_pack_data_def rd_bind_apply)
qed

end
