(* ===== verification/Spec2Isabelle.thy ===== *)
theory Spec2Isabelle
  imports Bit_Delta Bit_BTree Bit_Commit Bit_Index Bit_Refdb Bit_Pack Bit_Merge_Base Bit_Merge_Trees Bit_Odb Bit_Dag Bit_Rev Bit_Stage Bit_Protocol
begin

text \<open>
  A verification of libbit (\<^verbatim>\<open>libbit/src\<close>), the library behind \<open>bit\<close>, an implementation of git in Rust. This
  theory imports all others; each of them opens with a text that says which source files it models.

  \<^bold>\<open>The program and the theories.\<close> A repository is an object database, a database of references, an index and
  a work tree; the operations move files between them.

  \<^item> Bytes and identifiers. \<open>Bit_Prelude\<close> has machine words, results with \<open>?\<close> as \<open>and_then\<close>, readers over byte
    lists, orderings and UTF-8; \<open>Bit_Io\<close> the readers and writers of \<^verbatim>\<open>io.rs\<close> with the locales \<open>codec\<close> and
    \<open>stream_codec\<close> every serialisable type interprets; \<open>Bit_Varint\<close> the variable-length integers; \<open>Bit_Hash\<close> object
    identifiers and abbreviations; \<open>Bit_Path\<close> the paths of \<^verbatim>\<open>path.rs\<close>; \<open>Bit_BTree\<close> the ordered maps of the
    standard library (locale \<open>ordered_map\<close>).
  \<^item> Objects. \<open>Bit_Obj\<close> (modes, types, headers), \<open>Bit_Tree\<close> (\<^verbatim>\<open>obj/tree.rs\<close>), \<open>Bit_Commit\<close> (\<^verbatim>\<open>obj/commit.rs\<close>),
    \<open>Bit_Signature\<close> (\<^verbatim>\<open>signature.rs\<close>, \<^verbatim>\<open>time.rs\<close>), \<open>Bit_Delta\<close> (\<^verbatim>\<open>delta.rs\<close>): formats, round trips, what the
    parsers refuse.
  \<^item> Storage. \<open>Bit_Lockfile\<close> (\<^verbatim>\<open>lockfile.rs\<close>) with a file system of names and nodes, a step relation for processes
    that compete for a lock and mutual exclusion by rule induction; \<open>Bit_Pack_Index\<close> and \<open>Bit_Pack\<close>
    (\<^verbatim>\<open>pack.rs\<close>, \<^verbatim>\<open>pack/indexer.rs\<close>): the index of a pack, delta chains and their caches, the indexer; \<open>Bit_Odb\<close>
    (\<^verbatim>\<open>odb.rs\<close>): loose objects and packs behind one interface (locale \<open>obj_backend\<close>).
  \<^item> References. \<open>Bit_Refs\<close> (\<^verbatim>\<open>refs.rs\<close>, \<^verbatim>\<open>refs/reflog.rs\<close>), \<open>Bit_Refdb\<close> (\<^verbatim>\<open>refs/refdb.rs\<close> and the operations of
    \<^verbatim>\<open>repo.rs\<close> that move references), \<open>Bit_Rev\<close> (\<^verbatim>\<open>rev.rs\<close>, the syntax of revisions and what they name).
  \<^item> The commit graph. \<open>Bit_Revwalk\<close> (\<^verbatim>\<open>rev/revwalk.rs\<close>; locales \<open>max_queue\<close> and \<open>commit_store\<close>), \<open>Bit_Merge_Base\<close>
    (merge bases of \<^verbatim>\<open>merge.rs\<close>), \<open>Bit_Dag\<close> (\<^verbatim>\<open>graph/dag.rs\<close>).
  \<^item> The index. \<open>Bit_Index_Entry\<close>, \<open>Bit_Tree_Cache\<close> and \<open>Bit_Index\<close> (\<^verbatim>\<open>index/*.rs\<close>, \<^verbatim>\<open>index.rs\<close>): the entry map,
    collisions, conflicts, the tree cache and the file.
  \<^item> Walking trees. \<open>Bit_Tree_Iter\<close> (\<^verbatim>\<open>iter/tree_iter.rs\<close>) states the contract of a tree iterator as the locale
    \<open>tree_iterator\<close>: its state stands for the forest of entries that is left. The iterators over tree objects
    (here), over the index (\<open>Bit_Index_Iter\<close>) and the filter by a path specification (\<open>Bit_Diff\<close>) interpret it.
    \<open>Bit_Walk\<close> (\<^verbatim>\<open>iter/walk.rs\<close>) walks several iterators in step; \<open>Bit_Tree_Diff\<close> (\<^verbatim>\<open>diff/tree_diff.rs\<close>) compares two,
    proved once in the locale \<open>tree_diff\<close> for any two iterators.
  \<^item> Between tree, index and work tree. \<open>Bit_Worktree\<close> has the file operations of the repository; \<open>Bit_Diff\<close> the
    differences of a tree and the index; \<open>Bit_Add\<close> the differences of index and work tree, \<open>add\<close>, \<open>add_all\<close>,
    \<open>read_tree\<close>; \<open>Bit_Write_Tree\<close> the tree objects written from the index; \<open>Bit_Stage\<close> the invariant of the tree cache
    and the composition of \<open>add_all\<close> and \<open>write_tree\<close>. \<open>Bit_Merge\<close>, \<open>Bit_Merge_Spec\<close> and \<open>Bit_Merge_Trees\<close> model
    the three-way merge of \<^verbatim>\<open>merge.rs\<close>.

  \<^bold>\<open>How the code is read.\<close> A struct is a record, an enum a datatype, an operation one definition under the name it
  has in the source where that name is free. State is passed explicitly; \<open>Bit_Merge\<close> uses a small state monad. An
  operation that can fail returns \<open>Inl\<close> with an error of \<open>bit_error\<close>; panics, \<open>unwrap\<close>, slices out of range and
  \<open>todo!()\<close> are \<open>Panic\<close>. Integers keep their width and wrap, as the release build does, and \<open>debug_assert!\<close> does
  nothing. SHA-1, CRC-32, zlib, the hexadecimal coders, the merge of texts (crate \<open>diffy\<close>), directory listings,
  file metadata and the clock are parameters; what the theorems need of them are hypotheses, and every theorem
  with hypotheses has a witness at concrete values.

  \<^bold>\<open>Fuel.\<close> Loops that end by a measure are functions with a termination proof. Where the end depends on an iterator
  or on the object database, the loop has fuel and \<open>Diverge\<close> is its value when the fuel is used up; the
  theorems bound the fuel by the number of entries of the trees (or of commits, references, paths) and show that
  the result is then there, never only what holds if there is one. Loops of the source that can run for ever
  (symbolic references in a circle, a truncated pack entry) have that as their result.

  \<^bold>\<open>What is shown.\<close>
  \<^item> Formats: reading what was written gives it back, for trees, commits, index files, tree caches, references,
    reflogs, pack indexes, deltas, revisions; the parsers end on every input.
  \<^item> Storage: an update under a lock is published whole or not at all and two processes never hold the same lock;
    an indexed pack gives back every object, through deltas and caches; a written object is read back.
  \<^item> Graph: the revision walk yields exactly the commits reachable from the included and not from the excluded
    ones, the search for merge bases exactly the best common ancestors, when committer times grow from parent to
    child; with equal times both go wrong, which is shown by examples.
  \<^item> Index: adding an entry changes its path, what collides with it and nothing else; every operation keeps the
    tree cache true; the iterator over the index yields the directories and files of its entries.
  \<^item> Differences and staging: the walks over two trees, over a tree and the index, and over index and work tree
    report exactly the differences of the files on both sides; \<open>add_all\<close> makes the index hold the work tree, and
    \<open>write_tree\<close> stores exactly the files of the index.
  \<^item> Merge: for trees without directory/file conflicts, the merge of three trees is the three-way merge of every
    path, in the index and in the work tree.
  Where the code does not do what it is meant to, the development has a lemma with an example (collisions of a
  single entry, \<open>read_tree\<close>, the lock renamed before it is flushed, empty buckets of a pack index, orders of trees and
  of paths, and others).

  \<^bold>\<open>Not modelled.\<close> The command line (\<^verbatim>\<open>bit/\<close>, \<^verbatim>\<open>libbit/src/cmd\<close>) and the printing of logs, differences and colours,
  which only format; the network (\<^verbatim>\<open>protocol.rs\<close>, \<^verbatim>\<open>remote.rs\<close>, \<^verbatim>\<open>transport\<close>, \<^verbatim>\<open>upload_pack.rs\<close>, \<^verbatim>\<open>pack/writer.rs\<close>),
  asynchronous code around sockets and child processes; \<^verbatim>\<open>config.rs\<close>, which calls the crate \<open>git-config\<close>; the
  iterator over the work tree and its ignore rules, which rest on the crates \<open>walkdir\<close> and \<open>ignore\<close> (its listing is a
  parameter); checkout, reset, cherry-pick and the commit command, which compose modelled operations with
  the work tree iterator; interning, thread-local storage and the derive macros, which share storage and
  generate code without behaviour of their own. Symbolic links and permissions of files are not part of the
  work tree's state.
\<close>

end
